(* ===== verification/RPi_Prelude.thy ===== *)
theory RPi_Prelude
  imports Complex_Main "HOL-Library.AList"
begin

text \<open>
  Shared vocabulary of the development: how the values of the Python sources are
  represented, and the generic lemmas on association lists, filtered logs and
  bounded queues that several components use.

  Python values.  An \<open>int\<close> is \<open>int\<close> (\<open>nat\<close> where the code can only
  hold non-negative numbers), a \<open>float\<close> time stamp is a \<open>real\<close>, a \<open>str\<close>
  used as an identifier is a \<open>string\<close>, a \<open>str\<close> whose UTF-8 length matters is a
  list of code points (theory \<open>Mtu_Text\<close>).  A \<open>dict\<close> is an association list
  in insertion order: \<open>d[k] = v\<close> is \<open>AList.update k v d\<close>, which replaces in
  place or appends at the end exactly as Python does, \<open>del d[k]\<close> is
  \<open>AList.delete k d\<close> and \<open>d.get(k)\<close> is \<open>map_of d k\<close>.
\<close>

named_theorems dict_simps "rewriting of dictionary operations"
named_theorems queue_simps "rewriting of bounded queue operations"

type_synonym time = real
type_synonym ('k, 'v) pydict = "('k \<times> 'v) list"

text \<open>The exceptions the modelled code raises, without their messages.\<close>

datatype py_error =
    ValueError | KeyError | IndexError | RuntimeError | TypeError | UnicodeError | OSError |
    AttributeError

abbreviation dict_ok :: "('k, 'v) pydict \<Rightarrow> bool" where
  "dict_ok d \<equiv> distinct (map fst d)"

abbreviation keys_of :: "('k, 'v) pydict \<Rightarrow> 'k set" where
  "keys_of d \<equiv> fst ` set d"

subsection \<open>Dictionaries\<close>

lemma dict_get_set [dict_simps]:
  "map_of (AList.update k v d) k' = (if k' = k then Some v else map_of d k')"
  by (simp add: update_conv')

lemma dict_get_del [dict_simps]:
  "map_of (AList.delete k d) k' = (if k' = k then None else map_of d k')"
  by (simp add: delete_conv')

lemma dict_ok_set [intro, simp]: "dict_ok d \<Longrightarrow> dict_ok (AList.update k v d)"
  by (rule distinct_update)

lemma dict_ok_del [intro, simp]: "dict_ok d \<Longrightarrow> dict_ok (AList.delete k d)"
  by (rule distinct_delete)

lemma dict_ok_filter [intro, simp]: "dict_ok d \<Longrightarrow> dict_ok (filter P d)"
  by (induction d) auto

lemma keys_set [dict_simps]: "keys_of (AList.update k v d) = insert k (keys_of d)"
  using dom_update [of k v d] by simp

lemma keys_del [dict_simps]: "keys_of (AList.delete k d) = keys_of d - {k}"
  by (auto simp: AList.delete_eq)

lemma map_of_None_keys: "(map_of d k = None) = (k \<notin> keys_of d)"
  by (rule map_of_eq_None_iff)

lemma map_of_SomeD_keys: "map_of d k = Some v \<Longrightarrow> k \<in> keys_of d"
  by (metis map_of_None_keys option.distinct(1))

lemma length_dict_del: "length (AList.delete k d) \<le> length d"
  by (rule length_delete_le)

lemma length_dict_set_new: "k \<notin> keys_of d \<Longrightarrow> length (AList.update k v d) = Suc (length d)"
  by (induction d) (auto split: if_splits)

lemma length_dict_set_old: "k \<in> keys_of d \<Longrightarrow> length (AList.update k v d) = length d"
  by (induction d) (auto split: if_splits)

lemma length_dict_set: "length (AList.update k v d) \<le> Suc (length d)"
  by (cases "k \<in> keys_of d") (simp_all add: length_dict_set_new length_dict_set_old)

lemma length_dict_del_old:
  assumes "dict_ok d" "k \<in> keys_of d"
  shows "Suc (length (AList.delete k d)) = length d"
proof -
  have "map fst (AList.delete k d) = removeAll k (map fst d)"
    by (simp add: delete_keys removeAll_filter_not_eq)
  also have "\<dots> = remove1 k (map fst d)"
    using assms(1) by (simp add: distinct_remove1_removeAll)
  finally have "length (AList.delete k d) = length (remove1 k (map fst d))"
    by (metis length_map)
  moreover have "k \<in> set (map fst d)" using assms(2) by simp
  moreover have "d \<noteq> []" using assms(2) by auto
  ultimately show ?thesis by (simp add: length_remove1)
qed

lemma map_of_filter_key:
  assumes "dict_ok d"
  shows "map_of (filter P d) k =
    (case map_of d k of None \<Rightarrow> None | Some v \<Rightarrow> if P (k, v) then Some v else None)"
  using assms by (induction d) (auto split: option.splits simp: map_of_None_keys)

lemma dict_ok_drop [intro, simp]: "dict_ok d \<Longrightarrow> dict_ok (drop n d)"
  by (metis distinct_drop drop_map)

subsection \<open>A bounded FIFO queue: \<open>queue.Queue(maxsize)\<close>\<close>

text \<open>
  \<open>put_nowait\<close> raises \<open>queue.Full\<close> (here: the result \<open>None\<close>) when a positive
  \<open>maxsize\<close> is reached; a \<open>maxsize\<close> of zero or less is unbounded, as in the
  standard library.
\<close>

definition put_nowait :: "int \<Rightarrow> 'a \<Rightarrow> 'a list \<Rightarrow> 'a list option" where
  "put_nowait maxsize x q =
     (if 0 < maxsize \<and> maxsize \<le> int (length q) then None else Some (q @ [x]))"

definition get_nowait :: "'a list \<Rightarrow> ('a \<times> 'a list) option" where
  "get_nowait q = (case q of [] \<Rightarrow> None | x # xs \<Rightarrow> Some (x, xs))"

lemma put_nowait_None [queue_simps]:
  "put_nowait m x q = None \<longleftrightarrow> 0 < m \<and> m \<le> int (length q)"
  by (simp add: put_nowait_def)

lemma put_nowait_Some [queue_simps]:
  "put_nowait m x q = Some q' \<longleftrightarrow> \<not> (0 < m \<and> m \<le> int (length q)) \<and> q' = q @ [x]"
  by (auto simp: put_nowait_def)

lemma get_nowait_Some [queue_simps]: "get_nowait q = Some (x, q') \<longleftrightarrow> q = x # q'"
  by (cases q) (auto simp: get_nowait_def)

lemma get_nowait_None [queue_simps]: "get_nowait q = None \<longleftrightarrow> q = []"
  by (cases q) (auto simp: get_nowait_def)

text \<open>
  The contract of a bounded mailbox, as its producers and consumers rely on it: the
  bound is never exceeded, an accepted item goes to the back, a refused one leaves the
  queue alone, and items leave in the order they were accepted.
\<close>

locale mailbox =
  fixes cap :: nat
    and offer :: "'a \<Rightarrow> 'q \<Rightarrow> 'q option"
    and poll :: "'q \<Rightarrow> ('a \<times> 'q) option"
    and contents :: "'q \<Rightarrow> 'a list"
  assumes offer_accepts: "length (contents q) < cap \<Longrightarrow> \<exists>q'. offer x q = Some q'"
    and offer_back: "offer x q = Some q' \<Longrightarrow> contents q' = contents q @ [x]"
    and offer_bound: "offer x q = Some q' \<Longrightarrow> length (contents q') \<le> cap"
    and poll_front: "poll q = Some (x, q') \<Longrightarrow> contents q = x # contents q'"
    and poll_empty: "poll q = None \<longleftrightarrow> contents q = []"
begin

primrec offer_all :: "'a list \<Rightarrow> 'q \<Rightarrow> 'q \<times> nat" where
  "offer_all [] q = (q, 0)"
| "offer_all (x # xs) q =
     (case offer x q of
        None \<Rightarrow> (let (q', n) = offer_all xs q in (q', Suc n))
      | Some q1 \<Rightarrow> offer_all xs q1)"

lemma offer_all_full:
  "length (contents q) = cap \<Longrightarrow> offer_all xs q = (q, length xs)"
proof (induction xs)
  case (Cons x xs)
  have "offer x q = None"
  proof (rule ccontr)
    assume "offer x q \<noteq> None"
    then obtain q' where q': "offer x q = Some q'" by auto
    from offer_back [OF q'] offer_bound [OF q'] Cons.prems show False by simp
  qed
  with Cons show ?case by simp
qed simp

text \<open>A burst into a mailbox keeps its prefix in order and counts the rest as dropped.\<close>

lemma offer_all_prefix:
  assumes "length (contents q) \<le> cap"
  shows "contents (fst (offer_all xs q)) =
           contents q @ take (cap - length (contents q)) xs \<and>
         snd (offer_all xs q) = length xs - (cap - length (contents q))"
  using assms
proof (induction xs arbitrary: q)
  case (Cons x xs)
  show ?case
  proof (cases "length (contents q) < cap")
    case True
    then obtain q' where q': "offer x q = Some q'"
      using offer_accepts by blast
    have c: "contents q' = contents q @ [x]" by (rule offer_back [OF q'])
    have "length (contents q') \<le> cap" by (rule offer_bound [OF q'])
    from Cons.IH [OF this] q' c True show ?thesis
      by (simp add: Suc_diff_Suc [symmetric] take_Cons')
  next
    case False
    with Cons.prems have "length (contents q) = cap" by simp
    then show ?thesis by (simp only: offer_all_full) simp
  qed
qed simp

end

lemma mailbox_py_queue:
  assumes "0 < m"
  shows "mailbox (nat m) (put_nowait m) get_nowait (\<lambda>q. q)"
  using assms by unfold_locales (auto simp: queue_simps put_nowait_def split: if_splits)

subsection \<open>Optional values as lists\<close>

primrec list_of_option :: "'a option \<Rightarrow> 'a list" where
  "list_of_option None = []"
| "list_of_option (Some x) = [x]"

lemma set_list_of_option [simp]: "x \<in> set (list_of_option o1) \<longleftrightarrow> o1 = Some x"
  by (cases o1) auto

subsection \<open>\<open>min(xs, key=f)\<close>: the first smallest element\<close>

fun first_min :: "('a \<Rightarrow> real) \<Rightarrow> 'a list \<Rightarrow> 'a option" where
  "first_min f [] = None"
| "first_min f (x # xs) =
     (case first_min f xs of
        None \<Rightarrow> Some x
      | Some y \<Rightarrow> if f x \<le> f y then Some x else Some y)"

lemma first_min_None [simp]: "first_min f xs = None \<longleftrightarrow> xs = []"
  by (cases xs) (auto split: option.splits)

lemma first_min_member: "first_min f xs = Some y \<Longrightarrow> y \<in> set xs"
  by (induction xs arbitrary: y) (auto split: option.splits if_splits)

lemma first_min_le: "first_min f xs = Some y \<Longrightarrow> x \<in> set xs \<Longrightarrow> f y \<le> f x"
  by (induction xs arbitrary: y) (fastforce split: option.splits if_splits)+

subsection \<open>Lists in time order\<close>

lemma sorted_snoc_filter:
  "sorted ts \<Longrightarrow> \<forall>x\<in>set ts. x \<le> t \<Longrightarrow> sorted (filter P ts @ [t :: real])"
  by (auto simp: sorted_append sorted_wrt_filter)

lemma dropWhile_sorted_filter:
  "sorted ts \<Longrightarrow> dropWhile (\<lambda>x. x < c) ts = filter (\<lambda>x. (c :: real) \<le> x) ts"
proof (induction ts)
  case (Cons a ts)
  show ?case
  proof (cases "a < c")
    case True
    with Cons show ?thesis by simp
  next
    case False
    with Cons.prems have "\<forall>x\<in>set (a # ts). c \<le> x" by auto
    with False show ?thesis by (simp add: filter_id_conv)
  qed
qed simp

end
