(* ===== verification/Lora_Codec.thy ===== *)
theory Lora_Codec
  imports RPi_Prelude "HOL-Library.Word"
begin

text \<open>
  \<open>src/src/reticulumpi/builtin_plugins/lora_decode.py\<close>: the LoRa physical-layer codec.
  Symbols, codewords and nibbles are non-negative Python integers, here \<open>nat\<close>; the LFSR
  state (masked with \<open>0x1FF\<close> at every step) is a \<open>9 word\<close>, the CRC register (masked with
  \<open>0xFFFF\<close>) a \<open>16 word\<close>, bytes are \<open>8 word\<close>.
\<close>

unbundle bit_operations_syntax

subsection \<open>Gray code\<close>

definition gray_encode :: "nat \<Rightarrow> nat" where
  "gray_encode n = n XOR drop_bit 1 n"

text \<open>The \<open>while mask\<close> loop; the mask is halved until it is zero.\<close>

function gray_loop :: "nat \<Rightarrow> nat \<Rightarrow> nat" where
  "gray_loop n m = (if m = 0 then n else gray_loop (n XOR m) (drop_bit 1 m))"
  by pat_completeness auto
termination
  by (relation "measure snd") (auto simp: drop_bit_Suc)

declare gray_loop.simps [simp del]

definition gray_decode :: "nat \<Rightarrow> nat" where
  "gray_decode n = gray_loop n (drop_bit 1 n)"

subsection \<open>Hamming forward error correction\<close>

definition cr_in_range :: "int \<Rightarrow> bool" where
  "cr_in_range cr \<longleftrightarrow> 1 \<le> cr \<and> cr < 5"

definition hamming_encode :: "nat \<Rightarrow> int \<Rightarrow> py_error + nat" where
  "hamming_encode nibble cr =
     (if \<not> cr_in_range cr then Inl ValueError
      else
        let d0 = drop_bit 0 nibble AND 1;
            d1 = drop_bit 1 nibble AND 1;
            d2 = drop_bit 2 nibble AND 1;
            d3 = drop_bit 3 nibble AND 1
        in if cr = 1 then
             (let p0 = d0 XOR d1 XOR d2 XOR d3
              in Inr (push_bit 1 nibble OR p0))
           else if cr = 2 then
             (let p0 = d0 XOR d1 XOR d2;
                  p1 = d1 XOR d2 XOR d3
              in Inr (push_bit 2 nibble OR push_bit 1 p1 OR p0))
           else
             (let p0 = d0 XOR d1 XOR d3;
                  p1 = d0 XOR d2 XOR d3;
                  p2 = d1 XOR d2 XOR d3
              in if cr = 3 then
                   Inr (push_bit 3 nibble OR push_bit 2 p2 OR push_bit 1 p1 OR p0)
                 else
                   (let p3 = d0 XOR d1 XOR d2 XOR d3 XOR p0 XOR p1 XOR p2
                    in Inr (push_bit 4 nibble OR push_bit 3 p3 OR push_bit 2 p2
                            OR push_bit 1 p1 OR p0))))"

definition hamming74_pos :: "nat \<Rightarrow> nat option" where
  "hamming74_pos = map_of [(1, 0), (2, 1), (3, 3), (4, 2), (5, 4), (6, 5), (7, 6)]"

definition hamming84_pos :: "nat \<Rightarrow> nat option" where
  "hamming84_pos = map_of [(1, 0), (2, 1), (3, 4), (4, 2), (5, 5), (6, 6), (7, 7)]"

definition hamming_decode :: "nat \<Rightarrow> int \<Rightarrow> py_error + (nat \<times> int)" where
  "hamming_decode codeword cr =
     (if \<not> cr_in_range cr then Inl ValueError
      else
        let nibble = drop_bit (nat cr) codeword AND 15;
            d0 = drop_bit 0 nibble AND 1;
            d1 = drop_bit 1 nibble AND 1;
            d2 = drop_bit 2 nibble AND 1;
            d3 = drop_bit 3 nibble AND 1
        in if cr = 1 then
             (let p0 = codeword AND 1
              in if p0 \<noteq> d0 XOR d1 XOR d2 XOR d3 then Inr (nibble, -1) else Inr (nibble, 0))
           else if cr = 2 then
             (let p0 = drop_bit 0 codeword AND 1;
                  p1 = drop_bit 1 codeword AND 1;
                  s0 = d0 XOR d1 XOR d2 XOR p0;
                  s1 = d1 XOR d2 XOR d3 XOR p1
              in if s0 \<noteq> 0 \<or> s1 \<noteq> 0 then Inr (nibble, -1) else Inr (nibble, 0))
           else
             (let p0 = drop_bit 0 codeword AND 1;
                  p1 = drop_bit 1 codeword AND 1;
                  p2 = drop_bit 2 codeword AND 1;
                  s0 = d0 XOR d1 XOR d3 XOR p0;
                  s1 = d0 XOR d2 XOR d3 XOR p1;
                  s2 = d1 XOR d2 XOR d3 XOR p2;
                  syndrome = push_bit 2 s2 OR push_bit 1 s1 OR s0
              in if cr = 3 then
                   (if syndrome = 0 then Inr (nibble, 0)
                    else case hamming74_pos syndrome of
                           Some pos \<Rightarrow>
                             (let corrected = codeword XOR push_bit pos 1
                              in Inr (drop_bit 3 corrected AND 15, 1))
                         | None \<Rightarrow> Inr (nibble, -1))
                 else
                   (let p3 = drop_bit 3 codeword AND 1;
                        overall = d0 XOR d1 XOR d2 XOR d3 XOR p0 XOR p1 XOR p2 XOR p3
                    in if syndrome = 0 \<and> overall = 0 then Inr (nibble, 0)
                       else if syndrome = 0 \<and> overall = 1 then Inr (nibble, 1)
                       else if syndrome \<noteq> 0 \<and> overall = 1 then
                         (case hamming84_pos syndrome of
                            Some pos \<Rightarrow>
                              (let corrected = codeword XOR push_bit pos 1
                               in Inr (drop_bit 4 corrected AND 15, 1))
                          | None \<Rightarrow> Inr (nibble, -1))
                       else Inr (nibble, -1))))"

subsection \<open>Block interleaver\<close>

text \<open>
  The reduced-rate flag lowers the number of rows by two; a spreading factor below two
  then makes it negative, and the length check raises.
\<close>

definition rotate_left :: "nat \<Rightarrow> nat \<Rightarrow> nat \<Rightarrow> nat" where
  "rotate_left val k width =
     (let k = k mod width
      in if k = 0 then val
         else (push_bit k val OR drop_bit (width - k) val) AND mask width)"

definition rotate_right :: "nat \<Rightarrow> nat \<Rightarrow> nat \<Rightarrow> nat" where
  "rotate_right val k width = rotate_left val (width - k mod width) width"

definition block_rows :: "nat \<Rightarrow> bool \<Rightarrow> int" where
  "block_rows sf reduced = (if reduced then int sf - 2 else int sf)"

definition interleave :: "nat list \<Rightarrow> nat \<Rightarrow> nat \<Rightarrow> bool \<Rightarrow> py_error + nat list" where
  "interleave codewords sf cr reduced =
     (let rdd = block_rows sf reduced; ppm = 4 + cr
      in if int (length codewords) \<noteq> rdd then Inl ValueError
         else
           let rotated = map (\<lambda>i. rotate_left (codewords ! i) i ppm) [0..<nat rdd]
           in Inr (map (\<lambda>col. foldl (\<lambda>sym row.
                       push_bit 1 sym OR (drop_bit (ppm - 1 - col) (rotated ! row) AND 1))
                     0 [0..<nat rdd]) [0..<ppm]))"

definition deinterleave :: "nat list \<Rightarrow> nat \<Rightarrow> nat \<Rightarrow> bool \<Rightarrow> py_error + nat list" where
  "deinterleave symbols sf cr reduced =
     (let rdd = nat (block_rows sf reduced); ppm = 4 + cr
      in if length symbols \<noteq> ppm then Inl ValueError
         else
           let rows = foldl (\<lambda>rows col. foldl (\<lambda>rows row.
                   rows[row := rows ! row OR
                     push_bit (ppm - 1 - col) (drop_bit (rdd - 1 - row) (symbols ! col) AND 1)])
                 rows [0..<rdd]) (replicate rdd 0) [0..<ppm]
           in Inr (map (\<lambda>i. rotate_right (rows ! i) i ppm) [0..<rdd]))"

subsection \<open>Whitening and CRC\<close>

text \<open>One LFSR step: the output bit and the next state of the 9-bit register.\<close>

definition lfsr_step :: "9 word \<Rightarrow> 9 word" where
  "lfsr_step state =
     (let fb = (drop_bit 8 state XOR drop_bit 3 state) AND 1
      in push_bit 1 state OR fb)"

fun lfsr_byte :: "nat \<Rightarrow> 8 word \<times> 9 word \<Rightarrow> 8 word \<times> 9 word" where
  "lfsr_byte 0 (byte, state) = (byte, state)"
| "lfsr_byte (Suc n) (byte, state) =
     lfsr_byte n (push_bit 1 byte OR (ucast (drop_bit 8 state) AND 1), lfsr_step state)"

fun lfsr_loop :: "nat \<Rightarrow> 9 word \<Rightarrow> 8 word list" where
  "lfsr_loop 0 state = []"
| "lfsr_loop (Suc n) state =
     (let (byte, state') = lfsr_byte 8 (0, state) in byte # lfsr_loop n state')"

definition lfsr_bytes :: "nat \<Rightarrow> 8 word list" where
  "lfsr_bytes n = lfsr_loop n 511"

definition whiten :: "8 word list \<Rightarrow> nat \<Rightarrow> 8 word list" where
  "whiten data offset =
     (let seq = lfsr_bytes (offset + length data)
      in map (\<lambda>i. data ! i XOR seq ! (offset + i)) [0..<length data])"

definition crc_bit :: "16 word \<Rightarrow> 16 word" where
  "crc_bit crc = (if crc AND 0x8000 \<noteq> 0 then push_bit 1 crc XOR 0x1021 else push_bit 1 crc)"

definition crc_byte :: "16 word \<Rightarrow> 8 word \<Rightarrow> 16 word" where
  "crc_byte crc byte = (crc_bit ^^ 8) (crc XOR push_bit 8 (ucast byte))"

definition crc16_ccitt :: "8 word list \<Rightarrow> 16 word" where
  "crc16_ccitt data = foldl crc_byte 0xFFFF data"

subsection \<open>Gray code round trip\<close>

text \<open>The decoder computes the XOR of all right shifts of its input.\<close>

fun prefix_xor :: "nat \<Rightarrow> nat" where
  "prefix_xor m = (if m = 0 then 0 else m XOR prefix_xor (m div 2))"

declare prefix_xor.simps [simp del]

lemma prefix_xor_0 [simp]: "prefix_xor 0 = 0"
  by (simp add: prefix_xor.simps)

lemma prefix_xor_unfold: "prefix_xor m = m XOR prefix_xor (m div 2)"
  by (cases "m = 0") (simp_all add: prefix_xor.simps [of m])

lemma div2_xor: "((a :: nat) XOR b) div 2 = (a div 2) XOR (b div 2)"
  using drop_bit_xor [of "1" a b] by (simp only: drop_bit_eq_div power_one_right)

lemma prefix_xor_linear: "prefix_xor (a XOR b) = prefix_xor a XOR prefix_xor b"
proof (induction a arbitrary: b rule: less_induct)
  case (less a)
  show ?case
  proof (cases "a = 0")
    case True
    then show ?thesis by simp
  next
    case False
    then have "a div 2 < a" by simp
    from less.IH [OF this]
    have IH: "prefix_xor ((a div 2) XOR (b div 2)) =
        prefix_xor (a div 2) XOR prefix_xor (b div 2)" .
    have "prefix_xor (a XOR b) = (a XOR b) XOR prefix_xor ((a XOR b) div 2)"
      by (rule prefix_xor_unfold)
    also have "\<dots> = (a XOR b) XOR (prefix_xor (a div 2) XOR prefix_xor (b div 2))"
      by (simp only: div2_xor IH)
    also have "\<dots> = (a XOR prefix_xor (a div 2)) XOR (b XOR prefix_xor (b div 2))"
      by (simp add: xor.assoc xor.left_commute)
    finally show ?thesis
      by (simp only: prefix_xor_unfold [of a, symmetric] prefix_xor_unfold [of b, symmetric])
  qed
qed

lemma gray_loop_prefix_xor: "gray_loop n m = n XOR prefix_xor m"
proof (induction n m rule: gray_loop.induct)
  case (1 n m)
  show ?case
  proof (cases "m = 0")
    case True
    then show ?thesis by (simp add: gray_loop.simps)
  next
    case False
    with 1 have "gray_loop n m = (n XOR m) XOR prefix_xor (m div 2)"
      by (simp add: gray_loop.simps [of n m] drop_bit_Suc)
    then show ?thesis
      by (simp add: prefix_xor_unfold [of m] xor.assoc)
  qed
qed

lemma gray_decode_prefix_xor: "gray_decode n = prefix_xor n"
  unfolding gray_decode_def gray_loop_prefix_xor
  by (simp add: drop_bit_Suc prefix_xor_unfold [of n])

lemma xor_cancel_right: "((a :: nat) XOR b) XOR b = a"
  by (simp add: xor.assoc)

text \<open>
  Gray decoding inverts Gray encoding on every symbol: the decoder's shift-and-XOR loop
  ends and returns the encoded number.
\<close>

theorem gray_roundtrip: "gray_decode (gray_encode n) = n"
proof -
  have "gray_decode (gray_encode n) = prefix_xor n XOR prefix_xor (n div 2)"
    unfolding gray_decode_prefix_xor gray_encode_def
    by (simp add: prefix_xor_linear drop_bit_Suc)
  also have "\<dots> = n"
    by (simp add: prefix_xor_unfold [of n] xor_cancel_right)
  finally show ?thesis .
qed

end
