(* ===== verification/Lora_Interleave.thy ===== *)
theory Lora_Interleave
  imports Lora_Codec
begin

text \<open>
  Bit-level reading of the block interleaver of theory \<open>Lora_Codec\<close>: which bit of which
  codeword each bit of each symbol carries.  From it follow the round trip and the fact
  that a damaged symbol touches at most one bit of every codeword.
\<close>

unbundle bit_operations_syntax

named_theorems bit_reads "which input bit an output bit of the interleaver carries"

subsection \<open>Rotations\<close>

lemma nat_below_bits: "v < 2 ^ w \<longleftrightarrow> (\<forall>j\<ge>w. \<not> bit (v :: nat) j)"
proof
  assume "v < 2 ^ w"
  then have "take_bit w v = v" by (simp add: take_bit_nat_eq_self_iff)
  then show "\<forall>j\<ge>w. \<not> bit v j" by (metis bit_take_bit_iff leD)
next
  assume *: "\<forall>j\<ge>w. \<not> bit v j"
  have "take_bit w v = v"
    by (rule bit_eqI) (metis * bit_take_bit_iff not_le)
  then show "v < 2 ^ w" by (simp add: take_bit_nat_eq_self_iff)
qed

lemma bit_rotate_left [bit_reads]:
  assumes "0 < w" "v < 2 ^ w"
  shows "bit (rotate_left v k w) j \<longleftrightarrow> j < w \<and> bit v ((j + (w - k mod w)) mod w)"
proof -
  define k' where "k' = k mod w"
  have k': "k' < w" using assms(1) by (simp add: k'_def)
  have high: "\<not> bit v j" if "w \<le> j" for j
    using assms(2) that nat_below_bits by blast
  show ?thesis
  proof (cases "k' = 0")
    case True
    then have "rotate_left v k w = v" by (simp add: rotate_left_def k'_def)
    moreover have "j < w \<Longrightarrow> (j + (w - k mod w)) mod w = j"
      using True by (simp add: k'_def)
    ultimately show ?thesis using high by (cases "j < w") auto
  next
    case False
    then have rl: "rotate_left v k w = (push_bit k' v OR drop_bit (w - k') v) AND mask w"
      by (simp add: rotate_left_def k'_def Let_def)
    have b: "bit (rotate_left v k w) j \<longleftrightarrow>
        j < w \<and> (k' \<le> j \<and> bit v (j - k') \<or> bit v (w - k' + j))"
      by (auto simp: rl bit_and_iff bit_or_iff bit_mask_iff bit_push_bit_iff bit_drop_bit_eq)
    show ?thesis
    proof (cases "j < w")
      case jw: True
      show ?thesis
      proof (cases "k' \<le> j")
        case True
        then have "(j + (w - k')) mod w = j - k'"
          using jw k' by (simp add: mod_if)
        moreover have "\<not> bit v (w - k' + j)" using True k' by (intro high) simp
        ultimately show ?thesis using b True jw by (simp add: k'_def [symmetric])
      next
        case False
        then have "(j + (w - k')) mod w = w - k' + j"
          using jw k' by simp
        then show ?thesis using b False jw by (simp add: k'_def [symmetric] add.commute)
      qed
    qed (simp add: b)
  qed
qed

lemma rotate_left_below: "0 < w \<Longrightarrow> v < 2 ^ w \<Longrightarrow> rotate_left v k w < 2 ^ w"
  by (simp add: nat_below_bits [of "rotate_left v k w"] bit_rotate_left)

lemma bit_rotate_right [bit_reads]:
  assumes "0 < w" "v < 2 ^ w"
  shows "bit (rotate_right v k w) j \<longleftrightarrow> j < w \<and> bit v ((j + k) mod w)"
proof -
  define k' where "k' = k mod w"
  have k': "k' < w" using assms(1) by (simp add: k'_def)
  have "(j + (w - (w - k') mod w)) mod w = (j + k') mod w"
  proof (cases "k' = 0")
    case False
    then have "(w - k') mod w = w - k'" using k' by simp
    with k' show ?thesis by simp
  qed simp
  then show ?thesis
    using assms unfolding rotate_right_def
    by (simp add: bit_rotate_left k'_def mod_add_right_eq)
qed

subsection \<open>Collecting bits\<close>

lemma bit_and_one: "bit (a AND 1) k \<longleftrightarrow> k = 0 \<and> bit (a :: nat) 0"
  by (auto simp: bit_and_iff bit_1_iff bit_0)

lemma bit_fold_shift [bit_reads]:
  "bit (foldl (\<lambda>s x. push_bit 1 s OR (f x AND 1)) (0 :: nat) xs) k \<longleftrightarrow>
     k < length xs \<and> bit (f (xs ! (length xs - 1 - k))) 0"
proof (induction xs arbitrary: k rule: rev_induct)
  case (snoc x xs)
  show ?case
  proof (cases k)
    case 0
    then show ?thesis
      by (simp only: foldl_append foldl.simps bit_or_iff bit_push_bit_iff bit_and_one)
         (simp add: nth_append)
  next
    case (Suc k')
    then show ?thesis using snoc.IH [of k']
      by (simp only: foldl_append foldl.simps bit_or_iff bit_push_bit_iff bit_and_one)
         (auto simp: nth_append)
  qed
qed simp

lemma or_rows_nth:
  assumes "n \<le> length xs"
  shows "length (foldl (\<lambda>xs i. xs[i := xs ! i OR h i]) xs [0..<n]) = length xs \<and>
    (\<forall>r<length xs. foldl (\<lambda>xs i. xs[i := xs ! i OR h i]) xs [0..<n] ! r =
       (if r < n then xs ! r OR h r else xs ! r))"
  using assms by (induction n) (auto simp: nth_list_update less_Suc_eq)

lemma or_matrix_bit:
  fixes g :: "nat \<Rightarrow> nat \<Rightarrow> nat" and n :: nat
  defines "M \<equiv> \<lambda>m. foldl (\<lambda>rows col. foldl (\<lambda>rows row. rows[row := rows ! row OR g col row])
              rows [0..<n]) (replicate n 0) [0..<m]"
  shows "length (M m) = n \<and> (\<forall>r<n. \<forall>k. bit (M m ! r) k \<longleftrightarrow> (\<exists>col<m. bit (g col r) k))"
proof (induction m)
  case 0
  then show ?case by (simp add: M_def)
next
  case (Suc m)
  let ?M' = "foldl (\<lambda>rows row. rows[row := rows ! row OR g m row]) (M m) [0..<n]"
  have step: "M (Suc m) = ?M'" by (simp add: M_def)
  from Suc or_rows_nth [of n "M m" "g m"]
  have "length ?M' = n" "\<forall>r<n. ?M' ! r = M m ! r OR g m r" by auto
  with Suc step show ?case by (auto simp: bit_or_iff less_Suc_eq)
qed

subsection \<open>What the two directions compute\<close>

lemma mirror_mirror: "m < p \<Longrightarrow> p - 1 - (p - 1 - m) = (m :: nat)"
  by simp

lemma interleave_ok:
  "interleave cws sf cr red = Inr syms \<Longrightarrow>
     int (length cws) = block_rows sf red \<and> length syms = 4 + cr"
  by (auto simp: interleave_def Let_def split: if_splits)

lemma bit_interleave [bit_reads]:
  assumes "interleave cws sf cr red = Inr syms"
    and "\<forall>c\<in>set cws. c < 2 ^ (4 + cr)"
    and "col < 4 + cr" "row < length cws"
  shows "bit (syms ! col) (length cws - 1 - row) \<longleftrightarrow>
    bit (cws ! row) ((4 + cr - 1 - col + (4 + cr - row mod (4 + cr))) mod (4 + cr))"
proof -
  let ?p = "4 + cr"
  let ?rot = "map (\<lambda>i. rotate_left (cws ! i) i ?p) [0..<length cws]"
  from assms(1) have n: "nat (block_rows sf red) = length cws"
    using interleave_ok by (metis nat_int)
  from assms(1) n have syms: "syms = map (\<lambda>col. foldl (\<lambda>sym row.
       push_bit 1 sym OR (drop_bit (?p - 1 - col) (?rot ! row) AND 1)) 0 [0..<length cws]) [0..<?p]"
    by (auto simp: interleave_def Let_def split: if_splits)
  have small: "length cws - 1 - row < length cws" using assms(4) by linarith
  have "cws ! row < 2 ^ ?p" using assms by simp
  then have "bit (syms ! col) (length cws - 1 - row) \<longleftrightarrow>
      bit (rotate_left (cws ! row) row ?p) (?p - 1 - col)"
    using assms(3,4) small mirror_mirror [of row "length cws"] unfolding syms
    by (simp only: nth_map_upt [of col ?p 0, unfolded diff_zero add_0] bit_fold_shift)
       (simp add: bit_drop_bit_eq)
  also have "\<dots> \<longleftrightarrow> bit (cws ! row) ((?p - 1 - col + (?p - row mod ?p)) mod ?p)"
    using \<open>cws ! row < 2 ^ ?p\<close> assms(3) by (subst bit_rotate_left) auto
  finally show ?thesis .
qed

lemma deinterleave_ok:
  "deinterleave syms sf cr red = Inr cws \<Longrightarrow>
     length syms = 4 + cr \<and> length cws = nat (block_rows sf red)"
  by (auto simp: deinterleave_def Let_def split: if_splits)

lemma bit_deinterleave [bit_reads]:
  assumes "deinterleave syms sf cr red = Inr cws" and "i < length cws"
  shows "bit (cws ! i) k \<longleftrightarrow>
    k < 4 + cr \<and> bit (syms ! (4 + cr - 1 - (k + i) mod (4 + cr))) (length cws - 1 - i)"
proof -
  let ?p = "4 + cr" and ?n = "length cws"
  define g where "g col row = push_bit (?p - 1 - col) (drop_bit (?n - 1 - row) (syms ! col) AND 1)"
    for col row
  define rows where "rows = foldl (\<lambda>rows col. foldl (\<lambda>rows row.
     rows[row := rows ! row OR g col row]) rows [0..<?n]) (replicate ?n 0) [0..<?p]"
  have n: "nat (block_rows sf red) = ?n" using deinterleave_ok [OF assms(1)] by simp
  from assms(1) n have cws: "cws = map (\<lambda>i. rotate_right (rows ! i) i ?p) [0..<?n]"
    by (auto simp: deinterleave_def rows_def g_def Let_def split: if_splits)
  have gb: "bit (g col r) k \<longleftrightarrow> k = ?p - 1 - col \<and> bit (syms ! col) (?n - 1 - r)" for col r k
    unfolding g_def by (auto simp only: bit_push_bit_iff bit_and_one bit_drop_bit_eq) auto
  have rb: "bit (rows ! i) k \<longleftrightarrow> k < ?p \<and> bit (syms ! (?p - 1 - k)) (?n - 1 - i)" for k
  proof -
    have "bit (rows ! i) k \<longleftrightarrow> (\<exists>col<?p. bit (g col i) k)"
      using or_matrix_bit [where n = ?n and m = ?p and g = g] assms(2)
      unfolding rows_def by blast
    also have "\<dots> \<longleftrightarrow> (\<exists>col<?p. col = ?p - 1 - k \<and> k < ?p \<and> bit (syms ! col) (?n - 1 - i))"
      unfolding gb by (intro ex_cong) auto
    also have "\<dots> \<longleftrightarrow> k < ?p \<and> bit (syms ! (?p - 1 - k)) (?n - 1 - i)" by auto
    finally show ?thesis .
  qed
  then have "rows ! i < 2 ^ ?p" by (simp add: nat_below_bits)
  moreover have "cws ! i = rotate_right (rows ! i) i ?p"
    using assms(2) by (subst cws) simp
  ultimately show ?thesis by (simp add: bit_rotate_right rb)
qed

lemma deinterleave_below:
  assumes "deinterleave syms sf cr red = Inr cws" and "i < length cws"
  shows "cws ! i < 2 ^ (4 + cr)"
  by (simp add: nat_below_bits bit_deinterleave [OF assms])

lemma mod_shift_back:
  "0 < p \<Longrightarrow> k < p \<Longrightarrow> ((k + i) mod p + (p - i mod p)) mod p = (k :: nat)"
proof -
  assume p: "0 < p" "k < p"
  have "((k + i) mod p + (p - i mod p)) mod p = (k + i mod p + (p - i mod p)) mod p"
    by (metis mod_add_left_eq mod_add_right_eq)
  also have "k + i mod p + (p - i mod p) = k + p"
    using p by (simp add: less_imp_le)
  finally show ?thesis using p by simp
qed

text \<open>
  The block interleaver loses nothing: for a full block of codewords that fit their
  width, at the standard and at the reduced rate, interleaving succeeds and de-interleaving
  its symbols returns the codewords.
\<close>

theorem interleave_roundtrip:
  assumes "int (length cws) = block_rows sf red" and "\<forall>c\<in>set cws. c < 2 ^ (4 + cr)"
  shows "\<exists>syms. interleave cws sf cr red = Inr syms \<and> deinterleave syms sf cr red = Inr cws"
proof -
  let ?p = "4 + cr"
  obtain syms where s: "interleave cws sf cr red = Inr syms"
    using assms(1) by (simp add: interleave_def Let_def)
  then have "length syms = ?p" using interleave_ok by blast
  then obtain cws' where d: "deinterleave syms sf cr red = Inr cws'"
    by (simp add: deinterleave_def Let_def)
  have len: "length cws' = length cws"
    using deinterleave_ok [OF d] by (simp only: assms(1) [symmetric] nat_int)
  have "cws' = cws"
  proof (rule nth_equalityI [OF len], rule bit_eqI)
    fix i k assume i: "i < length cws'"
    let ?col = "?p - 1 - (k + i) mod ?p"
    have c: "?p - 1 - ?col = (k + i) mod ?p"
      by (rule mirror_mirror) simp
    have "bit (cws' ! i) k \<longleftrightarrow> k < ?p \<and> bit (syms ! ?col) (length cws - 1 - i)"
      using bit_deinterleave [OF d i] len by simp
    also have "\<dots> \<longleftrightarrow> k < ?p \<and> bit (cws ! i) (((k + i) mod ?p + (?p - i mod ?p)) mod ?p)"
      using bit_interleave [OF s assms(2), of ?col i] i len by (simp only: c)
    also have "\<dots> \<longleftrightarrow> k < ?p \<and> bit (cws ! i) k"
      using mod_shift_back [of ?p k i] by auto
    also have "\<dots> \<longleftrightarrow> bit (cws ! i) k"
      using assms(2) i len nat_below_bits [of "cws ! i" ?p] by (metis leI nth_mem)
    finally show "bit (cws' ! i) k \<longleftrightarrow> bit (cws ! i) k" .
  qed
  with s d show ?thesis by blast
qed

theorem interleave_roundtrip_witness:
  "\<exists>syms. interleave [1, 2, 3, 4, 31] 7 1 True = Inr syms \<and>
     deinterleave syms 7 1 True = Inr [1, 2, 3, 4, 31]"
  by (rule interleave_roundtrip) (simp_all add: block_rows_def)

text \<open>A damaged symbol changes at most one bit of every codeword.\<close>

lemma differ_in_one_bit:
  assumes "\<And>k. k \<noteq> k0 \<Longrightarrow> bit (a :: nat) k = bit b k"
  shows "a = b \<or> a = b XOR push_bit k0 1"
proof (cases "bit a k0 = bit b k0")
  case True
  have "a = b" by (rule bit_eqI) (metis True assms)
  then show ?thesis ..
next
  case False
  have "bit a k = bit (b XOR push_bit k0 1) k" for k
    using False assms [of k] by (cases "k = k0") (auto simp: bit_xor_iff bit_exp_iff)
  then have "a = b XOR push_bit k0 1" by (intro bit_eqI)
  then show ?thesis ..
qed

lemma one_symbol_one_bit:
  assumes d: "deinterleave syms sf cr red = Inr cws"
    and d': "deinterleave (syms[c := x]) sf cr red = Inr cws'"
    and i: "i < length cws"
  shows "cws' ! i = cws ! i \<or> (\<exists>k<4 + cr. cws' ! i = cws ! i XOR push_bit k 1)"
proof -
  let ?p = "4 + cr"
  let ?k = "(?p - 1 - c + (?p - i mod ?p)) mod ?p"
  have len: "length cws' = length cws"
    using deinterleave_ok [OF d] deinterleave_ok [OF d'] by simp
  have k: "?k < ?p" by simp
  have same: "bit (cws' ! i) k \<longleftrightarrow> bit (cws ! i) k" if "k \<noteq> ?k" for k
  proof (cases "k < ?p")
    case True
    have "?p - 1 - (k + i) mod ?p \<noteq> c"
    proof
      assume "?p - 1 - (k + i) mod ?p = c"
      then have "(k + i) mod ?p = ?p - 1 - c"
        using mirror_mirror [of "(k + i) mod ?p" ?p] by simp
      then have "k = ?k" using mod_shift_back [of ?p k i] True by simp
      with that show False by simp
    qed
    then have "syms[c := x] ! (?p - 1 - (k + i) mod ?p) = syms ! (?p - 1 - (k + i) mod ?p)"
      by (metis nth_list_update_neq)
    then show ?thesis
      using bit_deinterleave [OF d i] bit_deinterleave [OF d'] i len by simp
  next
    case False
    then show ?thesis using bit_deinterleave [OF d i] bit_deinterleave [OF d'] i len by simp
  qed
  from differ_in_one_bit [OF same] k show ?thesis by blast
qed

end
