(* ===== verification/Lora_Fec.thy ===== *)
theory Lora_Fec
  imports Lora_Interleave
begin

text \<open>
  The error-correcting strength of the codec: tables of the four Hamming codes, evaluated
  by the simplifier, and the block-level consequence that interleaving turns one destroyed
  symbol into one correctable bit error per codeword.
\<close>

unbundle bit_operations_syntax

subsection \<open>The codes, evaluated\<close>

lemma hamming_table_1:
  "hamming_encode 0 1 = Inr 0"
  "hamming_encode 1 1 = Inr 3"
  "hamming_encode 2 1 = Inr 5"
  "hamming_encode 3 1 = Inr 6"
  "hamming_encode 4 1 = Inr 9"
  "hamming_encode 5 1 = Inr 10"
  "hamming_encode 6 1 = Inr 12"
  "hamming_encode 7 1 = Inr 15"
  "hamming_encode 8 1 = Inr 17"
  "hamming_encode 9 1 = Inr 18"
  "hamming_encode 10 1 = Inr 20"
  "hamming_encode 11 1 = Inr 23"
  "hamming_encode 12 1 = Inr 24"
  "hamming_encode 13 1 = Inr 27"
  "hamming_encode 14 1 = Inr 29"
  "hamming_encode 15 1 = Inr 30"
  by (simp_all add: hamming_encode_def cr_in_range_def numeral_3_eq_3 [symmetric])

lemma hamming_table_2:
  "hamming_encode 0 2 = Inr 0"
  "hamming_encode 1 2 = Inr 5"
  "hamming_encode 2 2 = Inr 11"
  "hamming_encode 3 2 = Inr 14"
  "hamming_encode 4 2 = Inr 19"
  "hamming_encode 5 2 = Inr 22"
  "hamming_encode 6 2 = Inr 24"
  "hamming_encode 7 2 = Inr 29"
  "hamming_encode 8 2 = Inr 34"
  "hamming_encode 9 2 = Inr 39"
  "hamming_encode 10 2 = Inr 41"
  "hamming_encode 11 2 = Inr 44"
  "hamming_encode 12 2 = Inr 49"
  "hamming_encode 13 2 = Inr 52"
  "hamming_encode 14 2 = Inr 58"
  "hamming_encode 15 2 = Inr 63"
  by (simp_all add: hamming_encode_def cr_in_range_def numeral_3_eq_3 [symmetric])

lemma hamming_table_3:
  "hamming_encode 0 3 = Inr 0"
  "hamming_encode 1 3 = Inr 11"
  "hamming_encode 2 3 = Inr 21"
  "hamming_encode 3 3 = Inr 30"
  "hamming_encode 4 3 = Inr 38"
  "hamming_encode 5 3 = Inr 45"
  "hamming_encode 6 3 = Inr 51"
  "hamming_encode 7 3 = Inr 56"
  "hamming_encode 8 3 = Inr 71"
  "hamming_encode 9 3 = Inr 76"
  "hamming_encode 10 3 = Inr 82"
  "hamming_encode 11 3 = Inr 89"
  "hamming_encode 12 3 = Inr 97"
  "hamming_encode 13 3 = Inr 106"
  "hamming_encode 14 3 = Inr 116"
  "hamming_encode 15 3 = Inr 127"
  by (simp_all add: hamming_encode_def cr_in_range_def numeral_3_eq_3 [symmetric])

lemma hamming_table_4:
  "hamming_encode 0 4 = Inr 0"
  "hamming_encode 1 4 = Inr 27"
  "hamming_encode 2 4 = Inr 45"
  "hamming_encode 3 4 = Inr 54"
  "hamming_encode 4 4 = Inr 78"
  "hamming_encode 5 4 = Inr 85"
  "hamming_encode 6 4 = Inr 99"
  "hamming_encode 7 4 = Inr 120"
  "hamming_encode 8 4 = Inr 135"
  "hamming_encode 9 4 = Inr 156"
  "hamming_encode 10 4 = Inr 170"
  "hamming_encode 11 4 = Inr 177"
  "hamming_encode 12 4 = Inr 201"
  "hamming_encode 13 4 = Inr 210"
  "hamming_encode 14 4 = Inr 228"
  "hamming_encode 15 4 = Inr 255"
  by (simp_all add: hamming_encode_def cr_in_range_def numeral_3_eq_3 [symmetric])

lemmas hamming_eval =
  hamming_decode_def cr_in_range_def hamming74_pos_def hamming84_pos_def
  numeral_3_eq_3 [symmetric]

lemmas ball_expand =
  hamming_table_1 hamming_table_2 hamming_table_3 hamming_table_4 sum.sel
  ball_simps simp_thms numeral_less_iff zero_less_numeral one_less_numeral_iff not_less_zero
  not_numeral_less_zero not_numeral_less_one Num.rel_simps less_irrefl zero_less_one

abbreviation flip :: "nat \<Rightarrow> nat \<Rightarrow> nat" where
  "flip c i \<equiv> c XOR push_bit i 1"

lemma hamming_clean_1:
  "\<forall>n\<in>{0, 1, 2, 3, 4, 5, 6, 7, 8, 9, 10, 11, 12, 13, 14, 15}. hamming_decode (projr (hamming_encode n 1)) 1 = Inr (n, 0)"
  by (simp only: ball_expand, intro conjI) (simp_all add: hamming_eval)

lemma hamming_clean_2:
  "\<forall>n\<in>{0, 1, 2, 3, 4, 5, 6, 7, 8, 9, 10, 11, 12, 13, 14, 15}. hamming_decode (projr (hamming_encode n 2)) 2 = Inr (n, 0)"
  by (simp only: ball_expand, intro conjI) (simp_all add: hamming_eval)

lemma hamming_clean_3:
  "\<forall>n\<in>{0, 1, 2, 3, 4, 5, 6, 7, 8, 9, 10, 11, 12, 13, 14, 15}. hamming_decode (projr (hamming_encode n 3)) 3 = Inr (n, 0)"
  by (simp only: ball_expand, intro conjI) (simp_all add: hamming_eval)

lemma hamming_clean_4:
  "\<forall>n\<in>{0, 1, 2, 3, 4, 5, 6, 7, 8, 9, 10, 11, 12, 13, 14, 15}. hamming_decode (projr (hamming_encode n 4)) 4 = Inr (n, 0)"
  by (simp only: ball_expand, intro conjI) (simp_all add: hamming_eval)

lemma hamming_single_1:
  "\<forall>n\<in>{0, 1, 2, 3, 4, 5, 6, 7, 8, 9, 10, 11, 12, 13, 14, 15}. \<forall>i\<in>{0, 1, 2, 3, 4}.
     map_sum id snd (hamming_decode (flip (projr (hamming_encode n 1)) i) 1) = Inr (-1)"
  by (simp only: ball_expand, intro conjI) (simp_all add: hamming_eval)

lemma hamming_single_2:
  "\<forall>n\<in>{0, 1, 2, 3, 4, 5, 6, 7, 8, 9, 10, 11, 12, 13, 14, 15}. \<forall>i\<in>{0, 1, 2, 3, 4, 5}.
     map_sum id snd (hamming_decode (flip (projr (hamming_encode n 2)) i) 2) = Inr (-1)"
  by (simp only: ball_expand, intro conjI) (simp_all add: hamming_eval)

lemma hamming_single_3:
  "\<forall>n\<in>{0, 1, 2, 3, 4, 5, 6, 7, 8, 9, 10, 11, 12, 13, 14, 15}. \<forall>i\<in>{0, 1, 2, 3, 4, 5, 6}.
     hamming_decode (flip (projr (hamming_encode n 3)) i) 3 = Inr (n, 1)"
  by (simp only: ball_expand, intro conjI) (simp_all add: hamming_eval)

lemma hamming_single_4:
  "\<forall>n\<in>{0, 1, 2, 3, 4, 5, 6, 7, 8, 9, 10, 11, 12, 13, 14, 15}. \<forall>i\<in>{0, 1, 2, 3, 4, 5, 6, 7}.
     hamming_decode (flip (projr (hamming_encode n 4)) i) 4 = Inr (n, 1)"
  by (simp only: ball_expand, intro conjI) (simp_all add: hamming_eval)

lemma hamming_double_lo:
  "\<forall>n\<in>{0, 1, 2, 3, 4, 5, 6, 7}. \<forall>i\<in>{0, 1, 2, 3, 4, 5, 6, 7}. \<forall>j\<in>{0, 1, 2, 3, 4, 5, 6, 7}.
     i < j \<longrightarrow> map_sum id snd
       (hamming_decode (flip (flip (projr (hamming_encode n 4)) i) j) 4) = Inr (-1)"
  by (simp only: ball_expand, intro conjI) (simp_all add: hamming_eval)

lemma hamming_double_hi:
  "\<forall>n\<in>{8, 9, 10, 11, 12, 13, 14, 15}. \<forall>i\<in>{0, 1, 2, 3, 4, 5, 6, 7}. \<forall>j\<in>{0, 1, 2, 3, 4, 5, 6, 7}.
     i < j \<longrightarrow> map_sum id snd
       (hamming_decode (flip (flip (projr (hamming_encode n 4)) i) j) 4) = Inr (-1)"
  by (simp only: ball_expand, intro conjI) (simp_all add: hamming_eval)


lemma nibble_cases:
  assumes "n < (16 :: nat)"
  shows "n \<in> {0, 1, 2, 3, 4, 5, 6, 7, 8, 9, 10, 11, 12, 13, 14, 15}"
  using assms by (simp add: numeral_eq_Suc less_Suc_eq)

lemma position_cases:
  assumes "i < (8 :: nat)"
  shows "i \<in> {0, 1, 2, 3, 4, 5, 6, 7}"
  using assms by (simp add: numeral_eq_Suc less_Suc_eq)

lemma encode_is_Inr: "cr_in_range cr \<Longrightarrow> hamming_encode n cr = Inr (projr (hamming_encode n cr))"
  by (simp add: hamming_encode_def Let_def)

lemma cr_cases: "cr_in_range cr \<longleftrightarrow> cr = 1 \<or> cr = 2 \<or> cr = 3 \<or> cr = 4"
  by (auto simp: cr_in_range_def)

text \<open>A code of rate \<open>cr\<close> has \<open>4 + cr\<close> bits.\<close>

lemma hamming_width:
  assumes "n < 16" "cr_in_range cr"
  shows "projr (hamming_encode n cr) < 2 ^ (4 + nat cr)"
  using nibble_cases [OF assms(1)] assms(2) unfolding cr_cases
  by (elim disjE insertE emptyE)
     (simp_all only: hamming_table_1 hamming_table_2 hamming_table_3 hamming_table_4 sum.sel, simp_all)

lemma hamming_single_correct:
  assumes "n < 16" "cr = 3 \<or> cr = 4" "i < 4 + nat cr"
  shows "hamming_decode (flip (projr (hamming_encode n cr)) i) cr = Inr (n, 1)"
  using assms(2)
proof
  assume cr: "cr = 3"
  with assms(3) have "i \<in> {0, 1, 2, 3, 4, 5, 6}"
    by (simp add: numeral_eq_Suc less_Suc_eq)
  then show ?thesis using hamming_single_3 nibble_cases [OF assms(1)] unfolding cr by blast
next
  assume cr: "cr = 4"
  with assms(3) have "i < 8" by simp
  then show ?thesis
    using hamming_single_4 nibble_cases [OF assms(1)] position_cases unfolding cr by blast
qed

lemma hamming_clean:
  assumes "n < 16" "cr_in_range cr"
  shows "hamming_decode (projr (hamming_encode n cr)) cr = Inr (n, 0)"
  using assms(2) nibble_cases [OF assms(1)] unfolding cr_cases
  by (elim disjE)
     (use hamming_clean_1 hamming_clean_2 hamming_clean_3 hamming_clean_4 in \<open>blast+\<close>)

lemma hamming_single_detect:
  assumes "n < 16" "cr = 1 \<or> cr = 2" "i < 4 + nat cr"
  shows "map_sum id snd (hamming_decode (flip (projr (hamming_encode n cr)) i) cr) = Inr (-1)"
  using assms(2)
proof
  assume cr: "cr = 1"
  with assms(3) have "i \<in> {0, 1, 2, 3, 4}" by (simp add: numeral_eq_Suc less_Suc_eq)
  then show ?thesis using hamming_single_1 nibble_cases [OF assms(1)] unfolding cr by blast
next
  assume cr: "cr = 2"
  with assms(3) have "i \<in> {0, 1, 2, 3, 4, 5}" by (simp add: numeral_eq_Suc less_Suc_eq)
  then show ?thesis using hamming_single_2 nibble_cases [OF assms(1)] unfolding cr by blast
qed

lemma hamming_double_detect:
  assumes "n < 16" "i < j" "j < 8"
  shows "map_sum id snd
    (hamming_decode (flip (flip (projr (hamming_encode n 4)) i) j) 4) = Inr (-1)"
proof -
  have ij: "i \<in> {0, 1, 2, 3, 4, 5, 6, 7}" "j \<in> {0, 1, 2, 3, 4, 5, 6, 7}"
    using assms by (intro position_cases; linarith)+
  from nibble_cases [OF assms(1)]
  have "n \<in> {0, 1, 2, 3, 4, 5, 6, 7} \<or> n \<in> {8, 9, 10, 11, 12, 13, 14, 15}" by blast
  then show ?thesis
    using hamming_double_lo hamming_double_hi ij assms(2) by blast
qed

text \<open>
  The Hamming layer at every coding rate: a clean codeword decodes to its nibble with no
  error reported; a single flipped bit is detected at rates 1 and 2 and corrected at rates 3
  and 4; two flipped bits are detected at rate 4.
\<close>

theorem hamming_strength:
  assumes "n < 16" "i < j" "j < 8"
  shows "(\<forall>cr\<in>{1, 2, 3, 4}. hamming_decode (projr (hamming_encode n cr)) cr = Inr (n, 0)) \<and>
    (\<forall>cr\<in>{1, 2}. \<forall>k<4 + nat cr.
       map_sum id snd (hamming_decode (flip (projr (hamming_encode n cr)) k) cr) = Inr (-1)) \<and>
    (\<forall>cr\<in>{3, 4}. \<forall>k<4 + nat cr.
       hamming_decode (flip (projr (hamming_encode n cr)) k) cr = Inr (n, 1)) \<and>
    map_sum id snd
      (hamming_decode (flip (flip (projr (hamming_encode n 4)) i) j) 4) = Inr (-1)"
  using assms hamming_clean [OF assms(1)] hamming_single_detect [OF assms(1)]
    hamming_single_correct [OF assms(1)] hamming_double_detect
  by (simp add: cr_cases)

theorem hamming_strength_witness:
  "hamming_decode (projr (hamming_encode 9 3)) 3 = Inr (9, 0) \<and>
   map_sum id snd (hamming_decode (flip (flip (projr (hamming_encode 9 4)) 2) 5) 4) = Inr (-1)"
  using hamming_strength [of 9 2 5] by simp

subsection \<open>One lost symbol\<close>

lemma block_bits:
  assumes "\<forall>n\<in>set nibbles. n < 16" "cr_in_range cr"
  shows "\<forall>c\<in>set (map (\<lambda>n. projr (hamming_encode n cr)) nibbles). c < 2 ^ (4 + nat cr)"
  using assms hamming_width by auto

text \<open>
  C40. A block survives the loss of a whole symbol: at coding rates 3 and 4, encode a block of
  nibbles, interleave it, replace any one received symbol by anything; de-interleaving and
  Hamming-decoding still returns every nibble of the block.
\<close>

theorem lost_symbol_corrected:
  assumes "\<forall>n\<in>set nibbles. n < 16" and "cr = 3 \<or> cr = 4"
    and "int (length nibbles) = block_rows sf red"
  shows "\<exists>syms. interleave (map (\<lambda>n. projr (hamming_encode n cr)) nibbles) sf (nat cr) red = Inr syms \<and>
    (\<forall>c x. \<exists>cws'. deinterleave (syms[c := x]) sf (nat cr) red = Inr cws' \<and>
       map (\<lambda>w. map_sum id fst (hamming_decode w cr)) cws' = map Inr nibbles)"
proof -
  let ?cws = "map (\<lambda>n. projr (hamming_encode n cr)) nibbles"
  have cr: "cr_in_range cr" using assms(2) by (auto simp: cr_cases)
  have "int (length ?cws) = block_rows sf red" using assms(3) by simp
  from interleave_roundtrip [OF this block_bits [OF assms(1) cr]]
  obtain syms where s: "interleave ?cws sf (nat cr) red = Inr syms"
    and d: "deinterleave syms sf (nat cr) red = Inr ?cws" by blast
  have "\<exists>cws'. deinterleave (syms[c := x]) sf (nat cr) red = Inr cws' \<and>
       map (\<lambda>w. map_sum id fst (hamming_decode w cr)) cws' = map Inr nibbles" for c x
  proof -
    have "length (syms[c := x]) = 4 + nat cr" using deinterleave_ok [OF d] by simp
    then obtain cws' where d': "deinterleave (syms[c := x]) sf (nat cr) red = Inr cws'"
      by (simp add: deinterleave_def Let_def)
    have len: "length cws' = length ?cws"
      using deinterleave_ok [OF d] deinterleave_ok [OF d'] by simp
    have "map_sum id fst (hamming_decode (cws' ! i) cr) = Inr (nibbles ! i)"
      if i: "i < length nibbles" for i
    proof -
      have n: "nibbles ! i < 16" using assms(1) i by simp
      from i one_symbol_one_bit [OF d d', of i]
      have "cws' ! i = projr (hamming_encode (nibbles ! i) cr) \<or>
        (\<exists>k<4 + nat cr. cws' ! i = flip (projr (hamming_encode (nibbles ! i) cr)) k)" by simp
      then show ?thesis
        using hamming_clean [OF n cr] hamming_single_correct [OF n assms(2)] by auto
    qed
    then have "map (\<lambda>w. map_sum id fst (hamming_decode w cr)) cws' = map Inr nibbles"
      using len by (intro nth_equalityI) simp_all
    with d' show ?thesis by blast
  qed
  with s show ?thesis by blast
qed

theorem lost_symbol_corrected_witness:
  "\<exists>syms. interleave (map (\<lambda>n. projr (hamming_encode n 3)) [1, 14, 7, 9, 0, 15, 4]) 7 3 False = Inr syms \<and>
    (\<forall>c x. \<exists>cws'. deinterleave (syms[c := x]) 7 3 False = Inr cws' \<and>
       map (\<lambda>w. map_sum id fst (hamming_decode w 3)) cws' = map Inr [1, 14, 7, 9, 0, 15, 4])"
  using lost_symbol_corrected [of "[1, 14, 7, 9, 0, 15, 4]" 3 7 False]
  by (simp add: block_rows_def)

end
