(* ===== verification/Lora_Crc.thy ===== *)
theory Lora_Crc
  imports Lora_Codec
begin

text \<open>Properties of the whitening sequence and of the CRC-16 of theory \<open>Lora_Codec\<close>.\<close>

unbundle bit_operations_syntax

subsection \<open>Whitening\<close>

lemma length_lfsr_loop [simp]: "length (lfsr_loop n s) = n"
  by (induction n arbitrary: s) (auto simp: split_beta)

lemma lfsr_loop_prefix: "n \<le> m \<Longrightarrow> take n (lfsr_loop m s) = lfsr_loop n s"
proof (induction n arbitrary: m s)
  case (Suc n)
  then obtain m' where "m = Suc m'" by (cases m) auto
  with Suc show ?case by (simp add: split_beta)
qed simp

lemma lfsr_bytes_nth: "i < n \<Longrightarrow> n \<le> m \<Longrightarrow> lfsr_bytes m ! i = lfsr_bytes n ! i"
  unfolding lfsr_bytes_def using lfsr_loop_prefix by (metis nth_take)

lemma length_whiten [simp]: "length (whiten d off) = length d"
  by (simp add: whiten_def Let_def)

lemma whiten_nth:
  "i < length d \<Longrightarrow> off + length d \<le> m \<Longrightarrow>
     whiten d off ! i = d ! i XOR lfsr_bytes m ! (off + i)"
  by (simp add: whiten_def Let_def lfsr_bytes_nth [of "off + i" "off + length d" m])

text \<open>
  Whitening is its own inverse at every offset, and it may be applied piecewise: a frame
  whitened in two pieces, the second at the offset where the first ended, is the frame
  whitened at once.
\<close>

theorem whiten_involution_chunks:
  "whiten (whiten d off) off = d \<and>
   whiten (a @ b) off = whiten a off @ whiten b (off + length a)"
proof
  show "whiten (whiten d off) off = d"
    by (rule nth_equalityI)
       (simp_all add: whiten_nth [where m = "off + length d"] xor.assoc)
  show "whiten (a @ b) off = whiten a off @ whiten b (off + length a)"
  proof (rule nth_equalityI)
    fix i assume i: "i < length (whiten (a @ b) off)"
    let ?m = "off + length a + length b"
    have "whiten (a @ b) off ! i = (a @ b) ! i XOR lfsr_bytes ?m ! (off + i)"
      using i by (intro whiten_nth) simp_all
    also have "\<dots> = (whiten a off @ whiten b (off + length a)) ! i"
    proof (cases "i < length a")
      case True
      then show ?thesis using whiten_nth [of i a off ?m] by (simp add: nth_append)
    next
      case False
      then show ?thesis
        using i whiten_nth [of "i - length a" b "off + length a" ?m] by (simp add: nth_append)
    qed
    finally show "whiten (a @ b) off ! i = (whiten a off @ whiten b (off + length a)) ! i" .
  qed simp
qed

subsection \<open>CRC\<close>

lemma crc_bit_msb: "crc_bit x = (if bit x 15 then push_bit 1 x XOR 0x1021 else push_bit 1 x)"
proof -
  have "(0x8000 :: 16 word) = 2 ^ 15" by simp
  then have "x AND 0x8000 \<noteq> 0 \<longleftrightarrow> bit x 15"
    by (simp only: and_exp_eq_0_iff_not_bit not_not)
  then show ?thesis by (simp only: crc_bit_def)
qed

lemma bit_crc_poly: "bit (0x1021 :: 16 word) n \<longleftrightarrow> n = 0 \<or> n = 5 \<or> n = 12"
proof -
  have "(0x1021 :: 16 word) = 2 ^ 0 XOR (2 ^ 5 XOR 2 ^ 12)" by simp
  then show ?thesis by (simp only: bit_xor_iff bit_exp_iff) auto
qed

lemma crc_bit_low: "bit (crc_bit x) 0 \<longleftrightarrow> bit x 15"
  unfolding crc_bit_msb
  by (cases "bit x 15")
     (simp_all only: if_True if_False bit_xor_iff bit_push_bit_iff bit_crc_poly, simp_all)

lemma word_xor_cancel: "(a XOR c = b XOR c) = (a = (b :: 'a :: len word))"
  by (metis xor.assoc xor.right_neutral xor_self_eq)

lemma word_xor_cancel_left: "(c XOR a = c XOR b) = (a = (b :: 'a :: len word))"
  by (metis word_xor_cancel xor.commute)

lemma crc_bit_inj: "crc_bit x = crc_bit y \<Longrightarrow> x = y"
proof -
  assume eq: "crc_bit x = crc_bit y"
  then have b15: "bit x 15 = bit y 15" using crc_bit_low by metis
  have "push_bit 1 x = push_bit 1 y"
    using eq b15 unfolding crc_bit_msb
    by (cases "bit y 15") (simp_all only: if_True if_False word_xor_cancel)
  then have low: "bit x n = bit y n" if "n < 15" for n
  proof -
    have "bit (push_bit 1 x) (Suc n) = bit (push_bit 1 y) (Suc n)"
      by (simp only: \<open>push_bit 1 x = push_bit 1 y\<close>)
    with that show ?thesis by (simp only: bit_push_bit_iff) simp
  qed
  show "x = y"
  proof (rule bit_word_eqI)
    fix n assume "n < LENGTH(16)"
    then have "n < 15 \<or> n = 15" by auto
    with low b15 show "bit x n = bit y n" by auto
  qed
qed

lemma crc_bits_inj: "(crc_bit ^^ k) x = (crc_bit ^^ k) y \<Longrightarrow> x = y"
  by (induction k) (auto dest: crc_bit_inj)

lemma crc_bit_linear: "crc_bit (x XOR y) = crc_bit x XOR crc_bit y"
  unfolding crc_bit_msb
  by (cases "bit x 15"; cases "bit y 15"; rule bit_word_eqI)
     (simp_all only: bit_xor_iff push_bit_xor if_True if_False simp_thms, auto)

lemma crc_bits_linear: "(crc_bit ^^ k) (x XOR y) = (crc_bit ^^ k) x XOR (crc_bit ^^ k) y"
  by (induction k) (auto simp: crc_bit_linear)

text \<open>A byte in the low half is shifted up to the high half by eight steps, unreduced.\<close>

lemma crc_bits_low_byte: "k \<le> 8 \<Longrightarrow> (crc_bit ^^ k) (ucast (b :: 8 word)) = push_bit k (ucast b)"
proof (induction k)
  case (Suc k)
  have "\<not> bit (push_bit k (ucast b :: 16 word)) 15"
    using Suc.prems by (auto simp: bit_simps dest: bit_imp_le_length)
  with Suc show ?case by (simp add: crc_bit_msb push_bit_push_bit)
qed simp

lemma crc_two_bytes:
  "crc_byte (crc_byte s b1) b2 = (crc_bit ^^ 16) (s XOR (push_bit 8 (ucast b1) XOR ucast b2))"
proof -
  have "crc_byte (crc_byte s b1) b2 =
      (crc_bit ^^ 8) ((crc_bit ^^ 8) (s XOR push_bit 8 (ucast b1)) XOR (crc_bit ^^ 8) (ucast b2))"
    by (simp only: crc_byte_def crc_bits_low_byte [of 8] order_refl)
  also have "\<dots> = (crc_bit ^^ (8 + 8)) ((s XOR push_bit 8 (ucast b1)) XOR ucast b2)"
    by (simp only: crc_bits_linear [symmetric] funpow_add o_apply)
  finally show ?thesis by (simp add: xor.assoc)
qed

lemma byte_pair_inj:
  assumes "push_bit 8 (ucast b1) XOR ucast b2 =
    (push_bit 8 (ucast (c1 :: 8 word)) XOR ucast (c2 :: 8 word) :: 16 word)"
  shows "b1 = c1 \<and> b2 = c2"
proof -
  have *: "bit (push_bit 8 (ucast b1) XOR ucast b2 :: 16 word) n =
      bit (push_bit 8 (ucast c1) XOR ucast c2 :: 16 word) n" for n
    using assms by simp
  have "bit b2 n = bit c2 n" if "n < 8" for n
    using * [of n] that by (simp add: bit_simps)
  moreover have "bit b1 n = bit c1 n" if "n < 8" for n
    using * [of "8 + n"] that by (auto simp: bit_simps dest: bit_imp_le_length)
  ultimately show ?thesis by (auto intro!: bit_word_eqI)
qed

lemma crc_state_inj: "foldl crc_byte s cs = foldl crc_byte t cs \<Longrightarrow> s = t"
proof (induction cs arbitrary: s t)
  case (Cons b cs)
  then have "crc_byte s b = crc_byte t b" by simp
  then have "s XOR push_bit 8 (ucast b) = t XOR push_bit 8 (ucast b)"
    unfolding crc_byte_def by (rule crc_bits_inj)
  then show ?case by (simp only: word_xor_cancel)
qed simp

text \<open>
  The CRC detects every corruption confined to two adjacent bytes, wherever they lie in
  the payload: equal checksums mean the two bytes are the ones sent.
\<close>

theorem crc_detects_two_bytes:
  assumes "crc16_ccitt (pre @ [b1, b2] @ post) = crc16_ccitt (pre @ [c1, c2] @ post)"
  shows "b1 = c1 \<and> b2 = c2"
proof -
  let ?s = "foldl crc_byte 0xFFFF pre"
  have "foldl crc_byte (crc_byte (crc_byte ?s b1) b2) post =
      foldl crc_byte (crc_byte (crc_byte ?s c1) c2) post"
    using assms by (simp only: crc16_ccitt_def foldl_append foldl.simps)
  then have "crc_byte (crc_byte ?s b1) b2 = crc_byte (crc_byte ?s c1) c2"
    by (rule crc_state_inj)
  then have "?s XOR (push_bit 8 (ucast b1) XOR ucast b2) =
      ?s XOR (push_bit 8 (ucast c1) XOR ucast c2)"
    unfolding crc_two_bytes by (rule crc_bits_inj)
  then show ?thesis unfolding word_xor_cancel_left by (rule byte_pair_inj)
qed

theorem crc_detects_two_bytes_witness:
  "crc16_ccitt ([1] @ [2, 3] @ [4]) = crc16_ccitt ([1] @ [2, 3] @ [4]) \<and> (2 :: 8 word) = 2 \<and> (3 :: 8 word) = 3"
  using crc_detects_two_bytes [of "[1]" 2 3 "[4]" 2 3] by simp

end
