(* ===== verification/Mtu_Text.thy ===== *)
theory Mtu_Text
  imports RPi_Prelude "HOL-Library.Sublist"
begin

text \<open>
  \<open>src/src/reticulumpi/mtu.py\<close>: truncation of outgoing text to a byte budget.  A Python
  \<open>str\<close> is a list of code points; \<open>str.encode\<close> and \<open>bytes.decode(errors="ignore")\<close> of
  the standard library are modelled here, the decoder on arbitrary byte strings: an ill-formed
  sequence is skipped up to its maximal well-formed beginning, as CPython does.
\<close>

type_synonym codepoint = nat
type_synonym pystr = "codepoint list"
type_synonym pybytes = "nat list"

definition ascii :: "string \<Rightarrow> pystr" where
  "ascii s = map of_char s"

subsection \<open>UTF-8\<close>

definition is_scalar :: "codepoint \<Rightarrow> bool" where
  "is_scalar c \<longleftrightarrow> c < 0xD800 \<or> 0xE000 \<le> c \<and> c < 0x110000"

definition utf8_char :: "codepoint \<Rightarrow> pybytes" where
  "utf8_char c =
     (if c < 0x80 then [c]
      else if c < 0x800 then [0xC0 + c div 64, 0x80 + c mod 64]
      else if c < 0x10000 then
        [0xE0 + c div 4096, 0x80 + c div 64 mod 64, 0x80 + c mod 64]
      else
        [0xF0 + c div 262144, 0x80 + c div 4096 mod 64, 0x80 + c div 64 mod 64, 0x80 + c mod 64])"

definition utf8 :: "pystr \<Rightarrow> pybytes" where
  "utf8 s = concat (map utf8_char s)"

text \<open>\<open>text.encode("utf-8")\<close>; a lone surrogate raises \<open>UnicodeEncodeError\<close>.\<close>

definition encode_utf8 :: "pystr \<Rightarrow> py_error + pybytes" where
  "encode_utf8 s = (if list_all is_scalar s then Inr (utf8 s) else Inl UnicodeError)"

definition cont_byte :: "nat \<Rightarrow> bool" where
  "cont_byte b \<longleftrightarrow> 0x80 \<le> b \<and> b \<le> 0xBF"

definition second_of_three :: "nat \<Rightarrow> nat \<Rightarrow> bool" where
  "second_of_three b0 b1 \<longleftrightarrow>
     (if b0 = 0xE0 then 0xA0 \<le> b1 \<and> b1 \<le> 0xBF
      else if b0 = 0xED then 0x80 \<le> b1 \<and> b1 \<le> 0x9F
      else cont_byte b1)"

definition second_of_four :: "nat \<Rightarrow> nat \<Rightarrow> bool" where
  "second_of_four b0 b1 \<longleftrightarrow>
     (if b0 = 0xF0 then 0x90 \<le> b1 \<and> b1 \<le> 0xBF
      else if b0 = 0xF4 then 0x80 \<le> b1 \<and> b1 \<le> 0x8F
      else cont_byte b1)"

text \<open>\<open>data.decode("utf-8", errors="ignore")\<close>.\<close>

fun decode_ignore :: "pybytes \<Rightarrow> pystr" where
  "decode_ignore [] = []"
| "decode_ignore (b0 # bs) =
     (if b0 < 0x80 then b0 # decode_ignore bs
      else if 0xC2 \<le> b0 \<and> b0 \<le> 0xDF then
        (case bs of
           [] \<Rightarrow> []
         | b1 # r1 \<Rightarrow>
             if cont_byte b1 then ((b0 - 0xC0) * 64 + (b1 - 0x80)) # decode_ignore r1
             else decode_ignore bs)
      else if 0xE0 \<le> b0 \<and> b0 \<le> 0xEF then
        (case bs of
           [] \<Rightarrow> []
         | b1 # r1 \<Rightarrow>
             if second_of_three b0 b1 then
               (case r1 of
                  [] \<Rightarrow> []
                | b2 # r2 \<Rightarrow>
                    if cont_byte b2 then
                      ((b0 - 0xE0) * 4096 + (b1 - 0x80) * 64 + (b2 - 0x80)) # decode_ignore r2
                    else decode_ignore r1)
             else decode_ignore bs)
      else if 0xF0 \<le> b0 \<and> b0 \<le> 0xF4 then
        (case bs of
           [] \<Rightarrow> []
         | b1 # r1 \<Rightarrow>
             if second_of_four b0 b1 then
               (case r1 of
                  [] \<Rightarrow> []
                | b2 # r2 \<Rightarrow>
                    if cont_byte b2 then
                      (case r2 of
                         [] \<Rightarrow> []
                       | b3 # r3 \<Rightarrow>
                           if cont_byte b3 then
                             ((b0 - 0xF0) * 262144 + (b1 - 0x80) * 4096 +
                              (b2 - 0x80) * 64 + (b3 - 0x80)) # decode_ignore r3
                           else decode_ignore r2)
                    else decode_ignore r1)
             else decode_ignore bs)
      else decode_ignore bs)"

declare decode_ignore.simps(2) [simp del]

subsection \<open>The truncation functions\<close>

text \<open>\<open>data[:n]\<close>: a negative bound counts from the end.\<close>

definition slice_to :: "int \<Rightarrow> 'a list \<Rightarrow> 'a list" where
  "slice_to n xs = (if 0 \<le> n then take (nat n) xs else take (nat (int (length xs) + n)) xs)"

definition truncate_bytes :: "pystr \<Rightarrow> int \<Rightarrow> py_error + pystr" where
  "truncate_bytes text max_bytes =
     (case encode_utf8 text of
        Inl e \<Rightarrow> Inl e
      | Inr encoded \<Rightarrow>
          if int (length encoded) \<le> max_bytes then Inr text
          else Inr (decode_ignore (slice_to max_bytes encoded)))"

definition ellipsis :: pystr where
  "ellipsis = ascii '' ...''"

definition truncate_for_mtu :: "pystr \<Rightarrow> pystr \<Rightarrow> int \<Rightarrow> py_error + pystr" where
  "truncate_for_mtu header body mtu =
     (if mtu \<le> 0 then Inr []
      else
        case encode_utf8 header of
          Inl e \<Rightarrow> Inl e
        | Inr hb \<Rightarrow>
            let header_bytes = int (length hb)
            in if mtu \<le> header_bytes then truncate_bytes header mtu
               else
                 let max_body_bytes = mtu - header_bytes
                 in case encode_utf8 body of
                      Inl e \<Rightarrow> Inl e
                    | Inr body_encoded \<Rightarrow>
                        if int (length body_encoded) \<le> max_body_bytes then Inr (header @ body)
                        else
                          let ellipsis_bytes = int (length (utf8 ellipsis))
                          in if max_body_bytes \<le> ellipsis_bytes then
                               (case truncate_bytes body max_body_bytes of
                                  Inl e \<Rightarrow> Inl e
                                | Inr b \<Rightarrow> Inr (header @ b))
                             else
                               let target = max_body_bytes - ellipsis_bytes
                               in Inr (header @ decode_ignore (slice_to target body_encoded) @ ellipsis))"

subsection \<open>Decoding a cut-off encoding\<close>

text \<open>The longest prefix whose encoding fits a budget, by recursion on the text.\<close>

fun fit :: "nat \<Rightarrow> pystr \<Rightarrow> pystr" where
  "fit n [] = []"
| "fit n (c # s) = (if length (utf8_char c) \<le> n then c # fit (n - length (utf8_char c)) s else [])"

lemma utf8_Nil [simp]: "utf8 [] = []"
  and utf8_Cons [simp]: "utf8 (c # s) = utf8_char c @ utf8 s"
  and utf8_append [simp]: "utf8 (s @ t) = utf8 s @ utf8 t"
  by (simp_all add: utf8_def)

lemma utf8_char_pos: "0 < length (utf8_char c)"
  by (simp add: utf8_char_def)

lemma utf8_empty_iff [simp]: "utf8 s = [] \<longleftrightarrow> s = []"
  using utf8_char_pos by (cases s) auto

lemma decode_lead2:
  assumes "2 \<le> a" "a \<le> 31" "b < 64"
  shows "decode_ignore ((0xC0 + a) # (0x80 + b) # bs) = (a * 64 + b) # decode_ignore bs"
    and "decode_ignore [0xC0 + a] = []"
  using assms by (simp_all add: decode_ignore.simps(2) [of "0xC0 + a"] cont_byte_def)

lemma decode_lead3:
  assumes "a \<le> 15" "a = 0 \<longrightarrow> 32 \<le> b" "a = 13 \<longrightarrow> b < 32" "b < 64" "d < 64"
  shows "decode_ignore ((0xE0 + a) # (0x80 + b) # (0x80 + d) # bs) =
           (a * 4096 + b * 64 + d) # decode_ignore bs"
    and "decode_ignore [0xE0 + a, 0x80 + b] = []"
proof -
  have "second_of_three (0xE0 + a) (0x80 + b)"
    using assms by (auto simp: second_of_three_def cont_byte_def)
  then show "decode_ignore ((0xE0 + a) # (0x80 + b) # (0x80 + d) # bs) =
           (a * 4096 + b * 64 + d) # decode_ignore bs"
    and "decode_ignore [0xE0 + a, 0x80 + b] = []"
    using assms by (simp_all add: decode_ignore.simps(2) [of "0xE0 + a"] cont_byte_def)
qed

lemma decode_lead4:
  assumes "a \<le> 4" "a = 0 \<longrightarrow> 16 \<le> b" "a = 4 \<longrightarrow> b < 16" "b < 64" "d < 64" "e < 64"
  shows "decode_ignore ((0xF0 + a) # (0x80 + b) # (0x80 + d) # (0x80 + e) # bs) =
           (a * 262144 + b * 4096 + d * 64 + e) # decode_ignore bs"
    and "decode_ignore [0xF0 + a, 0x80 + b] = []"
    and "decode_ignore [0xF0 + a, 0x80 + b, 0x80 + d] = []"
proof -
  have "second_of_four (0xF0 + a) (0x80 + b)"
    using assms by (auto simp: second_of_four_def cont_byte_def)
  then show "decode_ignore ((0xF0 + a) # (0x80 + b) # (0x80 + d) # (0x80 + e) # bs) =
           (a * 262144 + b * 4096 + d * 64 + e) # decode_ignore bs"
    and "decode_ignore [0xF0 + a, 0x80 + b] = []"
    and "decode_ignore [0xF0 + a, 0x80 + b, 0x80 + d] = []"
    using assms by (simp_all add: decode_ignore.simps(2) [of "0xF0 + a"] cont_byte_def)
qed

lemma decode_lone_lead:
  "a \<le> 15 \<Longrightarrow> decode_ignore [0xE0 + a] = []"
  "a \<le> 4 \<Longrightarrow> decode_ignore [0xF0 + a] = []"
  by (simp_all add: decode_ignore.simps(2))

text \<open>The base-64 digits of a code point.\<close>

lemma digits3: "c div 4096 * 4096 + c div 64 mod 64 * 64 + c mod 64 = (c :: nat)"
proof -
  have "c div 4096 = c div 64 div 64" by (simp add: div_mult2_eq [symmetric])
  then have "c div 4096 * 64 + c div 64 mod 64 = c div 64" by simp
  then have "(c div 4096 * 64 + c div 64 mod 64) * 64 + c mod 64 = c" by simp
  then show ?thesis by (simp add: algebra_simps)
qed

lemma digits4:
  "c div 262144 * 262144 + c div 4096 mod 64 * 4096 + c div 64 mod 64 * 64 + c mod 64 = (c :: nat)"
proof -
  have "c div 262144 = c div 4096 div 64" by (simp add: div_mult2_eq [symmetric])
  then have "c div 262144 * 64 + c div 4096 mod 64 = c div 4096" by simp
  then have "(c div 262144 * 64 + c div 4096 mod 64) * 4096 + c div 64 mod 64 * 64 + c mod 64 = c"
    by (simp only: digits3)
  then show ?thesis by (simp add: algebra_simps)
qed

lemma base3_range:
  assumes "(a :: nat) * 4096 + b * 64 + d = c" "0x800 \<le> c" "c < 0x10000"
    "c < 0xD800 \<or> 0xE000 \<le> c" "b < 64" "d < 64"
  shows "a \<le> 15" "a = 0 \<longrightarrow> 32 \<le> b" "a = 13 \<longrightarrow> b < 32"
  using assms by linarith+

lemma base4_range:
  assumes "(a :: nat) * 262144 + b * 4096 + d * 64 + e = c" "0x10000 \<le> c" "c < 0x110000"
    "b < 64" "d < 64" "e < 64"
  shows "a \<le> 4" "a = 0 \<longrightarrow> 16 \<le> b" "a = 4 \<longrightarrow> b < 16"
  using assms by linarith+

lemma utf8_char_shapes:
  assumes "is_scalar c"
  obtains (one) "c < 0x80" "utf8_char c = [c]"
  | (two) a b where "utf8_char c = [0xC0 + a, 0x80 + b]" "c = a * 64 + b" "2 \<le> a" "a \<le> 31" "b < 64"
  | (three) a b d where "utf8_char c = [0xE0 + a, 0x80 + b, 0x80 + d]" "c = a * 4096 + b * 64 + d"
      "a \<le> 15" "a = 0 \<longrightarrow> 32 \<le> b" "a = 13 \<longrightarrow> b < 32" "b < 64" "d < 64"
  | (four) a b d e where "utf8_char c = [0xF0 + a, 0x80 + b, 0x80 + d, 0x80 + e]"
      "c = a * 262144 + b * 4096 + d * 64 + e"
      "a \<le> 4" "a = 0 \<longrightarrow> 16 \<le> b" "a = 4 \<longrightarrow> b < 16" "b < 64" "d < 64" "e < 64"
proof -
  consider "c < 0x80" | "0x80 \<le> c" "c < 0x800" | "0x800 \<le> c" "c < 0x10000" | "0x10000 \<le> c"
    by linarith
  then show ?thesis
  proof cases
    case 1
    then show ?thesis using one by (simp add: utf8_char_def)
  next
    case 2
    have "c = c div 64 * 64 + c mod 64" by simp
    moreover have "c mod 64 < 64" by simp
    moreover have "2 \<le> c div 64" "c div 64 \<le> 31" using 2 by linarith+
    ultimately show ?thesis using 2 two [of "c div 64" "c mod 64"] by (simp add: utf8_char_def)
  next
    case 3
    let ?a = "c div 4096" and ?b = "c div 64 mod 64" and ?d = "c mod 64"
    have s: "c < 0xD800 \<or> 0xE000 \<le> c" using assms by (auto simp: is_scalar_def)
    have r: "?a \<le> 15" "?a = 0 \<longrightarrow> 32 \<le> ?b" "?a = 13 \<longrightarrow> ?b < 32"
      using base3_range [OF digits3 3 s] by simp_all
    have u: "utf8_char c = [0xE0 + ?a, 0x80 + ?b, 0x80 + ?d]"
      using 3 by (simp add: utf8_char_def)
    show ?thesis by (rule three [OF u digits3 [symmetric] r]) simp_all
  next
    case 4
    let ?a = "c div 262144" and ?b = "c div 4096 mod 64" and ?d = "c div 64 mod 64" and ?e = "c mod 64"
    have s: "c < 0x110000" using assms 4 by (auto simp: is_scalar_def)
    have r: "?a \<le> 4" "?a = 0 \<longrightarrow> 16 \<le> ?b" "?a = 4 \<longrightarrow> ?b < 16"
      using base4_range [OF digits4 4 s] by simp_all
    have u: "utf8_char c = [0xF0 + ?a, 0x80 + ?b, 0x80 + ?d, 0x80 + ?e]"
      using 4 by (simp add: utf8_char_def)
    show ?thesis by (rule four [OF u digits4 [symmetric] r]) simp_all
  qed
qed

lemma decode_char:
  assumes "is_scalar c"
  shows "decode_ignore (utf8_char c @ bs) = c # decode_ignore bs"
  using assms
proof (cases rule: utf8_char_shapes)
  case one
  then show ?thesis by (simp add: decode_ignore.simps(2) [of c])
next
  case two
  then show ?thesis using decode_lead2 by simp
next
  case three
  then show ?thesis using decode_lead3 by simp
next
  case four
  then show ?thesis using decode_lead4 by simp
qed

lemma decode_cut_char:
  assumes "is_scalar c" "n < length (utf8_char c)"
  shows "decode_ignore (take n (utf8_char c)) = []"
  using assms(1)
proof (cases rule: utf8_char_shapes)
  case one
  with assms(2) show ?thesis by simp
next
  case two
  with assms(2) have "n = 0 \<or> n = 1" by auto
  with two decode_lead2 show ?thesis by auto
next
  case three
  with assms(2) have "n = 0 \<or> n = 1 \<or> n = 2" by auto
  with three decode_lead3 decode_lone_lead show ?thesis by (auto simp: numeral_2_eq_2)
next
  case four
  with assms(2) have "n = 0 \<or> n = 1 \<or> n = 2 \<or> n = 3" by auto
  with four decode_lead4 decode_lone_lead show ?thesis
    by (auto simp: numeral_2_eq_2 numeral_3_eq_3)
qed

lemma decode_cut:
  "list_all is_scalar s \<Longrightarrow> decode_ignore (take n (utf8 s)) = fit n s"
proof (induction s arbitrary: n)
  case (Cons c s)
  then have c: "is_scalar c" by simp
  show ?case
  proof (cases "length (utf8_char c) \<le> n")
    case True
    with Cons c show ?thesis by (simp add: decode_char)
  next
    case False
    with c show ?thesis by (simp add: decode_cut_char)
  qed
qed simp

lemma fit_prefix: "prefix (fit n s) s"
  by (induction n s rule: fit.induct) auto

lemma fit_length: "length (utf8 (fit n s)) \<le> n"
  by (induction n s rule: fit.induct) auto

lemma fit_longest: "prefix u s \<Longrightarrow> length (utf8 u) \<le> n \<Longrightarrow> prefix u (fit n s)"
proof (induction n s arbitrary: u rule: fit.induct)
  case (2 n c s)
  then show ?case by (cases u) auto
qed simp

lemma truncate_bytes_fit:
  assumes "list_all is_scalar s" "0 \<le> n"
  shows "truncate_bytes s n =
    Inr (if int (length (utf8 s)) \<le> n then s else fit (nat n) s)"
  using assms by (simp add: truncate_bytes_def encode_utf8_def slice_to_def decode_cut)

text \<open>
  Truncation to a byte budget keeps the longest prefix of the text that fits: it never
  splits a character, never exceeds the budget and gives up no character it could keep.
\<close>

theorem truncate_bytes_longest:
  assumes "list_all is_scalar s" and "0 \<le> n"
  shows "\<exists>t. truncate_bytes s n = Inr t \<and> prefix t s \<and> int (length (utf8 t)) \<le> n \<and>
    (\<forall>u. prefix u s \<and> int (length (utf8 u)) \<le> n \<longrightarrow> prefix u t)"
proof (cases "int (length (utf8 s)) \<le> n")
  case True
  then show ?thesis using assms by (auto simp: truncate_bytes_fit)
next
  case False
  have "int (length (utf8 (fit (nat n) s))) \<le> n"
    using fit_length [of "nat n" s] assms(2) by linarith
  with False show ?thesis
    using assms fit_prefix [of "nat n" s] fit_longest [of _ s "nat n"]
    by (auto simp: truncate_bytes_fit nat_le_iff le_nat_iff)
qed

theorem truncate_bytes_longest_witness:
  "\<exists>t. truncate_bytes [104, 0x20AC, 0x1F600] 5 = Inr t \<and> prefix t [104, 0x20AC, 0x1F600] \<and>
     int (length (utf8 t)) \<le> 5 \<and>
     (\<forall>u. prefix u [104, 0x20AC, 0x1F600] \<and> int (length (utf8 u)) \<le> 5 \<longrightarrow> prefix u t)"
  using truncate_bytes_longest [of "[104, 0x20AC, 0x1F600]" 5] by (simp add: is_scalar_def)

lemma utf8_ellipsis: "utf8 ellipsis = [32, 46, 46, 46]"
  by (simp add: ellipsis_def ascii_def utf8_char_def)

lemma truncate_for_mtu_spec:
  assumes "list_all is_scalar header" and "list_all is_scalar body"
  shows "\<exists>r. truncate_for_mtu header body mtu = Inr r \<and>
    int (length (utf8 r)) \<le> max 0 mtu \<and>
    (int (length (utf8 (header @ body))) \<le> mtu \<longrightarrow> r = header @ body) \<and>
    (int (length (utf8 header)) < mtu \<longrightarrow>
       (\<exists>b. prefix b body \<and> (r = header @ b \<or> r = header @ b @ ellipsis)))"
proof -
  let ?h = "int (length (utf8 header))" and ?b = "int (length (utf8 body))"
  consider (none) "mtu \<le> 0" | (head) "0 < mtu" "mtu \<le> ?h"
    | (all) "0 < mtu" "?h < mtu" "?b \<le> mtu - ?h"
    | (tiny) "0 < mtu" "?h < mtu" "mtu - ?h < ?b" "mtu - ?h \<le> 4"
    | (dots) "0 < mtu" "?h < mtu" "mtu - ?h < ?b" "4 < mtu - ?h"
    by linarith
  then show ?thesis
  proof cases
    case none
    then have "int (length (utf8 (header @ body))) \<le> mtu \<longrightarrow> utf8 (header @ body) = []"
      by (metis length_greater_0_conv of_nat_0_less_iff order.trans leD)
    with none show ?thesis by (auto simp: truncate_for_mtu_def simp del: utf8_append)
  next
    case head
    let ?r = "if ?h \<le> mtu then header else fit (nat mtu) header"
    have "truncate_for_mtu header body mtu = Inr ?r"
      using head assms by (simp add: truncate_for_mtu_def encode_utf8_def truncate_bytes_fit)
    moreover have "int (length (utf8 ?r)) \<le> mtu"
      using fit_length [of "nat mtu" header] head by (auto simp: le_nat_iff)
    moreover have "int (length (utf8 (header @ body))) \<le> mtu \<longrightarrow> ?r = header @ body"
    proof
      assume a: "int (length (utf8 (header @ body))) \<le> mtu"
      then have "?h + ?b \<le> mtu" by simp
      with head have "?b = 0" by linarith
      then have "body = []" by simp
      with a show "?r = header @ body" by simp
    qed
    ultimately show ?thesis using head by auto
  next
    case all
    then show ?thesis
      using assms by (auto simp: truncate_for_mtu_def encode_utf8_def Let_def)
  next
    case tiny
    have "truncate_for_mtu header body mtu = Inr (header @ fit (nat (mtu - ?h)) body)"
      using tiny assms
      by (simp add: truncate_for_mtu_def encode_utf8_def Let_def utf8_ellipsis truncate_bytes_fit)
    moreover have "int (length (utf8 (fit (nat (mtu - ?h)) body))) \<le> mtu - ?h"
      using fit_length [of "nat (mtu - ?h)" body] tiny by linarith
    ultimately show ?thesis using tiny fit_prefix by fastforce
  next
    case dots
    have "truncate_for_mtu header body mtu =
        Inr (header @ fit (nat (mtu - ?h - 4)) body @ ellipsis)"
      using dots assms
      by (simp add: truncate_for_mtu_def encode_utf8_def Let_def utf8_ellipsis slice_to_def decode_cut)
    moreover have "int (length (utf8 (fit (nat (mtu - ?h - 4)) body))) \<le> mtu - ?h - 4"
      using fit_length [of "nat (mtu - ?h - 4)" body] dots by linarith
    ultimately show ?thesis using dots fit_prefix by (fastforce simp: utf8_ellipsis)
  qed
qed

text \<open>What the header starts with survives, if it fits the budget.\<close>

lemma truncate_for_mtu_header:
  assumes "list_all is_scalar header" "list_all is_scalar body"
    and "prefix p header" "int (length (utf8 p)) \<le> mtu" "p \<noteq> []"
    and "truncate_for_mtu header body mtu = Inr r"
  shows "prefix p r"
proof (cases "int (length (utf8 header)) < mtu")
  case True
  then show ?thesis
    using truncate_for_mtu_spec [OF assms(1,2), of mtu] assms(3,6) by auto
next
  case False
  have "utf8 p \<noteq> []" using assms(5) by simp
  then have pos: "0 < mtu" using assms(4) by (cases "utf8 p") auto
  then have "r = (if int (length (utf8 header)) \<le> mtu then header else fit (nat mtu) header)"
    using False assms(1,6)
    by (auto simp: truncate_for_mtu_def encode_utf8_def truncate_bytes_fit Let_def split: if_splits)
  moreover have "prefix p (fit (nat mtu) header)"
    by (rule fit_longest [OF assms(3)]) (use assms(4) in linarith)
  ultimately show ?thesis using assms(3) by simp
qed

text \<open>
  A relayed packet always fits its MTU: for every header, body and budget the attributed
  text is produced, its encoding fits the budget (nothing is sent for a budget of zero or
  less), it is untouched when it fits, and otherwise, when the header fits, it is the header
  followed by a prefix of the body, with or without the ellipsis.
\<close>

theorem truncate_for_mtu_fits:
  assumes "list_all is_scalar header" and "list_all is_scalar body"
  shows "\<exists>r. truncate_for_mtu header body mtu = Inr r \<and>
    int (length (utf8 r)) \<le> max 0 mtu \<and>
    (int (length (utf8 (header @ body))) \<le> mtu \<longrightarrow> r = header @ body) \<and>
    (int (length (utf8 header)) < mtu \<longrightarrow>
       (\<exists>b. prefix b body \<and> (r = header @ b \<or> r = header @ b @ ellipsis)))"
  by (rule truncate_for_mtu_spec [OF assms])

theorem truncate_for_mtu_fits_witness:
  "\<exists>r. truncate_for_mtu [91, 0xE9] [0x20AC, 65, 66] 7 = Inr r \<and>
    int (length (utf8 r)) \<le> max 0 7 \<and>
    (int (length (utf8 ([91, 0xE9] @ [0x20AC, 65, 66]))) \<le> 7 \<longrightarrow> r = [91, 0xE9] @ [0x20AC, 65, 66]) \<and>
    (int (length (utf8 [91, 0xE9])) < 7 \<longrightarrow>
       (\<exists>b. prefix b [0x20AC, 65, 66] \<and> (r = [91, 0xE9] @ b \<or> r = [91, 0xE9] @ b @ ellipsis)))"
  by (rule truncate_for_mtu_fits) (simp_all add: is_scalar_def)

end
