(* ===== verification/Window_Limits.thy ===== *)
theory Window_Limits
  imports RPi_Prelude "HOL-Library.Multiset"
begin

text \<open>
  The sliding-window limiter as an interface: a component that decides, at a time \<open>t\<close>,
  whether one more action is allowed, and remembers the times of the allowed ones.  The
  supervisor's restart budget and the radio reset limiter are instances; the bound on the
  number of actions in every window is proved here once, from the laws alone.
\<close>

abbreviation in_window :: "real \<Rightarrow> real \<Rightarrow> real \<Rightarrow> bool" where
  "in_window W a x \<equiv> a < x \<and> x \<le> a + W"

abbreviation window_count :: "real \<Rightarrow> real \<Rightarrow> real list \<Rightarrow> nat" where
  "window_count W a ts \<equiv> length (filter (in_window W a) ts)"

lemma dropWhile_window:
  "filter (\<lambda>x. t - W < x) (dropWhile (\<lambda>x. x < t - W) xs) = filter (\<lambda>x. t - W < x) (xs :: real list)"
  by (induction xs) auto

locale sliding_limit =
  fixes W :: real
    and n :: nat
    and admit :: "'s \<Rightarrow> real \<Rightarrow> 's \<times> bool"
    and log :: "'s \<Rightarrow> real list"
    and good :: "'s \<Rightarrow> bool"
  assumes granted_below: "good s \<Longrightarrow> \<forall>x\<in>set (log s). x \<le> t \<Longrightarrow> admit s t = (s', True) \<Longrightarrow>
      length (filter (\<lambda>x. t - W < x) (log s)) < n"
    and granted_log: "good s \<Longrightarrow> \<forall>x\<in>set (log s). x \<le> t \<Longrightarrow> admit s t = (s', True) \<Longrightarrow>
      mset (filter (\<lambda>x. t - W < x) (log s) @ [t]) \<subseteq># mset (filter (\<lambda>x. t - W < x) (log s'))"
    and refused_log: "good s \<Longrightarrow> \<forall>x\<in>set (log s). x \<le> t \<Longrightarrow> admit s t = (s', False) \<Longrightarrow>
      mset (filter (\<lambda>x. t - W < x) (log s)) \<subseteq># mset (filter (\<lambda>x. t - W < x) (log s'))"
    and log_grows_by_now: "good s \<Longrightarrow> admit s t = (s', b) \<Longrightarrow> set (log s') \<subseteq> insert t (set (log s))"
    and good_kept: "good s \<Longrightarrow> admit s t = (s', b) \<Longrightarrow> good s'"
    and window_pos: "good s \<Longrightarrow> 0 < W"
begin

primrec granted :: "'s \<Rightarrow> real list \<Rightarrow> real list" where
  "granted s [] = []"
| "granted s (t # ts) =
     (case admit s t of (s', ok) \<Rightarrow> (if ok then [t] else []) @ granted s' ts)"

lemma filter_later:
  assumes "mset (filter (\<lambda>x. t - W < x) xs) \<subseteq># mset (filter (\<lambda>x. t - W < x) ys)" "t \<le> t'"
  shows "mset (filter (\<lambda>x. t' - W < x) xs) \<subseteq># mset (filter (\<lambda>x. t' - W < x) ys)"
proof -
  have "filter (\<lambda>x. t' - W < x) zs = filter (\<lambda>x. t' - W < x) (filter (\<lambda>x. t - W < x) zs)" for zs
    using assms(2) by (auto intro!: filter_cong)
  then have "mset (filter (\<lambda>x. t' - W < x) zs) =
      filter_mset (\<lambda>x. t' - W < x) (mset (filter (\<lambda>x. t - W < x) zs))" for zs
    by (metis mset_filter)
  then show ?thesis using multiset_filter_mono [OF assms(1)] by metis
qed

lemma window_count_snoc:
  assumes "length (filter (\<lambda>x. t - W < x) hist) < n"
    and "window_count W a hist \<le> n"
  shows "window_count W a (hist @ [t]) \<le> n"
proof (cases "in_window W a t")
  case True
  have "window_count W a hist \<le> length (filter (\<lambda>x. t - W < x) hist)"
  proof -
    have "filter (in_window W a) hist = filter (in_window W a) (filter (\<lambda>x. t - W < x) hist)"
      using True by (auto intro!: filter_cong)
    then show ?thesis by (metis length_filter_le)
  qed
  with True assms(1) show ?thesis by simp
next
  case False
  then have "filter (in_window W a) [t] = []" by simp
  with assms(2) show ?thesis by (simp only: filter_append append_Nil2)
qed

text \<open>
  \<open>hist\<close> is every action so far; the log may have forgotten the old ones and may count some
  that were not taken, but inside the window of the next decision it holds all of them.
\<close>

lemma granted_window_hist:
  assumes "good s" "sorted ts"
    and "\<forall>t\<in>set ts. \<forall>x\<in>set (log s) \<union> set hist. x \<le> t"
    and "\<And>t. t \<in> set ts \<Longrightarrow>
      mset (filter (\<lambda>x. t - W < x) hist) \<subseteq># mset (filter (\<lambda>x. t - W < x) (log s))"
    and "\<forall>a. window_count W a hist \<le> n"
  shows "\<forall>a. window_count W a (hist @ granted s ts) \<le> n"
  using assms
proof (induction ts arbitrary: s hist)
  case (Cons t ts)
  obtain s' ok where adm: "admit s t = (s', ok)" by (cases "admit s t")
  have le: "\<forall>x\<in>set (log s). x \<le> t" using Cons.prems(3) by simp
  have good': "good s'" by (rule good_kept [OF Cons.prems(1) adm])
  have sub: "set (log s') \<subseteq> insert t (set (log s))"
    by (rule log_grows_by_now [OF Cons.prems(1) adm])
  have later: "t \<le> t'" if "t' \<in> set ts" for t' using Cons.prems(2) that by simp
  have agree: "mset (filter (\<lambda>x. t - W < x) hist) \<subseteq># mset (filter (\<lambda>x. t - W < x) (log s))"
    using Cons.prems(4) by simp
  show ?case
  proof (cases ok)
    case True
    let ?h = "hist @ [t]"
    have new: "mset (filter (\<lambda>x. t - W < x) (log s) @ [t]) \<subseteq># mset (filter (\<lambda>x. t - W < x) (log s'))"
      using granted_log [OF Cons.prems(1) le] adm True by simp
    have "add_mset t (mset (filter (\<lambda>x. t - W < x) hist)) \<subseteq>#
        add_mset t (mset (filter (\<lambda>x. t - W < x) (log s)))"
      using agree by simp
    also have "\<dots> \<subseteq># mset (filter (\<lambda>x. t - W < x) (log s'))" using new by simp
    finally have now: "mset (filter (\<lambda>x. t - W < x) ?h) \<subseteq># mset (filter (\<lambda>x. t - W < x) (log s'))"
      using window_pos [OF Cons.prems(1)] by simp
    have "length (filter (\<lambda>x. t - W < x) hist) \<le> length (filter (\<lambda>x. t - W < x) (log s))"
      using size_mset_mono [OF agree] by (simp only: size_mset)
    then have cnt: "length (filter (\<lambda>x. t - W < x) hist) < n"
      using granted_below [OF Cons.prems(1) le] adm True by fastforce
    have "\<forall>a. window_count W a (?h @ granted s' ts) \<le> n"
    proof (rule Cons.IH [OF good'])
      show "sorted ts" using Cons.prems(2) by simp
      show "\<forall>t'\<in>set ts. \<forall>x\<in>set (log s') \<union> set ?h. x \<le> t'"
        using Cons.prems(3) sub later by fastforce
      show "mset (filter (\<lambda>x. t' - W < x) ?h) \<subseteq># mset (filter (\<lambda>x. t' - W < x) (log s'))"
        if "t' \<in> set ts" for t'
        by (rule filter_later [OF now later [OF that]])
      show "\<forall>a. window_count W a ?h \<le> n"
        using window_count_snoc [OF cnt] Cons.prems(5) by blast
    qed
    then show ?thesis using adm True by simp
  next
    case False
    have "mset (filter (\<lambda>x. t - W < x) (log s)) \<subseteq># mset (filter (\<lambda>x. t - W < x) (log s'))"
      using refused_log [OF Cons.prems(1) le] adm False by simp
    with agree have now: "mset (filter (\<lambda>x. t - W < x) hist) \<subseteq># mset (filter (\<lambda>x. t - W < x) (log s'))"
      by (rule subset_mset.order_trans)
    have "\<forall>a. window_count W a (hist @ granted s' ts) \<le> n"
    proof (rule Cons.IH [OF good'])
      show "sorted ts" using Cons.prems(2) by simp
      show "\<forall>t'\<in>set ts. \<forall>x\<in>set (log s') \<union> set hist. x \<le> t'"
        using Cons.prems(3) sub later by fastforce
      show "mset (filter (\<lambda>x. t' - W < x) hist) \<subseteq># mset (filter (\<lambda>x. t' - W < x) (log s'))"
        if "t' \<in> set ts" for t'
        by (rule filter_later [OF now later [OF that]])
      show "\<forall>a. window_count W a hist \<le> n" by (rule Cons.prems(5))
    qed
    then show ?thesis using adm False by simp
  qed
qed simp

lemma granted_window:
  assumes "good s" "sorted ts" "\<forall>t\<in>set ts. \<forall>x\<in>set (log s). x \<le> t"
    and "\<forall>a. window_count W a (log s) \<le> n"
  shows "window_count W a (granted s ts) \<le> n"
proof -
  have "\<forall>a. window_count W a (log s @ granted s ts) \<le> n"
    using assms by (intro granted_window_hist) auto
  then have "window_count W a (log s @ granted s ts) \<le> n" ..
  then show ?thesis by simp
qed

end

end
