(* ===== verification/Process_Supervisor.thy ===== *)
theory Process_Supervisor
  imports Window_Limits
begin

text \<open>
  \<open>process_supervisor.py\<close>: one decoder pipeline run as one process group.  The pure
  parts (specification and policy checks, launch transaction, shared deadline, termination,
  restart budget) are functions; \<open>start\<close>, \<open>stop\<close>, \<open>request_stop\<close>,
  \<open>notify_unexpected_eof\<close> and the monitor thread are the atomic steps of a state machine,
  one step per section the code runs under its lock or between two of them, so that client
  calls and the monitor interleave at the places where the real threads do.

  What the operating system does is an input: the outcome of each \<open>Popen\<close> call, the exit
  codes \<open>poll\<close> reports, the instant at which a process exits and the clock readings.
\<close>

subsection \<open>Declarations of stages and the restart policy\<close>

record proc_spec =
  argv :: "string list"
  spec_name :: string
  spec_env :: "(string, string) pydict option"
  pipe_from_previous :: bool

definition no_nul :: "string \<Rightarrow> bool" where
  "no_nul s \<longleftrightarrow> CHR 0x00 \<notin> set s"

definition check_spec :: "proc_spec \<Rightarrow> py_error + proc_spec" where
  "check_spec sp =
     (if argv sp = [] \<or> \<not> list_all (\<lambda>a. a \<noteq> [] \<and> no_nul a) (argv sp) then Inl ValueError
      else case spec_env sp of
        None \<Rightarrow> Inr sp
      | Some env \<Rightarrow>
          if list_all (\<lambda>(k, v). no_nul k \<and> no_nul v) env then Inr sp else Inl ValueError)"

definition py_basename :: "string \<Rightarrow> string" where
  "py_basename s = rev (takeWhile (\<lambda>c. c \<noteq> CHR ''/'') (rev s))"

definition display_name :: "proc_spec \<Rightarrow> string" where
  "display_name sp =
     (if spec_name sp \<noteq> [] then spec_name sp
      else if py_basename (hd (argv sp)) \<noteq> [] then py_basename (hd (argv sp))
      else hd (argv sp))"

record restart_policy =
  enabled :: bool
  delays :: "real list"
  max_restarts :: int
  window_seconds :: real
  poll_interval :: real

definition check_policy :: "restart_policy \<Rightarrow> py_error + restart_policy" where
  "check_policy p =
     (if delays p = [] \<or> list_ex (\<lambda>d. d < 0) (delays p) then Inl ValueError
      else if max_restarts p < 0 then Inl ValueError
      else if window_seconds p \<le> 0 then Inl ValueError
      else if poll_interval p \<le> 0 then Inl ValueError
      else Inr p)"

definition default_policy :: restart_policy where
  "default_policy = \<lparr>enabled = True, delays = [1, 2, 4, 8, 30], max_restarts = 5,
     window_seconds = 600, poll_interval = 1 / 5\<rparr>"

definition delay_for_attempt :: "restart_policy \<Rightarrow> int \<Rightarrow> py_error + real" where
  "delay_for_attempt p attempt =
     (if attempt < 1 then Inl ValueError
      else Inr (delays p ! nat (min (attempt - 1) (int (length (delays p)) - 1))))"

record failure =
  f_stage :: "nat option"
  f_name :: "string option"
  f_returncode :: "int option"
  f_reason :: string
  f_at :: time

subsection \<open>Launch: all stages or none\<close>

text \<open>
  A started process: its pid, the \<open>process_group\<close> argument it was started with, whether
  its standard input is the pipe of the stage before it, and the identities of the pipe
  objects the parent holds.  A \<open>Popen\<close> call is an input: \<open>None\<close> when it raises.
\<close>

record proc =
  pid :: nat
  grp :: nat
  from_prev :: bool
  pin :: "nat option"
  pout :: "nat option"
  perr :: "nat option"

record popen_result =
  new_pid :: nat
  new_in :: "nat option"
  new_out :: "nat option"
  new_err :: "nat option"

record launch_state =
  l_procs :: "proc list"
  l_pgid :: "nat option"
  l_closed :: "nat list"

definition start_stage :: "proc_spec \<Rightarrow> popen_result \<Rightarrow> launch_state \<Rightarrow> launch_state" where
  "start_stage sp r l =
     (let piped = l_procs l \<noteq> [] \<and> pipe_from_previous sp;
          p = \<lparr>pid = new_pid r, grp = (case l_pgid l of None \<Rightarrow> 0 | Some g \<Rightarrow> g),
               from_prev = piped, pin = new_in r, pout = new_out r, perr = new_err r\<rparr>
      in \<lparr>l_procs = l_procs l @ [p],
          l_pgid = (case l_pgid l of None \<Rightarrow> Some (new_pid r) | Some g \<Rightarrow> Some g),
          l_closed = l_closed l @
            (if piped then list_of_option (pout (last (l_procs l))) else [])\<rparr>)"

fun launch_stages :: "proc_spec list \<Rightarrow> popen_result option list \<Rightarrow> launch_state \<Rightarrow> launch_state \<times> bool"
where
  "launch_stages [] outs l = (l, True)"
| "launch_stages (sp # sps) outs l =
     (if l_procs l \<noteq> [] \<and> pipe_from_previous sp \<and> pout (last (l_procs l)) = None then (l, False)
      else case outs of
        [] \<Rightarrow> (l, False)
      | None # _ \<Rightarrow> (l, False)
      | Some r # outs' \<Rightarrow> launch_stages sps outs' (start_stage sp r l))"

text \<open>
  The failed transaction hands the stages it had started to \<open>_terminate_processes\<close>; they
  are the second component.
\<close>

definition launch_transaction ::
  "proc_spec list \<Rightarrow> popen_result option list \<Rightarrow> (py_error + launch_state) \<times> proc list" where
  "launch_transaction sps outs =
     (case launch_stages sps outs \<lparr>l_procs = [], l_pgid = None, l_closed = []\<rparr> of
        (l, True) \<Rightarrow> (Inr l, [])
      | (l, False) \<Rightarrow> (Inl RuntimeError, l_procs l))"

subsection \<open>Termination within a shared deadline\<close>

datatype signal = SIGTERM | SIGKILL
datatype sent = To_Group nat signal | To_Proc nat signal

definition exited :: "(proc \<Rightarrow> time option) \<Rightarrow> proc \<Rightarrow> time \<Rightarrow> bool" where
  "exited ex p t = (case ex p of None \<Rightarrow> False | Some e \<Rightarrow> e \<le> t)"

text \<open>\<open>process.wait(timeout=r)\<close> returns at the exit instant or raises after \<open>r\<close>.\<close>

fun wait_shared :: "(proc \<Rightarrow> time option) \<Rightarrow> time \<Rightarrow> time \<Rightarrow> proc list \<Rightarrow> proc list \<times> time" where
  "wait_shared ex deadline now [] = ([], now)"
| "wait_shared ex deadline now (p # ps) =
     (if exited ex p now then wait_shared ex deadline now ps
      else let remaining = max 0 (deadline - now); fin = now + remaining in
        if exited ex p fin then wait_shared ex deadline (the (ex p)) ps
        else (p # filter (\<lambda>c. \<not> exited ex c fin) ps, fin))"

definition wait_shared_deadline ::
  "(proc \<Rightarrow> time option) \<Rightarrow> time \<Rightarrow> real \<Rightarrow> proc list \<Rightarrow> proc list \<times> time" where
  "wait_shared_deadline ex now timeout ps = wait_shared ex (now + timeout) now ps"

definition signal_group ::
  "bool \<Rightarrow> (proc \<Rightarrow> time option) \<Rightarrow> time \<Rightarrow> proc list \<Rightarrow> nat option \<Rightarrow> signal \<Rightarrow> sent list" where
  "signal_group killpg_ok ex now ps g sig =
     (case g of
        Some gid \<Rightarrow>
          if killpg_ok then [To_Group gid sig]
          else map (\<lambda>p. To_Proc (pid p) sig) (filter (\<lambda>p. \<not> exited ex p now) ps)
      | None \<Rightarrow> map (\<lambda>p. To_Proc (pid p) sig) (filter (\<lambda>p. \<not> exited ex p now) ps))"

primrec close_ids :: "nat option list \<Rightarrow> nat list \<Rightarrow> nat list" where
  "close_ids [] seen = seen"
| "close_ids (s # ss) seen =
     (case s of
        None \<Rightarrow> close_ids ss seen
      | Some i \<Rightarrow> if i \<in> set seen then close_ids ss seen else close_ids ss (seen @ [i]))"

definition close_streams :: "proc list \<Rightarrow> nat list" where
  "close_streams ps = close_ids (concat (map (\<lambda>p. [pin p, pout p, perr p]) ps)) []"

text \<open>
  \<open>os_term\<close> and \<open>os_kill\<close> give the instant at which a process exits after the first
  and after the second signal; \<open>ok\<close> tells whether \<open>killpg\<close> succeeds.
\<close>

record os_world =
  killpg_ok :: bool
  os_term :: "proc \<Rightarrow> time option"
  os_kill :: "proc \<Rightarrow> time option"

record shutdown_result =
  t_sent :: "sent list"
  t_left :: "proc list"
  t_closed :: "nat list"
  t_end :: time

definition terminate_processes ::
  "os_world \<Rightarrow> real \<Rightarrow> real \<Rightarrow> time \<Rightarrow> proc list \<Rightarrow> nat option \<Rightarrow> shutdown_result" where
  "terminate_processes w term_timeout kill_timeout now ps g =
     (if ps = [] then \<lparr>t_sent = [], t_left = [], t_closed = [], t_end = now\<rparr>
      else let s1 = signal_group (killpg_ok w) (os_term w) now ps g SIGTERM;
               (survivors, t1) = wait_shared_deadline (os_term w) now term_timeout ps
        in if survivors = [] then
             \<lparr>t_sent = s1, t_left = [], t_closed = close_streams ps, t_end = t1\<rparr>
           else let s2 = signal_group (killpg_ok w) (os_kill w) t1 survivors g SIGKILL;
                    (left, t2) = wait_shared_deadline (os_kill w) t1 kill_timeout survivors
             in \<lparr>t_sent = s1 @ s2, t_left = left, t_closed = close_streams ps, t_end = t2\<rparr>)"

subsection \<open>Restart budget\<close>

record budget =
  b_policy :: restart_policy
  restart_times :: "time list"
  restart_count :: nat

definition reserve_restart :: "budget \<Rightarrow> time \<Rightarrow> budget \<times> (py_error + real) option" where
  "reserve_restart b now =
     (let p = b_policy b;
          kept = dropWhile (\<lambda>x. x < now - window_seconds p) (restart_times b)
      in if max_restarts p \<le> int (length kept) then (b\<lparr>restart_times := kept\<rparr>, None)
         else (b\<lparr>restart_times := kept @ [now], restart_count := Suc (restart_count b)\<rparr>,
               Some (delay_for_attempt p (int (length (kept @ [now]))))))"

subsection \<open>Every launch is all or nothing\<close>

definition linked :: "proc list \<Rightarrow> proc_spec list \<Rightarrow> nat list \<Rightarrow> bool" where
  "linked ps sps cl \<longleftrightarrow> (\<forall>i<length ps. 0 < i \<longrightarrow> pipe_from_previous (sps ! i) \<longrightarrow>
     from_prev (ps ! i) \<and> (\<exists>s\<in>set cl. pout (ps ! (i - 1)) = Some s))"

lemma linked_start:
  assumes "linked (l_procs l) (pre @ sp # sps) (l_closed l)"
    and "length pre = length (l_procs l)"
    and "\<not> (l_procs l \<noteq> [] \<and> pipe_from_previous sp \<and> pout (last (l_procs l)) = None)"
  shows "linked (l_procs (start_stage sp r l)) ((pre @ [sp]) @ sps) (l_closed (start_stage sp r l))"
proof (cases "l_procs l = []")
  case True
  then show ?thesis by (simp add: linked_def start_stage_def Let_def)
next
  case ne: False
  let ?P = "l_procs l" and ?L = "start_stage sp r l"
  have lastP: "last ?P = ?P ! (length ?P - 1)" using ne by (simp add: last_conv_nth)
  obtain p where P': "l_procs ?L = ?P @ [p]"
    and fp: "from_prev p \<longleftrightarrow> pipe_from_previous sp"
    using ne by (auto simp: start_stage_def Let_def)
  have cl: "x \<in> set (l_closed ?L)" if "x \<in> set (l_closed l)" for x
    using that by (simp add: start_stage_def Let_def)
  have new: "\<exists>s\<in>set (l_closed ?L). pout (last ?P) = Some s" if "pipe_from_previous sp"
    using that ne assms(3) by (auto simp: start_stage_def Let_def)
  show ?thesis
    unfolding linked_def
  proof (intro allI impI)
    fix i
    assume i: "i < length (l_procs ?L)" "0 < i" "pipe_from_previous (((pre @ [sp]) @ sps) ! i)"
    show "from_prev (l_procs ?L ! i) \<and>
      (\<exists>s\<in>set (l_closed ?L). pout (l_procs ?L ! (i - 1)) = Some s)"
    proof (cases "i < length ?P")
      case True
      then have "from_prev (?P ! i) \<and> (\<exists>s\<in>set (l_closed l). pout (?P ! (i - 1)) = Some s)"
        using assms(1,2) i unfolding linked_def by (simp add: nth_append)
      then show ?thesis using True P' cl by (auto simp: nth_append)
    next
      case False
      then have eq: "i = length ?P" using i(1) P' by simp
      then have "pipe_from_previous sp" using i(3) assms(2) by (simp add: nth_append)
      then show ?thesis using new fp P' eq i(2) lastP by (simp add: nth_append)
    qed
  qed
qed

lemma launch_stages_spec:
  assumes "launch_stages sps outs l = (l', ok)"
    and "l_procs l \<noteq> [] \<Longrightarrow> l_pgid l = Some (pid (hd (l_procs l)))"
    and "l_procs l = [] \<Longrightarrow> l_pgid l = None"
    and "length pre = length (l_procs l)"
    and "linked (l_procs l) (pre @ sps) (l_closed l)"
    and "\<forall>i<length (l_procs l). grp (l_procs l ! i) = (if i = 0 then 0 else pid (hd (l_procs l)))"
  shows "(ok \<longrightarrow> length (l_procs l') = length pre + length sps) \<and>
    linked (l_procs l') (pre @ sps) (l_closed l') \<and>
    (l_procs l' \<noteq> [] \<longrightarrow> l_pgid l' = Some (pid (hd (l_procs l')))) \<and>
    (\<forall>i<length (l_procs l'). grp (l_procs l' ! i) = (if i = 0 then 0 else pid (hd (l_procs l'))))"
  using assms
proof (induction sps outs l arbitrary: pre rule: launch_stages.induct)
  case (1 outs l)
  then show ?case by auto
next
  case (2 sp sps outs l)
  show ?case
  proof (cases "l_procs l \<noteq> [] \<and> pipe_from_previous sp \<and> pout (last (l_procs l)) = None")
    case True
    with 2 show ?thesis by auto
  next
    case go: False
    show ?thesis
    proof (cases outs)
      case Nil
      with 2 go show ?thesis by auto
    next
      case (Cons o1 outs')
      show ?thesis
      proof (cases o1)
        case None
        with 2 go Cons show ?thesis by auto
      next
        case (Some r)
        let ?l = "start_stage sp r l"
        have run: "launch_stages sps outs' ?l = (l', ok)"
          using "2.prems"(1) go Cons Some by simp
        have procs: "l_procs ?l = l_procs l @ [last (l_procs ?l)]"
          by (simp add: start_stage_def Let_def)
        have lk: "linked (l_procs ?l) ((pre @ [sp]) @ sps) (l_closed ?l)"
          by (rule linked_start [OF "2.prems"(5,4) go])
        have "(ok \<longrightarrow> length (l_procs l') = length (pre @ [sp]) + length sps) \<and>
          linked (l_procs l') ((pre @ [sp]) @ sps) (l_closed l') \<and>
          (l_procs l' \<noteq> [] \<longrightarrow> l_pgid l' = Some (pid (hd (l_procs l')))) \<and>
          (\<forall>i<length (l_procs l').
             grp (l_procs l' ! i) = (if i = 0 then 0 else pid (hd (l_procs l'))))"
        proof (rule "2.IH" [OF go Cons Some run _ _ _ lk])
          show "l_procs ?l \<noteq> [] \<Longrightarrow> l_pgid ?l = Some (pid (hd (l_procs ?l)))"
            using "2.prems"(2,3)
            by (cases "l_procs l") (auto simp: start_stage_def Let_def split: option.splits)
          show "l_procs ?l = [] \<Longrightarrow> l_pgid ?l = None" using procs by simp
          show "length (pre @ [sp]) = length (l_procs ?l)"
            using "2.prems"(4) by (simp add: start_stage_def Let_def)
          show "\<forall>i<length (l_procs ?l).
              grp (l_procs ?l ! i) = (if i = 0 then 0 else pid (hd (l_procs ?l)))"
            using "2.prems"(2,3,6)
            by (cases "l_procs l")
              (auto simp: start_stage_def Let_def nth_append less_Suc_eq split: option.splits)
        qed
        then show ?thesis by simp
      qed
    qed
  qed
qed

lemma launch_stages_started:
  assumes "launch_stages sps outs l = (l', ok)"
  shows "\<exists>k\<le>length sps. k \<le> length outs \<and>
    map pid (l_procs l') = map pid (l_procs l) @ map (\<lambda>o1. new_pid (the o1)) (take k outs) \<and>
    None \<notin> set (take k outs) \<and>
    (if ok then k = length sps
     else k < length sps \<and>
       (k < length outs \<longrightarrow> outs ! k = None \<or>
         pipe_from_previous (sps ! k) \<and> l_procs l' \<noteq> [] \<and> pout (last (l_procs l')) = None))"
  using assms
proof (induction sps outs l rule: launch_stages.induct)
  case (1 outs l)
  then show ?case by (intro exI [of _ 0]) auto
next
  case (2 sp sps outs l)
  show ?case
  proof (cases "(l_procs l \<noteq> [] \<and> pipe_from_previous sp \<and> pout (last (l_procs l)) = None) \<or>
      outs = [] \<or> hd outs = None")
    case True
    with "2.prems" have "l' = l \<and> \<not> ok" by (cases outs) (auto split: if_splits)
    with True show ?thesis by (intro exI [of _ 0]) (auto simp: hd_conv_nth)
  next
    case go: False
    then obtain r outs' where o: "outs = Some r # outs'" by (cases outs) auto
    have g: "\<not> (l_procs l \<noteq> [] \<and> pipe_from_previous sp \<and> pout (last (l_procs l)) = None)"
      using go by simp
    have "launch_stages sps outs' (start_stage sp r l) = (l', ok)"
      using "2.prems" g o by simp
    from "2.IH" [OF g o refl this] obtain k where
      k: "k \<le> length sps" "k \<le> length outs'"
        "map pid (l_procs l') = map pid (l_procs (start_stage sp r l)) @
           map (\<lambda>o1. new_pid (the o1)) (take k outs')"
        "None \<notin> set (take k outs')"
        "if ok then k = length sps
         else k < length sps \<and> (k < length outs' \<longrightarrow> outs' ! k = None \<or>
           pipe_from_previous (sps ! k) \<and> l_procs l' \<noteq> [] \<and> pout (last (l_procs l')) = None)"
      by blast
    have "map pid (l_procs (start_stage sp r l)) = map pid (l_procs l) @ [new_pid r]"
      by (simp add: start_stage_def Let_def)
    then show ?thesis using k o by (intro exI [of _ "Suc k"]) (auto split: if_splits)
  qed
qed

text \<open>C14. A launch is all or nothing.  When it succeeds, there is one process per stage, all in the
  group led by the first one, every piped stage reads the previous stage's output and the
  parent has closed its own copy of that pipe.  When it fails, exactly the processes that
  had been started are handed to termination, and the launch stopped at the first stage
  whose start raised or whose predecessor has no output pipe.\<close>

theorem launch_all_or_nothing:
  "case launch_transaction sps outs of
     (Inr l, killed) \<Rightarrow> killed = [] \<and>
       map pid (l_procs l) = map (\<lambda>o1. new_pid (the o1)) (take (length sps) outs) \<and>
       length (l_procs l) = length sps \<and> linked (l_procs l) sps (l_closed l) \<and>
       list_all (\<lambda>p. grp p = pid (hd (l_procs l))) (tl (l_procs l)) \<and>
       (l_procs l = [] \<or> l_pgid l = Some (pid (hd (l_procs l))) \<and> grp (hd (l_procs l)) = 0)
   | (Inl e, killed) \<Rightarrow> e = RuntimeError \<and> length killed < length sps \<and>
       map pid killed = map (\<lambda>o1. new_pid (the o1)) (take (length killed) outs) \<and>
       (length outs \<le> length killed \<or> outs ! length killed = None \<or>
        pipe_from_previous (sps ! length killed) \<and> killed \<noteq> [] \<and> pout (last killed) = None)"
proof -
  let ?l0 = "\<lparr>l_procs = [], l_pgid = None, l_closed = []\<rparr>"
  obtain l ok where run: "launch_stages sps outs ?l0 = (l, ok)"
    by (cases "launch_stages sps outs ?l0")
  from launch_stages_started [OF run] obtain k where
    k: "k \<le> length sps" "k \<le> length outs"
      "map pid (l_procs l) = map (\<lambda>o1. new_pid (the o1)) (take k outs)"
      "if ok then k = length sps
       else k < length sps \<and> (k < length outs \<longrightarrow> outs ! k = None \<or>
         pipe_from_previous (sps ! k) \<and> l_procs l \<noteq> [] \<and> pout (last (l_procs l)) = None)"
    by auto
  have "length (l_procs l) = length (map (\<lambda>o1. new_pid (the o1)) (take k outs))"
    using k(3) by (metis length_map)
  then have len: "length (l_procs l) = k" using k(2) by simp
  have spec: "(ok \<longrightarrow> length (l_procs l) = length ([] :: proc_spec list) + length sps) \<and>
    linked (l_procs l) ([] @ sps) (l_closed l) \<and>
    (l_procs l \<noteq> [] \<longrightarrow> l_pgid l = Some (pid (hd (l_procs l)))) \<and>
    (\<forall>i<length (l_procs l). grp (l_procs l ! i) = (if i = 0 then 0 else pid (hd (l_procs l))))"
    by (rule launch_stages_spec [OF run]) (simp_all add: linked_def)
  then have "list_all (\<lambda>p. grp p = pid (hd (l_procs l))) (tl (l_procs l))"
    by (auto simp: list_all_length nth_tl)
  moreover have "l_procs l = [] \<or> grp (hd (l_procs l)) = 0"
    using spec by (cases "l_procs l") auto
  ultimately show ?thesis
    using run k len spec by (cases ok) (auto simp: launch_transaction_def)
qed

subsection \<open>Termination takes bounded time\<close>

lemma wait_shared_filter:
  "now \<le> deadline \<Longrightarrow>
   fst (wait_shared ex deadline now ps) = filter (\<lambda>p. \<not> exited ex p deadline) ps \<and>
   now \<le> snd (wait_shared ex deadline now ps) \<and> snd (wait_shared ex deadline now ps) \<le> deadline"
proof (induction ps arbitrary: now)
  case (Cons p ps)
  show ?case
  proof (cases "exited ex p now")
    case True
    then have "exited ex p deadline" using Cons.prems by (auto simp: exited_def split: option.splits)
    with True Cons show ?thesis by simp
  next
    case late: False
    have fin: "now + max 0 (deadline - now) = deadline" using Cons.prems by simp
    show ?thesis
    proof (cases "exited ex p deadline")
      case True
      then obtain e where e: "ex p = Some e" "e \<le> deadline" "now < e"
        using late by (auto simp: exited_def split: option.splits)
      then show ?thesis using Cons.IH [of e] late True fin by (simp add: Let_def)
    next
      case False
      then show ?thesis using late fin Cons.prems by (simp add: Let_def)
    qed
  qed
qed simp

text \<open>Waiting under the shared deadline returns exactly the processes that have not exited by the
  deadline, however many there are and in whatever order they exit, and it returns by then.\<close>

theorem wait_shared_deadline_spec:
  assumes "0 \<le> timeout"
  shows "fst (wait_shared_deadline ex now timeout ps) =
           filter (\<lambda>p. \<not> exited ex p (now + timeout)) ps \<and>
         snd (wait_shared_deadline ex now timeout ps) \<le> now + timeout"
  using wait_shared_filter [of now "now + timeout" ex ps] assms
  by (simp add: wait_shared_deadline_def)

definition demo_proc :: "nat \<Rightarrow> proc" where
  "demo_proc i = \<lparr>pid = i, grp = 0, from_prev = False, pin = None, pout = None, perr = None\<rparr>"

definition demo_exit :: "proc \<Rightarrow> time option" where
  "demo_exit p = (if pid p = 1 then Some 3 else if pid p = 2 then None else Some 4)"

theorem wait_shared_deadline_spec_witness:
  "fst (wait_shared_deadline demo_exit 0 5 [demo_proc 1, demo_proc 2, demo_proc 3]) = [demo_proc 2]"
  using wait_shared_deadline_spec
    [of 5 demo_exit 0 "[demo_proc 1, demo_proc 2, demo_proc 3]"]
  by (simp add: exited_def demo_exit_def demo_proc_def)

text \<open>Termination of a pipeline ends within the two configured timeouts together, whatever the
  processes do; the kill signal goes out only when some process outlived the first timeout,
  and only a process that also outlives the kill timeout is left behind.\<close>

theorem terminate_bounded:
  assumes "0 \<le> tt" "0 \<le> kt" "ps \<noteq> []"
  shows "let r = terminate_processes w tt kt now ps g;
             late = filter (\<lambda>p. \<not> exited (os_term w) p (now + tt)) ps
         in t_end r \<le> now + tt + kt \<and>
            t_closed r = close_streams ps \<and>
            ((\<exists>x. To_Group x SIGKILL \<in> set (t_sent r) \<or> To_Proc x SIGKILL \<in> set (t_sent r))
               \<longrightarrow> late \<noteq> []) \<and>
            (\<forall>p\<in>set (t_left r). p \<in> set late \<and>
               (\<forall>e. os_kill w p = Some e \<longrightarrow>
                  snd (wait_shared_deadline (os_term w) now tt ps) + kt < e))"
proof -
  obtain sv t1 where w1: "wait_shared_deadline (os_term w) now tt ps = (sv, t1)"
    by (cases "wait_shared_deadline (os_term w) now tt ps")
  have f1: "sv = filter (\<lambda>p. \<not> exited (os_term w) p (now + tt)) ps" "t1 \<le> now + tt"
    using wait_shared_filter [of now "now + tt" "os_term w" ps] assms(1) w1
    by (simp_all add: wait_shared_deadline_def)
  obtain lf t2 where w2: "wait_shared_deadline (os_kill w) t1 kt sv = (lf, t2)"
    by (cases "wait_shared_deadline (os_kill w) t1 kt sv")
  have f2: "lf = filter (\<lambda>p. \<not> exited (os_kill w) p (t1 + kt)) sv" "t2 \<le> t1 + kt"
    using wait_shared_filter [of t1 "t1 + kt" "os_kill w" sv] assms(2) w2
    by (simp_all add: wait_shared_deadline_def)
  have term_only: "To_Group x SIGKILL \<notin> set (signal_group b ex t qs g SIGTERM)"
    "To_Proc x SIGKILL \<notin> set (signal_group b ex t qs g SIGTERM)" for b ex t qs x
    by (auto simp: signal_group_def split: option.splits)
  show ?thesis
    using f1 f2 w1 w2 assms term_only
    by (cases "sv = []")
      (auto simp: terminate_processes_def Let_def exited_def split: option.splits)
qed

definition demo_world :: os_world where
  "demo_world = \<lparr>killpg_ok = True, os_term = demo_exit, os_kill = (\<lambda>_. Some 6)\<rparr>"

theorem terminate_bounded_witness:
  "t_end (terminate_processes demo_world 5 2 0 [demo_proc 1, demo_proc 2] (Some 1)) \<le> 7 \<and>
   t_sent (terminate_processes demo_world 5 2 0 [demo_proc 1, demo_proc 2] (Some 1)) =
     [To_Group 1 SIGTERM, To_Group 1 SIGKILL]"
proof
  show "t_end (terminate_processes demo_world 5 2 0 [demo_proc 1, demo_proc 2] (Some 1)) \<le> 7"
    using terminate_bounded
      [of 5 2 "[demo_proc 1, demo_proc 2]" demo_world 0 "Some 1"]
    by (simp add: Let_def)
  show "t_sent (terminate_processes demo_world 5 2 0 [demo_proc 1, demo_proc 2] (Some 1)) =
     [To_Group 1 SIGTERM, To_Group 1 SIGKILL]"
    by (simp add: terminate_processes_def wait_shared_deadline_def exited_def demo_exit_def
        demo_proc_def demo_world_def signal_group_def Let_def)
qed

subsection \<open>The restart budget is a sliding-window limiter\<close>

definition admit_restart :: "budget \<Rightarrow> time \<Rightarrow> budget \<times> bool" where
  "admit_restart b now = (case reserve_restart b now of (b', d) \<Rightarrow> (b', d \<noteq> None))"

definition budget_ok :: "restart_policy \<Rightarrow> budget \<Rightarrow> bool" where
  "budget_ok p b \<longleftrightarrow> b_policy b = p \<and> 0 < window_seconds p"

interpretation restart_limit:
  sliding_limit "window_seconds p" "nat (max_restarts p)" admit_restart restart_times "budget_ok p"
  for p
proof unfold_locales
  fix s s' t b
  assume g: "budget_ok p s"
  let ?kept = "dropWhile (\<lambda>x. x < t - window_seconds p) (restart_times s)"
  have kept: "set ?kept \<subseteq> set (restart_times s)" by (auto dest: set_dropWhileD)
  note d = admit_restart_def reserve_restart_def budget_ok_def Let_def
  show "0 < window_seconds p" using g by (simp add: d)
  assume "admit_restart s t = (s', True)"
  then have r: "\<not> max_restarts p \<le> int (length ?kept)" "restart_times s' = ?kept @ [t]"
    using g by (auto simp: d split: if_splits)
  have "length (filter (\<lambda>x. t - window_seconds p < x) (restart_times s)) \<le> length ?kept"
    by (metis dropWhile_window length_filter_le)
  then show "length (filter (\<lambda>x. t - window_seconds p < x) (restart_times s)) < nat (max_restarts p)"
    using r by linarith
  show "mset (filter (\<lambda>x. t - window_seconds p < x) (restart_times s) @ [t]) \<subseteq>#
      mset (filter (\<lambda>x. t - window_seconds p < x) (restart_times s'))"
    using r(2) g by (simp add: dropWhile_window budget_ok_def)
next
  fix s s' t
  assume g: "budget_ok p s" and "admit_restart s t = (s', False)"
  then have "restart_times s' = dropWhile (\<lambda>x. x < t - window_seconds p) (restart_times s)"
    by (auto simp: admit_restart_def reserve_restart_def budget_ok_def Let_def split: if_splits)
  then show "mset (filter (\<lambda>x. t - window_seconds p < x) (restart_times s)) \<subseteq>#
      mset (filter (\<lambda>x. t - window_seconds p < x) (restart_times s'))"
    by (simp add: dropWhile_window)
next
  fix s s' t b
  assume g: "budget_ok p s" and a: "admit_restart s t = (s', b)"
  then show "set (restart_times s') \<subseteq> insert t (set (restart_times s))"
    by (auto simp: admit_restart_def reserve_restart_def budget_ok_def Let_def
        dest: set_dropWhileD split: if_splits)
  from g a show "budget_ok p s'"
    by (auto simp: admit_restart_def reserve_restart_def budget_ok_def Let_def split: if_splits)
qed

definition fresh_budget :: "restart_policy \<Rightarrow> budget" where
  "fresh_budget p = \<lparr>b_policy = p, restart_times = [], restart_count = 0\<rparr>"

lemma check_policy_Inr:
  "check_policy p = Inr q \<longleftrightarrow> q = p \<and> delays p \<noteq> [] \<and> list_all (\<lambda>d. 0 \<le> d) (delays p) \<and>
     0 \<le> max_restarts p \<and> 0 < window_seconds p \<and> 0 < poll_interval p"
  by (auto simp: check_policy_def list_ex_iff list_all_iff not_le not_less)

primrec restart_grants :: "budget \<Rightarrow> time list \<Rightarrow> time list" where
  "restart_grants b [] = []"
| "restart_grants b (t # ts) =
     (case reserve_restart b t of
        (b', None) \<Rightarrow> restart_grants b' ts
      | (b', Some _) \<Rightarrow> t # restart_grants b' ts)"

lemma restart_grants_granted: "restart_grants b ts = restart_limit.granted b ts"
  by (induction ts arbitrary: b) (auto simp: admit_restart_def split: prod.splits option.splits)

text \<open>C13. Whatever the failures and their times, a validated policy never lets more than
  \<open>max_restarts\<close> restarts begin within any interval of \<open>window_seconds\<close>.\<close>

theorem restart_rate_bounded:
  assumes "check_policy p = Inr p" "sorted ts"
  shows "int (window_count (window_seconds p) a (restart_grants (fresh_budget p) ts)) \<le> max_restarts p"
proof -
  have "window_count (window_seconds p) a (restart_limit.granted (fresh_budget p) ts)
      \<le> nat (max_restarts p)"
    using assms by (intro restart_limit.granted_window)
      (auto simp: check_policy_Inr budget_ok_def fresh_budget_def)
  then show ?thesis
    using assms(1) unfolding restart_grants_granted check_policy_Inr by linarith
qed

definition demo_policy :: restart_policy where
  "demo_policy = \<lparr>enabled = True, delays = [1, 2], max_restarts = 2, window_seconds = 10,
     poll_interval = 1\<rparr>"

lemma demo_policy_simps:
  "check_policy demo_policy = Inr demo_policy"
  "window_seconds demo_policy = 10" "max_restarts demo_policy = 2"
  by (simp_all add: check_policy_def demo_policy_def)

theorem restart_rate_bounded_witness:
  "restart_grants (fresh_budget demo_policy) [1, 2, 3, 12] = [1, 2, 12] \<and>
   int (window_count 10 0 (restart_grants (fresh_budget demo_policy) [1, 2, 3, 12])) \<le> 2"
proof
  show "restart_grants (fresh_budget demo_policy) [1, 2, 3, 12] = [1, 2, 12]"
    by (simp add: fresh_budget_def demo_policy_def reserve_restart_def Let_def)
  show "int (window_count 10 0 (restart_grants (fresh_budget demo_policy) [1, 2, 3, 12])) \<le> 2"
    using restart_rate_bounded [of demo_policy "[1, 2, 3, 12]" 0]
    unfolding demo_policy_simps by (simp del: restart_grants.simps)
qed

lemma reserved_delay:
  assumes "delays (b_policy b) \<noteq> []" "reserve_restart b now = (b', Some d)"
  shows "\<exists>x\<in>set (delays (b_policy b)). d = Inr x"
proof -
  let ?p = "b_policy b"
  obtain kept where d: "d = delay_for_attempt ?p (int (length (kept @ [now])))"
    using assms(2) by (auto simp: reserve_restart_def Let_def split: if_splits)
  let ?n = "nat (min (int (length (kept @ [now])) - 1) (int (length (delays ?p)) - 1))"
  have "?n < length (delays ?p)" using assms(1)
    by (cases "delays ?p") (auto simp: min_def)
  then have "delays ?p ! ?n \<in> set (delays ?p)" by (rule nth_mem)
  then show ?thesis by (simp add: d delay_for_attempt_def)
qed

end
