(* ===== verification/Supervisor_Machine.thy ===== *)
theory Supervisor_Machine
  imports Process_Supervisor
begin

text \<open>
  The supervisor's threads as a state machine.  The starting thread and every monitor thread
  have a program counter with their local variables; a step is one lock-protected section or
  one call out (launch, hook, wait).  \<open>unterminated\<close> is a ghost: the processes that were
  started and not yet handed to \<open>_terminate_processes\<close>.  The trace records the calls to
  hooks and terminations.
\<close>

datatype mon_pc =
    M_Top "failure option"
  | M_Found failure
  | M_Hook failure
  | M_Reserve failure
  | M_Delay nat real
  | M_Restart_Hook nat real
  | M_Launch nat
  | M_Install nat "proc list" "nat option"
  | M_Started nat "proc list"
  | M_Finish
  | M_Dead

datatype start_pc =
    S_Idle
  | S_Launch
  | S_Check "proc list" "nat option"
  | S_Hook "proc list" "nat option"
  | S_Install "proc list" "nat option"

datatype sup_event =
    Terminated "nat list"
  | Failure_Hook failure
  | Exhausted_Hook failure
  | Restart_Hook nat
  | Restart_Failed nat
  | Started_Hook "nat list" bool

record sup =
  specs :: "proc_spec list"
  procs :: "proc list"
  pgid :: "nat option"
  monitors :: "mon_pc list"
  stop_event :: bool
  failure_event :: bool
  reported :: "failure option"
  bud :: budget
  running :: bool
  starting :: bool
  started_at :: "time option"
  last_failure :: "failure option"
  starter :: start_pc
  unterminated :: "nat list"
  trace :: "sup_event list"

abbreviation pids :: "proc list \<Rightarrow> nat list" where
  "pids \<equiv> map pid"

definition init_sup :: "proc_spec list \<Rightarrow> restart_policy \<Rightarrow> py_error + sup" where
  "init_sup sps p =
     (if sps = [] then Inl ValueError
      else Inr \<lparr>specs = sps, procs = [], pgid = None, monitors = [], stop_event = False,
        failure_event = False, reported = None, bud = fresh_budget p, running = False,
        starting = False, started_at = None, last_failure = None, starter = S_Idle,
        unterminated = [], trace = []\<rparr>)"

definition log_event :: "sup_event \<Rightarrow> sup \<Rightarrow> sup" where
  "log_event e s = s\<lparr>trace := trace s @ [e]\<rparr>"

text \<open>\<open>_terminate_processes\<close> on a list of processes, and \<open>_terminate_current\<close>.\<close>

definition kill :: "proc list \<Rightarrow> sup \<Rightarrow> sup" where
  "kill ps s =
     (if ps = [] then s
      else log_event (Terminated (pids ps))
        (s\<lparr>unterminated := filter (\<lambda>p. p \<notin> set (pids ps)) (unterminated s)\<rparr>))"

definition terminate_current :: "sup \<Rightarrow> sup" where
  "terminate_current s = kill (procs s) (s\<lparr>procs := [], pgid := None\<rparr>)"

definition spawned :: "proc list \<Rightarrow> sup \<Rightarrow> sup" where
  "spawned ps s = s\<lparr>unterminated := unterminated s @ pids ps\<rparr>"

subsection \<open>The starting thread\<close>

definition uptime :: "sup \<Rightarrow> time \<Rightarrow> real" where
  "uptime s now =
     (case started_at s of
        None \<Rightarrow> 0
      | Some t \<Rightarrow> if running s then max 0 (now - t) else 0)"

definition replace_specs :: "proc_spec list \<Rightarrow> sup \<Rightarrow> py_error + sup" where
  "replace_specs sps s =
     (if sps = [] then Inl ValueError
      else if procs s \<noteq> [] then Inl RuntimeError
      else Inr (s\<lparr>specs := sps\<rparr>))"

definition start_begin :: "sup \<Rightarrow> py_error + sup" where
  "start_begin s =
     (if running s \<or> starting s then Inl RuntimeError
      else Inr (s\<lparr>starting := True, stop_event := False, failure_event := False,
        reported := None, bud := (bud s)\<lparr>restart_times := [], restart_count := 0\<rparr>,
        starter := S_Launch\<rparr>))"

definition start_done :: "sup \<Rightarrow> sup" where
  "start_done s = s\<lparr>starting := False, starter := S_Idle\<rparr>"

definition start_launch :: "popen_result option list \<Rightarrow> sup \<Rightarrow> sup" where
  "start_launch outs s =
     (case launch_transaction (specs s) outs of
        (Inl _, killed) \<Rightarrow> start_done (kill killed (spawned killed s))
      | (Inr l, _) \<Rightarrow> (spawned (l_procs l) s)\<lparr>starter := S_Check (l_procs l) (l_pgid l)\<rparr>)"

definition start_check :: "proc list \<Rightarrow> nat option \<Rightarrow> sup \<Rightarrow> sup" where
  "start_check ps g s =
     (if stop_event s then start_done (kill ps s) else s\<lparr>starter := S_Hook ps g\<rparr>)"

definition start_hook :: "bool \<Rightarrow> proc list \<Rightarrow> nat option \<Rightarrow> sup \<Rightarrow> sup" where
  "start_hook raises ps g s =
     (let s1 = log_event (Started_Hook (pids ps) False) s
      in if raises then start_done (kill ps s1) else s1\<lparr>starter := S_Install ps g\<rparr>)"

definition start_install :: "bool \<Rightarrow> time \<Rightarrow> proc list \<Rightarrow> nat option \<Rightarrow> sup \<Rightarrow> sup" where
  "start_install thread_ok now ps g s =
     (if stop_event s then start_done (kill ps s)
      else if \<not> thread_ok then
        start_done (kill ps (s\<lparr>procs := [], pgid := None, running := False, started_at := None\<rparr>))
      else start_done (s\<lparr>procs := ps, pgid := g, running := True, started_at := Some now,
             monitors := monitors s @ [M_Top None]\<rparr>))"

subsection \<open>Client calls\<close>

definition stop_begin :: "sup \<Rightarrow> sup \<times> bool" where
  "stop_begin s =
     (s\<lparr>running := False, stop_event := True, failure_event := True\<rparr>,
      running s \<or> starting s \<or> procs s \<noteq> [])"

definition request_stop :: "sup \<Rightarrow> sup \<times> bool" where
  "request_stop s =
     (if \<not> running s \<and> \<not> starting s \<and> procs s = [] then (s, False)
      else (s\<lparr>running := False, stop_event := True, failure_event := True\<rparr>, True))"

definition notify_unexpected_eof ::
  "int option \<Rightarrow> int option \<Rightarrow> string \<Rightarrow> time \<Rightarrow> sup \<Rightarrow> py_error + (sup \<times> bool)" where
  "notify_unexpected_eof idx poll reason now s =
     (if \<not> running s \<or> stop_event s then Inr (s, False)
      else case idx of
        None \<Rightarrow> Inr (s\<lparr>reported := Some \<lparr>f_stage = None, f_name = None, f_returncode = None,
            f_reason = reason, f_at = now\<rparr>, failure_event := True\<rparr>, True)
      | Some i \<Rightarrow>
          if \<not> (0 \<le> i \<and> i < int (length (specs s))) then Inl IndexError
          else Inr (s\<lparr>reported := Some \<lparr>f_stage = Some (nat i),
              f_name = Some (display_name (specs s ! nat i)),
              f_returncode = (if i < int (length (procs s)) then poll else None),
              f_reason = reason, f_at = now\<rparr>, failure_event := True\<rparr>, True))"

subsection \<open>The monitor thread\<close>

fun first_exit :: "nat \<Rightarrow> int option list \<Rightarrow> (nat \<times> int) option" where
  "first_exit i [] = None"
| "first_exit i (None # rcs) = first_exit (Suc i) rcs"
| "first_exit i (Some rc # rcs) = Some (i, rc)"

text \<open>One round of \<open>_wait_for_failure\<close>: a reported failure, or the first stage \<open>poll\<close> finds
  exited; \<open>None\<close> means another round.\<close>

definition wait_round :: "int option list \<Rightarrow> time \<Rightarrow> sup \<Rightarrow> sup \<times> failure option" where
  "wait_round rcs now s =
     (let f = (if failure_event s then reported s else None);
          s1 = (if failure_event s then s\<lparr>reported := None, failure_event := False\<rparr> else s)
      in case f of
           Some x \<Rightarrow> (s1, Some x)
         | None \<Rightarrow>
             (case first_exit 0 (take (length (procs s)) rcs) of
                None \<Rightarrow> (s1, None)
              | Some (i, rc) \<Rightarrow>
                  (s1, Some \<lparr>f_stage = Some i, f_name = Some (display_name (specs s ! i)),
                         f_returncode = Some rc, f_reason = ''process exited unexpectedly'',
                         f_at = now\<rparr>)))"

definition bare_failure :: "string \<Rightarrow> time \<Rightarrow> failure" where
  "bare_failure r now =
     \<lparr>f_stage = None, f_name = None, f_returncode = None, f_reason = r, f_at = now\<rparr>"

text \<open>What the outside contributes to a monitor step: the exit codes \<open>poll\<close> reports, the clock,
  whether the hook it calls returns, and the outcomes of its \<open>Popen\<close> calls.\<close>

datatype mon_input = In "int option list" time bool "popen_result option list"

fun mon_step :: "mon_input \<Rightarrow> mon_pc \<Rightarrow> sup \<Rightarrow> (mon_pc \<times> sup) option" where
  "mon_step (In rcs now ok outs) (M_Top pf) s =
     (if stop_event s then Some (M_Finish, s)
      else case pf of
        Some f \<Rightarrow> Some (M_Found f, s)
      | None \<Rightarrow>
          (case wait_round rcs now s of
             (s', None) \<Rightarrow> Some (M_Top None, s')
           | (s', Some f) \<Rightarrow> Some (M_Found f, s')))"
| "mon_step (In rcs now ok outs) (M_Found f) s = Some (M_Hook f, terminate_current (s\<lparr>last_failure := Some f\<rparr>))"
| "mon_step (In rcs now ok outs) (M_Hook f) s =
     (let s1 = log_event (Failure_Hook f) s
      in if stop_event s1 \<or> \<not> enabled (b_policy (bud s1)) then Some (M_Finish, s1)
         else Some (M_Reserve f, s1))"
| "mon_step (In rcs now ok outs) (M_Reserve f) s =
     (case reserve_restart (bud s) now of
        (b', None) \<Rightarrow> Some (M_Finish, log_event (Exhausted_Hook f) (s\<lparr>bud := b'\<rparr>))
      | (b', Some (Inl e)) \<Rightarrow> Some (M_Dead, s\<lparr>bud := b'\<rparr>)
      | (b', Some (Inr d)) \<Rightarrow> Some (M_Delay (restart_count b') d, s\<lparr>bud := b'\<rparr>))"
| "mon_step (In rcs now ok outs) (M_Delay n d) s =
     Some (if stop_event s then M_Finish else M_Restart_Hook n d, s)"
| "mon_step (In rcs now ok outs) (M_Restart_Hook n d) s =
     (let s1 = log_event (Restart_Hook n) s
      in if ok then Some (M_Launch n, s1)
         else Some (M_Top (Some (bare_failure ''restart preparation failed'' now)),
                    log_event (Restart_Failed n) s1))"
| "mon_step (In rcs now ok outs) (M_Launch n) s =
     (case launch_transaction (specs s) outs of
        (Inl _, killed) \<Rightarrow>
          Some (M_Top (Some (bare_failure ''restart launch failed'' now)),
                log_event (Restart_Failed n) (kill killed (spawned killed s)))
      | (Inr l, _) \<Rightarrow> Some (M_Install n (l_procs l) (l_pgid l), spawned (l_procs l) s))"
| "mon_step (In rcs now ok outs) (M_Install n ps g) s =
     (if stop_event s then Some (M_Finish, kill ps s)
      else Some (M_Started n ps, s\<lparr>procs := ps, pgid := g, started_at := Some now,
             failure_event := False, reported := None\<rparr>))"
| "mon_step (In rcs now ok outs) (M_Started n ps) s =
     (let s1 = log_event (Started_Hook (pids ps) True) s
      in if ok then Some (M_Top None, s1)
         else Some (M_Top (Some (bare_failure ''restarted pipeline hook failed'' now)),
                    log_event (Restart_Failed n) (terminate_current s1)))"
| "mon_step (In rcs now ok outs) M_Finish s = Some (M_Dead, s\<lparr>running := False, started_at := None\<rparr>)"
| "mon_step (In rcs now ok outs) M_Dead s = None"

subsection \<open>Interleaving\<close>

datatype action =
    Start_Begin
  | Start_Launch "popen_result option list"
  | Start_Check
  | Start_Hook bool
  | Start_Install bool time
  | Stop_Begin
  | Stop_Terminate
  | Request_Stop
  | Notify "int option" "int option" string time
  | Replace "proc_spec list"
  | Mon nat mon_input

definition result_or :: "sup \<Rightarrow> py_error + sup \<Rightarrow> sup" where
  "result_or s r = (case r of Inl _ \<Rightarrow> s | Inr s' \<Rightarrow> s')"

fun act :: "action \<Rightarrow> sup \<Rightarrow> sup option" where
  "act Start_Begin s = Some (result_or s (start_begin s))"
| "act (Start_Launch outs) s = (if starter s = S_Launch then Some (start_launch outs s) else None)"
| "act Start_Check s =
     (case starter s of S_Check ps g \<Rightarrow> Some (start_check ps g s) | _ \<Rightarrow> None)"
| "act (Start_Hook raises) s =
     (case starter s of S_Hook ps g \<Rightarrow> Some (start_hook raises ps g s) | _ \<Rightarrow> None)"
| "act (Start_Install ok now) s =
     (case starter s of S_Install ps g \<Rightarrow> Some (start_install ok now ps g s) | _ \<Rightarrow> None)"
| "act Stop_Begin s = Some (fst (stop_begin s))"
| "act Stop_Terminate s = Some (terminate_current s)"
| "act Request_Stop s = Some (fst (request_stop s))"
| "act (Notify i poll r now) s =
     Some (case notify_unexpected_eof i poll r now s of Inl _ \<Rightarrow> s | Inr (s', _) \<Rightarrow> s')"
| "act (Replace sps) s = Some (result_or s (replace_specs sps s))"
| "act (Mon i inp) s =
     (if i < length (monitors s) then
        (case mon_step inp (monitors s ! i) s of
           None \<Rightarrow> None
         | Some (pc, s') \<Rightarrow> Some (s'\<lparr>monitors := (monitors s)[i := pc]\<rparr>))
      else None)"

primrec run :: "action list \<Rightarrow> sup \<Rightarrow> sup option" where
  "run [] s = Some s"
| "run (a # as) s = (case act a s of None \<Rightarrow> None | Some s' \<Rightarrow> run as s')"

text \<open>The calling discipline: a new start waits until the previous group is terminated and its
  monitor has left.\<close>

definition quiescent :: "sup \<Rightarrow> bool" where
  "quiescent s \<longleftrightarrow> procs s = [] \<and> list_all (\<lambda>m. m = M_Dead) (monitors s)"

inductive reachable :: "sup \<Rightarrow> bool" where
  reach_init: "init_sup sps p = Inr s \<Longrightarrow> reachable s"
| reach_start: "reachable s \<Longrightarrow> quiescent s \<Longrightarrow> act Start_Begin s = Some s' \<Longrightarrow> reachable s'"
| reach_act: "reachable s \<Longrightarrow> a \<noteq> Start_Begin \<Longrightarrow> act a s = Some s' \<Longrightarrow> reachable s'"

fun mon_holds :: "mon_pc \<Rightarrow> nat list" where
  "mon_holds (M_Install n ps g) = pids ps"
| "mon_holds _ = []"

fun start_holds :: "start_pc \<Rightarrow> nat list" where
  "start_holds (S_Check ps g) = pids ps"
| "start_holds (S_Hook ps g) = pids ps"
| "start_holds (S_Install ps g) = pids ps"
| "start_holds _ = []"

text \<open>The processes some owner answers for: the group's list, a monitor or the starting thread.\<close>

definition owned :: "sup \<Rightarrow> nat set" where
  "owned s = set (pids (procs s)) \<union> (\<Union>m\<in>set (monitors s). set (mon_holds m)) \<union>
     set (start_holds (starter s))"

subsection \<open>No process is lost\<close>

named_theorems sup_defs "definitions of the supervisor's operations"

lemmas [sup_defs] = log_event_def kill_def terminate_current_def spawned_def start_begin_def
  start_done_def start_launch_def start_check_def start_hook_def start_install_def
  stop_begin_def request_stop_def notify_unexpected_eof_def replace_specs_def result_or_def

definition cur :: "sup \<Rightarrow> mon_pc" where
  "cur s = (if monitors s = [] then M_Dead else last (monitors s))"

fun clear_pc :: "mon_pc \<Rightarrow> bool" where
  "clear_pc (M_Top (Some f)) = True"
| "clear_pc (M_Hook f) = True"
| "clear_pc (M_Reserve f) = True"
| "clear_pc (M_Delay n d) = True"
| "clear_pc (M_Restart_Hook n d) = True"
| "clear_pc (M_Launch n) = True"
| "clear_pc (M_Install n ps g) = True"
| "clear_pc _ = False"

definition sup_inv :: "sup \<Rightarrow> bool" where
  "sup_inv s \<longleftrightarrow>
     list_all (\<lambda>m. m = M_Dead) (butlast (monitors s)) \<and>
     (starting s \<longleftrightarrow> starter s \<noteq> S_Idle) \<and>
     (starter s \<noteq> S_Idle \<longrightarrow> cur s = M_Dead \<and> procs s = []) \<and>
     (clear_pc (cur s) \<longrightarrow> procs s = []) \<and>
     set (unterminated s) \<subseteq>
       set (pids (procs s)) \<union> set (mon_holds (cur s)) \<union> set (start_holds (starter s))"

lemma mon_step_dead: "mon_step inp M_Dead s = None"
  by (cases inp) auto

lemma cur_only_alive:
  assumes "list_all (\<lambda>m. m = M_Dead) (butlast (monitors s))" "i < length (monitors s)"
    and "monitors s ! i \<noteq> M_Dead"
  shows "Suc i = length (monitors s)"
proof (rule ccontr)
  assume "Suc i \<noteq> length (monitors s)"
  with assms(2) have "i < length (butlast (monitors s))" by simp
  with assms(1,3) show False by (simp add: list_all_length nth_butlast)
qed

lemma mon_step_fields:
  assumes "mon_step inp pc s = Some (pc', s')"
  shows "monitors s' = monitors s \<and> starter s' = starter s \<and> starting s' = starting s \<and>
    stop_event s' = stop_event s \<and> specs s' = specs s"
  using assms
  by (cases "(inp, pc, s)" rule: mon_step.cases)
    (auto simp: sup_defs wait_round_def Let_def split: if_splits option.splits prod.splits sum.splits)

text \<open>What one step of a monitor does to the processes it answers for.\<close>

lemma mon_step_owned:
  assumes "mon_step inp pc s = Some (pc', s')"
    and "clear_pc pc \<longrightarrow> procs s = []"
    and "set (unterminated s) \<subseteq> set (pids (procs s)) \<union> set (mon_holds pc) \<union> X"
  shows "(clear_pc pc' \<longrightarrow> procs s' = []) \<and>
    set (unterminated s') \<subseteq> set (pids (procs s')) \<union> set (mon_holds pc') \<union> X"
  using assms
  by (cases "(inp, pc, s)" rule: mon_step.cases)
    (auto simp: sup_defs wait_round_def Let_def split: if_splits option.splits prod.splits sum.splits)

lemma act_mon_cases:
  assumes "act (Mon i inp) s = Some s'"
  obtains pc s1 where "i < length (monitors s)" "monitors s ! i \<noteq> M_Dead"
    "mon_step inp (monitors s ! i) s = Some (pc, s1)" "s' = s1\<lparr>monitors := (monitors s)[i := pc]\<rparr>"
proof -
  from assms have i: "i < length (monitors s)" by (simp split: if_splits)
  with assms obtain pc s1 where st: "mon_step inp (monitors s ! i) s = Some (pc, s1)"
      "s' = s1\<lparr>monitors := (monitors s)[i := pc]\<rparr>"
    by (auto split: option.splits)
  have "monitors s ! i \<noteq> M_Dead" using st(1) mon_step_dead [of inp s] by auto
  with i st show ?thesis by (intro that)
qed

lemma sup_inv_mon:
  assumes "sup_inv s" "act (Mon i inp) s = Some s'"
  shows "sup_inv s'"
  using assms(2)
proof (rule act_mon_cases)
  fix pc s1
  assume i: "i < length (monitors s)" "monitors s ! i \<noteq> M_Dead"
    and st: "mon_step inp (monitors s ! i) s = Some (pc, s1)"
    and s': "s' = s1\<lparr>monitors := (monitors s)[i := pc]\<rparr>"
  have last: "Suc i = length (monitors s)"
    using cur_only_alive i assms(1) unfolding sup_inv_def by blast
  then have ne: "monitors s \<noteq> []" and li: "length (monitors s) - 1 = i" by auto
  have cur: "cur s = monitors s ! i" using ne li by (simp add: cur_def last_conv_nth)
  have mons: "monitors s' = butlast (monitors s) @ [pc]"
  proof -
    have "length (butlast (monitors s)) = i" using li by simp
    then have "(butlast (monitors s) @ [last (monitors s)])[i := pc] = butlast (monitors s) @ [pc]"
      by (metis list_update_length)
    then show ?thesis using ne by (simp add: s')
  qed
  then have cur': "cur s' = pc" by (simp add: cur_def)
  note f = mon_step_fields [OF st]
  have idle: "starter s = S_Idle" using assms(1) cur i(2) unfolding sup_inv_def by auto
  have "(clear_pc pc \<longrightarrow> procs s1 = []) \<and>
    set (unterminated s1) \<subseteq> set (pids (procs s1)) \<union> set (mon_holds pc) \<union> {}"
    using assms(1) cur idle unfolding sup_inv_def
    by (intro mon_step_owned [OF st]) auto
  then show "sup_inv s'"
    using assms(1) mons cur' idle f s' unfolding sup_inv_def by simp
qed

lemma sup_inv_start:
  assumes "sup_inv s" "quiescent s" "act Start_Begin s = Some s'"
  shows "sup_inv s'"
proof -
  have "list_all (\<lambda>m. m = M_Dead) (butlast (monitors s))"
    using assms(2) by (auto simp: quiescent_def list_all_iff dest: in_set_butlastD)
  moreover have "cur s = M_Dead"
    using assms(2) by (auto simp: quiescent_def cur_def list_all_iff)
  ultimately show ?thesis
    using assms by (auto simp: sup_inv_def quiescent_def cur_def sup_defs split: if_splits)
qed

lemma sup_inv_same:
  assumes "sup_inv s" "monitors s' = monitors s" "starter s' = starter s"
    "starting s' = starting s" "procs s' = procs s" "unterminated s' = unterminated s"
  shows "sup_inv s'"
proof -
  have "cur s' = cur s" using assms(2) by (simp add: cur_def)
  then show ?thesis using assms unfolding sup_inv_def by simp
qed

lemma sup_inv_act:
  assumes "sup_inv s" "a \<noteq> Start_Begin" "act a s = Some s'"
  shows "sup_inv s'"
proof (cases a)
  case (Mon i inp)
  then show ?thesis using sup_inv_mon assms by blast
next
  case (Start_Install ok now)
  then obtain ps g where st: "starter s = S_Install ps g" "s' = start_install ok now ps g s"
    using assms(3) by (auto split: start_pc.splits)
  have "list_all (\<lambda>m. m = M_Dead) (butlast (monitors s) @ [last (monitors s)])"
    if "monitors s \<noteq> []"
    using assms(1) st(1) that by (simp add: sup_inv_def cur_def)
  then have "list_all (\<lambda>m. m = M_Dead) (monitors s)"
    by (cases "monitors s = []") simp_all
  then show ?thesis
    using assms(1) st by (auto simp: sup_inv_def cur_def sup_defs)
next
  case (Start_Launch outs)
  with assms show ?thesis
    by (auto simp: sup_inv_def cur_def sup_defs split: if_splits prod.splits sum.splits)
next
  case Start_Check
  then obtain ps g where st: "starter s = S_Check ps g" "s' = start_check ps g s"
    using assms(3) by (auto split: start_pc.splits)
  then show ?thesis
    using assms(1) by (cases "stop_event s") (auto simp: sup_inv_def cur_def sup_defs)
next
  case (Start_Hook r)
  then obtain ps g where st: "starter s = S_Hook ps g" "s' = start_hook r ps g s"
    using assms(3) by (auto split: start_pc.splits)
  then show ?thesis
    using assms(1) by (cases r) (auto simp: sup_inv_def cur_def sup_defs Let_def)
next
  case (Notify i poll r now)
  then have "monitors s' = monitors s" "starter s' = starter s" "starting s' = starting s"
    "procs s' = procs s" "unterminated s' = unterminated s"
    using assms(3) by (auto simp: notify_unexpected_eof_def split: if_splits option.splits)
  then show ?thesis by (rule sup_inv_same [OF assms(1)])
next
  case (Replace sps)
  with assms show ?thesis by (auto simp: sup_inv_def cur_def sup_defs split: if_splits)
next
  case Stop_Terminate
  then have "s' = terminate_current s" using assms(3) by simp
  then have "monitors s' = monitors s" "starter s' = starter s" "starting s' = starting s"
    "procs s' = []" "unterminated s' = filter (\<lambda>p. p \<notin> set (pids (procs s))) (unterminated s)"
    by (auto simp: terminate_current_def kill_def log_event_def)
  moreover from this have "cur s' = cur s" by (simp add: cur_def)
  ultimately show ?thesis using assms(1) unfolding sup_inv_def by auto
next
  case Stop_Begin
  with assms show ?thesis by (auto simp: sup_inv_def cur_def sup_defs)
next
  case Request_Stop
  then have "s' = fst (request_stop s)" using assms(3) by simp
  then have "monitors s' = monitors s" "starter s' = starter s" "starting s' = starting s"
    "procs s' = procs s" "unterminated s' = unterminated s"
    by (simp_all add: request_stop_def)
  then show ?thesis by (rule sup_inv_same [OF assms(1)])
qed (use assms(2) in simp)

lemma reachable_inv: "reachable s \<Longrightarrow> sup_inv s"
proof (induction rule: reachable.induct)
  case (reach_init sps p s)
  then show ?case by (auto simp: init_sup_def sup_inv_def cur_def split: if_splits)
qed (blast intro: sup_inv_start sup_inv_act)+

lemma cur_in_monitors: "x \<in> set (mon_holds (cur s)) \<Longrightarrow> x \<in> (\<Union>m\<in>set (monitors s). set (mon_holds m))"
  by (auto simp: cur_def split: if_splits)

text \<open>C1. No decoder process is ever lost: whatever the interleaving of starts, stops, end-of-file
  reports, failed launches and restarts, every process that was started and not yet handed to
  termination is in the group's list or held by the thread that is about to install it.  When
  no thread is at work and the list is empty, none is left.  A new start is assumed to wait for
  the previous group.\<close>

theorem no_process_lost:
  assumes "reachable s"
  shows "set (unterminated s) \<subseteq> owned s \<and>
    (quiescent s \<and> starter s = S_Idle \<longrightarrow> unterminated s = [])"
proof
  note inv = reachable_inv [OF assms]
  then show "set (unterminated s) \<subseteq> owned s"
    using cur_in_monitors unfolding sup_inv_def owned_def by blast
  show "quiescent s \<and> starter s = S_Idle \<longrightarrow> unterminated s = []"
  proof
    assume q: "quiescent s \<and> starter s = S_Idle"
    then have "cur s = M_Dead" by (auto simp: quiescent_def cur_def list_all_iff)
    with q inv show "unterminated s = []" by (auto simp: quiescent_def sup_inv_def)
  qed
qed

definition spec1 :: proc_spec where
  "spec1 = \<lparr>argv = [''rtl_433''], spec_name = '''', spec_env = None, pipe_from_previous = True\<rparr>"

definition sup1 :: sup where
  "sup1 = result_or undefined (init_sup [spec1] demo_policy)"

definition popen1 :: "nat \<Rightarrow> popen_result option list" where
  "popen1 i = [Some \<lparr>new_pid = i, new_in = None, new_out = Some i, new_err = None\<rparr>]"

definition start_up :: "nat \<Rightarrow> action list" where
  "start_up i = [Start_Begin, Start_Launch (popen1 i), Start_Check, Start_Hook False,
     Start_Install True 0]"

abbreviation tick :: mon_input where
  "tick \<equiv> In [] 0 True []"

lemmas demo_eval = spec1_def sup1_def popen1_def start_up_def demo_policy_def init_sup_def
  sup_defs launch_transaction_def start_stage_def fresh_budget_def Let_def wait_round_def
  reserve_restart_def delay_for_attempt_def

lemma reachable_run:
  "reachable s \<Longrightarrow> Start_Begin \<notin> set as \<Longrightarrow> run as s = Some s' \<Longrightarrow> reachable s'"
proof (induction as arbitrary: s)
  case (Cons a as)
  then obtain s1 where s1: "act a s = Some s1" "run as s1 = Some s'"
    by (auto split: option.splits)
  have "a \<noteq> Start_Begin" using Cons.prems(2) by auto
  then have "reachable s1" using reach_act Cons.prems(1) s1(1) by blast
  with Cons.IH s1(2) Cons.prems(2) show ?case by auto
qed simp

text \<open>A started pipeline whose stage dies, is reaped and is started again by the monitor.\<close>

definition crash_restart :: "action list" where
  "crash_restart = [Start_Launch (popen1 7), Start_Check, Start_Hook False, Start_Install True 0,
     Mon 0 (In [None] 1 True []), Mon 0 (In [Some 1] 2 True []), Mon 0 tick, Mon 0 tick, Mon 0 (In [] 3 True []),
     Mon 0 tick, Mon 0 (In [] 4 True []), Mon 0 (In [] 5 True (popen1 8))]"

definition sup2 :: sup where
  "sup2 = the (run crash_restart (result_or undefined (start_begin sup1)))"

lemma sup2_run: "run crash_restart (result_or undefined (start_begin sup1)) = Some sup2"
  by (simp add: sup2_def crash_restart_def demo_eval)

lemma sup1_started: "reachable (result_or undefined (start_begin sup1))"
proof -
  have "reachable sup1"
    by (rule reach_init [of "[spec1]" demo_policy]) (simp add: sup1_def init_sup_def result_or_def)
  then show ?thesis
    by (rule reach_start) (simp_all add: quiescent_def demo_eval)
qed

lemma sup2_reachable: "reachable sup2"
  by (rule reachable_run [OF sup1_started _ sup2_run]) (simp add: crash_restart_def)

theorem no_process_lost_witness:
  "unterminated sup2 = [8] \<and> set (unterminated sup2) \<subseteq> owned sup2"
proof
  show "unterminated sup2 = [8]" by (simp add: sup2_def crash_restart_def demo_eval)
  show "set (unterminated sup2) \<subseteq> owned sup2"
    using no_process_lost [OF sup2_reachable] by (rule conjunct1)
qed

text \<open>Without that discipline a process is lost: \<open>start\<close> only looks at \<open>_running\<close> and
  \<open>_starting\<close>, so after \<open>request_stop\<close> it installs a second pipeline over the first one, and
  the following \<open>stop\<close> terminates only the second.\<close>

theorem start_over_stopping_group:
  "case run (start_up 7 @ [Request_Stop, Mon 0 (In [] 1 True []), Mon 0 tick] @ start_up 8 @
        [Stop_Begin, Stop_Terminate, Mon 1 (In [] 2 True []), Mon 1 tick]) sup1 of
     None \<Rightarrow> False
   | Some s \<Rightarrow> quiescent s \<and> starter s = S_Idle \<and> unterminated s = [7] \<and>
       trace s = [Started_Hook [7] False, Started_Hook [8] False, Terminated [8]]"
  by (simp add: demo_eval quiescent_def)

subsection \<open>A stop is final\<close>

lemma act_after_stop:
  assumes "stop_event s" "a \<noteq> Start_Begin" "act a s = Some s'"
  shows "stop_event s' \<and> (procs s' = procs s \<or> procs s' = [])"
proof (cases a)
  case (Mon i inp)
  from assms(3) obtain pc s1 where
    st: "mon_step inp (monitors s ! i) s = Some (pc, s1)" "procs s' = procs s1"
      "stop_event s' = stop_event s1"
    unfolding Mon by (elim act_mon_cases) auto
  have "procs s1 = procs s \<or> procs s1 = []"
    using st(1) assms(1)
    by (cases "(inp, monitors s ! i, s)" rule: mon_step.cases)
      (auto simp: sup_defs Let_def split: if_splits option.splits prod.splits sum.splits)
  then show ?thesis using st mon_step_fields [OF st(1)] assms(1) by simp
qed (use assms in \<open>auto simp: sup_defs Let_def
      split: if_splits option.splits prod.splits sum.splits start_pc.splits\<close>)

text \<open>C12. Once a stop has been requested nothing is started again: in every interleaving of the monitor,
  a pending start and further client calls, no pipeline is ever installed until the client
  itself calls \<open>start\<close>.\<close>

theorem stop_is_final:
  assumes "stop_event s" "Start_Begin \<notin> set as" "run as s = Some s'"
  shows "stop_event s' \<and> (procs s' = procs s \<or> procs s' = [])"
  using assms
proof (induction as arbitrary: s)
  case (Cons a as)
  then obtain s1 where s1: "act a s = Some s1" "run as s1 = Some s'"
    by (auto split: option.splits)
  have "stop_event s1 \<and> (procs s1 = procs s \<or> procs s1 = [])"
    using act_after_stop [OF Cons.prems(1) _ s1(1)] Cons.prems(2) by auto
  with Cons.IH [OF _ _ s1(2)] Cons.prems(2) show ?case by auto
qed simp

definition after_stop :: "action list" where
  "after_stop = [Mon 0 (In [] 6 True []), Stop_Terminate, Mon 0 tick]"

theorem stop_is_final_witness:
  "\<exists>s'. run after_stop (fst (stop_begin sup2)) = Some s' \<and> stop_event s' \<and> procs s' = [] \<and>
     unterminated s' = []"
proof -
  have "run after_stop (fst (stop_begin sup2)) \<noteq> None"
    by (simp add: after_stop_def sup2_def crash_restart_def demo_eval)
  then obtain s' where s': "run after_stop (fst (stop_begin sup2)) = Some s'" by blast
  have "stop_event s' \<and> (procs s' = procs (fst (stop_begin sup2)) \<or> procs s' = [])"
    by (rule stop_is_final [OF _ _ s'])
      (simp_all add: stop_begin_def after_stop_def)
  moreover have "procs (fst (stop_begin sup2)) = []" "unterminated s' = []"
    using s' by (auto simp: after_stop_def sup2_def crash_restart_def demo_eval)
  ultimately show ?thesis using s' by auto
qed

fun rank :: "mon_pc \<Rightarrow> nat" where
  "rank (M_Top pf) = 2"
| "rank (M_Found f) = 5"
| "rank (M_Hook f) = 4"
| "rank (M_Reserve f) = 3"
| "rank (M_Delay n d) = 2"
| "rank (M_Restart_Hook n d) = 5"
| "rank (M_Launch n) = 4"
| "rank (M_Install n ps g) = 3"
| "rank (M_Started n ps) = 3"
| "rank M_Finish = 1"
| "rank M_Dead = 0"

primrec mon_run :: "mon_input list \<Rightarrow> mon_pc \<times> sup \<Rightarrow> (mon_pc \<times> sup) option" where
  "mon_run [] c = Some c"
| "mon_run (i # is) c = (case mon_step i (fst c) (snd c) of None \<Rightarrow> None | Some c' \<Rightarrow> mon_run is c')"

lemma mon_step_rank:
  assumes "mon_step inp pc s = Some (pc', s')" "stop_event s"
  shows "rank pc' < rank pc"
  using assms
  by (cases "(inp, pc, s)" rule: mon_step.cases)
    (auto simp: sup_defs Let_def split: if_splits option.splits prod.splits sum.splits)

lemma mon_can_step: "pc \<noteq> M_Dead \<Longrightarrow> \<exists>inp. mon_step inp pc s \<noteq> None"
  by (intro exI [of _ "In [] 0 True []"], cases pc)
    (auto simp: Let_def split: option.splits prod.splits sum.splits)

text \<open>After a stop the monitor thread leaves: wherever it is, it can take a step until it is dead,
  and at most five of its steps remain.\<close>

theorem monitor_leaves_after_stop:
  assumes "stop_event s" "mon_run inps (pc, s) = Some (pc', s')"
  shows "length inps \<le> 5 \<and> (pc' = M_Dead \<or> (\<exists>inp. mon_step inp pc' s' \<noteq> None))"
proof -
  have "length inps + rank pc' \<le> rank pc"
    using assms
  proof (induction inps arbitrary: pc s)
    case (Cons i inps)
    then obtain pc1 s1 where st: "mon_step i pc s = Some (pc1, s1)"
        "mon_run inps (pc1, s1) = Some (pc', s')"
      by (auto split: option.splits)
    have "stop_event s1" using mon_step_fields [OF st(1)] Cons.prems(1) by simp
    from Cons.IH [OF this st(2)] mon_step_rank [OF st(1) Cons.prems(1)] show ?case by simp
  qed simp
  moreover have "rank pc \<le> 5" by (cases pc) auto
  ultimately show ?thesis using mon_can_step by auto
qed

theorem monitor_leaves_after_stop_witness:
  "length [In [] 6 True (popen1 9), In [] 7 True [], tick] \<le> 5 \<and>
   (\<exists>s'. mon_run [In [] 6 True (popen1 9), In [] 7 True [], tick] (M_Launch 1, fst (stop_begin sup1)) =
      Some (M_Dead, s'))"
proof -
  have ev: "\<exists>s'. mon_run [In [] 6 True (popen1 9), In [] 7 True [], tick] (M_Launch 1, fst (stop_begin sup1)) =
      Some (M_Dead, s')"
    by (simp add: demo_eval)
  then obtain s' where
    "mon_run [In [] 6 True (popen1 9), In [] 7 True [], tick] (M_Launch 1, fst (stop_begin sup1)) =
      Some (M_Dead, s')" by blast
  from monitor_leaves_after_stop [OF _ this] ev show ?thesis by (simp add: stop_begin_def)
qed

text \<open>The failure hook, which may hand the hardware to another owner, only runs when every process
  of the failed pipeline has been terminated.\<close>

theorem hook_after_termination:
  assumes "reachable s" "i < length (monitors s)" "monitors s ! i = M_Hook f"
  shows "procs s = [] \<and> unterminated s = []"
proof -
  note inv = reachable_inv [OF assms(1)]
  have last: "Suc i = length (monitors s)"
    using cur_only_alive [OF _ assms(2)] assms(3) inv by (simp add: sup_inv_def)
  then have "monitors s \<noteq> []" "length (monitors s) - 1 = i" by auto
  then have "cur s = M_Hook f"
    using assms(3) by (simp add: cur_def last_conv_nth)
  with inv show ?thesis by (auto simp: sup_inv_def)
qed

definition sup3 :: sup where
  "sup3 = the (run (take 7 crash_restart) (result_or undefined (start_begin sup1)))"

theorem hook_after_termination_witness:
  "(\<exists>f. monitors sup3 = [M_Hook f]) \<and> procs sup3 = [] \<and> unterminated sup3 = []"
proof -
  have r: "run (take 7 crash_restart) (result_or undefined (start_begin sup1)) = Some sup3"
    by (simp add: sup3_def crash_restart_def demo_eval)
  have "reachable sup3"
    by (rule reachable_run [OF sup1_started _ r]) (simp add: crash_restart_def)
  moreover have m: "\<exists>f. monitors sup3 = [M_Hook f]"
    by (simp add: sup3_def crash_restart_def demo_eval)
  then obtain f where f: "monitors sup3 = [M_Hook f]" by blast
  ultimately have "procs sup3 = [] \<and> unterminated sup3 = []"
    by (intro hook_after_termination [of sup3 0 f]) simp_all
  with m show ?thesis by simp
qed

end
