(* ===== verification/Py_Json.thy ===== *)
theory Py_Json
  imports RPi_Prelude
begin

text \<open>
  The values that \<open>json.loads\<close> returns.  \<open>JNonFinite\<close> stands for \<open>NaN\<close> and the infinities,
  which Python's decoder accepts; an object is a dict with distinct keys.
\<close>

datatype json =
    JNull
  | JBool bool
  | JInt int
  | JFloat real
  | JNonFinite
  | JStr string
  | JList "json list"
  | JObj "(string \<times> json) list"

text \<open>\<open>d.get(k)\<close>\<close>

definition obj_get :: "(string \<times> json) list \<Rightarrow> string \<Rightarrow> json" where
  "obj_get kvs k = (case map_of kvs k of None \<Rightarrow> JNull | Some v \<Rightarrow> v)"

end
