(* ===== verification/Reset_Limiter.thy ===== *)
theory Reset_Limiter
  imports Window_Limits Py_Json
begin

text \<open>
  \<open>radio_recovery.py\<close>: the reset limiter whose history survives restarts and reboots.
  One operation sees one instant: the two clock readings, the fate of the file lock and of the
  save are inputs (\<open>env\<close>).  The state file is a JSON value or unreadable bytes; its
  validation is modelled on the JSON value.  Clock readings are finite and non-negative, as
  \<open>time.time\<close> and \<open>time.monotonic\<close> return them.
\<close>

subsection \<open>The state file\<close>

datatype reason = Clock_Uncertain | Invalid_State | Persistence_Error

record reset_record =
  rec_id :: string
  rec_wall :: time
  rec_mono :: time
  rec_boot :: string
  rec_method :: string

record quarantine =
  q_reason :: reason
  q_wall :: time
  q_mono :: time
  q_boot :: string

record payload =
  p_records :: "reset_record list"
  p_total :: int
  p_metadata :: "(string \<times> json) list"
  p_quarantine :: "quarantine option"

definition max_records :: nat where
  "max_records = 256"

definition reason_name :: "reason \<Rightarrow> string" where
  "reason_name r = (case r of Clock_Uncertain \<Rightarrow> ''clock_uncertain''
     | Invalid_State \<Rightarrow> ''invalid_state'' | Persistence_Error \<Rightarrow> ''persistence_error'')"

definition read_reason :: "json \<Rightarrow> reason option" where
  "read_reason j =
     (case j of
        JStr s \<Rightarrow>
          if s = ''clock_uncertain'' then Some Clock_Uncertain
          else if s = ''invalid_state'' then Some Invalid_State
          else if s = ''persistence_error'' then Some Persistence_Error
          else None
      | _ \<Rightarrow> None)"

text \<open>\<open>float(n)\<close> overflows from \<open>2 ^ 1024 - 2 ^ 970\<close> on.\<close>

definition read_timestamp :: "json \<Rightarrow> time option" where
  "read_timestamp j =
     (case j of
        JInt n \<Rightarrow> if 0 \<le> n \<and> n < 2 ^ 1024 - 2 ^ 970 then Some (of_int n) else None
      | JFloat x \<Rightarrow> if 0 \<le> x then Some x else None
      | _ \<Rightarrow> None)"

definition read_text :: "json \<Rightarrow> string option" where
  "read_text j = (case j of JStr s \<Rightarrow> if s \<noteq> [] then Some s else None | _ \<Rightarrow> None)"

definition read_boot :: "json \<Rightarrow> string option" where
  "read_boot j =
     (case j of JStr s \<Rightarrow> if s \<noteq> [] \<and> length s \<le> 128 then Some s else None | _ \<Rightarrow> None)"

definition read_record :: "json \<Rightarrow> reset_record option" where
  "read_record j =
     (case j of
        JObj kvs \<Rightarrow>
          (case (read_text (obj_get kvs ''id''), read_text (obj_get kvs ''method''),
                 read_boot (obj_get kvs ''boot_id''), read_timestamp (obj_get kvs ''wall_time''),
                 read_timestamp (obj_get kvs ''monotonic_time'')) of
             (Some i, Some m, Some b, Some w, Some t) \<Rightarrow>
               Some \<lparr>rec_id = i, rec_wall = w, rec_mono = t, rec_boot = b, rec_method = m\<rparr>
           | _ \<Rightarrow> None)
      | _ \<Rightarrow> None)"

definition read_quarantine :: "json \<Rightarrow> quarantine option option" where
  "read_quarantine j =
     (case j of
        JNull \<Rightarrow> Some None
      | JObj kvs \<Rightarrow>
          (case (read_reason (obj_get kvs ''reason''), read_boot (obj_get kvs ''boot_id''),
                 read_timestamp (obj_get kvs ''wall_time''),
                 read_timestamp (obj_get kvs ''monotonic_time'')) of
             (Some r, Some b, Some w, Some t) \<Rightarrow>
               Some (Some \<lparr>q_reason = r, q_wall = w, q_mono = t, q_boot = b\<rparr>)
           | _ \<Rightarrow> None)
      | _ \<Rightarrow> None)"

primrec read_all :: "('a \<Rightarrow> 'b option) \<Rightarrow> 'a list \<Rightarrow> 'b list option" where
  "read_all f [] = Some []"
| "read_all f (x # xs) =
     (case f x of
        None \<Rightarrow> None
      | Some y \<Rightarrow> (case read_all f xs of None \<Rightarrow> None | Some ys \<Rightarrow> Some (y # ys)))"

definition read_metadata :: "(string \<times> json) list \<Rightarrow> (string \<times> json) list option" where
  "read_metadata kvs =
     (case map_of kvs ''metadata'' of
        None \<Rightarrow> Some []
      | Some (JObj m) \<Rightarrow> Some m
      | Some _ \<Rightarrow> None)"

text \<open>\<open>payload.get("schema") != 1\<close>: Python compares \<open>1\<close>, \<open>1.0\<close> and \<open>True\<close> as
  equal.\<close>

definition schema_ok :: "json \<Rightarrow> bool" where
  "schema_ok j = (j = JInt 1 \<or> j = JFloat 1 \<or> j = JBool True)"

definition read_payload :: "json \<Rightarrow> payload option" where
  "read_payload j =
     (case j of
        JObj kvs \<Rightarrow>
          if \<not> schema_ok (obj_get kvs ''schema'') then None
          else
            (case (obj_get kvs ''records'', obj_get kvs ''total_attempts'') of
               (JList rs, JInt n) \<Rightarrow>
                 if max_records < length rs \<or> n < int (length rs) then None
                 else
                   (case (read_metadata kvs, read_quarantine (obj_get kvs ''quarantine''),
                          read_all read_record rs) of
                      (Some m, Some q, Some recs) \<Rightarrow>
                        Some \<lparr>p_records = recs, p_total = n, p_metadata = m, p_quarantine = q\<rparr>
                    | _ \<Rightarrow> None)
             | _ \<Rightarrow> None)
      | _ \<Rightarrow> None)"

definition write_record :: "reset_record \<Rightarrow> json" where
  "write_record r = JObj [(''id'', JStr (rec_id r)), (''wall_time'', JFloat (rec_wall r)),
     (''monotonic_time'', JFloat (rec_mono r)), (''boot_id'', JStr (rec_boot r)),
     (''method'', JStr (rec_method r))]"

definition write_quarantine :: "quarantine option \<Rightarrow> json" where
  "write_quarantine qo =
     (case qo of
        None \<Rightarrow> JNull
      | Some q \<Rightarrow> JObj [(''reason'', JStr (reason_name (q_reason q))),
          (''wall_time'', JFloat (q_wall q)), (''monotonic_time'', JFloat (q_mono q)),
          (''boot_id'', JStr (q_boot q))])"

definition write_payload :: "payload \<Rightarrow> json" where
  "write_payload p = JObj [(''schema'', JInt 1),
     (''records'', JList (map write_record (p_records p))),
     (''total_attempts'', JInt (p_total p)), (''metadata'', JObj (p_metadata p)),
     (''quarantine'', write_quarantine (p_quarantine p))]"

subsection \<open>Environment and state\<close>

datatype disk = Absent | Unreadable | Document json

text \<open>\<open>_save_locked\<close> may fail before or after the new file replaced the old one.\<close>

datatype save_fate = Saved | Not_Saved | Saved_But_Raised

record env =
  wall :: time
  mono :: time
  lock_ok :: bool
  save :: save_fate
  fresh_id :: string

record limiter =
  max_attempts :: nat
  window :: real
  boot_id :: string
  records :: "reset_record list"
  metadata :: "(string \<times> json) list"
  total_attempts :: int
  state_error :: "reason option"
  blocked_until :: real
  may_discard :: bool
  quarantined :: "quarantine option"

datatype outcome = Reserved string | Refused reason | Rate_Limited

record reservation =
  outcome :: outcome
  recent_count :: nat

definition skew_tolerance :: real where
  "skew_tolerance = 300"

definition save_locked :: "env \<Rightarrow> limiter \<Rightarrow> disk \<Rightarrow> disk \<times> bool" where
  "save_locked e l d =
     (let new = Document (write_payload
            \<lparr>p_records = drop (length (records l) - max_records) (records l),
             p_total = total_attempts l, p_metadata = metadata l,
             p_quarantine = quarantined l\<rparr>)
      in case save e of
           Saved \<Rightarrow> (new, True)
         | Not_Saved \<Rightarrow> (d, False)
         | Saved_But_Raised \<Rightarrow> (new, False))"

definition fail_closed :: "reason \<Rightarrow> env \<Rightarrow> limiter \<Rightarrow> limiter" where
  "fail_closed r e l =
     (let l1 = l\<lparr>state_error := Some r\<rparr>; until = mono e + window l
      in if blocked_until l \<le> until then
           l1\<lparr>blocked_until := until, quarantined := Some
             \<lparr>q_reason = r, q_wall = wall e, q_mono = mono e, q_boot = boot_id l\<rparr>\<rparr>
         else l1)"

definition clear_quarantine :: "limiter \<Rightarrow> limiter" where
  "clear_quarantine l = l\<lparr>state_error := None, blocked_until := 0, quarantined := None\<rparr>"

definition quarantine_remaining :: "quarantine \<Rightarrow> env \<Rightarrow> limiter \<Rightarrow> real" where
  "quarantine_remaining q e l =
     (let age = (if q_boot q = boot_id l then mono e - q_mono q else wall e - q_wall q)
      in if age < - skew_tolerance then window l else max 0 (window l - max 0 age))"

definition apply_quarantine :: "quarantine \<Rightarrow> env \<Rightarrow> limiter \<Rightarrow> limiter \<times> real" where
  "apply_quarantine q e l =
     (let remaining = quarantine_remaining q e l
      in if remaining \<le> 0 then
           (if q_reason q = Clock_Uncertain then l\<lparr>may_discard := True\<rparr> else l, 0)
         else (l\<lparr>quarantined := Some q, state_error := Some (q_reason q),
                 blocked_until := mono e + remaining\<rparr>, remaining))"

definition expire_quarantine :: "env \<Rightarrow> limiter \<Rightarrow> limiter" where
  "expire_quarantine e l =
     (if quarantined l = None \<or> mono e < blocked_until l then l
      else clear_quarantine
        (if state_error l = Some Clock_Uncertain then l\<lparr>may_discard := True\<rparr> else l))"

definition age_of :: "env \<Rightarrow> limiter \<Rightarrow> reset_record \<Rightarrow> real" where
  "age_of e l r =
     (if rec_boot r = boot_id l then mono e - rec_mono r else wall e - rec_wall r)"

text \<open>The loop of \<open>_recent_locked\<close>; the flag \<open>ig\<close> is \<open>ignore_clock_uncertainty\<close>.\<close>

primrec recent_loop ::
  "bool \<Rightarrow> env \<Rightarrow> limiter \<Rightarrow> reset_record list \<Rightarrow> reset_record list \<times> bool" where
  "recent_loop ig e l [] = ([], False)"
| "recent_loop ig e l (r # rs) =
     (let (recent, uncertain) = recent_loop ig e l rs; age = age_of e l r;
          keep = - skew_tolerance \<le> age \<and> age < window l
      in if age < - skew_tolerance then
           (if may_discard l then (recent, uncertain)
            else if \<not> ig then (recent, True)
            else (if keep then r # recent else recent, True))
         else (if keep then r # recent else recent, uncertain))"

definition recent_locked :: "bool \<Rightarrow> env \<Rightarrow> limiter \<Rightarrow> limiter \<times> reset_record list \<times> bool" where
  "recent_locked ig e l =
     (let l1 = expire_quarantine e l in (l1, recent_loop ig e l1 (records l1)))"

definition reset_loaded_state :: "limiter \<Rightarrow> limiter" where
  "reset_loaded_state l = l\<lparr>records := [], metadata := [], total_attempts := 0,
     state_error := None, blocked_until := 0, may_discard := False, quarantined := None\<rparr>"

definition load_document :: "disk \<Rightarrow> payload option" where
  "load_document d = (case d of Document j \<Rightarrow> read_payload j | _ \<Rightarrow> None)"

text \<open>
  \<open>_reload_for_transaction_locked\<close> in three parts: the quarantine found on disk, the local
  one when it is stricter, and the check for a wall clock that went back.
\<close>

definition apply_disk_quarantine :: "quarantine option \<Rightarrow> env \<Rightarrow> limiter \<Rightarrow> limiter \<times> real" where
  "apply_disk_quarantine qo e l =
     (case qo of None \<Rightarrow> (l, 0) | Some q \<Rightarrow> apply_quarantine q e l)"

definition keep_stricter :: "limiter \<Rightarrow> real \<Rightarrow> env \<Rightarrow> limiter \<Rightarrow> limiter \<times> bool" where
  "keep_stricter old disk_remaining e l =
     (case quarantined old of
        Some q \<Rightarrow>
          if disk_remaining < quarantine_remaining q e old
          then (fst (apply_quarantine q e l), True) else (l, False)
      | None \<Rightarrow> (l, False))"

definition detect_rollback :: "env \<Rightarrow> limiter \<Rightarrow> bool \<Rightarrow> limiter \<times> bool" where
  "detect_rollback e l dirty =
     (if quarantined l = None then
        (case recent_locked False e l of
           (l1, _, uncertain) \<Rightarrow>
             if uncertain then (fail_closed Clock_Uncertain e l1, True) else (l1, dirty))
      else (l, dirty))"

definition loaded :: "payload \<Rightarrow> limiter \<Rightarrow> limiter" where
  "loaded p l = (reset_loaded_state l)\<lparr>records := p_records p, total_attempts := p_total p,
     metadata := p_metadata p\<rparr>"

definition reload :: "env \<Rightarrow> disk \<Rightarrow> limiter \<Rightarrow> limiter \<times> bool" where
  "reload e d l =
     (if d = Absent then
        (case quarantined l of
           Some q \<Rightarrow>
             if 0 < quarantine_remaining q e l
             then (fst (apply_quarantine q e (reset_loaded_state l)), True)
             else ((reset_loaded_state l)\<lparr>may_discard := may_discard l\<rparr>, False)
         | None \<Rightarrow> ((reset_loaded_state l)\<lparr>may_discard := may_discard l\<rparr>, False))
      else
        (case load_document d of
           None \<Rightarrow> (fail_closed Invalid_State e (reset_loaded_state l), True)
         | Some p \<Rightarrow>
             let (l1, disk_remaining) = apply_disk_quarantine (p_quarantine p) e (loaded p l);
                 l2 = l1\<lparr>may_discard := may_discard l1 \<or> may_discard l\<rparr>;
                 (l3, dirty) = keep_stricter l disk_remaining e l2
             in detect_rollback e l3 dirty))"

definition persist_quarantine :: "env \<Rightarrow> limiter \<Rightarrow> disk \<Rightarrow> limiter \<times> disk" where
  "persist_quarantine e l d =
     (case save_locked e l d of
        (d', True) \<Rightarrow> (l, d')
      | (d', False) \<Rightarrow> (fail_closed Persistence_Error e l, d'))"

definition new_limiter ::
  "nat \<Rightarrow> real \<Rightarrow> string \<Rightarrow> env \<Rightarrow> disk \<Rightarrow> py_error + (limiter \<times> disk)" where
  "new_limiter maxa win boot e d =
     (if max_records < maxa \<or> win \<le> 0 then Inl ValueError
      else
        let l0 = \<lparr>max_attempts = maxa, window = win, boot_id = boot, records = [], metadata = [],
                  total_attempts = 0, state_error = None, blocked_until = 0, may_discard = False,
                  quarantined = None\<rparr>
        in if \<not> lock_ok e then Inr (fail_closed Persistence_Error e (reset_loaded_state l0), d)
           else (case reload e d l0 of
                   (l1, True) \<Rightarrow> Inr (persist_quarantine e l1 d)
                 | (l1, False) \<Rightarrow> Inr (l1, d)))"

definition refuse :: "outcome \<Rightarrow> reset_record list \<Rightarrow> reservation" where
  "refuse out recent = \<lparr>outcome = out, recent_count = length recent\<rparr>"

definition reserve_locked :: "string \<Rightarrow> env \<Rightarrow> limiter \<Rightarrow> disk \<Rightarrow> reservation \<times> limiter \<times> disk" where
  "reserve_locked meth e l d =
     (let l1 = expire_quarantine e (fst (reload e d l))
      in if mono e < blocked_until l1 then
           (let (l2, d') = persist_quarantine e l1 d;
                (l3, recent, _) = recent_locked True e l2
            in (refuse (Refused (case state_error l3 of None \<Rightarrow> Clock_Uncertain | Some r \<Rightarrow> r)) recent,
                l3, d'))
         else
           (let (l2, recent, uncertain) = recent_locked False e l1
            in if uncertain then
                 (let (l3, d') = persist_quarantine e (fail_closed Clock_Uncertain e l2) d
                  in (refuse (Refused Clock_Uncertain) recent, l3, d'))
               else if 0 < max_attempts l2 \<and> max_attempts l2 \<le> length recent then
                 (refuse Rate_Limited recent, l2, d)
               else
                 (let new = \<lparr>rec_id = fresh_id e, rec_wall = wall e, rec_mono = mono e,
                             rec_boot = boot_id l2, rec_method = meth\<rparr>;
                      all = recent @ [new];
                      l3 = clear_quarantine (l2\<lparr>records := drop (length all - max_records) all,
                             total_attempts := total_attempts l2 + 1\<rparr>)
                  in case save_locked e l3 d of
                       (d', True) \<Rightarrow>
                         (\<lparr>outcome = Reserved (fresh_id e), recent_count = length recent + 1\<rparr>, l3, d')
                     | (d', False) \<Rightarrow>
                         (refuse (Refused Persistence_Error) recent,
                          fail_closed Persistence_Error e
                            (l3\<lparr>records := records l2, total_attempts := total_attempts l2\<rparr>), d'))))"

definition reserve :: "string \<Rightarrow> env \<Rightarrow> limiter \<Rightarrow> disk \<Rightarrow> py_error + (reservation \<times> limiter \<times> disk)"
where
  "reserve meth e l d =
     (if meth = [] \<or> 64 < length meth then Inl ValueError
      else if \<not> lock_ok e then
        Inr (refuse (Refused Persistence_Error) [], fail_closed Persistence_Error e l, d)
      else Inr (reserve_locked meth e l d))"

text \<open>\<open>set_metadata\<close>: \<open>too_large\<close> is the outcome of the size check on the encoded value.\<close>

definition set_metadata ::
  "string \<Rightarrow> json option \<Rightarrow> bool \<Rightarrow> env \<Rightarrow> limiter \<Rightarrow> disk \<Rightarrow> py_error + (bool \<times> limiter \<times> disk)" where
  "set_metadata key value too_large e l d =
     (if key = [] \<or> 64 < length key then Inl ValueError
      else if value \<noteq> None \<and> too_large then Inl ValueError
      else if \<not> lock_ok e then Inr (False, fail_closed Persistence_Error e l, d)
      else
        let l1 = expire_quarantine e (fst (reload e d l));
            l2 = l1\<lparr>metadata := (case value of None \<Rightarrow> AList.delete key (metadata l1)
                     | Some v \<Rightarrow> AList.update key v (metadata l1))\<rparr>
        in case save_locked e l2 d of
             (d', True) \<Rightarrow> Inr (True, l2, d')
           | (d', False) \<Rightarrow>
               Inr (False, fail_closed Persistence_Error e (l2\<lparr>metadata := metadata l1\<rparr>), d'))"

record limiter_status =
  st_recent :: nat
  st_total :: int
  st_error :: "reason option"
  st_uncertain :: bool
  st_blocked :: int

definition limiter_status :: "env \<Rightarrow> limiter \<Rightarrow> limiter_status" where
  "limiter_status e l =
     (case recent_locked True e l of
        (l1, recent, uncertain) \<Rightarrow>
          \<lparr>st_recent = length recent, st_total = total_attempts l1, st_error = state_error l1,
           st_uncertain = uncertain \<or> mono e < blocked_until l1,
           st_blocked = max 0 \<lfloor>blocked_until l1 - mono e\<rfloor>\<rparr>)"

subsection \<open>What is saved is what the next process reads\<close>

definition ts_ok :: "time \<Rightarrow> bool" where
  "ts_ok x \<longleftrightarrow> 0 \<le> x"

definition boot_ok :: "string \<Rightarrow> bool" where
  "boot_ok b \<longleftrightarrow> b \<noteq> [] \<and> length b \<le> 128"

definition record_ok :: "reset_record \<Rightarrow> bool" where
  "record_ok r \<longleftrightarrow> rec_id r \<noteq> [] \<and> rec_method r \<noteq> [] \<and> boot_ok (rec_boot r) \<and>
     ts_ok (rec_wall r) \<and> ts_ok (rec_mono r)"

definition quarantine_ok :: "quarantine option \<Rightarrow> bool" where
  "quarantine_ok qo \<longleftrightarrow> (case qo of None \<Rightarrow> True
     | Some q \<Rightarrow> boot_ok (q_boot q) \<and> ts_ok (q_wall q) \<and> ts_ok (q_mono q))"

definition payload_ok :: "payload \<Rightarrow> bool" where
  "payload_ok p \<longleftrightarrow> length (p_records p) \<le> max_records \<and>
     int (length (p_records p)) \<le> p_total p \<and> list_all record_ok (p_records p) \<and>
     quarantine_ok (p_quarantine p)"

lemmas read_defs = read_timestamp_def read_text_def read_boot_def obj_get_def

lemma read_write_record:
  "read_record (write_record r) = (if record_ok r then Some r else None)"
  by (cases r) (auto simp: read_record_def write_record_def read_defs record_ok_def boot_ok_def
      ts_ok_def)

lemma read_all_write:
  "read_all read_record (map write_record rs) = (if list_all record_ok rs then Some rs else None)"
  by (induction rs) (auto simp: read_write_record)

lemma read_reason_name: "read_reason (JStr (reason_name r)) = Some r"
  by (cases r) (simp_all add: read_reason_def reason_name_def)

lemma read_write_quarantine:
  "read_quarantine (write_quarantine qo) = (if quarantine_ok qo then Some qo else None)"
proof (cases qo)
  case (Some q)
  then show ?thesis
    by (cases q) (auto simp: read_quarantine_def write_quarantine_def read_defs read_reason_name
        quarantine_ok_def boot_ok_def ts_ok_def)
qed (simp add: read_quarantine_def write_quarantine_def quarantine_ok_def)

lemma read_write_payload:
  "read_payload (write_payload p) = (if payload_ok p then Some p else None)"
proof -
  let ?kvs = "[(''schema'', JInt 1), (''records'', JList (map write_record (p_records p))),
     (''total_attempts'', JInt (p_total p)), (''metadata'', JObj (p_metadata p)),
     (''quarantine'', write_quarantine (p_quarantine p))]"
  have g: "obj_get ?kvs ''schema'' = JInt 1"
    "obj_get ?kvs ''records'' = JList (map write_record (p_records p))"
    "obj_get ?kvs ''total_attempts'' = JInt (p_total p)"
    "obj_get ?kvs ''quarantine'' = write_quarantine (p_quarantine p)"
    "read_metadata ?kvs = Some (p_metadata p)"
    by (simp_all add: obj_get_def read_metadata_def)
  show ?thesis
    unfolding write_payload_def read_payload_def json.case g
    by (cases p) (auto simp: schema_ok_def read_all_write read_write_quarantine payload_ok_def)
qed

lemma read_text_ok: "read_text j = Some s \<Longrightarrow> s \<noteq> []"
  by (auto simp: read_text_def split: json.splits if_splits)

lemma read_boot_ok: "read_boot j = Some s \<Longrightarrow> boot_ok s"
  by (auto simp: read_boot_def boot_ok_def split: json.splits if_splits)

lemma read_timestamp_ok: "read_timestamp j = Some x \<Longrightarrow> ts_ok x"
  unfolding read_timestamp_def ts_ok_def
  by (cases j) (simp_all only: json.case split: if_splits, auto)

lemma read_record_ok: "read_record j = Some r \<Longrightarrow> record_ok r"
  by (auto simp: read_record_def record_ok_def
      dest: read_text_ok read_boot_ok read_timestamp_ok split: json.splits option.splits)

lemma read_all_ok:
  "read_all read_record js = Some rs \<Longrightarrow> list_all record_ok rs \<and> length rs = length js"
  by (induction js arbitrary: rs) (auto split: option.splits dest: read_record_ok)

lemma read_quarantine_ok: "read_quarantine j = Some qo \<Longrightarrow> quarantine_ok qo"
  by (auto simp: read_quarantine_def quarantine_ok_def
      dest: read_boot_ok read_timestamp_ok split: json.splits option.splits)

text \<open>C35. The validation of the state file accepts exactly the saved form of a well-formed history and
  reads it back unchanged, and whatever it accepts is well formed: a history that survives
  validation can be saved and survives the next start.\<close>

theorem state_file_roundtrip:
  "read_payload (write_payload p) = (if payload_ok p then Some p else None) \<and>
   (case read_payload j of
      None \<Rightarrow> True
    | Some q \<Rightarrow> payload_ok q \<and> read_payload (write_payload q) = Some q)"
proof -
  have "payload_ok q" if "read_payload j = Some q" for q
    using that
    by (auto simp: read_payload_def payload_ok_def
        split: json.splits option.splits if_splits dest: read_all_ok read_quarantine_ok)
  then show ?thesis by (auto simp: read_write_payload split: option.split)
qed

lemma load_document_ok: "load_document d = Some p \<Longrightarrow> payload_ok p"
  by (auto simp: load_document_def read_payload_def payload_ok_def
      split: disk.splits json.splits option.splits if_splits dest: read_all_ok read_quarantine_ok)

subsection \<open>The steps of a reservation\<close>

definition disk_records :: "disk \<Rightarrow> reset_record list" where
  "disk_records d = (case load_document d of None \<Rightarrow> [] | Some p \<Rightarrow> p_records p)"

definition readable :: "disk \<Rightarrow> bool" where
  "readable d \<longleftrightarrow> d = Absent \<or> load_document d \<noteq> None"

definition is_recent :: "env \<Rightarrow> limiter \<Rightarrow> reset_record \<Rightarrow> bool" where
  "is_recent e l r \<longleftrightarrow> - skew_tolerance \<le> age_of e l r \<and> age_of e l r < window l"

abbreviation same_config :: "limiter \<Rightarrow> limiter \<Rightarrow> bool" where
  "same_config l l' \<equiv>
     max_attempts l' = max_attempts l \<and> window l' = window l \<and> boot_id l' = boot_id l"

lemma recent_loop_filter:
  "recent_loop ig e l rs =
     (filter (is_recent e l) rs, \<not> may_discard l \<and> (\<exists>r\<in>set rs. age_of e l r < - skew_tolerance))"
  by (induction rs) (auto simp: is_recent_def Let_def)

lemma config_fail_closed [simp]:
  "same_config l (fail_closed r e l)" "records (fail_closed r e l) = records l"
  "total_attempts (fail_closed r e l) = total_attempts l"
  by (auto simp: fail_closed_def Let_def)

lemma config_expire [simp]:
  "same_config l (expire_quarantine e l)" "records (expire_quarantine e l) = records l"
  "total_attempts (expire_quarantine e l) = total_attempts l"
  by (auto simp: expire_quarantine_def clear_quarantine_def)

lemma config_apply [simp]:
  "same_config l (fst (apply_quarantine q e l))"
  "records (fst (apply_quarantine q e l)) = records l"
  "total_attempts (fst (apply_quarantine q e l)) = total_attempts l"
  by (auto simp: apply_quarantine_def Let_def)

lemma config_reset [simp]:
  "same_config l (reset_loaded_state l)" "records (reset_loaded_state l) = []"
  "total_attempts (reset_loaded_state l) = 0"
  by (auto simp: reset_loaded_state_def)

lemma config_disk_quarantine [simp]:
  "same_config l (fst (apply_disk_quarantine q e l))"
  "records (fst (apply_disk_quarantine q e l)) = records l"
  "total_attempts (fst (apply_disk_quarantine q e l)) = total_attempts l"
  by (auto simp: apply_disk_quarantine_def split: option.splits)

lemma config_keep_stricter [simp]:
  "same_config l (fst (keep_stricter old x e l))"
  "records (fst (keep_stricter old x e l)) = records l"
  "total_attempts (fst (keep_stricter old x e l)) = total_attempts l"
  by (auto simp: keep_stricter_def split: option.splits)

lemma config_detect_rollback [simp]:
  "same_config l (fst (detect_rollback e l b))"
  "records (fst (detect_rollback e l b)) = records l"
  "total_attempts (fst (detect_rollback e l b)) = total_attempts l"
  by (auto simp: detect_rollback_def recent_locked_def Let_def split: prod.splits)

lemma config_loaded [simp]:
  "same_config l (loaded p l)" "records (loaded p l) = p_records p"
  "total_attempts (loaded p l) = p_total p"
  by (auto simp: loaded_def)

lemma reload_document:
  assumes "load_document d = Some p"
  shows "\<exists>l1 x b. fst (apply_disk_quarantine (p_quarantine p) e (loaded p l)) = l1 \<and>
    x = snd (apply_disk_quarantine (p_quarantine p) e (loaded p l)) \<and>
    reload e d l = detect_rollback e (fst (keep_stricter l x e
      (l1\<lparr>may_discard := may_discard l1 \<or> may_discard l\<rparr>))) b"
proof -
  have "d \<noteq> Absent" using assms by (auto simp: load_document_def)
  then show ?thesis
    using assms by (auto simp: reload_def Let_def split: prod.splits) 
qed

lemma reload_config:
  "same_config l (fst (reload e d l)) \<and> records (fst (reload e d l)) = disk_records d \<and>
   int (length (disk_records d)) \<le> total_attempts (fst (reload e d l))"
proof (cases "load_document d")
  case None
  then show ?thesis
    by (cases "d = Absent")
      (auto simp: reload_def Let_def disk_records_def split: option.splits)
next
  case (Some p)
  have tot: "int (length (p_records p)) \<le> p_total p"
    using load_document_ok [OF Some] by (simp add: payload_ok_def)
  from reload_document [OF Some, of e l] show ?thesis
    using tot Some by (auto simp: disk_records_def)
qed

definition env_ok :: "env \<Rightarrow> bool" where
  "env_ok e \<longleftrightarrow> ts_ok (wall e) \<and> ts_ok (mono e) \<and> fresh_id e \<noteq> []"

lemma disk_records_ok: "list_all record_ok (disk_records d) \<and> length (disk_records d) \<le> max_records"
  by (auto simp: disk_records_def payload_ok_def dest: load_document_ok split: option.splits)

lemma save_document:
  assumes "save_locked e l d = (d', ok)" "length (records l) \<le> max_records"
  shows "d' = d \<and> \<not> ok \<or>
    (\<exists>p. d' = Document (write_payload p) \<and> p_records p = records l \<and>
         p_total p = total_attempts l \<and> p_quarantine p = quarantined l)"
  using assms by (auto simp: save_locked_def Let_def split: save_fate.splits)

text \<open>Well-formedness of the limiter's memory, kept by every operation.\<close>

definition limiter_ok :: "limiter \<Rightarrow> bool" where
  "limiter_ok l \<longleftrightarrow> 0 < window l \<and> max_attempts l \<le> max_records \<and> boot_ok (boot_id l) \<and>
     quarantine_ok (quarantined l)"

lemma limiter_ok_fail_closed [intro]: "limiter_ok l \<Longrightarrow> env_ok e \<Longrightarrow> limiter_ok (fail_closed r e l)"
  by (auto simp: limiter_ok_def fail_closed_def env_ok_def quarantine_ok_def Let_def
      split: option.splits)

lemma limiter_ok_expire [intro]: "limiter_ok l \<Longrightarrow> limiter_ok (expire_quarantine e l)"
  by (auto simp: limiter_ok_def expire_quarantine_def clear_quarantine_def quarantine_ok_def)

lemma limiter_ok_apply:
  "limiter_ok l \<Longrightarrow> quarantine_ok (Some q) \<Longrightarrow> limiter_ok (fst (apply_quarantine q e l))"
  by (auto simp: limiter_ok_def apply_quarantine_def Let_def)

lemma limiter_ok_update:
  "limiter_ok (l\<lparr>may_discard := f\<rparr>) = limiter_ok l"
  "limiter_ok (l\<lparr>records := a, total_attempts := n\<rparr>) = limiter_ok l"
  "limiter_ok l \<Longrightarrow> limiter_ok (loaded p l)"
  "limiter_ok l \<Longrightarrow> limiter_ok (reset_loaded_state l)"
  "limiter_ok l \<Longrightarrow> limiter_ok (clear_quarantine l)"
  by (auto simp: limiter_ok_def reset_loaded_state_def clear_quarantine_def quarantine_ok_def
      loaded_def)

lemma limiter_ok_disk_quarantine:
  "limiter_ok l \<Longrightarrow> quarantine_ok q \<Longrightarrow> limiter_ok (fst (apply_disk_quarantine q e l))"
  by (auto simp: apply_disk_quarantine_def intro: limiter_ok_apply split: option.splits)

lemma limiter_ok_keep_stricter:
  "limiter_ok l \<Longrightarrow> limiter_ok old \<Longrightarrow> limiter_ok (fst (keep_stricter old x e l))"
  by (auto simp: keep_stricter_def limiter_ok_def [of old] intro: limiter_ok_apply
      split: option.splits)

lemma limiter_ok_detect_rollback:
  "limiter_ok l \<Longrightarrow> env_ok e \<Longrightarrow> limiter_ok (fst (detect_rollback e l b))"
  by (auto simp: detect_rollback_def recent_locked_def Let_def split: prod.splits)

lemma limiter_ok_reload:
  assumes "limiter_ok l" "env_ok e"
  shows "limiter_ok (fst (reload e d l))"
proof (cases "load_document d")
  case None
  then show ?thesis
    using assms limiter_ok_apply [of "reset_loaded_state l" "the (quarantined l)" e]
    by (cases "quarantined l")
      (auto simp: reload_def limiter_ok_update limiter_ok_fail_closed limiter_ok_def [of l])
next
  case (Some p)
  then have "quarantine_ok (p_quarantine p)"
    using load_document_ok by (auto simp: payload_ok_def)
  with reload_document [OF Some, of e l] show ?thesis
    using assms
    by (auto simp: limiter_ok_update limiter_ok_disk_quarantine
        intro!: limiter_ok_detect_rollback limiter_ok_keep_stricter)
qed

text \<open>A granted reservation, seen from the state file.\<close>

lemma save_reserved:
  assumes "save_locked e l d = (d', True)"
  shows "save e = Saved" "d' = Document (write_payload
    \<lparr>p_records = drop (length (records l) - max_records) (records l),
     p_total = total_attempts l, p_metadata = metadata l, p_quarantine = quarantined l\<rparr>)"
  using assms by (auto simp: save_locked_def Let_def split: save_fate.splits)

lemma load_written:
  "load_document (Document (write_payload p)) = (if payload_ok p then Some p else None)"
  by (simp add: load_document_def read_write_payload)

lemma disk_records_written:
  "payload_ok p \<Longrightarrow> disk_records (Document (write_payload p)) = p_records p"
  by (simp add: disk_records_def load_written)

text \<open>The memory a reservation decides on: reloaded, with an elapsed quarantine dropped.\<close>

definition at_hand :: "env \<Rightarrow> limiter \<Rightarrow> disk \<Rightarrow> limiter" where
  "at_hand e l d = expire_quarantine e (fst (reload e d l))"

lemma at_hand_config:
  "same_config l (at_hand e l d) \<and> records (at_hand e l d) = disk_records d \<and>
   int (length (disk_records d)) \<le> total_attempts (at_hand e l d)"
  using reload_config [of e d l] by (simp add: at_hand_def)

lemma limiter_ok_at_hand: "limiter_ok l \<Longrightarrow> env_ok e \<Longrightarrow> limiter_ok (at_hand e l d)"
  by (auto simp: at_hand_def intro: limiter_ok_reload)

lemma expire_idem: "expire_quarantine e (expire_quarantine e l) = expire_quarantine e l"
  by (auto simp: expire_quarantine_def clear_quarantine_def)

lemma is_recent_config: "same_config l l' \<Longrightarrow> is_recent e l' = is_recent e l"
  by (auto simp: is_recent_def age_of_def fun_eq_iff)

lemma recent_at_hand:
  "recent_locked ig e (at_hand e l d) =
     (at_hand e l d, filter (is_recent e l) (disk_records d),
      \<not> may_discard (at_hand e l d) \<and> (\<exists>r\<in>set (disk_records d). age_of e l r < - skew_tolerance))"
proof -
  have c: "same_config l (at_hand e l d)" "records (at_hand e l d) = disk_records d"
    using at_hand_config [of e l d] by auto
  have "age_of e (at_hand e l d) = age_of e l"
    using c(1) by (auto simp: age_of_def fun_eq_iff)
  then show ?thesis
    using is_recent_config [OF c(1)] c(2)
    by (simp add: recent_locked_def Let_def recent_loop_filter at_hand_def expire_idem)
qed

definition new_record :: "string \<Rightarrow> env \<Rightarrow> limiter \<Rightarrow> reset_record" where
  "new_record meth e l = \<lparr>rec_id = fresh_id e, rec_wall = wall e, rec_mono = mono e,
     rec_boot = boot_id l, rec_method = meth\<rparr>"

definition with_record :: "string \<Rightarrow> env \<Rightarrow> limiter \<Rightarrow> disk \<Rightarrow> limiter" where
  "with_record meth e l d =
     (let all = filter (is_recent e l) (disk_records d) @ [new_record meth e l];
          h = at_hand e l d
      in clear_quarantine (h\<lparr>records := drop (length all - max_records) all,
           total_attempts := total_attempts h + 1\<rparr>))"

lemma reserve_locked_cases:
  "reserve_locked meth e l d =
    (let h = at_hand e l d; recent = filter (is_recent e l) (disk_records d);
         uncertain = (\<not> may_discard h \<and> (\<exists>r\<in>set (disk_records d). age_of e l r < - skew_tolerance))
     in if mono e < blocked_until h then
          (let (l2, d') = persist_quarantine e h d; (l3, rs, _) = recent_locked True e l2
           in (refuse (Refused (case state_error l3 of None \<Rightarrow> Clock_Uncertain | Some r \<Rightarrow> r)) rs,
               l3, d'))
        else if uncertain then
          (let (l3, d') = persist_quarantine e (fail_closed Clock_Uncertain e h) d
           in (refuse (Refused Clock_Uncertain) recent, l3, d'))
        else if 0 < max_attempts l \<and> max_attempts l \<le> length recent then
          (refuse Rate_Limited recent, h, d)
        else
          (case save_locked e (with_record meth e l d) d of
             (d', True) \<Rightarrow>
               (\<lparr>outcome = Reserved (fresh_id e), recent_count = length recent + 1\<rparr>,
                with_record meth e l d, d')
           | (d', False) \<Rightarrow>
               (refuse (Refused Persistence_Error) recent,
                fail_closed Persistence_Error e ((with_record meth e l d)
                  \<lparr>records := disk_records d, total_attempts := total_attempts h\<rparr>), d')))"
  using at_hand_config [of e l d]
  unfolding reserve_locked_def at_hand_def [symmetric]
  by (simp add: recent_at_hand Let_def with_record_def new_record_def split: prod.split)

definition rollback_seen :: "env \<Rightarrow> limiter \<Rightarrow> disk \<Rightarrow> bool" where
  "rollback_seen e l d \<longleftrightarrow> \<not> may_discard (at_hand e l d) \<and>
     (\<exists>r\<in>set (disk_records d). age_of e l r < - skew_tolerance)"

definition at_limit :: "env \<Rightarrow> limiter \<Rightarrow> disk \<Rightarrow> bool" where
  "at_limit e l d \<longleftrightarrow> 0 < max_attempts l \<and>
     max_attempts l \<le> length (filter (is_recent e l) (disk_records d))"

lemma reserve_blocked:
  "mono e < blocked_until (at_hand e l d) \<Longrightarrow> reserve_locked meth e l d =
    (case persist_quarantine e (at_hand e l d) d of
       (l2, d') \<Rightarrow> (case recent_locked True e l2 of
          (l3, rs, _) \<Rightarrow> (refuse (Refused (case state_error l3 of None \<Rightarrow> Clock_Uncertain
             | Some r \<Rightarrow> r)) rs, l3, d')))"
  by (simp add: reserve_locked_cases Let_def)

lemma reserve_rollback:
  "\<not> mono e < blocked_until (at_hand e l d) \<Longrightarrow> rollback_seen e l d \<Longrightarrow>
   reserve_locked meth e l d =
    (case persist_quarantine e (fail_closed Clock_Uncertain e (at_hand e l d)) d of
       (l3, d') \<Rightarrow> (refuse (Refused Clock_Uncertain) (filter (is_recent e l) (disk_records d)), l3, d'))"
  by (simp add: reserve_locked_cases Let_def rollback_seen_def)

lemma reserve_limited:
  "\<not> mono e < blocked_until (at_hand e l d) \<Longrightarrow> \<not> rollback_seen e l d \<Longrightarrow> at_limit e l d \<Longrightarrow>
   reserve_locked meth e l d =
     (refuse Rate_Limited (filter (is_recent e l) (disk_records d)), at_hand e l d, d)"
  unfolding reserve_locked_cases Let_def rollback_seen_def at_limit_def by (simp only: if_False if_True simp_thms)

lemma reserve_go:
  "\<not> mono e < blocked_until (at_hand e l d) \<Longrightarrow> \<not> rollback_seen e l d \<Longrightarrow> \<not> at_limit e l d \<Longrightarrow>
   reserve_locked meth e l d =
    (case save_locked e (with_record meth e l d) d of
       (d', True) \<Rightarrow>
         (\<lparr>outcome = Reserved (fresh_id e),
           recent_count = length (filter (is_recent e l) (disk_records d)) + 1\<rparr>,
          with_record meth e l d, d')
     | (d', False) \<Rightarrow>
         (refuse (Refused Persistence_Error) (filter (is_recent e l) (disk_records d)),
          fail_closed Persistence_Error e ((with_record meth e l d)
            \<lparr>records := disk_records d, total_attempts := total_attempts (at_hand e l d)\<rparr>), d'))"
  unfolding reserve_locked_cases Let_def rollback_seen_def at_limit_def by (simp only: if_False if_True simp_thms)

lemma granted_reservation:
  assumes "reserve_locked meth e l d = (r, l', d')" "outcome r = Reserved i"
  shows "i = fresh_id e \<and> save e = Saved \<and> l' = with_record meth e l d \<and>
    save_locked e l' d = (d', True) \<and> \<not> mono e < blocked_until (at_hand e l d) \<and>
    (0 < max_attempts l \<longrightarrow> length (filter (is_recent e l) (disk_records d)) < max_attempts l)"
  using assms unfolding reserve_locked_cases
  by (auto simp: Let_def refuse_def save_reserved(1) split: if_splits prod.splits bool.splits)

lemma with_record_payload_ok:
  fixes d :: disk
  assumes "limiter_ok l" "env_ok e" "meth \<noteq> []"
  defines "w \<equiv> with_record meth e l d"
  defines "all \<equiv> filter (is_recent e l) (disk_records d) @ [new_record meth e l]"
  shows "payload_ok \<lparr>p_records = drop (length (records w) - max_records) (records w),
     p_total = total_attempts w, p_metadata = metadata w, p_quarantine = quarantined w\<rparr> \<and>
     drop (length (records w) - max_records) (records w) = drop (length all - max_records) all"
proof -
  have rw: "records w = drop (length all - max_records) all" "quarantined w = None"
    "total_attempts w = total_attempts (at_hand e l d) + 1"
    by (auto simp: w_def all_def with_record_def Let_def clear_quarantine_def)
  have len: "length (records w) \<le> max_records" using rw(1) by simp
  have dr: "list_all record_ok (disk_records d)" by (simp add: disk_records_ok)
  have "record_ok (new_record meth e l)"
    using assms(1-3) by (auto simp: record_ok_def new_record_def limiter_ok_def env_ok_def)
  then have "list_all record_ok all"
    using dr by (auto simp: all_def list_all_iff)
  then have lw: "list_all record_ok (records w)"
    using rw(1) by (auto simp: list_all_iff dest: in_set_dropD)
  have "length all \<le> length (disk_records d) + 1"
    by (simp add: all_def)
  then have "length (records w) \<le> length (disk_records d) + 1"
    unfolding rw(1) by simp
  then have "int (length (records w)) \<le> total_attempts w"
    using at_hand_config [of e l d] rw(3) by linarith
  then show ?thesis
    using len lw rw by (simp add: payload_ok_def quarantine_ok_def)
qed

text \<open>A reset is only allowed once its attempt is durable: whatever state the file, the memory
  and the clocks are in, when \<open>reserve\<close> grants a reservation the save has succeeded, the file
  as the next process will read it contains the new attempt with both clock readings, and the
  attempts in the current window, the new one included, do not exceed the limit.\<close>

theorem reservation_is_durable:
  assumes "limiter_ok l" "env_ok e"
    and "reserve meth e l d = Inr (r, l', d')" "outcome r = Reserved i"
  shows "save e = Saved \<and>
    (\<exists>x\<in>set (disk_records d'). rec_id x = i \<and> rec_mono x = mono e \<and> rec_wall x = wall e \<and>
       rec_boot x = boot_id l) \<and>
    (max_attempts l = 0 \<or> length (filter (is_recent e l) (disk_records d')) \<le> max_attempts l)"
proof -
  from assms(3) have m: "meth \<noteq> []" and rl: "reserve_locked meth e l d = (r, l', d')"
    by (auto simp: reserve_def refuse_def split: if_splits)
      (use assms(4) in \<open>simp add: refuse_def\<close>)+
  note g = granted_reservation [OF rl assms(4)]
  let ?recent = "filter (is_recent e l) (disk_records d)"
  let ?all = "?recent @ [new_record meth e l]"
  have "disk_records d' = drop (length ?all - max_records) ?all"
    using with_record_payload_ok [OF assms(1,2) m, of d] g save_reserved(2)
    by (metis disk_records_written payload.select_convs(1))
  moreover have "0 < max_records" by (simp add: max_records_def)
  ultimately have dr: "new_record meth e l \<in> set (disk_records d')"
    "length (disk_records d') \<le> length ?recent + 1"
    by (auto simp: drop_append)
  have le: "length (filter (is_recent e l) (disk_records d')) \<le> length ?recent + 1"
    by (rule le_trans [OF length_filter_le dr(2)])
  have "max_attempts l = 0 \<or> length (filter (is_recent e l) (disk_records d')) \<le> max_attempts l"
  proof (cases "max_attempts l = 0")
    case False
    with g have "length ?recent < max_attempts l" by simp
    with le show ?thesis by linarith
  qed simp
  then show ?thesis
    using g by (auto simp: new_record_def intro!: bexI [OF _ dr(1)])
qed

subsection \<open>At most the configured number of resets in any window\<close>

definition backed :: "limiter \<Rightarrow> disk \<Rightarrow> bool" where
  "backed l d \<longleftrightarrow> limiter_ok l \<and> records l = disk_records d \<and>
     int (length (disk_records d)) \<le> total_attempts l"

lemma backed_fail_closed: "backed l d \<Longrightarrow> env_ok e \<Longrightarrow> backed (fail_closed r e l) d"
  by (auto simp: backed_def)

lemma backed_reload: "limiter_ok l \<Longrightarrow> env_ok e \<Longrightarrow> backed (fst (reload e d l)) d"
  using reload_config [of e d l] limiter_ok_reload [of l e d] by (simp add: backed_def)

lemma backed_at_hand: "limiter_ok l \<Longrightarrow> env_ok e \<Longrightarrow> backed (at_hand e l d) d"
  using at_hand_config [of e l d] limiter_ok_at_hand [of l e d] by (simp add: backed_def)

lemma persist_disk:
  assumes "persist_quarantine e h d = (l', d')" "backed h d" "env_ok e" "readable d"
  shows "limiter_ok l' \<and> same_config h l' \<and> readable d' \<and> disk_records d' = disk_records d"
proof -
  let ?p = "\<lparr>p_records = records h, p_total = total_attempts h, p_metadata = metadata h,
     p_quarantine = quarantined h\<rparr>"
  have ok: "payload_ok ?p"
    using assms(2) disk_records_ok [of d] by (simp add: payload_ok_def backed_def limiter_ok_def)
  have len: "length (records h) \<le> max_records"
    using assms(2) disk_records_ok [of d] by (simp add: backed_def)
  have doc: "readable (Document (write_payload ?p)) \<and>
      disk_records (Document (write_payload ?p)) = disk_records d"
    using ok assms(2) by (simp add: readable_def load_written disk_records_written backed_def)
  show ?thesis
    using assms doc len unfolding backed_def
    by (auto simp: persist_quarantine_def save_locked_def Let_def split: save_fate.splits)
qed

lemma with_record_disk:
  assumes "limiter_ok l" "env_ok e" "meth \<noteq> []" "readable d"
    and "save_locked e (with_record meth e l d) d = (d', ok)"
  shows "readable d' \<and> (d' = d \<and> \<not> ok \<or> disk_records d' =
    (let all = filter (is_recent e l) (disk_records d) @ [new_record meth e l]
     in drop (length all - max_records) all))"
  using assms(4,5) with_record_payload_ok [OF assms(1-3), of d]
  by (auto simp: save_locked_def Let_def readable_def load_written disk_records_written
      split: save_fate.splits)

lemma limiter_ok_with_record:
  "limiter_ok l \<Longrightarrow> env_ok e \<Longrightarrow>
   limiter_ok (with_record meth e l d) \<and> same_config l (with_record meth e l d)"
  using limiter_ok_at_hand [of l e d] at_hand_config [of e l d]
  by (simp add: with_record_def Let_def limiter_ok_update clear_quarantine_def limiter_ok_def
      quarantine_ok_def)

lemma reserve_disk:
  assumes "limiter_ok l" "env_ok e" "readable d" "reserve meth e l d = Inr (r, l', d')"
  shows "limiter_ok l' \<and> same_config l l' \<and> readable d' \<and>
    ((\<forall>i. outcome r \<noteq> Reserved i) \<and> disk_records d' = disk_records d \<or>
     \<not> at_limit e l d \<and>
     disk_records d' = (let all = filter (is_recent e l) (disk_records d) @ [new_record meth e l]
        in drop (length all - max_records) all))"
proof (cases "lock_ok e")
  case False
  then show ?thesis
    using assms limiter_ok_fail_closed [OF assms(1,2)] config_fail_closed
    by (auto simp: reserve_def refuse_def split: if_splits)
next
  case True
  let ?h = "at_hand e l d"
  have m: "meth \<noteq> []" and rl: "reserve_locked meth e l d = (r, l', d')"
    using assms(4) True by (auto simp: reserve_def split: if_splits)
  have h: "backed ?h d" "same_config l ?h"
    using backed_at_hand assms(1,2) at_hand_config [of e l d] by auto
  note P1 = persist_disk [OF _ h(1) assms(2,3)]
  note P2 = persist_disk [OF _ backed_fail_closed [OF h(1) assms(2)] assms(2,3)]
  show ?thesis
  proof (cases "mono e < blocked_until ?h")
    case True
    obtain l2 d2 where p: "persist_quarantine e ?h d = (l2, d2)" by fastforce
    have "d' = d2" "l' = expire_quarantine e l2" "\<forall>i. outcome r \<noteq> Reserved i"
      using rl reserve_blocked [OF True, of meth] p
      by (auto simp: refuse_def recent_locked_def Let_def split: prod.splits)
    then show ?thesis using P1 [OF p] h by auto
  next
    case open_now: False
    show ?thesis
    proof (cases "rollback_seen e l d")
      case True
      obtain l2 d2 where p: "persist_quarantine e (fail_closed Clock_Uncertain e ?h) d = (l2, d2)"
        by fastforce
      have "d' = d2" "l' = l2" "\<forall>i. outcome r \<noteq> Reserved i"
        using rl reserve_rollback [OF open_now True, of meth] p by (auto simp: refuse_def)
      then show ?thesis using P2 [OF p] h by auto
    next
      case sane: False
      show ?thesis
      proof (cases "at_limit e l d")
        case True
        then show ?thesis
          using rl reserve_limited [OF open_now sane True, of meth] h assms(3)
          by (auto simp: refuse_def backed_def)
      next
        case False
        obtain d2 ok where sv: "save_locked e (with_record meth e l d) d = (d2, ok)" by fastforce
        note wd = with_record_disk [OF assms(1,2) m assms(3) sv]
        note lw = limiter_ok_with_record [OF assms(1,2), of meth d]
        show ?thesis
        proof (cases ok)
          case True
          then show ?thesis
            using rl reserve_go [OF open_now sane False, of meth] sv wd lw False by auto
        next
          case failed: False
          then have "d' = d2" "\<forall>i. outcome r \<noteq> Reserved i"
            "l' = fail_closed Persistence_Error e ((with_record meth e l d)
               \<lparr>records := disk_records d, total_attempts := total_attempts ?h\<rparr>)"
            using rl reserve_go [OF open_now sane False, of meth] sv by (auto simp: refuse_def)
          moreover from this have "limiter_ok l' \<and> same_config l l'"
            using lw assms(2) by (auto simp: limiter_ok_update)
          ultimately show ?thesis using wd failed \<open>\<not> at_limit e l d\<close> by auto
        qed
      qed
    qed
  qed
qed

lemma new_limiter_disk:
  assumes "new_limiter maxa win boot e d = Inr (l, d')" "env_ok e" "boot_ok boot" "readable d"
  shows "limiter_ok l \<and> max_attempts l = maxa \<and> window l = win \<and> boot_id l = boot \<and>
    readable d' \<and> disk_records d' = disk_records d"
proof -
  let ?l0 = "\<lparr>max_attempts = maxa, window = win, boot_id = boot, records = [], metadata = [],
     total_attempts = 0, state_error = None, blocked_until = 0, may_discard = False,
     quarantined = None\<rparr>"
  have cfg: "\<not> max_records < maxa" "0 < win"
    using assms(1) by (auto simp: new_limiter_def split: if_splits)
  have l0: "limiter_ok ?l0" using cfg assms(3) by (simp add: limiter_ok_def quarantine_ok_def)
  show ?thesis
  proof (cases "lock_ok e")
    case False
    then have "l = fail_closed Persistence_Error e (reset_loaded_state ?l0)" "d' = d"
      using assms(1) cfg by (auto simp: new_limiter_def split: if_splits)
    then show ?thesis
      using l0 assms(2,4) by (auto simp: limiter_ok_update)
  next
    case True
    obtain l1 b where r: "reload e d ?l0 = (l1, b)" by fastforce
    have c: "same_config ?l0 l1" using reload_config [of e d ?l0] r by simp
    have bk: "backed l1 d" using backed_reload [OF l0 assms(2), of d] r by simp
    have "(if b then persist_quarantine e l1 d else (l1, d)) = (l, d')"
      using assms(1) True cfg r by (auto simp: new_limiter_def)
    then show ?thesis
      using persist_disk [OF _ bk assms(2,4)] c bk assms(4)
      by (cases b) (auto simp: backed_def)
  qed
qed

text \<open>
  The world of the rate bound: the limiter in memory, its state file, and for each coming call
  whether the process was restarted before it and what its environment is.  The script is the
  whole future; a call beyond its end, or at an invalid clock reading, is refused.
\<close>

record world =
  lim :: limiter
  state_file :: disk
  script :: "(bool \<times> env) list"

definition restart :: "env \<Rightarrow> world \<Rightarrow> limiter \<times> disk" where
  "restart e w =
     (case new_limiter (max_attempts (lim w)) (window (lim w)) (boot_id (lim w)) e (state_file w) of
        Inl _ \<Rightarrow> (lim w, state_file w)
      | Inr ld \<Rightarrow> ld)"

definition bootsel :: string where
  "bootsel = ''bootsel''"

definition admit_reset :: "world \<Rightarrow> time \<Rightarrow> world \<times> bool" where
  "admit_reset w t =
     (case script w of
        [] \<Rightarrow> (w, False)
      | (again, e0) # rest \<Rightarrow>
          let e = e0\<lparr>mono := t\<rparr>;
              (l, d) = (if again then restart e w else (lim w, state_file w))
          in if t < 0 then (w, False)
             else (case reserve bootsel e l d of
                     Inl _ \<Rightarrow> (w, False)
                   | Inr (r, l', d') \<Rightarrow>
                       (\<lparr>lim = l', state_file = d', script = rest\<rparr>,
                        case outcome r of Reserved _ \<Rightarrow> True | _ \<Rightarrow> False)))"

definition reset_log :: "world \<Rightarrow> time list" where
  "reset_log w = map rec_mono (disk_records (state_file w))"

definition good_world :: "nat \<Rightarrow> real \<Rightarrow> world \<Rightarrow> bool" where
  "good_world n W w \<longleftrightarrow> 0 < n \<and> limiter_ok (lim w) \<and> max_attempts (lim w) = n \<and>
     window (lim w) = W \<and> readable (state_file w) \<and>
     list_all (\<lambda>r. rec_boot r = boot_id (lim w)) (disk_records (state_file w)) \<and>
     list_all (\<lambda>(again, e). ts_ok (wall e) \<and> fresh_id e \<noteq> []) (script w)"

lemma admit_reset_step:
  assumes g: "good_world n W w" and a: "admit_reset w t = (w', b)"
  shows "good_world n W w' \<and>
    (\<not> b \<and> disk_records (state_file w') = disk_records (state_file w) \<or>
     (\<exists>e new. rec_mono new = t \<and> mono e = t \<and>
        disk_records (state_file w') = (let all = filter (is_recent e (lim w)) (disk_records (state_file w)) @ [new]
          in drop (length all - max_records) all) \<and>
        length (filter (is_recent e (lim w)) (disk_records (state_file w))) < n))"
proof (cases "script w = [] \<or> t < 0")
  case True
  then have "w' = w \<and> \<not> b"
    using a by (auto simp: admit_reset_def Let_def split: list.splits prod.splits if_splits)
  then show ?thesis using g by simp
next
  case False
  then obtain again e0 rest where sc: "script w = (again, e0) # rest" and t0: "0 \<le> t"
    by (cases "script w") auto
  define e where "e = e0\<lparr>mono := t\<rparr>"
  have e: "env_ok e" "mono e = t" using g sc t0
    by (auto simp: e_def env_ok_def good_world_def ts_ok_def)
  obtain l d where ld: "(l, d) = (if again then restart e w else (lim w, state_file w))"
    by (metis surj_pair)
  have L: "limiter_ok l \<and> same_config (lim w) l \<and> readable d \<and> disk_records d = disk_records (state_file w)"
  proof (cases again)
    case True
    then show ?thesis
      using ld g e(1) new_limiter_disk [of _ _ _ e "state_file w" l d]
      by (auto simp: restart_def good_world_def limiter_ok_def split: sum.splits)
  next
    case False
    then show ?thesis using ld g by (simp add: good_world_def)
  qed
  obtain r l' d' where res: "reserve bootsel e l d = Inr (r, l', d')"
    by (cases "reserve bootsel e l d") (auto simp: reserve_def bootsel_def split: if_splits)
  have w': "w' = \<lparr>lim = l', state_file = d', script = rest\<rparr>"
    "b = (case outcome r of Reserved _ \<Rightarrow> True | _ \<Rightarrow> False)"
    using a sc t0 res ld by (auto simp: admit_reset_def Let_def e_def split: prod.splits if_splits)
  note D = reserve_disk [OF _ e(1) _ res]
  have rec: "is_recent e l = is_recent e (lim w)" using is_recent_config L by blast
  have boots: "list_all (\<lambda>x. rec_boot x = boot_id (lim w)) (disk_records d')"
    using D L g by (auto simp: good_world_def list_all_iff Let_def new_record_def
        dest!: in_set_dropD)
  have below: "\<not> at_limit e l d \<longrightarrow>
      length (filter (is_recent e (lim w)) (disk_records (state_file w))) < n"
    using L g rec by (auto simp: at_limit_def good_world_def)
  have "good_world n W w'"
    using D L g sc w'(1) boots by (auto simp: good_world_def)
  moreover have "\<not> b \<or> (\<exists>i. outcome r = Reserved i)" using w'(2) by (auto split: outcome.splits)
  moreover have "rec_mono (new_record bootsel e l) = t" using e(2) by (simp add: new_record_def)
  ultimately show ?thesis
    using D L w'(1) below rec e(2) by fastforce
qed

lemma recent_same_boot:
  assumes "list_all (\<lambda>r. rec_boot r = boot_id l) rs" "\<forall>r\<in>set rs. rec_mono r \<le> mono e"
    and "0 < window l"
  shows "filter (is_recent e l) rs = filter (\<lambda>r. mono e - window l < rec_mono r) rs"
  using assms by (auto simp: is_recent_def age_of_def skew_tolerance_def list_all_iff
      intro!: filter_cong)

lemma log_after_append:
  fixes t W :: real
  assumes "length recent < n" "n \<le> max_records"
    and "recent = filter (\<lambda>r. t - W < rec_mono r) rs" "rec_mono new = t" "0 < W"
    and "rs' = (let all = recent @ [new] in drop (length all - max_records) all)"
  shows "filter (\<lambda>x. t - W < x) (map rec_mono rs') =
    filter (\<lambda>x. t - W < x) (map rec_mono rs) @ [t]"
proof -
  have "rs' = recent @ [new]" using assms by (simp add: Let_def)
  then show ?thesis using assms(3-5) by (simp add: filter_map o_def)
qed

interpretation reset_limit:
  sliding_limit W n admit_reset reset_log "good_world n W" for W n
proof unfold_locales
  fix s t s'
  assume g: "good_world n W s" and le: "\<forall>x\<in>set (reset_log s). x \<le> t"
  let ?rs = "disk_records (state_file s)"
  have W: "0 < W" "n \<le> max_records" "W = window (lim s)" using g by (auto simp: good_world_def limiter_ok_def)
  have eq: "filter (is_recent e (lim s)) ?rs = filter (\<lambda>r. t - W < rec_mono r) ?rs"
    if "mono e = t" for e
    using recent_same_boot [of "lim s" ?rs e] g le W that
    by (simp add: good_world_def reset_log_def)
  { assume "admit_reset s t = (s', True)"
    from admit_reset_step [OF g this] obtain e new where
      st: "rec_mono new = t" "mono e = t"
        "disk_records (state_file s') = (let all = filter (is_recent e (lim s)) ?rs @ [new]
          in drop (length all - max_records) all)"
        "length (filter (is_recent e (lim s)) ?rs) < n" by blast
    show "length (filter (\<lambda>x. t - W < x) (reset_log s)) < n"
      using st(4) eq [OF st(2)] by (simp add: reset_log_def filter_map o_def)
    show "mset (filter (\<lambda>x. t - W < x) (reset_log s) @ [t]) \<subseteq>#
        mset (filter (\<lambda>x. t - W < x) (reset_log s'))"
      using log_after_append [OF st(4) W(2) eq [OF st(2)] st(1) W(1) st(3)]
      by (simp add: reset_log_def) }
  { assume "admit_reset s t = (s', False)"
    from admit_reset_step [OF g this] consider
      "disk_records (state_file s') = ?rs"
      | e new where "rec_mono new = t" "mono e = t"
        "disk_records (state_file s') = (let all = filter (is_recent e (lim s)) ?rs @ [new]
          in drop (length all - max_records) all)"
        "length (filter (is_recent e (lim s)) ?rs) < n" by blast
    then show "mset (filter (\<lambda>x. t - W < x) (reset_log s)) \<subseteq>#
        mset (filter (\<lambda>x. t - W < x) (reset_log s'))"
    proof cases
      case st: 2
      show ?thesis
        using log_after_append [OF st(4) W(2) eq [OF st(2)] st(1) W(1) st(3)]
        by (simp add: reset_log_def)
    qed (simp add: reset_log_def) }
next
  fix s t s' b
  assume g: "good_world n W s" and a: "admit_reset s t = (s', b)"
  from admit_reset_step [OF g a] show "good_world n W s'" by blast
  from admit_reset_step [OF g a] show "set (reset_log s') \<subseteq> insert t (set (reset_log s))"
    by (auto simp: reset_log_def Let_def dest!: in_set_dropD)
next
  fix s
  show "good_world n W s \<Longrightarrow> 0 < W" by (auto simp: good_world_def limiter_ok_def)
qed

primrec reset_grants :: "world \<Rightarrow> time list \<Rightarrow> time list" where
  "reset_grants w [] = []"
| "reset_grants w (t # ts) =
     (case admit_reset w t of (w', b) \<Rightarrow> (if b then [t] else []) @ reset_grants w' ts)"

lemma reset_grants_granted: "reset_grants w ts = reset_limit.granted w ts"
  by (induction ts arbitrary: w) (auto split: prod.splits)

text \<open>C34. Within one boot the radio is never reset more often than configured: starting without a
  history, for every sequence of reset requests with process restarts, lock failures and save
  failures of either kind before or during any of them, at most \<open>max_attempts\<close> requests are
  granted in any interval of one window.\<close>

theorem reset_rate_bounded:
  assumes "new_limiter n W boot e0 Absent = Inr (l, d)" "env_ok e0" "boot_ok boot" "0 < n"
    and "list_all (\<lambda>(again, e). ts_ok (wall e) \<and> fresh_id e \<noteq> []) sc" "sorted ts"
  shows "window_count W a (reset_grants \<lparr>lim = l, state_file = d, script = sc\<rparr> ts) \<le> n"
proof -
  have nd: "limiter_ok l \<and> max_attempts l = n \<and> window l = W \<and> boot_id l = boot \<and>
      readable d \<and> disk_records d = []"
    using new_limiter_disk [OF assms(1-3)] by (simp add: readable_def disk_records_def load_document_def)
  let ?w = "\<lparr>lim = l, state_file = d, script = sc\<rparr>"
  have "good_world n W ?w" using nd assms(4,5) by (simp add: good_world_def)
  then have "window_count W a (reset_limit.granted ?w ts) \<le> n"
    using nd assms(6) by (intro reset_limit.granted_window) (auto simp: reset_log_def)
  then show ?thesis by (simp add: reset_grants_granted)
qed

definition env_at :: "time \<Rightarrow> save_fate \<Rightarrow> env" where
  "env_at t s = \<lparr>wall = t, mono = t, lock_ok = True, save = s, fresh_id = ''r1''\<rparr>"

definition demo_script :: "(bool \<times> env) list" where
  "demo_script = [(False, env_at 0 Saved), (True, env_at 0 Saved)]"

lemma demo_limiter:
  "new_limiter 1 10 ''b0'' (env_at 0 Saved) Absent =
     Inr (\<lparr>max_attempts = 1, window = 10, boot_id = ''b0'', records = [], metadata = [],
          total_attempts = 0, state_error = None, blocked_until = 0, may_discard = False,
          quarantined = None\<rparr>, Absent)"
  by (simp add: new_limiter_def max_records_def env_at_def reload_def reset_loaded_state_def)

theorem reset_rate_bounded_witness:
  "\<exists>l d. new_limiter 1 10 ''b0'' (env_at 0 Saved) Absent = Inr (l, d) \<and>
     window_count 10 0 (reset_grants \<lparr>lim = l, state_file = d, script = demo_script\<rparr> [1, 5]) \<le> 1"
proof -
  have "boot_ok ''b0''" "env_ok (env_at 0 Saved)"
    "list_all (\<lambda>(again, e). ts_ok (wall e) \<and> fresh_id e \<noteq> []) demo_script"
    by (simp_all add: boot_ok_def env_ok_def env_at_def ts_ok_def demo_script_def)
  then show ?thesis
    using reset_rate_bounded [OF demo_limiter, of demo_script "[1, 5]" 0] demo_limiter
    by (auto simp del: reset_grants.simps)
qed

theorem reservation_is_durable_witness:
  "\<exists>l r l' d' x. reserve bootsel (env_at 1 Saved) l Absent = Inr (r, l', d') \<and>
     outcome r = Reserved ''r1'' \<and> x \<in> set (disk_records d') \<and> rec_id x = ''r1'' \<and> rec_mono x = 1"
proof -
  let ?l = "\<lparr>max_attempts = 1, window = 10, boot_id = ''b0'', records = [], metadata = [],
     total_attempts = 0, state_error = None, blocked_until = 0, may_discard = False,
     quarantined = None\<rparr>"
  have ok: "limiter_ok ?l" "env_ok (env_at 1 Saved)"
    by (simp_all add: limiter_ok_def boot_ok_def quarantine_ok_def env_ok_def env_at_def ts_ok_def
        max_records_def)
  obtain r l' d' where res: "reserve bootsel (env_at 1 Saved) ?l Absent = Inr (r, l', d')"
      "outcome r = Reserved ''r1''"
    by (auto simp: reserve_def bootsel_def reserve_locked_def env_at_def reload_def Let_def
        reset_loaded_state_def expire_quarantine_def recent_locked_def save_locked_def)
  from reservation_is_durable [OF ok res] obtain x where
    "x \<in> set (disk_records d')" "rec_id x = ''r1''" "rec_mono x = mono (env_at 1 Saved)" by blast
  moreover have "mono (env_at 1 Saved) = 1" by (simp add: env_at_def)
  ultimately show ?thesis using res by metis
qed

subsection \<open>An unreadable history blocks resets for a whole window\<close>

definition covers :: "time \<Rightarrow> time \<Rightarrow> limiter \<Rightarrow> quarantine option \<Rightarrow> bool" where
  "covers B now l qo \<longleftrightarrow>
     (case qo of None \<Rightarrow> False
      | Some q \<Rightarrow> q_boot q = boot_id l \<and> q_mono q \<le> now \<and> B \<le> q_mono q + window l)"

text \<open>The file is unreadable or carries a quarantine that lasts until \<open>B\<close>.\<close>

definition guarded :: "time \<Rightarrow> time \<Rightarrow> limiter \<Rightarrow> disk \<Rightarrow> bool" where
  "guarded B now l d \<longleftrightarrow> d \<noteq> Absent \<and>
     (case load_document d of None \<Rightarrow> True | Some p \<Rightarrow> covers B now l (p_quarantine p))"

lemma covers_later: "covers B now l q \<Longrightarrow> now \<le> now' \<Longrightarrow> covers B now' l q"
  by (auto simp: covers_def split: option.splits)

lemma covers_fail_closed:
  "covers B (mono e) l (quarantined l) \<or> B \<le> mono e + window l \<and> blocked_until l \<le> mono e + window l \<Longrightarrow>
   B \<le> mono e + window l \<Longrightarrow> covers B (mono e) l (quarantined (fail_closed r e l))"
  by (auto simp: covers_def fail_closed_def Let_def split: option.splits)

lemma covers_remaining:
  assumes "covers B (mono e) l (Some q)"
  shows "quarantine_remaining q e l = max 0 (q_mono q + window l - mono e)"
  using assms by (auto simp: covers_def quarantine_remaining_def skew_tolerance_def Let_def)

lemma covers_apply:
  assumes "covers B (mono e) l (Some q)" "mono e < B"
  shows "quarantined (fst (apply_quarantine q e l)) = Some q"
    "B \<le> blocked_until (fst (apply_quarantine q e l))"
    "snd (apply_quarantine q e l) = q_mono q + window l - mono e"
  using assms covers_remaining [OF assms(1)]
  by (auto simp: apply_quarantine_def Let_def covers_def)

lemma covers_config: "same_config l l' \<Longrightarrow> covers B now l' q = covers B now l q"
  by (auto simp: covers_def split: option.splits)

lemma guarded_config: "same_config l l' \<Longrightarrow> guarded B now l' d = guarded B now l d"
  using covers_config [of l l'] by (auto simp: guarded_def split: option.splits)

lemma guarded_later: "guarded B now l d \<Longrightarrow> now \<le> now' \<Longrightarrow> guarded B now' l d"
  by (auto simp: guarded_def intro: covers_later split: option.splits)

lemma reload_guarded:
  assumes g: "guarded B (mono e) l d" and B: "mono e < B" "B \<le> mono e + window l" "0 \<le> mono e"
    and q: "quarantined l = None \<or> covers B (mono e) l (quarantined l)" and W: "0 < window l"
  shows "covers B (mono e) l (quarantined (fst (reload e d l))) \<and> B \<le> blocked_until (fst (reload e d l))"
proof (cases "load_document d")
  case None
  then have "fst (reload e d l) = fail_closed Invalid_State e (reset_loaded_state l)"
    using g by (simp add: reload_def guarded_def)
  then show ?thesis
    using B W by (simp add: fail_closed_def reset_loaded_state_def covers_def)
next
  case (Some p)
  then have cp: "covers B (mono e) l (p_quarantine p)" using g by (simp add: guarded_def)
  then obtain qd where qd: "p_quarantine p = Some qd" by (cases "p_quarantine p") (auto simp: covers_def)
  from reload_document [OF Some, of e l] obtain l1 x b where
    r: "l1 = fst (apply_quarantine qd e (loaded p l))"
      "x = snd (apply_quarantine qd e (loaded p l))"
      "reload e d l = detect_rollback e (fst (keep_stricter l x e
        (l1\<lparr>may_discard := may_discard l1 \<or> may_discard l\<rparr>))) b"
    by (auto simp: apply_disk_quarantine_def qd)
  let ?l2 = "l1\<lparr>may_discard := may_discard l1 \<or> may_discard l\<rparr>"
  have cl: "covers B (mono e) (loaded p l) (Some qd)"
    using cp qd covers_config [of l "loaded p l"] config_loaded by simp
  note ap = covers_apply [OF cl B(1)]
  have l2: "quarantined ?l2 = Some qd" "B \<le> blocked_until ?l2" "same_config l ?l2"
    using ap r(1) by simp_all
  let ?l3 = "fst (keep_stricter l x e ?l2)"
  have l3: "covers B (mono e) l (quarantined ?l3) \<and> B \<le> blocked_until ?l3"
  proof (cases "quarantined l")
    case None
    then show ?thesis using l2 cp qd by (simp add: keep_stricter_def)
  next
    case (Some ql)
    then have "covers B (mono e) l (Some ql)" using q by simp
    then have "covers B (mono e) ?l2 (Some ql)" using covers_config [OF l2(3)] by simp
    from covers_apply [OF this B(1)] Some \<open>covers B (mono e) l (Some ql)\<close> l2 cp qd show ?thesis
      by (auto simp: keep_stricter_def)
  qed
  then obtain y where "quarantined ?l3 = Some y" by (auto simp: covers_def split: option.splits)
  then have "fst (reload e d l) = ?l3" using r(3) by (simp add: detect_rollback_def)
  with l3 show ?thesis by simp
qed

lemma persist_guarded:
  assumes "persist_quarantine e h d = (l', d')" "guarded B (mono e) h d"
    and "covers B (mono e) h (quarantined h)" "B \<le> mono e + window h" "B \<le> blocked_until h"
  shows "covers B (mono e) h (quarantined l') \<and> B \<le> blocked_until l' \<and> guarded B (mono e) h d' \<and>
    same_config h l'"
proof -
  let ?p = "\<lparr>p_records = drop (length (records h) - max_records) (records h),
     p_total = total_attempts h, p_metadata = metadata h, p_quarantine = quarantined h\<rparr>"
  have new: "guarded B (mono e) h (Document (write_payload ?p))"
    using assms(3) by (simp add: guarded_def load_written)
  have fc: "covers B (mono e) h (quarantined (fail_closed Persistence_Error e h)) \<and>
      B \<le> blocked_until (fail_closed Persistence_Error e h)"
    using assms(3-5) by (auto simp: fail_closed_def Let_def covers_def)
  show ?thesis
    using assms new fc config_fail_closed
    by (cases "save e") (auto simp: persist_quarantine_def save_locked_def)
qed

text \<open>One call under guard is refused and leaves the guard in place.\<close>

lemma reserve_guarded:
  assumes g: "guarded B (mono e) l d" and B: "mono e < B" "B \<le> mono e + window l" "0 \<le> mono e"
    and q: "covers B (mono e) l (quarantined l)" and W: "0 < window l"
    and r: "reserve bootsel e l d = Inr (r, l', d')"
  shows "(\<forall>i. outcome r \<noteq> Reserved i) \<and> guarded B (mono e) l d' \<and>
    covers B (mono e) l (quarantined l') \<and> same_config l l'"
proof (cases "lock_ok e")
  case False
  then have "l' = fail_closed Persistence_Error e l" "d' = d" "\<forall>i. outcome r \<noteq> Reserved i"
    using r by (auto simp: reserve_def refuse_def split: if_splits)
  moreover have "covers B (mono e) l (quarantined (fail_closed Persistence_Error e l))"
    using q B by (auto simp: fail_closed_def Let_def covers_def)
  ultimately show ?thesis using g by simp
next
  case True
  let ?l1 = "fst (reload e d l)"
  have q1: "covers B (mono e) l (quarantined ?l1) \<and> B \<le> blocked_until ?l1"
    by (rule reload_guarded [OF g B disjI2 [OF q] W])
  then have h: "at_hand e l d = ?l1" using B by (simp add: at_hand_def expire_quarantine_def)
  have c1: "same_config l ?l1" using reload_config [of e d l] by simp
  have rl: "reserve_locked bootsel e l d = (r, l', d')" using r True by (simp add: reserve_def bootsel_def)
  obtain l2 d2 where p: "persist_quarantine e ?l1 d = (l2, d2)" by fastforce
  have P: "covers B (mono e) ?l1 (quarantined l2) \<and> B \<le> blocked_until l2 \<and>
      guarded B (mono e) ?l1 d2 \<and> same_config ?l1 l2"
    using persist_guarded [OF p] q1 g B covers_config [OF c1] guarded_config [OF c1] c1 by simp
  have "mono e < blocked_until (at_hand e l d)" using q1 B h by simp
  from reserve_blocked [OF this, of bootsel] rl p h
  have "d' = d2" "l' = expire_quarantine e l2" "\<forall>i. outcome r \<noteq> Reserved i"
    by (auto simp: refuse_def recent_locked_def Let_def split: prod.splits)
  moreover have "expire_quarantine e l2 = l2" using P B by (simp add: expire_quarantine_def)
  ultimately show ?thesis
    using P c1 covers_config [OF c1] guarded_config [OF c1] by simp
qed

lemma new_limiter_guarded:
  assumes r: "new_limiter n W boot e d = Inr (l, d')" and B: "mono e < B" "B \<le> mono e + W" "0 \<le> mono e"
    and g: "\<And>l. window l = W \<Longrightarrow> boot_id l = boot \<Longrightarrow> guarded B (mono e) l d"
  shows "guarded B (mono e) l d' \<and> covers B (mono e) l (quarantined l) \<and> window l = W \<and>
    boot_id l = boot \<and> max_attempts l = n"
proof -
  let ?l0 = "\<lparr>max_attempts = n, window = W, boot_id = boot, records = [], metadata = [],
     total_attempts = 0, state_error = None, blocked_until = 0, may_discard = False,
     quarantined = None\<rparr>"
  have cfg: "\<not> max_records < n" "0 < W"
    using r by (auto simp: new_limiter_def split: if_splits)
  show ?thesis
  proof (cases "lock_ok e")
    case False
    then have eq: "l = fail_closed Persistence_Error e (reset_loaded_state ?l0)" "d' = d"
      using r cfg by (auto simp: new_limiter_def split: if_splits)
    then have "window l = W" "boot_id l = boot" "max_attempts l = n" by simp_all
    moreover have "covers B (mono e) l (quarantined l)"
      using B cfg by (simp add: eq fail_closed_def reset_loaded_state_def covers_def)
    ultimately show ?thesis using g eq(2) by blast
  next
    case True
    obtain l1 b where l1: "reload e d ?l0 = (l1, b)" by fastforce
    have q1: "covers B (mono e) ?l0 (quarantined l1) \<and> B \<le> blocked_until l1"
      using reload_guarded [of B e ?l0 d] g B cfg l1 by simp
    have c1: "same_config ?l0 l1" using reload_config [of e d ?l0] l1 by simp
    have g1: "guarded B (mono e) l1 d" using g c1 by simp
    have q1': "covers B (mono e) l1 (quarantined l1)"
      using q1 covers_config [OF c1] by simp
    have res: "(if b then persist_quarantine e l1 d else (l1, d)) = (l, d')"
      using r True cfg l1 by (auto simp: new_limiter_def)
    show ?thesis
    proof (cases b)
      case True
      with res have p: "persist_quarantine e l1 d = (l, d')" by simp
      have "B \<le> mono e + window l1" using B c1 by simp
      from persist_guarded [OF p g1 q1' this] q1 have
        P: "covers B (mono e) l1 (quarantined l) \<and> guarded B (mono e) l1 d' \<and> same_config l1 l"
        by blast
      then have c: "same_config l1 l" by simp
      show ?thesis
        using P c1 covers_config [OF c] guarded_config [OF c] by simp
    next
      case False
      then show ?thesis using res g1 q1' c1 by simp
    qed
  qed
qed

lemma new_limiter_total:
  "n \<le> max_records \<Longrightarrow> 0 < W \<Longrightarrow> \<exists>l d'. new_limiter n W boot e d = Inr (l, d')"
  by (auto simp: new_limiter_def Let_def split: prod.splits bool.splits)

primrec attempts :: "(bool \<times> env) list \<Rightarrow> limiter \<Rightarrow> disk \<Rightarrow> outcome list" where
  "attempts [] l d = []"
| "attempts (c # cs) l d =
     (let (l1, d1) = (if fst c then restart (snd c) \<lparr>lim = l, state_file = d, script = []\<rparr> else (l, d))
      in case reserve bootsel (snd c) l1 d1 of
           Inl _ \<Rightarrow> attempts cs l1 d1
         | Inr (r, l2, d2) \<Rightarrow> outcome r # attempts cs l2 d2)"

lemma attempts_guarded:
  assumes "guarded B now l d" "covers B now l (quarantined l)" "0 < window l"
    and "max_attempts l \<le> max_records" "B \<le> now + window l"
    and "sorted (now # map (\<lambda>c. mono (snd c)) cs)" "0 \<le> now" "\<forall>c\<in>set cs. mono (snd c) < B"
  shows "Reserved i \<notin> set (attempts cs l d)"
  using assms
proof (induction cs arbitrary: l d now)
  case (Cons c cs)
  let ?e = "snd c"
  have t: "now \<le> mono ?e" "mono ?e < B" "0 \<le> mono ?e" using Cons.prems(6-8) by auto
  have B: "B \<le> mono ?e + window l" using Cons.prems(5) t by simp
  obtain l1 d1 where ld: "(l1, d1) =
      (if fst c then restart ?e \<lparr>lim = l, state_file = d, script = []\<rparr> else (l, d))"
    by (metis surj_pair)
  have G: "guarded B (mono ?e) l1 d1 \<and> covers B (mono ?e) l1 (quarantined l1) \<and> same_config l l1"
  proof (cases "fst c")
    case True
    obtain la da where n: "new_limiter (max_attempts l) (window l) (boot_id l) ?e d = Inr (la, da)"
      using new_limiter_total [OF Cons.prems(4,3)] by blast
    then have eq: "l1 = la" "d1 = da" using ld True by (simp_all add: restart_def)
    have gd: "guarded B (mono ?e) l' d" if "window l' = window l" "boot_id l' = boot_id l" for l'
      using guarded_later [OF Cons.prems(1) t(1)] that
      by (auto simp: guarded_def covers_def split: option.splits)
    show ?thesis using new_limiter_guarded [OF n t(2) B t(3) gd] eq by simp
  next
    case False
    then show ?thesis
      using ld guarded_later [OF Cons.prems(1) t(1)] covers_later [OF Cons.prems(2) t(1)] by simp
  qed
  obtain r l2 d2 where res: "reserve bootsel ?e l1 d1 = Inr (r, l2, d2)"
    by (cases "reserve bootsel ?e l1 d1") (auto simp: reserve_def bootsel_def split: if_splits)
  have R: "(\<forall>i. outcome r \<noteq> Reserved i) \<and> guarded B (mono ?e) l1 d2 \<and>
      covers B (mono ?e) l1 (quarantined l2) \<and> same_config l1 l2"
    using reserve_guarded [OF _ t(2) _ t(3) _ _ res] G B Cons.prems(3) by simp
  then have c2: "same_config l1 l2" by simp
  have "Reserved i \<notin> set (attempts cs l2 d2)"
  proof (rule Cons.IH [of "mono ?e"])
    show "guarded B (mono ?e) l2 d2" using R guarded_config [OF c2] by simp
    show "covers B (mono ?e) l2 (quarantined l2)" using R covers_config [OF c2] by simp
    show "sorted (mono ?e # map (\<lambda>c. mono (snd c)) cs)" using Cons.prems(6) by simp
  qed (use G R B Cons.prems t in auto)
  moreover have "attempts (c # cs) l d = outcome r # attempts cs l2 d2"
    using ld [symmetric] res by (simp add: Let_def)
  moreover have "outcome r \<noteq> Reserved i" using R by blast
  ultimately show ?case by auto
qed simp

text \<open>A state file that cannot be read or fails validation never makes the limiter forget: for one
  whole window after it is found, no reset is granted, whether the limiter stays in memory or
  its process is restarted any number of times, and whether or not the quarantine could be
  written over the damaged file.\<close>

theorem unreadable_state_blocks:
  assumes "new_limiter n W boot e0 d0 = Inr (l, d)" "d0 \<noteq> Absent" "load_document d0 = None"
    and "0 \<le> mono e0" "sorted (map (\<lambda>c. mono (snd c)) cs)"
    and "\<forall>c\<in>set cs. mono e0 \<le> mono (snd c) \<and> mono (snd c) < mono e0 + W"
  shows "Reserved i \<notin> set (attempts cs l d)"
proof -
  have W: "0 < W" "n \<le> max_records"
    using assms(1) by (auto simp: new_limiter_def split: if_splits)
  have "guarded (mono e0 + W) (mono e0) l d \<and> covers (mono e0 + W) (mono e0) l (quarantined l) \<and>
      window l = W \<and> boot_id l = boot \<and> max_attempts l = n"
    using assms(2,3) W by (intro new_limiter_guarded [OF assms(1) _ _ assms(4)])
      (auto simp: guarded_def)
  then show ?thesis
    using assms(4-6) W by (intro attempts_guarded [of "mono e0 + W" "mono e0"]) auto
qed

theorem unreadable_state_blocks_witness:
  "\<exists>l d. new_limiter 1 10 ''b0'' (env_at 0 Not_Saved) Unreadable = Inr (l, d) \<and>
     Reserved ''r1'' \<notin> set (attempts [(True, env_at 1 Saved), (False, env_at 9 Saved)] l d)"
proof -
  obtain l d where n: "new_limiter 1 10 ''b0'' (env_at 0 Not_Saved) Unreadable = Inr (l, d)"
    using new_limiter_total [of 1 10 "''b0''" "env_at 0 Not_Saved" Unreadable]
    by (auto simp: max_records_def)
  have "Reserved ''r1'' \<notin> set (attempts [(True, env_at 1 Saved), (False, env_at 9 Saved)] l d)"
    by (rule unreadable_state_blocks [OF n])
      (simp_all add: load_document_def env_at_def)
  with n show ?thesis by blast
qed

end
