(* ===== verification/Event_Bus.thy ===== *)
theory Event_Bus
  imports RPi_Prelude
begin

text \<open>
  \<open>event_bus.py\<close>.  A callback is a number (Python compares bound methods by equality).
  What sits in a listener list is the callback itself or the wrapper object that
  \<open>subscribe_offloaded\<close> creates for it; a wrapper is identified by a serial number, because
  a wrapper made after the first one was dropped is another object.  Handle identifiers and
  wrapper serials are inputs, as is the clock.
\<close>

subsection \<open>The worker pool\<close>

datatype target = Direct nat | Wrapper nat nat

datatype 'p job = Job nat string 'p | Stop

record 'p pool =
  jobs :: "'p job list"
  workers :: nat
  active :: bool
  dropped :: nat
  abandoned :: nat

definition offload_max_pending :: int where
  "offload_max_pending = 64"

definition offload_workers :: nat where
  "offload_workers = 8"

definition new_pool :: "'p pool" where
  "new_pool = \<lparr>jobs = [], workers = 0, active = True, dropped = 0, abandoned = 0\<rparr>"

definition ensure_started :: "'p pool \<Rightarrow> 'p pool" where
  "ensure_started p = (if workers p > 0 \<or> \<not> active p then p else p\<lparr>workers := offload_workers\<rparr>)"

definition submit :: "nat \<Rightarrow> string \<Rightarrow> 'p \<Rightarrow> 'p pool \<Rightarrow> 'p pool \<times> bool" where
  "submit cb evt data p =
     (let p1 = ensure_started p
      in if \<not> active p1 then (p1, False)
         else (case put_nowait offload_max_pending (Job cb evt data) (jobs p1) of
                 Some q \<Rightarrow> (p1\<lparr>jobs := q\<rparr>, True)
               | None \<Rightarrow> (p1\<lparr>dropped := Suc (dropped p1)\<rparr>, False)))"

text \<open>One turn of a worker: the job it takes, \<open>None\<close> when it leaves or waits.\<close>

definition worker_take :: "'p pool \<Rightarrow> 'p pool \<times> (nat \<times> string \<times> 'p) option" where
  "worker_take p =
     (case get_nowait (jobs p) of
        None \<Rightarrow> (p, None)
      | Some (Stop, q) \<Rightarrow> (p\<lparr>jobs := q\<rparr>, None)
      | Some (Job cb evt data, q) \<Rightarrow> (p\<lparr>jobs := q\<rparr>, Some (cb, evt, data)))"

primrec put_stops :: "nat \<Rightarrow> 'p job list \<Rightarrow> 'p job list" where
  "put_stops 0 q = q"
| "put_stops (Suc n) q =
     (case put_nowait offload_max_pending Stop q of None \<Rightarrow> q | Some q' \<Rightarrow> put_stops n q')"

text \<open>\<open>alive\<close> is the number of workers that survive the bounded joins.\<close>

definition pool_shutdown :: "bool \<Rightarrow> nat \<Rightarrow> 'p pool \<Rightarrow> 'p pool" where
  "pool_shutdown cancel_pending alive p =
     (if \<not> active p then p
      else p\<lparr>active := False,
             jobs := put_stops (workers p) (if cancel_pending then [] else jobs p),
             abandoned := abandoned p + alive\<rparr>)"

record pool_stats =
  s_pending :: nat
  s_dropped :: nat
  s_workers :: nat
  s_abandoned :: nat

definition pool_stats :: "'p pool \<Rightarrow> pool_stats" where
  "pool_stats p = \<lparr>s_pending = length (jobs p), s_dropped = dropped p, s_workers = workers p,
     s_abandoned = abandoned p\<rparr>"

subsection \<open>The bus\<close>

type_synonym registration = "string \<times> nat \<times> target"

record 'p bus =
  subscribers :: "(string, target list) pydict"
  handles :: "(nat, registration) pydict"
  offload_map :: "(nat, target) pydict"
  pool :: "'p pool"
  is_shutdown :: bool
  last_drop_warning :: time

definition new_bus :: "'p bus" where
  "new_bus = \<lparr>subscribers = [], handles = [], offload_map = [], pool = new_pool,
     is_shutdown = False, last_drop_warning = 0\<rparr>"

definition listeners :: "'p bus \<Rightarrow> string \<Rightarrow> target list" where
  "listeners b evt = (case map_of (subscribers b) evt of None \<Rightarrow> [] | Some ls \<Rightarrow> ls)"

definition register :: "nat \<Rightarrow> string \<Rightarrow> nat \<Rightarrow> target \<Rightarrow> 'p bus \<Rightarrow> 'p bus" where
  "register hid evt cb t b =
     b\<lparr>subscribers := AList.update evt (listeners b evt @ [t]) (subscribers b),
       handles := AList.update hid (evt, cb, t) (handles b)\<rparr>"

definition subscribe :: "nat \<Rightarrow> string \<Rightarrow> nat \<Rightarrow> 'p bus \<Rightarrow> py_error + 'p bus" where
  "subscribe hid evt cb b =
     (if is_shutdown b then Inl RuntimeError else Inr (register hid evt cb (Direct cb) b))"

definition subscribe_offloaded :: "nat \<Rightarrow> nat \<Rightarrow> string \<Rightarrow> nat \<Rightarrow> 'p bus \<Rightarrow> py_error + 'p bus" where
  "subscribe_offloaded serial hid evt cb b =
     (if is_shutdown b then Inl RuntimeError
      else case map_of (offload_map b) cb of
        Some w \<Rightarrow> Inr (register hid evt cb w b)
      | None \<Rightarrow>
          Inr (register hid evt cb (Wrapper serial cb)
                 (b\<lparr>offload_map := AList.update cb (Wrapper serial cb) (offload_map b)\<rparr>)))"

definition remove_wrapper_if_unused :: "nat \<Rightarrow> target \<Rightarrow> 'p bus \<Rightarrow> 'p bus" where
  "remove_wrapper_if_unused original actual b =
     (if actual = Direct original then b
      else if list_ex (\<lambda>(_, ls). actual \<in> set ls) (subscribers b) then b
      else b\<lparr>offload_map := AList.delete original (offload_map b)\<rparr>)"

definition unsubscribe_handle :: "nat \<Rightarrow> 'p bus \<Rightarrow> 'p bus \<times> bool" where
  "unsubscribe_handle hid b =
     (case map_of (handles b) hid of
        None \<Rightarrow> (b, False)
      | Some (evt, original, actual) \<Rightarrow>
          let b1 = b\<lparr>handles := AList.delete hid (handles b)\<rparr>; ls = listeners b evt
          in if actual \<notin> set ls then (b1, False)
             else (remove_wrapper_if_unused original actual
                     (b1\<lparr>subscribers := AList.update evt (remove1 actual ls) (subscribers b1)\<rparr>),
                   True))"

definition actual_of :: "'p bus \<Rightarrow> nat \<Rightarrow> target" where
  "actual_of b cb = (case map_of (offload_map b) cb of None \<Rightarrow> Direct cb | Some w \<Rightarrow> w)"

text \<open>The first handle with this registration is dropped.\<close>

fun drop_handle :: "registration \<Rightarrow> (nat, registration) pydict \<Rightarrow> (nat, registration) pydict" where
  "drop_handle r [] = []"
| "drop_handle r ((h, r') # hs) = (if r' = r then hs else (h, r') # drop_handle r hs)"

definition unsubscribe :: "string \<Rightarrow> nat \<Rightarrow> 'p bus \<Rightarrow> 'p bus \<times> bool" where
  "unsubscribe evt cb b =
     (let actual = actual_of b cb; ls = listeners b evt
      in if actual \<notin> set ls then (b, False)
         else (remove_wrapper_if_unused cb actual
                 (b\<lparr>subscribers := AList.update evt (remove1 actual ls) (subscribers b),
                    handles := drop_handle (evt, cb, actual) (handles b)\<rparr>), True))"

definition unsubscribe_all :: "nat \<Rightarrow> 'p bus \<Rightarrow> 'p bus \<times> nat" where
  "unsubscribe_all cb b =
     (let actual = actual_of b cb
      in (b\<lparr>subscribers := map (\<lambda>(evt, ls). (evt, removeAll actual ls)) (subscribers b),
            handles := filter (\<lambda>(_, _, original, registered).
              \<not> (original = cb \<or> registered = Direct cb)) (handles b),
            offload_map := AList.delete cb (offload_map b)\<rparr>,
          sum_list (map (\<lambda>(_, ls). count_list ls actual) (subscribers b))))"

text \<open>
  Delivery: a direct callback runs in the publishing thread, an exception it raises is logged
  and delivery goes on; a wrapper submits to the pool and warns about a drop at most every
  ten seconds.  \<open>raises\<close> tells which callbacks raise.
\<close>

datatype 'p effect = Called nat string 'p | Logged nat | Warned string

fun deliver :: "(nat \<Rightarrow> bool) \<Rightarrow> time \<Rightarrow> string \<Rightarrow> 'p \<Rightarrow> target list \<Rightarrow> 'p bus \<Rightarrow> 'p bus \<times> 'p effect list"
where
  "deliver raises now evt data [] b = (b, [])"
| "deliver raises now evt data (Direct cb # ts) b =
     (let (b', es) = deliver raises now evt data ts b
      in (b', Called cb evt data # (if raises cb then [Logged cb] else []) @ es))"
| "deliver raises now evt data (Wrapper _ cb # ts) b =
     (let (p, ok) = submit cb evt data (pool b);
          warn = (\<not> ok \<and> 10 \<le> now - last_drop_warning b);
          b1 = b\<lparr>pool := p, last_drop_warning := (if warn then now else last_drop_warning b)\<rparr>;
          (b', es) = deliver raises now evt data ts b1
      in (b', (if warn then [Warned evt] else []) @ es))"

definition publish :: "(nat \<Rightarrow> bool) \<Rightarrow> time \<Rightarrow> string \<Rightarrow> 'p \<Rightarrow> 'p bus \<Rightarrow> 'p bus \<times> 'p effect list" where
  "publish raises now evt data b =
     (if is_shutdown b then (b, []) else deliver raises now evt data (listeners b evt) b)"

definition shutdown :: "nat \<Rightarrow> 'p bus \<Rightarrow> 'p bus" where
  "shutdown alive b =
     (if is_shutdown b then b
      else b\<lparr>is_shutdown := True, subscribers := [], handles := [], offload_map := [],
             pool := pool_shutdown True alive (pool b)\<rparr>)"

definition get_stats :: "'p bus \<Rightarrow> pool_stats" where
  "get_stats b = pool_stats (pool b)"

subsection \<open>Registrations and handles agree\<close>

definition handle_count :: "'p bus \<Rightarrow> string \<Rightarrow> target \<Rightarrow> nat" where
  "handle_count b evt t = length (filter (\<lambda>(_, e, _, a). e = evt \<and> a = t) (handles b))"

text \<open>
  The invariant: every listener entry has its own handle and every handle its entry; the
  offload map holds exactly the wrappers that are in use, one per callback, and a handle's
  target is the callback itself or that wrapper.
\<close>

definition bus_ok :: "'p bus \<Rightarrow> bool" where
  "bus_ok b \<longleftrightarrow>
     dict_ok (subscribers b) \<and> dict_ok (handles b) \<and> dict_ok (offload_map b) \<and>
     (\<forall>evt t. count_list (listeners b evt) t = handle_count b evt t) \<and>
     (\<forall>h evt cb t. map_of (handles b) h = Some (evt, cb, t) \<longrightarrow>
        t = Direct cb \<or> map_of (offload_map b) cb = Some t) \<and>
     (\<forall>cb w. map_of (offload_map b) cb = Some w \<longrightarrow>
        (\<exists>n. w = Wrapper n cb) \<and> (\<exists>evt. w \<in> set (listeners b evt)))"

lemma listeners_update [simp]:
  "listeners (b\<lparr>subscribers := AList.update e ls (subscribers b)\<rparr>) e' =
     (if e' = e then ls else listeners b e')"
  by (simp add: listeners_def dict_simps)

lemma listeners_other [simp]:
  "listeners (b\<lparr>handles := hs\<rparr>) = listeners b" "listeners (b\<lparr>offload_map := m\<rparr>) = listeners b"
  "listeners (b\<lparr>pool := p\<rparr>) = listeners b" "listeners (b\<lparr>last_drop_warning := t\<rparr>) = listeners b"
  by (auto simp: listeners_def fun_eq_iff)

lemma dict_update_new: "k \<notin> keys_of d \<Longrightarrow> AList.update k v d = d @ [(k, v)]"
  by (induction d) auto

lemma filter_dict_delete:
  assumes "dict_ok d" "map_of d k = Some v"
  shows "length (filter P d) = length (filter P (AList.delete k d)) + (if P (k, v) then 1 else 0)"
  using assms
proof (induction d)
  case (Cons x d)
  show ?case
  proof (cases "fst x = k")
    case True
    then have "k \<notin> keys_of d" using Cons.prems(1) by auto
    then have "AList.delete k (x # d) = d" using True by (cases x) (simp add: delete_id)
    moreover have "x = (k, v)" using True Cons.prems(2) by (cases x) simp
    ultimately show ?thesis by simp
  next
    case False
    then have "AList.delete k (x # d) = x # AList.delete k d" by (cases x) simp
    moreover have "map_of d k = Some v" using Cons.prems(2) False by (cases x) simp
    ultimately show ?thesis using Cons by simp
  qed
qed simp

lemma filter_drop_handle:
  assumes "(h, r) \<in> set d"
  shows "length (filter (\<lambda>x. P (snd x)) d) =
    length (filter (\<lambda>x. P (snd x)) (drop_handle r d)) + (if P r then 1 else 0)"
  using assms
proof (induction r d arbitrary: h rule: drop_handle.induct)
  case (2 r h1 r1 hs)
  show ?case
  proof (cases "r1 = r")
    case False
    then have "(h, r) \<in> set hs" using "2.prems" by auto
    from "2.IH" [OF False this] show ?thesis using False by (cases "P r1") auto
  qed simp
qed simp

lemma drop_handle_subset: "set (drop_handle r d) \<subseteq> set d"
  by (induction r d rule: drop_handle.induct) auto

lemma dict_ok_drop_handle: "dict_ok d \<Longrightarrow> dict_ok (drop_handle r d)"
proof (induction r d rule: drop_handle.induct)
  case (2 r h r' hs)
  have "keys_of (drop_handle r hs) \<subseteq> keys_of hs" using drop_handle_subset by (rule image_mono)
  with 2 show ?case by auto
qed simp

lemma map_of_drop_handle:
  "dict_ok d \<Longrightarrow> map_of (drop_handle r d) h = Some x \<Longrightarrow> map_of d h = Some x"
  using drop_handle_subset [of r d] map_of_SomeD [of "drop_handle r d" h x]
  by (auto intro: map_of_is_SomeI)

lemma count_remove1: "count_list (remove1 x xs) y = count_list xs y - (if x = y then 1 else 0)"
  by (induction xs) auto

lemma handle_count_alt:
  "handle_count b evt t = length (filter (\<lambda>x. case snd x of (e, _, a) \<Rightarrow> e = evt \<and> a = t) (handles b))"
  by (simp add: handle_count_def split_def)

lemma count_list_member: "0 < count_list xs x \<longleftrightarrow> x \<in> set xs"
  by (induction xs) auto

text \<open>Whatever is listening has a handle, and its origin is recorded correctly.\<close>

lemma bus_listener_handle:
  assumes "bus_ok b" "t \<in> set (listeners b evt)"
  shows "\<exists>h cb. map_of (handles b) h = Some (evt, cb, t)"
proof -
  have "0 < handle_count b evt t"
    using assms by (metis bus_ok_def count_list_member)
  then obtain x where "x \<in> set (handles b)" "fst (snd x) = evt" "snd (snd (snd x)) = t"
    by (auto simp: handle_count_def length_greater_0_conv filter_empty_conv)
  moreover have "dict_ok (handles b)" using assms(1) by (simp add: bus_ok_def)
  ultimately show ?thesis by (metis map_of_is_SomeI prod.collapse)
qed

lemma bus_handle_origin:
  assumes "bus_ok b" "map_of (handles b) h = Some (evt, cb, t)"
  shows "t = Direct cb \<or> (\<exists>n. t = Wrapper n cb \<and> map_of (offload_map b) cb = Some t)"
  using assms unfolding bus_ok_def by blast

lemma bus_handle_listens:
  assumes "bus_ok b" "map_of (handles b) h = Some (evt, cb, t)"
  shows "t \<in> set (listeners b evt)"
proof -
  have "(h, evt, cb, t) \<in> set (handles b)" using assms(2) by (rule map_of_SomeD)
  then have "0 < handle_count b evt t"
    by (auto simp: handle_count_def length_greater_0_conv filter_empty_conv)
  then show ?thesis using assms(1) by (metis bus_ok_def count_list_member)
qed

lemma bus_ok_new: "bus_ok new_bus"
  by (simp add: bus_ok_def new_bus_def listeners_def handle_count_def)

lemma handle_count_register:
  assumes "hid \<notin> keys_of (handles b)"
  shows "handle_count (register hid evt cb t b) e a =
    handle_count b e a + (if e = evt \<and> a = t then 1 else 0)"
  using assms by (simp add: handle_count_def register_def dict_update_new)

lemma bus_ok_register:
  assumes ok: "bus_ok b" and fresh: "hid \<notin> keys_of (handles b)"
    and t: "t = Direct cb \<and> m = offload_map b \<or>
      (\<exists>n. t = Wrapper n cb \<and> m = AList.update cb t (offload_map b) \<and>
        (map_of (offload_map b) cb = None \<or> map_of (offload_map b) cb = Some t))"
  shows "bus_ok (register hid evt cb t (b\<lparr>offload_map := m\<rparr>))"
proof -
  let ?b = "b\<lparr>offload_map := m\<rparr>" and ?r = "register hid evt cb t (b\<lparr>offload_map := m\<rparr>)"
  have lis: "listeners ?r e = (if e = evt then listeners b evt @ [t] else listeners b e)" for e
    by (simp add: register_def listeners_def dict_simps)
  have hs: "map_of (handles ?r) h = (if h = hid then Some (evt, cb, t) else map_of (handles b) h)" for h
    by (simp add: register_def dict_simps)
  have mo: "offload_map ?r = m" by (simp add: register_def)
  have cnt: "count_list (listeners ?r e) a = handle_count ?r e a" for e a
  proof -
    have "handle_count ?r e a = handle_count b e a + (if e = evt \<and> a = t then 1 else 0)"
      using handle_count_register [of hid ?b evt cb t e a] fresh by (simp add: handle_count_def)
    moreover have "count_list (listeners b e) a = handle_count b e a"
      using ok by (simp add: bus_ok_def)
    ultimately show ?thesis by (auto simp: lis)
  qed
  have m_get: "map_of m cb' = Some w \<Longrightarrow>
      map_of (offload_map b) cb' = Some w \<or> cb' = cb \<and> w = t \<and> (\<exists>n. t = Wrapper n cb)" for cb' w
    using t by (auto simp: dict_simps split: if_splits)
  have m_keep: "map_of (offload_map b) cb' = Some w \<Longrightarrow> map_of m cb' = Some w" for cb' w
    using t by (auto simp: dict_simps)
  have m_t: "t = Direct cb \<or> map_of m cb = Some t" using t by (auto simp: dict_simps)
  have dm: "dict_ok m" using t ok by (auto simp: bus_ok_def)
  have dicts: "dict_ok (subscribers ?r)" "dict_ok (handles ?r)"
    using ok by (auto simp: bus_ok_def register_def)
  have origins: "t' = Direct cb' \<or> map_of m cb' = Some t'"
    if "map_of (handles ?r) h = Some (e, cb', t')" for h e cb' t'
  proof (cases "h = hid")
    case True
    then show ?thesis using that m_t by (simp add: hs)
  next
    case False
    then have "map_of (handles b) h = Some (e, cb', t')" using that hs by simp
    from bus_handle_origin [OF ok this] m_keep show ?thesis by blast
  qed
  have uses: "(\<exists>n. w = Wrapper n cb') \<and> (\<exists>e. w \<in> set (listeners ?r e))"
    if "map_of m cb' = Some w" for cb' w
    using m_get [OF that]
  proof
    assume "map_of (offload_map b) cb' = Some w"
    then have "(\<exists>n. w = Wrapper n cb') \<and> (\<exists>e. w \<in> set (listeners b e))"
      using ok unfolding bus_ok_def by blast
    then show ?thesis by (metis UnCI lis set_append)
  next
    assume "cb' = cb \<and> w = t \<and> (\<exists>n. t = Wrapper n cb)"
    then show ?thesis by (auto simp: lis intro!: exI [of _ evt])
  qed
  show ?thesis
    unfolding bus_ok_def mo using dicts dm cnt origins uses by blast
qed

lemma in_use_listeners:
  "dict_ok (subscribers b) \<Longrightarrow>
   list_ex (\<lambda>(_, ls). t \<in> set ls) (subscribers b) \<longleftrightarrow> (\<exists>e. t \<in> set (listeners b e))"
  unfolding list_ex_iff listeners_def
  by (auto split: option.splits)

lemma remove_wrapper_fields:
  "subscribers (remove_wrapper_if_unused cb t b) = subscribers b"
  "handles (remove_wrapper_if_unused cb t b) = handles b"
  "listeners (remove_wrapper_if_unused cb t b) = listeners b"
  by (auto simp: remove_wrapper_if_unused_def listeners_def fun_eq_iff)

text \<open>One registration is taken out, with its handle.\<close>

lemma bus_ok_remove:
  assumes ok: "bus_ok b" and h: "map_of (handles b) h = Some (evt, cb, t)"
    and hs: "dict_ok hs" "\<And>k x. map_of hs k = Some x \<Longrightarrow> map_of (handles b) k = Some x"
    and cnt: "\<And>P. length (filter (\<lambda>x. P (snd x)) (handles b)) =
      length (filter (\<lambda>x. P (snd x)) hs) + (if P (evt, cb, t) then 1 else 0)"
  defines "b1 \<equiv> b\<lparr>subscribers := AList.update evt (remove1 t (listeners b evt)) (subscribers b),
      handles := hs\<rparr>"
  shows "bus_ok (remove_wrapper_if_unused cb t b1)"
proof -
  let ?r = "remove_wrapper_if_unused cb t b1"
  have lis: "listeners ?r e = (if e = evt then remove1 t (listeners b evt) else listeners b e)" for e
    by (simp add: remove_wrapper_fields b1_def listeners_def dict_simps)
  have hr: "handles ?r = hs" by (simp add: remove_wrapper_fields b1_def)
  have ds: "dict_ok (subscribers b1)" using ok by (simp add: b1_def bus_ok_def)
  have used: "list_ex (\<lambda>(_, ls). t \<in> set ls) (subscribers b1) \<longleftrightarrow> (\<exists>e. t \<in> set (listeners ?r e))"
    using in_use_listeners [OF ds] by (simp add: remove_wrapper_fields)
  have om: "offload_map ?r = (if t = Direct cb \<or> (\<exists>e. t \<in> set (listeners ?r e)) then offload_map b
      else AList.delete cb (offload_map b))"
    unfolding used [symmetric] by (simp add: remove_wrapper_if_unused_def b1_def)
  have counts: "count_list (listeners ?r e) a = handle_count ?r e a" for e a
  proof -
    have "handle_count b e a = handle_count ?r e a + (if e = evt \<and> a = t then 1 else 0)"
      using cnt [of "\<lambda>x. case x of (e', _, a') \<Rightarrow> e' = e \<and> a' = a"]
      by (auto simp: handle_count_alt hr split_def)
    moreover have "count_list (listeners b e) a = handle_count b e a"
      using ok by (simp add: bus_ok_def)
    ultimately show ?thesis by (auto simp: lis count_remove1)
  qed
  have origins: "t' = Direct cb' \<or> map_of (offload_map ?r) cb' = Some t'"
    if k: "map_of (handles ?r) k = Some (e, cb', t')" for k e cb' t'
  proof -
    have b: "map_of (handles b) k = Some (e, cb', t')" using hs(2) k hr by simp
    have "(k, e, cb', t') \<in> set (handles ?r)" using k by (rule map_of_SomeD)
    then have "0 < handle_count ?r e t'"
      by (auto simp: handle_count_def length_greater_0_conv filter_empty_conv)
    then have l: "t' \<in> set (listeners ?r e)" by (metis counts count_list_member)
    from bus_handle_origin [OF ok b] show ?thesis
    proof
      assume o: "\<exists>n. t' = Wrapper n cb' \<and> map_of (offload_map b) cb' = Some t'"
      have "cb' = cb \<longrightarrow> t' = t \<or> t = Direct cb"
        using o bus_handle_origin [OF ok h] by auto
      then show ?thesis using o l by (auto simp: om dict_simps)
    qed simp
  qed
  have uses: "(\<exists>n. w = Wrapper n cb') \<and> (\<exists>e. w \<in> set (listeners ?r e))"
    if m: "map_of (offload_map ?r) cb' = Some w" for cb' w
  proof -
    have mb: "map_of (offload_map b) cb' = Some w"
      using m by (auto simp: om dict_simps split: if_splits)
    then obtain n e where w: "w = Wrapper n cb'" "w \<in> set (listeners b e)"
      using ok unfolding bus_ok_def by blast
    show ?thesis
    proof (cases "w = t")
      case True
      then have "cb' = cb" using bus_handle_origin [OF ok h] w(1) by auto
      with True m w(1) show ?thesis by (auto simp: om dict_simps split: if_splits)
    next
      case False
      then have "w \<in> set (listeners ?r e)" using w(2) by (auto simp: lis)
      with w(1) show ?thesis by blast
    qed
  qed
  have "dict_ok (offload_map ?r)" using ok by (auto simp: om bus_ok_def)
  moreover have "dict_ok (subscribers ?r)" using ds by (simp add: remove_wrapper_fields)
  moreover have "dict_ok (handles ?r)" using hs(1) hr by simp
  ultimately show ?thesis
    unfolding bus_ok_def using counts origins uses by blast
qed

lemma bus_ok_cancel:
  assumes "bus_ok b"
  shows "bus_ok (fst (unsubscribe_handle hid b))"
proof (cases "map_of (handles b) hid")
  case None
  then show ?thesis using assms by (simp add: unsubscribe_handle_def)
next
  case (Some r)
  obtain evt cb t where r: "r = (evt, cb, t)" by (cases r)
  have h: "map_of (handles b) hid = Some (evt, cb, t)" using Some r by simp
  have d: "dict_ok (handles b)" using assms by (simp add: bus_ok_def)
  have ok: "bus_ok (remove_wrapper_if_unused cb t (b\<lparr>subscribers :=
      AList.update evt (remove1 t (listeners b evt)) (subscribers b),
      handles := AList.delete hid (handles b)\<rparr>))"
  proof (rule bus_ok_remove [OF assms h])
    fix P
    show "length (filter (\<lambda>x. P (snd x)) (handles b)) =
        length (filter (\<lambda>x. P (snd x)) (AList.delete hid (handles b))) + (if P (evt, cb, t) then 1 else 0)"
      using filter_dict_delete [OF d h, of "\<lambda>x. P (snd x)"] by simp
  qed (use d in \<open>auto simp: delete_conv' split: if_splits\<close>)
  have "t \<in> set (listeners b evt)" by (rule bus_handle_listens [OF assms h])
  have swap: "b\<lparr>handles := AList.delete hid (handles b), subscribers := x\<rparr> =
      b\<lparr>subscribers := x, handles := AList.delete hid (handles b)\<rparr>" for x
    by (cases b) simp
  from \<open>t \<in> set (listeners b evt)\<close> have "fst (unsubscribe_handle hid b) = remove_wrapper_if_unused cb t
      (b\<lparr>handles := AList.delete hid (handles b), subscribers :=
        AList.update evt (remove1 t (listeners b evt)) (subscribers b)\<rparr>)"
    by (simp add: unsubscribe_handle_def h Let_def)
  with ok show ?thesis by (simp only: swap)
qed

lemma bus_ok_unsubscribe:
  assumes "bus_ok b"
  shows "bus_ok (fst (unsubscribe evt cb b))"
proof (cases "actual_of b cb \<in> set (listeners b evt)")
  case False
  then show ?thesis using assms by (simp add: unsubscribe_def)
next
  case True
  let ?t = "actual_of b cb"
  obtain h cb' where h: "map_of (handles b) h = Some (evt, cb', ?t)"
    using bus_listener_handle [OF assms True] by blast
  have "?t = Direct cb \<or> (\<exists>n. ?t = Wrapper n cb)"
    using assms unfolding actual_of_def bus_ok_def by (auto split: option.splits)
  then have "cb' = cb" using bus_handle_origin [OF assms h] by auto
  then have h: "map_of (handles b) h = Some (evt, cb, ?t)" using h by simp
  have d: "dict_ok (handles b)" using assms by (simp add: bus_ok_def)
  have "bus_ok (remove_wrapper_if_unused cb ?t (b\<lparr>subscribers :=
      AList.update evt (remove1 ?t (listeners b evt)) (subscribers b),
      handles := drop_handle (evt, cb, ?t) (handles b)\<rparr>))"
  proof (rule bus_ok_remove [OF assms h dict_ok_drop_handle [OF d]])
    show "map_of (drop_handle (evt, cb, ?t) (handles b)) k = Some x \<Longrightarrow> map_of (handles b) k = Some x"
      for k x by (rule map_of_drop_handle [OF d])
    show "length (filter (\<lambda>x. P (snd x)) (handles b)) =
        length (filter (\<lambda>x. P (snd x)) (drop_handle (evt, cb, ?t) (handles b))) +
        (if P (evt, cb, ?t) then 1 else 0)" for P
      by (rule filter_drop_handle [OF map_of_SomeD [OF h]])
  qed
  then show ?thesis using True by (simp add: unsubscribe_def Let_def)
qed

definition mixed :: "nat \<Rightarrow> 'p bus \<Rightarrow> bool" where
  "mixed cb b \<longleftrightarrow> map_of (offload_map b) cb \<noteq> None \<and>
     list_ex (\<lambda>(_, ls). Direct cb \<in> set ls) (subscribers b)"

lemma map_of_map_values: "map_of (map (\<lambda>(k, v). (k, f v)) d) k = map_option f (map_of d k)"
  by (induction d) auto

lemma keys_map_values: "map fst (map (\<lambda>(k, v). (k, f v)) d) = map fst d"
  by (induction d) auto

lemma count_removeAll: "count_list (removeAll x xs) y = (if x = y then 0 else count_list xs y)"
  by (induction xs) auto

lemma bus_ok_unsubscribe_all:
  assumes ok: "bus_ok b" and nm: "\<not> mixed cb b"
  shows "bus_ok (fst (unsubscribe_all cb b))"
proof -
  let ?t = "actual_of b cb" and ?r = "fst (unsubscribe_all cb b)"
  have ds: "dict_ok (subscribers b)" and dh: "dict_ok (handles b)" and dm: "dict_ok (offload_map b)"
    using ok by (simp_all add: bus_ok_def)
  have lis: "listeners ?r e = removeAll ?t (listeners b e)" for e
    by (auto simp: unsubscribe_all_def Let_def listeners_def map_of_map_values split: option.splits)
  have t: "?t = Direct cb \<and> map_of (offload_map b) cb = None \<or>
      (\<exists>n. ?t = Wrapper n cb \<and> map_of (offload_map b) cb = Some ?t)"
    using ok unfolding actual_of_def bus_ok_def by (auto split: option.splits)
  have origin: "t' = ?t \<longleftrightarrow> cb' = cb" if h: "map_of (handles b) k = Some (e, cb', t')" for k e cb' t'
  proof -
    have l: "t' \<in> set (listeners b e)" by (rule bus_handle_listens [OF ok h])
    have "\<not> (t' = Direct cb \<and> map_of (offload_map b) cb \<noteq> None)"
      using nm l in_use_listeners [OF ds, of "Direct cb"] unfolding mixed_def by blast
    with bus_handle_origin [OF ok h] t show ?thesis by auto
  qed
  have hs: "handles ?r = filter (\<lambda>(_, _, _, a). a \<noteq> ?t) (handles b)"
  proof -
    have "\<not> (cb' = cb \<or> a = Direct cb) \<longleftrightarrow> a \<noteq> ?t" if "(k, e, cb', a) \<in> set (handles b)" for k e cb' a
    proof -
      have h: "map_of (handles b) k = Some (e, cb', a)" using that dh by simp
      show ?thesis using origin [OF h] bus_handle_origin [OF ok h] by auto
    qed
    then show ?thesis by (auto simp: unsubscribe_all_def Let_def intro!: filter_cong)
  qed
  have counts: "count_list (listeners ?r e) a = handle_count ?r e a" for e a
  proof -
    have "handle_count ?r e a = (if a = ?t then 0 else handle_count b e a)"
      by (auto simp: handle_count_def hs split_def filter_empty_conv intro!: arg_cong [where f = length] filter_cong)
    moreover have "count_list (listeners b e) a = handle_count b e a"
      using ok by (simp add: bus_ok_def)
    ultimately show ?thesis by (auto simp: lis count_removeAll)
  qed
  have om: "offload_map ?r = AList.delete cb (offload_map b)"
    by (simp add: unsubscribe_all_def Let_def)
  have origins: "t' = Direct cb' \<or> map_of (offload_map ?r) cb' = Some t'"
    if k: "map_of (handles ?r) k = Some (e, cb', t')" for k e cb' t'
  proof -
    have "(k, e, cb', t') \<in> set (handles b)" "t' \<noteq> ?t"
      using map_of_SomeD [OF k] by (auto simp: hs)
    then have h: "map_of (handles b) k = Some (e, cb', t')" using dh by simp
    from origin [OF h] bus_handle_origin [OF ok h] \<open>t' \<noteq> ?t\<close> show ?thesis
      by (auto simp: om dict_simps)
  qed
  have uses: "(\<exists>n. w = Wrapper n cb') \<and> (\<exists>e. w \<in> set (listeners ?r e))"
    if m: "map_of (offload_map ?r) cb' = Some w" for cb' w
  proof -
    have "cb' \<noteq> cb" and "map_of (offload_map b) cb' = Some w"
      using m by (auto simp: om dict_simps split: if_splits)
    then obtain n e where "w = Wrapper n cb'" "w \<in> set (listeners b e)"
      using ok unfolding bus_ok_def by blast
    then show ?thesis using t \<open>cb' \<noteq> cb\<close> by (auto simp: lis)
  qed
  have sub: "subscribers ?r = map (\<lambda>(k, v). (k, removeAll ?t v)) (subscribers b)"
    by (simp add: unsubscribe_all_def Let_def)
  have "dict_ok (subscribers ?r)" unfolding sub keys_map_values by (rule ds)
  moreover have "dict_ok (handles ?r)" using dh by (simp add: hs)
  moreover have "dict_ok (offload_map ?r)" using dm by (simp add: om)
  ultimately show ?thesis unfolding bus_ok_def using counts origins uses by blast
qed

lemma bus_ok_cong:
  assumes "subscribers b' = subscribers b" "handles b' = handles b" "offload_map b' = offload_map b"
  shows "bus_ok b' = bus_ok b"
proof -
  have "listeners b' = listeners b" using assms by (auto simp: listeners_def fun_eq_iff)
  then show ?thesis using assms by (simp add: bus_ok_def handle_count_def)
qed

lemma deliver_bus:
  "subscribers (fst (deliver raises now evt data ts b)) = subscribers b \<and>
   handles (fst (deliver raises now evt data ts b)) = handles b \<and>
   offload_map (fst (deliver raises now evt data ts b)) = offload_map b"
proof (induction raises now evt data ts b rule: deliver.induct)
  case (3 raises now evt data serial cb ts b)
  obtain p ok where s: "submit cb evt data (pool b) = (p, ok)" by fastforce
  from "3.IH" [OF s [symmetric] refl refl] s show ?case
    by (auto simp: Let_def split: prod.splits)
qed (auto split: prod.splits)

subsection \<open>The operations together\<close>

datatype 'p bus_op =
    Subscribe nat string nat
  | Subscribe_Offloaded nat nat string nat
  | Cancel nat
  | Unsubscribe string nat
  | Unsubscribe_All nat
  | Publish time string 'p
  | Shutdown nat

definition ok_or :: "'a \<Rightarrow> 'e + 'a \<Rightarrow> 'a" where
  "ok_or a r = (case r of Inl _ \<Rightarrow> a | Inr x \<Rightarrow> x)"

definition bus_step :: "(nat \<Rightarrow> bool) \<Rightarrow> 'p bus_op \<Rightarrow> 'p bus \<Rightarrow> 'p bus" where
  "bus_step raises opn b =
     (case opn of
        Subscribe hid evt cb \<Rightarrow> ok_or b (subscribe hid evt cb b)
      | Subscribe_Offloaded n hid evt cb \<Rightarrow> ok_or b (subscribe_offloaded n hid evt cb b)
      | Cancel hid \<Rightarrow> fst (unsubscribe_handle hid b)
      | Unsubscribe evt cb \<Rightarrow> fst (unsubscribe evt cb b)
      | Unsubscribe_All cb \<Rightarrow> fst (unsubscribe_all cb b)
      | Publish now evt data \<Rightarrow> fst (publish raises now evt data b)
      | Shutdown alive \<Rightarrow> shutdown alive b)"

text \<open>New handle identifiers are fresh, and \<open>unsubscribe_all\<close> is not used on a callback that
  is registered both directly and offloaded.\<close>

definition op_allowed :: "'p bus_op \<Rightarrow> 'p bus \<Rightarrow> bool" where
  "op_allowed opn b =
     (case opn of
        Subscribe hid _ _ \<Rightarrow> hid \<notin> keys_of (handles b)
      | Subscribe_Offloaded _ hid _ _ \<Rightarrow> hid \<notin> keys_of (handles b)
      | Unsubscribe_All cb \<Rightarrow> \<not> mixed cb b
      | _ \<Rightarrow> True)"

inductive bus_reachable :: "(nat \<Rightarrow> bool) \<Rightarrow> 'p bus \<Rightarrow> bool" for raises where
  bus_init: "bus_reachable raises new_bus"
| bus_more: "bus_reachable raises b \<Longrightarrow> op_allowed opn b \<Longrightarrow> bus_reachable raises (bus_step raises opn b)"

lemma bus_ok_subscribe_offloaded:
  assumes "bus_ok b" "hid \<notin> keys_of (handles b)"
  shows "bus_ok (ok_or b (subscribe_offloaded n hid evt cb b))"
proof (cases "map_of (offload_map b) cb")
  case None
  then show ?thesis
    using bus_ok_register [OF assms, of "Wrapper n cb" cb] assms(1)
    by (auto simp: subscribe_offloaded_def ok_or_def)
next
  case (Some w)
  then obtain k where w: "w = Wrapper k cb" using assms(1) unfolding bus_ok_def by blast
  have "AList.update cb w (offload_map b) = offload_map b"
    using Some by (simp add: update_triv)
  then have "bus_ok (register hid evt cb w (b\<lparr>offload_map := offload_map b\<rparr>))"
    using bus_ok_register [OF assms, of w cb "offload_map b"] Some w by auto
  then show ?thesis using Some assms(1) by (simp add: subscribe_offloaded_def ok_or_def)
qed

lemma bus_ok_step:
  assumes "bus_ok b" "op_allowed opn b"
  shows "bus_ok (bus_step raises opn b)"
proof (cases opn)
  case (Subscribe hid evt cb)
  then show ?thesis
    using bus_ok_register [OF assms(1), of hid "Direct cb" cb "offload_map b" evt] assms
    by (auto simp: bus_step_def op_allowed_def subscribe_def ok_or_def)
next
  case (Subscribe_Offloaded n hid evt cb)
  then show ?thesis
    using bus_ok_subscribe_offloaded assms by (simp add: bus_step_def op_allowed_def)
next
  case (Publish now evt data)
  then show ?thesis
    using assms(1) bus_ok_cong deliver_bus by (fastforce simp: bus_step_def publish_def)
next
  case (Shutdown alive)
  then show ?thesis
    using assms(1) by (cases "is_shutdown b")
      (simp_all add: bus_step_def shutdown_def, simp add: bus_ok_def listeners_def handle_count_def)
qed (use assms in \<open>simp_all add: bus_step_def op_allowed_def bus_ok_cancel bus_ok_unsubscribe
      bus_ok_unsubscribe_all\<close>)

lemma bus_reachable_ok: "bus_reachable raises b \<Longrightarrow> bus_ok b"
  by (induction rule: bus_reachable.induct) (auto intro: bus_ok_new bus_ok_step)

subsection \<open>What the bus promises\<close>

text \<open>Registrations and handles stay in step whatever plugins do: after any sequence of
  subscriptions, cancellations, removals, publications and shutdown, every entry in a listener
  list has exactly one live handle and every live handle exactly one entry, and the wrapper kept
  for an offloaded callback is always one that is still listening.\<close>

theorem handles_match_listeners:
  assumes "bus_reachable raises b"
  shows "count_list (listeners b evt) t = handle_count b evt t \<and>
    (map_of (offload_map b) cb = None \<or> (\<exists>e. actual_of b cb \<in> set (listeners b e)))"
  using bus_reachable_ok [OF assms] unfolding bus_ok_def actual_of_def
  by (auto split: option.splits)

definition demo_bus :: "nat bus" where
  "demo_bus = bus_step (\<lambda>_. False) (Subscribe_Offloaded 1 11 ''x'' 7)
     (bus_step (\<lambda>_. False) (Subscribe 10 ''x'' 5) new_bus)"

lemma demo_bus_reachable: "bus_reachable (\<lambda>_. False) demo_bus"
  unfolding demo_bus_def
  by (intro bus_more bus_init) (simp_all add: op_allowed_def new_bus_def bus_step_def
      subscribe_def register_def ok_or_def)

lemma demo_bus_listeners: "listeners demo_bus ''x'' = [Direct 5, Wrapper 1 7]"
  by (simp add: demo_bus_def bus_step_def subscribe_def subscribe_offloaded_def register_def
      ok_or_def new_bus_def listeners_def)

theorem handles_match_listeners_witness:
  "listeners demo_bus ''x'' = [Direct 5, Wrapper 1 7] \<and>
   count_list (listeners demo_bus ''x'') (Wrapper 1 7) = handle_count demo_bus ''x'' (Wrapper 1 7)"
proof
  show "listeners demo_bus ''x'' = [Direct 5, Wrapper 1 7]"
    by (simp add: demo_bus_def bus_step_def subscribe_def subscribe_offloaded_def register_def
        ok_or_def new_bus_def listeners_def)
  show "count_list (listeners demo_bus ''x'') (Wrapper 1 7) = handle_count demo_bus ''x'' (Wrapper 1 7)"
    using handles_match_listeners [OF demo_bus_reachable] by (rule conjunct1)
qed

text \<open>Cancelling a live handle succeeds, removes exactly one delivery of its own callback from its
  own event and leaves every other event's listeners alone; cancelling it again does nothing.\<close>

theorem cancel_removes_one:
  assumes "bus_reachable raises b" "map_of (handles b) hid = Some (evt, cb, t)"
  shows "let (b', ok) = unsubscribe_handle hid b in
    ok \<and> listeners b' evt = remove1 t (listeners b evt) \<and> t \<in> set (listeners b evt) \<and>
    listeners b' = (listeners b)(evt := remove1 t (listeners b evt)) \<and>
    unsubscribe_handle hid b' = (b', False)"
proof -
  note ok = bus_reachable_ok [OF assms(1)]
  have t: "t \<in> set (listeners b evt)" by (rule bus_handle_listens [OF ok assms(2)])
  let ?b1 = "b\<lparr>handles := AList.delete hid (handles b), subscribers :=
      AList.update evt (remove1 t (listeners b evt)) (subscribers b)\<rparr>"
  have u: "unsubscribe_handle hid b = (remove_wrapper_if_unused cb t ?b1, True)"
    using t by (simp add: unsubscribe_handle_def assms(2) Let_def)
  have l: "listeners (remove_wrapper_if_unused cb t ?b1) = (listeners b)(evt := remove1 t (listeners b evt))"
    by (auto simp: remove_wrapper_fields listeners_def dict_simps fun_eq_iff)
  have "map_of (handles (remove_wrapper_if_unused cb t ?b1)) hid = None"
    by (simp add: remove_wrapper_fields dict_simps)
  then have "unsubscribe_handle hid (remove_wrapper_if_unused cb t ?b1) =
      (remove_wrapper_if_unused cb t ?b1, False)"
    by (simp add: unsubscribe_handle_def)
  with u l t show ?thesis by (simp add: Let_def)
qed

theorem cancel_removes_one_witness:
  "case unsubscribe_handle 11 demo_bus of (b', ok) \<Rightarrow> ok \<and> listeners b' ''x'' = [Direct 5]"
proof -
  have h: "map_of (handles demo_bus) 11 = Some (''x'', 7, Wrapper 1 7)"
    by (simp add: demo_bus_def bus_step_def subscribe_def subscribe_offloaded_def register_def
        ok_or_def new_bus_def)
  have "listeners demo_bus ''x'' = [Direct 5, Wrapper 1 7]"
    using demo_bus_listeners by simp
  then show ?thesis
    using cancel_removes_one [OF demo_bus_reachable h] by (auto simp: Let_def split: prod.splits)
qed

text \<open>\<open>unsubscribe_all\<close> is meant to remove a callback from every event, but a callback that is
  registered directly and offloaded keeps its direct registration: its handle is gone, so it can no
  longer be cancelled, and it is still called.\<close>

theorem unsubscribe_all_keeps_direct:
  "case subscribe 10 ''x'' 5 (new_bus :: nat bus) of
     Inl _ \<Rightarrow> False
   | Inr b1 \<Rightarrow> (case subscribe_offloaded 1 11 ''x'' 5 b1 of
       Inl _ \<Rightarrow> False
     | Inr b2 \<Rightarrow> (case unsubscribe_all 5 b2 of (b3, n) \<Rightarrow>
         n = 1 \<and> handles b3 = [] \<and> listeners b3 ''x'' = [Direct 5] \<and>
         snd (publish (\<lambda>_. False) 0 ''x'' 0 b3) = [Called 5 ''x'' 0]))"
  by (simp add: subscribe_def subscribe_offloaded_def register_def new_bus_def listeners_def
      unsubscribe_all_def actual_of_def Let_def publish_def)

subsection \<open>Backpressure\<close>












text \<open>Shutdown is final: afterwards no publication delivers or queues anything, no subscription is
  accepted, and the pool refuses work.\<close>

theorem shutdown_is_final:
  "let b' = shutdown alive b in
     publish raises now evt data b' = (b', []) \<and>
     subscribe hid evt cb b' = Inl RuntimeError \<and> subscribe_offloaded n hid evt cb b' = Inl RuntimeError \<and>
     (is_shutdown b \<or> \<not> snd (submit cb evt data (pool b')) \<and> listeners b' evt = [] \<and>
        unsubscribe_handle hid b' = (b', False))"
  by (auto simp: shutdown_def Let_def publish_def subscribe_def subscribe_offloaded_def submit_def
      ensure_started_def pool_shutdown_def listeners_def unsubscribe_handle_def)

end
