(* ===== verification/Announce_Dispatch.thy ===== *)
theory Announce_Dispatch
  imports RPi_Prelude
begin

text \<open>
  \<open>announce_dispatcher.py\<close>: one wildcard announce handler feeding a bounded queue, a
  dispatch loop that copies each announce into the mailboxes of the subscribers whose aspect
  matches, and per subscriber a worker with a circuit breaker.  Clock readings, callback
  durations and exceptions are inputs; one iteration sees one reading of the clock.  The
  Reticulum function that hashes an aspect and an identity is the parameter \<open>rns\<close>, with
  \<open>None\<close> where it raises.
\<close>

type_synonym announce = "nat list \<times> nat option \<times> nat list"

text \<open>A mailbox holds announces and, as \<open>None\<close>, the stop mark.\<close>

record subscription =
  aspect_filter :: "string option"
  consecutive_timeouts :: nat
  disabled_until :: time
  mail :: "announce option list"
  sub_active :: bool
  sub_dropped :: nat
  last_warning :: time

record dispatcher =
  subs :: "(string, subscription) pydict"
  inbox :: "announce list"
  disp_active :: bool
  max_queue :: int
  callback_deadline :: real
  breaker_threshold :: int
  breaker_cooldown :: real
  queue_dropped :: nat
  last_queue_warning :: time
  abandoned_workers :: nat
  subscriber_dropped_total :: nat

definition default_subscriber_queue :: int where
  "default_subscriber_queue = 64"

definition new_subscription :: "string option \<Rightarrow> subscription" where
  "new_subscription af = \<lparr>aspect_filter = af, consecutive_timeouts = 0, disabled_until = 0,
     mail = [], sub_active = True, sub_dropped = 0, last_warning = 0\<rparr>"

definition new_dispatcher :: "int \<Rightarrow> real \<Rightarrow> int \<Rightarrow> real \<Rightarrow> dispatcher" where
  "new_dispatcher maxq deadline_ms threshold cooldown =
     \<lparr>subs = [], inbox = [], disp_active = False, max_queue = maxq,
      callback_deadline = deadline_ms / 1000, breaker_threshold = threshold,
      breaker_cooldown = cooldown, queue_dropped = 0, last_queue_warning = 0,
      abandoned_workers = 0, subscriber_dropped_total = 0\<rparr>"

definition default_dispatcher :: dispatcher where
  "default_dispatcher = new_dispatcher 10000 500 3 60"

definition start_dispatcher :: "dispatcher \<Rightarrow> dispatcher" where
  "start_dispatcher d = d\<lparr>disp_active := True\<rparr>"

definition subscribe_announces :: "string \<Rightarrow> string option \<Rightarrow> dispatcher \<Rightarrow> dispatcher" where
  "subscribe_announces sid af d = d\<lparr>subs := AList.update sid (new_subscription af) (subs d)\<rparr>"

text \<open>\<open>_stop_subscription\<close>; \<open>alive\<close> tells whether the worker outlives the bounded join.\<close>

definition stop_subscription :: "bool \<Rightarrow> subscription \<Rightarrow> dispatcher \<Rightarrow> subscription \<times> dispatcher" where
  "stop_subscription alive s d =
     (s\<lparr>sub_active := False,
        mail := (case put_nowait default_subscriber_queue None (mail s) of None \<Rightarrow> mail s | Some q \<Rightarrow> q)\<rparr>,
      if alive then d\<lparr>abandoned_workers := Suc (abandoned_workers d)\<rparr> else d)"

definition unsubscribe_announces ::
  "bool \<Rightarrow> string \<Rightarrow> dispatcher \<Rightarrow> dispatcher \<times> subscription option" where
  "unsubscribe_announces alive sid d =
     (case map_of (subs d) sid of
        None \<Rightarrow> (d, None)
      | Some s \<Rightarrow>
          (case stop_subscription alive s (d\<lparr>subs := AList.delete sid (subs d)\<rparr>) of
             (s', d') \<Rightarrow> (d', Some s')))"

primrec stop_all :: "(string \<times> subscription) list \<Rightarrow> (string \<Rightarrow> bool) \<Rightarrow> dispatcher \<Rightarrow> dispatcher" where
  "stop_all [] alive d = d"
| "stop_all (x # xs) alive d = stop_all xs alive (snd (stop_subscription (alive (fst x)) (snd x) d))"

definition stop_dispatcher :: "(string \<Rightarrow> bool) \<Rightarrow> dispatcher \<Rightarrow> dispatcher" where
  "stop_dispatcher alive d = stop_all (subs d) alive (d\<lparr>disp_active := False, subs := []\<rparr>)"

subsection \<open>Receiving\<close>

definition enqueue :: "time \<Rightarrow> announce \<Rightarrow> dispatcher \<Rightarrow> dispatcher \<times> bool" where
  "enqueue now a d =
     (case put_nowait (max_queue d) a (inbox d) of
        Some q \<Rightarrow> (d\<lparr>inbox := q\<rparr>, False)
      | None \<Rightarrow>
          let warn = 10 \<le> now - last_queue_warning d
          in (d\<lparr>queue_dropped := Suc (queue_dropped d),
                last_queue_warning := (if warn then now else last_queue_warning d)\<rparr>, warn))"

definition received_announce :: "time \<Rightarrow> announce \<Rightarrow> dispatcher \<Rightarrow> dispatcher" where
  "received_announce now a d = fst (enqueue now a d)"

subsection \<open>Dispatching\<close>

definition aspect_matches ::
  "(string \<Rightarrow> nat \<Rightarrow> nat list option) \<Rightarrow> string \<Rightarrow> announce \<Rightarrow> bool" where
  "aspect_matches rns af a =
     (case a of (dest, ident, _) \<Rightarrow>
        (case ident of
           None \<Rightarrow> False
         | Some i \<Rightarrow> (case rns af i of None \<Rightarrow> False | Some expected \<Rightarrow> dest = expected)))"

definition trip_full :: "time \<Rightarrow> real \<Rightarrow> subscription \<Rightarrow> subscription" where
  "trip_full now cooldown s =
     s\<lparr>sub_dropped := Suc (sub_dropped s),
       disabled_until := max (disabled_until s) (now + cooldown),
       last_warning := (if 10 \<le> now - last_warning s then now else last_warning s)\<rparr>"

definition offer_mail :: "time \<Rightarrow> real \<Rightarrow> announce \<Rightarrow> subscription \<Rightarrow> subscription \<times> nat" where
  "offer_mail now cooldown a s =
     (case put_nowait default_subscriber_queue (Some a) (mail s) of
        Some q \<Rightarrow> (s\<lparr>mail := q\<rparr>, 0)
      | None \<Rightarrow> (trip_full now cooldown s, 1))"

text \<open>The loop over the subscribers, with the memo \<open>matched_aspects\<close>.\<close>

fun dispatch_subs ::
  "(string \<Rightarrow> nat \<Rightarrow> nat list option) \<Rightarrow> time \<Rightarrow> real \<Rightarrow> announce \<Rightarrow> (string, bool) pydict \<Rightarrow>
   (string \<times> subscription) list \<Rightarrow> (string \<times> subscription) list \<times> nat" where
  "dispatch_subs rns now cooldown a memo [] = ([], 0)"
| "dispatch_subs rns now cooldown a memo ((sid, s) # rest) =
     (if now < disabled_until s then
        (let (rest', n) = dispatch_subs rns now cooldown a memo rest in ((sid, s) # rest', n))
      else
        (let (memo1, should_call) =
           (case aspect_filter s of
              None \<Rightarrow> (memo, True)
            | Some af \<Rightarrow>
                (let m = (if map_of memo af = None
                          then AList.update af (aspect_matches rns af a) memo else memo)
                 in (m, the (map_of m af))));
             (s1, k) = (if should_call then offer_mail now cooldown a s else (s, 0));
             (rest', n) = dispatch_subs rns now cooldown a memo1 rest
         in ((sid, s1) # rest', k + n)))"

definition dispatch_one ::
  "(string \<Rightarrow> nat \<Rightarrow> nat list option) \<Rightarrow> time \<Rightarrow> dispatcher \<Rightarrow> dispatcher" where
  "dispatch_one rns now d =
     (if \<not> disp_active d then d
      else case get_nowait (inbox d) of
        None \<Rightarrow> d
      | Some (a, q) \<Rightarrow>
          (case dispatch_subs rns now (breaker_cooldown d) a [] (subs d) of
             (ss, n) \<Rightarrow> d\<lparr>inbox := q, subs := ss,
                          subscriber_dropped_total := subscriber_dropped_total d + n\<rparr>))"

subsection \<open>The subscriber's worker\<close>

datatype worker_act = Left | Idle | Skipped | Ran announce

text \<open>One turn: \<open>elapsed\<close> is the duration of the callback, \<open>raises\<close> whether it raised.\<close>

definition subscriber_step ::
  "real \<Rightarrow> int \<Rightarrow> real \<Rightarrow> time \<Rightarrow> real \<Rightarrow> bool \<Rightarrow> subscription \<Rightarrow> subscription \<times> worker_act" where
  "subscriber_step deadline threshold cooldown now elapsed raises s =
     (if \<not> sub_active s then (s, Left)
      else case get_nowait (mail s) of
        None \<Rightarrow> (s, Idle)
      | Some (None, q) \<Rightarrow> (s\<lparr>mail := q\<rparr>, Left)
      | Some (Some a, q) \<Rightarrow>
          let s1 = s\<lparr>mail := q\<rparr>
          in if now < disabled_until s then (s1, Skipped)
             else if raises then (s1, Ran a)
             else if deadline < elapsed then
               (let k = Suc (consecutive_timeouts s)
                in (s1\<lparr>consecutive_timeouts := k,
                       disabled_until := (if threshold \<le> int k then now + elapsed + cooldown
                                          else disabled_until s)\<rparr>, Ran a))
             else (s1\<lparr>consecutive_timeouts := 0\<rparr>, Ran a))"

record dispatcher_stats =
  st_pending :: nat
  st_queue_dropped :: nat
  st_subscribers :: nat
  st_subscriber_pending :: nat
  st_subscriber_dropped :: nat
  st_disabled :: nat
  st_abandoned :: nat

definition dispatcher_stats :: "time \<Rightarrow> dispatcher \<Rightarrow> dispatcher_stats" where
  "dispatcher_stats now d =
     \<lparr>st_pending = length (inbox d), st_queue_dropped = queue_dropped d,
      st_subscribers = length (subs d),
      st_subscriber_pending = sum_list (map (\<lambda>(_, s). length (mail s)) (subs d)),
      st_subscriber_dropped = subscriber_dropped_total d,
      st_disabled = length (filter (\<lambda>(_, s). now < disabled_until s) (subs d)),
      st_abandoned = abandoned_workers d\<rparr>"

subsection \<open>Dispatch is per subscriber\<close>

text \<open>What one announce does to one subscriber, without the memo and without the others.\<close>

definition wants :: "(string \<Rightarrow> nat \<Rightarrow> nat list option) \<Rightarrow> announce \<Rightarrow> subscription \<Rightarrow> bool" where
  "wants rns a s = (case aspect_filter s of None \<Rightarrow> True | Some af \<Rightarrow> aspect_matches rns af a)"

definition dispatch_to ::
  "(string \<Rightarrow> nat \<Rightarrow> nat list option) \<Rightarrow> time \<Rightarrow> real \<Rightarrow> announce \<Rightarrow> subscription \<Rightarrow> subscription" where
  "dispatch_to rns now cooldown a s =
     (if now < disabled_until s \<or> \<not> wants rns a s then s
      else if length (mail s) < 64 then s\<lparr>mail := mail s @ [Some a]\<rparr>
      else trip_full now cooldown s)"

definition overflows ::
  "(string \<Rightarrow> nat \<Rightarrow> nat list option) \<Rightarrow> time \<Rightarrow> announce \<Rightarrow> subscription \<Rightarrow> bool" where
  "overflows rns now a s \<longleftrightarrow> \<not> now < disabled_until s \<and> wants rns a s \<and> 64 \<le> length (mail s)"

definition memo_ok :: "(string \<Rightarrow> nat \<Rightarrow> nat list option) \<Rightarrow> announce \<Rightarrow> (string, bool) pydict \<Rightarrow> bool" where
  "memo_ok rns a memo \<longleftrightarrow> (\<forall>af v. map_of memo af = Some v \<longrightarrow> v = aspect_matches rns af a)"

lemma dispatch_subs_spec:
  "memo_ok rns a memo \<Longrightarrow> dispatch_subs rns now cooldown a memo ss =
     (map (\<lambda>(sid, s). (sid, dispatch_to rns now cooldown a s)) ss,
      length (filter (\<lambda>(_, s). overflows rns now a s) ss))"
proof (induction rns now cooldown a memo ss rule: dispatch_subs.induct)
  case (2 rns now cooldown a memo sid s rest)
  show ?case
  proof (cases "now < disabled_until s")
    case True
    then show ?thesis using "2.IH"(1) "2.prems" by (simp add: dispatch_to_def overflows_def)
  next
    case False
    define memo1 where "memo1 = (case aspect_filter s of None \<Rightarrow> memo
      | Some af \<Rightarrow> if map_of memo af = None
                   then AList.update af (aspect_matches rns af a) memo else memo)"
    have ok1: "memo_ok rns a memo1"
      using "2.prems" by (auto simp: memo1_def memo_ok_def dict_simps split: option.splits if_splits)
    have pick: "(case aspect_filter s of None \<Rightarrow> (memo, True)
        | Some af \<Rightarrow> (let m = (if map_of memo af = None
             then AList.update af (aspect_matches rns af a) memo else memo)
           in (m, the (map_of m af)))) = (memo1, wants rns a s)"
      using "2.prems" by (auto simp: memo1_def wants_def memo_ok_def dict_simps split: option.split)
    have om: "(if wants rns a s then offer_mail now cooldown a s else (s, 0)) =
        (dispatch_to rns now cooldown a s, if overflows rns now a s then 1 else 0)"
      using False by (auto simp: offer_mail_def dispatch_to_def overflows_def put_nowait_def
          default_subscriber_queue_def)
    have "dispatch_subs rns now cooldown a memo1 rest =
        (map (\<lambda>(sid, s). (sid, dispatch_to rns now cooldown a s)) rest,
         length (filter (\<lambda>(_, s). overflows rns now a s) rest))"
      by (rule "2.IH"(2) [OF False pick [symmetric] refl om [symmetric] refl ok1])
    then show ?thesis using False pick om by simp
  qed
qed simp

interpretation subscriber_mail:
  mailbox 64 "put_nowait default_subscriber_queue" get_nowait "\<lambda>q. q"
  using mailbox_py_queue [of default_subscriber_queue] by (simp add: default_subscriber_queue_def)

text \<open>One announce reaches exactly the subscribers that want it: each subscriber's new state depends
  on its own state only, so a full, slow or disabled subscriber affects no other; the shared
  memo of aspect matches never changes a decision; and the drop counter rises by the number of
  subscribers whose mailbox was full.\<close>

theorem dispatch_isolated:
  assumes "disp_active d" "inbox d = a # q"
  shows "let d' = dispatch_one rns now d in
    inbox d' = q \<and>
    subs d' = map (\<lambda>(sid, s). (sid, dispatch_to rns now (breaker_cooldown d) a s)) (subs d) \<and>
    subscriber_dropped_total d' = subscriber_dropped_total d +
      length (filter (\<lambda>(_, s). overflows rns now a s) (subs d))"
  using assms dispatch_subs_spec [of rns a "[]" now "breaker_cooldown d" "subs d"]
  by (simp add: dispatch_one_def get_nowait_def memo_ok_def Let_def)

definition demo_rns :: "string \<Rightarrow> nat \<Rightarrow> nat list option" where
  "demo_rns af i = (if af = ''lxmf'' then Some [i] else None)"

definition demo_disp :: dispatcher where
  "demo_disp = fst (enqueue 1 ([4], Some 4, []) (start_dispatcher
     (subscribe_announces ''b'' (Some ''nomad'') (subscribe_announces ''a'' (Some ''lxmf'')
        default_dispatcher))))"

theorem dispatch_isolated_witness:
  "map (\<lambda>(sid, s). (sid, mail s)) (subs (dispatch_one demo_rns 2 demo_disp)) =
     [(''a'', [Some ([4], Some 4, [])]), (''b'', [])]"
proof -
  have d: "disp_active demo_disp" "inbox demo_disp = [([4], Some 4, [])]"
    by (simp_all add: demo_disp_def start_dispatcher_def subscribe_announces_def enqueue_def
        default_dispatcher_def new_dispatcher_def put_nowait_def)
  have "subs demo_disp = [(''a'', new_subscription (Some ''lxmf'')), (''b'', new_subscription (Some ''nomad''))]"
    by (simp add: demo_disp_def start_dispatcher_def subscribe_announces_def enqueue_def
        default_dispatcher_def new_dispatcher_def put_nowait_def)
  then show ?thesis
    using dispatch_isolated [OF d, of demo_rns 2]
    by (simp add: Let_def dispatch_to_def wants_def aspect_matches_def demo_rns_def
        new_subscription_def)
qed

subsection \<open>The circuit breaker\<close>

primrec worker_run ::
  "real \<Rightarrow> int \<Rightarrow> real \<Rightarrow> (time \<times> real \<times> bool) list \<Rightarrow> subscription \<Rightarrow> subscription \<times> worker_act list" where
  "worker_run deadline threshold cooldown [] s = (s, [])"
| "worker_run deadline threshold cooldown (x # xs) s =
     (case x of (now, elapsed, raises) \<Rightarrow>
        let (s1, act) = subscriber_step deadline threshold cooldown now elapsed raises s;
            (s2, acts) = worker_run deadline threshold cooldown xs s1
        in (s2, act # acts))"

lemma step_disabled:
  assumes "now < disabled_until s"
  shows "case subscriber_step dl th cd now el rs s of (s', act) \<Rightarrow>
    disabled_until s' = disabled_until s \<and> act \<noteq> Ran a"
  using assms
  by (auto simp: subscriber_step_def Let_def split: option.splits prod.splits)

lemma worker_run_disabled:
  "\<forall>(now, el, rs)\<in>set xs. now < disabled_until s \<Longrightarrow>
   Ran a \<notin> set (snd (worker_run dl th cd xs s))"
proof (induction xs arbitrary: s)
  case (Cons x xs)
  obtain now el rs where x: "x = (now, el, rs)" by (cases x)
  obtain s1 act where st: "subscriber_step dl th cd now el rs s = (s1, act)" by fastforce
  have "disabled_until s1 = disabled_until s \<and> act \<noteq> Ran a"
    using step_disabled [of now s a dl th cd el rs] Cons.prems x st by simp
  then have "Ran a \<noteq> act" "Ran a \<notin> set (snd (worker_run dl th cd xs s1))"
    using Cons.IH [of s1] Cons.prems by auto
  then show ?case by (simp add: x st Let_def split_def)
qed simp

text \<open>The circuit breaker holds: when the last callback of a run of consecutive slow callbacks
  reaches the threshold, then until the cooldown has passed since it returned the worker runs no
  callback, whatever is in the mailbox, and the dispatch loop puts nothing more into it.\<close>

theorem breaker_holds:
  assumes "sub_active s" "mail s = Some a # q" "disabled_until s \<le> now" "deadline < elapsed"
    and "threshold \<le> int (consecutive_timeouts s) + 1"
    and "\<forall>(t, el, rs)\<in>set xs. t < now + elapsed + cooldown"
  shows "let (s1, act) = subscriber_step deadline threshold cooldown now elapsed False s in
    act = Ran a \<and> Ran a' \<notin> set (snd (worker_run deadline threshold cooldown xs s1)) \<and>
    (now' < now + elapsed + cooldown \<longrightarrow> dispatch_to rns now' cooldown a' s1 = s1)"
proof -
  have st: "subscriber_step deadline threshold cooldown now elapsed False s =
      (s\<lparr>mail := q, consecutive_timeouts := Suc (consecutive_timeouts s),
         disabled_until := now + elapsed + cooldown\<rparr>, Ran a)"
    using assms(1-5) by (simp add: subscriber_step_def get_nowait_def Let_def)
  have "Ran a' \<notin> set (snd (worker_run deadline threshold cooldown xs
      (s\<lparr>mail := q, consecutive_timeouts := Suc (consecutive_timeouts s),
         disabled_until := now + elapsed + cooldown\<rparr>)))"
    by (rule worker_run_disabled) (use assms(6) in simp)
  then show ?thesis by (simp add: st dispatch_to_def)
qed

definition slow_sub :: subscription where
  "slow_sub = (new_subscription None)\<lparr>consecutive_timeouts := 2,
     mail := [Some ([1], None, []), Some ([2], None, [])]\<rparr>"

theorem breaker_holds_witness:
  "snd (subscriber_step (1/2) 3 60 10 1 False slow_sub) = Ran ([1], None, []) \<and>
   Ran ([2], None, []) \<notin> set (snd (worker_run (1/2) 3 60 [(20, 1, False), (70, 1, False)]
     (fst (subscriber_step (1/2) 3 60 10 1 False slow_sub))))"
  using breaker_holds [of slow_sub "([1], None, [])" "[Some ([2], None, [])]" 10 "1/2" 1 3
      "[(20, 1, False), (70, 1, False)]" 60 "([2], None, [])"]
  by (simp add: slow_sub_def new_subscription_def split_def Let_def)

subsection \<open>Bounded queues under a burst\<close>

interpretation announce_inbox: mailbox 10000 "put_nowait 10000" get_nowait "\<lambda>q. q"
  using mailbox_py_queue [of 10000] by simp

primrec receive_all :: "(time \<times> announce) list \<Rightarrow> dispatcher \<Rightarrow> dispatcher" where
  "receive_all [] d = d"
| "receive_all (x # xs) d = receive_all xs (received_announce (fst x) (snd x) d)"

lemma receive_all_offer:
  assumes "max_queue d = 10000"
  shows "inbox (receive_all xs d) = fst (announce_inbox.offer_all (map snd xs) (inbox d)) \<and>
    queue_dropped (receive_all xs d) =
      queue_dropped d + snd (announce_inbox.offer_all (map snd xs) (inbox d))"
  using assms
proof (induction xs arbitrary: d)
  case (Cons x xs)
  let ?d = "received_announce (fst x) (snd x) d"
  have "max_queue ?d = 10000"
    using Cons.prems by (simp add: received_announce_def enqueue_def Let_def split: option.splits)
  from Cons.IH [OF this] Cons.prems show ?case
    by (auto simp: received_announce_def enqueue_def Let_def split: option.splits prod.splits)
qed simp

text \<open>A flood of announces is bounded and loses only its tail: with the default queue of 10000, the
  announces that fit are kept in arrival order and every other one is counted as dropped, so
  nothing disappears unaccounted.\<close>

theorem flood_bounded:
  assumes "max_queue d = 10000" "length (inbox d) \<le> 10000"
  shows "inbox (receive_all xs d) = inbox d @ take (10000 - length (inbox d)) (map snd xs) \<and>
    length (inbox (receive_all xs d)) + queue_dropped (receive_all xs d) =
      length (inbox d) + queue_dropped d + length xs"
  using receive_all_offer [OF assms(1), of xs]
    announce_inbox.offer_all_prefix [OF assms(2), of "map snd xs"] assms(2) by simp

theorem flood_bounded_witness:
  "inbox (receive_all [(1, ([1], None, [])), (2, ([2], None, []))] default_dispatcher) =
     [([1], None, []), ([2], None, [])]"
  using flood_bounded [of default_dispatcher "[(1, ([1], None, [])), (2, ([2], None, []))]"]
  by (simp add: default_dispatcher_def new_dispatcher_def del: receive_all.simps)

end
