(* ===== verification/Internet_Probe.thy ===== *)
theory Internet_Probe
  imports RPi_Prelude
begin

text \<open>
  \<open>internet_probe.py\<close>: the connectivity probe with hysteresis.  The monitor thread and the
  callers of \<open>set_force_offline\<close> interleave; a step is one section under the lock, one probe,
  or one publication.  Whether a target answers and what the address lookups return are inputs.
\<close>

record probe_config =
  interval :: real
  timeout :: real
  offline_threshold :: int
  targets :: "(string \<times> int) list"

definition default_targets :: "(string \<times> int) list" where
  "default_targets = [(''1.1.1.1'', 53), (''8.8.8.8'', 53), (''9.9.9.9'', 53)]"

definition make_config :: "real \<Rightarrow> real \<Rightarrow> int \<Rightarrow> (string \<times> int) list \<Rightarrow> probe_config" where
  "make_config i t n ts = \<lparr>interval = max 5 i, timeout = max 1 t, offline_threshold = max 1 n,
     targets = (if ts = [] then default_targets else ts)\<rparr>"

datatype net_event = Internet_Online "string option" "string option" | Internet_Offline "string option" "string option"

text \<open>The monitor between two checks, probing, about to apply its result, about to publish.\<close>

datatype check_pc =
    Waiting
  | Probing nat
  | Applying nat bool
  | Publishing net_event

datatype force_pc = Force_Idle | Force_Apply nat | Force_Publish net_event

record probe =
  cfg :: probe_config
  force_offline :: bool
  is_online :: "bool option"
  consecutive_failures :: int
  generation :: nat
  wan_ip :: "string option"
  lan_ip :: "string option"
  monitor :: check_pc
  forcer :: force_pc
  woken :: bool
  published :: "net_event list"

definition new_probe :: "probe_config \<Rightarrow> bool \<Rightarrow> probe" where
  "new_probe c f = \<lparr>cfg = c, force_offline = f, is_online = None, consecutive_failures = 0,
     generation = 0, wan_ip = None, lan_ip = None, monitor = Waiting, forcer = Force_Idle,
     woken = False, published = []\<rparr>"

definition online_now :: "probe \<Rightarrow> bool" where
  "online_now p = (is_online p = Some True)"

text \<open>\<open>probe_once\<close>: \<open>answers\<close> tells for each target whether the connection opens.\<close>

definition probe_once :: "(string \<times> int \<Rightarrow> bool) \<Rightarrow> probe \<Rightarrow> bool" where
  "probe_once answers p = (\<not> force_offline p \<and> list_ex answers (targets (cfg p)))"

definition detect_lan_ip :: "string option \<Rightarrow> string option" where
  "detect_lan_ip sock = (case sock of None \<Rightarrow> None
     | Some ip \<Rightarrow> if ip \<noteq> '''' \<and> ip \<noteq> ''0.0.0.0'' then Some ip else None)"

definition detect_wan_ip :: "string option \<Rightarrow> string option" where
  "detect_wan_ip reply = (case reply of None \<Rightarrow> None | Some ip \<Rightarrow> if ip \<noteq> '''' then Some ip else None)"

text \<open>The locked part of \<open>_set_state\<close>: the new state and the event still to be published.\<close>

definition set_state ::
  "bool \<Rightarrow> nat option \<Rightarrow> string option \<Rightarrow> string option \<Rightarrow> probe \<Rightarrow> probe \<times> net_event option" where
  "set_state on expected lan wan p =
     (let l = detect_lan_ip lan; w = (if on then detect_wan_ip wan else None)
      in if expected \<noteq> None \<and> expected \<noteq> Some (generation p) then (p, None)
         else if on \<and> force_offline p then (p, None)
         else if is_online p = Some on then (p, None)
         else (p\<lparr>is_online := Some on, lan_ip := l, wan_ip := w\<rparr>,
               Some (if on then Internet_Online w l else Internet_Offline w l)))"

definition publish_event :: "net_event \<Rightarrow> probe \<Rightarrow> probe" where
  "publish_event e p = p\<lparr>published := published p @ [e]\<rparr>"

definition probe_start ::
  "(string \<times> int \<Rightarrow> bool) \<Rightarrow> string option \<Rightarrow> string option \<Rightarrow> probe \<Rightarrow> probe" where
  "probe_start answers lan wan p =
     (case set_state (probe_once answers p) None lan wan p of
        (p', None) \<Rightarrow> p'\<lparr>monitor := Waiting\<rparr>
      | (p', Some e) \<Rightarrow> publish_event e p'\<lparr>monitor := Waiting\<rparr>)"

text \<open>\<open>set_force_offline\<close>: the locked part.\<close>

definition set_force :: "bool \<Rightarrow> probe \<Rightarrow> probe" where
  "set_force en p =
     (let g = Suc (generation p); p1 = p\<lparr>force_offline := en, consecutive_failures := 0, generation := g\<rparr>
      in if en then p1\<lparr>forcer := Force_Apply g\<rparr> else p1\<lparr>woken := True\<rparr>)"

text \<open>The locked decision of \<open>_run_check\<close>.\<close>

definition decide :: "nat \<Rightarrow> bool \<Rightarrow> probe \<Rightarrow> probe" where
  "decide gen reachable p =
     (if gen \<noteq> generation p then p\<lparr>monitor := Waiting\<rparr>
      else
        let was_online = online_now p;
            consecutive = (if reachable then 0 else consecutive_failures p + 1);
            p1 = p\<lparr>consecutive_failures := consecutive\<rparr>
        in if reachable \<and> \<not> force_offline p \<and> \<not> was_online
           then p1\<lparr>monitor := Applying gen True\<rparr>
           else if \<not> reachable \<and> was_online \<and> offline_threshold (cfg p) \<le> consecutive
           then p1\<lparr>monitor := Applying gen False\<rparr>
           else p1\<lparr>monitor := Waiting\<rparr>)"

datatype probe_step =
    Begin_Check
  | Probe_Result "string \<times> int \<Rightarrow> bool"
  | Apply_Check "string option" "string option"
  | Publish_Check
  | Set_Force bool
  | Apply_Force "string option"
  | Publish_Force

definition settle :: "(net_event \<Rightarrow> probe \<Rightarrow> probe) \<Rightarrow> (probe \<Rightarrow> probe) \<Rightarrow> probe \<times> net_event option \<Rightarrow> probe" where
  "settle pending idle r = (case r of (p, None) \<Rightarrow> idle p | (p, Some e) \<Rightarrow> pending e p)"

fun probe_act :: "probe_step \<Rightarrow> probe \<Rightarrow> probe option" where
  "probe_act Begin_Check p =
     (case monitor p of
        Waiting \<Rightarrow> Some (p\<lparr>monitor := Probing (generation p), woken := False\<rparr>)
      | _ \<Rightarrow> None)"
| "probe_act (Probe_Result answers) p =
     (case monitor p of
        Probing gen \<Rightarrow> Some (decide gen (probe_once answers p) p)
      | _ \<Rightarrow> None)"
| "probe_act (Apply_Check lan wan) p =
     (case monitor p of
        Applying gen on \<Rightarrow>
          Some (settle (\<lambda>e q. q\<lparr>monitor := Publishing e\<rparr>) (\<lambda>q. q\<lparr>monitor := Waiting\<rparr>)
                 (set_state on (Some gen) lan wan p))
      | _ \<Rightarrow> None)"
| "probe_act Publish_Check p =
     (case monitor p of
        Publishing e \<Rightarrow> Some ((publish_event e p)\<lparr>monitor := Waiting\<rparr>)
      | _ \<Rightarrow> None)"
| "probe_act (Set_Force en) p =
     (case forcer p of Force_Idle \<Rightarrow> Some (set_force en p) | _ \<Rightarrow> None)"
| "probe_act (Apply_Force lan) p =
     (case forcer p of
        Force_Apply gen \<Rightarrow>
          Some (settle (\<lambda>e q. q\<lparr>forcer := Force_Publish e\<rparr>) (\<lambda>q. q\<lparr>forcer := Force_Idle\<rparr>)
                 (set_state False (Some gen) lan None p))
      | _ \<Rightarrow> None)"
| "probe_act Publish_Force p =
     (case forcer p of
        Force_Publish e \<Rightarrow> Some ((publish_event e p)\<lparr>forcer := Force_Idle\<rparr>)
      | _ \<Rightarrow> None)"

primrec probe_run :: "probe_step list \<Rightarrow> probe \<Rightarrow> probe option" where
  "probe_run [] p = Some p"
| "probe_run (s # ss) p = (case probe_act s p of None \<Rightarrow> None | Some p' \<Rightarrow> probe_run ss p')"

subsection \<open>Forced offline wins\<close>






definition demo_cfg :: probe_config where
  "demo_cfg = make_config 30 3 3 [(''h'', 53)]"

definition race :: "probe_step list" where
  "race = [Begin_Check, Probe_Result (\<lambda>_. True), Apply_Check None (Some ''w''), Set_Force True,
     Apply_Force None, Publish_Force]"

lemmas probe_eval = race_def demo_cfg_def new_probe_def make_config_def probe_once_def decide_def
  online_now_def settle_def set_state_def set_force_def publish_event_def detect_lan_ip_def
  detect_wan_ip_def Let_def


text \<open>The event a subscriber hears last can contradict the state: the check publishes after it has
  released the lock, so a forced transition that comes in between publishes first, and the last
  event says online while the probe is forced offline.\<close>

theorem late_online_event:
  "case probe_run (race @ [Publish_Check]) (new_probe demo_cfg False) of
     None \<Rightarrow> False
   | Some p \<Rightarrow> force_offline p \<and> \<not> online_now p \<and>
       published p = [Internet_Offline None None, Internet_Online (Some ''w'') None]"
  by (simp add: probe_eval)

subsection \<open>Hysteresis\<close>

text \<open>One undisturbed check with result \<open>r\<close>.\<close>

definition full_check :: "bool \<Rightarrow> probe \<Rightarrow> probe" where
  "full_check r p =
     (let p1 = decide (generation p) (r \<and> \<not> force_offline p) (p\<lparr>monitor := Probing (generation p)\<rparr>)
      in case monitor p1 of
           Applying g on \<Rightarrow>
             settle (\<lambda>e q. (publish_event e q)\<lparr>monitor := Waiting\<rparr>) (\<lambda>q. q\<lparr>monitor := Waiting\<rparr>)
               (set_state on (Some g) None None p1)
         | _ \<Rightarrow> p1)"

definition checks :: "bool list \<Rightarrow> probe \<Rightarrow> probe" where
  "checks rs p = fold full_check rs p"

text \<open>The specification: online unless the last \<open>n\<close> results, at least, all failed.\<close>

definition trailing_failures :: "bool list \<Rightarrow> nat" where
  "trailing_failures rs = length (takeWhile Not (rev rs))"

lemma full_check_eq:
  assumes "\<not> force_offline p"
  shows "is_online (full_check r p) =
      (if r then Some True
       else if online_now p \<and> offline_threshold (cfg p) \<le> consecutive_failures p + 1 then Some False
       else is_online p) \<and>
    consecutive_failures (full_check r p) = (if r then 0 else consecutive_failures p + 1) \<and>
    force_offline (full_check r p) = force_offline p \<and> cfg (full_check r p) = cfg p \<and>
    published (full_check r p) = published p @
      (if r \<and> \<not> online_now p then [Internet_Online None None]
       else if \<not> r \<and> online_now p \<and> offline_threshold (cfg p) \<le> consecutive_failures p + 1
       then [Internet_Offline None None] else [])"
  using assms
  by (auto simp: full_check_def decide_def settle_def set_state_def publish_event_def online_now_def
      detect_lan_ip_def detect_wan_ip_def Let_def)

lemma checks_snoc: "checks (rs @ [r]) p = full_check r (checks rs p)"
  by (simp add: checks_def)

lemma trailing_snoc:
  "trailing_failures (rs @ [r]) = (if r then 0 else Suc (trailing_failures rs))"
  by (simp add: trailing_failures_def)

lemma checks_invariant:
  assumes "\<not> force_offline p" "online_now p" "consecutive_failures p = 0"
    and "1 \<le> offline_threshold (cfg p)"
  shows "\<not> force_offline (checks rs p) \<and> cfg (checks rs p) = cfg p \<and>
    consecutive_failures (checks rs p) = int (trailing_failures rs) \<and>
    is_online (checks rs p) = Some (int (trailing_failures rs) < offline_threshold (cfg p))"
proof (induction rs rule: rev_induct)
  case Nil
  then show ?case using assms by (simp add: checks_def trailing_failures_def online_now_def)
next
  case (snoc r rs)
  let ?q = "checks rs p"
  have nf: "\<not> force_offline ?q" using snoc by simp
  show ?case
    using full_check_eq [OF nf, of r] snoc assms(4)
    by (cases r) (auto simp: checks_snoc trailing_snoc online_now_def)
qed

text \<open>Hysteresis: from an online state the probe reports offline exactly when the latest results are
  failures at least \<open>offline_threshold\<close> in number, one success brings it back, and the validated
  threshold is at least one, so the rule is never vacuous.\<close>

theorem hysteresis:
  assumes "\<not> force_offline p" "online_now p" "consecutive_failures p = 0"
    and "cfg p = make_config i t n ts"
  shows "online_now (checks rs p) \<longleftrightarrow> int (trailing_failures rs) < max 1 n"
  using checks_invariant [OF assms(1-3), of rs] assms(4)
  by (simp add: make_config_def online_now_def)

definition up_probe :: probe where
  "up_probe = (new_probe demo_cfg False)\<lparr>is_online := Some True\<rparr>"

theorem hysteresis_witness:
  "online_now (checks [False, False] up_probe) \<and> \<not> online_now (checks [False, False, False] up_probe) \<and>
   online_now (checks [False, False, False, True] up_probe)"
proof -
  have u: "\<not> force_offline up_probe" "online_now up_probe" "consecutive_failures up_probe = 0"
    "cfg up_probe = make_config 30 3 3 [(''h'', 53)]"
    by (simp_all add: up_probe_def new_probe_def online_now_def demo_cfg_def)
  show ?thesis
    using hysteresis [OF u, of "[False, False]"] hysteresis [OF u, of "[False, False, False]"]
      hysteresis [OF u, of "[False, False, False, True]"]
    by (simp add: trailing_failures_def)
qed

end
