(* ===== verification/Mesh_Bridge.thy ===== *)
theory Mesh_Bridge
  imports Window_Limits Mtu_Text
begin

text \<open>
  \<open>builtin_plugins/mesh_bridge.py\<close>: the bridge that relays messages between the Meshtastic
  and the MeshCore network.  Message texts and tags are code point lists, identifiers are
  strings.  Regular expressions given in the configuration, Unicode's \<open>isalnum\<close>, Python's
  string hash and the outcome of a send are parameters; the built-in patterns are written out.
  One relay sees one reading of the clock.
\<close>

subsection \<open>Texts\<close>

text \<open>\<open>str.isspace\<close>, which is also what \<open>\s\<close> matches and \<open>strip\<close> removes.\<close>

definition py_space :: "codepoint \<Rightarrow> bool" where
  "py_space c \<longleftrightarrow> 9 \<le> c \<and> c \<le> 13 \<or> 28 \<le> c \<and> c \<le> 32 \<or> c = 133 \<or> c = 160 \<or> c = 5760 \<or>
     8192 \<le> c \<and> c \<le> 8202 \<or> c = 8232 \<or> c = 8233 \<or> c = 8239 \<or> c = 8287 \<or> c = 12288"

definition lstrip :: "pystr \<Rightarrow> pystr" where
  "lstrip s = dropWhile py_space s"

definition strip :: "pystr \<Rightarrow> pystr" where
  "strip s = rev (dropWhile py_space (rev (lstrip s)))"

definition tapback_max_len :: nat where
  "tapback_max_len = 6"

definition looks_like_tapback :: "(codepoint \<Rightarrow> bool) \<Rightarrow> pystr \<Rightarrow> bool" where
  "looks_like_tapback alnum text =
     (let s = strip text
      in if s = [] \<or> tapback_max_len < length s then False else \<not> list_ex alnum s)"

text \<open>Case folding of the letters a pattern with \<open>re.IGNORECASE\<close> can meet, with the four
  non-ASCII characters that fold to ASCII.\<close>

definition fold_case :: "codepoint \<Rightarrow> codepoint" where
  "fold_case c =
     (if 65 \<le> c \<and> c \<le> 90 then c + 32
      else if c = 304 \<or> c = 305 then 105 else if c = 383 then 115 else if c = 8490 then 107 else c)"

fun has_prefix :: "pystr \<Rightarrow> pystr \<Rightarrow> bool" where
  "has_prefix [] s = True"
| "has_prefix (p # ps) [] = False"
| "has_prefix (p # ps) (c # s) = (p = c \<and> has_prefix ps s)"

fun occurs_in :: "pystr \<Rightarrow> pystr \<Rightarrow> bool" where
  "occurs_in p [] = (p = [])"
| "occurs_in p (c # s) = (has_prefix p (c # s) \<or> occurs_in p s)"

definition position_share :: "pystr \<Rightarrow> bool" where
  "position_share s =
     (let t = map fold_case s
      in occurs_in (ascii ''has shared their position'') t \<or>
         occurs_in (ascii ''has shared their location'') t)"

text \<open>The default loop pattern \<open>^\[via (Mesh|Core)\]\s\<close>.\<close>

definition default_loop_match :: "pystr \<Rightarrow> bool" where
  "default_loop_match s \<longleftrightarrow>
     (has_prefix (ascii ''[via Mesh]'') s \<or> has_prefix (ascii ''[via Core]'') s) \<and>
     10 < length s \<and> py_space (s ! 10)"

definition lower_id :: "string \<Rightarrow> string" where
  "lower_id s = map (\<lambda>c. if 65 \<le> (of_char c :: nat) \<and> (of_char c :: nat) \<le> 90
     then char_of ((of_char c :: nat) + 32) else c) s"

subsection \<open>Messages\<close>

datatype network = Mesh | Core
datatype msg_type = Broadcast | Direct | Other_Type

record message =
  from_id :: string
  from_name :: "pystr option"
  body :: pystr
  channel :: "int option"
  msg_type :: msg_type
  to_id :: string

record mesh_event =
  me_from_id :: "string option"
  me_from_name :: "pystr option"
  me_text :: "pystr option"
  me_channel :: "int option"
  me_is_broadcast :: bool
  me_to_id :: "string option"

record core_event =
  ce_from_key :: "string option"
  ce_from_name :: "pystr option"
  ce_text :: "pystr option"
  ce_channel :: "int option"
  ce_msg_type :: "msg_type option"

definition or_empty :: "'a list option \<Rightarrow> 'a list" where
  "or_empty x = (case x of None \<Rightarrow> [] | Some s \<Rightarrow> s)"

definition normalize_mesh_event :: "mesh_event \<Rightarrow> message" where
  "normalize_mesh_event e = \<lparr>from_id = or_empty (me_from_id e), from_name = me_from_name e,
     body = or_empty (me_text e), channel = me_channel e,
     msg_type = (if me_is_broadcast e then Broadcast else Direct), to_id = or_empty (me_to_id e)\<rparr>"

definition normalize_core_event :: "core_event \<Rightarrow> message" where
  "normalize_core_event e = \<lparr>from_id = or_empty (ce_from_key e), from_name = ce_from_name e,
     body = or_empty (ce_text e), channel = ce_channel e,
     msg_type = (case ce_msg_type e of None \<Rightarrow> Direct | Some t \<Rightarrow> t), to_id = ''''\<rparr>"

definition select_sender_label :: "pystr option \<Rightarrow> string \<Rightarrow> pystr" where
  "select_sender_label name fid =
     (if or_empty name \<noteq> [] then or_empty name
      else if fid \<noteq> [] then ascii (take 12 fid)
      else ascii ''?'')"

subsection \<open>Configuration\<close>

datatype regex = Bad_Regex | Regex "pystr \<Rightarrow> bool"

record raw_pair =
  raw_mesh :: int
  raw_core :: int
  raw_direction :: string
  raw_enabled :: bool
  raw_allow :: "regex option"
  raw_deny :: "regex option"

definition hex_digit :: "char \<Rightarrow> bool" where
  "hex_digit c = (let n = (of_char c :: nat)
     in 48 \<le> n \<and> n \<le> 57 \<or> 65 \<le> n \<and> n \<le> 70 \<or> 97 \<le> n \<and> n \<le> 102)"

text \<open>The patterns end in \<open>$\<close>, which also matches before a final newline.\<close>

definition chop_newline :: "string \<Rightarrow> string" where
  "chop_newline s = (if s \<noteq> [] \<and> last s = CHR 0x0A then butlast s else s)"

definition valid_mesh_id :: "string \<Rightarrow> bool" where
  "valid_mesh_id s = (case chop_newline s of
     [] \<Rightarrow> False | c # h \<Rightarrow> c = CHR ''!'' \<and> length h = 8 \<and> list_all hex_digit h)"

definition valid_core_id :: "string \<Rightarrow> bool" where
  "valid_core_id s = (let h = chop_newline s in 12 \<le> length h \<and> list_all hex_digit h)"

definition directions :: "string list" where
  "directions = [''both'', ''mesh_to_core'', ''core_to_mesh'']"

definition valid_pair :: "raw_pair \<Rightarrow> bool" where
  "valid_pair p \<longleftrightarrow> 0 \<le> raw_mesh p \<and> raw_mesh p \<le> 7 \<and> 0 \<le> raw_core p \<and>
     raw_direction p \<in> set directions \<and> raw_allow p \<noteq> Some Bad_Regex \<and> raw_deny p \<noteq> Some Bad_Regex"

definition validate_config ::
  "raw_pair list \<Rightarrow> (string \<times> string) list \<Rightarrow> regex option \<Rightarrow> py_error + unit" where
  "validate_config pairs dms loop =
     (if \<not> list_all valid_pair pairs then Inl ValueError
      else if \<not> list_all (\<lambda>(m, c). valid_mesh_id m \<and> valid_core_id c) dms then Inl ValueError
      else if loop = Some Bad_Regex then Inl ValueError
      else Inr ())"

record pair =
  pair_mesh :: int
  pair_core :: int
  pair_direction :: string
  pair_allow :: "(pystr \<Rightarrow> bool) option"
  pair_deny :: "(pystr \<Rightarrow> bool) option"

definition compile_re :: "regex option \<Rightarrow> (pystr \<Rightarrow> bool) option" where
  "compile_re r = (case r of Some (Regex f) \<Rightarrow> Some f | _ \<Rightarrow> None)"

definition compile_pair :: "raw_pair \<Rightarrow> pair" where
  "compile_pair p = \<lparr>pair_mesh = raw_mesh p, pair_core = raw_core p,
     pair_direction = raw_direction p, pair_allow = compile_re (raw_allow p),
     pair_deny = compile_re (raw_deny p)\<rparr>"

fun add_pairs ::
  "raw_pair list \<Rightarrow> (int, pair) pydict \<Rightarrow> (int, pair) pydict \<Rightarrow> (int, pair) pydict \<times> (int, pair) pydict"
where
  "add_pairs [] m2c c2m = (m2c, c2m)"
| "add_pairs (p # ps) m2c c2m =
     (if \<not> raw_enabled p then add_pairs ps m2c c2m
      else
        add_pairs ps
          (if raw_direction p \<in> {''both'', ''mesh_to_core''}
           then AList.update (raw_mesh p) (compile_pair p) m2c else m2c)
          (if raw_direction p \<in> {''both'', ''core_to_mesh''}
           then AList.update (raw_core p) (compile_pair p) c2m else c2m))"

fun add_dms ::
  "(string \<times> string) list \<Rightarrow> (string, string) pydict \<Rightarrow> (string, string) pydict \<Rightarrow>
   (string, string) pydict \<times> (string, string) pydict" where
  "add_dms [] m2c c2m = (m2c, c2m)"
| "add_dms ((m, c) # ds) m2c c2m =
     add_dms ds (AList.update m c m2c) (AList.update (lower_id c) m c2m)"

definition meshtastic_mtu :: int where
  "meshtastic_mtu = 233"

definition meshcore_mtu :: int where
  "meshcore_mtu = 240"

definition default_pairs :: "raw_pair list" where
  "default_pairs = [\<lparr>raw_mesh = 0, raw_core = 0, raw_direction = ''both'', raw_enabled = True,
     raw_allow = None, raw_deny = None\<rparr>]"

record config =
  tag_mesh :: pystr
  tag_core :: pystr
  mesh_mtu :: int
  core_mtu :: int
  loop_re :: "pystr \<Rightarrow> bool"
  dedup_ttl :: real
  dedup_max :: int
  bridge_dms :: bool
  dm_mesh_to_core :: "(string, string) pydict"
  dm_core_to_mesh :: "(string, string) pydict"
  mesh_to_core :: "(int, pair) pydict"
  core_to_mesh :: "(int, pair) pydict"
  filter_position_shares :: bool
  filter_tapbacks :: bool
  auto_pause_threshold :: int
  startup_grace :: real
  started_at :: time

text \<open>The settings \<open>start\<close> builds from a configuration that names only pairs and direct
  messages.\<close>

definition default_config :: "raw_pair list option \<Rightarrow> (string \<times> string) list \<Rightarrow> bool \<Rightarrow> time \<Rightarrow> config" where
  "default_config pairs dms bridge now =
     (let (m2c, c2m) = add_pairs (case pairs of None \<Rightarrow> default_pairs | Some ps \<Rightarrow> ps) [] [];
          (dm2c, dc2m) = add_dms dms [] []
      in \<lparr>tag_mesh = ascii ''[via Mesh]'', tag_core = ascii ''[via Core]'', mesh_mtu = meshtastic_mtu,
          core_mtu = meshcore_mtu, loop_re = default_loop_match, dedup_ttl = 60, dedup_max = 256,
          bridge_dms = bridge, dm_mesh_to_core = dm2c, dm_core_to_mesh = dc2m,
          mesh_to_core = m2c, core_to_mesh = c2m, filter_position_shares = True,
          filter_tapbacks = True, auto_pause_threshold = 20, startup_grace = 30,
          started_at = now\<rparr>)"

subsection \<open>State\<close>

datatype stat =
    Relayed_Mesh_To_Core | Relayed_Core_To_Mesh | Dropped_Paused | Dropped_Loop | Dropped_Dedup
  | Dropped_No_Pair | Dropped_Filter | Dropped_Send_Failed | Dropped_Empty
  | Dropped_Startup_Grace | Dropped_Position_Share | Dropped_Tapback

definition all_stats :: "stat list" where
  "all_stats = [Relayed_Mesh_To_Core, Relayed_Core_To_Mesh, Dropped_Paused, Dropped_Loop,
     Dropped_Dedup, Dropped_No_Pair, Dropped_Filter, Dropped_Send_Failed, Dropped_Empty,
     Dropped_Startup_Grace, Dropped_Position_Share, Dropped_Tapback]"

type_synonym dedup_key = "network \<times> string \<times> int"

record saved_state =
  sv_running :: "bool option"
  sv_reason :: "string option"
  sv_at :: "time option"

datatype state_doc = Missing | Malformed | Not_An_Object | Saved_Doc saved_state

record bridge =
  conf :: config
  dedup_cache :: "(dedup_key, time) pydict"
  recent_relays :: "time list"
  running :: bool
  auto_paused_reason :: "string option"
  auto_paused_at :: "time option"
  stats :: "stat \<Rightarrow> nat"
  state_doc :: state_doc

definition load_state :: "bool \<Rightarrow> bridge \<Rightarrow> py_error + bridge" where
  "load_state default_running b =
     (case state_doc b of
        Missing \<Rightarrow> Inr (b\<lparr>running := default_running\<rparr>)
      | Malformed \<Rightarrow> Inr (b\<lparr>running := default_running\<rparr>)
      | Not_An_Object \<Rightarrow> Inl AttributeError
      | Saved_Doc s \<Rightarrow>
          Inr (b\<lparr>running := (case sv_running s of None \<Rightarrow> default_running | Some r \<Rightarrow> r),
                 auto_paused_reason := sv_reason s, auto_paused_at := sv_at s\<rparr>))"

definition start_bridge :: "config \<Rightarrow> state_doc \<Rightarrow> bool \<Rightarrow> py_error + bridge" where
  "start_bridge c doc default_running =
     load_state default_running
       \<lparr>conf = c, dedup_cache = [], recent_relays = [], running = False, auto_paused_reason = None,
        auto_paused_at = None, stats = (\<lambda>_. 0), state_doc = doc\<rparr>"

text \<open>\<open>_persist_state\<close> keeps the old file when the write fails.\<close>

definition persist_state :: "bool \<Rightarrow> bridge \<Rightarrow> bridge" where
  "persist_state ok b =
     (if ok then b\<lparr>state_doc := Saved_Doc \<lparr>sv_running = Some (running b),
        sv_reason = auto_paused_reason b, sv_at = auto_paused_at b\<rparr>\<rparr> else b)"

definition set_running :: "bool \<Rightarrow> string option \<Rightarrow> time \<Rightarrow> bool \<Rightarrow> bridge \<Rightarrow> bridge" where
  "set_running run reason wall ok b =
     (let prev = running b;
          b1 = b\<lparr>running := run\<rparr>;
          b2 = (if run then b1\<lparr>auto_paused_reason := None, auto_paused_at := None, recent_relays := []\<rparr>
                else if or_empty reason \<noteq> '''' then
                  b1\<lparr>auto_paused_reason := reason, auto_paused_at := Some wall\<rparr>
                else b1)
      in if prev \<noteq> run then persist_state ok b2 else b2)"

definition inc_stat :: "stat \<Rightarrow> bridge \<Rightarrow> bridge" where
  "inc_stat k b = b\<lparr>stats := (stats b)(k := Suc (stats b k))\<rparr>"

subsection \<open>Deduplication\<close>

definition evict :: "config \<Rightarrow> time \<Rightarrow> (dedup_key, time) pydict \<Rightarrow> (dedup_key, time) pydict" where
  "evict c now d =
     (if dedup_max c < int (length d) then
        let d1 = filter (\<lambda>(_, v). now - dedup_ttl c < v) d
        in if dedup_max c < int (length d1)
           then drop (nat (int (length d1) - dedup_max c)) d1 else d1
      else d)"

definition dedup_record :: "dedup_key \<Rightarrow> time \<Rightarrow> bridge \<Rightarrow> bridge" where
  "dedup_record k now b =
     b\<lparr>dedup_cache := evict (conf b) now (AList.update k now (dedup_cache b))\<rparr>"

definition dedup_check_and_record :: "dedup_key \<Rightarrow> time \<Rightarrow> bridge \<Rightarrow> bridge \<times> bool" where
  "dedup_check_and_record k now b =
     (case map_of (dedup_cache b) k of
        Some ts \<Rightarrow> if now - ts \<le> dedup_ttl (conf b) then (b, True) else (dedup_record k now b, False)
      | None \<Rightarrow> (dedup_record k now b, False))"

subsection \<open>Circuit breaker\<close>

definition breaker_window :: real where
  "breaker_window = 60"

definition deque_maxlen :: nat where
  "deque_maxlen = 10000"

definition check_circuit_breaker :: "time \<Rightarrow> time \<Rightarrow> bool \<Rightarrow> bridge \<Rightarrow> bridge" where
  "check_circuit_breaker now wall ok b =
     (if auto_pause_threshold (conf b) \<le> 0 then b
      else
        let all = recent_relays b @ [now];
            bounded = drop (length all - deque_maxlen) all;
            kept = dropWhile (\<lambda>t. t < now - breaker_window) bounded;
            b1 = b\<lparr>recent_relays := kept\<rparr>
        in if auto_pause_threshold (conf b) < int (length kept)
           then set_running False (Some ''rate_limit'') wall ok b1 else b1)"

subsection \<open>Targets\<close>

datatype target = No_Target | Everyone pair | Someone string

definition resolve_broadcast_target :: "config \<Rightarrow> network \<Rightarrow> int option \<Rightarrow> target" where
  "resolve_broadcast_target c origin ch =
     (case ch of
        None \<Rightarrow> No_Target
      | Some n \<Rightarrow>
          (case map_of (if origin = Mesh then mesh_to_core c else core_to_mesh c) n of
             None \<Rightarrow> No_Target | Some p \<Rightarrow> Everyone p))"

definition resolve_dm_target :: "config \<Rightarrow> network \<Rightarrow> string \<Rightarrow> target" where
  "resolve_dm_target c origin to =
     (if to = '''' then No_Target
      else case (if origin = Mesh then map_of (dm_mesh_to_core c) to
                 else map_of (dm_core_to_mesh c) (lower_id to)) of
             None \<Rightarrow> No_Target
           | Some d \<Rightarrow> if d = '''' then No_Target else Someone d)"

definition passes :: "(pystr \<Rightarrow> bool) option \<Rightarrow> (pystr \<Rightarrow> bool) option \<Rightarrow> pystr \<Rightarrow> bool" where
  "passes allow deny s \<longleftrightarrow>
     (case deny of None \<Rightarrow> True | Some f \<Rightarrow> \<not> f s) \<and> (case allow of None \<Rightarrow> True | Some f \<Rightarrow> f s)"

definition target_passes :: "target \<Rightarrow> pystr \<Rightarrow> bool" where
  "target_passes t s = (case t of Everyone p \<Rightarrow> passes (pair_allow p) (pair_deny p) s | _ \<Rightarrow> True)"

subsection \<open>Dispatch\<close>

text \<open>What is handed to the hub, or to the gateway when no hub is ready.\<close>

record request =
  rq_network :: network
  rq_text :: pystr
  rq_destination :: "string option"
  rq_channel :: "int option"
  rq_lora :: bool

datatype plugins = Hub_Ready | Gateway_Only | Nothing_Ready

definition dispatch ::
  "plugins \<Rightarrow> (request \<Rightarrow> bool) \<Rightarrow> network \<Rightarrow> pystr \<Rightarrow> target \<Rightarrow> int option \<Rightarrow> request option \<times> bool" where
  "dispatch pl send net tx t ch =
     (let dest = (case t of Someone d \<Rightarrow> Some d | _ \<Rightarrow> None) in
      case pl of
        Hub_Ready \<Rightarrow>
          let r = \<lparr>rq_network = net, rq_text = tx, rq_destination = dest,
                   rq_channel = (if dest = None then ch else None), rq_lora = (net = Mesh)\<rparr>
          in (Some r, send r)
      | Gateway_Only \<Rightarrow>
          let r = \<lparr>rq_network = net, rq_text = tx, rq_destination = dest, rq_channel = ch,
                   rq_lora = False\<rparr>
          in (Some r, send r)
      | Nothing_Ready \<Rightarrow> (None, False))"

subsection \<open>The relay pipeline\<close>

record relay_env =
  alnum :: "codepoint \<Rightarrow> bool"
  str_hash :: "pystr \<Rightarrow> int"
  clock :: time
  wall_clock :: time
  disk_ok :: bool
  ready :: plugins
  sends :: "request \<Rightarrow> bool"

definition other_net :: "network \<Rightarrow> network" where
  "other_net n = (case n of Mesh \<Rightarrow> Core | Core \<Rightarrow> Mesh)"

definition dedup_key_of :: "relay_env \<Rightarrow> network \<Rightarrow> message \<Rightarrow> dedup_key" where
  "dedup_key_of e origin m = (origin, lower_id (from_id m), str_hash e (body m))"

definition target_of :: "config \<Rightarrow> network \<Rightarrow> message \<Rightarrow> target" where
  "target_of c origin m =
     (case msg_type m of
        Broadcast \<Rightarrow> resolve_broadcast_target c origin (channel m)
      | Direct \<Rightarrow> if bridge_dms c then resolve_dm_target c origin (to_id m) else No_Target
      | Other_Type \<Rightarrow> No_Target)"

definition target_channel :: "network \<Rightarrow> message \<Rightarrow> target \<Rightarrow> int option" where
  "target_channel origin m t =
     (case t of
        Everyone p \<Rightarrow> Some (if origin = Mesh then pair_core p else pair_mesh p)
      | _ \<Rightarrow> channel m)"

definition attribution :: "config \<Rightarrow> network \<Rightarrow> message \<Rightarrow> pystr" where
  "attribution c origin m =
     (if origin = Mesh then tag_mesh c else tag_core c) @ ascii '' '' @
     select_sender_label (from_name m) (from_id m) @ ascii '': ''"

definition attributed :: "config \<Rightarrow> network \<Rightarrow> message \<Rightarrow> py_error + pystr" where
  "attributed c origin m =
     truncate_for_mtu (attribution c origin m) (body m)
       (if other_net origin = Mesh then mesh_mtu c else core_mtu c)"

definition in_grace :: "config \<Rightarrow> time \<Rightarrow> bool" where
  "in_grace c now \<longleftrightarrow> 0 < startup_grace c \<and> now - started_at c < startup_grace c"

text \<open>The gates before the dedup cache, and those after it.\<close>

definition early_drop :: "relay_env \<Rightarrow> message \<Rightarrow> bridge \<Rightarrow> stat option" where
  "early_drop e m b =
     (if in_grace (conf b) (clock e) then Some Dropped_Startup_Grace
      else if \<not> running b then Some Dropped_Paused
      else if body m = [] then Some Dropped_Empty
      else if loop_re (conf b) (lstrip (body m)) then Some Dropped_Loop
      else None)"

definition late_drop :: "relay_env \<Rightarrow> network \<Rightarrow> message \<Rightarrow> config \<Rightarrow> stat option" where
  "late_drop e origin m c =
     (if filter_position_shares c \<and> position_share (body m) then Some Dropped_Position_Share
      else if filter_tapbacks c \<and> looks_like_tapback (alnum e) (body m) then Some Dropped_Tapback
      else if target_of c origin m = No_Target then Some Dropped_No_Pair
      else if \<not> target_passes (target_of c origin m) (body m) then Some Dropped_Filter
      else None)"

definition relayed :: "network \<Rightarrow> stat" where
  "relayed origin = (if origin = Mesh then Relayed_Mesh_To_Core else Relayed_Core_To_Mesh)"

text \<open>\<open>_relay\<close>: the new state, the request handed out and whether the message was relayed.
  An encoding error in the truncation escapes to the event handler, which logs it.\<close>

definition relay ::
  "relay_env \<Rightarrow> network \<Rightarrow> message \<Rightarrow> bridge \<Rightarrow> bridge \<times> request option \<times> bool" where
  "relay e origin m b =
     (case early_drop e m b of
        Some k \<Rightarrow> (inc_stat k b, None, False)
      | None \<Rightarrow>
          (case dedup_check_and_record (dedup_key_of e origin m) (clock e) b of
             (b1, True) \<Rightarrow> (inc_stat Dropped_Dedup b1, None, False)
           | (b1, False) \<Rightarrow>
               (case late_drop e origin m (conf b1) of
                  Some k \<Rightarrow> (inc_stat k b1, None, False)
                | None \<Rightarrow>
                    let t = target_of (conf b1) origin m in
                    (case attributed (conf b1) origin m of
                       Inl _ \<Rightarrow> (b1, None, False)
                     | Inr tx \<Rightarrow>
                         (case dispatch (ready e) (sends e) (other_net origin) tx t
                                 (target_channel origin m t) of
                            (rq, False) \<Rightarrow> (inc_stat Dropped_Send_Failed b1, rq, False)
                          | (rq, True) \<Rightarrow>
                              let b2 = dedup_record (dedup_key_of e origin m) (clock e) b1;
                                  b3 = dedup_record (dedup_key_of e (other_net origin) m) (clock e) b2;
                                  b4 = inc_stat (relayed origin) b3
                              in (check_circuit_breaker (clock e) (wall_clock e) (disk_ok e) b4,
                                  rq, True))))))"

definition on_mesh_message :: "relay_env \<Rightarrow> mesh_event \<Rightarrow> bridge \<Rightarrow> bridge" where
  "on_mesh_message e ev b = fst (relay e Mesh (normalize_mesh_event ev) b)"

definition on_core_message :: "relay_env \<Rightarrow> core_event \<Rightarrow> bridge \<Rightarrow> bridge" where
  "on_core_message e ev b = fst (relay e Core (normalize_core_event ev) b)"

record bridge_status =
  bs_running :: bool
  bs_reason :: "string option"
  bs_at :: "time option"
  bs_pairs_broadcast :: nat
  bs_pairs_dm :: nat
  bs_bridge_dms :: bool
  bs_stats :: "stat \<Rightarrow> nat"

definition bridge_status :: "bridge \<Rightarrow> bridge_status" where
  "bridge_status b = \<lparr>bs_running = running b, bs_reason = auto_paused_reason b,
     bs_at = auto_paused_at b,
     bs_pairs_broadcast = length (mesh_to_core (conf b)) + length (core_to_mesh (conf b)),
     bs_pairs_dm = length (dm_mesh_to_core (conf b)) + length (dm_core_to_mesh (conf b)),
     bs_bridge_dms = bridge_dms (conf b), bs_stats = stats b\<rparr>"

subsection \<open>How a relay can end\<close>

lemma conf_dedup [simp]:
  "conf (dedup_record k now b) = conf b" "running (dedup_record k now b) = running b"
  "recent_relays (dedup_record k now b) = recent_relays b" "stats (dedup_record k now b) = stats b"
  by (simp_all add: dedup_record_def)

lemma conf_inc_stat [simp]:
  "conf (inc_stat k b) = conf b" "running (inc_stat k b) = running b"
  "recent_relays (inc_stat k b) = recent_relays b" "dedup_cache (inc_stat k b) = dedup_cache b"
  by (simp_all add: inc_stat_def)

lemma check_and_record_cases:
  assumes "dedup_check_and_record k now b = (b1, d)"
  shows "(d \<and> b1 = b) \<or> (\<not> d \<and> b1 = dedup_record k now b)"
  using assms by (auto simp: dedup_check_and_record_def split: option.splits if_splits)

text \<open>The bridge between the relay's success and the breaker.\<close>

definition after_success :: "relay_env \<Rightarrow> network \<Rightarrow> message \<Rightarrow> bridge \<Rightarrow> bridge" where
  "after_success e origin m b =
     inc_stat (relayed origin) (dedup_record (dedup_key_of e (other_net origin) m) (clock e)
       (dedup_record (dedup_key_of e origin m) (clock e)
         (dedup_record (dedup_key_of e origin m) (clock e) b)))"

lemma relay_dropped_early:
  "early_drop e m b = Some k \<Longrightarrow> relay e origin m b = (inc_stat k b, None, False)"
  by (simp add: relay_def)

lemma relay_duplicate:
  "early_drop e m b = None \<Longrightarrow>
   dedup_check_and_record (dedup_key_of e origin m) (clock e) b = (b, True) \<Longrightarrow>
   relay e origin m b = (inc_stat Dropped_Dedup b, None, False)"
  by (simp add: relay_def)

lemma relay_dropped_late:
  "early_drop e m b = None \<Longrightarrow>
   dedup_check_and_record (dedup_key_of e origin m) (clock e) b = (b1, False) \<Longrightarrow>
   late_drop e origin m (conf b) = Some k \<Longrightarrow>
   relay e origin m b = (inc_stat k b1, None, False)"
  using check_and_record_cases by (fastforce simp: relay_def)

lemma relay_sent:
  assumes "early_drop e m b = None"
    and "dedup_check_and_record (dedup_key_of e origin m) (clock e) b = (b1, False)"
    and "late_drop e origin m (conf b) = None" "attributed (conf b) origin m = Inr tx"
    and "dispatch (ready e) (sends e) (other_net origin) tx (target_of (conf b) origin m)
      (target_channel origin m (target_of (conf b) origin m)) = (rq, ok)"
  shows "relay e origin m b =
    (if ok then (check_circuit_breaker (clock e) (wall_clock e) (disk_ok e)
                   (after_success e origin m b), rq, True)
     else (inc_stat Dropped_Send_Failed b1, rq, False))"
proof -
  have "b1 = dedup_record (dedup_key_of e origin m) (clock e) b"
    using check_and_record_cases [OF assms(2)] by simp
  then show ?thesis
    using assms by (cases ok) (simp_all add: relay_def after_success_def)
qed

lemma relay_unencodable:
  "early_drop e m b = None \<Longrightarrow>
   dedup_check_and_record (dedup_key_of e origin m) (clock e) b = (b1, False) \<Longrightarrow>
   late_drop e origin m (conf b) = None \<Longrightarrow> attributed (conf b) origin m = Inl x \<Longrightarrow>
   relay e origin m b = (b1, None, False)"
  using check_and_record_cases by (fastforce simp: relay_def)

text \<open>All the ways a relay can end, for case analysis.\<close>

lemma relay_cases:
  obtains (early) k where "early_drop e m b = Some k"
    "relay e origin m b = (inc_stat k b, None, False)"
  | (dup) "early_drop e m b = None" "relay e origin m b = (inc_stat Dropped_Dedup b, None, False)"
  | (late) k where "early_drop e m b = None" "late_drop e origin m (conf b) = Some k"
      "relay e origin m b =
         (inc_stat k (dedup_record (dedup_key_of e origin m) (clock e) b), None, False)"
  | (unencodable) x where "early_drop e m b = None" "late_drop e origin m (conf b) = None"
      "attributed (conf b) origin m = Inl x"
      "relay e origin m b = (dedup_record (dedup_key_of e origin m) (clock e) b, None, False)"
  | (failed) tx rq where "early_drop e m b = None" "late_drop e origin m (conf b) = None"
      "attributed (conf b) origin m = Inr tx"
      "dispatch (ready e) (sends e) (other_net origin) tx (target_of (conf b) origin m)
        (target_channel origin m (target_of (conf b) origin m)) = (rq, False)"
      "relay e origin m b =
         (inc_stat Dropped_Send_Failed (dedup_record (dedup_key_of e origin m) (clock e) b), rq, False)"
  | (sent) tx rq where "early_drop e m b = None" "late_drop e origin m (conf b) = None"
      "attributed (conf b) origin m = Inr tx"
      "dedup_check_and_record (dedup_key_of e origin m) (clock e) b =
         (dedup_record (dedup_key_of e origin m) (clock e) b, False)"
      "dispatch (ready e) (sends e) (other_net origin) tx (target_of (conf b) origin m)
        (target_channel origin m (target_of (conf b) origin m)) = (rq, True)"
      "relay e origin m b =
         (check_circuit_breaker (clock e) (wall_clock e) (disk_ok e) (after_success e origin m b),
          rq, True)"
proof (cases "early_drop e m b")
  case (Some k)
  then show ?thesis using that(1) relay_dropped_early by blast
next
  case e: None
  obtain b1 d where c: "dedup_check_and_record (dedup_key_of e origin m) (clock e) b = (b1, d)"
    by fastforce
  show ?thesis
  proof (cases d)
    case True
    then have "dedup_check_and_record (dedup_key_of e origin m) (clock e) b = (b, True)"
      using c check_and_record_cases [OF c] by auto
    from that(2) [OF e relay_duplicate [OF e this]] show ?thesis .
  next
    case False
    then have c: "dedup_check_and_record (dedup_key_of e origin m) (clock e) b = (b1, False)"
      and b1: "b1 = dedup_record (dedup_key_of e origin m) (clock e) b"
      using c check_and_record_cases [OF c] by auto
    show ?thesis
    proof (cases "late_drop e origin m (conf b)")
      case (Some k)
      then show ?thesis using that(3) e relay_dropped_late [OF e c Some] b1 by blast
    next
      case l: None
      show ?thesis
      proof (cases "attributed (conf b) origin m")
        case (Inl x)
        then show ?thesis using that(4) e l relay_unencodable [OF e c l Inl] b1 by blast
      next
        case (Inr tx)
        obtain rq ok where d: "dispatch (ready e) (sends e) (other_net origin) tx
            (target_of (conf b) origin m)
            (target_channel origin m (target_of (conf b) origin m)) = (rq, ok)" by fastforce
        note s = relay_sent [OF e c l Inr d]
        show ?thesis
        proof (cases ok)
          case True
          with s d c b1 have "relay e origin m b = (check_circuit_breaker (clock e) (wall_clock e)
              (disk_ok e) (after_success e origin m b), rq, True)" by simp
          with that(6) [OF e l Inr _ _ this] d c b1 True show ?thesis by simp
        next
          case False
          with s b1 have "relay e origin m b = (inc_stat Dropped_Send_Failed
              (dedup_record (dedup_key_of e origin m) (clock e) b), rq, False)" by simp
          with that(5) [OF e l Inr _ this] d False show ?thesis by simp
        qed
      qed
    qed
  qed
qed

subsection \<open>Accounting\<close>

definition total :: "bridge \<Rightarrow> nat" where
  "total b = sum_list (map (stats b) all_stats)"

lemma total_inc: "total (inc_stat k b) = Suc (total b)"
  by (cases k) (simp_all add: total_def all_stats_def inc_stat_def)

lemma total_other [simp]:
  "total (dedup_record k now b) = total b"
  "total (check_circuit_breaker now w ok b) = total b"
  by (auto simp: total_def check_circuit_breaker_def set_running_def persist_state_def Let_def)

definition scalars :: "message \<Rightarrow> bool" where
  "scalars m \<longleftrightarrow> list_all is_scalar (body m) \<and>
     (case from_name m of None \<Rightarrow> True | Some n \<Rightarrow> list_all is_scalar n)"

lemma ascii_scalar: "list_all is_scalar (ascii s)"
proof -
  have "of_char c < (256 :: nat)" for c :: char
    by (metis of_char_mod_256 mod_less_divisor zero_less_numeral)
  then have "of_char c < (55296 :: nat)" for c :: char by (rule less_trans) simp
  then show ?thesis by (simp add: ascii_def is_scalar_def list_all_iff)
qed

lemma attribution_scalar:
  assumes "scalars m" "list_all is_scalar (tag_mesh c)" "list_all is_scalar (tag_core c)"
  shows "list_all is_scalar (attribution c origin m)"
proof -
  have "list_all is_scalar (select_sender_label (from_name m) (from_id m))"
    using assms(1) ascii_scalar
    by (auto simp: select_sender_label_def scalars_def or_empty_def split: option.splits)
  then show ?thesis using assms ascii_scalar by (simp add: attribution_def)
qed

lemma attributed_total:
  assumes "scalars m" "list_all is_scalar (tag_mesh c)" "list_all is_scalar (tag_core c)"
  shows "\<exists>r. attributed c origin m = Inr r"
  using truncate_for_mtu_spec [OF attribution_scalar [OF assms]] assms(1)
  unfolding attributed_def scalars_def by blast

text \<open>Every message the bridge receives is accounted for exactly once: it is either relayed or
  dropped under exactly one reason, so the counters grow by one per message.\<close>

theorem relay_accounts:
  assumes "scalars m" "list_all is_scalar (tag_mesh (conf b))" "list_all is_scalar (tag_core (conf b))"
  shows "total (fst (relay e origin m b)) = Suc (total b) \<and>
    (snd (snd (relay e origin m b)) \<longleftrightarrow>
       stats (fst (relay e origin m b)) (relayed origin) = Suc (stats b (relayed origin)))"
proof (cases rule: relay_cases [of e m b origin])
  case (early k)
  moreover have "k \<noteq> relayed origin"
    using early(1) by (auto simp: early_drop_def relayed_def split: if_splits)
  ultimately show ?thesis by (simp add: total_inc) (simp add: inc_stat_def)
next
  case dup
  then show ?thesis by (simp add: total_inc) (simp add: inc_stat_def relayed_def)
next
  case (late k)
  moreover have "k \<noteq> relayed origin"
    using late(2) by (auto simp: late_drop_def relayed_def split: if_splits)
  ultimately show ?thesis by (simp add: total_inc) (simp add: inc_stat_def)
next
  case (unencodable x)
  then show ?thesis using attributed_total [OF assms, of origin] by auto
next
  case (failed tx rq)
  then show ?thesis by (simp add: total_inc) (simp add: inc_stat_def relayed_def)
next
  case (sent tx rq)
  have "stats (check_circuit_breaker n w ok b') = stats b'" for n w ok b'
    by (auto simp: check_circuit_breaker_def set_running_def persist_state_def Let_def)
  with sent show ?thesis by (simp add: after_success_def total_inc) (simp add: inc_stat_def)
qed

subsection \<open>Routing, size and loops\<close>

text \<open>A message only leaves through a configured route: to the other network, a broadcast on the
  channel its enabled pair names and only when the pair's filters let it pass, a direct message
  only when bridging them is on and to the configured counterpart.\<close>

theorem relay_route:
  assumes "relay e origin m b = (b', Some rq, ok)"
  shows "rq_network rq = other_net origin \<and> running b \<and>
    (case rq_destination rq of
       None \<Rightarrow> (\<exists>n p. msg_type m = Broadcast \<and> channel m = Some n \<and>
         map_of (if origin = Mesh then mesh_to_core (conf b) else core_to_mesh (conf b)) n = Some p \<and>
         rq_channel rq = Some (if origin = Mesh then pair_core p else pair_mesh p) \<and>
         passes (pair_allow p) (pair_deny p) (body m))
     | Some d \<Rightarrow> msg_type m = Direct \<and> bridge_dms (conf b) \<and> to_id m \<noteq> '''' \<and>
         (if origin = Mesh then map_of (dm_mesh_to_core (conf b)) (to_id m)
          else map_of (dm_core_to_mesh (conf b)) (lower_id (to_id m))) = Some d)"
proof -
  let ?t = "target_of (conf b) origin m"
  have route: "rq_network rq = other_net origin \<and> running b \<and>
      (case rq_destination rq of None \<Rightarrow> \<exists>p. ?t = Everyone p \<and> rq_channel rq = target_channel origin m ?t
       | Some d \<Rightarrow> ?t = Someone d)" and late: "late_drop e origin m (conf b) = None"
    using assms
    by (cases rule: relay_cases [of e m b origin];
        auto simp: dispatch_def Let_def early_drop_def late_drop_def
          split: plugins.splits target.splits if_splits)+
  then have tp: "target_passes ?t (body m)" by (auto simp: late_drop_def split: if_splits)
  show ?thesis
    using route tp
    by (cases "rq_destination rq"; cases "msg_type m")
      (auto simp: target_of_def resolve_broadcast_target_def resolve_dm_target_def target_passes_def
        target_channel_def split: option.splits if_splits)
qed

lemma relay_text:
  assumes "relay e origin m b = (b', Some rq, ok)"
  shows "attributed (conf b) origin m = Inr (rq_text rq)"
  using assms
  by (cases rule: relay_cases [of e m b origin])
    (auto simp: dispatch_def Let_def split: plugins.splits)

text \<open>C37. A relayed packet fits the MTU of the network it goes to, in encoded bytes.\<close>

theorem relay_fits_mtu:
  assumes "relay e origin m b = (b', Some rq, ok)" "scalars m"
    and "list_all is_scalar (tag_mesh (conf b))" "list_all is_scalar (tag_core (conf b))"
  shows "int (length (utf8 (rq_text rq))) \<le>
    max 0 (if other_net origin = Mesh then mesh_mtu (conf b) else core_mtu (conf b))"
proof -
  have "list_all is_scalar (body m)" using assms(2) by (simp add: scalars_def)
  from truncate_for_mtu_spec [OF attribution_scalar [OF assms(2-4), of origin] this,
      of "if other_net origin = Mesh then mesh_mtu (conf b) else core_mtu (conf b)"]
    relay_text [OF assms(1)]
  show ?thesis unfolding attributed_def by (elim exE conjE) (simp only: sum.inject)
qed





subsection \<open>Sequences of messages\<close>

primrec relays :: "bridge \<Rightarrow> (relay_env \<times> network \<times> message) list \<Rightarrow> bridge" where
  "relays b [] = b"
| "relays b (ev # evs) = (case ev of (e, origin, m) \<Rightarrow> relays (fst (relay e origin m b)) evs)"

lemma breaker_keeps [simp]:
  "conf (check_circuit_breaker now w ok b) = conf b"
  "dedup_cache (check_circuit_breaker now w ok b) = dedup_cache b"
  by (auto simp: check_circuit_breaker_def set_running_def persist_state_def Let_def)

lemma after_success_conf [simp]: "conf (after_success e origin m b) = conf b"
  by (simp add: after_success_def)

lemma relay_conf: "conf (fst (relay e origin m b)) = conf b"
  by (cases rule: relay_cases [of e m b origin]) auto

text \<open>Without eviction, recording a key only ever adds an entry or makes one newer.\<close>

lemma length_update_le: "length (AList.update k v d) \<le> Suc (length d)"
  by (induction d) auto

lemma dedup_record_room:
  assumes "int (length (dedup_cache b)) < dedup_max (conf b)"
  shows "dedup_cache (dedup_record k now b) = AList.update k now (dedup_cache b)"
    "length (dedup_cache (dedup_record k now b)) \<le> Suc (length (dedup_cache b))"
proof -
  have "int (length (AList.update k now (dedup_cache b))) \<le> dedup_max (conf b)"
    using length_update_le [of k now "dedup_cache b"] assms by linarith
  then show "dedup_cache (dedup_record k now b) = AList.update k now (dedup_cache b)"
    by (simp add: dedup_record_def evict_def)
  then show "length (dedup_cache (dedup_record k now b)) \<le> Suc (length (dedup_cache b))"
    by (simp add: length_update_le)
qed

lemma update_again: "AList.update k v (AList.update k v d) = AList.update k v d"
  by (induction d) auto

lemma dedup_record_again:
  assumes "int (length (dedup_cache b)) < dedup_max (conf b)"
  shows "dedup_record k now (dedup_record k now b) = dedup_record k now b"
proof -
  let ?u = "AList.update k now (dedup_cache b)"
  have "int (length ?u) \<le> dedup_max (conf b)"
    using length_update_le [of k now "dedup_cache b"] assms by linarith
  then show ?thesis by (simp add: dedup_record_def evict_def update_again)
qed

definition seen_since :: "dedup_key \<Rightarrow> time \<Rightarrow> bridge \<Rightarrow> bool" where
  "seen_since k t b = (case map_of (dedup_cache b) k of None \<Rightarrow> False | Some ts \<Rightarrow> t \<le> ts)"

lemma seen_record:
  assumes "int (length (dedup_cache b)) < dedup_max (conf b)" "t \<le> now"
  shows "seen_since k t b \<Longrightarrow> seen_since k t (dedup_record k' now b)"
    "seen_since k t (dedup_record k now b)"
  using assms by (auto simp: seen_since_def dedup_record_room(1) update_conv' split: option.splits)

lemma seen_other [simp]:
  "seen_since k t (inc_stat s b) = seen_since k t b"
  "seen_since k t (check_circuit_breaker now w ok b) = seen_since k t b"
  by (simp_all add: seen_since_def)

lemma after_success_room:
  assumes "int (length (dedup_cache b)) + 2 \<le> dedup_max (conf b)"
  shows "length (dedup_cache (after_success e origin m b)) \<le> length (dedup_cache b) + 2"
    "t \<le> clock e \<Longrightarrow> seen_since k t b \<Longrightarrow> seen_since k t (after_success e origin m b)"
    "t \<le> clock e \<Longrightarrow> seen_since (dedup_key_of e origin' m) t (after_success e origin m b)"
proof -
  let ?k = "dedup_key_of e origin m" and ?k' = "dedup_key_of e (other_net origin) m"
  let ?b1 = "dedup_record ?k (clock e) b"
  have room: "int (length (dedup_cache b)) < dedup_max (conf b)" using assms by simp
  have a: "after_success e origin m b = inc_stat (relayed origin) (dedup_record ?k' (clock e) ?b1)"
    by (simp add: after_success_def dedup_record_again [OF room])
  have l: "length (dedup_cache ?b1) \<le> Suc (length (dedup_cache b))"
    by (rule dedup_record_room(2) [OF room])
  then have room': "int (length (dedup_cache ?b1)) < dedup_max (conf ?b1)" using assms by simp
  show "length (dedup_cache (after_success e origin m b)) \<le> length (dedup_cache b) + 2"
    using l dedup_record_room(2) [OF room', of ?k' "clock e"] by (simp add: a)
  assume t: "t \<le> clock e"
  note kept = seen_record(1) [OF room' t]
  show "seen_since k t b \<Longrightarrow> seen_since k t (after_success e origin m b)"
    unfolding a seen_other by (rule kept [OF seen_record(1) [OF room t]])
  have "origin' = origin \<or> origin' = other_net origin"
    by (cases origin; cases origin') (simp_all add: other_net_def)
  then show "seen_since (dedup_key_of e origin' m) t (after_success e origin m b)"
    unfolding a seen_other
    by (elim disjE)
      (simp only: kept [OF seen_record(2) [OF room t]], simp only: seen_record(2) [OF room' t])
qed

lemma relay_room:
  assumes "int (length (dedup_cache b)) + 2 \<le> dedup_max (conf b)"
  shows "length (dedup_cache (fst (relay e origin m b))) \<le> length (dedup_cache b) + 2 \<and>
    (t \<le> clock e \<longrightarrow> seen_since k t b \<longrightarrow> seen_since k t (fst (relay e origin m b)))"
proof -
  have room: "int (length (dedup_cache b)) < dedup_max (conf b)" using assms by simp
  note len = dedup_record_room(2) [OF room, of "dedup_key_of e origin m" "clock e"]
  show ?thesis
    using after_success_room [OF assms] len seen_record [OF room]
    by (cases rule: relay_cases [of e m b origin]) auto
qed

lemma relays_room:
  assumes "int (length (dedup_cache b)) + 2 * int (length evs) \<le> dedup_max (conf b)"
    and "\<forall>(e, _)\<in>set evs. t \<le> clock e" "seen_since k t b"
  shows "seen_since k t (relays b evs) \<and> conf (relays b evs) = conf b"
  using assms
proof (induction evs arbitrary: b)
  case (Cons ev evs)
  obtain e origin m where ev: "ev = (e, origin, m)" by (cases ev) auto
  let ?b = "fst (relay e origin m b)"
  have "int (length (dedup_cache b)) + 2 \<le> dedup_max (conf b)" using Cons.prems(1) by simp
  note r = relay_room [OF this, where e = e and origin = origin and m = m and t = t and k = k]
  have "int (length (dedup_cache ?b)) + 2 * int (length evs) \<le> dedup_max (conf ?b)"
    using r Cons.prems(1) by (simp add: relay_conf)
  moreover have "seen_since k t ?b" using r Cons.prems(2,3) ev by simp
  ultimately show ?case
    using Cons.IH [of ?b] Cons.prems(2) by (simp add: ev relay_conf)
qed simp

lemma seen_is_dropped:
  assumes "seen_since (dedup_key_of e origin m) t b" "clock e \<le> t + dedup_ttl (conf b)"
  shows "\<exists>k. relay e origin m b = (inc_stat k b, None, False)"
proof (cases "early_drop e m b")
  case None
  have "dedup_check_and_record (dedup_key_of e origin m) (clock e) b = (b, True)"
    using assms by (auto simp: seen_since_def dedup_check_and_record_def split: option.splits)
  then show ?thesis using relay_duplicate [OF None] by blast
qed (use relay_dropped_early in blast)

text \<open>A relayed message is not relayed a second time within the deduplication time, from either
  network and whatever arrives in between, as long as the cache has room for what arrives.\<close>

theorem relayed_at_most_once:
  assumes "relay e origin m b = (b', rq, True)"
    and "int (length (dedup_cache b)) + 2 * (int (length evs) + 1) \<le> dedup_max (conf b)"
    and "\<forall>(e1, _)\<in>set evs. clock e \<le> clock e1"
    and "clock e2 \<le> clock e + dedup_ttl (conf b)"
    and "str_hash e2 (body m2) = str_hash e (body m)" "lower_id (from_id m2) = lower_id (from_id m)"
  shows "\<exists>k. relay e2 origin2 m2 (relays b' evs) = (inc_stat k (relays b' evs), None, False)"
proof -
  have b': "b' = check_circuit_breaker (clock e) (wall_clock e) (disk_ok e) (after_success e origin m b)"
    using assms(1) by (cases rule: relay_cases [of e m b origin]) auto
  have "int (length (dedup_cache b)) + 2 \<le> dedup_max (conf b)" using assms(2) by simp
  note s = after_success_room [OF this, where e = e and origin = origin and m = m]
  have "dedup_key_of e2 origin2 m2 = dedup_key_of e origin2 m"
    using assms(5,6) by (simp add: dedup_key_of_def)
  then have "seen_since (dedup_key_of e2 origin2 m2) (clock e) b'"
    using s(3) [OF order_refl] by (simp add: b')
  moreover have "int (length (dedup_cache b')) + 2 * int (length evs) \<le> dedup_max (conf b')"
    using s(1) assms(2) by (simp add: b')
  ultimately have r: "seen_since (dedup_key_of e2 origin2 m2) (clock e) (relays b' evs)"
    and c: "conf (relays b' evs) = conf b'"
    using relays_room assms(3) by blast+
  have "clock e2 \<le> clock e + dedup_ttl (conf (relays b' evs))"
    using assms(4) by (simp add: c) (simp add: b')
  then show ?thesis by (rule seen_is_dropped [OF r])
qed

subsection \<open>The cache stays bounded\<close>

lemma evict_bound:
  assumes "0 \<le> dedup_max c"
  shows "int (length (evict c now d)) \<le> dedup_max c"
  using assms by (simp add: evict_def Let_def)

lemma dedup_record_bound:
  "0 \<le> dedup_max (conf b) \<Longrightarrow> int (length (dedup_cache (dedup_record k now b))) \<le> dedup_max (conf b)"
  by (simp add: dedup_record_def evict_bound)

lemma relay_bound:
  assumes "0 \<le> dedup_max (conf b)" "int (length (dedup_cache b)) \<le> dedup_max (conf b)"
  shows "int (length (dedup_cache (fst (relay e origin m b)))) \<le> dedup_max (conf b)"
proof -
  have "int (length (dedup_cache (after_success e origin m b))) \<le> dedup_max (conf b)"
    using dedup_record_bound [of "dedup_record (dedup_key_of e origin m) (clock e)
        (dedup_record (dedup_key_of e origin m) (clock e) b)"] assms(1)
    by (simp add: after_success_def)
  then show ?thesis using assms dedup_record_bound
    by (cases rule: relay_cases [of e m b origin]) auto
qed

text \<open>However many messages arrive, the deduplication cache never holds more than its configured
  number of entries.\<close>

theorem dedup_cache_bounded:
  assumes "start_bridge c doc r = Inr b" "0 \<le> dedup_max c"
  shows "int (length (dedup_cache (relays b evs))) \<le> dedup_max c"
proof -
  have "int (length (dedup_cache b)) \<le> dedup_max (conf b)" "conf b = c"
    using assms by (auto simp: start_bridge_def load_state_def split: state_doc.splits)
  moreover have "int (length (dedup_cache (relays b evs))) \<le> dedup_max (conf b)"
    if "int (length (dedup_cache b)) \<le> dedup_max (conf b)" "0 \<le> dedup_max (conf b)" for b
    using that
  proof (induction evs arbitrary: b)
    case (Cons ev evs)
    obtain e origin m where ev: "ev = (e, origin, m)" by (cases ev) auto
    have "int (length (dedup_cache (fst (relay e origin m b)))) \<le> dedup_max (conf b)"
      by (rule relay_bound [OF Cons.prems(2,1)])
    then show ?case using Cons.IH [of "fst (relay e origin m b)"] Cons.prems(2)
      by (simp add: ev relay_conf)
  qed simp
  ultimately show ?thesis using assms(2) by metis
qed

text \<open>Eviction goes by the position an entry got when it was first inserted, not by its time: with
  room for two entries the first message, recorded anew at 61, is thrown out at 62 in favour of
  one recorded at 50, and passes again at 63, within its time to live of 60.\<close>

theorem refreshed_entry_evicted_first:
  "\<exists>b0 b1 b2 b3.
     dedup_cache b0 = [((Mesh, ''a'', 1), 0), ((Mesh, ''b'', 2), 50)] \<and>
     dedup_ttl (conf b0) = 60 \<and> dedup_max (conf b0) = 2 \<and>
     dedup_check_and_record (Mesh, ''a'', 1) 61 b0 = (b1, False) \<and>
     dedup_check_and_record (Mesh, ''c'', 3) 62 b1 = (b2, False) \<and>
     dedup_check_and_record (Mesh, ''a'', 1) 63 b2 = (b3, False)"
proof -
  define b0 where "b0 = \<lparr>conf = (default_config None [] False 0)\<lparr>dedup_max := 2\<rparr>,
    dedup_cache = [((Mesh, ''a'', 1), 0), ((Mesh, ''b'', 2), 50)], recent_relays = [],
    running = True, auto_paused_reason = None,
    auto_paused_at = None, stats = (\<lambda>_. 0), state_doc = Missing\<rparr>"
  have b0: "dedup_cache b0 = [((Mesh, ''a'', 1), 0), ((Mesh, ''b'', 2), 50)]"
    "dedup_ttl (conf b0) = 60" "dedup_max (conf b0) = 2"
    by (simp_all add: b0_def default_config_def split: prod.splits)
  define b1 where "b1 = dedup_record (Mesh, ''a'', 1) 61 b0"
  define b2 where "b2 = dedup_record (Mesh, ''c'', 3) 62 b1"
  have b1: "dedup_cache b1 = [((Mesh, ''a'', 1), 61), ((Mesh, ''b'', 2), 50)]" "conf b1 = conf b0"
    using b0 by (simp_all add: b1_def dedup_record_def evict_def)
  have b2: "dedup_cache b2 = [((Mesh, ''b'', 2), 50), ((Mesh, ''c'', 3), 62)]" "conf b2 = conf b0"
    using b0 b1 by (simp_all add: b2_def dedup_record_def evict_def)
  show ?thesis
  proof (intro exI conjI)
    show "dedup_cache b0 = [((Mesh, ''a'', 1), 0), ((Mesh, ''b'', 2), 50)]"
      "dedup_ttl (conf b0) = 60" "dedup_max (conf b0) = 2"
      by (rule b0)+
    show "dedup_check_and_record (Mesh, ''a'', 1) 61 b0 = (b1, False)"
      "dedup_check_and_record (Mesh, ''c'', 3) 62 b1 = (b2, False)"
      "dedup_check_and_record (Mesh, ''a'', 1) 63 b2 = (dedup_record (Mesh, ''a'', 1) 63 b2, False)"
      using b0 b1 b2 by (simp_all add: dedup_check_and_record_def b1_def [symmetric] b2_def [symmetric])
  qed
qed

subsection \<open>The circuit breaker bounds the relay rate\<close>

type_synonym relay_world = "bridge \<times> (relay_env \<times> network \<times> message) list"

definition admit_relay :: "relay_world \<Rightarrow> time \<Rightarrow> relay_world \<times> bool" where
  "admit_relay w t =
     (case w of
        (b, []) \<Rightarrow> (w, False)
      | (b, (e, origin, m) # evs) \<Rightarrow>
          (case relay (e\<lparr>clock := t\<rparr>) origin m b of (b', _, ok) \<Rightarrow> ((b', evs), ok)))"

definition breaker_ok :: "nat \<Rightarrow> relay_world \<Rightarrow> bool" where
  "breaker_ok n w \<longleftrightarrow> auto_pause_threshold (conf (fst w)) = int n \<and> 0 < n \<and> n < deque_maxlen \<and>
     (running (fst w) \<longrightarrow> length (recent_relays (fst w)) \<le> n)"

lemma breaker_result:
  assumes "auto_pause_threshold (conf b) = int n" "0 < n" "n < deque_maxlen"
    "length (recent_relays b) \<le> n"
  shows "recent_relays (check_circuit_breaker now w ok b) =
      dropWhile (\<lambda>t. t < now - breaker_window) (recent_relays b @ [now])"
    "running (check_circuit_breaker now w ok b) \<longrightarrow>
       length (recent_relays (check_circuit_breaker now w ok b)) \<le> n"
proof -
  have "drop (length (recent_relays b @ [now]) - deque_maxlen) (recent_relays b @ [now]) =
      recent_relays b @ [now]"
    using assms by simp
  then show "recent_relays (check_circuit_breaker now w ok b) =
      dropWhile (\<lambda>t. t < now - breaker_window) (recent_relays b @ [now])"
    "running (check_circuit_breaker now w ok b) \<longrightarrow>
       length (recent_relays (check_circuit_breaker now w ok b)) \<le> n"
    using assms(1,2)
    by (auto simp: check_circuit_breaker_def set_running_def persist_state_def Let_def)
qed

lemma admit_relay_cases:
  assumes "breaker_ok n w" "admit_relay w t = (w', ok)"
  shows "breaker_ok n w' \<and>
    (if ok then length (recent_relays (fst w)) \<le> n \<and>
       recent_relays (fst w') =
         dropWhile (\<lambda>x. x < t - breaker_window) (recent_relays (fst w) @ [t])
     else recent_relays (fst w') = recent_relays (fst w))"
proof (cases "snd w")
  case Nil
  then show ?thesis using assms by (cases w) (auto simp: admit_relay_def)
next
  case (Cons ev evs)
  obtain e origin m where ev: "ev = (e, origin, m)" by (cases ev) auto
  let ?e = "e\<lparr>clock := t\<rparr>"
  obtain b where w: "w = (b, (e, origin, m) # evs)" using Cons ev by (cases w) simp
  have w': "fst w' = fst (relay ?e origin m b)" "ok = snd (snd (relay ?e origin m b))"
    using assms(2) by (auto simp: admit_relay_def w split: prod.splits)
  show ?thesis
  proof (cases rule: relay_cases [of ?e m b origin])
    case (sent tx rq)
    let ?s = "after_success ?e origin m b"
    have run: "running b" using sent(1) by (auto simp: early_drop_def split: if_splits)
    have s: "recent_relays ?s = recent_relays b" "conf ?s = conf b" by (simp_all add: after_success_def)
    have "auto_pause_threshold (conf ?s) = int n" "0 < n" "n < deque_maxlen"
      "length (recent_relays ?s) \<le> n" using assms(1) w run s by (auto simp: breaker_ok_def)
    note r = breaker_result [OF this, of t "wall_clock ?e" "disk_ok ?e"]
    have "fst w' = check_circuit_breaker t (wall_clock ?e) (disk_ok ?e) ?s" "ok"
      using w' sent(6) by simp_all
    then show ?thesis using r s run assms(1) w by (simp add: breaker_ok_def)
  qed (use assms(1) w' w in \<open>simp add: breaker_ok_def\<close>)+
qed

interpretation relay_limit:
  sliding_limit breaker_window "Suc n" admit_relay "\<lambda>w. recent_relays (fst w)" "breaker_ok n"
  for n
proof unfold_locales
  fix s s' t b
  assume g: "breaker_ok n s"
  show "0 < breaker_window" by (simp add: breaker_window_def)
  show "breaker_ok n s'" if "admit_relay s t = (s', b)"
    using admit_relay_cases [OF g that] by simp
  show "set (recent_relays (fst s')) \<subseteq> insert t (set (recent_relays (fst s)))"
    if "admit_relay s t = (s', b)"
    using admit_relay_cases [OF g that] by (auto split: if_splits dest!: set_dropWhileD)
  show "mset (filter (\<lambda>x. t - breaker_window < x) (recent_relays (fst s))) \<subseteq>#
      mset (filter (\<lambda>x. t - breaker_window < x) (recent_relays (fst s')))"
    if "admit_relay s t = (s', False)"
    using admit_relay_cases [OF g that] by simp
  assume a: "admit_relay s t = (s', True)"
  note c = admit_relay_cases [OF g a]
  show "length (filter (\<lambda>x. t - breaker_window < x) (recent_relays (fst s))) < Suc n"
    using c length_filter_le [of "\<lambda>x. t - breaker_window < x" "recent_relays (fst s)"]
    by (simp only: if_True) linarith
  show "mset (filter (\<lambda>x. t - breaker_window < x) (recent_relays (fst s)) @ [t]) \<subseteq>#
      mset (filter (\<lambda>x. t - breaker_window < x) (recent_relays (fst s')))"
    using c by (simp add: dropWhile_window breaker_window_def del: dropWhile_append)
qed

primrec relay_times :: "bridge \<Rightarrow> (relay_env \<times> network \<times> message) list \<Rightarrow> time list" where
  "relay_times b [] = []"
| "relay_times b (ev # evs) =
     (case ev of (e, origin, m) \<Rightarrow>
        (case relay e origin m b of (b', _, ok) \<Rightarrow>
           (if ok then [clock e] else []) @ relay_times b' evs))"

lemma admit_relay_now:
  "admit_relay (b, (e, origin, m) # evs) (clock e) =
     (case relay e origin m b of (b', _, ok) \<Rightarrow> ((b', evs), ok))"
proof -
  have "e\<lparr>clock := clock e\<rparr> = e" by (cases e) simp
  then show ?thesis by (simp add: admit_relay_def)
qed

lemma relay_times_granted:
  "relay_times b evs = relay_limit.granted (b, evs) (map (\<lambda>(e, _). clock e) evs)"
proof (induction evs arbitrary: b)
  case (Cons ev evs)
  obtain e origin m where ev: "ev = (e, origin, m)" by (cases ev) auto
  obtain b' rq ok where r: "relay e origin m b = (b', rq, ok)" by (cases "relay e origin m b") auto
  show ?case using Cons.IH [of b'] by (simp add: ev r admit_relay_now)
qed simp

text \<open>The circuit breaker holds: after a start, with a positive threshold below the length of its
  log, no interval of 60 seconds sees more than threshold plus one relayed messages.\<close>

theorem relay_rate_bounded:
  assumes "start_bridge c doc r = Inr b" "0 < auto_pause_threshold c" "auto_pause_threshold c < 10000"
    and "sorted (map (\<lambda>(e, _). clock e) evs)"
  shows "int (window_count 60 a (relay_times b evs)) \<le> auto_pause_threshold c + 1"
proof -
  let ?n = "nat (auto_pause_threshold c)"
  have b: "recent_relays b = []" "conf b = c"
    using assms(1) by (auto simp: start_bridge_def load_state_def split: state_doc.splits)
  have "window_count breaker_window a (relay_limit.granted (b, evs) (map (\<lambda>(e, _). clock e) evs))
      \<le> Suc ?n"
    using assms(2-4) b by (intro relay_limit.granted_window [where n = ?n])
      (auto simp: breaker_ok_def deque_maxlen_def)
  then show ?thesis using assms(2) by (simp add: relay_times_granted breaker_window_def)
qed

subsection \<open>Concrete runs\<close>

definition demo_env :: "time \<Rightarrow> relay_env" where
  "demo_env t = \<lparr>alnum = (\<lambda>c. 48 \<le> c), str_hash = (\<lambda>s. int (length s)), clock = t, wall_clock = t,
     disk_ok = True, ready = Hub_Ready, sends = (\<lambda>_. True)\<rparr>"

definition demo_msg :: message where
  "demo_msg = \<lparr>from_id = ''!0A0b0c0d'', from_name = Some (ascii ''Ana''), body = ascii ''hello'',
     channel = Some 0, msg_type = Broadcast, to_id = ''''\<rparr>"

definition demo_bridge :: bridge where
  "demo_bridge = \<lparr>conf = default_config None [] False 0, dedup_cache = [], recent_relays = [],
     running = True, auto_paused_reason = None, auto_paused_at = None, stats = (\<lambda>_. 0),
     state_doc = Missing\<rparr>"

definition demo_request :: request where
  "demo_request = \<lparr>rq_network = Core, rq_text = ascii ''[via Mesh] Ana: hello'',
     rq_destination = None, rq_channel = Some 0, rq_lora = False\<rparr>"

lemma demo_start: "start_bridge (default_config None [] False 0) Missing True = Inr demo_bridge"
  by (simp add: start_bridge_def load_state_def demo_bridge_def)

lemma demo_limits:
  "dedup_max (default_config None [] False 0) = 256"
  "auto_pause_threshold (default_config None [] False 0) = 20"
  by (simp_all add: default_config_def default_pairs_def)

lemma demo_conf:
  "conf demo_bridge = \<lparr>tag_mesh = ascii ''[via Mesh]'', tag_core = ascii ''[via Core]'',
     mesh_mtu = 233, core_mtu = 240, loop_re = default_loop_match, dedup_ttl = 60, dedup_max = 256,
     bridge_dms = False, dm_mesh_to_core = [], dm_core_to_mesh = [],
     mesh_to_core = [(0, \<lparr>pair_mesh = 0, pair_core = 0, pair_direction = ''both'',
       pair_allow = None, pair_deny = None\<rparr>)],
     core_to_mesh = [(0, \<lparr>pair_mesh = 0, pair_core = 0, pair_direction = ''both'',
       pair_allow = None, pair_deny = None\<rparr>)],
     filter_position_shares = True, filter_tapbacks = True, auto_pause_threshold = 20,
     startup_grace = 30, started_at = 0\<rparr>"
  by (simp add: demo_bridge_def default_config_def default_pairs_def compile_pair_def compile_re_def
      meshtastic_mtu_def meshcore_mtu_def)

lemma demo_state:
  "running demo_bridge" "dedup_cache demo_bridge = []" "recent_relays demo_bridge = []"
  by (simp_all add: demo_bridge_def)

lemma demo_gates:
  assumes "30 \<le> t"
  shows "early_drop (demo_env t) demo_msg demo_bridge = None"
    "late_drop (demo_env t) Mesh demo_msg (conf demo_bridge) = None"
  using assms
  by (simp_all add: early_drop_def late_drop_def in_grace_def demo_conf demo_state demo_env_def demo_msg_def
      default_loop_match_def lstrip_def ascii_def py_space_def position_share_def
      fold_case_def looks_like_tapback_def strip_def tapback_max_len_def target_of_def
      resolve_broadcast_target_def target_passes_def passes_def)

lemma demo_attributed: "attributed (conf demo_bridge) Mesh demo_msg = Inr (ascii ''[via Mesh] Ana: hello'')"
  by (simp add: attributed_def attribution_def demo_conf demo_msg_def other_net_def
      select_sender_label_def or_empty_def truncate_for_mtu_def ascii_def
      encode_utf8_def is_scalar_def utf8_def utf8_char_def)

lemma demo_relay:
  assumes "30 \<le> t"
  shows "snd (relay (demo_env t) Mesh demo_msg demo_bridge) = (Some demo_request, True)"
proof -
  have "dispatch (ready (demo_env t)) (sends (demo_env t)) (other_net Mesh)
      (ascii ''[via Mesh] Ana: hello'') (target_of (conf demo_bridge) Mesh demo_msg)
      (target_channel Mesh demo_msg (target_of (conf demo_bridge) Mesh demo_msg)) =
    (Some demo_request, True)"
    by (simp add: dispatch_def demo_env_def other_net_def target_of_def demo_conf demo_msg_def
        resolve_broadcast_target_def target_channel_def demo_request_def)
  from relay_sent [OF demo_gates(1) [OF assms] _ demo_gates(2) [OF assms] demo_attributed this]
  show ?thesis by (simp add: dedup_check_and_record_def demo_state)
qed

lemma demo_relay_eq:
  "30 \<le> t \<Longrightarrow> relay (demo_env t) Mesh demo_msg demo_bridge =
     (fst (relay (demo_env t) Mesh demo_msg demo_bridge), Some demo_request, True)"
  using demo_relay by (metis prod.collapse)

lemma demo_scalars:
  "scalars demo_msg" "list_all is_scalar (tag_mesh (conf demo_bridge))"
  "list_all is_scalar (tag_core (conf demo_bridge))"
  using ascii_scalar by (simp_all add: scalars_def demo_msg_def demo_conf)

theorem relay_accounts_witness:
  "total (fst (relay (demo_env 40) Mesh demo_msg demo_bridge)) = 1 \<and>
   stats (fst (relay (demo_env 40) Mesh demo_msg demo_bridge)) Relayed_Mesh_To_Core = 1"
  using relay_accounts [OF demo_scalars, of "demo_env 40" Mesh] demo_relay [of 40]
  by (simp add: total_def all_stats_def relayed_def) (simp add: demo_bridge_def)

theorem relay_route_witness:
  "\<exists>b'. relay (demo_env 40) Mesh demo_msg demo_bridge = (b', Some demo_request, True) \<and>
     rq_network demo_request = Core \<and>
     (\<exists>n p. channel demo_msg = Some n \<and> map_of (mesh_to_core (conf demo_bridge)) n = Some p \<and>
       rq_channel demo_request = Some (pair_core p))"
  using relay_route [OF demo_relay_eq [of 40]] demo_relay_eq [of 40]
  by (auto simp: other_net_def demo_request_def)

theorem relay_fits_mtu_witness:
  "snd (relay (demo_env 40) Mesh demo_msg demo_bridge) = (Some demo_request, True) \<and>
   int (length (utf8 (rq_text demo_request))) \<le> 240"
  using relay_fits_mtu [OF demo_relay_eq [of 40] demo_scalars] demo_relay [of 40]
  by (simp add: other_net_def demo_conf)


theorem relayed_at_most_once_witness:
  "\<exists>b' k. relay (demo_env 40) Mesh demo_msg demo_bridge = (b', Some demo_request, True) \<and>
     relay (demo_env 80) Core demo_msg (relays b' [(demo_env 60, Mesh, demo_msg)]) =
       (inc_stat k (relays b' [(demo_env 60, Mesh, demo_msg)]), None, False)"
  using relayed_at_most_once [OF demo_relay_eq [of 40], of "[(demo_env 60, Mesh, demo_msg)]"
      "demo_env 80" demo_msg Core] demo_relay_eq [of 40]
  by (auto simp: demo_state demo_conf demo_env_def)

theorem dedup_cache_bounded_witness:
  "length (dedup_cache (relays demo_bridge [(demo_env 40, Mesh, demo_msg)])) \<le> 256"
  using dedup_cache_bounded [OF demo_start, of "[(demo_env 40, Mesh, demo_msg)]"]
  by (simp add: demo_limits)

theorem relay_rate_bounded_witness:
  "relay_times demo_bridge [(demo_env 40, Mesh, demo_msg)] = [40] \<and>
   window_count 60 0 (relay_times demo_bridge [(demo_env 40, Mesh, demo_msg)]) \<le> 21"
proof
  show "relay_times demo_bridge [(demo_env 40, Mesh, demo_msg)] = [40]"
    using demo_relay [of 40] by (simp add: split_beta) (simp add: demo_env_def)
  show "window_count 60 0 (relay_times demo_bridge [(demo_env 40, Mesh, demo_msg)]) \<le> 21"
    using relay_rate_bounded [OF demo_start, of "[(demo_env 40, Mesh, demo_msg)]" 0]
    by (simp add: demo_limits del: relay_times.simps)
qed

text \<open>A state file that holds JSON other than an object makes the start of the bridge raise:
  \<open>_load_state\<close> catches only \<open>OSError\<close> and \<open>ValueError\<close>, not the \<open>AttributeError\<close> of \<open>state.get\<close>.\<close>

theorem start_fails_on_non_object: "start_bridge c Not_An_Object r = Inl AttributeError"
  by (simp add: start_bridge_def load_state_def)

end
