(* ===== verification/Login_Limiter.thy ===== *)
theory Login_Limiter
  imports Window_Limits
begin

text \<open>
  The login rate limiter and the audit throttle of \<open>web_dashboard/auth.py\<close>.  An address is what
  \<open>ipaddress.ip_address\<close> makes of the remote address string: an IPv4 number, an IPv6 number with
  its scope, or the string itself when it is neither; equal strings after normalisation are equal
  addresses.  Every operation takes the reading of the monotonic clock.
\<close>

subsection \<open>Addresses\<close>

datatype address = V4 nat | V6 nat "string option" | Not_An_Ip string

definition ipv4_mapped :: "nat \<Rightarrow> nat option" where
  "ipv4_mapped n = (if n div 2 ^ 32 = 0xFFFF then Some (n mod 2 ^ 32) else None)"

definition normalize_ip :: "address \<Rightarrow> address" where
  "normalize_ip a =
     (case a of
        V6 n sc \<Rightarrow> (case ipv4_mapped n of Some m \<Rightarrow> V4 m | None \<Rightarrow> V6 n sc)
      | V4 n \<Rightarrow> V4 n
      | Not_An_Ip s \<Rightarrow> Not_An_Ip s)"

subsection \<open>State and operations\<close>

record tracked =
  tries :: "time list"
  failures :: nat

record rate_limiter =
  rl_max :: int
  rl_base :: int
  ips :: "(address, tracked) pydict"

definition max_tracked_ips :: nat where
  "max_tracked_ips = 10000"

definition new_rate_limiter :: "int \<Rightarrow> int \<Rightarrow> rate_limiter" where
  "new_rate_limiter n w = \<lparr>rl_max = n, rl_base = w, ips = []\<rparr>"

definition backoff :: "int \<Rightarrow> nat \<Rightarrow> real" where
  "backoff base f = real_of_int (base * min (2 ^ f) 256)"

definition effective_window :: "rate_limiter \<Rightarrow> address \<Rightarrow> real" where
  "effective_window rl ip =
     (case map_of (ips rl) ip of
        None \<Rightarrow> real_of_int (rl_base rl)
      | Some s \<Rightarrow> backoff (rl_base rl) (failures s))"

definition cleanup :: "address \<Rightarrow> time \<Rightarrow> rate_limiter \<Rightarrow> rate_limiter" where
  "cleanup ip now rl =
     (case map_of (ips rl) ip of
        None \<Rightarrow> rl
      | Some s \<Rightarrow>
          let kept = filter (\<lambda>t. now - effective_window rl ip < t) (tries s)
          in if kept = [] then rl\<lparr>ips := AList.delete ip (ips rl)\<rparr>
             else rl\<lparr>ips := AList.update ip (s\<lparr>tries := kept\<rparr>) (ips rl)\<rparr>)"

definition is_allowed :: "address \<Rightarrow> time \<Rightarrow> rate_limiter \<Rightarrow> rate_limiter \<times> bool" where
  "is_allowed a now rl =
     (let ip = normalize_ip a; rl1 = cleanup ip now rl
      in (rl1, case map_of (ips rl1) ip of
                 None \<Rightarrow> True | Some s \<Rightarrow> int (length (tries s)) < rl_max rl1))"

definition last_try :: "tracked \<Rightarrow> time" where
  "last_try s = (if tries s = [] then 0 else last (tries s))"

definition evict_oldest :: "(address, tracked) pydict \<Rightarrow> (address, tracked) pydict" where
  "evict_oldest d =
     (case first_min (\<lambda>(_, s). last_try s) d of None \<Rightarrow> d | Some (k, _) \<Rightarrow> AList.delete k d)"

definition record_attempt :: "address \<Rightarrow> time \<Rightarrow> rate_limiter \<Rightarrow> rate_limiter" where
  "record_attempt a now rl =
     (let ip = normalize_ip a;
          d = ips (cleanup ip now rl);
          d1 = (if map_of d ip = None \<and> max_tracked_ips \<le> length d then evict_oldest d else d);
          s = (case map_of d1 ip of None \<Rightarrow> \<lparr>tries = [], failures = 0\<rparr> | Some s \<Rightarrow> s)
      in rl\<lparr>ips := AList.update ip \<lparr>tries = tries s @ [now], failures = failures s + 1\<rparr> d1\<rparr>)"

definition record_success :: "address \<Rightarrow> rate_limiter \<Rightarrow> rate_limiter" where
  "record_success a rl = rl\<lparr>ips := AList.delete (normalize_ip a) (ips rl)\<rparr>"

definition retry_after :: "address \<Rightarrow> time \<Rightarrow> rate_limiter \<Rightarrow> int" where
  "retry_after a now rl =
     (let ip = normalize_ip a in
      case map_of (ips rl) ip of
        None \<Rightarrow> 0
      | Some s \<Rightarrow>
          (case tries s of
             [] \<Rightarrow> 0
           | oldest # _ \<Rightarrow> max 1 \<lfloor>effective_window rl ip - (now - oldest)\<rfloor>))"

text \<open>\<open>cleanup_all_expired\<close>: the sweep, then the cap by the newest attempt.\<close>

definition sweep_entry :: "int \<Rightarrow> time \<Rightarrow> tracked \<Rightarrow> tracked" where
  "sweep_entry base now s = s\<lparr>tries := filter (\<lambda>t. now - backoff base (failures s) < t) (tries s)\<rparr>"

definition sweep :: "int \<Rightarrow> time \<Rightarrow> (address, tracked) pydict \<Rightarrow> (address, tracked) pydict" where
  "sweep base now d =
     filter (\<lambda>(_, s). tries s \<noteq> []) (map (\<lambda>(ip, s). (ip, sweep_entry base now s)) d)"

definition newest_try :: "tracked \<Rightarrow> time" where
  "newest_try s = (if tries s = [] then 0 else Max (set (tries s)))"

definition cap_tracked :: "(address, tracked) pydict \<Rightarrow> (address, tracked) pydict" where
  "cap_tracked d =
     fold (\<lambda>(ip, _) d'. AList.delete ip d')
       (take (length d - max_tracked_ips) (sort_key (\<lambda>(_, s). newest_try s) d)) d"

definition cleanup_all_expired :: "time \<Rightarrow> rate_limiter \<Rightarrow> rate_limiter \<times> nat" where
  "cleanup_all_expired now rl =
     (let d = sweep (rl_base rl) now (ips rl);
          d1 = (if max_tracked_ips < length d then cap_tracked d else d)
      in (rl\<lparr>ips := d1\<rparr>, (length (ips rl) - length d) + (length d - length d1)))"

subsection \<open>The audit throttle\<close>

definition audit_interval :: real where
  "audit_interval = 10"

definition max_audit_ips :: nat where
  "max_audit_ips = 10000"

text \<open>Per address the time of the last line and the number of lines suppressed since; the result is
  the count the new line carries, \<open>None\<close> when the line is suppressed.\<close>

definition audit_failed_login ::
  "address \<Rightarrow> time \<Rightarrow> (address, time \<times> nat) pydict \<Rightarrow> (address, time \<times> nat) pydict \<times> nat option" where
  "audit_failed_login a now d =
     (let ip = normalize_ip a in
      case map_of d ip of
        Some (last_log, n) \<Rightarrow>
          if now - last_log < audit_interval then (AList.update ip (last_log, n + 1) d, None)
          else (AList.update ip (now, 0) d, Some n)
      | None \<Rightarrow>
          let d1 = (if max_audit_ips \<le> length d
                    then (case first_min (\<lambda>(_, s). fst s) d of
                            None \<Rightarrow> d | Some (k, _) \<Rightarrow> AList.delete k d)
                    else d)
          in (AList.update ip (now, 0) d1, Some 0))"

subsection \<open>What one operation does to one address\<close>

definition log_of :: "rate_limiter \<Rightarrow> address \<Rightarrow> time list" where
  "log_of rl ip = (case map_of (ips rl) ip of None \<Rightarrow> [] | Some s \<Rightarrow> tries s)"

definition failures_of :: "rate_limiter \<Rightarrow> address \<Rightarrow> nat" where
  "failures_of rl ip = (case map_of (ips rl) ip of None \<Rightarrow> 0 | Some s \<Rightarrow> failures s)"

lemma window_backoff: "effective_window rl ip = backoff (rl_base rl) (failures_of rl ip)"
  by (auto simp: effective_window_def failures_of_def backoff_def split: option.splits)

lemma backoff_ge_base: "0 < base \<Longrightarrow> real_of_int base \<le> backoff base f"
proof -
  assume b: "0 < base"
  have "base * 1 \<le> base * min (2 ^ f) 256"
    using b by (intro mult_left_mono) (auto simp: min_def)
  then have "real_of_int base \<le> real_of_int (base * min (2 ^ f) 256)"
    by (simp only: of_int_le_iff mult_1_right)
  then show ?thesis by (simp only: backoff_def)
qed

lemma cleanup_config [simp]:
  "rl_max (cleanup ip now rl) = rl_max rl" "rl_base (cleanup ip now rl) = rl_base rl"
  by (simp_all add: cleanup_def Let_def split: option.splits)

lemma record_config [simp]:
  "rl_max (record_attempt a now rl) = rl_max rl" "rl_base (record_attempt a now rl) = rl_base rl"
  by (simp_all add: record_attempt_def Let_def)

lemma cleanup_other: "k \<noteq> ip \<Longrightarrow> map_of (ips (cleanup ip now rl)) k = map_of (ips rl) k"
  by (simp add: cleanup_def dict_simps Let_def split: option.splits)

lemma length_cleanup: "length (ips (cleanup ip now rl)) \<le> length (ips rl)"
proof (cases "map_of (ips rl) ip")
  case (Some s)
  from length_dict_set_old [OF map_of_SomeD_keys [OF this]] Some
  show ?thesis by (simp add: cleanup_def Let_def length_dict_del)
qed (simp add: cleanup_def)

lemma cleanup_log:
  "log_of (cleanup ip now rl) ip = filter (\<lambda>t. now - effective_window rl ip < t) (log_of rl ip)"
  by (auto simp: cleanup_def log_of_def dict_simps Let_def split: option.splits)

lemma cleanup_failures:
  "log_of (cleanup ip now rl) ip \<noteq> [] \<Longrightarrow> failures_of (cleanup ip now rl) ip = failures_of rl ip"
  by (auto simp: cleanup_def log_of_def failures_of_def dict_simps Let_def split: option.splits if_splits)

definition tracked_ok :: "rate_limiter \<Rightarrow> bool" where
  "tracked_ok rl \<longleftrightarrow> dict_ok (ips rl) \<and> length (ips rl) \<le> max_tracked_ips \<and>
     list_all (\<lambda>(_, s). tries s \<noteq> []) (ips rl)"

lemma set_update_dict: "set (AList.update k v d) \<subseteq> insert (k, v) (set d)"
  by (induction d) auto

lemma set_delete_dict: "set (AList.delete k d) \<subseteq> set d"
  by (auto simp: AList.delete_eq)

lemma log_nonempty: "tracked_ok rl \<Longrightarrow> map_of (ips rl) ip = Some s \<Longrightarrow> tries s \<noteq> []"
  by (auto simp: tracked_ok_def list_all_iff dest!: map_of_SomeD)

lemma tracked_ok_cleanup:
  assumes "tracked_ok rl"
  shows "tracked_ok (cleanup ip now rl)"
proof (cases "map_of (ips rl) ip")
  case None
  then show ?thesis using assms by (simp add: cleanup_def)
next
  case (Some s)
  then have "ip \<in> keys_of (ips rl)" by (rule map_of_SomeD_keys)
  then show ?thesis
    using assms Some set_delete_dict [of ip "ips rl"] length_dict_del [of ip "ips rl"]
    unfolding tracked_ok_def cleanup_def
    by (auto simp: Let_def list_all_iff length_dict_set_old dest: set_update_dict [THEN subsetD])
qed

lemma evict_oldest_ok:
  assumes "dict_ok d" "d \<noteq> []"
  shows "dict_ok (evict_oldest d) \<and> Suc (length (evict_oldest d)) = length d \<and>
    set (evict_oldest d) \<subseteq> set d"
proof -
  obtain k s where m: "first_min (\<lambda>(_, s). last_try s) d = Some (k, s)"
    using assms(2) by (cases "first_min (\<lambda>(_, s). last_try s) d") auto
  then have "k \<in> keys_of d" using first_min_member by force
  from length_dict_del_old [OF assms(1) this] set_delete_dict [of k d]
  show ?thesis using assms(1) by (simp add: evict_oldest_def m dict_ok_del)
qed

lemma tracked_ok_record:
  assumes "tracked_ok rl"
  shows "tracked_ok (record_attempt a now rl)"
proof -
  let ?ip = "normalize_ip a"
  let ?d = "ips (cleanup ?ip now rl)"
  have c: "dict_ok ?d" "length ?d \<le> max_tracked_ips" "list_all (\<lambda>(_, s). tries s \<noteq> []) ?d"
    using tracked_ok_cleanup [OF assms] by (simp_all add: tracked_ok_def)
  define d1 where
    "d1 = (if map_of ?d ?ip = None \<and> max_tracked_ips \<le> length ?d then evict_oldest ?d else ?d)"
  have d1: "dict_ok d1 \<and> set d1 \<subseteq> set ?d \<and>
      (if ?ip \<in> keys_of d1 then length d1 \<le> max_tracked_ips else length d1 < max_tracked_ips)"
  proof (cases "map_of ?d ?ip = None \<and> max_tracked_ips \<le> length ?d")
    case True
    then have "?d \<noteq> []" by (auto simp: max_tracked_ips_def)
    from evict_oldest_ok [OF c(1) this] show ?thesis using c(2) True by (auto simp: d1_def)
  next
    case False
    then show ?thesis using c by (auto simp: d1_def map_of_None_keys)
  qed
  define s where "s = (case map_of d1 ?ip of None \<Rightarrow> \<lparr>tries = [], failures = 0\<rparr> | Some s \<Rightarrow> s)"
  have r: "ips (record_attempt a now rl) =
      AList.update ?ip \<lparr>tries = tries s @ [now], failures = failures s + 1\<rparr> d1"
    by (simp add: record_attempt_def d1_def s_def Let_def)
  show ?thesis
    unfolding tracked_ok_def r
    using d1 c(3) length_dict_set_new [of ?ip d1] length_dict_set_old [of ?ip d1]
    by (auto simp: list_all_iff split: if_splits dest!: set_update_dict [THEN subsetD])
qed

lemma evict_oldest_other:
  "map_of (evict_oldest d) k = None \<or> map_of (evict_oldest d) k = map_of d k"
  by (auto simp: evict_oldest_def dict_simps split: option.splits)

text \<open>A recorded attempt is the last of its address's log; nobody else's entry changes as long as
  the table has room.\<close>

lemma record_log:
  "log_of (record_attempt a now rl) (normalize_ip a) =
     log_of (cleanup (normalize_ip a) now rl) (normalize_ip a) @ [now]"
  "failures_of (record_attempt a now rl) (normalize_ip a) =
     Suc (failures_of (cleanup (normalize_ip a) now rl) (normalize_ip a))"
proof -
  let ?ip = "normalize_ip a"
  let ?d = "ips (cleanup ?ip now rl)"
  have "map_of (if map_of ?d ?ip = None \<and> max_tracked_ips \<le> length ?d then evict_oldest ?d else ?d) ?ip
      = map_of ?d ?ip"
    using evict_oldest_other [of ?d ?ip] by auto
  then show "log_of (record_attempt a now rl) ?ip = log_of (cleanup ?ip now rl) ?ip @ [now]"
    "failures_of (record_attempt a now rl) ?ip = Suc (failures_of (cleanup ?ip now rl) ?ip)"
    by (auto simp: record_attempt_def log_of_def failures_of_def dict_simps Let_def split: option.splits)
qed

lemma record_other:
  assumes "k \<noteq> normalize_ip a" "length (ips rl) < max_tracked_ips"
  shows "map_of (ips (record_attempt a now rl)) k = map_of (ips rl) k"
proof -
  have "length (ips (cleanup (normalize_ip a) now rl)) \<le> length (ips rl)"
    by (rule length_cleanup)
  then show ?thesis
    using assms cleanup_other [OF assms(1)]
    by (simp add: record_attempt_def dict_simps Let_def)
qed

lemma allowed_iff:
  "snd (is_allowed a now rl) \<longleftrightarrow>
     log_of (cleanup (normalize_ip a) now rl) (normalize_ip a) = [] \<and>
       (map_of (ips (cleanup (normalize_ip a) now rl)) (normalize_ip a) = None \<or> 0 < rl_max rl) \<or>
     log_of (cleanup (normalize_ip a) now rl) (normalize_ip a) \<noteq> [] \<and>
       int (length (log_of (cleanup (normalize_ip a) now rl) (normalize_ip a))) < rl_max rl"
  by (auto simp: is_allowed_def log_of_def Let_def split: option.splits)

subsection \<open>The table stays bounded\<close>

datatype limiter_op =
    Check address time
  | Fail address time
  | Success address
  | Sweep time

definition limiter_step :: "limiter_op \<Rightarrow> rate_limiter \<Rightarrow> rate_limiter" where
  "limiter_step x rl =
     (case x of
        Check a now \<Rightarrow> fst (is_allowed a now rl)
      | Fail a now \<Rightarrow> record_attempt a now rl
      | Success a \<Rightarrow> record_success a rl
      | Sweep now \<Rightarrow> fst (cleanup_all_expired now rl))"

lemma keys_map_snd: "map fst (map (\<lambda>(ip, s). (ip, f s)) d) = map fst d"
  by (induction d) auto

lemma sweep_props:
  assumes "dict_ok d"
  shows "dict_ok (sweep base now d)" "length (sweep base now d) \<le> length d"
    "list_all (\<lambda>(_, s). tries s \<noteq> []) (sweep base now d)"
proof -
  show "dict_ok (sweep base now d)"
    unfolding sweep_def by (rule dict_ok_filter) (simp only: keys_map_snd assms)
  show "length (sweep base now d) \<le> length d"
    unfolding sweep_def by (rule order_trans [OF length_filter_le]) simp
  show "list_all (\<lambda>(_, s). tries s \<noteq> []) (sweep base now d)"
    by (auto simp: sweep_def list_all_iff)
qed

lemma delete_many_props:
  "dict_ok d \<Longrightarrow> dict_ok (fold (\<lambda>(ip, _) d'. AList.delete ip d') xs d) \<and>
     set (fold (\<lambda>(ip, _) d'. AList.delete ip d') xs d) \<subseteq> set d \<and>
     length (fold (\<lambda>(ip, _) d'. AList.delete ip d') xs d) \<le> length d"
proof (induction xs arbitrary: d)
  case (Cons x xs)
  obtain ip s where x: "x = (ip, s)" by (cases x)
  from Cons.IH [OF dict_ok_del [OF Cons.prems, of ip]] set_delete_dict [of ip d] length_dict_del [of ip d]
  show ?case by (auto simp: x)
qed simp

lemma tracked_ok_step:
  assumes "tracked_ok rl"
  shows "tracked_ok (limiter_step x rl)"
proof (cases x)
  case (Check a now)
  then show ?thesis using tracked_ok_cleanup [OF assms]
    by (simp add: limiter_step_def is_allowed_def Let_def)
next
  case (Fail a now)
  then show ?thesis using tracked_ok_record [OF assms] by (simp add: limiter_step_def)
next
  case (Success a)
  then show ?thesis
    using assms set_delete_dict [of "normalize_ip a" "ips rl"] length_dict_del [of "normalize_ip a" "ips rl"]
    by (auto simp: limiter_step_def record_success_def tracked_ok_def list_all_iff)
next
  case (Sweep now)
  have d: "dict_ok (ips rl)" and n: "length (ips rl) \<le> max_tracked_ips"
    using assms by (simp_all add: tracked_ok_def)
  note s = sweep_props [OF d, of "rl_base rl" now]
  have "length (sweep (rl_base rl) now (ips rl)) \<le> max_tracked_ips" using s(2) n by simp
  then show ?thesis using s
    by (simp add: Sweep limiter_step_def cleanup_all_expired_def tracked_ok_def Let_def)
qed

text \<open>Whatever the addresses and times of the requests, the login limiter never tracks more than
  10,000 addresses, and it only keeps addresses with an attempt on record.\<close>

theorem tracked_ips_bounded:
  "length (ips (fold limiter_step xs (new_rate_limiter n w))) \<le> max_tracked_ips \<and>
   list_all (\<lambda>(_, s). tries s \<noteq> []) (ips (fold limiter_step xs (new_rate_limiter n w)))"
proof -
  have "tracked_ok (fold limiter_step xs rl)" if "tracked_ok rl" for rl
    using that by (induction xs arbitrary: rl) (simp_all add: tracked_ok_step)
  moreover have "tracked_ok (new_rate_limiter n w)"
    by (simp add: tracked_ok_def new_rate_limiter_def)
  ultimately have "tracked_ok (fold limiter_step xs (new_rate_limiter n w))" by blast
  then show ?thesis by (simp add: tracked_ok_def)
qed

subsection \<open>The lockout\<close>

definition fail_all :: "address \<Rightarrow> time list \<Rightarrow> rate_limiter \<Rightarrow> rate_limiter" where
  "fail_all a ts rl = foldl (\<lambda>r t. record_attempt a t r) rl ts"

lemma fail_all_config [simp]:
  "rl_max (fail_all a ts rl) = rl_max rl" "rl_base (fail_all a ts rl) = rl_base rl"
  by (induction ts rule: rev_induct) (simp_all add: fail_all_def)

lemma fail_all_log:
  assumes "0 < rl_base rl" "map_of (ips rl) (normalize_ip a) = None" "ts \<noteq> []"
    and "\<forall>t\<in>set ts. \<forall>u\<in>set ts. t < u + 2 * real_of_int (rl_base rl)"
  shows "log_of (fail_all a ts rl) (normalize_ip a) = ts \<and>
    failures_of (fail_all a ts rl) (normalize_ip a) = length ts"
  using assms(3,4)
proof (induction ts rule: rev_induct)
  case (snoc t ts)
  let ?ip = "normalize_ip a" and ?r = "fail_all a ts rl"
  have step: "fail_all a (ts @ [t]) rl = record_attempt a t ?r" by (simp add: fail_all_def)
  show ?case
  proof (cases ts)
    case Nil
    have "log_of (cleanup ?ip t rl) ?ip = []" "failures_of (cleanup ?ip t rl) ?ip = 0"
      using assms(2) by (simp_all add: cleanup_def log_of_def failures_of_def)
    then show ?thesis using Nil record_log [of a t rl] by (simp add: fail_all_def)
  next
    case (Cons x xs)
    have ih: "log_of ?r ?ip = ts" "failures_of ?r ?ip = length ts"
      using snoc Cons by auto
    have "2 * real_of_int (rl_base rl) \<le> effective_window ?r ?ip"
    proof -
      have "(2 :: int) \<le> min (2 ^ length ts) 256"
        using Cons self_le_power [of "2 :: int" "length ts"] by simp
      then have "rl_base rl * 2 \<le> rl_base rl * min (2 ^ length ts) 256"
        using assms(1) by (intro mult_left_mono) auto
      then have "real_of_int (rl_base rl * 2) \<le> real_of_int (rl_base rl * min (2 ^ length ts) 256)"
        by (simp only: of_int_le_iff)
      then show ?thesis unfolding window_backoff backoff_def ih(2) fail_all_config by simp
    qed
    then have "log_of (cleanup ?ip t ?r) ?ip = ts"
      unfolding cleanup_log ih(1) using snoc.prems(2) by (fastforce intro!: filter_True)
    moreover from this have "failures_of (cleanup ?ip t ?r) ?ip = length ts"
      using cleanup_failures [of ?ip t ?r] Cons ih(2) by simp
    ultimately show ?thesis unfolding step using record_log [of a t ?r] by simp
  qed
qed simp

text \<open>After \<open>max_attempts\<close> failed logins of a new address in quick succession, the next login is let
  through to the password check exactly when \<open>2^max_attempts\<close> (at most 256) base windows have
  passed since the first of them.\<close>

theorem lockout_duration:
  assumes "0 < rl_base rl" "map_of (ips rl) (normalize_ip a) = None"
    and "ts = t0 # rest" "int (length ts) = rl_max rl" "sorted ts"
    and "\<forall>t\<in>set ts. t < t0 + 2 * real_of_int (rl_base rl)"
  shows "snd (is_allowed a now (fail_all a ts rl)) \<longleftrightarrow>
    t0 + real_of_int (rl_base rl * min (2 ^ length ts) 256) \<le> now"
proof -
  let ?ip = "normalize_ip a" and ?r = "fail_all a ts rl"
  let ?W = "real_of_int (rl_base rl * min (2 ^ length ts) 256)"
  have first: "\<forall>t\<in>set ts. t0 \<le> t" using assms(3,5) by auto
  then have "\<forall>t\<in>set ts. \<forall>u\<in>set ts. t < u + 2 * real_of_int (rl_base rl)"
    using assms(6) by (meson add_le_cancel_right less_le_trans)
  then have l: "log_of ?r ?ip = ts" "failures_of ?r ?ip = length ts"
    using fail_all_log [OF assms(1,2), of ts] assms(3) by blast+
  let ?kept = "filter (\<lambda>t. now - ?W < t) ts"
  have c: "log_of (cleanup ?ip now ?r) ?ip = ?kept"
    by (simp only: cleanup_log l window_backoff backoff_def fail_all_config)
  have "0 < rl_max rl" using assms(3,4) by auto
  then have "snd (is_allowed a now ?r) \<longleftrightarrow> length ?kept < length ts"
    unfolding allowed_iff c using assms(3,4) by auto
  also have "\<dots> \<longleftrightarrow> \<not> (now - ?W < t0)"
  proof
    assume "length ?kept < length ts"
    then obtain t where "t \<in> set ts" "\<not> now - ?W < t"
      by (metis filter_True less_irrefl)
    then show "\<not> (now - ?W < t0)" using first by fastforce
  next
    assume "\<not> (now - ?W < t0)"
    then show "length ?kept < length ts" using assms(3) by (simp add: less_Suc_eq_le)
  qed
  finally show ?thesis by linarith
qed

theorem lockout_duration_witness:
  "snd (is_allowed (V4 7) 1000 (fail_all (V4 7) [0, 1, 2, 3, 4] (new_rate_limiter 5 60))) = False \<and>
   snd (is_allowed (V4 7) 1920 (fail_all (V4 7) [0, 1, 2, 3, 4] (new_rate_limiter 5 60))) = True"
  using lockout_duration [of "new_rate_limiter 5 60" "V4 7" "[0, 1, 2, 3, 4]" 0 "[1, 2, 3, 4]" 1000]
    lockout_duration [of "new_rate_limiter 5 60" "V4 7" "[0, 1, 2, 3, 4]" 0 "[1, 2, 3, 4]" 1920]
  by (simp add: new_rate_limiter_def)

subsection \<open>The number of guesses per window\<close>

text \<open>A guesser at one address; before each of its attempts other addresses fail as well.\<close>

record guess_world =
  g_lim :: rate_limiter
  g_noise :: "(address \<times> time) list list"

definition noisy :: "(address \<times> time) list \<Rightarrow> rate_limiter \<Rightarrow> rate_limiter" where
  "noisy xs rl = foldl (\<lambda>r (b, u). record_attempt b u r) rl xs"

definition admit_guess :: "address \<Rightarrow> guess_world \<Rightarrow> time \<Rightarrow> guess_world \<times> bool" where
  "admit_guess a w t =
     (let rl = noisy (case g_noise w of [] \<Rightarrow> [] | xs # _ \<Rightarrow> xs) (g_lim w);
          (rl1, ok) = is_allowed a t rl
      in (\<lparr>g_lim = (if ok then record_attempt a t rl1 else rl1), g_noise = tl (g_noise w)\<rparr>, ok))"

definition others :: "address \<Rightarrow> rate_limiter \<Rightarrow> nat" where
  "others ip rl = length (filter (\<lambda>(k, _). k \<noteq> ip) (ips rl))"

definition good_guess :: "address \<Rightarrow> int \<Rightarrow> real \<Rightarrow> guess_world \<Rightarrow> bool" where
  "good_guess a n W w \<longleftrightarrow> tracked_ok (g_lim w) \<and> 0 < rl_base (g_lim w) \<and>
     W = real_of_int (rl_base (g_lim w)) \<and> 0 < n \<and> rl_max (g_lim w) = n \<and>
     list_all (\<lambda>(b, _). normalize_ip b \<noteq> normalize_ip a) (concat (g_noise w)) \<and>
     others (normalize_ip a) (g_lim w) + length (concat (g_noise w)) < max_tracked_ips"

lemma others_del: "length (filter (\<lambda>(k, _). k \<noteq> ip) (AList.delete k' d)) \<le> length (filter (\<lambda>(k, _). k \<noteq> ip) d)"
  by (induction d) auto

lemma others_set:
  "length (filter (\<lambda>(k, _). k \<noteq> ip) (AList.update k' v d)) \<le>
     length (filter (\<lambda>(k, _). k \<noteq> ip) d) + (if k' = ip then 0 else 1)"
  by (induction d) auto

lemma others_set_old:
  "k' \<in> keys_of d \<Longrightarrow> length (filter (\<lambda>(k, _). k \<noteq> ip) (AList.update k' v d)) =
     length (filter (\<lambda>(k, _). k \<noteq> ip) d)"
  by (induction d) auto

lemma others_cleanup: "others ip (cleanup k now rl) \<le> others ip rl"
proof (cases "map_of (ips rl) k")
  case (Some s)
  from others_set_old [OF map_of_SomeD_keys [OF this]] Some show ?thesis
    by (simp add: others_def cleanup_def Let_def others_del)
qed (simp add: cleanup_def)

lemma others_record: "others ip (record_attempt a now rl) \<le> others ip rl + (if normalize_ip a = ip then 0 else 1)"
proof -
  let ?c = "cleanup (normalize_ip a) now rl"
  have e: "length (filter (\<lambda>(k, _). k \<noteq> ip) (evict_oldest d)) \<le> length (filter (\<lambda>(k, _). k \<noteq> ip) d)" for d
    by (auto simp: evict_oldest_def others_del split: option.splits)
  obtain v d where "ips (record_attempt a now rl) = AList.update (normalize_ip a) v d"
    "d = ips ?c \<or> d = evict_oldest (ips ?c)"
    by (simp add: record_attempt_def Let_def)
  then have "others ip (record_attempt a now rl) \<le> others ip ?c + (if normalize_ip a = ip then 0 else 1)"
    using others_set [of ip "normalize_ip a" v d] e [of "ips ?c"] by (auto simp: others_def)
  then show ?thesis using others_cleanup [of ip "normalize_ip a" now rl] by linarith
qed

lemma length_others: "dict_ok (ips rl) \<Longrightarrow> length (ips rl) \<le> Suc (others ip rl)"
proof -
  assume d: "dict_ok (ips rl)"
  have "dict_ok d \<Longrightarrow> length d \<le> Suc (length (filter (\<lambda>(k, _). k \<noteq> ip) d))" for d :: "(address, tracked) pydict"
  proof (induction d)
    case (Cons x d)
    obtain k s where x: "x = (k, s)" by (cases x)
    show ?case
    proof (cases "k = ip")
      case True
      then have "filter (\<lambda>(k, _). k \<noteq> ip) d = d" using Cons.prems x
        by (force intro!: filter_True)
      then show ?thesis using x True by simp
    qed (use Cons x in auto)
  qed simp
  with d show ?thesis by (simp add: others_def)
qed

lemma noisy_Cons: "noisy (x # xs) rl = noisy xs (record_attempt (fst x) (snd x) rl)"
  by (cases x) (simp add: noisy_def)

lemma noisy_keeps:
  assumes "tracked_ok rl" "list_all (\<lambda>(b, _). normalize_ip b \<noteq> ip) xs"
    and "others ip rl + length xs < max_tracked_ips"
  shows "map_of (ips (noisy xs rl)) ip = map_of (ips rl) ip \<and> tracked_ok (noisy xs rl) \<and>
    rl_base (noisy xs rl) = rl_base rl \<and> rl_max (noisy xs rl) = rl_max rl \<and>
    others ip (noisy xs rl) \<le> others ip rl + length xs"
  using assms
proof (induction xs arbitrary: rl)
  case (Cons x xs)
  obtain b u where x: "x = (b, u)" by (cases x)
  let ?r = "record_attempt b u rl"
  have ne: "ip \<noteq> normalize_ip b" using Cons.prems(2) x by auto
  have o1: "others ip ?r \<le> others ip rl + 1" using others_record [of ip b u rl] ne by simp
  have "length (ips rl) \<le> Suc (others ip rl)"
    using Cons.prems(1) by (intro length_others) (simp add: tracked_ok_def)
  then have "length (ips rl) < max_tracked_ips \<or> length (ips rl) = Suc (others ip rl)"
    using Cons.prems(3) by linarith
  then have same: "map_of (ips ?r) ip = map_of (ips rl) ip"
    using record_other [OF ne, of rl u] Cons.prems(3) by auto
  have "map_of (ips (noisy xs ?r)) ip = map_of (ips ?r) ip \<and> tracked_ok (noisy xs ?r) \<and>
      rl_base (noisy xs ?r) = rl_base ?r \<and> rl_max (noisy xs ?r) = rl_max ?r \<and>
      others ip (noisy xs ?r) \<le> others ip ?r + length xs"
    using Cons.prems o1 by (intro Cons.IH) (auto simp: tracked_ok_record)
  then show ?case using o1 same by (simp add: noisy_Cons x)
qed (simp add: noisy_def)

lemma admit_guess_step:
  assumes g: "good_guess a n W w" and s: "admit_guess a w t = (w', ok)"
  shows "good_guess a n W w' \<and>
    (\<exists>V\<ge>W. let kept = filter (\<lambda>x. t - V < x) (log_of (g_lim w) (normalize_ip a)) in
       if ok then int (length kept) < n \<and> log_of (g_lim w') (normalize_ip a) = kept @ [t]
       else log_of (g_lim w') (normalize_ip a) = kept)"
proof -
  let ?ip = "normalize_ip a" and ?xs = "case g_noise w of [] \<Rightarrow> [] | xs # _ \<Rightarrow> xs"
  let ?r = "noisy ?xs (g_lim w)"
  let ?c = "cleanup ?ip t ?r"
  have cc: "concat (g_noise w) = ?xs @ concat (tl (g_noise w))" by (cases "g_noise w") auto
  then have len: "length (concat (g_noise w)) = length ?xs + length (concat (tl (g_noise w)))" by simp
  have xs: "list_all (\<lambda>(b, _). normalize_ip b \<noteq> ?ip) ?xs"
    "list_all (\<lambda>(b, _). normalize_ip b \<noteq> ?ip) (concat (tl (g_noise w)))"
    using g cc unfolding good_guess_def by (simp_all add: list_all_append del: concat.simps)
  have ok0: "tracked_ok (g_lim w)" "others ?ip (g_lim w) + length ?xs < max_tracked_ips"
    using g len by (simp_all add: good_guess_def)
  note k = noisy_keeps [OF ok0(1) xs(1) ok0(2)]
  have log: "log_of ?r ?ip = log_of (g_lim w) ?ip" using k by (simp add: log_of_def)
  have w': "g_lim w' = (if ok then record_attempt a t ?c else ?c)" "g_noise w' = tl (g_noise w)"
    "ok = snd (is_allowed a t ?r)"
    using s by (auto simp: admit_guess_def is_allowed_def Let_def)
  let ?V = "effective_window ?r ?ip"
  have V: "W \<le> ?V" using g k backoff_ge_base by (simp add: good_guess_def window_backoff)
  have again: "log_of (cleanup ?ip t ?c) ?ip = log_of ?c ?ip"
  proof (cases "log_of ?c ?ip = []")
    case False
    then have "effective_window ?c ?ip = ?V"
      using cleanup_failures [OF False] by (simp add: window_backoff)
    then show ?thesis by (simp add: cleanup_log)
  qed (simp add: cleanup_log)
  have c: "log_of ?c ?ip = filter (\<lambda>x. t - ?V < x) (log_of (g_lim w) ?ip)"
    by (simp add: cleanup_log log)
  have okc: "tracked_ok ?c" "others ?ip ?c \<le> others ?ip (g_lim w) + length ?xs"
    using k tracked_ok_cleanup others_cleanup [of ?ip ?ip t ?r] by auto
  have "others ?ip (g_lim w') \<le> others ?ip (g_lim w) + length ?xs"
    using w'(1) okc(2) others_record [of ?ip a t ?c] by auto
  then have "good_guess a n W w'"
    using g len xs(2) okc(1) w'(1,2) k by (auto simp: good_guess_def tracked_ok_record)
  moreover have "int (length (log_of ?c ?ip)) < n" if ok
  proof -
    have "0 < n" "rl_max ?r = n" using g k by (auto simp: good_guess_def)
    then show ?thesis using that w'(3) unfolding allowed_iff by auto
  qed
  moreover have "log_of (g_lim w') ?ip = (if ok then log_of ?c ?ip @ [t] else log_of ?c ?ip)"
    using w'(1) record_log(1) [of a t ?c] again by simp
  ultimately show ?thesis using V c unfolding Let_def by (intro conjI exI [of _ ?V]) auto
qed

lemma filter_wider: "W \<le> V \<Longrightarrow> filter (\<lambda>x. t - W < x) (filter (\<lambda>x. t - V < (x :: real)) xs) = filter (\<lambda>x. t - W < x) xs"
  by (auto intro: filter_cong)

interpretation guess_limit:
  sliding_limit W "nat n" "admit_guess a" "\<lambda>w. log_of (g_lim w) (normalize_ip a)" "good_guess a n W"
  for W n a
proof unfold_locales
  fix s s' t b
  assume g: "good_guess a n W s"
  show "0 < W" using g by (simp add: good_guess_def)
  show "good_guess a n W s'" if "admit_guess a s t = (s', b)"
    using admit_guess_step [OF g that] by blast
  show "set (log_of (g_lim s') (normalize_ip a)) \<subseteq> insert t (set (log_of (g_lim s) (normalize_ip a)))"
    if "admit_guess a s t = (s', b)"
    using admit_guess_step [OF g that] by (auto simp: Let_def split: if_splits)
  show "mset (filter (\<lambda>x. t - W < x) (log_of (g_lim s) (normalize_ip a))) \<subseteq>#
      mset (filter (\<lambda>x. t - W < x) (log_of (g_lim s') (normalize_ip a)))"
    if "admit_guess a s t = (s', False)"
  proof -
    note step = admit_guess_step [OF g that]
    obtain V where "W \<le> V" "log_of (g_lim s') (normalize_ip a) =
        filter (\<lambda>x. t - V < x) (log_of (g_lim s) (normalize_ip a))"
      using step by (auto simp: Let_def)
    then show ?thesis by (simp only: filter_wider subset_mset.order_refl)
  qed
  assume "admit_guess a s t = (s', True)"
  then obtain V where V: "W \<le> V"
    "int (length (filter (\<lambda>x. t - V < x) (log_of (g_lim s) (normalize_ip a)))) < n"
    "log_of (g_lim s') (normalize_ip a) =
       filter (\<lambda>x. t - V < x) (log_of (g_lim s) (normalize_ip a)) @ [t]"
    using admit_guess_step [OF g] by (fastforce simp: Let_def)
  have "length (filter (\<lambda>x. t - W < x) (log_of (g_lim s) (normalize_ip a))) \<le>
      length (filter (\<lambda>x. t - V < x) (log_of (g_lim s) (normalize_ip a)))"
    by (metis V(1) filter_wider length_filter_le)
  then show "length (filter (\<lambda>x. t - W < x) (log_of (g_lim s) (normalize_ip a))) < nat n"
    using V(2) by linarith
  show "mset (filter (\<lambda>x. t - W < x) (log_of (g_lim s) (normalize_ip a)) @ [t]) \<subseteq>#
      mset (filter (\<lambda>x. t - W < x) (log_of (g_lim s') (normalize_ip a)))"
    unfolding V(3) filter_append filter_wider [OF V(1)] using \<open>0 < W\<close> by simp
qed

primrec guesses :: "address \<Rightarrow> guess_world \<Rightarrow> time list \<Rightarrow> time list" where
  "guesses a w [] = []"
| "guesses a w (t # ts) =
     (case admit_guess a w t of (w', ok) \<Rightarrow> (if ok then [t] else []) @ guesses a w' ts)"

lemma guesses_granted: "guesses a w ts = guess_limit.granted a w ts"
  by (induction ts arbitrary: w) (auto split: prod.splits)

text \<open>From one address, in whatever textual form, at most \<open>max_attempts\<close> wrong passwords are
  checked within any base window, whatever other addresses do meanwhile, as long as fewer than
  10,000 addresses are involved.\<close>

theorem guess_rate_bounded:
  assumes "0 < n" "0 < w" "sorted ts"
    and "list_all (\<lambda>(b, _). normalize_ip b \<noteq> normalize_ip a) (concat noise)"
    and "length (concat noise) < max_tracked_ips"
  shows "int (window_count (real_of_int w) x
    (guesses a \<lparr>g_lim = new_rate_limiter n w, g_noise = noise\<rparr> ts)) \<le> n"
proof -
  let ?w = "\<lparr>g_lim = new_rate_limiter n w, g_noise = noise\<rparr>"
  have "good_guess a n (real_of_int w) ?w"
    using assms by (simp add: good_guess_def tracked_ok_def new_rate_limiter_def others_def)
  moreover have "log_of (new_rate_limiter n w) (normalize_ip a) = []"
    by (simp add: log_of_def new_rate_limiter_def)
  ultimately have "window_count (real_of_int w) x (guess_limit.granted a ?w ts) \<le> nat n"
    using assms(3) by (intro guess_limit.granted_window [where n = n]) auto
  then show ?thesis using assms(1) unfolding guesses_granted by linarith
qed

theorem guess_rate_bounded_witness:
  "window_count 60 0 (guesses (V6 0xFFFF7F000001 None)
     \<lparr>g_lim = new_rate_limiter 2 60, g_noise = [[(V4 1, 0)]]\<rparr> [1, 2, 3]) \<le> 2"
  using guess_rate_bounded [of 2 60 "[1, 2, 3]" "V6 0xFFFF7F000001 None" "[[(V4 1, 0)]]" 0]
  by (simp add: normalize_ip_def ipv4_mapped_def max_tracked_ips_def del: guesses.simps)

end
