(* ===== verification/Session_Store.thy ===== *)
theory Session_Store
  imports Login_Limiter
begin

text \<open>
  The two session stores of \<open>web_dashboard/auth.py\<close>, the plain dictionary and
  \<open>SqliteSessionStore\<close>, behind the one interface \<open>AuthManager\<close> uses.  The table is an
  association list in row order: \<open>INSERT OR REPLACE\<close> gives a replaced row a new row
  number, so it moves to the end.  A session survives \<open>json.dumps\<close> and \<open>json.loads\<close>
  unchanged.
\<close>

record session =
  created_at :: time
  last_seen :: time
  remote_ip :: address
  pw_checksum :: "string option"
  expires_at :: time

record sqlite_store =
  rows :: "(string, session) pydict"
  conn_open :: bool

subsection \<open>The dictionary\<close>

definition mem_set :: "string \<Rightarrow> session \<Rightarrow> (string, session) pydict \<Rightarrow> py_error + (string, session) pydict" where
  "mem_set k v d = Inr (AList.update k v d)"

definition mem_del :: "string \<Rightarrow> (string, session) pydict \<Rightarrow> py_error + (string, session) pydict" where
  "mem_del k d = (if map_of d k = None then Inl KeyError else Inr (AList.delete k d))"

subsection \<open>SQLite\<close>

definition sql_open :: "(string, session) pydict \<Rightarrow> sqlite_store" where
  "sql_open persisted = \<lparr>rows = persisted, conn_open = True\<rparr>"

definition sql_get :: "string \<Rightarrow> sqlite_store \<Rightarrow> session option" where
  "sql_get k s = (if conn_open s then map_of (rows s) k else None)"

definition sql_item :: "string \<Rightarrow> sqlite_store \<Rightarrow> py_error + session" where
  "sql_item k s = (case sql_get k s of None \<Rightarrow> Inl KeyError | Some v \<Rightarrow> Inr v)"

definition sql_set :: "string \<Rightarrow> session \<Rightarrow> sqlite_store \<Rightarrow> py_error + sqlite_store" where
  "sql_set k v s =
     (if \<not> conn_open s then Inl RuntimeError
      else Inr (s\<lparr>rows := AList.delete k (rows s) @ [(k, v)]\<rparr>))"

definition sql_del :: "string \<Rightarrow> sqlite_store \<Rightarrow> py_error + sqlite_store" where
  "sql_del k s =
     (if \<not> conn_open s then Inl RuntimeError
      else if map_of (rows s) k = None then Inl KeyError
      else Inr (s\<lparr>rows := AList.delete k (rows s)\<rparr>))"

definition sql_contains :: "string \<Rightarrow> sqlite_store \<Rightarrow> bool" where
  "sql_contains k s = (conn_open s \<and> map_of (rows s) k \<noteq> None)"

definition sql_close :: "sqlite_store \<Rightarrow> sqlite_store" where
  "sql_close s = s\<lparr>conn_open := False\<rparr>"

definition sql_len :: "sqlite_store \<Rightarrow> nat" where
  "sql_len s = (if conn_open s then length (rows s) else 0)"

definition sql_items :: "sqlite_store \<Rightarrow> (string \<times> session) list" where
  "sql_items s = (if conn_open s then rows s else [])"

text \<open>\<open>pop(token, default)\<close>: the store and the popped session, \<open>None\<close> for the default.\<close>

definition sql_pop :: "string \<Rightarrow> sqlite_store \<Rightarrow> sqlite_store \<times> session option" where
  "sql_pop k s =
     (if \<not> conn_open s then (s, None)
      else case map_of (rows s) k of
        None \<Rightarrow> (s, None)
      | Some v \<Rightarrow> (s\<lparr>rows := AList.delete k (rows s)\<rparr>, Some v))"

definition sql_cleanup_expired :: "time \<Rightarrow> sqlite_store \<Rightarrow> sqlite_store \<times> nat" where
  "sql_cleanup_expired now s =
     (if \<not> conn_open s then (s, 0)
      else let kept = filter (\<lambda>(_, v). \<not> expires_at v \<le> now) (rows s)
           in (s\<lparr>rows := kept\<rparr>, length (rows s) - length kept))"

subsection \<open>The store the manager holds\<close>

datatype store = Memory "(string, session) pydict" | Sqlite sqlite_store

definition st_get :: "string \<Rightarrow> store \<Rightarrow> session option" where
  "st_get k st = (case st of Memory d \<Rightarrow> map_of d k | Sqlite s \<Rightarrow> sql_get k s)"

definition st_set :: "string \<Rightarrow> session \<Rightarrow> store \<Rightarrow> py_error + store" where
  "st_set k v st =
     (case st of
        Memory d \<Rightarrow> (case mem_set k v d of Inl e \<Rightarrow> Inl e | Inr d' \<Rightarrow> Inr (Memory d'))
      | Sqlite s \<Rightarrow> (case sql_set k v s of Inl e \<Rightarrow> Inl e | Inr s' \<Rightarrow> Inr (Sqlite s')))"

definition st_del :: "string \<Rightarrow> store \<Rightarrow> py_error + store" where
  "st_del k st =
     (case st of
        Memory d \<Rightarrow> (case mem_del k d of Inl e \<Rightarrow> Inl e | Inr d' \<Rightarrow> Inr (Memory d'))
      | Sqlite s \<Rightarrow> (case sql_del k s of Inl e \<Rightarrow> Inl e | Inr s' \<Rightarrow> Inr (Sqlite s')))"

definition st_pop :: "string \<Rightarrow> store \<Rightarrow> store" where
  "st_pop k st =
     (case st of Memory d \<Rightarrow> Memory (AList.delete k d) | Sqlite s \<Rightarrow> Sqlite (fst (sql_pop k s)))"

definition st_items :: "store \<Rightarrow> (string \<times> session) list" where
  "st_items st = (case st of Memory d \<Rightarrow> d | Sqlite s \<Rightarrow> sql_items s)"

definition st_len :: "store \<Rightarrow> nat" where
  "st_len st = (case st of Memory d \<Rightarrow> length d | Sqlite s \<Rightarrow> sql_len s)"

definition st_ok :: "store \<Rightarrow> bool" where
  "st_ok st = (case st of Memory d \<Rightarrow> dict_ok d | Sqlite s \<Rightarrow> conn_open s \<and> dict_ok (rows s))"

subsection \<open>The contract\<close>

text \<open>What the manager relies on: a store in use behaves as a finite map, deletion of a missing token
  raises, and iteration lists every token once.\<close>

locale session_store =
  fixes get :: "'k \<Rightarrow> 's \<Rightarrow> 'v option"
    and put :: "'k \<Rightarrow> 'v \<Rightarrow> 's \<Rightarrow> py_error + 's"
    and del :: "'k \<Rightarrow> 's \<Rightarrow> py_error + 's"
    and items :: "'s \<Rightarrow> ('k \<times> 'v) list"
    and ok :: "'s \<Rightarrow> bool"
  assumes put_total: "ok s \<Longrightarrow> \<exists>s'. put k v s = Inr s'"
    and put_ok: "ok s \<Longrightarrow> put k v s = Inr s' \<Longrightarrow> ok s'"
    and get_put: "ok s \<Longrightarrow> put k v s = Inr s' \<Longrightarrow> get k' s' = (if k' = k then Some v else get k' s)"
    and del_total: "ok s \<Longrightarrow> get k s \<noteq> None \<Longrightarrow> \<exists>s'. del k s = Inr s'"
    and del_missing: "ok s \<Longrightarrow> get k s = None \<Longrightarrow> del k s = Inl KeyError"
    and del_ok: "ok s \<Longrightarrow> del k s = Inr s' \<Longrightarrow> ok s'"
    and get_del: "ok s \<Longrightarrow> del k s = Inr s' \<Longrightarrow> get k' s' = (if k' = k then None else get k' s)"
    and items_distinct: "ok s \<Longrightarrow> distinct (map fst (items s))"
    and items_get: "ok s \<Longrightarrow> map_of (items s) k = get k s"
begin

primrec del_each :: "'k list \<Rightarrow> 's \<Rightarrow> 's" where
  "del_each [] s = s"
| "del_each (k # ks) s = (case del k s of Inl _ \<Rightarrow> del_each ks s | Inr s' \<Rightarrow> del_each ks s')"

lemma del_each_get: "ok s \<Longrightarrow> ok (del_each ks s) \<and>
    get k (del_each ks s) = (if k \<in> set ks then None else get k s)"
proof (induction ks arbitrary: s)
  case (Cons x ks)
  show ?case
  proof (cases "del x s")
    case (Inl e)
    then have "get x s = None" using del_total [OF Cons.prems, of x] by (cases "get x s") auto
    then show ?thesis using Cons.IH [OF Cons.prems] Inl by auto
  next
    case (Inr s')
    from Cons.IH [OF del_ok [OF Cons.prems this]] get_del [OF Cons.prems Inr] Inr show ?thesis by auto
  qed
qed simp

lemma items_member: "ok s \<Longrightarrow> (k, v) \<in> set (items s) \<longleftrightarrow> get k s = Some v"
  using items_distinct items_get by (metis map_of_eq_Some_iff)

lemma keys_member: "ok s \<Longrightarrow> k \<in> set (map fst (items s)) \<longleftrightarrow> get k s \<noteq> None"
proof -
  assume s: "ok s"
  have "k \<in> set (map fst (items s)) \<longleftrightarrow> map_of (items s) k \<noteq> None"
    by (simp add: map_of_eq_None_iff)
  then show ?thesis using items_get [OF s] by simp
qed

lemma del_all_empty: "ok s \<Longrightarrow> ok (del_each (map fst (items s)) s) \<and>
    get k (del_each (map fst (items s)) s) = None"
  using del_each_get [of s "map fst (items s)" k] keys_member [of s k] by auto

lemma length_put:
  assumes "ok s" "put k v s = Inr s'"
  shows "length (items s') = length (items s) + (if get k s = None then 1 else 0)"
proof -
  have d: "distinct (map fst (items s))" "distinct (map fst (items s'))"
    using items_distinct put_ok assms by blast+
  have "set (map fst (items s')) = insert k (set (map fst (items s)))"
  proof (rule set_eqI)
    fix x
    show "x \<in> set (map fst (items s')) \<longleftrightarrow> x \<in> insert k (set (map fst (items s)))"
      using keys_member [OF put_ok [OF assms], of x] keys_member [OF assms(1), of x]
        get_put [OF assms, of x] by simp
  qed
  then have "card (set (map fst (items s'))) = card (set (map fst (items s))) + (if get k s = None then 1 else 0)"
    using keys_member [OF assms(1), of k] by (simp add: insert_absorb)
  then show ?thesis using distinct_card [OF d(1)] distinct_card [OF d(2)] by simp
qed

lemma length_del:
  assumes "ok s" "del k s = Inr s'"
  shows "Suc (length (items s')) = length (items s)"
proof -
  have d: "distinct (map fst (items s))" "distinct (map fst (items s'))"
    using items_distinct del_ok assms by blast+
  have "get k s \<noteq> None" using del_missing [OF assms(1), of k] assms(2) by (cases "get k s") auto
  then have k: "k \<in> set (map fst (items s))" using keys_member [OF assms(1)] by blast
  have "set (map fst (items s')) = set (map fst (items s)) - {k}"
  proof (rule set_eqI)
    fix x
    show "x \<in> set (map fst (items s')) \<longleftrightarrow> x \<in> set (map fst (items s)) - {k}"
      using keys_member [OF del_ok [OF assms], of x] keys_member [OF assms(1), of x]
        get_del [OF assms, of x] by simp
  qed
  then have "card (set (map fst (items s'))) = card (set (map fst (items s))) - 1" using k by simp
  moreover have "0 < card (set (map fst (items s)))" using k by (metis List.finite_set card_gt_0_iff emptyE)
  ultimately show ?thesis using distinct_card [OF d(1)] distinct_card [OF d(2)]
    by (cases "items s") simp_all
qed

end

interpretation memory: session_store "\<lambda>k d. map_of d k" mem_set mem_del "\<lambda>d. d" "\<lambda>d. dict_ok d"
  by unfold_locales (auto simp: mem_set_def mem_del_def dict_simps split: if_splits)

lemma map_of_append_end: "map_of (AList.delete k d @ [(k, v)]) k' = (if k' = k then Some v else map_of d k')"
  by (simp add: map_add_def dict_simps split: option.split)

definition sql_ok :: "sqlite_store \<Rightarrow> bool" where
  "sql_ok s \<longleftrightarrow> conn_open s \<and> dict_ok (rows s)"

interpretation sqlite: session_store sql_get sql_set sql_del sql_items sql_ok
proof unfold_locales
  fix k k' :: string and v :: session and s s' :: sqlite_store
  assume "sql_ok s"
  then have ok: "conn_open s" "dict_ok (rows s)" by (simp_all add: sql_ok_def)
  show "\<exists>s'. sql_set k v s = Inr s'" using ok by (simp add: sql_set_def)
  show "sql_get k s \<noteq> None \<Longrightarrow> \<exists>s'. sql_del k s = Inr s'" using ok by (simp add: sql_get_def sql_del_def)
  show "sql_get k s = None \<Longrightarrow> sql_del k s = Inl KeyError" using ok by (simp add: sql_get_def sql_del_def)
  show "distinct (map fst (sql_items s))" "map_of (sql_items s) k = sql_get k s"
    using ok by (simp_all add: sql_items_def sql_get_def)
  have k: "k \<notin> keys_of (AList.delete k (rows s))" by (simp add: dict_simps)
  show "sql_set k v s = Inr s' \<Longrightarrow> sql_ok s'"
    using ok k by (auto simp: sql_ok_def sql_set_def distinct_delete)
  show "sql_set k v s = Inr s' \<Longrightarrow> sql_get k' s' = (if k' = k then Some v else sql_get k' s)"
    using ok map_of_append_end [of k "rows s" v k'] by (auto simp: sql_set_def sql_get_def)
  show "sql_del k s = Inr s' \<Longrightarrow> sql_ok s'"
    using ok by (auto simp: sql_ok_def sql_del_def distinct_delete split: if_splits)
  show "sql_del k s = Inr s' \<Longrightarrow> sql_get k' s' = (if k' = k then None else sql_get k' s)"
    using ok by (auto simp: sql_del_def sql_get_def dict_simps split: if_splits)
qed

lemma st_cases:
  obtains (Mem) d where "st = Memory d" "st_ok st = dict_ok d"
      "\<And>k. st_get k st = map_of d k" "\<And>k v. st_set k v st = map_sum id Memory (mem_set k v d)"
      "\<And>k. st_del k st = map_sum id Memory (mem_del k d)" "st_items st = d"
  | (Sql) s where "st = Sqlite s" "st_ok st = sql_ok s"
      "\<And>k. st_get k st = sql_get k s" "\<And>k v. st_set k v st = map_sum id Sqlite (sql_set k v s)"
      "\<And>k. st_del k st = map_sum id Sqlite (sql_del k s)" "st_items st = sql_items s"
  by (cases st)
    (auto simp: st_ok_def sql_ok_def st_get_def st_set_def st_del_def st_items_def split: sum.splits)

lemma map_sum_Inr: "map_sum id f x = Inr y \<longleftrightarrow> (\<exists>z. x = Inr z \<and> y = f z)"
  by (cases x) auto

lemma st_ok_simps [simp]:
  "st_ok (Memory d) = dict_ok d" "st_ok (Sqlite s) = sql_ok s"
  "st_get k (Memory d) = map_of d k" "st_get k (Sqlite s) = sql_get k s"
  by (simp_all add: st_ok_def sql_ok_def st_get_def)

interpretation sessions: session_store st_get st_set st_del st_items st_ok
proof unfold_locales
  fix k k' :: string and v :: session and s s' :: store
  assume ok: "st_ok s"
  show "\<exists>s'. st_set k v s = Inr s'"
    using ok memory.put_total [of _ k v] sqlite.put_total [of _ k v]
    by (cases s rule: st_cases) (auto simp: map_sum_Inr)
  show "st_get k s \<noteq> None \<Longrightarrow> \<exists>s'. st_del k s = Inr s'"
    using ok memory.del_total [of _ k] sqlite.del_total [of _ k]
    by (cases s rule: st_cases) (auto simp: map_sum_Inr)
  show "st_get k s = None \<Longrightarrow> st_del k s = Inl KeyError"
    using ok memory.del_missing [of _ k] sqlite.del_missing [of _ k]
    by (cases s rule: st_cases) auto
  show "distinct (map fst (st_items s))" "map_of (st_items s) k = st_get k s"
    using ok sqlite.items_distinct sqlite.items_get by (cases s rule: st_cases; simp)+
  show "st_ok s'" if a: "st_set k v s = Inr s'"
    using ok a memory.put_ok [of _ k v] sqlite.put_ok [of _ k v]
    by (cases s rule: st_cases) (auto simp: map_sum_Inr)
  show "st_get k' s' = (if k' = k then Some v else st_get k' s)" if a: "st_set k v s = Inr s'"
    using ok a memory.get_put [of _ k v _ k'] sqlite.get_put [of _ k v _ k']
    by (cases s rule: st_cases) (auto simp: map_sum_Inr)
  show "st_ok s'" if a: "st_del k s = Inr s'"
    using ok a memory.del_ok [of _ k] sqlite.del_ok [of _ k]
    by (cases s rule: st_cases) (auto simp: map_sum_Inr)
  show "st_get k' s' = (if k' = k then None else st_get k' s)" if a: "st_del k s = Inr s'"
    using ok a memory.get_del [of _ k _ k'] sqlite.get_del [of _ k _ k']
    by (cases s rule: st_cases) (auto simp: map_sum_Inr)
qed

lemma st_len_items: "st_ok st \<Longrightarrow> st_len st = length (st_items st)"
  by (cases st) (simp_all add: st_len_def st_items_def sql_ok_def sql_len_def sql_items_def)

lemma st_pop_get:
  "st_ok st \<Longrightarrow> st_ok (st_pop k st) \<and> st_get k' (st_pop k st) = (if k' = k then None else st_get k' st)"
  by (cases st) (auto simp: sql_ok_def st_pop_def sql_pop_def sql_get_def dict_simps
      split: option.splits)

subsection \<open>The persistent store refines the dictionary\<close>

datatype store_op = Put string session | Del string | Pop string

text \<open>An operation: the store afterwards, and the exception it raises, if any.\<close>

definition st_step :: "store_op \<Rightarrow> store \<Rightarrow> store \<times> py_error option" where
  "st_step x st =
     (case x of
        Put k v \<Rightarrow> (case st_set k v st of Inl e \<Rightarrow> (st, Some e) | Inr st' \<Rightarrow> (st', None))
      | Del k \<Rightarrow> (case st_del k st of Inl e \<Rightarrow> (st, Some e) | Inr st' \<Rightarrow> (st', None))
      | Pop k \<Rightarrow> (st_pop k st, None))"

primrec st_run :: "store_op list \<Rightarrow> store \<Rightarrow> store \<times> py_error option list" where
  "st_run [] st = (st, [])"
| "st_run (x # xs) st =
     (case st_step x st of (st1, e) \<Rightarrow> (case st_run xs st1 of (st2, es) \<Rightarrow> (st2, e # es)))"

definition st_alike :: "store \<Rightarrow> store \<Rightarrow> bool" where
  "st_alike a b \<longleftrightarrow> st_ok a \<and> st_ok b \<and> (\<forall>k. st_get k a = st_get k b)"

lemma st_alike_step:
  assumes "st_alike a b"
  shows "st_alike (fst (st_step x a)) (fst (st_step x b)) \<and> snd (st_step x a) = snd (st_step x b)"
proof -
  have ok: "st_ok a" "st_ok b" and get: "st_get k a = st_get k b" for k
    using assms by (simp_all add: st_alike_def)
  show ?thesis
  proof (cases x)
    case (Put k v)
    obtain a' b' where "st_set k v a = Inr a'" "st_set k v b = Inr b'"
      using sessions.put_total ok by meson
    then show ?thesis
      using Put ok get sessions.put_ok sessions.get_put by (simp add: st_step_def st_alike_def)
  next
    case (Del k)
    show ?thesis
    proof (cases "st_get k a")
      case None
      then show ?thesis using Del assms ok get sessions.del_missing by (simp add: st_step_def)
    next
      case (Some v)
      obtain a' b' where "st_del k a = Inr a'" "st_del k b = Inr b'"
        using sessions.del_total [of a k] sessions.del_total [of b k] ok get Some by fastforce
      then show ?thesis
        using Del ok get sessions.del_ok sessions.get_del by (simp add: st_step_def st_alike_def)
    qed
  next
    case (Pop k)
    then show ?thesis using ok get st_pop_get by (simp add: st_step_def st_alike_def)
  qed
qed

lemma st_alike_len:
  assumes "st_alike a b"
  shows "st_len a = st_len b"
proof -
  have ok: "st_ok a" "st_ok b" and get: "st_get k a = st_get k b" for k
    using assms by (simp_all add: st_alike_def)
  have "set (map fst (st_items a)) = set (map fst (st_items b))"
  proof (rule set_eqI)
    fix k show "k \<in> set (map fst (st_items a)) \<longleftrightarrow> k \<in> set (map fst (st_items b))"
      unfolding sessions.keys_member [OF ok(1)] sessions.keys_member [OF ok(2)] get ..
  qed
  then show ?thesis
    using distinct_card [OF sessions.items_distinct [OF ok(1)]] distinct_card [OF sessions.items_distinct [OF ok(2)]]
      st_len_items [OF ok(1)] st_len_items [OF ok(2)] by simp
qed

text \<open>C33. The SQLite session store is a faithful replacement of the dictionary: after any sequence of
  insertions, deletions and pops both give the same answer for every token and have the same size, and
  every operation raised in one exactly when it raised in the other.\<close>

theorem sqlite_refines_dict:
  "st_get k (fst (st_run xs (Sqlite (sql_open [])))) = st_get k (fst (st_run xs (Memory []))) \<and>
   st_len (fst (st_run xs (Sqlite (sql_open [])))) = st_len (fst (st_run xs (Memory []))) \<and>
   snd (st_run xs (Sqlite (sql_open []))) = snd (st_run xs (Memory []))"
proof -
  have "st_alike (fst (st_run xs a)) (fst (st_run xs b)) \<and> snd (st_run xs a) = snd (st_run xs b)"
    if "st_alike a b" for a b
    using that
  proof (induction xs arbitrary: a b)
    case (Cons x xs)
    from Cons.IH [OF conjunct1 [OF st_alike_step [OF Cons.prems, of x]]] st_alike_step [OF Cons.prems, of x]
    show ?case by (simp add: split_beta)
  qed simp
  moreover have "st_alike (Sqlite (sql_open [])) (Memory [])"
    by (simp add: st_alike_def sql_ok_def sql_open_def sql_get_def)
  ultimately have "st_alike (fst (st_run xs (Sqlite (sql_open [])))) (fst (st_run xs (Memory []))) \<and>
      snd (st_run xs (Sqlite (sql_open []))) = snd (st_run xs (Memory []))" by blast
  then show ?thesis using st_alike_len unfolding st_alike_def by blast
qed

end
