(* ===== verification/Py_Text.thy ===== *)
theory Py_Text
  imports RPi_Prelude
begin

text \<open>
  Python's conversions between decimal text and integers, \<open>int(s)\<close> and \<open>str(n)\<close>,
  \<open>str.strip\<close> and hexadecimal digits, for strings of single-byte characters.
\<close>

subsection \<open>Reading\<close>

text \<open>\<open>int(s)\<close> for ASCII text: white space around, a sign, digits with single underscores inside.\<close>

definition digit_value :: "char \<Rightarrow> nat option" where
  "digit_value c = (let n = (of_char c :: nat) in if 48 \<le> n \<and> n \<le> 57 then Some (n - 48) else None)"

fun read_digits :: "nat \<Rightarrow> string \<Rightarrow> nat option" where
  "read_digits acc [] = Some acc"
| "read_digits acc [c] =
     (case digit_value c of Some v \<Rightarrow> Some (10 * acc + v) | None \<Rightarrow> None)"
| "read_digits acc (c # d # s) =
     (if c = CHR ''_'' then
        (case digit_value d of Some v \<Rightarrow> read_digits (10 * acc + v) s | None \<Rightarrow> None)
      else case digit_value c of Some v \<Rightarrow> read_digits (10 * acc + v) (d # s) | None \<Rightarrow> None)"

definition read_nat :: "string \<Rightarrow> nat option" where
  "read_nat s = (case s of
     [] \<Rightarrow> None
   | c # r \<Rightarrow> (case digit_value c of None \<Rightarrow> None | Some v \<Rightarrow> read_digits v r))"

text \<open>\<open>str.strip\<close> and \<open>int\<close> know more white space than \<open>bytes.fromhex\<close>; the credential files are
  taken to hold single-byte characters.\<close>

definition py_space :: "char \<Rightarrow> bool" where
  "py_space c = (let n = (of_char c :: nat) in
     9 \<le> n \<and> n \<le> 13 \<or> 28 \<le> n \<and> n \<le> 32 \<or> n = 133 \<or> n = 160)"

definition py_strip :: "string \<Rightarrow> string" where
  "py_strip s = rev (dropWhile py_space (rev (dropWhile py_space s)))"

definition py_int :: "string \<Rightarrow> int option" where
  "py_int s = (case py_strip s of
     [] \<Rightarrow> None
   | c # r \<Rightarrow> if c = CHR ''-'' then map_option (\<lambda>n. - int n) (read_nat r)
              else if c = CHR ''+'' then map_option int (read_nat r)
              else map_option int (read_nat (c # r)))"

subsection \<open>Writing\<close>

fun show_nat :: "nat \<Rightarrow> string" where
  "show_nat n =
     (if n < 10 then [char_of (48 + n)] else show_nat (n div 10) @ [char_of (48 + n mod 10)])"

declare show_nat.simps [simp del]

definition show_int :: "int \<Rightarrow> string" where
  "show_int i = (if i < 0 then CHR ''-'' # show_nat (nat (- i)) else show_nat (nat i))"

definition dec_value :: "string \<Rightarrow> nat" where
  "dec_value s = foldl (\<lambda>a c. 10 * a + (of_char c - 48)) 0 s"

lemma dec_value_show: "dec_value (show_nat n) = n"
proof (induction n rule: show_nat.induct)
  case (1 n)
  show ?case
  proof (cases "n < 10")
    case True
    then show ?thesis by (subst show_nat.simps) (simp add: dec_value_def)
  next
    case False
    have "n mod 10 < 10" by simp
    then have "(of_char (char_of (48 + n mod 10)) :: nat) = 48 + n mod 10" by simp
    then show ?thesis using 1 [OF False] False by (subst show_nat.simps) (simp add: dec_value_def)
  qed
qed

lemma show_nat_inj [simp]: "show_nat m = show_nat n \<longleftrightarrow> m = n"
  using dec_value_show by metis

subsection \<open>Case and search\<close>

text \<open>\<open>str.lower\<close> of an ASCII character; the texts compared with it are ASCII.\<close>

definition lower_char :: "char \<Rightarrow> char" where
  "lower_char c = (let n = (of_char c :: nat) in if 65 \<le> n \<and> n \<le> 90 then char_of (n + 32) else c)"

text \<open>\<open>needle in text\<close>\<close>

fun occurs_in :: "string \<Rightarrow> string \<Rightarrow> bool" where
  "occurs_in needle [] = (needle = [])"
| "occurs_in needle (c # s) = (take (length needle) (c # s) = needle \<or> occurs_in needle s)"

subsection \<open>Hexadecimal digits\<close>

definition hex_char :: "nat \<Rightarrow> char" where
  "hex_char n = ''0123456789abcdef'' ! n"

definition hex_value :: "char \<Rightarrow> nat option" where
  "hex_value c = (let n = (of_char c :: nat) in
     if 48 \<le> n \<and> n \<le> 57 then Some (n - 48)
     else if 97 \<le> n \<and> n \<le> 102 then Some (n - 87)
     else if 65 \<le> n \<and> n \<le> 70 then Some (n - 55)
     else None)"

function show_hex :: "int \<Rightarrow> string" where
  "show_hex n =
     (if n < 16 then [hex_char (nat n)] else show_hex (n div 16) @ [hex_char (nat (n mod 16))])"
  by pat_completeness auto

termination show_hex
  by (relation "measure nat") auto

declare show_hex.simps [simp del]

text \<open>\<open>f"{n:08x}"\<close> for \<open>n\<close> of at least 0.\<close>

definition show_hex8 :: "int \<Rightarrow> string" where
  "show_hex8 n = replicate (8 - length (show_hex n)) CHR ''0'' @ show_hex n"

text \<open>\<open>int(s, 16)\<close> of a text of hexadecimal digits.\<close>

definition hex_num :: "string \<Rightarrow> int" where
  "hex_num s = foldl (\<lambda>a c. 16 * a + (case hex_value c of Some v \<Rightarrow> int v | None \<Rightarrow> 0)) 0 s"

lemma hex_value_char: "n < 16 \<Longrightarrow> hex_value (hex_char n) = Some n"
proof -
  assume "n < 16"
  then have "n \<in> set [0..<16]" by simp
  then show ?thesis by (auto simp: hex_char_def hex_value_def upt_rec)
qed

lemma hex_num_append:
  "hex_num (s @ [c]) = 16 * hex_num s + (case hex_value c of Some v \<Rightarrow> int v | None \<Rightarrow> 0)"
  by (simp add: hex_num_def)

lemma hex_digit_mod: "hex_value (hex_char (nat (n mod 16))) = Some (nat (n mod 16))"
  by (rule hex_value_char) (simp add: nat_less_iff)

lemma hex_num_show: "0 \<le> n \<Longrightarrow> hex_num (show_hex n) = n"
proof (induction n rule: show_hex.induct)
  case (1 n)
  show ?case
  proof (cases "n < 16")
    case True
    then show ?thesis using 1(2)
      by (subst show_hex.simps) (simp add: hex_num_def hex_value_char nat_less_iff)
  next
    case False
    then show ?thesis using 1(1) [OF False]
      by (subst show_hex.simps) (simp add: hex_num_append hex_digit_mod)
  qed
qed

lemma show_hex_digits: "0 \<le> n \<Longrightarrow> list_all (\<lambda>c. hex_value c \<noteq> None) (show_hex n)"
proof (induction n rule: show_hex.induct)
  case (1 n)
  then show ?case
    by (subst show_hex.simps) (simp add: hex_value_char hex_digit_mod nat_less_iff)
qed

lemma length_show_hex: "n < 16 ^ Suc k \<Longrightarrow> length (show_hex n) \<le> Suc k"
proof (induction k arbitrary: n)
  case 0
  then show ?case by (subst show_hex.simps) simp
next
  case (Suc k)
  then have "n < 16 * 16 ^ Suc k" by simp
  then have "n div 16 < 16 ^ Suc k" by linarith
  then show ?case using Suc.IH by (subst show_hex.simps) simp
qed

lemma hex_num_pad: "hex_num (replicate k CHR ''0'' @ s) = hex_num s"
proof (induction k)
  case (Suc k)
  have "hex_value CHR ''0'' = Some 0" by (simp add: hex_value_def)
  then have "hex_num (CHR ''0'' # t) = hex_num t" for t by (simp add: hex_num_def)
  then show ?case using Suc by simp
qed simp

lemma show_hex8:
  assumes "0 \<le> n" "n < 16 ^ 8"
  shows "length (show_hex8 n) = 8" "list_all (\<lambda>c. hex_value c \<noteq> None) (show_hex8 n)"
    "hex_num (show_hex8 n) = n"
proof -
  show "length (show_hex8 n) = 8" using length_show_hex [of n 7] assms by (simp add: show_hex8_def)
  have "hex_value CHR ''0'' = Some 0" by (simp add: hex_value_def)
  then have "list_all (\<lambda>c. hex_value c \<noteq> None) (replicate k CHR ''0'')" for k
    by (simp add: list_all_iff)
  with show_hex_digits [OF assms(1)] show "list_all (\<lambda>c. hex_value c \<noteq> None) (show_hex8 n)"
    unfolding show_hex8_def list_all_append by blast
  show "hex_num (show_hex8 n) = n" using assms(1) by (simp add: show_hex8_def hex_num_pad hex_num_show)
qed

lemma hex_value_space: "hex_value c \<noteq> None \<Longrightarrow> \<not> py_space c"
  by (auto simp: hex_value_def py_space_def Let_def split: if_splits)

lemma py_strip_solid:
  assumes "list_all (\<lambda>c. \<not> py_space c) s"
  shows "py_strip (s @ [CHR 0x0A]) = s"
proof -
  have nl: "py_space (CHR 0x0A)" by (simp add: py_space_def)
  have solid: "dropWhile py_space t = t" if "list_all (\<lambda>c. \<not> py_space c) t" for t
    using that by (cases t) auto
  have behind: "list_all (\<lambda>c. \<not> py_space c) (rev s)" using assms by (simp add: list_all_iff)
  have "rev (dropWhile py_space (s @ [CHR 0x0A])) = (if s = [] then [] else CHR 0x0A # rev s)"
    using assms nl by (cases s) auto
  then show ?thesis using solid [OF behind] nl by (simp add: py_strip_def split: if_splits)
qed

end
