(* ===== verification/Dashboard_Auth.thy ===== *)
theory Dashboard_Auth
  imports Session_Store Py_Text
begin

text \<open>
  \<open>web_dashboard/auth.py\<close>: password hashes, the credential files and \<open>AuthManager\<close>.  The
  key derivation \<open>hashlib.scrypt\<close> (of the encoded password, \<open>None\<close> when it raises), the
  digest \<open>sha256\<close> and random values are parameters; byte strings are lists of numbers below 256.
\<close>

type_synonym bytes = "nat list"
type_synonym kdf = "string \<Rightarrow> bytes \<Rightarrow> int \<Rightarrow> int \<Rightarrow> int \<Rightarrow> bytes option"

subsection \<open>Hexadecimal text and fields\<close>

definition to_hex :: "bytes \<Rightarrow> string" where
  "to_hex bs = concat (map (\<lambda>b. [hex_char (b div 16), hex_char (b mod 16)]) bs)"

definition ascii_space :: "char \<Rightarrow> bool" where
  "ascii_space c = (let n = (of_char c :: nat) in 9 \<le> n \<and> n \<le> 13 \<or> n = 32)"

text \<open>\<open>bytes.fromhex\<close>: white space is allowed between bytes, anything else raises.\<close>

fun from_hex :: "string \<Rightarrow> bytes option" where
  "from_hex [] = Some []"
| "from_hex [c] = (if ascii_space c then Some [] else None)"
| "from_hex (c # d # s) =
     (if ascii_space c then from_hex (d # s)
      else case (hex_value c, hex_value d) of
        (Some h, Some l) \<Rightarrow> map_option (\<lambda>bs. (16 * h + l) # bs) (from_hex s)
      | _ \<Rightarrow> None)"

fun split_on :: "char \<Rightarrow> string \<Rightarrow> string list" where
  "split_on c [] = [[]]"
| "split_on c (x # s) =
     (case split_on c s of
        [] \<Rightarrow> [[x]]
      | p # ps \<Rightarrow> if x = c then [] # p # ps else (x # p) # ps)"

subsection \<open>Password hashes\<close>

definition colon :: char where
  "colon = CHR 0x3A"

text \<open>\<open>hash_password\<close> with the salt it draws; \<open>None\<close> when the key derivation raises.\<close>

definition hash_password :: "kdf \<Rightarrow> bytes \<Rightarrow> string \<Rightarrow> string option" where
  "hash_password scrypt salt password =
     map_option (\<lambda>dk. ''scrypt'' @ [colon] @ to_hex salt @ [colon] @ ''16384'' @ [colon] @ ''8'' @
         [colon] @ ''2'' @ [colon] @ to_hex dk)
       (scrypt password salt (2 ^ 14) 8 2)"

definition check_key :: "kdf \<Rightarrow> string \<Rightarrow> bytes \<Rightarrow> int \<Rightarrow> int \<Rightarrow> int \<Rightarrow> bytes \<Rightarrow> bool" where
  "check_key scrypt password salt n r p expected =
     (case scrypt password salt n r p of None \<Rightarrow> False | Some dk \<Rightarrow> dk = expected)"

definition verify_password :: "kdf \<Rightarrow> string \<Rightarrow> string \<Rightarrow> bool" where
  "verify_password scrypt password stored =
     (case split_on colon stored of
        [scheme, salt, expected] \<Rightarrow>
          if scheme \<noteq> ''scrypt'' then False
          else (case (from_hex salt, from_hex expected) of
                  (Some s, Some e) \<Rightarrow> check_key scrypt password s (2 ^ 14) 8 1 e
                | _ \<Rightarrow> False)
      | [scheme, salt, n, r, p, expected] \<Rightarrow>
          if scheme \<noteq> ''scrypt'' then False
          else (case (from_hex salt, py_int n, py_int r, py_int p) of
                  (Some s, Some n, Some r, Some p) \<Rightarrow>
                    if 2 ^ 14 < n \<or> 8 < r \<or> 2 < p then False
                    else (case from_hex expected of
                            Some e \<Rightarrow> check_key scrypt password s n r p e
                          | None \<Rightarrow> False)
                | _ \<Rightarrow> False)
      | _ \<Rightarrow> False)"

subsection \<open>The credential files\<close>

record secret_dir =
  secret_text :: "string option"
  bootstrap_text :: "string option"

text \<open>\<open>write_secret_file_atomic\<close> fails before or after the new file replaced the old one.\<close>

datatype write_fate = Written | Not_Written | Written_But_Raised

definition write_secret :: "write_fate \<Rightarrow> string \<Rightarrow> string option \<Rightarrow> string option \<times> bool" where
  "write_secret f s old =
     (case f of Written \<Rightarrow> (Some s, True) | Not_Written \<Rightarrow> (old, False)
      | Written_But_Raised \<Rightarrow> (Some s, False))"

definition newline :: char where
  "newline = CHR 0x0A"

definition read_secret :: "nat \<Rightarrow> string option \<Rightarrow> py_error + string option" where
  "read_secret max_bytes f =
     (case f of
        None \<Rightarrow> Inr None
      | Some s \<Rightarrow> if max_bytes < length s then Inl OSError else Inr (Some (py_strip s)))"

record fresh =
  fresh_password :: string
  fresh_salt :: bytes
  write_bootstrap :: write_fate
  write_hash :: write_fate

text \<open>\<open>load_or_create_password_hash\<close>: the files afterwards and the hash with the generated
  password.\<close>

definition load_or_create ::
  "kdf \<Rightarrow> fresh \<Rightarrow> secret_dir \<Rightarrow> secret_dir \<times> (py_error + string \<times> string option)" where
  "load_or_create scrypt e d =
     (case read_secret 4096 (secret_text d) of
        Inl x \<Rightarrow> (d, Inl x)
      | Inr stored \<Rightarrow>
          if stored \<noteq> None \<and> stored \<noteq> Some '''' then (d, Inr (the stored, None))
          else
            (case read_secret 512 (bootstrap_text d) of
               Inl x \<Rightarrow> (d, Inl x)
             | Inr boot \<Rightarrow>
                 if boot \<noteq> None \<and> boot \<noteq> Some '''' then
                   (case hash_password scrypt (fresh_salt e) (the boot) of
                      None \<Rightarrow> (d, Inl ValueError)
                    | Some h \<Rightarrow>
                        let (s, ok) = write_secret (write_hash e) (h @ [newline]) (secret_text d)
                        in (d\<lparr>secret_text := s\<rparr>, if ok then Inr (h, None) else Inl OSError))
                 else
                   (case hash_password scrypt (fresh_salt e) (fresh_password e) of
                      None \<Rightarrow> (d, Inl ValueError)
                    | Some h \<Rightarrow>
                        let (b, okb) = write_secret (write_bootstrap e) (fresh_password e @ [newline])
                              (bootstrap_text d);
                            d1 = d\<lparr>bootstrap_text := b\<rparr>
                        in if \<not> okb then (d1, Inl OSError)
                           else
                             let (s, ok) = write_secret (write_hash e) (h @ [newline]) (secret_text d1)
                             in (d1\<lparr>secret_text := s\<rparr>,
                                 if ok then Inr (h, Some (fresh_password e)) else Inl OSError))))"

subsection \<open>The manager\<close>

record auth =
  pw_hash :: string
  checksum :: string
  session_timeout :: real
  max_sessions :: int
  store :: store
  limiter :: rate_limiter
  audit :: "(address, time \<times> nat) pydict"
  files :: secret_dir
  hash_file_set :: bool
  bootstrap_set :: bool

definition new_auth ::
  "(string \<Rightarrow> string) \<Rightarrow> string \<Rightarrow> real \<Rightarrow> int \<Rightarrow> store \<Rightarrow> int \<Rightarrow> int \<Rightarrow> secret_dir \<Rightarrow> bool \<Rightarrow> bool \<Rightarrow>
   py_error + auth" where
  "new_auth digest h timeout maxs st attempts win d hf bf =
     (if h = '''' then Inl ValueError
      else Inr \<lparr>pw_hash = h, checksum = digest h, session_timeout = timeout, max_sessions = maxs,
        store = st, limiter = new_rate_limiter attempts win, audit = [], files = d,
        hash_file_set = hf, bootstrap_set = bf\<rparr>)"

definition throttle :: "auth \<Rightarrow> real" where
  "throttle a = min 60 (session_timeout a / 10)"

record login_env =
  l_mono :: time
  l_wall :: time
  l_token :: string

lemma length_delete_present: "map_of d k = Some v \<Longrightarrow> length (AList.delete k d) < length d"
  by (induction d) (auto simp: le_imp_less_Suc length_dict_del split: if_splits)

lemma st_del_len: "st_del k st = Inr st' \<Longrightarrow> st_len st' < st_len st"
  using length_delete_present
  by (cases st) (auto simp: st_del_def st_len_def mem_del_def sql_del_def sql_len_def
      split: sum.splits if_splits)

definition oldest_token :: "(string \<times> session) list \<Rightarrow> string option" where
  "oldest_token xs = map_option fst (first_min (\<lambda>(_, s). last_seen s) xs)"

definition same_ip :: "string \<Rightarrow> address \<Rightarrow> store \<Rightarrow> (string \<times> session) list" where
  "same_ip tok ip st =
     filter (\<lambda>(t, s). t \<noteq> tok \<and> normalize_ip (remote_ip s) = normalize_ip ip) (st_items st)"

definition pick_victim :: "string \<Rightarrow> address \<Rightarrow> store \<Rightarrow> string option" where
  "pick_victim tok ip st =
     (if same_ip tok ip st \<noteq> [] then oldest_token (same_ip tok ip st)
      else oldest_token (filter (\<lambda>(t, _). t \<noteq> tok) (st_items st)))"

text \<open>The eviction loop; \<open>min\<close> of no candidates raises.\<close>

function evict_sessions :: "int \<Rightarrow> string \<Rightarrow> address \<Rightarrow> store \<Rightarrow> store \<times> py_error option" where
  "evict_sessions maxs tok ip st =
     (if int (st_len st) \<le> maxs then (st, None)
      else case pick_victim tok ip st of
        None \<Rightarrow> (st, Some ValueError)
      | Some v \<Rightarrow>
          (case st_del v st of
             Inl e \<Rightarrow> (st, Some e)
           | Inr st' \<Rightarrow> evict_sessions maxs tok ip st'))"
  by pat_completeness auto
termination
  by (relation "measure (\<lambda>(_, _, _, st). st_len st)") (auto simp: st_del_len)

declare evict_sessions.simps [simp del]

definition login ::
  "kdf \<Rightarrow> login_env \<Rightarrow> string \<Rightarrow> address \<Rightarrow> auth \<Rightarrow> auth \<times> (py_error + string option)" where
  "login scrypt e password ip a =
     (let (rl, allowed) = is_allowed ip (l_mono e) (limiter a);
          refused = fst (audit_failed_login ip (l_mono e) (audit a))
      in if \<not> allowed then (a\<lparr>limiter := rl, audit := refused\<rparr>, Inr None)
         else if \<not> verify_password scrypt password (pw_hash a) then
           (a\<lparr>limiter := record_attempt ip (l_mono e) rl, audit := refused\<rparr>, Inr None)
         else
           let a1 = a\<lparr>limiter := record_success ip rl\<rparr>;
               s = \<lparr>created_at = l_wall e, last_seen = l_wall e, remote_ip = ip,
                    pw_checksum = Some (checksum a), expires_at = l_wall e + session_timeout a\<rparr>
           in case st_set (l_token e) s (store a1) of
                Inl x \<Rightarrow> (a1, Inl x)
              | Inr st \<Rightarrow>
                  (case evict_sessions (max_sessions a) (l_token e) ip st of
                     (st', None) \<Rightarrow> (a1\<lparr>store := st'\<rparr>, Inr (Some (l_token e)))
                   | (st', Some x) \<Rightarrow> (a1\<lparr>store := st'\<rparr>, Inl x)))"

primrec del_tokens :: "string list \<Rightarrow> store \<Rightarrow> store" where
  "del_tokens [] st = st"
| "del_tokens (k # ks) st = (case st_del k st of Inl _ \<Rightarrow> del_tokens ks st | Inr st' \<Rightarrow> del_tokens ks st')"

definition invalidate_all :: "store \<Rightarrow> store \<times> string list" where
  "invalidate_all st = (del_tokens (map fst (st_items st)) st, map fst (st_items st))"

definition password_change_required :: "auth \<Rightarrow> bool" where
  "password_change_required a = (bootstrap_set a \<and> bootstrap_text (files a) \<noteq> None)"

datatype change_reason =
    Too_Short | Too_Long | Managed_Externally | Invalid_Current | Unchanged | Persistence_Failed
  | Password_Changed | Bootstrap_Cleanup_Failed

datatype unlink_fate = Unlinked | Not_Unlinked | Unlinked_But_Raised

record change_env =
  c_salt :: bytes
  c_write :: write_fate
  c_unlink :: unlink_fate

record change_result =
  applied :: bool
  change_reason :: change_reason
  revoked :: "string list"
  still_required :: bool

definition refused_change :: "change_reason \<Rightarrow> change_result" where
  "refused_change r = \<lparr>applied = False, change_reason = r, revoked = [], still_required = False\<rparr>"

definition drop_bootstrap :: "unlink_fate \<Rightarrow> auth \<Rightarrow> auth \<times> bool" where
  "drop_bootstrap f a =
     (let gone = a\<lparr>files := (files a)\<lparr>bootstrap_text := None\<rparr>\<rparr>
      in if \<not> bootstrap_set a then (a, False)
         else if bootstrap_text (files a) = None then (a\<lparr>bootstrap_set := False\<rparr>, False)
         else case f of
           Unlinked \<Rightarrow> (gone\<lparr>bootstrap_set := False\<rparr>, False)
         | Not_Unlinked \<Rightarrow> (a, True)
         | Unlinked_But_Raised \<Rightarrow> (gone, True))"

definition change_password ::
  "kdf \<Rightarrow> (string \<Rightarrow> string) \<Rightarrow> change_env \<Rightarrow> string \<Rightarrow> string \<Rightarrow> auth \<Rightarrow>
   auth \<times> (py_error + change_result)" where
  "change_password scrypt digest e current new a =
     (if length new < 12 then (a, Inr (refused_change Too_Short))
      else if 256 < length new then (a, Inr (refused_change Too_Long))
      else if \<not> hash_file_set a then (a, Inr (refused_change Managed_Externally))
      else if \<not> verify_password scrypt current (pw_hash a) then (a, Inr (refused_change Invalid_Current))
      else if verify_password scrypt new (pw_hash a) then (a, Inr (refused_change Unchanged))
      else case hash_password scrypt (c_salt e) new of
        None \<Rightarrow> (a, Inl ValueError)
      | Some h \<Rightarrow>
          let (text', ok) = write_secret (c_write e) (h @ [newline]) (secret_text (files a));
              a1 = a\<lparr>files := (files a)\<lparr>secret_text := text'\<rparr>\<rparr>
          in if \<not> ok then (a1, Inr (refused_change Persistence_Failed))
             else
               let (st, tokens) = invalidate_all (store a1);
                   a2 = a1\<lparr>pw_hash := h, checksum := digest h, store := st\<rparr>;
                   (a3, failed) = drop_bootstrap (c_unlink e) a2
               in (a3, Inr \<lparr>applied = True,
                     change_reason = (if failed then Bootstrap_Cleanup_Failed else Password_Changed),
                     revoked = tokens, still_required = password_change_required a3\<rparr>))"

definition validate_token :: "string \<Rightarrow> time \<Rightarrow> auth \<Rightarrow> auth \<times> (py_error + bool)" where
  "validate_token k now a =
     (case st_get k (store a) of
        None \<Rightarrow> (a, Inr False)
      | Some s \<Rightarrow>
          if pw_checksum s \<noteq> None \<and> pw_checksum s \<noteq> Some (checksum a) then
            (a\<lparr>store := fst (invalidate_all (store a))\<rparr>, Inr False)
          else if session_timeout a < now - last_seen s then
            (case st_del k (store a) of
               Inl e \<Rightarrow> (a, Inl e) | Inr st \<Rightarrow> (a\<lparr>store := st\<rparr>, Inr False))
          else if throttle a \<le> now - last_seen s then
            (case st_set k (s\<lparr>last_seen := now, expires_at := now + session_timeout a\<rparr>) (store a) of
               Inl e \<Rightarrow> (a, Inl e) | Inr st \<Rightarrow> (a\<lparr>store := st\<rparr>, Inr True))
          else (a, Inr True))"

definition cleanup_expired_sessions :: "time \<Rightarrow> time \<Rightarrow> auth \<Rightarrow> auth \<times> nat" where
  "cleanup_expired_sessions now mnow a =
     (let rl = fst (cleanup_all_expired mnow (limiter a)) in
      case store a of
        Sqlite s \<Rightarrow>
          (case sql_cleanup_expired now s of
             (s', n) \<Rightarrow> (a\<lparr>store := Sqlite s', limiter := rl\<rparr>, n))
      | Memory d \<Rightarrow>
          let expired = map fst (filter (\<lambda>(_, s). session_timeout a < now - last_seen s) d)
          in (a\<lparr>store := del_tokens expired (Memory d), limiter := rl\<rparr>, length expired))"

definition logout :: "string \<Rightarrow> auth \<Rightarrow> auth" where
  "logout k a = a\<lparr>store := st_pop k (store a)\<rparr>"

definition is_rate_limited :: "address \<Rightarrow> time \<Rightarrow> auth \<Rightarrow> auth \<times> bool" where
  "is_rate_limited ip now a =
     (case is_allowed ip now (limiter a) of (rl, ok) \<Rightarrow> (a\<lparr>limiter := rl\<rparr>, \<not> ok))"

definition get_retry_after :: "address \<Rightarrow> time \<Rightarrow> auth \<Rightarrow> int" where
  "get_retry_after ip now a = retry_after ip now (limiter a)"

subsection \<open>Reading back what was written\<close>

lemma split_on_plain: "c \<notin> set p \<Longrightarrow> split_on c p = [p]"
  by (induction p) auto

lemma split_on_part: "c \<notin> set p \<Longrightarrow> split_on c (p @ c # s) = p # split_on c s"
proof (induction p)
  case Nil
  have "split_on c s \<noteq> []" by (induction s) (auto split: list.splits)
  then show ?case by (auto split: list.splits)
qed auto

lemma hex_char_props:
  assumes "n < 16"
  shows "hex_value (hex_char n) = Some n" "\<not> ascii_space (hex_char n)" "\<not> py_space (hex_char n)" "hex_char n \<noteq> colon"
    "hex_char n \<noteq> newline"
proof -
  have "n \<in> {0, 1, 2, 3, 4, 5, 6, 7, 8, 9, 10, 11, 12, 13, 14, 15}"
    using assms by (simp only: insert_iff empty_iff simp_thms) presburger
  then show "hex_value (hex_char n) = Some n" "\<not> ascii_space (hex_char n)" "\<not> py_space (hex_char n)" "hex_char n \<noteq> colon"
    "hex_char n \<noteq> newline"
    by (auto simp: hex_char_def hex_value_def ascii_space_def py_space_def colon_def newline_def)
qed

definition is_bytes :: "bytes \<Rightarrow> bool" where
  "is_bytes bs = list_all (\<lambda>b. b < 256) bs"

lemma from_to_hex: "is_bytes bs \<Longrightarrow> from_hex (to_hex bs) = Some bs"
proof (induction bs)
  case (Cons b bs)
  have "b div 16 < 16" "b mod 16 < 16" using Cons.prems by (auto simp: is_bytes_def)
  note h = hex_char_props [OF this(1)] hex_char_props [OF this(2)]
  have "from_hex (to_hex bs) = Some bs" using Cons by (simp add: is_bytes_def)
  then show ?case using h by (simp add: to_hex_def)
qed (simp add: to_hex_def)

lemma to_hex_chars:
  assumes "is_bytes bs" "c \<in> set (to_hex bs)"
  shows "\<not> ascii_space c \<and> \<not> py_space c \<and> c \<noteq> colon \<and> c \<noteq> newline"
proof -
  obtain b where "b < 256" "c = hex_char (b div 16) \<or> c = hex_char (b mod 16)"
    using assms by (auto simp: to_hex_def is_bytes_def list_all_iff)
  moreover from this have "b div 16 < 16" "b mod 16 < 16" by auto
  ultimately show ?thesis using hex_char_props [of "b div 16"] hex_char_props [of "b mod 16"] by metis
qed

lemma length_to_hex: "length (to_hex bs) = 2 * length bs"
  by (induction bs) (auto simp: to_hex_def)

lemma hash_parameters:
  "py_int ''16384'' = Some 16384" "py_int ''8'' = Some 8" "py_int ''2'' = Some 2"
  by (simp_all add: py_int_def py_strip_def py_space_def read_nat_def digit_value_def)

lemma hash_split:
  assumes "is_bytes salt" "is_bytes dk"
  shows "split_on colon (''scrypt'' @ [colon] @ to_hex salt @ [colon] @ ''16384'' @ [colon] @ ''8'' @
      [colon] @ ''2'' @ [colon] @ to_hex dk) =
    [''scrypt'', to_hex salt, ''16384'', ''8'', ''2'', to_hex dk]"
proof -
  have c: "colon \<notin> set ''scrypt''" "colon \<notin> set ''16384''" "colon \<notin> set ''8''" "colon \<notin> set ''2''"
    by (auto simp: colon_def)
  have h: "colon \<notin> set (to_hex salt)" "colon \<notin> set (to_hex dk)"
    using to_hex_chars assms by blast+
  show ?thesis
    unfolding append_Cons [of colon "[]"] append_Nil
    by (simp only: split_on_part [OF c(1)] split_on_part [OF c(2)] split_on_part [OF c(3)]
        split_on_part [OF c(4)] split_on_part [OF h(1)] split_on_plain [OF h(2)])
qed

lemma verify_hash:
  assumes "hash_password scrypt salt password = Some h" "is_bytes salt"
    and "\<And>dk. scrypt password salt (2 ^ 14) 8 2 = Some dk \<Longrightarrow> is_bytes dk"
  shows "verify_password scrypt other h \<longleftrightarrow>
    scrypt other salt (2 ^ 14) 8 2 = scrypt password salt (2 ^ 14) 8 2"
proof -
  obtain dk where dk: "scrypt password salt (2 ^ 14) 8 2 = Some dk"
    and h: "h = ''scrypt'' @ [colon] @ to_hex salt @ [colon] @ ''16384'' @ [colon] @ ''8'' @
      [colon] @ ''2'' @ [colon] @ to_hex dk"
    using assms(1) by (auto simp: hash_password_def)
  have b: "is_bytes dk" by (rule assms(3) [OF dk])
  show ?thesis
    unfolding verify_password_def h hash_split [OF assms(2) b]
    using dk by (auto simp: from_to_hex assms(2) b hash_parameters check_key_def split: option.splits)
qed

text \<open>A stored hash accepts exactly the passwords that derive the key it was made from: what
  \<open>hash_password\<close> writes, \<open>verify_password\<close> reads back with the same salt and parameters.\<close>

theorem hash_verify_roundtrip:
  assumes "hash_password scrypt salt password = Some h" "is_bytes salt"
    and "\<And>dk. scrypt password salt (2 ^ 14) 8 2 = Some dk \<Longrightarrow> is_bytes dk"
  shows "verify_password scrypt other h \<longleftrightarrow>
    scrypt other salt (2 ^ 14) 8 2 = scrypt password salt (2 ^ 14) 8 2"
  using assms by (rule verify_hash)

definition toy_kdf :: kdf where
  "toy_kdf password salt n r p = Some (map (\<lambda>c. of_char c mod 256) password @ salt)"

lemma toy_kdf_bytes: "is_bytes salt \<Longrightarrow> toy_kdf password salt n r p = Some dk \<Longrightarrow> is_bytes dk"
  by (auto simp: toy_kdf_def is_bytes_def list_all_iff)

lemma is_bytes_small: "is_bytes [1, 2]" by (simp add: is_bytes_def)

lemma toy_hash: "hash_password toy_kdf [1, 2] s =
    Some (''scrypt'' @ [colon] @ to_hex [1, 2] @ [colon] @ ''16384'' @ [colon] @ ''8'' @
      [colon] @ ''2'' @ [colon] @ to_hex (map (\<lambda>c. of_char c mod 256) s @ [1, 2]))"
  by (simp add: hash_password_def toy_kdf_def)

theorem hash_verify_roundtrip_witness:
  "\<exists>h. hash_password toy_kdf [1, 2] ''ab'' = Some h \<and> verify_password toy_kdf ''ab'' h \<and>
     \<not> verify_password toy_kdf ''ac'' h"
proof -
  obtain h where h: "hash_password toy_kdf [1, 2] ''ab'' = Some h" using toy_hash by blast
  have "verify_password toy_kdf other h \<longleftrightarrow>
      toy_kdf other [1, 2] (2 ^ 14) 8 2 = toy_kdf ''ab'' [1, 2] (2 ^ 14) 8 2" for other
    by (rule hash_verify_roundtrip [OF h is_bytes_small]) (rule toy_kdf_bytes [OF is_bytes_small])
  with h show ?thesis by (simp add: toy_kdf_def)
qed

text \<open>Whatever the stored hash says, verification never depends on a key derivation costlier than
  \<open>n = 2^14\<close>, \<open>r = 8\<close>, \<open>p = 2\<close>: two derivations that agree up to these bounds give the same answer.\<close>

theorem verify_cost_bounded:
  assumes "\<And>s n r p. n \<le> 2 ^ 14 \<Longrightarrow> r \<le> 8 \<Longrightarrow> p \<le> 2 \<Longrightarrow> f password s n r p = g password s n r p"
  shows "verify_password f password stored = verify_password g password stored"
  using assms
  by (auto simp: verify_password_def check_key_def split: list.splits option.splits)

theorem verify_cost_bounded_witness:
  "verify_password toy_kdf ''ab'' ''scrypt:00:32768:8:1:00'' =
     verify_password (\<lambda>pw s n r p. if 2 ^ 14 < n then None else toy_kdf pw s n r p)
       ''ab'' ''scrypt:00:32768:8:1:00''"
  by (rule verify_cost_bounded) simp

end
