(* ===== verification/Auth_Sessions.thy ===== *)
theory Auth_Sessions
  imports Dashboard_Auth
begin

text \<open>
  What the dashboard's \<open>AuthManager\<close> guarantees: the session cap and whom its eviction spares, where
  valid tokens come from, the effect of a password change, idle expiry, and the recovery of the
  credential files.  The proofs rest on the store contract, so they hold for both stores.
\<close>

subsection \<open>Eviction\<close>

lemma oldest_member: "oldest_token xs = Some v \<Longrightarrow> v \<in> fst ` set xs"
  by (auto simp: oldest_token_def dest!: first_min_member intro: rev_image_eqI)

lemma oldest_exists: "xs \<noteq> [] \<Longrightarrow> \<exists>v. oldest_token xs = Some v"
  by (cases "first_min (\<lambda>(_, s). last_seen s) xs") (auto simp: oldest_token_def)

lemma pick_victim_props:
  assumes "st_ok st" "pick_victim tok ip st = Some v"
  shows "v \<noteq> tok" "st_get v st \<noteq> None"
    "same_ip tok ip st \<noteq> [] \<Longrightarrow> v \<in> fst ` set (same_ip tok ip st)"
proof -
  have "v \<in> fst ` set (same_ip tok ip st) \<and> same_ip tok ip st \<noteq> [] \<or>
      v \<in> fst ` set (filter (\<lambda>(t, _). t \<noteq> tok) (st_items st)) \<and> same_ip tok ip st = []"
    using assms(2) oldest_member [of "same_ip tok ip st" v]
      oldest_member [of "filter (\<lambda>(t, _). t \<noteq> tok) (st_items st)" v]
    by (simp only: pick_victim_def split: if_splits) simp_all
  then have "v \<noteq> tok \<and> v \<in> set (map fst (st_items st))"
    by (auto simp: same_ip_def)
  then show "v \<noteq> tok" "st_get v st \<noteq> None" using sessions.keys_member [OF assms(1)] by blast+
  show "same_ip tok ip st \<noteq> [] \<Longrightarrow> v \<in> fst ` set (same_ip tok ip st)"
    using \<open>v \<in> fst ` set (same_ip tok ip st) \<and> same_ip tok ip st \<noteq> [] \<or> _\<close> by blast
qed

lemma pick_victim_exists:
  assumes "st_ok st" "st_get tok st \<noteq> None" "1 < st_len st"
  shows "\<exists>v. pick_victim tok ip st = Some v"
proof -
  have "\<not> set (map fst (st_items st)) \<subseteq> {tok}"
  proof
    assume "set (map fst (st_items st)) \<subseteq> {tok}"
    then have "card (set (map fst (st_items st))) \<le> 1" using card_mono [of "{tok}"] by fastforce
    then show False
      using distinct_card [OF sessions.items_distinct [OF assms(1)]] assms(3) st_len_items [OF assms(1)]
      by simp
  qed
  then have "filter (\<lambda>(t, _). t \<noteq> tok) (st_items st) \<noteq> []" by (auto simp: filter_empty_conv)
  then show ?thesis using oldest_exists by (simp add: pick_victim_def)
qed

text \<open>With room for at least one session the loop ends without an error, within the cap, keeping the
  new session; it only deletes, and other addresses lose a session only when the caller's own
  address has none left to lose.\<close>

lemma evict_sessions_spec:
  assumes "st_ok st" "st_get tok st = Some s" "1 \<le> maxs"
  shows "\<exists>st'. evict_sessions maxs tok ip st = (st', None) \<and> st_ok st' \<and>
    int (st_len st') \<le> maxs \<and> st_get tok st' = Some s \<and>
    (\<forall>k. st_get k st' = st_get k st \<or> st_get k st' = None) \<and>
    (int (st_len st) \<le> maxs + 1 \<longrightarrow> same_ip tok ip st \<noteq> [] \<longrightarrow>
      (\<forall>k v. st_get k st = Some v \<longrightarrow> normalize_ip (remote_ip v) \<noteq> normalize_ip ip \<longrightarrow>
        st_get k st' = Some v))"
  using assms
proof (induction maxs tok ip st rule: evict_sessions.induct)
  case (1 maxs tok ip st)
  show ?case
  proof (cases "int (st_len st) \<le> maxs")
    case True
    then show ?thesis using "1.prems" by (subst evict_sessions.simps) simp
  next
    case False
    then have "1 < st_len st" using "1.prems"(3) by linarith
    then obtain v where v: "pick_victim tok ip st = Some v"
      using pick_victim_exists "1.prems" by blast
    note vp = pick_victim_props [OF "1.prems"(1) v]
    obtain st1 where d: "st_del v st = Inr st1" using sessions.del_total [OF "1.prems"(1) vp(2)] by blast
    note g = sessions.get_del [OF "1.prems"(1) d]
    have ok1: "st_ok st1" "st_get tok st1 = Some s"
      using sessions.del_ok [OF "1.prems"(1) d] g "1.prems"(2) vp(1) by auto
    have len: "Suc (st_len st1) = st_len st"
      using sessions.length_del [OF "1.prems"(1) d] st_len_items "1.prems"(1) ok1(1) by simp
    from "1.IH" [OF False v d ok1 "1.prems"(3)] obtain st' where
      st': "evict_sessions maxs tok ip st1 = (st', None)" "st_ok st'" "int (st_len st') \<le> maxs"
        "st_get tok st' = Some s" "\<forall>k. st_get k st' = st_get k st1 \<or> st_get k st' = None" by blast
    have e: "evict_sessions maxs tok ip st = (st', None)"
      using False v d st'(1) by (subst evict_sessions.simps) simp
    have spared: "st_get k st' = Some u"
      if one: "int (st_len st) \<le> maxs + 1" and same: "same_ip tok ip st \<noteq> []"
        and u: "st_get k st = Some u" "normalize_ip (remote_ip u) \<noteq> normalize_ip ip" for k u
    proof -
      have "int (st_len st1) \<le> maxs" using one len by linarith
      then have "st' = st1" using st'(1) by (subst (asm) evict_sessions.simps) simp
      moreover have "k \<noteq> v"
      proof
        assume "k = v"
        then obtain w where "(k, w) \<in> set (st_items st)" "normalize_ip (remote_ip w) = normalize_ip ip"
          using vp(3) [OF same] by (auto simp: same_ip_def)
        then show False
          using sessions.items_member [OF "1.prems"(1)] u by auto
      qed
      ultimately show ?thesis using g [of k] u(1) by simp
    qed
    have "\<forall>k. st_get k st' = st_get k st \<or> st_get k st' = None"
      using st'(5) g by metis
    then show ?thesis using e st'(2-4) spared by blast
  qed
qed

subsection \<open>Login\<close>

lemma login_cases:
  obtains (refused) a1 where "login scrypt e password ip a = (a1, Inr None)"
      "store a1 = store a" "checksum a1 = checksum a" "session_timeout a1 = session_timeout a"
      "pw_hash a1 = pw_hash a"
  | (accepted) rl where "verify_password scrypt password (pw_hash a)"
      "login scrypt e password ip a =
        (let a1 = a\<lparr>limiter := rl\<rparr>;
             s = \<lparr>created_at = l_wall e, last_seen = l_wall e, remote_ip = ip,
                  pw_checksum = Some (checksum a), expires_at = l_wall e + session_timeout a\<rparr>
         in case st_set (l_token e) s (store a) of
              Inl x \<Rightarrow> (a1, Inl x)
            | Inr st \<Rightarrow>
                (case evict_sessions (max_sessions a) (l_token e) ip st of
                   (st', None) \<Rightarrow> (a1\<lparr>store := st'\<rparr>, Inr (Some (l_token e)))
                 | (st', Some x) \<Rightarrow> (a1\<lparr>store := st'\<rparr>, Inl x)))"
proof -
  obtain rl allowed where al: "is_allowed ip (l_mono e) (limiter a) = (rl, allowed)" by fastforce
  show ?thesis
  proof (cases "allowed \<and> verify_password scrypt password (pw_hash a)")
    case True
    then show ?thesis using al by (intro that(2) [of "record_success ip rl"]) (simp_all add: login_def Let_def)
  next
    case False
    let ?a = "a\<lparr>limiter := (if allowed then record_attempt ip (l_mono e) rl else rl),
      audit := fst (audit_failed_login ip (l_mono e) (audit a))\<rparr>"
    have "login scrypt e password ip a = (?a, Inr None)"
      using False al by (auto simp: login_def Let_def)
    then show ?thesis by (rule that(1)) simp_all
  qed
qed

text \<open>A login never fails with an error and never exceeds the session limit: with a store in use and
  room for one session it either refuses and changes no session, or the password verified, the new
  token is stored and at most \<open>max_sessions\<close> sessions remain, all of them old ones or the new one.\<close>

theorem login_session_cap:
  assumes "st_ok (store a)" "1 \<le> max_sessions a" "login scrypt e password ip a = (a', r)"
  shows "\<exists>v. r = Inr v \<and> st_ok (store a') \<and>
    (case v of
       None \<Rightarrow> store a' = store a
     | Some t \<Rightarrow> t = l_token e \<and> verify_password scrypt password (pw_hash a) \<and>
         int (st_len (store a')) \<le> max_sessions a \<and>
         map_option remote_ip (st_get t (store a')) = Some ip \<and>
         (\<forall>k. k = t \<or> st_get k (store a') = st_get k (store a) \<or> st_get k (store a') = None))"
proof (cases rule: login_cases [of scrypt e password ip a])
  case (refused a1)
  then show ?thesis using assms by auto
next
  case (accepted rl)
  let ?s = "\<lparr>created_at = l_wall e, last_seen = l_wall e, remote_ip = ip,
                  pw_checksum = Some (checksum a), expires_at = l_wall e + session_timeout a\<rparr>"
  obtain st where st: "st_set (l_token e) ?s (store a) = Inr st"
    using sessions.put_total [OF assms(1)] by blast
  note g = sessions.get_put [OF assms(1) st]
  from evict_sessions_spec [OF sessions.put_ok [OF assms(1) st] _ assms(2), of "l_token e" ?s ip]
  obtain st' where st': "evict_sessions (max_sessions a) (l_token e) ip st = (st', None)" "st_ok st'"
    "int (st_len st') \<le> max_sessions a" "st_get (l_token e) st' = Some ?s"
    "\<forall>k. st_get k st' = st_get k st \<or> st_get k st' = None"
    using g [of "l_token e"] by auto
  then have "a' = a\<lparr>limiter := rl, store := st'\<rparr>" "r = Inr (Some (l_token e))"
    using accepted(2) st assms(3) by (simp_all add: Let_def)
  moreover have "\<forall>k. k = l_token e \<or> st_get k st' = st_get k (store a) \<or> st_get k st' = None"
    using st'(5) g by metis
  ultimately show ?thesis using st'(2-4) accepted(1) by simp
qed

text \<open>A user who logs in too often only pushes out sessions of the same address: when another session
  from the caller's address exists, no session of a different address is dropped.\<close>

theorem eviction_spares_other_addresses:
  assumes "st_ok (store a)" "1 \<le> max_sessions a" "int (st_len (store a)) \<le> max_sessions a"
    and "login scrypt e password ip a = (a', Inr (Some t))"
    and "st_get k0 (store a) = Some s0" "k0 \<noteq> l_token e" "normalize_ip (remote_ip s0) = normalize_ip ip"
    and "st_get k (store a) = Some s" "k \<noteq> l_token e" "normalize_ip (remote_ip s) \<noteq> normalize_ip ip"
  shows "st_get k (store a') = Some s"
proof (cases rule: login_cases [of scrypt e password ip a])
  case (refused a1)
  then show ?thesis using assms(4) by simp
next
  case (accepted rl)
  let ?s = "\<lparr>created_at = l_wall e, last_seen = l_wall e, remote_ip = ip,
                  pw_checksum = Some (checksum a), expires_at = l_wall e + session_timeout a\<rparr>"
  obtain st where st: "st_set (l_token e) ?s (store a) = Inr st"
    using sessions.put_total [OF assms(1)] by blast
  have ok: "st_ok st" by (rule sessions.put_ok [OF assms(1) st])
  note g = sessions.get_put [OF assms(1) st]
  have "(k0, s0) \<in> set (st_items st)" using sessions.items_member [OF ok] g [of k0] assms(5,6) by simp
  then have same: "same_ip (l_token e) ip st \<noteq> []"
    using assms(6,7) by (auto simp: same_ip_def filter_empty_conv)
  have "length (st_items st) \<le> Suc (length (st_items (store a)))"
    using sessions.length_put [OF assms(1) st] by simp
  then have len: "int (st_len st) \<le> max_sessions a + 1"
    using assms(3) st_len_items [OF ok] st_len_items [OF assms(1)] by linarith
  from evict_sessions_spec [OF ok _ assms(2), of "l_token e" ?s ip] obtain st' where
    st': "evict_sessions (max_sessions a) (l_token e) ip st = (st', None)"
    "st_get k st = Some s \<longrightarrow> normalize_ip (remote_ip s) \<noteq> normalize_ip ip \<longrightarrow> st_get k st' = Some s"
    using g [of "l_token e"] same len by auto
  then have "a' = a\<lparr>limiter := rl, store := st'\<rparr>"
    using accepted(2) st assms(4) by (simp add: Let_def)
  then show ?thesis using st'(2) g [of k] assms(8-10) by simp
qed

subsection \<open>Where valid tokens come from\<close>

datatype auth_op =
    Login login_env string address
  | Change change_env string string
  | Validate string time
  | Cleanup time time
  | Logout string

definition auth_step :: "kdf \<Rightarrow> (string \<Rightarrow> string) \<Rightarrow> auth_op \<Rightarrow> auth \<Rightarrow> auth \<times> string list" where
  "auth_step scrypt digest x a =
     (case x of
        Login e password ip \<Rightarrow>
          (case login scrypt e password ip a of
             (a', Inr (Some t)) \<Rightarrow> (a', [t]) | (a', _) \<Rightarrow> (a', []))
      | Change e current new \<Rightarrow> (fst (change_password scrypt digest e current new a), [])
      | Validate k now \<Rightarrow> (fst (validate_token k now a), [])
      | Cleanup now mnow \<Rightarrow> (fst (cleanup_expired_sessions now mnow a), [])
      | Logout k \<Rightarrow> (logout k a, []))"

primrec auth_run :: "kdf \<Rightarrow> (string \<Rightarrow> string) \<Rightarrow> auth_op list \<Rightarrow> auth \<Rightarrow> auth \<times> string list" where
  "auth_run scrypt digest [] a = (a, [])"
| "auth_run scrypt digest (x # xs) a =
     (case auth_step scrypt digest x a of
        (a1, ts) \<Rightarrow> (case auth_run scrypt digest xs a1 of (a2, us) \<Rightarrow> (a2, ts @ us)))"

lemma del_tokens_each: "del_tokens ks st = sessions.del_each ks st"
  by (induction ks arbitrary: st) (auto split: sum.splits)

lemma invalidate_all_empty:
  "st_ok st \<Longrightarrow> st_ok (fst (invalidate_all st)) \<and> st_get k (fst (invalidate_all st)) = None"
  using sessions.del_all_empty [of st k] by (simp add: invalidate_all_def del_tokens_each)

definition auth_inv :: "string list \<Rightarrow> auth \<Rightarrow> bool" where
  "auth_inv issued a \<longleftrightarrow> st_ok (store a) \<and> 1 \<le> max_sessions a \<and>
     (\<forall>k. st_get k (store a) \<noteq> None \<longrightarrow> k \<in> set issued)"

lemma auth_inv_shrink:
  assumes "auth_inv issued a" "st_ok (store a')" "max_sessions a' = max_sessions a"
    and "\<And>k. st_get k (store a') = None \<or> st_get k (store a) \<noteq> None"
  shows "auth_inv issued a'"
  using assms unfolding auth_inv_def by metis

lemma drop_bootstrap_fields [simp]:
  "store (fst (drop_bootstrap f a)) = store a" "max_sessions (fst (drop_bootstrap f a)) = max_sessions a"
  "pw_hash (fst (drop_bootstrap f a)) = pw_hash a" "checksum (fst (drop_bootstrap f a)) = checksum a"
  "secret_text (files (fst (drop_bootstrap f a))) = secret_text (files a)"
  by (simp_all add: drop_bootstrap_def Let_def split: unlink_fate.split)

lemma change_cases:
  obtains (kept) a' where "fst (change_password scrypt digest e current new a) = a'"
      "store a' = store a" "max_sessions a' = max_sessions a" "pw_hash a' = pw_hash a"
      "\<And>r. snd (change_password scrypt digest e current new a) = Inr r \<Longrightarrow> \<not> applied r"
  | (applied) a' h where "fst (change_password scrypt digest e current new a) = a'"
      "hash_password scrypt (c_salt e) new = Some h" "verify_password scrypt current (pw_hash a)"
      "store a' = fst (invalidate_all (store a))" "max_sessions a' = max_sessions a"
      "pw_hash a' = h" "secret_text (files a') = Some (h @ [newline])"
proof (cases "12 \<le> length new \<and> length new \<le> 256 \<and> hash_file_set a \<and>
    verify_password scrypt current (pw_hash a) \<and> \<not> verify_password scrypt new (pw_hash a) \<and>
    c_write e = Written")
  case False
  let ?r = "change_password scrypt digest e current new a"
  have "store (fst ?r) = store a \<and> max_sessions (fst ?r) = max_sessions a \<and>
      pw_hash (fst ?r) = pw_hash a \<and> (\<forall>r. snd ?r = Inr r \<longrightarrow> \<not> applied r)"
    using False
    by (auto simp: change_password_def refused_change_def write_secret_def Let_def
        split: option.split write_fate.split prod.split)
  then show ?thesis by (intro that(1) [OF refl]) blast+
next
  case True
  show ?thesis
  proof (cases "hash_password scrypt (c_salt e) new")
    case None
    then show ?thesis using True
      by (intro that(1) [OF refl]) (simp_all add: change_password_def refused_change_def)
  next
    case (Some h)
    let ?a = "a\<lparr>files := (files a)\<lparr>secret_text := Some (h @ [newline])\<rparr>, pw_hash := h,
      checksum := digest h, store := fst (invalidate_all (store a))\<rparr>"
    have "fst (change_password scrypt digest e current new a) = fst (drop_bootstrap (c_unlink e) ?a)"
      using True Some
      by (simp add: change_password_def write_secret_def Let_def split: prod.split)
    then show ?thesis using True Some by (intro that(2) [OF refl, of h]) simp_all
  qed
qed

lemma validate_shrinks:
  assumes "st_ok (store a)"
  shows "st_ok (store (fst (validate_token k now a)))"
    "max_sessions (fst (validate_token k now a)) = max_sessions a"
    "st_get k' (store (fst (validate_token k now a))) = None \<or> st_get k' (store a) \<noteq> None"
proof -
  note i = invalidate_all_empty [OF assms]
  note p = sessions.put_ok [OF assms] sessions.get_put [OF assms]
  note d = sessions.del_ok [OF assms] sessions.get_del [OF assms]
  show "st_ok (store (fst (validate_token k now a)))"
    using i p(1) d(1) assms by (simp add: validate_token_def split: option.split sum.split)
  show "max_sessions (fst (validate_token k now a)) = max_sessions a"
    by (simp add: validate_token_def split: option.split sum.split)
  show "st_get k' (store (fst (validate_token k now a))) = None \<or> st_get k' (store a) \<noteq> None"
    using i p(2) d(2) by (auto simp: validate_token_def split: option.split sum.split)
qed

lemma cleanup_shrinks:
  assumes "st_ok (store a)"
  shows "st_ok (store (fst (cleanup_expired_sessions now mnow a))) \<and>
    max_sessions (fst (cleanup_expired_sessions now mnow a)) = max_sessions a \<and>
    (st_get k (store (fst (cleanup_expired_sessions now mnow a))) = None \<or> st_get k (store a) \<noteq> None)"
proof (cases "store a")
  case (Memory d)
  let ?ks = "map fst (filter (\<lambda>(_, s). session_timeout a < now - last_seen s) d)"
  have "fst (cleanup_expired_sessions now mnow a) = a\<lparr>store := del_tokens ?ks (Memory d),
      limiter := fst (cleanup_all_expired mnow (limiter a))\<rparr>"
    by (simp add: cleanup_expired_sessions_def Memory Let_def)
  then show ?thesis
    using sessions.del_each_get [of "Memory d" ?ks k] assms Memory by (auto simp: del_tokens_each)
next
  case (Sqlite s)
  let ?s = "fst (sql_cleanup_expired now s)"
  have "store (fst (cleanup_expired_sessions now mnow a)) = Sqlite ?s \<and>
      max_sessions (fst (cleanup_expired_sessions now mnow a)) = max_sessions a"
    by (simp add: cleanup_expired_sessions_def Sqlite Let_def split: prod.split)
  moreover have "sql_ok ?s" "sql_get k ?s = None \<or> sql_get k s \<noteq> None"
    using assms Sqlite
    by (auto simp: sql_cleanup_expired_def sql_ok_def sql_get_def Let_def map_of_filter_key
        split: option.splits)
  ultimately show ?thesis using Sqlite by simp
qed

lemma auth_inv_step:
  assumes "auth_inv issued a" "auth_step scrypt digest x a = (a', ts)"
  shows "auth_inv (issued @ ts) a'"
proof -
  have ok: "st_ok (store a)" "1 \<le> max_sessions a" using assms(1) by (simp_all add: auth_inv_def)
  show ?thesis
  proof (cases x)
    case (Login e password ip)
    show ?thesis
    proof (cases rule: login_cases [of scrypt e password ip a])
      case (refused a1)
      moreover have "max_sessions a1 = max_sessions a"
        using refused(1) by (auto simp: login_def Let_def split: prod.splits if_splits sum.splits option.splits)
      ultimately show ?thesis using assms Login by (auto simp: auth_step_def auth_inv_def)
    next
      case (accepted rl)
      let ?s = "\<lparr>created_at = l_wall e, last_seen = l_wall e, remote_ip = ip,
                  pw_checksum = Some (checksum a), expires_at = l_wall e + session_timeout a\<rparr>"
      obtain st where st: "st_set (l_token e) ?s (store a) = Inr st"
        using sessions.put_total [OF ok(1)] by blast
      note g = sessions.get_put [OF ok(1) st]
      from evict_sessions_spec [OF sessions.put_ok [OF ok(1) st] _ ok(2), of "l_token e" ?s ip]
      obtain st' where st': "evict_sessions (max_sessions a) (l_token e) ip st = (st', None)"
        "st_ok st'" "\<forall>k. st_get k st' = st_get k st \<or> st_get k st' = None"
        using g [of "l_token e"] by auto
      then have "a' = a\<lparr>limiter := rl, store := st'\<rparr>" "ts = [l_token e]"
        using accepted(2) st assms(2) Login by (simp_all add: auth_step_def Let_def)
      moreover have "st_get k st' \<noteq> None \<longrightarrow> k = l_token e \<or> st_get k (store a) \<noteq> None" for k
        using st'(3) g by metis
      ultimately show ?thesis using assms(1) st'(2) by (auto simp: auth_inv_def)
    qed
  next
    case (Change e current new)
    then have a': "a' = fst (change_password scrypt digest e current new a)" "ts = []"
      using assms(2) by (simp_all add: auth_step_def)
    show ?thesis
      using a' assms(1) invalidate_all_empty [OF ok(1)]
      by (cases rule: change_cases [of scrypt digest e current new a]) (auto simp: auth_inv_def)
  next
    case (Validate k now)
    then have "a' = fst (validate_token k now a)" "ts = []"
      using assms(2) by (simp_all add: auth_step_def)
    then show ?thesis using auth_inv_shrink [OF assms(1)] validate_shrinks [OF ok(1), where k = k and now = now] by simp
  next
    case (Cleanup now mnow)
    then have "a' = fst (cleanup_expired_sessions now mnow a)" "ts = []"
      using assms(2) by (simp_all add: auth_step_def)
    then show ?thesis using auth_inv_shrink [OF assms(1)] cleanup_shrinks [OF ok(1), where now = now and mnow = mnow] by simp
  next
    case (Logout k)
    then have "a' = logout k a" "ts = []" using assms(2) by (simp_all add: auth_step_def)
    then show ?thesis
      using assms(1) st_pop_get [OF ok(1), of k] by (auto simp: logout_def auth_inv_def split: if_splits)
  qed
qed

text \<open>C31. Only tokens that a successful login returned are ever accepted: from an empty store, after any
  history of logins, password changes, validations, sweeps and logouts, a token that validates was
  issued in that history.\<close>

theorem token_needs_login:
  assumes "new_auth digest h timeout maxs st n w d hf bf = Inr a0"
    and "st_ok st" "st_items st = []" "1 \<le> maxs"
    and "auth_run scrypt digest xs a0 = (a, issued)" "snd (validate_token k now a) = Inr True"
  shows "k \<in> set issued"
proof -
  have a0: "store a0 = st" "max_sessions a0 = maxs"
    using assms(1) by (auto simp: new_auth_def split: if_splits)
  have "auth_inv [] a0"
    using a0 assms(2-4) sessions.items_get [OF assms(2)] by (simp add: auth_inv_def)
  moreover have "auth_inv (pre @ issued) a" if "auth_inv pre b" "auth_run scrypt digest xs b = (a, issued)"
    for pre b
    using that
  proof (induction xs arbitrary: pre b issued)
    case (Cons x xs)
    obtain b1 ts us where s: "auth_step scrypt digest x b = (b1, ts)"
      "auth_run scrypt digest xs b1 = (a, us)" "issued = ts @ us"
      using Cons.prems(2) by (auto split: prod.splits)
    from Cons.IH [OF auth_inv_step [OF Cons.prems(1) s(1)] s(2)] s(3) show ?case by simp
  qed simp
  ultimately have "auth_inv issued a" using assms(5) by fastforce
  moreover have "st_get k (store a) \<noteq> None"
    using assms(6) by (auto simp: validate_token_def split: option.splits)
  ultimately show ?thesis by (simp add: auth_inv_def)
qed

text \<open>C32. An accepted password change shuts everyone out: the stored hash becomes that of the new password,
  which from then on is the one that verifies, the hash file holds it, every session is named as revoked, and no token
  validates any more, whatever the clock says.\<close>

theorem rotation_revokes:
  assumes "st_ok (store a)" "change_password scrypt digest e current new a = (a', Inr r)" "applied r"
    and "is_bytes (c_salt e)" "\<And>dk. scrypt new (c_salt e) (2 ^ 14) 8 2 = Some dk \<Longrightarrow> is_bytes dk"
  shows "verify_password scrypt new (pw_hash a') \<and>
    secret_text (files a') = Some (pw_hash a' @ [newline]) \<and>
    revoked r = map fst (st_items (store a)) \<and> validate_token k now a' = (a', Inr False)"
proof (cases rule: change_cases [of scrypt digest e current new a])
  case kept
  then show ?thesis using assms(2,3) by simp
next
  case (applied b h)
  have "revoked r = map fst (st_items (store a))"
    using assms(2,3)
    by (auto simp: change_password_def refused_change_def Let_def invalidate_all_def
        split: prod.splits option.splits if_splits)
  moreover have "verify_password scrypt new h"
    using verify_hash [OF applied(2) assms(4,5), of new] by simp
  moreover have "st_get k (store a') = None"
    using applied(1,4) assms(2) invalidate_all_empty [OF assms(1)] by simp
  ultimately show ?thesis using applied(1,6,7) assms(2) by (simp add: validate_token_def)
qed

text \<open>Idle sessions expire on time although \<open>last_seen\<close> is written only every tenth of the timeout: after a
  successful use at time \<open>t\<close> a token validates up to \<open>timeout - throttle\<close> later and no longer once the
  timeout has passed.\<close>

theorem idle_expiry:
  assumes "st_ok (store a)" "validate_token k t a = (a1, Inr True)" "0 \<le> session_timeout a"
    and "map_option last_seen (st_get k (store a)) = Some seen" "seen \<le> t"
  shows "(snd (validate_token k t' a1) = Inr True \<or> session_timeout a - throttle a < t' - t) \<and>
    (snd (validate_token k t' a1) = Inr False \<or> t' - t \<le> session_timeout a)"
proof -
  obtain s where s: "st_get k (store a) = Some s" "last_seen s = seen" using assms(4) by auto
  have keep: "pw_checksum s = None \<or> pw_checksum s = Some (checksum a)"
    "t - seen \<le> session_timeout a"
    using assms(2) s by (auto simp: validate_token_def split: if_splits sum.splits)
  have th: "0 \<le> throttle a" using assms(3) by (simp add: throttle_def)
  obtain s1 where s1: "st_ok (store a1)" "st_get k (store a1) = Some s1"
    "pw_checksum s1 = pw_checksum s" "last_seen s1 \<le> t" "t \<le> last_seen s1 + throttle a"
    "checksum a1 = checksum a" "session_timeout a1 = session_timeout a" "throttle a1 = throttle a"
  proof (cases "throttle a \<le> t - seen")
    case True
    let ?s = "s\<lparr>last_seen := t, expires_at := t + session_timeout a\<rparr>"
    obtain st where st: "st_set k ?s (store a) = Inr st" using sessions.put_total [OF assms(1)] by blast
    then have "a1 = a\<lparr>store := st\<rparr>"
      using assms(2) s keep True by (auto simp: validate_token_def split: if_splits)
    then show ?thesis
      using th sessions.put_ok [OF assms(1) st] sessions.get_put [OF assms(1) st]
      by (intro that [of ?s]) (simp_all add: throttle_def)
  next
    case False
    then have "a1 = a"
      using assms(2) s keep by (auto simp: validate_token_def split: if_splits)
    then show ?thesis using assms(1,5) s False by (intro that [of s]) simp_all
  qed
  obtain st where st: "st_del k (store a1) = Inr st"
    using sessions.del_total [OF s1(1)] s1(2) by fastforce
  obtain st2 where st2: "st_set k (s1\<lparr>last_seen := t', expires_at := t' + session_timeout a\<rparr>) (store a1) = Inr st2"
    using sessions.put_total [OF s1(1)] by blast
  have dead: "snd (validate_token k t' a1) = Inr False \<or> t' - t \<le> session_timeout a"
    using s1(2-7) keep st by (auto simp: validate_token_def)
  have "snd (validate_token k t' a1) = Inr True \<or> session_timeout a - throttle a < t' - t"
  proof (cases "session_timeout a < t' - last_seen s1")
    case True
    then show ?thesis using s1(5) by linarith
  next
    case False
    then show ?thesis using s1(2,3,6-8) keep st2 by (auto simp: validate_token_def)
  qed
  then show ?thesis using dead by blast
qed

subsection \<open>The credential files after interrupted starts\<close>

text \<open>What a credential file holds: one printable line without white space that fits the reader's
  bound.  A random password is such a line, and the salt is 16 bytes.\<close>

definition line_ok :: "nat \<Rightarrow> string \<Rightarrow> bool" where
  "line_ok n s \<longleftrightarrow> s \<noteq> '''' \<and> list_all (\<lambda>c. \<not> py_space c) s \<and> length s < n"

definition fresh_ok :: "fresh \<Rightarrow> bool" where
  "fresh_ok e \<longleftrightarrow> is_bytes (fresh_salt e) \<and> length (fresh_salt e) \<le> 16 \<and>
     line_ok 512 (fresh_password e)"

definition kdf_ok :: "kdf \<Rightarrow> bool" where
  "kdf_ok scrypt \<longleftrightarrow> (\<forall>pw s n r p dk. scrypt pw s n r p = Some dk \<longrightarrow> is_bytes dk \<and> length dk \<le> 64)"

primrec starts :: "kdf \<Rightarrow> fresh list \<Rightarrow> secret_dir \<Rightarrow> secret_dir" where
  "starts scrypt [] d = d"
| "starts scrypt (e # es) d = starts scrypt es (fst (load_or_create scrypt e d))"

lemma read_line:
  assumes "line_ok n s"
  shows "read_secret n (Some (s @ [newline])) = Inr (Some s)" "s \<noteq> ''''"
proof -
  have nl: "py_space newline" by (simp add: py_space_def newline_def)
  have s: "list_all (\<lambda>c. \<not> py_space c) s" "s \<noteq> ''''" "length s < n" using assms by (simp_all add: line_ok_def)
  have "dropWhile py_space (rev s) = rev s"
    using s(1) unfolding list_all_iff set_rev [of s, symmetric] by (cases "rev s") simp_all
  moreover have "dropWhile py_space (s @ [newline]) = s @ [newline]"
    using s(1,2) by (cases s) auto
  ultimately have "py_strip (s @ [newline]) = s" using nl by (simp add: py_strip_def)
  then show "read_secret n (Some (s @ [newline])) = Inr (Some s)" "s \<noteq> ''''"
    using s by (simp_all add: read_secret_def)
qed

lemma plain_chars:
  "list_all (\<lambda>c. \<not> py_space c) ''scrypt''" "list_all (\<lambda>c. \<not> py_space c) ''16384''"
  "list_all (\<lambda>c. \<not> py_space c) ''8''" "list_all (\<lambda>c. \<not> py_space c) ''2''" "\<not> py_space colon"
  by (simp_all add: py_space_def colon_def)

lemma hash_text:
  assumes "hash_password scrypt salt p = Some h" "kdf_ok scrypt" "is_bytes salt" "length salt \<le> 16"
  shows "line_ok 4096 h" "verify_password scrypt p h"
proof -
  obtain dk where dk: "scrypt p salt (2 ^ 14) 8 2 = Some dk"
    and h: "h = ''scrypt'' @ [colon] @ to_hex salt @ [colon] @ ''16384'' @ [colon] @ ''8'' @
      [colon] @ ''2'' @ [colon] @ to_hex dk"
    using assms(1) by (auto simp: hash_password_def)
  have b: "is_bytes dk" "length dk \<le> 64" using dk assms(2) unfolding kdf_ok_def by blast+
  have "list_all (\<lambda>c. \<not> py_space c) (to_hex salt)" "list_all (\<lambda>c. \<not> py_space c) (to_hex dk)"
    using to_hex_chars [OF assms(3)] to_hex_chars [OF b(1)] unfolding list_all_iff by blast+
  then have "list_all (\<lambda>c. \<not> py_space c) h"
    unfolding h list_all_append using plain_chars by simp
  then show "line_ok 4096 h" using b(2) assms(4) by (simp add: h line_ok_def length_to_hex)
  show "verify_password scrypt p h"
    using verify_hash [OF assms(1,3), of p] assms(2) unfolding kdf_ok_def by blast
qed

inductive secrets_ok :: "kdf \<Rightarrow> secret_dir \<Rightarrow> bool" for scrypt where
  empty: "secrets_ok scrypt \<lparr>secret_text = None, bootstrap_text = None\<rparr>"
| boot: "line_ok 512 p \<Longrightarrow>
    secrets_ok scrypt \<lparr>secret_text = None, bootstrap_text = Some (p @ [newline])\<rparr>"
| full: "line_ok 512 p \<Longrightarrow> line_ok 4096 h \<Longrightarrow> verify_password scrypt p h \<Longrightarrow>
    secrets_ok scrypt \<lparr>secret_text = Some (h @ [newline]), bootstrap_text = Some (p @ [newline])\<rparr>"

text \<open>One start, from any of the three states such a directory can be in.\<close>

lemma load_or_create_step:
  assumes "secrets_ok scrypt d" "fresh_ok e" "kdf_ok scrypt"
  shows "secrets_ok scrypt (fst (load_or_create scrypt e d)) \<and>
    (\<forall>h g. snd (load_or_create scrypt e d) = Inr (h, g) \<longrightarrow>
      (\<exists>p. bootstrap_text (fst (load_or_create scrypt e d)) = Some (p @ [newline]) \<and>
        verify_password scrypt p h \<and> (g = None \<or> g = Some p)))"
proof -
  have e: "is_bytes (fresh_salt e)" "length (fresh_salt e) \<le> 16" "line_ok 512 (fresh_password e)"
    using assms(2) by (simp_all add: fresh_ok_def)
  note hp = hash_text [OF _ assms(3) e(1,2)]
  have none: "read_secret n None = Inr None" for n by (simp add: read_secret_def)
  from assms(1) show ?thesis
  proof cases
    case empty
    show ?thesis
    proof (cases "hash_password scrypt (fresh_salt e) (fresh_password e)")
      case None
      then show ?thesis using empty assms(1) by (simp add: load_or_create_def none)
    next
      case (Some h)
      then show ?thesis using empty e(3) hp [OF Some]
        by (cases "write_bootstrap e"; cases "write_hash e")
          (simp_all add: load_or_create_def none write_secret_def secrets_ok.intros)
    qed
  next
    case (boot p)
    show ?thesis
    proof (cases "hash_password scrypt (fresh_salt e) p")
      case None
      then show ?thesis using boot assms(1) read_line [OF boot(2)] by (simp add: load_or_create_def none)
    next
      case (Some h)
      then show ?thesis using boot read_line [OF boot(2)] hp [OF Some]
        by (cases "write_hash e")
          (simp_all add: load_or_create_def none write_secret_def secrets_ok.intros)
    qed
  next
    case (full p h)
    then have "load_or_create scrypt e d = (d, Inr (h, None))"
      using read_line [OF full(3)] by (simp add: load_or_create_def)
    then show ?thesis using full assms(1) by simp
  qed
qed

text \<open>The generated password is never lost to an interrupted start: after any number of first
  starts of an empty directory, each write of which may fail before or after its file was replaced, a start
  that returns a hash has a bootstrap file whose password that hash accepts.\<close>

theorem bootstrap_recovers:
  assumes "kdf_ok scrypt" "list_all fresh_ok (es @ [e])"
    and "load_or_create scrypt e (starts scrypt es \<lparr>secret_text = None, bootstrap_text = None\<rparr>) = (d, Inr (h, g))"
  shows "\<exists>p. bootstrap_text d = Some (p @ [newline]) \<and> verify_password scrypt p h \<and> (g = None \<or> g = Some p)"
proof -
  have "secrets_ok scrypt (starts scrypt es d0)" if "secrets_ok scrypt d0" "list_all fresh_ok es" for d0
    using that by (induction es arbitrary: d0) (simp_all add: load_or_create_step [OF _ _ assms(1)])
  from load_or_create_step [OF this _ assms(1), of "\<lparr>secret_text = None, bootstrap_text = None\<rparr>" e]
  show ?thesis using assms(2,3) by (simp add: secrets_ok.empty)
qed

subsection \<open>Instances\<close>

definition demo_hash :: string where
  "demo_hash = ''scrypt'' @ [colon] @ to_hex [1, 2] @ [colon] @ ''16384'' @ [colon] @ ''8'' @
      [colon] @ ''2'' @ [colon] @ to_hex (map (\<lambda>c. of_char c mod 256) ''correct horse'' @ [1, 2])"

lemma demo_verify: "verify_password toy_kdf p demo_hash \<longleftrightarrow>
    map (\<lambda>c. (of_char c :: nat) mod 256) p = map (\<lambda>c. of_char c mod 256) ''correct horse''"
proof -
  have "hash_password toy_kdf [1, 2] ''correct horse'' = Some demo_hash"
    unfolding demo_hash_def by (rule toy_hash)
  then have "verify_password toy_kdf p demo_hash \<longleftrightarrow>
      toy_kdf p [1, 2] (2 ^ 14) 8 2 = toy_kdf ''correct horse'' [1, 2] (2 ^ 14) 8 2"
    by (rule verify_hash [OF _ is_bytes_small]) (rule toy_kdf_bytes [OF is_bytes_small])
  then show ?thesis by (simp add: toy_kdf_def)
qed

definition demo_session :: "address \<Rightarrow> time \<Rightarrow> session" where
  "demo_session ip t = \<lparr>created_at = t, last_seen = t, remote_ip = ip, pw_checksum = Some ''d'',
     expires_at = t + 100\<rparr>"

definition demo_auth :: "int \<Rightarrow> (string, session) pydict \<Rightarrow> auth" where
  "demo_auth maxs d = \<lparr>pw_hash = demo_hash, checksum = ''d'', session_timeout = 100, max_sessions = maxs,
     store = Memory d, limiter = new_rate_limiter 5 60, audit = [],
     files = \<lparr>secret_text = Some (demo_hash @ [newline]), bootstrap_text = None\<rparr>,
     hash_file_set = True, bootstrap_set = False\<rparr>"

lemma demo_fields [simp]:
  "pw_hash (demo_auth m d) = demo_hash" "checksum (demo_auth m d) = ''d''"
  "session_timeout (demo_auth m d) = 100" "max_sessions (demo_auth m d) = m"
  "store (demo_auth m d) = Memory d" "hash_file_set (demo_auth m d)" "\<not> bootstrap_set (demo_auth m d)"
  "limiter (demo_auth m d) = new_rate_limiter 5 60"
  by (simp_all add: demo_auth_def)

lemma demo_login:
  "\<exists>rl. login toy_kdf \<lparr>l_mono = m, l_wall = t, l_token = k\<rparr> ''correct horse'' ip (demo_auth maxs d) =
     (case evict_sessions maxs k ip (Memory (AList.update k (demo_session ip t) d)) of
        (st, None) \<Rightarrow> (demo_auth maxs d\<lparr>limiter := rl, store := st\<rparr>, Inr (Some k))
      | (st, Some x) \<Rightarrow> (demo_auth maxs d\<lparr>limiter := rl, store := st\<rparr>, Inl x))"
  by (rule exI [of _ "record_success ip (cleanup (normalize_ip ip) m (new_rate_limiter 5 60))"])
    (simp add: login_def is_allowed_def Let_def cleanup_def new_rate_limiter_def demo_verify st_set_def mem_set_def
      demo_session_def split: prod.split option.split)

definition demo_old :: "(string, session) pydict" where
  "demo_old = [(''far'', demo_session (V4 2) 3), (''old'', demo_session (V4 1) 7)]"

definition demo_new :: auth where
  "demo_new = fst (login toy_kdf \<lparr>l_mono = 5, l_wall = 50, l_token = ''new''\<rparr> ''correct horse'' (V4 1)
     (demo_auth 2 demo_old))"

lemma demo_new: "login toy_kdf \<lparr>l_mono = 5, l_wall = 50, l_token = ''new''\<rparr> ''correct horse'' (V4 1)
    (demo_auth 2 demo_old) = (demo_new, Inr (Some ''new''))"
proof -
  have "evict_sessions 2 ''new'' (V4 1) (Memory (demo_old @ [(''new'', demo_session (V4 1) 50)])) =
      (Memory [(''far'', demo_session (V4 2) 3), (''new'', demo_session (V4 1) 50)], None)"
    by (simp add: evict_sessions.simps st_len_def pick_victim_def same_ip_def oldest_token_def st_items_def st_del_def mem_del_def
        demo_session_def normalize_ip_def demo_old_def)
  moreover have "AList.update ''new'' (demo_session (V4 1) 50) demo_old =
      demo_old @ [(''new'', demo_session (V4 1) 50)]" by (simp add: demo_old_def)
  ultimately show ?thesis
    using demo_login [of 5 50 "''new''" "V4 1" 2 demo_old] by (auto simp: demo_new_def)
qed

lemma demo_ok: "st_ok (Memory demo_old)" "st_len (Memory demo_old) = 2"
  by (simp_all add: st_ok_def demo_old_def st_len_def)

theorem login_session_cap_witness:
  "int (st_len (store demo_new)) \<le> 2 \<and>
   map_option remote_ip (st_get ''new'' (store demo_new)) = Some (V4 1)"
  using login_session_cap [OF _ _ demo_new] demo_ok by simp

theorem eviction_spares_other_addresses_witness:
  "st_get ''far'' (store demo_new) = Some (demo_session (V4 2) 3)"
  by (rule eviction_spares_other_addresses [OF _ _ _ demo_new, of "''old''" "demo_session (V4 1) 7"])
    (simp_all add: demo_ok, simp_all add: demo_old_def demo_session_def normalize_ip_def st_get_def)

theorem token_needs_login_witness:
  "''new'' \<in> set (snd (auth_run toy_kdf (\<lambda>_. ''d'')
      [Login \<lparr>l_mono = 5, l_wall = 50, l_token = ''new''\<rparr> ''correct horse'' (V4 1)] (demo_auth 2 [])))"
proof -
  let ?ops = "[Login \<lparr>l_mono = 5, l_wall = 50, l_token = ''new''\<rparr> ''correct horse'' (V4 1)]"
  have n: "new_auth (\<lambda>_. ''d'') demo_hash 100 2 (Memory []) 5 60
      \<lparr>secret_text = Some (demo_hash @ [newline]), bootstrap_text = None\<rparr> True False = Inr (demo_auth 2 [])"
    by (simp add: new_auth_def demo_auth_def demo_hash_def)
  have e: "evict_sessions 2 ''new'' (V4 1) (Memory [(''new'', demo_session (V4 1) 50)]) =
      (Memory [(''new'', demo_session (V4 1) 50)], None)"
    by (simp add: evict_sessions.simps st_len_def)
  obtain rl where r: "auth_run toy_kdf (\<lambda>_. ''d'') ?ops (demo_auth 2 []) =
      (demo_auth 2 []\<lparr>limiter := rl, store := Memory [(''new'', demo_session (V4 1) 50)]\<rparr>, [''new''])"
    using demo_login [of 5 50 "''new''" "V4 1" 2 "[]"] e by (auto simp: auth_step_def)
  have "''new'' \<in> set [''new'']"
    by (rule token_needs_login [OF n _ _ _ r, of "''new''" 51])
      (simp_all add: st_ok_def st_items_def validate_token_def st_get_def demo_session_def throttle_def)
  with r show ?thesis by simp
qed

theorem rotation_revokes_witness:
  "snd (validate_token ''far'' 9 (fst (change_password toy_kdf (\<lambda>_. ''e'')
       \<lparr>c_salt = [3], c_write = Written, c_unlink = Unlinked\<rparr> ''correct horse'' ''another horse''
       (demo_auth 2 demo_old)))) = Inr False"
proof -
  let ?c = "change_password toy_kdf (\<lambda>_. ''e'') \<lparr>c_salt = [3], c_write = Written, c_unlink = Unlinked\<rparr>
    ''correct horse'' ''another horse'' (demo_auth 2 demo_old)"
  obtain h where h: "hash_password toy_kdf [3] ''another horse'' = Some h"
    by (simp add: hash_password_def toy_kdf_def)
  obtain a' where c: "?c = (a', Inr \<lparr>applied = True, change_reason = Password_Changed,
      revoked = [''far'', ''old''], still_required = False\<rparr>)"
    using h by (simp add: change_password_def demo_verify write_secret_def invalidate_all_def
        drop_bootstrap_def Let_def password_change_required_def st_items_def demo_old_def)
  have "is_bytes [3]" by (simp add: is_bytes_def)
  then have "validate_token ''far'' 9 a' = (a', Inr False)"
    using rotation_revokes [OF _ c, simplified, where k = "''far''" and now = 9] demo_ok toy_kdf_bytes by simp
  with c show ?thesis by simp
qed

theorem idle_expiry_witness:
  "snd (validate_token ''old'' 95 (fst (validate_token ''old'' 9 (demo_auth 2 demo_old)))) = Inr True \<and>
   snd (validate_token ''old'' 110 (fst (validate_token ''old'' 9 (demo_auth 2 demo_old)))) = Inr False"
proof -
  have v: "validate_token ''old'' 9 (demo_auth 2 demo_old) = (demo_auth 2 demo_old, Inr True)"
    "map_option last_seen (st_get ''old'' (store (demo_auth 2 demo_old))) = Some 7"
    "throttle (demo_auth 2 demo_old) = 10"
    by (simp_all add: validate_token_def st_get_def demo_old_def demo_session_def throttle_def)
  note i = idle_expiry [OF _ v(1) _ v(2)]
  show ?thesis using i [of 95] i [of 110] v demo_ok by simp
qed

definition short_kdf :: kdf where
  "short_kdf pw s n r p = Some (take 64 (map (\<lambda>b. b mod 256) (map of_char pw @ s)))"

lemma short_kdf_ok: "kdf_ok short_kdf"
  by (auto simp: kdf_ok_def short_kdf_def is_bytes_def list_all_iff dest!: in_set_takeD)

definition demo_fresh :: "string \<Rightarrow> write_fate \<Rightarrow> fresh" where
  "demo_fresh p f = \<lparr>fresh_password = p, fresh_salt = [1, 2], write_bootstrap = f, write_hash = Written\<rparr>"

lemma demo_fresh_ok: "fresh_ok (demo_fresh ''aa'' f)" "fresh_ok (demo_fresh ''bb'' f)"
  by (simp_all add: fresh_ok_def demo_fresh_def is_bytes_def line_ok_def py_space_def)

theorem bootstrap_recovers_witness:
  "\<exists>d h g p. load_or_create short_kdf (demo_fresh ''bb'' Written) (starts short_kdf
       [demo_fresh ''aa'' Written_But_Raised] \<lparr>secret_text = None, bootstrap_text = None\<rparr>) = (d, Inr (h, g)) \<and>
     bootstrap_text d = Some (p @ [newline]) \<and> verify_password short_kdf p h \<and> (g = None \<or> g = Some p)"
proof -
  let ?d = "starts short_kdf [demo_fresh ''aa'' Written_But_Raised]
    \<lparr>secret_text = None, bootstrap_text = None\<rparr>"
  obtain h where h: "hash_password short_kdf [1, 2] p = Some (h p)" for p
    by (simp add: hash_password_def short_kdf_def)
  have l: "line_ok 512 ''aa''" by (simp add: line_ok_def py_space_def)
  have "?d = \<lparr>secret_text = None, bootstrap_text = Some (''aa'' @ [newline])\<rparr>"
    using h by (simp add: load_or_create_def read_secret_def demo_fresh_def write_secret_def)
  then obtain d where e: "load_or_create short_kdf (demo_fresh ''bb'' Written) ?d = (d, Inr (h ''aa'', None))"
    using h read_line [OF l] by (simp add: load_or_create_def demo_fresh_def write_secret_def
        read_secret_def [of 4096])
  show ?thesis
    using bootstrap_recovers [OF short_kdf_ok _ e] e demo_fresh_ok by fastforce
qed

end
