(* ===== verification/Sdr_State.thy ===== *)
theory Sdr_State
  imports Py_Text
begin

text \<open>
  \<open>sdr_scheduler.py\<close>, first part: the records of the SDR dongle scheduler and the operations that
  run under its lock without calling out.  Python objects that outlive a dictionary entry keep an
  identity: a slot is identified by its \<open>registration_id\<close>, which is unique, and a dongle state by
  \<open>d_uid\<close>, a number given when it is created.  The callbacks of a slot are named by its
  registration; what \<open>rtlsdr\<close> answers when a device is resolved or claimed is an argument.
\<close>

type_synonym caller = string

datatype selector = Auto | Serial | Index

definition priority_critical :: int where "priority_critical = 0"
definition priority_scheduled :: int where "priority_scheduled = 1"
definition priority_background :: int where "priority_background = 2"
definition probe_retry_interval :: real where "probe_retry_interval = 10"

record time_window =
  start_ts :: time
  end_ts :: time
  w_caller :: caller
  w_label :: string

record signal_slot =
  sl_caller :: caller
  sl_serial :: string
  priority :: int
  device_selector :: selector
  sl_canonical :: string
  sl_label :: string
  continuous :: bool
  windows :: "time_window list"
  is_active :: bool
  last_acquired :: time
  last_yielded :: time
  device_lease :: "nat option"
  release_requested :: bool
  suspended :: bool
  registration_id :: nat
  allocation_generation :: nat
  preflight_at :: time
  preflight_signature :: "(nat \<times> caller option \<times> caller option \<times> nat \<times> bool) option"
  preflight_deferred :: bool
  acquire_retry_at :: time
  acquire_retry_signature :: "(nat \<times> nat \<times> string) option"

record dongle =
  d_serial :: string
  d_canonical :: string
  device_index :: "int option"
  current_holder :: "caller option"
  locked_by :: "caller option"
  relock_after :: "caller option"
  slots :: "(caller, signal_slot) pydict"
  bg_order :: "caller list"
  bg_index :: nat
  bg_last_rotation :: time
  default_signal :: string
  bg_slice_seconds :: real
  generation :: nat
  d_uid :: nat

record sdr =
  dongles :: "(string, dongle) pydict"
  canonical_dongles :: "(string, string) pydict"
  registrations :: "(string \<times> caller, string) pydict"
  managed_aliases :: "(string, string) pydict"
  running :: bool
  next_registration_id :: nat
  weather_override_lock :: bool
  next_uid :: nat

definition new_dongle :: "string \<Rightarrow> string \<Rightarrow> string \<Rightarrow> real \<Rightarrow> nat \<Rightarrow> dongle" where
  "new_dongle serial canonical dflt slice uid =
     \<lparr>d_serial = serial, d_canonical = canonical, device_index = None, current_holder = None,
      locked_by = None, relock_after = None, slots = [], bg_order = [], bg_index = 0,
      bg_last_rotation = 0, default_signal = dflt, bg_slice_seconds = slice, generation = 0,
      d_uid = uid\<rparr>"

subsection \<open>Construction\<close>

definition manage :: "string \<Rightarrow> string \<Rightarrow> real \<Rightarrow> sdr \<Rightarrow> sdr" where
  "manage serial dflt slice s =
     (let canonical = ''serial:'' @ serial
      in s\<lparr>dongles := AList.update serial (new_dongle serial canonical dflt slice (next_uid s)) (dongles s),
           canonical_dongles := AList.update canonical serial (canonical_dongles s),
           managed_aliases := AList.update serial canonical (managed_aliases s),
           next_uid := next_uid s + 1\<rparr>)"

primrec init_dongles :: "(string \<times> string \<times> real) list \<Rightarrow> sdr \<Rightarrow> sdr" where
  "init_dongles [] s = s"
| "init_dongles (m # ms) s =
     (case m of (serial, dflt, slice) \<Rightarrow>
        init_dongles ms (if serial = '''' then s else manage serial dflt slice s))"

definition new_sdr :: "(string \<times> string \<times> real) list \<Rightarrow> bool \<Rightarrow> sdr" where
  "new_sdr managed override =
     init_dongles managed
       \<lparr>dongles = [], canonical_dongles = [], registrations = [], managed_aliases = [], running = False,
        next_registration_id = 0, weather_override_lock = override, next_uid = 0\<rparr>"

definition add_dongle :: "string \<Rightarrow> string \<Rightarrow> real \<Rightarrow> sdr \<Rightarrow> sdr" where
  "add_dongle serial dflt slice s =
     (if map_of (dongles s) serial = None then manage serial dflt slice s else s)"

subsection \<open>Objects behind the dictionaries\<close>

definition dongle_by :: "nat \<Rightarrow> sdr \<Rightarrow> dongle option" where
  "dongle_by uid s = map_option snd (List.find (\<lambda>(_, d). d_uid d = uid) (dongles s))"

definition map_dongle :: "nat \<Rightarrow> (dongle \<Rightarrow> dongle) \<Rightarrow> sdr \<Rightarrow> sdr" where
  "map_dongle uid f s =
     s\<lparr>dongles := map (\<lambda>(k, d). (k, if d_uid d = uid then f d else d)) (dongles s)\<rparr>"

definition map_slot :: "nat \<Rightarrow> (signal_slot \<Rightarrow> signal_slot) \<Rightarrow> sdr \<Rightarrow> sdr" where
  "map_slot reg f s =
     s\<lparr>dongles := map (\<lambda>(k, d). (k, d\<lparr>slots :=
         map (\<lambda>(c, sl). (c, if registration_id sl = reg then f sl else sl)) (slots d)\<rparr>)) (dongles s)\<rparr>"

definition is_dongle_at :: "string \<Rightarrow> nat \<Rightarrow> sdr \<Rightarrow> bool" where
  "is_dongle_at key uid s = (map_option d_uid (map_of (dongles s) key) = Some uid)"

definition own_slot :: "nat \<Rightarrow> caller \<Rightarrow> nat \<Rightarrow> sdr \<Rightarrow> signal_slot option" where
  "own_slot uid c reg s =
     (case dongle_by uid s of
        None \<Rightarrow> None
      | Some d \<Rightarrow>
          (case map_of (slots d) c of
             None \<Rightarrow> None
           | Some sl \<Rightarrow> if registration_id sl = reg then Some sl else None))"

definition bump :: "dongle \<Rightarrow> dongle" where
  "bump d = d\<lparr>generation := generation d + 1\<rparr>"

subsection \<open>Identities\<close>

text \<open>\<open>answer\<close> is the canonical identity \<open>resolve_device_identity\<close> found, \<open>None\<close> when it raised.\<close>

definition registration_canonical_id :: "string \<Rightarrow> selector \<Rightarrow> string option \<Rightarrow> sdr \<Rightarrow> string" where
  "registration_canonical_id configured sel answer s =
     (case (sel, map_of (managed_aliases s) configured) of
        (Auto, Some managed) \<Rightarrow> managed
      | _ \<Rightarrow>
          (case answer of
             Some canonical \<Rightarrow> canonical
           | None \<Rightarrow>
               if sel = Index then
                 (case py_int configured of
                    Some i \<Rightarrow> ''index:'' @ show_int i
                  | None \<Rightarrow> ''index:'' @ configured)
               else ''serial:'' @ configured))"

definition suffixed :: "string \<Rightarrow> nat \<Rightarrow> string" where
  "suffixed canonical n = canonical @ CHR 0x23 # show_nat n"

lemma suffixed_inj: "inj (suffixed canonical)"
  by (auto simp: inj_def suffixed_def)

lemma finite_suffixes: "finite {m. n \<le> m \<and> suffixed c m \<in> keys_of d}"
proof -
  have "finite (suffixed c -` keys_of d)" by (rule finite_vimageI) (simp_all add: suffixed_inj)
  then show ?thesis by (rule rev_finite_subset) auto
qed

function free_key :: "string \<Rightarrow> nat \<Rightarrow> (string, dongle) pydict \<Rightarrow> string" where
  "free_key canonical n d =
     (if map_of d (suffixed canonical n) = None then suffixed canonical n
      else free_key canonical (n + 1) d)"
  by pat_completeness auto
termination
proof (relation "measure (\<lambda>(c, n, d). card {m. n \<le> m \<and> suffixed c m \<in> keys_of d})")
  fix c n and d :: "(string, dongle) pydict"
  assume "map_of d (suffixed c n) \<noteq> None"
  then have "n \<in> {m. n \<le> m \<and> suffixed c m \<in> keys_of d}"
    by (auto simp: map_of_None_keys)
  moreover have "{m. n + 1 \<le> m \<and> suffixed c m \<in> keys_of d} \<subseteq> {m. n \<le> m \<and> suffixed c m \<in> keys_of d}"
    "n \<notin> {m. n + 1 \<le> m \<and> suffixed c m \<in> keys_of d}" by auto
  ultimately have "{m. n + 1 \<le> m \<and> suffixed c m \<in> keys_of d} \<subset> {m. n \<le> m \<and> suffixed c m \<in> keys_of d}"
    by blast
  then show "((c, n + 1, d), (c, n, d)) \<in> measure (\<lambda>(c, n, d). card {m. n \<le> m \<and> suffixed c m \<in> keys_of d})"
    using psubset_card_mono [OF finite_suffixes] by simp
qed simp

declare free_key.simps [simp del]

lemma free_key_fresh: "map_of d (free_key canonical n d) = None"
  by (induction canonical n d rule: free_key.induct) (subst free_key.simps, simp)

definition ensure_dongle :: "string \<Rightarrow> string \<Rightarrow> sdr \<Rightarrow> sdr \<times> string" where
  "ensure_dongle configured canonical s =
     (case map_of (canonical_dongles s) canonical of
        Some key \<Rightarrow> (s, key)
      | None \<Rightarrow>
          let key =
            (case map_of (dongles s) configured of
               None \<Rightarrow> configured
             | Some existing \<Rightarrow>
                 if d_canonical existing = canonical then configured
                 else if map_of (dongles s) canonical = None then canonical
                 else free_key canonical 2 (dongles s))
          in (s\<lparr>dongles := AList.update key (new_dongle configured canonical '''' 120 (next_uid s)) (dongles s),
                canonical_dongles := AList.update canonical key (canonical_dongles s),
                next_uid := next_uid s + 1\<rparr>, key))"

definition registration_key :: "string \<Rightarrow> caller \<Rightarrow> sdr \<Rightarrow> string option" where
  "registration_key configured c s =
     (case map_of (registrations s) (configured, c) of
        Some key \<Rightarrow> Some key
      | None \<Rightarrow> if map_of (dongles s) configured \<noteq> None then Some configured else None)"

definition registration_dongle :: "string \<Rightarrow> caller \<Rightarrow> sdr \<Rightarrow> dongle option" where
  "registration_dongle configured c s = Option.bind (registration_key configured c s) (map_of (dongles s))"

definition prune_empty_provisional :: "string \<Rightarrow> nat \<Rightarrow> sdr \<Rightarrow> sdr" where
  "prune_empty_provisional key uid s =
     (case dongle_by uid s of
        None \<Rightarrow> s
      | Some d \<Rightarrow>
          if slots d \<noteq> [] \<or> bg_order d \<noteq> [] \<or> current_holder d \<noteq> None \<or> locked_by d \<noteq> None
             \<or> relock_after d \<noteq> None \<or> d_canonical d \<in> snd ` set (managed_aliases s)
             \<or> key \<in> snd ` set (registrations s)
          then s
          else
            let s1 = (if is_dongle_at key uid s then s\<lparr>dongles := AList.delete key (dongles s)\<rparr> else s)
            in if map_of (canonical_dongles s1) (d_canonical d) = Some key
               then s1\<lparr>canonical_dongles := AList.delete (d_canonical d) (canonical_dongles s1)\<rparr>
               else s1)"

definition leave_dongle :: "caller \<Rightarrow> dongle \<Rightarrow> dongle" where
  "leave_dongle c d =
     d\<lparr>slots := AList.delete c (slots d), bg_order := remove1 c (bg_order d),
       relock_after := (if relock_after d = Some c then None else relock_after d)\<rparr>"

definition join_dongle :: "caller \<Rightarrow> signal_slot \<Rightarrow> dongle \<Rightarrow> dongle" where
  "join_dongle c sl d =
     d\<lparr>slots := AList.update c sl (slots d),
       bg_order := (if priority sl = priority_background \<and> continuous sl \<and> c \<notin> set (bg_order d)
                    then bg_order d @ [c] else bg_order d)\<rparr>"

text \<open>The flag says whether the slot moved.\<close>

definition reconcile_idle_slot :: "nat \<Rightarrow> caller \<Rightarrow> nat \<Rightarrow> string \<Rightarrow> sdr \<Rightarrow> sdr \<times> bool" where
  "reconcile_idle_slot uid c reg canonical s =
     (case (own_slot uid c reg s, dongle_by uid s) of
        (Some slot, Some source) \<Rightarrow>
          (case map_of (registrations s) (sl_serial slot, c) of None \<Rightarrow> (s, False) | Some key \<Rightarrow>
          if \<not> is_dongle_at key uid s \<or> is_active slot \<or> device_lease slot \<noteq> None
             \<or> current_holder source = Some c \<or> locked_by source = Some c
          then (s, False)
          else if d_canonical source = canonical then
            (map_slot reg
               (\<lambda>sl. sl\<lparr>sl_canonical := canonical, allocation_generation := 0\<rparr>) s, False)
          else
            (case ensure_dongle (sl_serial slot) canonical s of
               (s1, target_key) \<Rightarrow>
                 (case map_of (dongles s1) target_key of
                    None \<Rightarrow> (s1, False)
                  | Some target \<Rightarrow>
                      if d_uid target = uid \<or> map_of (slots target) c \<noteq> None then (s1, False)
                      else
                        let slot' = slot\<lparr>sl_canonical := canonical, allocation_generation := 0\<rparr>;
                            s2 = map_dongle uid (bump \<circ> leave_dongle c) s1;
                            s3 = map_dongle (d_uid target) (bump \<circ> join_dongle c slot') s2;
                            s4 = s3\<lparr>registrations := AList.update (sl_serial slot, c) target_key (registrations s3)\<rparr>
                        in (prune_empty_provisional key uid s4, True))))
      | _ \<Rightarrow> (s, False))"

subsection \<open>Windows and locks\<close>

definition on_dongle :: "string \<Rightarrow> caller \<Rightarrow> (dongle \<Rightarrow> dongle) \<Rightarrow> sdr \<Rightarrow> sdr" where
  "on_dongle serial c f s =
     (case registration_dongle serial c s of None \<Rightarrow> s | Some d \<Rightarrow> map_dongle (d_uid d) f s)"

definition upd_slot :: "caller \<Rightarrow> (signal_slot \<Rightarrow> signal_slot) \<Rightarrow> dongle \<Rightarrow> dongle" where
  "upd_slot c f d =
     (case map_of (slots d) c of
        None \<Rightarrow> d | Some sl \<Rightarrow> d\<lparr>slots := AList.update c (f sl) (slots d)\<rparr>)"

text \<open>The number is the window count of the \<open>SDR_SCHEDULE_UPDATED\<close> event, \<open>None\<close> when no event is published.\<close>

definition add_window :: "string \<Rightarrow> caller \<Rightarrow> time \<Rightarrow> time \<Rightarrow> string \<Rightarrow> sdr \<Rightarrow> sdr \<times> nat option" where
  "add_window serial c from_ts to_ts label s =
     (case Option.bind (registration_dongle serial c s) (\<lambda>d. map_of (slots d) c) of
        None \<Rightarrow> (s, None)
      | Some sl \<Rightarrow>
          let w = \<lparr>start_ts = from_ts, end_ts = to_ts, w_caller = c, w_label = label\<rparr>;
              ws = sort_key start_ts (windows sl @ [w])
          in (on_dongle serial c (upd_slot c (\<lambda>sl. sl\<lparr>windows := ws\<rparr>)) s, Some (length ws)))"

definition remove_windows :: "string \<Rightarrow> caller \<Rightarrow> sdr \<Rightarrow> sdr" where
  "remove_windows serial c s = on_dongle serial c (upd_slot c (\<lambda>sl. sl\<lparr>windows := []\<rparr>)) s"

definition lock :: "string \<Rightarrow> caller \<Rightarrow> sdr \<Rightarrow> sdr \<times> bool" where
  "lock serial c s =
     (case registration_dongle serial c s of
        None \<Rightarrow> (s, False)
      | Some d \<Rightarrow>
          if current_holder d \<noteq> Some c then (s, False)
          else (map_dongle (d_uid d) (\<lambda>d. d\<lparr>locked_by := Some c\<rparr>) s, True))"

definition unlock :: "string \<Rightarrow> caller \<Rightarrow> sdr \<Rightarrow> sdr" where
  "unlock serial c s =
     on_dongle serial c (\<lambda>d. if locked_by d = Some c then d\<lparr>locked_by := None\<rparr> else d) s"

end
