(* ===== verification/Sdr_Select.thy ===== *)
theory Sdr_Select
  imports Sdr_State
begin

text \<open>
  \<open>sdr_scheduler.py\<close>, second part: which caller a dongle should go to.  Critical slots come first,
  then scheduled slots with an open window, then the background rotation; a lock is only overridden
  by a critical slot.
\<close>

subsection \<open>Operations\<close>

definition window_open :: "time \<Rightarrow> time_window \<Rightarrow> bool" where
  "window_open now w = (start_ts w \<le> now \<and> now \<le> end_ts w)"

text \<open>The loop of \<open>_pick_winner\<close>, with its best caller and best priority so far.\<close>

definition best_slot ::
  "time \<Rightarrow> caller \<Rightarrow> signal_slot \<Rightarrow> caller option \<times> int \<Rightarrow> caller option \<times> int" where
  "best_slot now c sl best =
     (if suspended sl then best
      else if priority sl = priority_critical \<and> continuous sl then
        (if priority sl < snd best then (Some c, priority sl) else best)
      else if priority sl = priority_scheduled then
        (if list_ex (window_open now) (windows sl) \<and> priority sl < snd best
         then (Some c, priority sl) else best)
      else best)"

primrec scan_slots ::
  "time \<Rightarrow> (caller \<times> signal_slot) list \<Rightarrow> caller option \<times> int \<Rightarrow> caller option \<times> int" where
  "scan_slots now [] best = best"
| "scan_slots now (x # xs) best = (case x of (c, sl) \<Rightarrow> scan_slots now xs (best_slot now c sl best))"

primrec peek_from :: "nat \<Rightarrow> nat \<Rightarrow> dongle \<Rightarrow> caller option" where
  "peek_from 0 idx d = None"
| "peek_from (Suc k) idx d =
     (let c = bg_order d ! (idx mod length (bg_order d))
      in case map_of (slots d) c of
           Some sl \<Rightarrow> if suspended sl then peek_from k (idx + 1) d else Some c
         | None \<Rightarrow> peek_from k (idx + 1) d)"

definition peek_background :: "dongle \<Rightarrow> time \<Rightarrow> caller option" where
  "peek_background d now =
     (if bg_order d = [] then None
      else
        case current_holder d of
          Some h \<Rightarrow>
            if h \<in> set (bg_order d) \<and> now - bg_last_rotation d < bg_slice_seconds d then Some h
            else peek_from (length (bg_order d)) (bg_index d) d
        | None \<Rightarrow> peek_from (length (bg_order d)) (bg_index d) d)"

definition drop_nth :: "nat \<Rightarrow> 'a list \<Rightarrow> 'a list" where
  "drop_nth n xs = take n xs @ drop (Suc n) xs"

text \<open>The loop of \<open>_pick_background\<close>: it runs once per entry the list had at its start and drops the
  entries without a slot.\<close>

primrec pick_from :: "nat \<Rightarrow> dongle \<Rightarrow> dongle \<times> caller option" where
  "pick_from 0 d = (d, None)"
| "pick_from (Suc k) d =
     (if bg_order d = [] then (d, None)
      else
        let idx = bg_index d mod length (bg_order d);
            c = bg_order d ! idx
        in case map_of (slots d) c of
             Some sl \<Rightarrow>
               if suspended sl then pick_from k (d\<lparr>bg_index := bg_index d + 1\<rparr>) else (d, Some c)
           | None \<Rightarrow>
               let bg = drop_nth idx (bg_order d)
               in pick_from k
                    (d\<lparr>bg_order := bg,
                       bg_index := (if bg \<noteq> [] \<and> idx < bg_index d then bg_index d - 1 else bg_index d)\<rparr>))"

definition holder_in_bg :: "dongle \<Rightarrow> bool" where
  "holder_in_bg d = (case current_holder d of None \<Rightarrow> False | Some h \<Rightarrow> h \<in> set (bg_order d))"

definition pick_background :: "dongle \<Rightarrow> time \<Rightarrow> dongle \<times> caller option" where
  "pick_background d now =
     (if bg_order d = [] then (d, None)
      else if holder_in_bg d \<and> now - bg_last_rotation d < bg_slice_seconds d then (d, current_holder d)
      else
        let d1 = (if holder_in_bg d then d\<lparr>bg_index := bg_index d + 1\<rparr> else d)
        in pick_from (length (bg_order d1)) d1)"

definition pick_winner :: "dongle \<Rightarrow> time \<Rightarrow> time \<Rightarrow> dongle \<times> caller option" where
  "pick_winner d wall mon =
     (case scan_slots wall (slots d) (None, 999) of
        (Some c, _) \<Rightarrow> (d, Some c)
      | (None, _) \<Rightarrow> pick_background d mon)"

text \<open>\<open>_pick_winner\<close> with \<open>mutate_background = False\<close>.\<close>

definition peek_winner :: "dongle \<Rightarrow> time \<Rightarrow> time \<Rightarrow> caller option" where
  "peek_winner d wall mon =
     (case scan_slots wall (slots d) (None, 999) of
        (Some c, _) \<Rightarrow> Some c | (None, _) \<Rightarrow> peek_background d mon)"

definition can_preempt :: "bool \<Rightarrow> dongle \<Rightarrow> caller \<Rightarrow> caller \<Rightarrow> bool" where
  "can_preempt override d current winner =
     (if locked_by d = Some current then
        (case map_of (slots d) winner of
           None \<Rightarrow> False | Some sl \<Rightarrow> priority sl = priority_critical \<and> override)
      else
        case (map_of (slots d) current, map_of (slots d) winner) of
          (Some cs, Some ws) \<Rightarrow>
            if priority ws = priority_background \<and> priority cs = priority_background then True
            else priority ws < priority cs
        | _ \<Rightarrow> True)"

definition window_end :: "dongle \<Rightarrow> caller \<Rightarrow> time \<Rightarrow> time option" where
  "window_end d c now =
     (case map_of (slots d) c of
        None \<Rightarrow> None
      | Some sl \<Rightarrow> map_option end_ts (List.find (window_open now) (windows sl)))"

definition expire_windows :: "time \<Rightarrow> dongle \<Rightarrow> dongle" where
  "expire_windows now d =
     d\<lparr>slots := map (\<lambda>(c, sl). (c, sl\<lparr>windows := filter (\<lambda>w. now < end_ts w) (windows sl)\<rparr>)) (slots d)\<rparr>"

definition advance_bg_index :: "dongle \<Rightarrow> dongle" where
  "advance_bg_index d =
     (if bg_order d \<noteq> [] then d\<lparr>bg_index := (bg_index d + 1) mod length (bg_order d)\<rparr> else d)"

subsection \<open>The tiers\<close>

definition wants_critical :: "signal_slot \<Rightarrow> bool" where
  "wants_critical sl = (\<not> suspended sl \<and> priority sl = priority_critical \<and> continuous sl)"

definition wants_scheduled :: "time \<Rightarrow> signal_slot \<Rightarrow> bool" where
  "wants_scheduled now sl =
     (\<not> suspended sl \<and> priority sl = priority_scheduled \<and> list_ex (window_open now) (windows sl))"

lemmas tier_defs = wants_critical_def wants_scheduled_def priority_critical_def priority_scheduled_def

lemma best_slot_tiers:
  "best_slot now c sl (Some k, 0) = (Some k, 0)"
  "best_slot now c sl (Some k, 1) = (if wants_critical sl then (Some c, 0) else (Some k, 1))"
  "best_slot now c sl (None, 999) =
     (if wants_critical sl then (Some c, 0) else if wants_scheduled now sl then (Some c, 1) else (None, 999))"
  by (auto simp: best_slot_def tier_defs)

lemma scan_slots_critical: "scan_slots now xs (Some c, 0) = (Some c, 0)"
  by (induction xs) (auto simp: best_slot_tiers)

lemma scan_slots_scheduled:
  "scan_slots now xs (Some c, 1) =
     (case List.find (\<lambda>(_, sl). wants_critical sl) xs of
        Some (k, _) \<Rightarrow> (Some k, 0) | None \<Rightarrow> (Some c, 1))"
  by (induction xs) (auto simp: best_slot_tiers scan_slots_critical)

lemma scan_slots_tiers:
  "fst (scan_slots now xs (None, 999)) =
     (case List.find (\<lambda>(_, sl). wants_critical sl) xs of
        Some (k, _) \<Rightarrow> Some k
      | None \<Rightarrow> map_option fst (List.find (\<lambda>(_, sl). wants_scheduled now sl) xs))"
  by (induction xs)
    (auto simp: best_slot_tiers scan_slots_critical scan_slots_scheduled split: option.splits)

text \<open>Arbitration by tier: the winner is the first registered critical slot that is not suspended;
  without one the first scheduled slot with an open window; without one whatever the background
  rotation picks, and only then does the choice change the rotation.\<close>

theorem pick_winner_tiers:
  "pick_winner d wall mon =
     (case List.find (\<lambda>(_, sl). wants_critical sl) (slots d) of
        Some (k, _) \<Rightarrow> (d, Some k)
      | None \<Rightarrow>
          (case List.find (\<lambda>(_, sl). wants_scheduled wall sl) (slots d) of
             Some (k, _) \<Rightarrow> (d, Some k) | None \<Rightarrow> pick_background d mon))"
  using scan_slots_tiers [of wall "slots d"]
  by (auto simp: pick_winner_def split: option.splits prod.splits)

end
