(* ===== verification/Sdr_Handoff.thy ===== *)
theory Sdr_Handoff
  imports Sdr_Select
begin

text \<open>
  \<open>sdr_scheduler.py\<close>, third part: giving a dongle up, taking it, registration and release.  A
  Python method that drops the scheduler's lock in the middle is one definition per locked section;
  what it keeps in local variables meanwhile is a record, and the calls it makes without the lock
  are the effects its next section reports, in their order.
\<close>

datatype effect =
    Yield_Cb nat string string "time option"
  | Acquire_Cb nat string int
  | Release_Lease nat
  | Release_Device string caller selector
  | Event_Yielded string caller string
  | Event_Granted string caller int
  | Event_Schedule string caller nat

text \<open>The answer of \<open>claim_device\<close>: a lease with its device index and identity, a
  \<open>DeviceBusyError\<close> with the identity, or another \<open>RuntimeError\<close>.\<close>

datatype claim = Leased nat int string | Busy string | Refused

definition resolved_id :: "claim \<Rightarrow> string option" where
  "resolved_id r = (case r of Leased _ _ canonical \<Rightarrow> Some canonical | Busy canonical \<Rightarrow> Some canonical | Refused \<Rightarrow> None)"

definition drop_lease :: "claim \<Rightarrow> effect list" where
  "drop_lease r = (case r of Leased l _ _ \<Rightarrow> [Release_Lease l] | _ \<Rightarrow> [])"

subsection \<open>Yielding\<close>

record yield_job =
  y_caller :: caller
  y_reg :: nat
  y_serial :: string
  y_selector :: selector
  y_lease :: "nat option"
  y_by :: string
  y_label :: string
  y_until :: "time option"

definition yield_begin ::
  "caller \<Rightarrow> string \<Rightarrow> string \<Rightarrow> time option \<Rightarrow> time \<Rightarrow> dongle \<Rightarrow> dongle \<times> yield_job option" where
  "yield_begin c by label until now d =
     (case map_of (slots d) c of
        None \<Rightarrow> (d\<lparr>current_holder := None\<rparr>, None)
      | Some sl \<Rightarrow>
          let locked = locked_by d = Some c;
              sl' = sl\<lparr>is_active := False, last_yielded := now, allocation_generation := 0, device_lease := None\<rparr>;
              d1 = d\<lparr>slots := AList.update c sl' (slots d), current_holder := None, generation := generation d + 1\<rparr>;
              d2 = (if locked \<and> by \<noteq> '''' then d1\<lparr>locked_by := None, relock_after := Some c\<rparr>
                    else if relock_after d = Some c then d1\<lparr>relock_after := None\<rparr> else d1)
          in (d2, Some \<lparr>y_caller = c, y_reg = registration_id sl, y_serial = sl_serial sl,
                y_selector = device_selector sl, y_lease = device_lease sl, y_by = by,
                y_label = label, y_until = until\<rparr>))"

definition yield_effects :: "yield_job \<Rightarrow> effect list" where
  "yield_effects y =
     [Yield_Cb (y_reg y) (y_by y) (y_label y) (y_until y),
      (case y_lease y of
         Some l \<Rightarrow> Release_Lease l | None \<Rightarrow> Release_Device (y_serial y) (y_caller y) (y_selector y)),
      Event_Yielded (y_serial y) (y_caller y) (y_by y)]"

subsection \<open>Acquiring\<close>

record acquire_job =
  a_uid :: nat
  a_caller :: caller
  a_reg :: nat
  a_serial :: string
  a_priority :: int
  a_generation :: nat

definition retry_signature :: "dongle \<Rightarrow> signal_slot \<Rightarrow> nat \<times> nat \<times> string" where
  "retry_signature d sl = (generation d, registration_id sl, sl_canonical sl)"

text \<open>\<open>_do_acquire\<close> until it drops the lock to claim the device.\<close>

definition acquire_begin :: "caller \<Rightarrow> time \<Rightarrow> dongle \<Rightarrow> dongle \<times> acquire_job option" where
  "acquire_begin c now d =
     (case map_of (slots d) c of
        None \<Rightarrow> (d, None)
      | Some sl \<Rightarrow>
          if suspended sl then (d, None)
          else if acquire_retry_signature sl = Some (retry_signature d sl) \<and>
                  now - acquire_retry_at sl < probe_retry_interval then (d, None)
          else
            let g = generation d + 1;
                sl' = sl\<lparr>acquire_retry_signature := None, release_requested := False,
                         allocation_generation := g\<rparr>
            in (d\<lparr>slots := AList.update c sl' (slots d), generation := g\<rparr>,
                Some \<lparr>a_uid = d_uid d, a_caller = c, a_reg = registration_id sl, a_serial = sl_serial sl,
                      a_priority = priority sl, a_generation = g\<rparr>))"

text \<open>\<open>_defer_acquire_retry(dongle, slot)\<close>.\<close>

definition defer_acquire_retry :: "nat \<Rightarrow> nat \<Rightarrow> time \<Rightarrow> sdr \<Rightarrow> sdr" where
  "defer_acquire_retry uid reg now s =
     (case dongle_by uid s of
        None \<Rightarrow> s
      | Some d \<Rightarrow>
          map_slot reg
            (\<lambda>sl. sl\<lparr>acquire_retry_at := now, acquire_retry_signature := Some (retry_signature d sl)\<rparr>) s)"

definition clear_allocation :: "acquire_job \<Rightarrow> sdr \<Rightarrow> sdr" where
  "clear_allocation a s =
     map_slot (a_reg a)
       (\<lambda>sl. if allocation_generation sl = a_generation a then sl\<lparr>allocation_generation := 0\<rparr> else sl) s"

text \<open>After the claim: the effects, and the lease and device index when the plugin is to be started.\<close>

definition acquire_claimed ::
  "acquire_job \<Rightarrow> claim \<Rightarrow> time \<Rightarrow> sdr \<Rightarrow> sdr \<times> effect list \<times> (nat \<times> int) option" where
  "acquire_claimed a r now s =
     (let still =
        (case (map_of (registrations s) (a_serial a, a_caller a), own_slot (a_uid a) (a_caller a) (a_reg a) s) of
           (Some key, Some sl) \<Rightarrow> is_dongle_at key (a_uid a) s \<and> allocation_generation sl = a_generation a
         | _ \<Rightarrow> False)
      in if \<not> still then (clear_allocation a s, drop_lease r, None)
         else
           let mismatch =
             (case (resolved_id r, own_slot (a_uid a) (a_caller a) (a_reg a) s) of
                (Some canonical, Some sl) \<Rightarrow> if canonical \<noteq> sl_canonical sl then Some canonical else None
              | _ \<Rightarrow> None)
           in case mismatch of
                Some canonical \<Rightarrow>
                  (case reconcile_idle_slot (a_uid a) (a_caller a) (a_reg a) canonical s of
                     (s1, True) \<Rightarrow>
                       (clear_allocation a (map_slot (a_reg a) (\<lambda>sl. sl\<lparr>acquire_retry_signature := None\<rparr>) s1),
                        drop_lease r, None)
                   | (s1, False) \<Rightarrow>
                       (clear_allocation a (defer_acquire_retry (a_uid a) (a_reg a) now s1), drop_lease r, None))
              | None \<Rightarrow>
                  (case r of
                     Leased l idx _ \<Rightarrow> (s, [], Some (l, idx))
                   | _ \<Rightarrow>
                       (defer_acquire_retry (a_uid a) (a_reg a) now
                          (map_slot (a_reg a) (\<lambda>sl. sl\<lparr>allocation_generation := 0\<rparr>) s), [], None)))"

definition index_of :: "'a \<Rightarrow> 'a list \<Rightarrow> nat" where
  "index_of x xs = length (takeWhile (\<lambda>y. y \<noteq> x) xs)"

definition commit :: "acquire_job \<Rightarrow> nat \<Rightarrow> int \<Rightarrow> time \<Rightarrow> dongle \<Rightarrow> dongle" where
  "commit a l idx now d =
     (let d1 = upd_slot (a_caller a)
                 (\<lambda>sl. sl\<lparr>is_active := True, device_lease := Some l, last_acquired := now\<rparr>) d;
          d2 = d1\<lparr>device_index := Some idx, current_holder := Some (a_caller a)\<rparr>;
          d3 = (if a_priority a = priority_background then
                  d2\<lparr>bg_last_rotation := now,
                     bg_index := (if a_caller a \<in> set (bg_order d) then index_of (a_caller a) (bg_order d)
                                  else bg_index d)\<rparr>
                else d2)
      in if relock_after d = Some (a_caller a)
         then d3\<lparr>locked_by := Some (a_caller a), relock_after := None\<rparr> else d3)"

text \<open>\<open>_discard_successful_acquisition\<close>.\<close>

definition discard :: "acquire_job \<Rightarrow> nat \<Rightarrow> sdr \<Rightarrow> sdr \<times> effect list" where
  "discard a l s =
     (map_slot (a_reg a) (\<lambda>sl. sl\<lparr>allocation_generation := 0\<rparr>) s,
      [Yield_Cb (a_reg a) '''' '''' None, Release_Lease l])"

text \<open>After \<open>acquire_cb\<close>, which returned or raised.\<close>

definition acquire_called ::
  "acquire_job \<Rightarrow> nat \<Rightarrow> int \<Rightarrow> bool \<Rightarrow> time \<Rightarrow> sdr \<Rightarrow> sdr \<times> effect list" where
  "acquire_called a l idx ok now s =
     (if \<not> ok then
        (defer_acquire_retry (a_uid a) (a_reg a) now (clear_allocation a s), [Release_Lease l])
      else if \<not> running s then discard a l s
      else
        case Option.bind (dongle_by (a_uid a) s) (\<lambda>d. map_option (\<lambda>sl. (d, sl)) (map_of (slots d) (a_caller a))) of
          None \<Rightarrow>
            discard a l
              (map_dongle (a_uid a)
                 (\<lambda>d. if relock_after d = Some (a_caller a) then d\<lparr>relock_after := None\<rparr> else d) s)
        | Some (d, sl) \<Rightarrow>
            if registration_id sl \<noteq> a_reg a \<or> generation d \<noteq> a_generation a then discard a l s
            else if release_requested sl then
              discard a l (map_slot (a_reg a) (\<lambda>sl. sl\<lparr>release_requested := False\<rparr>) s)
            else (map_dongle (a_uid a) (commit a l idx now) s,
                  [Event_Granted (a_serial a) (a_caller a) (a_priority a)]))"

subsection \<open>Release and resume\<close>

definition release_dongle :: "caller \<Rightarrow> bool \<Rightarrow> dongle \<Rightarrow> dongle" where
  "release_dongle c suspend d =
     (let d1 = (case map_of (slots d) c of
                  None \<Rightarrow> d
                | Some sl \<Rightarrow>
                    bump (upd_slot c (\<lambda>sl. sl\<lparr>is_active := False, suspended := suspended sl \<or> suspend,
                       release_requested := True, device_lease := None, allocation_generation := 0\<rparr>) d));
          d2 = (if current_holder d1 = Some c then advance_bg_index (d1\<lparr>current_holder := None\<rparr>) else d1);
          d3 = (if locked_by d2 = Some c then d2\<lparr>locked_by := None\<rparr> else d2)
      in if relock_after d3 = Some c then d3\<lparr>relock_after := None\<rparr> else d3)"

text \<open>\<open>_release_slot\<close>: the registration token, and the lease it releases.\<close>

definition release_slot ::
  "string \<Rightarrow> caller \<Rightarrow> bool \<Rightarrow> nat option \<Rightarrow> sdr \<Rightarrow> sdr \<times> nat option \<times> effect list" where
  "release_slot serial c suspend gen s =
     (case registration_dongle serial c s of
        None \<Rightarrow> (s, None, [])
      | Some d \<Rightarrow>
          (case (gen, map_of (slots d) c) of
             (Some g, None) \<Rightarrow> (s, None, [])
           | (None, None) \<Rightarrow> (map_dongle (d_uid d) (release_dongle c suspend) s, None, [])
           | (go, Some sl) \<Rightarrow>
               if go \<noteq> None \<and> go \<noteq> Some (allocation_generation sl) then (s, None, [])
               else (map_dongle (d_uid d) (release_dongle c suspend) s, Some (registration_id sl),
                     (case device_lease sl of None \<Rightarrow> [] | Some l \<Rightarrow> [Release_Lease l]))))"

definition dongle_released :: "string \<Rightarrow> caller \<Rightarrow> nat option \<Rightarrow> sdr \<Rightarrow> sdr \<times> effect list" where
  "dongle_released serial c gen s = (case release_slot serial c False gen s of (s', _, es) \<Rightarrow> (s', es))"

definition suspend :: "string \<Rightarrow> caller \<Rightarrow> nat option \<Rightarrow> sdr \<Rightarrow> sdr \<times> nat option \<times> effect list" where
  "suspend serial c gen s = release_slot serial c True gen s"

definition resume :: "string \<Rightarrow> caller \<Rightarrow> nat \<Rightarrow> sdr \<Rightarrow> sdr \<times> bool" where
  "resume serial c reg s =
     (case registration_dongle serial c s of
        None \<Rightarrow> (s, False)
      | Some d \<Rightarrow>
          if \<not> running s then (s, False)
          else
            (case map_of (slots d) c of
               None \<Rightarrow> (s, False)
             | Some sl \<Rightarrow>
                 if registration_id sl \<noteq> reg \<or> \<not> suspended sl then (s, False)
                 else (map_dongle (d_uid d)
                         (bump \<circ> upd_slot c (\<lambda>sl. sl\<lparr>suspended := False, release_requested := False\<rparr>)) s,
                       True)))"

subsection \<open>Registration\<close>

record registration =
  r_serial :: string
  r_caller :: caller
  r_priority :: int
  r_label :: string
  r_windows :: "time_window list"
  r_continuous :: bool
  r_selector :: selector
  r_canonical :: string
  r_key :: string

definition drop_slot :: "caller \<Rightarrow> dongle \<Rightarrow> dongle" where
  "drop_slot c d =
     d\<lparr>slots := AList.delete c (slots d), bg_order := remove1 c (bg_order d),
       locked_by := (if locked_by d = Some c then None else locked_by d)\<rparr>"

definition new_slot :: "registration \<Rightarrow> nat \<Rightarrow> signal_slot" where
  "new_slot r reg =
     \<lparr>sl_caller = r_caller r, sl_serial = r_serial r, priority = r_priority r, device_selector = r_selector r,
      sl_canonical = r_canonical r, sl_label = r_label r, continuous = r_continuous r, windows = r_windows r,
      is_active = False, last_acquired = 0, last_yielded = 0, device_lease = None, release_requested = False,
      suspended = False, registration_id = reg, allocation_generation = 0, preflight_at = 0,
      preflight_signature = None, preflight_deferred = False, acquire_retry_at = 0,
      acquire_retry_signature = None\<rparr>"

text \<open>The last section of \<open>register\<close>; \<open>self._dongles[storage_key]\<close> raises when the state is gone.\<close>

definition register_enter :: "registration \<Rightarrow> sdr \<Rightarrow> sdr" where
  "register_enter r s =
     (case map_of (dongles s) (r_key r) of
        None \<Rightarrow> s
      | Some d \<Rightarrow>
          map_dongle (d_uid d) (bump \<circ> join_dongle (r_caller r) (new_slot r (next_registration_id s + 1)))
            (s\<lparr>registrations := AList.update (r_serial r, r_caller r) (r_key r) (registrations s),
               next_registration_id := next_registration_id s + 1\<rparr>))"

definition register_leave :: "registration \<Rightarrow> nat \<Rightarrow> sdr \<Rightarrow> sdr" where
  "register_leave r previous s = register_enter r (map_dongle previous (bump \<circ> drop_slot (r_caller r)) s)"

text \<open>The first section: done, refused, or waiting for a yield on the previous dongle.\<close>

datatype register_result = Registered | Register_Error | Register_Yields yield_job nat registration

definition register ::
  "registration \<Rightarrow> string option \<Rightarrow> time \<Rightarrow> sdr \<Rightarrow> sdr \<times> register_result" where
  "register r answer now s =
     (if r_priority r = priority_critical \<and> \<not> r_continuous r then (s, Register_Error)
      else
        let canonical = registration_canonical_id (r_serial r) (r_selector r) answer s
        in case ensure_dongle (r_serial r) canonical s of
             (s1, key) \<Rightarrow>
               let r' = r\<lparr>r_canonical := canonical, r_key := key\<rparr>;
                   prev = (case map_of (registrations s1) (r_serial r, r_caller r) of
                             None \<Rightarrow> None
                           | Some pk \<Rightarrow> if pk = key then None else map_of (dongles s1) pk)
               in case prev of
                    None \<Rightarrow> (register_enter r' s1, Registered)
                  | Some p \<Rightarrow>
                      if (case map_of (slots p) (r_caller r) of None \<Rightarrow> False | Some sl \<Rightarrow> is_active sl) then
                        (case yield_begin (r_caller r) '''' '''' None now p of
                           (p', Some y) \<Rightarrow> (map_dongle (d_uid p) (\<lambda>_. p') s1, Register_Yields y (d_uid p) r')
                         | (p', None) \<Rightarrow> (register_leave r' (d_uid p) (map_dongle (d_uid p) (\<lambda>_. p') s1), Registered))
                      else (register_leave r' (d_uid p) s1, Registered))"

definition unregister_finish :: "string \<Rightarrow> caller \<Rightarrow> nat \<Rightarrow> bool \<Rightarrow> sdr \<Rightarrow> sdr" where
  "unregister_finish serial c uid had_slot s =
     (let s1 = map_dongle uid (\<lambda>d. drop_slot c (if had_slot then bump d else d)) s
      in s1\<lparr>registrations := AList.delete (serial, c) (registrations s1)\<rparr>)"

definition unregister :: "string \<Rightarrow> caller \<Rightarrow> time \<Rightarrow> sdr \<Rightarrow> sdr \<times> (yield_job \<times> nat) option" where
  "unregister serial c now s =
     (case registration_dongle serial c s of
        None \<Rightarrow> (s, None)
      | Some d \<Rightarrow>
          (case map_of (slots d) c of
             None \<Rightarrow> (unregister_finish serial c (d_uid d) False s, None)
           | Some sl \<Rightarrow>
               if is_active sl then
                 (case yield_begin c '''' '''' None now d of
                    (d', Some y) \<Rightarrow> (map_dongle (d_uid d) (\<lambda>_. d') s, Some (y, d_uid d))
                  | (d', None) \<Rightarrow>
                      (unregister_finish serial c (d_uid d) True (map_dongle (d_uid d) (\<lambda>_. d') s), None))
               else (unregister_finish serial c (d_uid d) True s, None)))"

end
