(* ===== verification/Sdr_Machine.thy ===== *)
theory Sdr_Machine
  imports Sdr_Handoff
begin

text \<open>
  \<open>sdr_scheduler.py\<close>, last part: the scheduler thread, and its interleaving with the threads that
  call the scheduler's methods.  A label is one locked section of one thread with the clock readings
  and answers it gets; sections of different threads may follow each other in any order.  There is
  one scheduler thread: \<open>stop\<close> joins it before another \<open>start\<close>.
\<close>

subsection \<open>The scheduler thread\<close>

record probe =
  p_uid :: nat
  p_caller :: caller
  p_reg :: nat
  p_key :: string
  p_generation :: nat
  p_holder :: "caller option"
  p_locked :: "caller option"
  p_can :: bool
  p_wall :: time

text \<open>\<open>_preflight_winner_identity_locked\<close> until it drops the lock; \<open>None\<close> stops the pass.\<close>

definition preflight_begin :: "nat \<Rightarrow> caller \<Rightarrow> bool \<Rightarrow> time \<Rightarrow> time \<Rightarrow> sdr \<Rightarrow> probe option" where
  "preflight_begin uid c can wall now s =
     (case dongle_by uid s of None \<Rightarrow> None | Some d \<Rightarrow>
      (case map_of (slots d) c of None \<Rightarrow> None | Some sl \<Rightarrow>
        if suspended sl \<or> is_active sl \<or> device_lease sl \<noteq> None \<or> current_holder d = Some c then None
        else
          case map_of (registrations s) (sl_serial sl, c) of None \<Rightarrow> None | Some key \<Rightarrow>
            if \<not> is_dongle_at key uid s then None
            else if preflight_signature sl =
                      Some (generation d, current_holder d, locked_by d, registration_id sl, can) \<and>
                    now - preflight_at sl < probe_retry_interval \<and> (\<not> can \<or> preflight_deferred sl) then None
            else Some \<lparr>p_uid = uid, p_caller = c, p_reg = registration_id sl, p_key = key,
                   p_generation = generation d, p_holder = current_holder d, p_locked = locked_by d,
                   p_can = can, p_wall = wall\<rparr>))"

definition probe_current :: "probe \<Rightarrow> time \<Rightarrow> time \<Rightarrow> sdr \<Rightarrow> bool" where
  "probe_current p wall mon s =
     (case (dongle_by (p_uid p) s, own_slot (p_uid p) (p_caller p) (p_reg p) s) of
        (Some d, Some sl) \<Rightarrow>
          generation d = p_generation p \<and>
          map_of (registrations s) (sl_serial sl, p_caller p) = Some (p_key p) \<and>
          is_dongle_at (p_key p) (p_uid p) s \<and> current_holder d = p_holder p \<and> locked_by d = p_locked p \<and>
          peek_winner d wall mon = Some (p_caller p)
      | _ \<Rightarrow> False)"

definition defer_preflight :: "probe \<Rightarrow> bool \<Rightarrow> sdr \<Rightarrow> sdr" where
  "defer_preflight p b s = map_slot (p_reg p) (\<lambda>sl. sl\<lparr>preflight_deferred := b\<rparr>) s"

text \<open>After the probe claimed the device: the flag stops the pass.  \<open>freed\<close> says whether the lease's release
  returned.\<close>

definition preflight_finish ::
  "probe \<Rightarrow> claim \<Rightarrow> time \<Rightarrow> time \<Rightarrow> time \<Rightarrow> bool \<Rightarrow> sdr \<Rightarrow> sdr \<times> bool \<times> effect list" where
  "preflight_finish p r wall mon now freed s =
     (if \<not> probe_current p wall mon s then (s, True, drop_lease r)
      else
        let s1 = map_slot (p_reg p)
              (\<lambda>sl. sl\<lparr>preflight_at := now, preflight_deferred := False, preflight_signature :=
                 Some (p_generation p, p_holder p, p_locked p, p_reg p, p_can p)\<rparr>) s
        in case resolved_id r of
             None \<Rightarrow> (defer_preflight p True s1, True, drop_lease r)
           | Some canonical \<Rightarrow>
               if map_option sl_canonical (own_slot (p_uid p) (p_caller p) (p_reg p) s1) \<noteq> Some canonical then
                 (case reconcile_idle_slot (p_uid p) (p_caller p) (p_reg p) canonical s1 of
                    (s2, moved) \<Rightarrow> (defer_preflight p (\<not> moved) s2, True, drop_lease r))
               else if drop_lease r \<noteq> [] \<and> \<not> freed then (defer_preflight p True s1, True, drop_lease r)
               else (s1, False, drop_lease r))"

datatype next_step = Then_Acquire nat caller | Then_Background nat

datatype action = Idle | Probing probe | Yielding yield_job next_step | Claiming acquire_job

definition put_dongle :: "nat \<Rightarrow> dongle \<Rightarrow> sdr \<Rightarrow> sdr" where
  "put_dongle uid d s = map_dongle uid (\<lambda>_. d) s"

definition start_acquire :: "nat \<Rightarrow> caller \<Rightarrow> time \<Rightarrow> sdr \<Rightarrow> sdr \<times> action" where
  "start_acquire uid c now s =
     (case dongle_by uid s of None \<Rightarrow> (s, Idle) | Some d \<Rightarrow>
      (case acquire_begin c now d of
         (d', None) \<Rightarrow> (put_dongle uid d' s, Idle)
       | (d', Some a) \<Rightarrow> (put_dongle uid d' s, Claiming a)))"

text \<open>The end of \<open>_evaluate\<close>: hand the dongle over from its holder.\<close>

definition hand_over :: "nat \<Rightarrow> caller \<Rightarrow> time \<Rightarrow> time \<Rightarrow> sdr \<Rightarrow> sdr \<times> action" where
  "hand_over uid winner wall now s =
     (case dongle_by uid s of None \<Rightarrow> (s, Idle) | Some d \<Rightarrow>
      (case current_holder d of None \<Rightarrow> start_acquire uid winner now s | Some current \<Rightarrow>
        let label = (case map_of (slots d) winner of Some sl \<Rightarrow> sl_label sl | None \<Rightarrow> winner)
        in case yield_begin current winner label (window_end d winner wall) now d of
             (d', Some y) \<Rightarrow> (put_dongle uid d' s, Yielding y (Then_Acquire uid winner))
           | (d', None) \<Rightarrow> start_acquire uid winner now (put_dongle uid d' s)))"

text \<open>\<open>_evaluate\<close> until it drops the lock or ends.\<close>

definition evaluate :: "string \<Rightarrow> time \<Rightarrow> time \<Rightarrow> time \<Rightarrow> sdr \<Rightarrow> sdr \<times> action" where
  "evaluate key wall mon now s =
     (case map_of (dongles s) key of
        None \<Rightarrow> (s, Idle)
      | Some d0 \<Rightarrow>
          (case pick_winner (expire_windows wall d0) wall mon of
             (d, winner) \<Rightarrow>
               let s1 = put_dongle (d_uid d0) d s in
               if winner = current_holder d then (s1, Idle)
               else
                 case (winner, current_holder d) of
                   (None, None) \<Rightarrow> (s1, Idle)
                 | (None, Some h) \<Rightarrow>
                     (case map_of (slots d) h of
                        None \<Rightarrow> (s1, Idle)
                      | Some sl \<Rightarrow>
                          if priority sl \<noteq> priority_scheduled then (s1, Idle)
                          else
                            (case yield_begin h '''' '''' None now d of
                               (d', Some y) \<Rightarrow> (put_dongle (d_uid d0) d' s1, Yielding y (Then_Background (d_uid d0)))
                             | (d', None) \<Rightarrow> (put_dongle (d_uid d0) d' s1, Idle)))
                 | (Some w, None) \<Rightarrow> start_acquire (d_uid d0) w now s1
                 | (Some w, Some h) \<Rightarrow>
                     if can_preempt (weather_override_lock s) d h w then
                       (case preflight_begin (d_uid d0) w True wall now s1 of
                          None \<Rightarrow> (s1, Idle) | Some p \<Rightarrow> (s1, Probing p))
                     else
                       (case map_of (slots d) w of
                          None \<Rightarrow> (s1, Idle)
                        | Some sl \<Rightarrow>
                            if device_selector sl = Serial then (s1, Idle)
                            else (case preflight_begin (d_uid d0) w False wall now s1 of
                                    None \<Rightarrow> (s1, Idle) | Some p \<Rightarrow> (s1, Probing p)))))"

definition probed :: "probe \<Rightarrow> claim \<Rightarrow> time \<Rightarrow> time \<Rightarrow> time \<Rightarrow> bool \<Rightarrow> sdr \<Rightarrow> (sdr \<times> action) \<times> effect list" where
  "probed p r wall mon now freed s =
     (case preflight_finish p r wall mon now freed s of
        (s1, stop, es) \<Rightarrow>
          (if stop \<or> \<not> p_can p then (s1, Idle) else hand_over (p_uid p) (p_caller p) (p_wall p) now s1, es))"

text \<open>\<open>_evaluate\<close> after a yield.\<close>

definition after_yield :: "next_step \<Rightarrow> time \<Rightarrow> time \<Rightarrow> sdr \<Rightarrow> sdr \<times> action" where
  "after_yield nx mon now s =
     (case nx of
        Then_Acquire uid c \<Rightarrow> start_acquire uid c now s
      | Then_Background uid \<Rightarrow>
          (case dongle_by uid s of
             None \<Rightarrow> (s, Idle)
           | Some d \<Rightarrow>
               (case pick_background d mon of
                  (d', Some c) \<Rightarrow>
                    if c = '''' then (put_dongle uid d' s, Idle)
                    else start_acquire uid c now (put_dongle uid d' s)
                | (d', None) \<Rightarrow> (put_dongle uid d' s, Idle))))"

subsection \<open>Threads and labels\<close>

datatype pc = Stopped | Scan "string list" | Busy_With action "string list" | Calling acquire_job nat int "string list"

datatype pending =
    Registering yield_job nat registration
  | Unregistering yield_job nat string caller
  | Stopping yield_job "string list" nat

record sys =
  sched :: sdr
  pc :: pc
  threads :: "pending list"
  trace :: "effect list"

text \<open>The loop of \<open>stop\<close> over the dongles, until it drops the lock for a yield.\<close>

primrec stop_from :: "string list \<Rightarrow> time \<Rightarrow> sdr \<Rightarrow> sdr \<times> (yield_job \<times> string list) option" where
  "stop_from [] now s = (s, None)"
| "stop_from (k # ks) now s =
     (case map_of (dongles s) k of
        None \<Rightarrow> stop_from ks now s
      | Some d \<Rightarrow>
          (case current_holder d of
             None \<Rightarrow> stop_from ks now s
           | Some h \<Rightarrow>
               if h = '''' then stop_from ks now s
               else
                 (case yield_begin h '''' '''' None now d of
                    (d', Some y) \<Rightarrow> (put_dongle (d_uid d) d' s, Some (y, ks))
                  | (d', None) \<Rightarrow> stop_from ks now (put_dongle (d_uid d) d' s))))"

datatype api =
    Register registration "string option" time
  | Unregister string caller time
  | Add_Window string caller time time string
  | Remove_Windows string caller
  | Lock string caller
  | Unlock string caller
  | Released string caller "nat option"
  | Suspend string caller "nat option"
  | Resume string caller nat
  | Start
  | Stop time

datatype label =
    Turn time time time
  | Answer claim time time time bool
  | Called bool time
  | Yielded time time
  | Api api
  | Continue nat time

definition await :: "(yield_job \<times> string list) option \<Rightarrow> nat \<Rightarrow> pending list" where
  "await r n = (case r of None \<Rightarrow> [] | Some (y, ks) \<Rightarrow> [Stopping y ks n])"

text \<open>The first section of a method call: the state, the thread it leaves waiting, and the effects.\<close>

definition api_begin :: "api \<Rightarrow> sdr \<Rightarrow> sdr \<times> pending list \<times> effect list" where
  "api_begin x s =
     (case x of
        Register r answer now \<Rightarrow>
          (case register r answer now s of
             (s', Register_Yields y uid r') \<Rightarrow> (s', [Registering y uid r'], []) | (s', _) \<Rightarrow> (s', [], []))
      | Unregister serial c now \<Rightarrow>
          (case unregister serial c now s of
             (s', Some (y, uid)) \<Rightarrow> (s', [Unregistering y uid serial c], []) | (s', None) \<Rightarrow> (s', [], []))
      | Add_Window serial c from_ts to_ts label \<Rightarrow>
          (case add_window serial c from_ts to_ts label s of
             (s', n) \<Rightarrow> (s', [], map (Event_Schedule serial c) (list_of_option n)))
      | Remove_Windows serial c \<Rightarrow> (remove_windows serial c s, [], [])
      | Lock serial c \<Rightarrow> (fst (lock serial c s), [], [])
      | Unlock serial c \<Rightarrow> (unlock serial c s, [], [])
      | Released serial c g \<Rightarrow> (case dongle_released serial c g s of (s', es) \<Rightarrow> (s', [], es))
      | Suspend serial c g \<Rightarrow> (case suspend serial c g s of (s', _, es) \<Rightarrow> (s', [], es))
      | Resume serial c reg \<Rightarrow> (fst (resume serial c reg s), [], [])
      | Start \<Rightarrow> (s\<lparr>running := True\<rparr>, [], [])
      | Stop now \<Rightarrow>
          (case stop_from (map fst (dongles s)) now (s\<lparr>running := False\<rparr>) of
             (s', r) \<Rightarrow> (s', await r (length (dongles s)), [])))"

text \<open>The section after the yield; a dictionary that changed its size raises in the loop of \<open>stop\<close>.\<close>

definition api_continue :: "pending \<Rightarrow> time \<Rightarrow> sdr \<Rightarrow> sdr \<times> pending list \<times> effect list" where
  "api_continue p now s =
     (case p of
        Registering y uid r \<Rightarrow> (register_leave r uid s, [], yield_effects y)
      | Unregistering y uid serial c \<Rightarrow> (unregister_finish serial c uid True s, [], yield_effects y)
      | Stopping y ks n \<Rightarrow>
          if length (dongles s) \<noteq> n then (s, [], yield_effects y)
          else (case stop_from ks now s of (s', r) \<Rightarrow> (s', await r n, yield_effects y)))"

definition enter :: "sdr \<times> action \<Rightarrow> string list \<Rightarrow> effect list \<Rightarrow> sys \<Rightarrow> sys" where
  "enter r rest es y =
     y\<lparr>sched := fst r, pc := (if snd r = Idle then Scan rest else Busy_With (snd r) rest), trace := trace y @ es\<rparr>"

definition thread_step :: "label \<Rightarrow> sys \<Rightarrow> sys" where
  "thread_step l y =
     (case (pc y, l) of
        (Scan [], Turn _ _ _) \<Rightarrow>
          y\<lparr>pc := (if running (sched y) then Scan (map fst (dongles (sched y))) else Stopped)\<rparr>
      | (Scan (k # ks), Turn wall mon now) \<Rightarrow> enter (evaluate k wall mon now (sched y)) ks [] y
      | (Busy_With (Probing p) ks, Answer r wall mon now freed) \<Rightarrow>
          (case probed p r wall mon now freed (sched y) of (r', es) \<Rightarrow> enter r' ks es y)
      | (Busy_With (Yielding j nx) ks, Yielded mon now) \<Rightarrow>
          enter (after_yield nx mon now (sched y)) ks (yield_effects j) y
      | (Busy_With (Claiming a) ks, Answer r wall mon now freed) \<Rightarrow>
          (case acquire_claimed a r now (sched y) of
             (s', es, None) \<Rightarrow> y\<lparr>sched := s', pc := Scan ks, trace := trace y @ es\<rparr>
           | (s', es, Some (l, idx)) \<Rightarrow> y\<lparr>sched := s', pc := Calling a l idx ks, trace := trace y @ es\<rparr>)
      | (Calling a l idx ks, Called ok now) \<Rightarrow>
          (case acquire_called a l idx ok now (sched y) of
             (s', es) \<Rightarrow> y\<lparr>sched := s', pc := Scan ks,
                          trace := trace y @ Acquire_Cb (a_reg a) (a_serial a) idx # es\<rparr>)
      | _ \<Rightarrow> y)"

definition sys_step :: "label \<Rightarrow> sys \<Rightarrow> sys" where
  "sys_step l y =
     (case l of
        Api x \<Rightarrow>
          if x = Start \<and> pc y \<noteq> Stopped then y
          else
            (case api_begin x (sched y) of
               (s', ps, es) \<Rightarrow>
                 y\<lparr>sched := s', threads := threads y @ ps, trace := trace y @ es,
                   pc := (if x = Start then Scan [] else pc y)\<rparr>)
      | Continue i now \<Rightarrow>
          if length (threads y) \<le> i then y
          else
            (case api_continue (threads y ! i) now (sched y) of
               (s', ps, es) \<Rightarrow> y\<lparr>sched := s', threads := drop_nth i (threads y) @ ps, trace := trace y @ es\<rparr>)
      | _ \<Rightarrow> thread_step l y)"

primrec run :: "label list \<Rightarrow> sys \<Rightarrow> sys" where
  "run [] y = y"
| "run (l # ls) y = run ls (sys_step l y)"

definition boot_sys :: "(string \<times> string \<times> real) list \<Rightarrow> bool \<Rightarrow> sys" where
  "boot_sys managed override = \<lparr>sched = new_sdr managed override, pc = Stopped, threads = [], trace = []\<rparr>"

subsection \<open>Status\<close>

definition active_leases :: "sdr \<Rightarrow> nat" where
  "active_leases s =
     length (filter (\<lambda>(_, sl). device_lease sl \<noteq> None) (concat (map (\<lambda>(_, d). slots d) (dongles s))))"

definition active_slots :: "sdr \<Rightarrow> nat" where
  "active_slots s =
     length (filter (\<lambda>(_, sl). is_active sl) (concat (map (\<lambda>(_, d). slots d) (dongles s))))"

definition suspended_slots :: "sdr \<Rightarrow> nat" where
  "suspended_slots s =
     length (filter (\<lambda>(_, sl). suspended sl) (concat (map (\<lambda>(_, d). slots d) (dongles s))))"

definition get_metrics :: "sdr \<Rightarrow> nat \<times> nat \<times> nat \<times> nat" where
  "get_metrics s = (length (dongles s), active_leases s, active_slots s, suspended_slots s)"

definition get_allocation_generation :: "string \<Rightarrow> caller \<Rightarrow> sdr \<Rightarrow> nat" where
  "get_allocation_generation serial c s =
     (case Option.bind (registration_dongle serial c s) (\<lambda>d. map_of (slots d) c) of
        None \<Rightarrow> 0 | Some sl \<Rightarrow> allocation_generation sl)"

definition routes :: "string \<Rightarrow> sdr \<Rightarrow> string list" where
  "routes serial s = remdups (map snd (filter (\<lambda>((configured, _), _). configured = serial) (registrations s)))"

definition get_generation :: "string \<Rightarrow> sdr \<Rightarrow> nat" where
  "get_generation serial s =
     (case map_of (dongles s) serial of
        Some d \<Rightarrow> generation d
      | None \<Rightarrow>
          (case routes serial s of
             [key] \<Rightarrow> (case map_of (dongles s) key of Some d \<Rightarrow> generation d | None \<Rightarrow> 0)
           | _ \<Rightarrow> 0))"

text \<open>The windows come from a set of storage keys, so windows of different dongles that start
  together have no fixed order; here the keys keep the order of the registrations.\<close>

definition get_schedule :: "string \<Rightarrow> sdr \<Rightarrow> (caller \<times> string \<times> time \<times> time \<times> int) list" where
  "get_schedule serial s =
     (let keys = (if routes serial s \<noteq> [] then routes serial s
                  else if map_of (dongles s) serial \<noteq> None then [serial] else []);
          found = concat (map (\<lambda>k. case map_of (dongles s) k of None \<Rightarrow> [] | Some d \<Rightarrow> slots d) keys);
          rows = concat (map (\<lambda>(c, sl).
            if sl_serial sl \<noteq> serial then []
            else map (\<lambda>w. (c, if w_label w = '''' then sl_label sl else w_label w, start_ts w, end_ts w, priority sl))
                   (windows sl)) found)
      in sort_key (\<lambda>(_, _, from_ts, _, _). from_ts) rows)"

end
