(* ===== verification/Sdr_Invariant.thy ===== *)
theory Sdr_Invariant
  imports Sdr_Machine
begin

text \<open>
  What every operation of the SDR scheduler keeps: a slot that is active or has a lease belongs to the
  holder of its dongle, no operation but the final grant makes a holder, generations only grow and
  change whenever a slot does, and each device identity has one state.
\<close>

named_theorems evolve "steps of the scheduler that keep the invariant"

declare map_of_eq_Some_iff [simp del]

subsection \<open>One dongle\<close>

definition entry_ok :: "caller option \<Rightarrow> caller \<Rightarrow> signal_slot option \<Rightarrow> bool" where
  "entry_ok h c r \<longleftrightarrow>
     (case r of
        None \<Rightarrow> True
      | Some sl \<Rightarrow> (\<not> is_active sl \<or> h = Some c) \<and> (device_lease sl = None \<or> is_active sl))"

lemma entry_ok_simps [simp]:
  "entry_ok h c None"
  "entry_ok h c (Some sl) \<longleftrightarrow> (\<not> is_active sl \<or> h = Some c) \<and> (device_lease sl = None \<or> is_active sl)"
  by (simp_all add: entry_ok_def)

definition dongle_ok :: "dongle \<Rightarrow> bool" where
  "dongle_ok d \<longleftrightarrow> dict_ok (slots d) \<and> (\<forall>c. entry_ok (current_holder d) c (map_of (slots d) c))"

lemma dongle_ok_keep:
  "dongle_ok d \<Longrightarrow> map_of (slots d) c = r \<Longrightarrow> entry_ok (current_holder d) c r"
  by (auto simp: dongle_ok_def)

lemma entry_ok_free: "entry_ok None c r \<Longrightarrow> entry_ok h c r"
  by (cases r) auto

definition ranks :: "dongle \<Rightarrow> caller \<Rightarrow> int option" where
  "ranks d c = map_option priority (map_of (slots d) c)"

definition tame :: "dongle \<Rightarrow> dongle \<Rightarrow> bool" where
  "tame d d' \<longleftrightarrow> (dongle_ok d \<longrightarrow> dongle_ok d') \<and> d_uid d' = d_uid d \<and> d_canonical d' = d_canonical d \<and>
     generation d \<le> generation d' \<and> (generation d' = generation d \<longrightarrow> ranks d' = ranks d) \<and>
     (current_holder d' = None \<or> current_holder d' = current_holder d)"

definition mild :: "dongle \<Rightarrow> dongle \<Rightarrow> bool" where
  "mild d d' \<longleftrightarrow> tame d d' \<and> current_holder d' = current_holder d"

lemma tame_refl [simp]: "tame d d" by (simp add: tame_def)

lemma mild_refl [simp]: "mild d d" by (simp add: mild_def)

lemma tame_trans: "tame d d1 \<Longrightarrow> tame d1 d2 \<Longrightarrow> tame d d2"
  unfolding tame_def by (metis le_antisym order_trans)

lemma mild_trans: "mild d d1 \<Longrightarrow> mild d1 d2 \<Longrightarrow> mild d d2"
  unfolding mild_def by (metis tame_trans)

lemma mild_tame: "mild d d' \<Longrightarrow> tame d d'" by (simp add: mild_def)

text \<open>An operation that keeps the slots' activity, leases and priorities, and the holder.\<close>

lemma mildI:
  assumes "dict_ok (slots d) \<Longrightarrow> dict_ok (slots d')" "d_uid d' = d_uid d" "d_canonical d' = d_canonical d"
    "generation d \<le> generation d'" "current_holder d' = current_holder d"
    and "\<And>c. rel_option (\<lambda>sl sl'. is_active sl' = is_active sl \<and> device_lease sl' = device_lease sl \<and>
        priority sl' = priority sl) (map_of (slots d) c) (map_of (slots d') c)"
  shows "mild d d'"
proof -
  have "ranks d' c = ranks d c" for c
    using assms(6) [of c] by (auto simp: ranks_def elim!: option.rel_cases)
  moreover have "entry_ok (current_holder d) c (map_of (slots d') c)"
    if "entry_ok (current_holder d) c (map_of (slots d) c)" for c
    using assms(6) [of c] that by (auto elim!: option.rel_cases)
  then have "dongle_ok d'" if "dongle_ok d" using that assms(1,5) by (simp add: dongle_ok_def)
  ultimately show ?thesis using assms(2-5) by (auto simp: mild_def tame_def)
qed

lemma rel_option_same: "(\<And>x. R x x) \<Longrightarrow> rel_option R o1 o1"
  by (cases o1) simp_all

lemma map_of_mapped: "map_of (map (\<lambda>(c, v). (c, g c v)) xs) k = map_option (g k) (map_of xs k)"
  by (induction xs) auto

lemma keys_mapped: "map (fst \<circ> (\<lambda>(c, v). (c, g c v))) xs = map fst xs"
  by (induction xs) auto

lemma mild_bump [intro, simp]: "mild d (bump d)"
  by (rule mildI) (simp_all add: bump_def rel_option_same)

lemma mild_expire: "mild d (expire_windows now d)"
  by (rule mildI) (simp_all add: expire_windows_def keys_mapped map_of_mapped option.rel_map rel_option_same)

lemma mild_upd_slot:
  assumes "\<And>sl. is_active (f sl) = is_active sl \<and> device_lease (f sl) = device_lease sl \<and> priority (f sl) = priority sl"
  shows "mild d (upd_slot c f d)"
  by (rule mildI) (auto simp: upd_slot_def dict_simps assms rel_option_same split: option.splits)

lemma pick_from_fields:
  "slots (fst (pick_from k d)) = slots d" "d_uid (fst (pick_from k d)) = d_uid d"
  "d_canonical (fst (pick_from k d)) = d_canonical d" "generation (fst (pick_from k d)) = generation d"
  "current_holder (fst (pick_from k d)) = current_holder d" "locked_by (fst (pick_from k d)) = locked_by d"
  by (induction k arbitrary: d) (auto simp: Let_def split: option.split)

lemma pick_background_fields:
  "slots (fst (pick_background d now)) = slots d" "d_uid (fst (pick_background d now)) = d_uid d"
  "d_canonical (fst (pick_background d now)) = d_canonical d"
  "generation (fst (pick_background d now)) = generation d"
  "current_holder (fst (pick_background d now)) = current_holder d"
  "locked_by (fst (pick_background d now)) = locked_by d"
  by (simp_all add: pick_background_def Let_def pick_from_fields)

lemma pick_winner_fields:
  "slots (fst (pick_winner d wall mon)) = slots d" "d_uid (fst (pick_winner d wall mon)) = d_uid d"
  "d_canonical (fst (pick_winner d wall mon)) = d_canonical d"
  "generation (fst (pick_winner d wall mon)) = generation d"
  "current_holder (fst (pick_winner d wall mon)) = current_holder d"
  "locked_by (fst (pick_winner d wall mon)) = locked_by d"
  by (simp_all add: pick_winner_def pick_background_fields split: prod.split option.split)

lemma mild_pick_background: "mild d (fst (pick_background d now))"
  by (rule mildI) (simp_all add: pick_background_fields rel_option_same)

lemma mild_pick_winner: "mild d (fst (pick_winner d wall mon))"
  by (rule mildI) (simp_all add: pick_winner_fields rel_option_same)

lemma mild_acquire_begin: "mild d (fst (acquire_begin c now d))"
  by (rule mildI)
    (auto simp: acquire_begin_def Let_def dict_simps rel_option_same split: option.splits)

lemma tame_yield_begin:
  assumes "current_holder d = None \<or> current_holder d = Some c"
  shows "tame d (fst (yield_begin c by label until now d))"
    "current_holder (fst (yield_begin c by label until now d)) = None"
proof -
  show "current_holder (fst (yield_begin c by label until now d)) = None"
    by (simp add: yield_begin_def Let_def split: option.split)
  have e: "entry_ok None k (map_of (slots d) k)"
    if "dongle_ok d" "k \<noteq> c \<or> map_of (slots d) c = None" for k
    using that assms dongle_ok_keep [OF that(1) refl, of k] by (cases "map_of (slots d) k") auto
  show "tame d (fst (yield_begin c by label until now d))"
  proof (cases "map_of (slots d) c")
    case None
    then show ?thesis using e
      by (simp add: tame_def yield_begin_def ranks_def fun_eq_iff dongle_ok_def)
  next
    case (Some sl)
    then show ?thesis using e
      by (simp add: tame_def yield_begin_def Let_def dongle_ok_def dict_simps)
  qed
qed

lemma mild_drop_slot: "mild d (drop_slot c (bump d))" "mild d (bump (drop_slot c d))"
  "map_of (slots d) c = None \<Longrightarrow> mild d (drop_slot c d)"
  by (simp_all add: mild_def tame_def drop_slot_def bump_def dongle_ok_def dict_simps ranks_def fun_eq_iff)

lemma mild_leave: "mild d (bump (leave_dongle c d))"
  by (simp add: mild_def tame_def leave_dongle_def bump_def dongle_ok_def dict_simps)

lemma mild_join:
  assumes "\<not> is_active sl" "device_lease sl = None"
  shows "mild d (bump (join_dongle c sl d))"
  using assms by (simp add: mild_def tame_def join_dongle_def bump_def dongle_ok_def dict_simps)

lemma mild_lock: "mild d (d\<lparr>locked_by := x\<rparr>)" "mild d (d\<lparr>relock_after := x\<rparr>)"
  by (rule mildI; simp add: rel_option_same)+

lemma commit_fields:
  "slots (commit a l idx now d) =
     slots (upd_slot (a_caller a) (\<lambda>sl. sl\<lparr>is_active := True, device_lease := Some l, last_acquired := now\<rparr>) d)"
  "current_holder (commit a l idx now d) = Some (a_caller a)" "d_uid (commit a l idx now d) = d_uid d"
  "d_canonical (commit a l idx now d) = d_canonical d" "generation (commit a l idx now d) = generation d"
  by (simp_all add: commit_def Let_def upd_slot_def split: option.split)

lemma commit_ok:
  assumes "dongle_ok d" "current_holder d = None"
  shows "dongle_ok (commit a l idx now d)"
proof -
  have "entry_ok (Some (a_caller a)) k (map_of (slots d) k)" for k
    using assms by (metis entry_ok_free dongle_ok_def)
  then show ?thesis
    using assms(1)
    by (cases "map_of (slots d) (a_caller a)") (simp_all add: dongle_ok_def commit_fields upd_slot_def dict_simps)
qed

lemma tame_release_dongle: "tame d (release_dongle c sus d)"
proof -
  have fields: "slots (advance_bg_index b) = slots b" "d_uid (advance_bg_index b) = d_uid b"
    "d_canonical (advance_bg_index b) = d_canonical b" "generation (advance_bg_index b) = generation b"
    "current_holder (advance_bg_index b) = current_holder b" "locked_by (advance_bg_index b) = locked_by b"
    "relock_after (advance_bg_index b) = relock_after b" for b
    by (simp_all add: advance_bg_index_def)
  have e: "entry_ok None k (map_of (slots d) k)"
    if "dongle_ok d" "current_holder d = Some c" "k \<noteq> c" for k
    using that dongle_ok_keep [OF that(1) refl, of k] by (cases "map_of (slots d) k") auto
  have n: "entry_ok None k (map_of (slots d) k)"
    if "dongle_ok d" "current_holder d = Some c" "map_of (slots d) c = None" for k
    using that e [of k] by (cases "k = c") auto
  show ?thesis
  proof (cases "map_of (slots d) c")
    case None
    then show ?thesis using n
      by (simp add: tame_def release_dongle_def Let_def fields ranks_def fun_eq_iff dongle_ok_def)
  next
    case (Some sl)
    then show ?thesis using e
      by (simp add: tame_def release_dongle_def Let_def fields bump_def upd_slot_def dongle_ok_def dict_simps)
  qed
qed

subsection \<open>All dongles\<close>

definition sched_ok :: "sdr \<Rightarrow> bool" where
  "sched_ok s \<longleftrightarrow> dict_ok (dongles s) \<and> distinct (map (\<lambda>(_, d). d_uid d) (dongles s)) \<and>
     (\<forall>k d. map_of (dongles s) k = Some d \<longrightarrow> d_uid d < next_uid s \<and> dongle_ok d \<and>
        map_of (canonical_dongles s) (d_canonical d) = Some k) \<and>
     (\<forall>c k. map_of (canonical_dongles s) c = Some k \<longrightarrow> map_option d_canonical (map_of (dongles s) k) = Some c)"

definition onward :: "(dongle \<Rightarrow> dongle \<Rightarrow> bool) \<Rightarrow> nat \<Rightarrow> nat \<Rightarrow> dongle option \<Rightarrow> dongle option \<Rightarrow> bool" where
  "onward R n uid r r' =
     (case (r, r') of
        (Some d, Some d') \<Rightarrow> R d d'
      | (Some d, None) \<Rightarrow> (\<exists>d1. R d d1 \<and> current_holder d1 = None)
      | (None, Some d') \<Rightarrow> n \<le> uid \<and> current_holder d' = None
      | (None, None) \<Rightarrow> True)"

definition evolves :: "(dongle \<Rightarrow> dongle \<Rightarrow> bool) \<Rightarrow> sdr \<Rightarrow> sdr \<Rightarrow> bool" where
  "evolves R s s' \<longleftrightarrow> (sched_ok s \<longrightarrow> sched_ok s' \<and> next_uid s \<le> next_uid s' \<and>
     weather_override_lock s' = weather_override_lock s \<and>
     (\<forall>uid. onward R (next_uid s) uid (dongle_by uid s) (dongle_by uid s')))"

lemma find_uid_map_of:
  assumes "dict_ok xs" "distinct (map (\<lambda>(_, d). d_uid d) xs)"
  shows "map_option snd (List.find (\<lambda>(_, d). d_uid d = uid) xs) = Some d \<longleftrightarrow>
    (\<exists>k. map_of xs k = Some d) \<and> d_uid d = uid"
  using assms
proof (induction xs)
  case (Cons x xs)
  obtain k e where x: "x = (k, e)" by (cases x)
  have n: "map_of xs k = None" "d_uid e \<notin> (\<lambda>(_, d). d_uid d) ` set xs"
    using Cons.prems by (auto simp: x map_of_None_keys)
  have "d_uid d \<noteq> d_uid e" if "map_of xs k' = Some d" for k'
    using n(2) map_of_SomeD [OF that] by force
  then have "(\<exists>k'. map_of (x # xs) k' = Some d) \<and> d_uid d = uid \<longleftrightarrow>
      (if d_uid e = uid then d = e else (\<exists>k'. map_of xs k' = Some d) \<and> d_uid d = uid)"
    using n(1) by (auto simp: x) (metis option.distinct(1))
  then show ?case using Cons by (auto simp: x)
qed simp

lemma dongle_by_iff:
  assumes "sched_ok s"
  shows "dongle_by uid s = Some d \<longleftrightarrow> (\<exists>k. map_of (dongles s) k = Some d) \<and> d_uid d = uid"
  using assms find_uid_map_of [of "dongles s" uid d] by (simp add: dongle_by_def sched_ok_def)

lemma dongle_by_uid: "dongle_by uid s = Some d \<Longrightarrow> d_uid d = uid"
  by (auto simp: dongle_by_def find_Some_iff)

lemma dongle_by_ok:
  "sched_ok s \<Longrightarrow> dongle_by uid s = Some d \<Longrightarrow> dongle_ok d \<and> uid < next_uid s"
  by (auto simp: dongle_by_iff) (auto simp: sched_ok_def)

lemma dongle_by_map_dongle:
  assumes "\<And>d. d_uid d = uid \<Longrightarrow> d_uid (f d) = uid"
  shows "dongle_by u (map_dongle uid f s) = (if u = uid then map_option f (dongle_by u s) else dongle_by u s)"
proof -
  have "map_option snd (List.find (\<lambda>(_, d). d_uid d = u) (map (\<lambda>(k, d). (k, if d_uid d = uid then f d else d)) xs)) =
      (if u = uid then map_option f (map_option snd (List.find (\<lambda>(_, d). d_uid d = u) xs))
       else map_option snd (List.find (\<lambda>(_, d). d_uid d = u) xs))" for xs
    using assms by (induction xs) (auto split: if_splits)
  from this [of "dongles s"] show ?thesis by (simp add: dongle_by_def map_dongle_def)
qed

lemma evolves_refl [evolve, simp]: "(\<And>d. R d d) \<Longrightarrow> evolves R s s"
  by (simp add: evolves_def onward_def split: option.split)

lemma onward_mild_tame: "onward mild n uid r r' \<Longrightarrow> onward tame n uid r r'"
  by (cases r; cases r') (auto simp: onward_def intro: mild_tame)

lemma evolves_mild_tame: "evolves mild s s' \<Longrightarrow> evolves tame s s'"
  unfolding evolves_def using onward_mild_tame by blast

lemma onward_trans:
  assumes "onward R n u r r1" "onward R n1 u r1 r2" "n \<le> n1" "r \<noteq> None \<Longrightarrow> u < n"
    "\<And>d d1 d2. R d d1 \<Longrightarrow> R d1 d2 \<Longrightarrow> R d d2"
    "\<And>d d1. R d d1 \<Longrightarrow> current_holder d1 = None \<or> current_holder d1 = current_holder d"
  shows "onward R n u r r2"
proof (cases r)
  case None
  show ?thesis
  proof (cases r1)
    case r1: None
    then show ?thesis using assms(2,3) None by (cases r2) (simp_all add: onward_def)
  next
    case (Some d1)
    then show ?thesis using assms(1,2) assms(6) [of d1] None by (cases r2) (auto simp: onward_def)
  qed
next
  case (Some d)
  show ?thesis
  proof (cases r1)
    case None
    then show ?thesis using assms(1-4) Some by (cases r2) (auto simp: onward_def)
  next
    case d1: (Some d1)
    then show ?thesis using assms(1,2) assms(5) [of d d1] assms(6) [of d d1] Some
      by (cases r2) (auto simp: onward_def dest: assms(5))
  qed
qed

lemma evolves_trans:
  assumes "evolves R s s1" "evolves R s1 s2" "\<And>d d1 d2. R d d1 \<Longrightarrow> R d1 d2 \<Longrightarrow> R d d2"
    "\<And>d d1. R d d1 \<Longrightarrow> current_holder d1 = None \<or> current_holder d1 = current_holder d"
  shows "evolves R s s2"
  unfolding evolves_def
proof (intro impI)
  assume ok: "sched_ok s"
  note a = assms(1) [unfolded evolves_def, rule_format, OF ok]
  note b = assms(2) [unfolded evolves_def, rule_format, OF conjunct1 [OF a]]
  have "onward R (next_uid s) uid (dongle_by uid s) (dongle_by uid s2)" for uid
    by (rule onward_trans [of R _ _ _ "dongle_by uid s1" "next_uid s1"])
      (use a b dongle_by_ok [OF ok] assms(3,4) in blast)+
  then show "sched_ok s2 \<and> next_uid s \<le> next_uid s2 \<and> weather_override_lock s2 = weather_override_lock s \<and>
      (\<forall>uid. onward R (next_uid s) uid (dongle_by uid s) (dongle_by uid s2))"
    using a b by simp
qed

lemma evolves_tame_trans: "evolves tame s s1 \<Longrightarrow> evolves tame s1 s2 \<Longrightarrow> evolves tame s s2"
  by (rule evolves_trans [where R = tame]) (auto intro: tame_trans simp: tame_def)

lemma evolves_mild_trans: "evolves mild s s1 \<Longrightarrow> evolves mild s1 s2 \<Longrightarrow> evolves mild s s2"
  by (rule evolves_trans [where R = mild]) (auto intro: mild_trans, auto simp: mild_def)

lemma sched_ok_map_dongle:
  assumes ok: "sched_ok s"
    and f: "\<And>d. dongle_by uid s = Some d \<Longrightarrow>
      d_uid (f d) = d_uid d \<and> d_canonical (f d) = d_canonical d \<and> (dongle_ok d \<longrightarrow> dongle_ok (f d))"
  shows "sched_ok (map_dongle uid f s)"
proof -
  let ?s = "map_dongle uid f s"
  have get: "map_of (dongles ?s) k = map_option (\<lambda>d. if d_uid d = uid then f d else d) (map_of (dongles s) k)" for k
    by (simp add: map_dongle_def map_of_mapped)
  have one: "d_uid d' = d_uid d \<and> d_canonical d' = d_canonical d \<and> (dongle_ok d \<longrightarrow> dongle_ok d')"
    if "map_of (dongles s) k = Some d" "d' = (if d_uid d = uid then f d else d)" for k d d'
    using f that dongle_by_iff [OF ok] by auto
  have uids: "map (\<lambda>(_, d). d_uid d) (dongles ?s) = map (\<lambda>(_, d). d_uid d) (dongles s)"
  proof -
    have "d_uid (if d_uid d = uid then f d else d) = d_uid d" if "(k, d) \<in> set (dongles s)" for k d
      using one [OF map_of_is_SomeI [OF _ that] refl] ok by (simp add: sched_ok_def)
    then show ?thesis by (auto simp: map_dongle_def)
  qed
  have keys: "map fst (dongles ?s) = map fst (dongles s)"
    by (simp add: map_dongle_def keys_mapped)
  have same: "next_uid ?s = next_uid s" "canonical_dongles ?s = canonical_dongles s"
    by (simp_all add: map_dongle_def)
  show "sched_ok ?s"
    unfolding sched_ok_def uids keys same
  proof (intro conjI allI impI)
    show "dict_ok (dongles s)" "distinct (map (\<lambda>(_, d). d_uid d) (dongles s))"
      using ok by (simp_all add: sched_ok_def)
    fix k d' assume "map_of (dongles ?s) k = Some d'"
    then obtain d where d: "map_of (dongles s) k = Some d" "d' = (if d_uid d = uid then f d else d)"
      by (auto simp: get)
    note o = one [OF this]
    have "d_uid d < next_uid s \<and> dongle_ok d \<and> map_of (canonical_dongles s) (d_canonical d) = Some k"
      using ok d(1) unfolding sched_ok_def by blast
    with o show "d_uid d' < next_uid s" "dongle_ok d'"
      "map_of (canonical_dongles s) (d_canonical d') = Some k" by simp_all
  next
    fix c k assume "map_of (canonical_dongles s) c = Some k"
    then have "map_option d_canonical (map_of (dongles s) k) = Some c" using ok by (simp add: sched_ok_def)
    then obtain d where "map_of (dongles s) k = Some d" "d_canonical d = c" by auto
    then show "map_option d_canonical (map_of (dongles ?s) k) = Some c"
      using one [OF _ refl, of k d] by (simp add: get)
  qed
qed

lemma evolves_map_dongle:
  assumes "\<And>d. sched_ok s \<Longrightarrow> dongle_by uid s = Some d \<Longrightarrow> R d (f d)"
    and "\<And>d d'. R d d' \<Longrightarrow> tame d d'" "\<And>d. R d d" "\<And>d. d_uid d = uid \<Longrightarrow> d_uid (f d) = uid"
  shows "evolves R s (map_dongle uid f s)"
  unfolding evolves_def
proof (intro impI)
  assume ok: "sched_ok s"
  let ?s = "map_dongle uid f s"
  have R: "tame d (f d)" if "dongle_by uid s = Some d" for d
    using assms(1) [OF ok that] assms(2) by blast
  have "sched_ok ?s"
    by (rule sched_ok_map_dongle [OF ok]) (use R in \<open>simp add: tame_def\<close>)
  moreover have "onward R (next_uid s) u (dongle_by u s) (dongle_by u ?s)" for u
    using assms(1) [OF ok] assms(3)
    by (auto simp: dongle_by_map_dongle [OF assms(4)] onward_def split: option.split)
  ultimately show "sched_ok ?s \<and> next_uid s \<le> next_uid ?s \<and>
      weather_override_lock ?s = weather_override_lock s \<and>
      (\<forall>uid. onward R (next_uid s) uid (dongle_by uid s) (dongle_by uid ?s))"
    by (simp add: map_dongle_def)
qed

lemmas mild_evolves = evolves_map_dongle [where R = mild, OF _ mild_tame mild_refl]
lemmas tame_evolves = evolves_map_dongle [where R = tame, OF _ _ tame_refl]

lemma evolves_mild_map [evolve]:
  "(\<And>d. mild d (f d)) \<Longrightarrow> evolves mild s (map_dongle uid f s)"
  by (rule mild_evolves) (auto simp: mild_def tame_def)

lemma evolves_tame_map [evolve]:
  "(\<And>d. tame d (f d)) \<Longrightarrow> evolves tame s (map_dongle uid f s)"
  by (rule tame_evolves) (auto simp: tame_def)

lemma evolves_put:
  assumes "dongle_by uid s = Some d" "sched_ok s \<Longrightarrow> R d d'" "R = tame \<or> R = mild"
  shows "evolves R s (put_dongle uid d' s)"
proof (cases "sched_ok s")
  case True
  have "d_uid d' = uid"
    using assms True dongle_by_uid [OF assms(1)] by (auto simp: mild_def tame_def)
  then show ?thesis unfolding put_dongle_def
    using assms by (intro evolves_map_dongle) (auto intro: mild_tame)
qed (simp add: evolves_def)

text \<open>A change of other fields.\<close>

lemma evolves_fields:
  assumes "dongles s' = dongles s" "canonical_dongles s' = canonical_dongles s" "next_uid s' = next_uid s"
    "weather_override_lock s' = weather_override_lock s" "\<And>d. R d d"
  shows "evolves R s s'"
  using assms by (simp add: evolves_def sched_ok_def onward_def dongle_by_def split: option.split)

lemma map_slot_as_map:
  "map_of (map (\<lambda>(c, sl). (c, if registration_id sl = reg then f sl else sl)) xs) c =
     map_option (\<lambda>sl. if registration_id sl = reg then f sl else sl) (map_of xs c)"
  by (simp add: map_of_mapped)

lemma mild_map_slots:
  assumes "\<And>sl. is_active (f sl) = is_active sl \<and> device_lease (f sl) = device_lease sl \<and> priority (f sl) = priority sl"
  shows "mild d (d\<lparr>slots := map (\<lambda>(c, sl). (c, if registration_id sl = reg then f sl else sl)) (slots d)\<rparr>)"
  by (rule mildI) (simp_all add: keys_mapped map_of_mapped option.rel_map assms rel_option_same)

lemma evolves_map_all:
  assumes "\<And>d. mild d (f d)"
  shows "evolves mild s (s\<lparr>dongles := map (\<lambda>(k, d). (k, f d)) (dongles s)\<rparr>)"
  unfolding evolves_def
proof (intro impI)
  assume ok: "sched_ok s"
  let ?s = "s\<lparr>dongles := map (\<lambda>(k, d). (k, f d)) (dongles s)\<rparr>"
  have f: "d_uid (f d) = d_uid d" "d_canonical (f d) = d_canonical d" "dongle_ok d \<Longrightarrow> dongle_ok (f d)" for d
    using assms by (auto simp: mild_def tame_def)
  have get: "map_of (dongles ?s) k = map_option f (map_of (dongles s) k)" for k
    by (simp add: map_of_mapped)
  have uids: "map (\<lambda>(_, d). d_uid d) (dongles ?s) = map (\<lambda>(_, d). d_uid d) (dongles s)"
    using f(1) by (auto simp: case_prod_beta)
  have "sched_ok ?s"
    unfolding sched_ok_def uids get
    using ok f by (auto simp: sched_ok_def keys_mapped) (metis f(2))
  moreover have "dongle_by u ?s = map_option f (dongle_by u s)" for u
  proof -
    have "map_option snd (List.find (\<lambda>(_, d). d_uid d = u) (map (\<lambda>(k, d). (k, f d)) xs)) =
        map_option f (map_option snd (List.find (\<lambda>(_, d). d_uid d = u) xs))" for xs
      using f(1) by (induction xs) auto
    from this [of "dongles s"] show ?thesis by (simp add: dongle_by_def)
  qed
  ultimately show "sched_ok ?s \<and> next_uid s \<le> next_uid ?s \<and>
      weather_override_lock ?s = weather_override_lock s \<and>
      (\<forall>uid. onward mild (next_uid s) uid (dongle_by uid s) (dongle_by uid ?s))"
    using assms by (simp add: onward_def split: option.split)
qed

lemma evolves_map_slot [evolve]:
  assumes "\<And>sl. is_active (f sl) = is_active sl \<and> device_lease (f sl) = device_lease sl \<and> priority (f sl) = priority sl"
  shows "evolves mild s (map_slot reg f s)"
  unfolding map_slot_def by (rule evolves_map_all) (rule mild_map_slots [OF assms])

lemma dict_ok_fresh_update:
  "map_of xs k = None \<Longrightarrow> AList.update k v xs = xs @ [(k, v)]"
  by (induction xs) (auto split: if_splits)

lemma find_append: "List.find P (xs @ ys) = (case List.find P xs of None \<Rightarrow> List.find P ys | Some x \<Rightarrow> Some x)"
  by (induction xs) auto

lemma fresh_dongle_ok: "dongle_ok (new_dongle serial canonical dflt slice uid)"
  by (simp add: dongle_ok_def new_dongle_def)

text \<open>A new state under a free key and for a new identity.\<close>

lemma evolves_new_dongle:
  assumes "map_of (dongles s) key = None" "map_of (canonical_dongles s) canonical = None"
    and "s' = s\<lparr>dongles := AList.update key (new_dongle serial canonical dflt slice (next_uid s)) (dongles s),
        canonical_dongles := AList.update canonical key (canonical_dongles s), next_uid := next_uid s + 1\<rparr>"
  shows "evolves mild s s'"
  unfolding evolves_def
proof (intro impI)
  assume ok: "sched_ok s"
  let ?d = "new_dongle serial canonical dflt slice (next_uid s)"
  have d: "d_uid ?d = next_uid s" "d_canonical ?d = canonical" "current_holder ?d = None"
    by (simp_all add: new_dongle_def)
  have get: "map_of (dongles s') k = (if k = key then Some ?d else map_of (dongles s) k)"
    "map_of (canonical_dongles s') c = (if c = canonical then Some key else map_of (canonical_dongles s) c)" for k c
    by (simp_all add: assms(3) dict_simps)
  have uids: "map (\<lambda>(_, d). d_uid d) (dongles s') = map (\<lambda>(_, d). d_uid d) (dongles s) @ [next_uid s]"
    by (simp add: assms(1,3) dict_ok_fresh_update d)
  have small: "d_uid e < next_uid s" if "(k, e) \<in> set (dongles s)" for k e
    using ok that map_of_is_SomeI [of "dongles s"] unfolding sched_ok_def by blast
  have "sched_ok s'"
    unfolding sched_ok_def uids get
  proof (intro conjI allI impI)
    show "dict_ok (dongles s')" using ok by (simp add: assms(3) sched_ok_def)
    show "distinct (map (\<lambda>(_, d). d_uid d) (dongles s) @ [next_uid s])"
      using ok small by (fastforce simp: sched_ok_def)
    fix k e assume e: "(if k = key then Some ?d else map_of (dongles s) k) = Some e"
    show "d_uid e < next_uid s'" "dongle_ok e"
      using e ok d fresh_dongle_ok [of serial canonical dflt slice "next_uid s"]
      by (auto simp: assms(3) sched_ok_def less_Suc_eq split: if_splits)
    show "(if d_canonical e = canonical then Some key else map_of (canonical_dongles s) (d_canonical e)) = Some k"
      using e ok d assms(2) by (auto simp: sched_ok_def split: if_splits)
  next
    fix c k assume "(if c = canonical then Some key else map_of (canonical_dongles s) c) = Some k"
    then show "map_option d_canonical (if k = key then Some ?d else map_of (dongles s) k) = Some c"
      using ok d assms(1) by (auto simp: sched_ok_def split: if_splits) force
  qed
  moreover have "dongle_by u s' = (case dongle_by u s of None \<Rightarrow> if u = next_uid s then Some ?d else None | r \<Rightarrow> r)" for u
    by (simp add: dongle_by_def assms(1,3) dict_ok_fresh_update find_append d split: option.split)
  ultimately show "sched_ok s' \<and> next_uid s \<le> next_uid s' \<and>
      weather_override_lock s' = weather_override_lock s \<and>
      (\<forall>uid. onward mild (next_uid s) uid (dongle_by uid s) (dongle_by uid s'))"
    using d by (simp add: assms(3) onward_def split: option.split)
qed

lemma evolves_ensure: "evolves mild s (fst (ensure_dongle configured canonical s))"
proof (cases "sched_ok s \<and> map_of (canonical_dongles s) canonical = None")
  case True
  then have n: "map_of (canonical_dongles s) canonical = None" and ok: "sched_ok s" by auto
  have other: "d_canonical d \<noteq> canonical" if "map_of (dongles s) configured = Some d" for d
    using ok n that by (auto simp: sched_ok_def)
  define key where "key = (if map_of (dongles s) configured = None then configured
    else if map_of (dongles s) canonical = None then canonical else free_key canonical 2 (dongles s))"
  have "map_of (dongles s) key = None" using free_key_fresh by (simp add: key_def)
  moreover have "fst (ensure_dongle configured canonical s) =
      s\<lparr>dongles := AList.update key (new_dongle configured canonical '''' 120 (next_uid s)) (dongles s),
        canonical_dongles := AList.update canonical key (canonical_dongles s), next_uid := next_uid s + 1\<rparr>"
  proof (cases "map_of (dongles s) configured")
    case None
    then show ?thesis using n by (simp add: ensure_dongle_def key_def Let_def)
  next
    case (Some d)
    then show ?thesis using n other [OF Some] by (simp add: ensure_dongle_def key_def Let_def)
  qed
  ultimately show ?thesis using n by (intro evolves_new_dongle)
next
  case False
  then show ?thesis
    by (cases "map_of (canonical_dongles s) canonical")
      (simp add: evolves_def, simp add: ensure_dongle_def)
qed

lemma option_extI: "(\<And>x. o1 = Some x \<longleftrightarrow> o2 = Some x) \<Longrightarrow> o1 = o2"
  by (cases o1; cases o2) auto

lemma distinct_delete_map: "distinct (map g xs) \<Longrightarrow> distinct (map g (AList.delete k xs))"
  by (auto simp: AList.delete_eq distinct_map_filter)

lemma evolves_remove:
  assumes "map_of (dongles s) key = Some d" "current_holder d = None"
  shows "evolves mild s (s\<lparr>dongles := AList.delete key (dongles s),
    canonical_dongles := AList.delete (d_canonical d) (canonical_dongles s)\<rparr>)" (is "evolves mild s ?s")
  unfolding evolves_def
proof (intro impI)
  assume ok: "sched_ok s"
  have d: "map_of (canonical_dongles s) (d_canonical d) = Some key" using ok assms(1) by (simp add: sched_ok_def)
  have canon: "k = key" if "map_of (dongles s) k = Some e" "d_canonical e = d_canonical d" for k e
    using ok d that unfolding sched_ok_def by (metis option.inject)
  have key: "c = d_canonical d" if "map_of (canonical_dongles s) c = Some key" for c
  proof -
    have "map_option d_canonical (map_of (dongles s) key) = Some c" using ok that unfolding sched_ok_def by blast
    then show ?thesis using assms(1) by simp
  qed
  have ok': "sched_ok ?s"
    unfolding sched_ok_def
  proof (intro conjI allI impI)
    show "dict_ok (dongles ?s)" "distinct (map (\<lambda>(_, d). d_uid d) (dongles ?s))"
      using ok by (simp_all add: sched_ok_def distinct_delete_map)
    fix k e assume "map_of (dongles ?s) k = Some e"
    then have e: "map_of (dongles s) k = Some e" "k \<noteq> key" by (simp_all add: dict_simps split: if_splits)
    then show "d_uid e < next_uid ?s" "dongle_ok e" using ok by (simp_all add: sched_ok_def)
    show "map_of (canonical_dongles ?s) (d_canonical e) = Some k"
      using ok e canon [OF e(1)] by (auto simp: sched_ok_def dict_simps)
  next
    fix c k assume "map_of (canonical_dongles ?s) c = Some k"
    then have c: "map_of (canonical_dongles s) c = Some k" "c \<noteq> d_canonical d"
      by (simp_all add: dict_simps split: if_splits)
    then have "k \<noteq> key" using key by blast
    then show "map_option d_canonical (map_of (dongles ?s) k) = Some c"
      using ok c(1) by (simp add: sched_ok_def dict_simps)
  qed
  have uid: "k = key" if "map_of (dongles s) k = Some e" "d_uid e = d_uid d" for k e
  proof -
    have "dongle_by (d_uid d) s = Some e" "dongle_by (d_uid d) s = Some d"
      using that assms(1) dongle_by_iff [OF ok] by blast+
    then show ?thesis using canon [OF that(1)] by simp
  qed
  have look: "dongle_by u ?s = (if u = d_uid d then None else dongle_by u s)" for u
  proof (rule option_extI)
    fix e
    have l: "dongle_by u ?s = Some e \<longleftrightarrow> (\<exists>k. k \<noteq> key \<and> map_of (dongles s) k = Some e) \<and> d_uid e = u"
      unfolding dongle_by_iff [OF ok'] by (simp add: dict_simps) metis
    show "dongle_by u ?s = Some e \<longleftrightarrow> (if u = d_uid d then None else dongle_by u s) = Some e"
    proof (cases "u = d_uid d")
      case True
      then show ?thesis using l uid by auto
    next
      case False
      then have "map_of (dongles s) key = Some e \<Longrightarrow> d_uid e \<noteq> u" using assms(1) by simp
      then show ?thesis unfolding l using False dongle_by_iff [OF ok, of u e] by (simp, metis)
    qed
  qed
  have "dongle_by (d_uid d) s = Some d" using assms(1) by (auto simp: dongle_by_iff [OF ok])
  then show "sched_ok ?s \<and> next_uid s \<le> next_uid ?s \<and>
      weather_override_lock ?s = weather_override_lock s \<and>
      (\<forall>uid. onward mild (next_uid s) uid (dongle_by uid s) (dongle_by uid ?s))"
    using ok' assms(2) by (auto simp: look onward_def intro: exI [of _ d] split: option.split)
qed

lemma evolves_prune: "evolves mild s (prune_empty_provisional key uid s)"
proof (cases "sched_ok s")
  case ok: True
  show ?thesis
  proof (cases "dongle_by uid s")
    case None
    then show ?thesis by (simp add: prune_empty_provisional_def)
  next
    case (Some d)
    then obtain k where k: "map_of (dongles s) k = Some d" "d_uid d = uid" by (auto simp: dongle_by_iff [OF ok])
    then have c: "map_of (canonical_dongles s) (d_canonical d) = Some k" using ok by (simp add: sched_ok_def)
    show ?thesis
    proof (cases "k = key")
      case True
      then show ?thesis
        using Some k c evolves_remove [of s key d]
        by (simp add: prune_empty_provisional_def is_dongle_at_def)
    next
      case False
      have "\<not> is_dongle_at key uid s"
      proof
        assume "is_dongle_at key uid s"
        then obtain e where "map_of (dongles s) key = Some e" "d_uid e = uid" by (auto simp: is_dongle_at_def)
        then have "dongle_by uid s = Some e" using dongle_by_iff [OF ok] by blast
        then show False using Some \<open>map_of (dongles s) key = Some e\<close> k c ok False by (auto simp: sched_ok_def)
      qed
      then show ?thesis using Some c False by (simp add: prune_empty_provisional_def)
    qed
  qed
qed (simp add: evolves_def)

lemma evolves_reconcile: "evolves mild s (fst (reconcile_idle_slot uid c reg canonical s))"
proof -
  have slot: "evolves mild s (map_slot reg (\<lambda>sl. sl\<lparr>sl_canonical := x, allocation_generation := 0\<rparr>) s)" for x
    by (rule evolves_map_slot) simp
  have move: "evolves mild s (prune_empty_provisional key uid (map_dongle u (bump \<circ> join_dongle c sl)
      (map_dongle uid (bump \<circ> leave_dongle c) s1)\<lparr>registrations := x\<rparr>))"
    if "ensure_dongle configured canonical s = (s1, k)" "\<not> is_active sl" "device_lease sl = None"
    for configured s1 k key u sl x
  proof -
    have e: "evolves mild s s1" using evolves_ensure [of s configured canonical] that(1) by simp
    have "evolves mild s1 (map_dongle uid (bump \<circ> leave_dongle c) s1)"
      by (rule evolves_mild_map) (simp add: mild_leave)
    moreover have "evolves mild b (map_dongle u (bump \<circ> join_dongle c sl) b)" for b
      by (rule evolves_mild_map) (simp add: mild_join that)
    moreover have "evolves mild b (b\<lparr>registrations := x\<rparr>)" for b
      by (rule evolves_fields) simp_all
    ultimately show ?thesis using e evolves_prune evolves_mild_trans by meson
  qed
  have ens: "evolves mild s s1" if "ensure_dongle configured canonical s = (s1, k)" for configured s1 k
    using evolves_ensure [of s configured canonical] that by simp
  show ?thesis
    unfolding reconcile_idle_slot_def Let_def
    by (auto split: option.split prod.split intro: slot move ens)
qed

subsection \<open>The operations\<close>

lemma registration_dongle_by:
  assumes "sched_ok s" "registration_dongle serial c s = Some d"
  shows "dongle_by (d_uid d) s = Some d"
  using assms by (auto simp: dongle_by_iff registration_dongle_def bind_eq_Some_conv)

lemma dongle_at_by: "sched_ok s \<Longrightarrow> map_of (dongles s) k = Some d \<Longrightarrow> dongle_by (d_uid d) s = Some d"
  by (auto simp: dongle_by_iff)

lemma evolves_on_dongle: "(\<And>d. mild d (f d)) \<Longrightarrow> evolves mild s (on_dongle serial c f s)"
  by (auto simp: on_dongle_def intro: evolves_mild_map split: option.split)

lemma evolves_windows_locks:
  "evolves mild s (fst (add_window serial c from_ts to_ts label s))"
  "evolves mild s (remove_windows serial c s)" "evolves mild s (fst (lock serial c s))"
  "evolves mild s (unlock serial c s)"
  by (auto simp: add_window_def remove_windows_def lock_def unlock_def Let_def
      intro!: evolves_on_dongle evolves_mild_map mild_upd_slot mild_lock split: option.split)

lemma evolves_slot_fields:
  "evolves mild s (map_slot reg (\<lambda>sl. sl\<lparr>allocation_generation := g\<rparr>) s)"
  "evolves mild s (map_slot reg (\<lambda>sl. sl\<lparr>acquire_retry_signature := x\<rparr>) s)"
  "evolves mild s (map_slot reg (\<lambda>sl. sl\<lparr>release_requested := b\<rparr>) s)"
  "evolves mild s (clear_allocation a s)" "evolves mild s (defer_acquire_retry uid reg now s)"
  "evolves mild s (defer_preflight p b s)"
  by (auto simp: clear_allocation_def defer_acquire_retry_def defer_preflight_def intro!: evolves_map_slot
      split: option.split if_splits)

lemma evolves_acquire_claimed: "evolves mild s (fst (acquire_claimed a r now s))"
proof -
  note t = evolves_mild_trans [OF _ evolves_slot_fields(4)] evolves_mild_trans [OF _ evolves_slot_fields(5)]
    evolves_mild_trans [OF _ evolves_slot_fields(2)]
  have "evolves mild s s1" if "reconcile_idle_slot uid c reg canonical s = (s1, b)" for uid c reg canonical s1 b
    using evolves_reconcile [of s uid c reg canonical] that by simp
  then show ?thesis
    unfolding acquire_claimed_def Let_def
    by (auto split: option.split prod.split claim.split bool.split intro!: t evolves_slot_fields)
qed

lemma evolves_discard: "evolves mild s (fst (discard a l s))"
  by (simp add: discard_def evolves_slot_fields)

lemma evolves_preflight_finish: "evolves mild s (fst (preflight_finish p r wall mon now freed s))"
proof -
  have start: "evolves mild s (map_slot (p_reg p) (\<lambda>sl. sl\<lparr>preflight_at := x, preflight_deferred := b,
      preflight_signature := y\<rparr>) s)" for x b y
    by (rule evolves_map_slot) simp
  have rec: "evolves mild s s2"
    if "reconcile_idle_slot uid c reg canonical (map_slot (p_reg p) (\<lambda>sl. sl\<lparr>preflight_at := x,
      preflight_deferred := b, preflight_signature := y\<rparr>) s) = (s2, m)" for uid c reg canonical s2 m x b y
    using evolves_mild_trans [OF start evolves_reconcile] that by (metis fst_conv)
  note t = evolves_mild_trans [OF _ evolves_slot_fields(6)]
  show ?thesis
    unfolding preflight_finish_def Let_def
    by (auto split: option.split prod.split intro!: t start dest: rec)
qed

lemma evolves_start_acquire: "evolves mild s (fst (start_acquire uid c now s))"
proof (cases "dongle_by uid s")
  case (Some d)
  have "evolves mild s (put_dongle uid (fst (acquire_begin c now d)) s)"
    by (rule evolves_put [OF Some]) (simp_all add: mild_acquire_begin)
  then show ?thesis by (auto simp: start_acquire_def Some split: prod.split option.split)
qed (simp add: start_acquire_def)

lemma evolves_register_enter: "evolves mild s (register_enter r s)"
proof -
  have "evolves mild s (s\<lparr>registrations := x, next_registration_id := n\<rparr>)" for x n
    by (rule evolves_fields) simp_all
  moreover have "evolves mild b (map_dongle uid (bump \<circ> join_dongle c (new_slot r n)) b)" for b uid c n
    by (rule evolves_mild_map) (simp add: mild_join new_slot_def)
  ultimately show ?thesis
    unfolding register_enter_def by (cases "map_of (dongles s) (r_key r)") (simp, simp, meson evolves_mild_trans)
qed

lemma evolves_register_leave: "evolves mild s (register_leave r uid s)"
proof -
  have "evolves mild s (map_dongle uid (bump \<circ> drop_slot (r_caller r)) s)"
    by (rule evolves_mild_map) (simp add: mild_drop_slot)
  then show ?thesis
    unfolding register_leave_def by (rule evolves_mild_trans) (rule evolves_register_enter)
qed

lemma evolves_unregister_finish:
  assumes "had \<or> (\<forall>d. dongle_by uid s = Some d \<longrightarrow> map_of (slots d) c = None)"
  shows "evolves mild s (unregister_finish serial c uid had s)"
proof -
  let ?f = "\<lambda>d. drop_slot c (if had then bump d else d)"
  have "evolves mild s (map_dongle uid ?f s)"
  proof (cases had)
    case True
    then show ?thesis by (intro evolves_mild_map) (simp add: mild_drop_slot)
  next
    case False
    then show ?thesis
      using assms by (intro mild_evolves) (auto simp: mild_drop_slot, auto simp: drop_slot_def)
  qed
  moreover have "evolves mild b (b\<lparr>registrations := x\<rparr>)" for b x
    by (rule evolves_fields) simp_all
  ultimately show ?thesis unfolding unregister_finish_def Let_def by (rule evolves_mild_trans)
qed

text \<open>Yields of a holder.\<close>

lemma evolves_yield:
  assumes "dongle_by uid s = Some d" "sched_ok s \<Longrightarrow> current_holder d = None \<or> current_holder d = Some c"
    and "yield_begin c b label until now d = (d', r)"
  shows "evolves tame s (put_dongle uid d' s)"
proof (cases "sched_ok s")
  case True
  then have "tame d d'" using tame_yield_begin(1) [OF assms(2) [OF True], of b label until now] assms(3) by simp
  then show ?thesis by (intro evolves_put [OF assms(1)]) simp_all
qed (simp add: evolves_def)

lemma active_is_holder:
  assumes "sched_ok s" "dongle_by uid s = Some d" "map_of (slots d) c = Some sl" "is_active sl"
  shows "current_holder d = Some c"
  using dongle_by_ok [OF assms(1,2)] assms(3,4) unfolding dongle_ok_def by (metis entry_ok_simps(2))

lemma put_as_map: "map_dongle uid (\<lambda>_. d) s = put_dongle uid d s" by (simp add: put_dongle_def)

lemma evolves_release_slot: "evolves tame s (fst (release_slot serial c sus g s))"
  by (auto simp: release_slot_def intro!: evolves_tame_map tame_release_dongle split: option.split)

lemma evolves_resume: "evolves mild s (fst (resume serial c reg s))"
proof -
  have "mild d (bump (upd_slot c (\<lambda>sl. sl\<lparr>suspended := False, release_requested := False\<rparr>) d))" for d
    using mild_trans [OF mild_upd_slot mild_bump] by simp
  then show ?thesis by (auto simp: resume_def intro!: evolves_mild_map split: option.split)
qed

end
