(* ===== verification/Sdr_Safety.thy ===== *)
theory Sdr_Safety
  imports Sdr_Invariant
begin

text \<open>
  What the SDR scheduler guarantees under every interleaving of its thread with the threads that call
  it: one active slot per dongle, one state per device identity, locked holders are left alone, and a
  grant that was revoked while the plugin started is undone.
\<close>

subsection \<open>Sections that evolve\<close>

lemma evolvesI: "(sched_ok s \<Longrightarrow> evolves R s s') \<Longrightarrow> evolves R s s'"
  by (simp add: evolves_def)

lemma dongle_by_put:
  assumes "dongle_by uid s = Some d" "d_uid d' = uid"
  shows "dongle_by u (put_dongle uid d' s) = (if u = uid then Some d' else dongle_by u s)"
  using assms by (simp add: put_dongle_def dongle_by_map_dongle)

lemma evolves_yield_at:
  assumes "map_of (dongles s) k = Some d" "current_holder d = None \<or> current_holder d = Some c \<or>
      (\<exists>sl. map_of (slots d) c = Some sl \<and> is_active sl)"
    and "yield_begin c b label until now d = (d', r)"
  shows "evolves tame s (put_dongle (d_uid d) d' s)"
proof (rule evolvesI)
  assume ok: "sched_ok s"
  have d: "dongle_by (d_uid d) s = Some d" by (rule dongle_at_by [OF ok assms(1)])
  then show ?thesis
    using assms(2) active_is_holder [OF ok d] by (intro evolves_yield [OF d _ assms(3)]) blast
qed

lemma registration_dongle_at:
  "registration_dongle serial c s = Some d \<Longrightarrow> \<exists>k. map_of (dongles s) k = Some d"
  by (auto simp: registration_dongle_def bind_eq_Some_conv)

lemma evolves_register: "evolves tame s (fst (register r answer now s))"
proof -
  let ?c = "registration_canonical_id (r_serial r) (r_selector r) answer s"
  obtain s1 key where e: "ensure_dongle (r_serial r) ?c s = (s1, key)" by fastforce
  have s1: "evolves tame s s1"
    using evolves_mild_tame [OF evolves_ensure [of s "r_serial r" ?c]] e by simp
  note m = evolves_mild_tame [OF evolves_register_enter] evolves_mild_tame [OF evolves_register_leave]
  have y: "evolves tame s (put_dongle (d_uid p) p' s1)"
    if "map_of (dongles s1) pk = Some p" "map_of (slots p) (r_caller r) = Some sl" "is_active sl"
      "yield_begin (r_caller r) '''' '''' None now p = (p', x)" for pk p p' sl x
    using evolves_tame_trans [OF s1 evolves_yield_at [OF that(1) _ that(4)]] that(2,3) by blast
  show ?thesis
  proof (cases "r_priority r = priority_critical \<and> \<not> r_continuous r")
    case True
    then show ?thesis by (simp add: register_def)
  next
    case False
    then show ?thesis
      using s1 m y
      by (simp add: register_def e put_as_map Let_def split: option.split prod.split)
        (meson evolves_tame_trans)
  qed
qed

lemma evolves_unregister: "evolves tame s (fst (unregister serial c now s))"
proof (cases "registration_dongle serial c s")
  case None
  then show ?thesis by (simp add: unregister_def)
next
  case (Some d)
  obtain k where k: "map_of (dongles s) k = Some d" using registration_dongle_at [OF Some] by blast
  show ?thesis
  proof (rule evolvesI)
    assume ok: "sched_ok s"
    have d: "dongle_by (d_uid d) s = Some d" by (rule dongle_at_by [OF ok k])
    have none: "map_of (slots d) c = None \<Longrightarrow> evolves tame s (unregister_finish serial c (d_uid d) False s)"
      using d by (intro evolves_mild_tame evolves_unregister_finish) simp
    have had: "evolves tame b (unregister_finish serial c u True b)" for b u
      by (intro evolves_mild_tame evolves_unregister_finish) simp
    have y: "evolves tame s (put_dongle (d_uid d) d' s)"
      if "map_of (slots d) c = Some sl" "is_active sl" "yield_begin c '''' '''' None now d = (d', x)" for sl d' x
      using evolves_yield_at [OF k _ that(3)] that(1,2) by blast
    note had' = evolves_tame_trans [OF _ had]
    show ?thesis
      using none had y
      by (auto simp: unregister_def Some put_as_map split: option.split prod.split intro!: had')
  qed
qed

lemma evolves_stop_from: "evolves tame s (fst (stop_from ks now s))"
proof (induction ks arbitrary: s)
  case (Cons k ks)
  show ?case
  proof (cases "map_of (dongles s) k")
    case None
    then show ?thesis using Cons by simp
  next
    case (Some d)
    have "evolves tame s (put_dongle (d_uid d) d' s)"
      if "current_holder d = Some h" "yield_begin h '''' '''' None now d = (d', x)" for h d' x
      using evolves_yield_at [OF Some _ that(2)] that(1) by blast
    then show ?thesis
      using Cons Some evolves_tame_trans [OF _ Cons]
      by (auto split: option.split prod.split)
  qed
qed simp

lemma evolves_api_begin: "evolves tame s (fst (api_begin x s))"
proof -
  note m = evolves_windows_locks [THEN evolves_mild_tame]
  have r: "evolves tame s (s\<lparr>running := b\<rparr>)" for b by (rule evolves_fields) simp_all
  show ?thesis
  proof (cases x)
    case (Register r answer now)
    then show ?thesis using evolves_register [of s r answer now]
      by (auto simp: api_begin_def split: prod.split register_result.split)
  next
    case (Unregister serial c now)
    then show ?thesis using evolves_unregister [of s serial c now]
      by (auto simp: api_begin_def split: prod.split option.split)
  next
    case (Add_Window serial c from_ts to_ts label)
    then show ?thesis using m(1) [of s serial c from_ts to_ts label]
      by (auto simp: api_begin_def split: prod.split)
  next
    case (Released serial c g)
    then show ?thesis using evolves_release_slot [of s serial c False g]
      by (auto simp: api_begin_def dongle_released_def split: prod.split)
  next
    case (Suspend serial c g)
    then show ?thesis using evolves_release_slot [of s serial c True g]
      by (auto simp: api_begin_def suspend_def split: prod.split)
  next
    case (Stop now)
    then show ?thesis
      using evolves_tame_trans [OF r [of False] evolves_stop_from [of "s\<lparr>running := False\<rparr>" "map fst (dongles s)" now]]
      by (auto simp: api_begin_def split: prod.split)
  qed (simp_all add: api_begin_def m r evolves_mild_tame [OF evolves_resume])
qed

lemma evolves_api_continue: "evolves tame s (fst (api_continue p now s))"
  using evolves_stop_from
  by (cases p)
    (auto simp: api_continue_def evolves_mild_tame [OF evolves_register_leave]
      evolves_mild_tame [OF evolves_unregister_finish] split: prod.split, metis fst_conv)

lemma evolves_hand_over: "evolves tame s (fst (hand_over uid w wall now s))"
proof (cases "dongle_by uid s")
  case None
  then show ?thesis by (simp add: hand_over_def)
next
  case (Some d)
  note a = evolves_mild_tame [OF evolves_start_acquire]
  show ?thesis
  proof (cases "current_holder d")
    case None
    then show ?thesis using Some by (simp add: hand_over_def a)
  next
    case h: (Some h)
    obtain d' r where y: "yield_begin h w (case map_of (slots d) w of Some sl \<Rightarrow> sl_label sl | None \<Rightarrow> w)
        (window_end d w wall) now d = (d', r)" by fastforce
    have "evolves tame s (put_dongle uid d' s)"
      by (rule evolves_yield [OF Some _ y]) (simp add: h)
    then show ?thesis
      using Some h y a by (cases r) (auto simp: hand_over_def Let_def intro: evolves_tame_trans)
  qed
qed

lemma evolves_probed: "evolves tame s (fst (fst (probed p r wall mon now freed s)))"
proof -
  obtain s1 stop es where f: "preflight_finish p r wall mon now freed s = (s1, stop, es)"
    by (cases "preflight_finish p r wall mon now freed s") auto
  have "evolves tame s s1"
    using evolves_mild_tame [OF evolves_preflight_finish [of s p r wall mon now freed]] f by simp
  then show ?thesis
    using evolves_hand_over evolves_tame_trans by (auto simp: probed_def f)
qed

lemma evolves_after_yield: "evolves tame s (fst (after_yield nx mon now s))"
proof (cases nx)
  case (Then_Acquire uid c)
  then show ?thesis by (simp add: after_yield_def evolves_mild_tame [OF evolves_start_acquire])
next
  case (Then_Background uid)
  show ?thesis
  proof (cases "dongle_by uid s")
    case None
    then show ?thesis using Then_Background by (simp add: after_yield_def)
  next
    case (Some d)
    have "evolves tame s (put_dongle uid (fst (pick_background d mon)) s)"
      by (intro evolves_mild_tame evolves_put [OF Some]) (simp_all add: mild_pick_background)
    then show ?thesis
      using Then_Background Some evolves_tame_trans [OF _ evolves_mild_tame [OF evolves_start_acquire]]
      by (cases "pick_background d mon") (auto simp: after_yield_def split: option.split)
  qed
qed

subsection \<open>The invariant of the system\<close>

text \<open>While the scheduler thread takes a dongle without the lock, the dongle has no holder, and its
  generation has not fallen behind the job's.\<close>

definition flight_ok :: "nat \<Rightarrow> nat \<Rightarrow> sdr \<Rightarrow> bool" where
  "flight_ok uid g s \<longleftrightarrow> uid < next_uid s \<and>
     (\<forall>d. dongle_by uid s = Some d \<longrightarrow> current_holder d = None \<and> g \<le> generation d)"

definition probe_ok :: "probe \<Rightarrow> sdr \<Rightarrow> bool" where
  "probe_ok p s \<longleftrightarrow> p_uid p < next_uid s \<and>
     (\<forall>d. dongle_by (p_uid p) s = Some d \<longrightarrow> p_generation p \<le> generation d \<and>
        (generation d = p_generation p \<longrightarrow> p_can p \<longrightarrow> (\<exists>h. p_holder p = Some h \<and>
           can_preempt (weather_override_lock s) (d\<lparr>locked_by := p_locked p\<rparr>) h (p_caller p))))"

definition action_ok :: "action \<Rightarrow> sdr \<Rightarrow> bool" where
  "action_ok act s \<longleftrightarrow>
     (case act of
        Idle \<Rightarrow> True
      | Probing p \<Rightarrow> probe_ok p s
      | Yielding _ (Then_Acquire uid _) \<Rightarrow> flight_ok uid 0 s
      | Yielding _ (Then_Background uid) \<Rightarrow> flight_ok uid 0 s
      | Claiming a \<Rightarrow> flight_ok (a_uid a) (a_generation a) s)"

definition pc_ok :: "pc \<Rightarrow> sdr \<Rightarrow> bool" where
  "pc_ok p s \<longleftrightarrow>
     (case p of
        Busy_With act _ \<Rightarrow> action_ok act s
      | Calling a _ _ _ \<Rightarrow> flight_ok (a_uid a) (a_generation a) s
      | _ \<Rightarrow> True)"

definition sys_ok :: "sys \<Rightarrow> bool" where
  "sys_ok y \<longleftrightarrow> sched_ok (sched y) \<and> pc_ok (pc y) (sched y)"

lemma can_preempt_ranks:
  "ranks d' = ranks d \<Longrightarrow> locked_by d' = locked_by d \<Longrightarrow> can_preempt ov d' h w = can_preempt ov d h w"
proof -
  assume r: "ranks d' = ranks d" and l: "locked_by d' = locked_by d"
  have "map_option priority (map_of (slots d') c) = map_option priority (map_of (slots d) c)" for c
    using fun_cong [OF r, of c] by (simp add: ranks_def)
  from this [of h] this [of w] show ?thesis
    using l by (auto simp: can_preempt_def split: option.splits)
qed

lemma evolves_at:
  assumes "evolves tame s s'" "sched_ok s" "uid < next_uid s" "dongle_by uid s' = Some d'"
  obtains d where "dongle_by uid s = Some d" "tame d d'"
proof -
  have "onward tame (next_uid s) uid (dongle_by uid s) (dongle_by uid s')"
    using assms(1,2) by (simp add: evolves_def)
  then show ?thesis using assms(3,4) that by (cases "dongle_by uid s") (auto simp: onward_def)
qed

lemma flight_ok_evolves:
  assumes "evolves tame s s'" "sched_ok s" "flight_ok uid g s"
  shows "flight_ok uid g s'"
proof -
  have "current_holder d' = None \<and> g \<le> generation d'" if "dongle_by uid s' = Some d'" for d'
    using assms that by (auto simp: flight_ok_def tame_def elim!: evolves_at [OF assms(1,2) _ that])
  moreover have "uid < next_uid s'" using assms by (auto simp: flight_ok_def evolves_def)
  ultimately show ?thesis by (simp add: flight_ok_def)
qed

lemma probe_ok_evolves:
  assumes "evolves tame s s'" "sched_ok s" "probe_ok p s"
  shows "probe_ok p s'"
proof -
  have w: "weather_override_lock s' = weather_override_lock s" "p_uid p < next_uid s'"
    using assms by (auto simp: probe_ok_def evolves_def)
  have "p_generation p \<le> generation d' \<and> (generation d' = p_generation p \<longrightarrow> p_can p \<longrightarrow>
      (\<exists>h. p_holder p = Some h \<and>
        can_preempt (weather_override_lock s) (d'\<lparr>locked_by := p_locked p\<rparr>) h (p_caller p)))"
    if d': "dongle_by (p_uid p) s' = Some d'" for d'
  proof -
    obtain d where d: "dongle_by (p_uid p) s = Some d" "tame d d'"
      using evolves_at [OF assms(1,2) _ d'] assms(3) by (auto simp: probe_ok_def)
    have le: "generation d \<le> generation d'" "p_generation p \<le> generation d"
      using d assms(3) by (auto simp: probe_ok_def tame_def)
    show ?thesis
    proof (intro conjI impI)
      show "p_generation p \<le> generation d'" using le by simp
      assume g: "generation d' = p_generation p" "p_can p"
      then have gd: "generation d = p_generation p" using le by simp
      then have "ranks (d'\<lparr>locked_by := p_locked p\<rparr>) = ranks (d\<lparr>locked_by := p_locked p\<rparr>)"
        using d(2) g by (simp add: tame_def ranks_def fun_eq_iff)
      then have same: "can_preempt ov (d'\<lparr>locked_by := p_locked p\<rparr>) h w =
          can_preempt ov (d\<lparr>locked_by := p_locked p\<rparr>) h w" for ov h w
        by (rule can_preempt_ranks) simp
      show "\<exists>h. p_holder p = Some h \<and>
          can_preempt (weather_override_lock s) (d'\<lparr>locked_by := p_locked p\<rparr>) h (p_caller p)"
        using assms(3) d(1) g(2) gd unfolding same probe_ok_def by blast
    qed
  qed
  then show ?thesis using w by (simp add: probe_ok_def)
qed

lemma pc_ok_evolves:
  assumes "evolves tame s s'" "sched_ok s" "pc_ok p s"
  shows "pc_ok p s'"
proof -
  note keep = flight_ok_evolves [OF assms(1,2)] probe_ok_evolves [OF assms(1,2)]
  have "action_ok act s'" if "action_ok act s" for act
    using that keep by (cases act) (simp_all add: action_ok_def split: next_step.splits)
  then show ?thesis using assms(3) keep by (cases p) (simp_all add: pc_ok_def)
qed

lemma sched_ok_evolves: "evolves R s s' \<Longrightarrow> sched_ok s \<Longrightarrow> sched_ok s'"
  by (simp add: evolves_def)

lemma put_dongle_next [simp]: "next_uid (put_dongle uid d s) = next_uid s"
  "weather_override_lock (put_dongle uid d s) = weather_override_lock s"
  by (simp_all add: put_dongle_def map_dongle_def)

lemma flight_ok_put:
  assumes "dongle_by uid s = Some d" "sched_ok s" "d_uid d' = uid" "current_holder d' = None" "g \<le> generation d'"
  shows "flight_ok uid g (put_dongle uid d' s)"
  using assms dongle_by_ok [OF assms(2,1)] by (simp add: flight_ok_def dongle_by_put)

lemma yield_begin_uid:
  assumes "yield_begin c b label until now d = (d', r)"
  shows "d_uid d' = d_uid d" "current_holder d' = None" "generation d \<le> generation d'"
  using assms by (auto simp: yield_begin_def Let_def split: option.splits if_splits)

lemma start_acquire_ok:
  assumes "sched_ok s" "flight_ok uid 0 s"
  shows "action_ok (snd (start_acquire uid c now s)) (fst (start_acquire uid c now s))"
proof (cases "dongle_by uid s")
  case None
  then show ?thesis by (simp add: start_acquire_def action_ok_def)
next
  case (Some d)
  obtain d' r where a: "acquire_begin c now d = (d', r)" by fastforce
  have h: "current_holder d = None" "d_uid d = uid"
    using assms(2) Some dongle_by_uid [OF Some] by (simp_all add: flight_ok_def)
  have "d_uid d' = uid" "current_holder d' = None" "case r of None \<Rightarrow> True | Some j \<Rightarrow> a_uid j = uid \<and> generation d' = a_generation j"
    using a h by (auto simp: acquire_begin_def Let_def split: option.splits if_splits)
  then show ?thesis
    using Some a flight_ok_put [OF Some assms(1), of d'] by (cases r) (auto simp: start_acquire_def action_ok_def)
qed

lemma start_acquire_put_ok:
  assumes "sched_ok s" "dongle_by uid s = Some d" "evolves tame s (put_dongle uid d' s)"
    "d_uid d' = uid" "current_holder d' = None"
  shows "action_ok (snd (start_acquire uid c now (put_dongle uid d' s)))
    (fst (start_acquire uid c now (put_dongle uid d' s)))"
  by (rule start_acquire_ok [OF sched_ok_evolves [OF assms(3,1)] flight_ok_put [OF assms(2,1,4,5)]]) simp

lemma hand_over_ok:
  assumes ok: "sched_ok s"
  shows "action_ok (snd (hand_over uid w wall now s)) (fst (hand_over uid w wall now s))"
proof (cases "dongle_by uid s")
  case None
  then show ?thesis by (simp add: hand_over_def action_ok_def)
next
  case (Some d)
  show ?thesis
  proof (cases "current_holder d")
    case None
    then have "flight_ok uid 0 s" using Some dongle_by_ok [OF ok Some] by (simp add: flight_ok_def)
    then show ?thesis using Some None start_acquire_ok [OF ok] by (simp add: hand_over_def)
  next
    case h: (Some h)
    obtain d' r where y: "yield_begin h w (case map_of (slots d) w of Some sl \<Rightarrow> sl_label sl | None \<Rightarrow> w)
        (window_end d w wall) now d = (d', r)" by fastforce
    note u = yield_begin_uid [OF y]
    have uid: "d_uid d' = uid" using u(1) dongle_by_uid [OF Some] by simp
    have e: "evolves tame s (put_dongle uid d' s)" by (rule evolves_yield [OF Some _ y]) (simp add: h)
    show ?thesis
      using Some h y start_acquire_put_ok [OF ok Some e uid u(2)] flight_ok_put [OF Some ok uid u(2)]
      by (cases r) (simp_all add: hand_over_def Let_def action_ok_def)
  qed
qed

lemma after_yield_ok:
  assumes "sched_ok s" "action_ok (Yielding j nx) s"
  shows "action_ok (snd (after_yield nx mon now s)) (fst (after_yield nx mon now s))"
proof (cases nx)
  case (Then_Acquire uid c)
  then show ?thesis using assms start_acquire_ok [OF assms(1)] by (simp add: after_yield_def action_ok_def)
next
  case (Then_Background uid)
  then have f: "flight_ok uid 0 s" using assms(2) by (simp add: action_ok_def)
  show ?thesis
  proof (cases "dongle_by uid s")
    case None
    then show ?thesis using Then_Background by (simp add: after_yield_def action_ok_def)
  next
    case (Some d)
    obtain d' r where p: "pick_background d mon = (d', r)" by fastforce
    have "mild d d'" using mild_pick_background [of d mon] p by simp
    then have e: "evolves tame s (put_dongle uid d' s)"
      by (intro evolves_mild_tame evolves_put [OF Some]) simp_all
    have "d_uid d' = uid" "current_holder d' = None"
      using pick_background_fields [of d mon] p f Some dongle_by_uid [OF Some] by (auto simp: flight_ok_def)
    then show ?thesis
      using Then_Background Some p start_acquire_put_ok [OF assms(1) Some e]
      by (cases r) (simp_all add: after_yield_def action_ok_def)
  qed
qed

lemma preflight_begin_ok:
  assumes "sched_ok s" "dongle_by uid s = Some d" "preflight_begin uid c can wall now s = Some p"
    and "can \<Longrightarrow> current_holder d = Some h \<and> can_preempt (weather_override_lock s) d h c"
  shows "probe_ok p s"
proof -
  have p: "p_uid p = uid" "p_caller p = c" "p_generation p = generation d" "p_holder p = current_holder d"
    "p_locked p = locked_by d" "p_can p = can"
    using assms(2,3) by (auto simp: preflight_begin_def split: option.splits if_splits)
  have "d\<lparr>locked_by := locked_by d\<rparr> = d" by (cases d) simp
  then show ?thesis
    using assms(2,4) p dongle_by_ok [OF assms(1,2)] by (auto simp: probe_ok_def)
qed

lemma evaluate_ok:
  assumes ok: "sched_ok s"
  shows "evolves tame s (fst (evaluate key wall mon now s)) \<and>
    action_ok (snd (evaluate key wall mon now s)) (fst (evaluate key wall mon now s))"
proof (cases "map_of (dongles s) key")
  case None
  then show ?thesis by (simp add: evaluate_def action_ok_def)
next
  case (Some d0)
  let ?u = "d_uid d0"
  obtain d w where p: "pick_winner (expire_windows wall d0) wall mon = (d, w)" by fastforce
  have md: "mild d0 d"
    using mild_trans [OF mild_expire mild_pick_winner, of d0 wall wall mon] p by simp
  have u: "d_uid d = ?u" using md by (simp add: mild_def tame_def)
  let ?s = "put_dongle ?u d s"
  have by0: "dongle_by ?u s = Some d0" by (rule dongle_at_by [OF ok Some])
  have e: "evolves tame s ?s" by (intro evolves_mild_tame evolves_put [OF by0]) (simp_all add: md)
  have ok1: "sched_ok ?s" by (rule sched_ok_evolves [OF e ok])
  have by1: "dongle_by ?u ?s = Some d" using dongle_by_put [OF by0 u] by simp
  note tr = evolves_tame_trans [OF e]
  have acq: "evolves tame s (fst (start_acquire ?u c now ?s)) \<and>
      action_ok (snd (start_acquire ?u c now ?s)) (fst (start_acquire ?u c now ?s))"
    if "current_holder d = None" for c
  proof -
    have "flight_ok ?u 0 ?s" using that by1 dongle_by_ok [OF ok1 by1] by (simp add: flight_ok_def)
    then show ?thesis using tr [OF evolves_mild_tame [OF evolves_start_acquire]] start_acquire_ok [OF ok1] by simp
  qed
  have yld: "evolves tame s (put_dongle ?u d' ?s) \<and> flight_ok ?u 0 (put_dongle ?u d' ?s)"
    if "current_holder d = Some h" "yield_begin h b l z now d = (d', r)" for h b l z d' r
    using tr [OF evolves_yield [OF by1 _ that(2)]] that(1) flight_ok_put [OF by1 ok1] yield_begin_uid [OF that(2)] u
    by simp
  have prb: "probe_ok q ?s"
    if "current_holder d = Some h" "preflight_begin ?u c can wall now ?s = Some q"
      "can \<longrightarrow> can_preempt (weather_override_lock s) d h c" for h c can q
    using preflight_begin_ok [OF ok1 by1 that(2), of h] that(1,3) by simp
  show ?thesis
  proof (cases "w = current_holder d")
    case True
    then show ?thesis using Some p e by (simp add: evaluate_def Let_def action_ok_def)
  next
    case False
    note ev = evaluate_def [of key wall mon now s]
    show ?thesis
    proof (cases "current_holder d")
      case None
      then show ?thesis using Some p False acq by (auto simp: ev Let_def)
    next
      case h: (Some h)
      show ?thesis
      proof (cases w)
        case None
        obtain d' r where y: "yield_begin h '''' '''' None now d = (d', r)" by fastforce
        show ?thesis
          using Some p False None h e y yld [OF h y]
          by (cases r) (auto simp: ev Let_def action_ok_def split: option.split)
      next
        case w: (Some c)
        show ?thesis
          using Some p False w h e prb [OF h]
          by (auto simp: ev Let_def action_ok_def split: option.split)
      qed
    qed
  qed
qed

lemma evolves_acquire_called:
  assumes "sched_ok s" "flight_ok (a_uid a) (a_generation a) s"
  shows "sched_ok (fst (acquire_called a l idx ok now s))"
proof -
  let ?s = "map_dongle (a_uid a) (\<lambda>d. if relock_after d = Some (a_caller a) then d\<lparr>relock_after := None\<rparr> else d) s"
  have d: "sched_ok (fst (discard a l b))" if "evolves mild s b" for b
    by (rule sched_ok_evolves [OF evolves_discard sched_ok_evolves [OF that assms(1)]])
  have "evolves mild s ?s" by (rule evolves_mild_map) (simp add: mild_lock)
  moreover have "sched_ok (defer_acquire_retry u r n (clear_allocation a s))" for u r n
    by (rule sched_ok_evolves [OF evolves_mild_trans [OF evolves_slot_fields(4) evolves_slot_fields(5)] assms(1)])
  moreover have "sched_ok (map_dongle (a_uid a) (commit a l idx now) s)"
    by (rule sched_ok_map_dongle [OF assms(1)])
      (use assms(2) commit_ok in \<open>auto simp: commit_fields flight_ok_def\<close>)
  ultimately show ?thesis
    using d [of s] d [of ?s] d [OF evolves_slot_fields(3)]
    by (auto simp: acquire_called_def split: option.split)
qed

lemma acquire_claimed_grant:
  "acquire_claimed a r now s = (s', es, Some x) \<Longrightarrow> s' = s"
  by (auto simp: acquire_claimed_def Let_def split: if_splits option.splits claim.splits prod.splits bool.splits)

lemma sys_ok_thread: "sys_ok y \<Longrightarrow> sys_ok (thread_step l y)"
proof -
  assume y: "sys_ok y"
  then have ok: "sched_ok (sched y)" and pk: "pc_ok (pc y) (sched y)" by (simp_all add: sys_ok_def)
  have ent: "sys_ok (enter r ks es y)" if "evolves tame (sched y) (fst r)" "action_ok (snd r) (fst r)" for r ks es
    using sched_ok_evolves [OF that(1) ok] that(2)
    by (cases "snd r = Idle") (simp_all add: enter_def sys_ok_def pc_ok_def)
  show ?thesis
  proof (cases "pc y")
    case Stopped
    then show ?thesis using y by (simp add: thread_step_def)
  next
    case (Scan ks)
    show ?thesis
    proof (cases l)
      case (Turn wall mon now)
      then show ?thesis
        using Scan ok ent evaluate_ok [OF ok]
        by (cases ks) (simp_all add: thread_step_def sys_ok_def pc_ok_def)
    qed (use Scan y in \<open>cases ks; simp add: thread_step_def\<close>)+
  next
    case (Busy_With act ks)
    show ?thesis
    proof (cases act)
      case Idle
      then show ?thesis using Busy_With y by (simp add: thread_step_def)
    next
      case (Probing p)
      show ?thesis
      proof (cases l)
        case (Answer r wall mon now freed)
        obtain s1 stop es where f: "preflight_finish p r wall mon now freed (sched y) = (s1, stop, es)"
          by (cases "preflight_finish p r wall mon now freed (sched y)") auto
        have e1: "evolves tame (sched y) s1"
          using evolves_mild_tame [OF evolves_preflight_finish [of "sched y" p r wall mon now freed]] f by simp
        have "action_ok (snd (fst (probed p r wall mon now freed (sched y)))) (fst (fst (probed p r wall mon now freed (sched y))))"
          using hand_over_ok [OF sched_ok_evolves [OF e1 ok]] by (simp add: probed_def f action_ok_def)
        then show ?thesis
          using ent [OF evolves_probed] Answer Probing Busy_With
          by (simp add: thread_step_def split: prod.split) (metis fst_conv)
      qed (use Busy_With Probing y in \<open>simp add: thread_step_def\<close>)+
    next
      case (Yielding j nx)
      then have "action_ok (Yielding j nx) (sched y)" using pk Busy_With by (simp add: pc_ok_def)
      then show ?thesis
        using ent [OF evolves_after_yield after_yield_ok [OF ok]] Yielding Busy_With y
        by (cases l) (simp_all add: thread_step_def)
    next
      case (Claiming a)
      then have f: "flight_ok (a_uid a) (a_generation a) (sched y)"
        using pk Busy_With by (simp add: pc_ok_def action_ok_def)
      show ?thesis
      proof (cases l)
        case (Answer r wall mon now freed)
        obtain s' es g where c: "acquire_claimed a r now (sched y) = (s', es, g)"
          by (cases "acquire_claimed a r now (sched y)") auto
        have "sched_ok s'"
          using sched_ok_evolves [OF evolves_acquire_claimed ok, of a r now] c by simp
        moreover have "flight_ok (a_uid a) (a_generation a) s'"
          using evolves_mild_tame [OF evolves_acquire_claimed, of "sched y" a r now] c flight_ok_evolves [OF _ ok f]
          by simp
        ultimately show ?thesis
          using c Answer Claiming Busy_With
          by (cases g) (auto simp: thread_step_def sys_ok_def pc_ok_def)
      qed (use Busy_With Claiming y in \<open>simp add: thread_step_def\<close>)+
    qed
  next
    case (Calling a le idx ks)
    then have f: "flight_ok (a_uid a) (a_generation a) (sched y)" using pk by (simp add: pc_ok_def)
    then show ?thesis
      using evolves_acquire_called [OF ok f] Calling y
      by (cases l) (simp_all add: thread_step_def sys_ok_def pc_ok_def split: prod.split, metis fst_conv)
  qed
qed

lemma sys_ok_step: "sys_ok y \<Longrightarrow> sys_ok (sys_step l y)"
proof -
  assume y: "sys_ok y"
  then have ok: "sched_ok (sched y)" and pk: "pc_ok (pc y) (sched y)" by (simp_all add: sys_ok_def)
  have e: "sched_ok s' \<and> pc_ok (pc y) s'" if "evolves tame (sched y) s'" for s'
    using sched_ok_evolves [OF that ok] pc_ok_evolves [OF that ok pk] by simp
  show ?thesis
  proof (cases l)
    case (Api x)
    obtain s' ps es where a: "api_begin x (sched y) = (s', ps, es)"
      by (cases "api_begin x (sched y)") auto
    then have "sched_ok s' \<and> pc_ok (pc y) s'" using e [OF evolves_api_begin, of x] by simp
    then show ?thesis
      using y by (simp add: Api sys_step_def a) (simp add: sys_ok_def pc_ok_def)
  next
    case (Continue i now)
    obtain s' ps es where a: "api_continue (threads y ! i) now (sched y) = (s', ps, es)"
      by (cases "api_continue (threads y ! i) now (sched y)") auto
    then have "sched_ok s' \<and> pc_ok (pc y) s'"
      using e [OF evolves_api_continue, of "threads y ! i" now] by simp
    then show ?thesis using a y Continue by (auto simp: sys_step_def sys_ok_def)
  qed (use y sys_ok_thread in \<open>simp add: sys_step_def\<close>)+
qed

lemma sys_ok_run: "sys_ok y \<Longrightarrow> sys_ok (run ls y)"
  by (induction ls arbitrary: y) (simp_all add: sys_ok_step)

lemma update_image: "h ` set (AList.update k v xs) \<subseteq> insert (h (k, v)) (h ` set xs)"
proof (induction xs)
  case (Cons x xs)
  then show ?case by (cases x) auto
qed simp

lemma distinct_update_map:
  assumes "distinct (map h xs)" "h (k, v) \<notin> h ` set xs"
  shows "distinct (map h (AList.update k v xs))"
  using assms
proof (induction xs)
  case (Cons x xs)
  then show ?case using update_image [of h k v xs] by (cases x) auto
qed simp

lemma manage_ok:
  assumes ok: "sched_ok s" and n: "\<forall>k d. map_of (dongles s) k = Some d \<longrightarrow> d_canonical d = ''serial:'' @ k"
  shows "sched_ok (manage serial dflt slice s) \<and>
    (\<forall>k d. map_of (dongles (manage serial dflt slice s)) k = Some d \<longrightarrow> d_canonical d = ''serial:'' @ k)"
proof -
  let ?s = "manage serial dflt slice s" and ?d = "new_dongle serial (''serial:'' @ serial) dflt slice (next_uid s)"
  have d: "d_uid ?d = next_uid s" "d_canonical ?d = ''serial:'' @ serial" by (simp_all add: new_dongle_def)
  have f: "dongles ?s = AList.update serial ?d (dongles s)" "next_uid ?s = next_uid s + 1"
    "canonical_dongles ?s = AList.update (''serial:'' @ serial) serial (canonical_dongles s)"
    by (simp_all add: manage_def Let_def)
  have small: "d_uid e < next_uid s" if "(k, e) \<in> set (dongles s)" for k e
    using ok that map_of_is_SomeI [of "dongles s"] unfolding sched_ok_def by blast
  have canon: "c = ''serial:'' @ k" if "map_of (canonical_dongles s) c = Some k" for c k
  proof -
    have "map_option d_canonical (map_of (dongles s) k) = Some c" using ok that unfolding sched_ok_def by blast
    then show ?thesis using n by auto
  qed
  have "(\<lambda>(_, d). d_uid d) (serial, ?d) \<notin> (\<lambda>(_, d). d_uid d) ` set (dongles s)"
  proof
    assume "(\<lambda>(_, d). d_uid d) (serial, ?d) \<in> (\<lambda>(_, d). d_uid d) ` set (dongles s)"
    then obtain k e where "(k, e) \<in> set (dongles s)" "d_uid e = next_uid s" by (auto simp: new_dongle_def)
    then show False using small [of k e] by simp
  qed
  then have "distinct (map (\<lambda>(_, d). d_uid d) (dongles ?s))"
    using ok unfolding f by (intro distinct_update_map) (simp add: sched_ok_def)
  moreover have n': "\<forall>k d. map_of (dongles ?s) k = Some d \<longrightarrow> d_canonical d = ''serial:'' @ k"
    using n d by (simp add: f dict_simps)
  moreover have "map_of (canonical_dongles ?s) (d_canonical e) = Some k \<and> d_uid e < next_uid ?s \<and> dongle_ok e"
    if "map_of (dongles ?s) k = Some e" for k e
    using that ok d n fresh_dongle_ok [of serial "''serial:'' @ serial" dflt slice "next_uid s"]
    by (auto simp: f dict_simps sched_ok_def less_Suc_eq split: if_splits)
  moreover have "map_option d_canonical (map_of (dongles ?s) k) = Some c"
    if "map_of (canonical_dongles ?s) c = Some k" for c k
    using that ok d canon [of c k] by (auto simp: f dict_simps sched_ok_def split: if_splits)
  moreover have "dict_ok (dongles ?s)" using ok by (simp add: f sched_ok_def)
  ultimately show ?thesis unfolding sched_ok_def by blast
qed

lemma sys_ok_boot: "sys_ok (boot_sys managed override)"
proof -
  have "sched_ok (init_dongles ms s)"
    if "sched_ok s" "\<forall>k d. map_of (dongles s) k = Some d \<longrightarrow> d_canonical d = ''serial:'' @ k" for ms s
    using that
  proof (induction ms arbitrary: s)
    case (Cons m ms)
    show ?case using Cons.prems Cons.IH manage_ok [OF Cons.prems] by (cases m) simp
  qed simp
  moreover have "sched_ok (s\<lparr>dongles := [], canonical_dongles := []\<rparr>)" for s by (simp add: sched_ok_def)
  from this [of "\<lparr>dongles = [], canonical_dongles = [], registrations = [], managed_aliases = [], running = False,
    next_registration_id = 0, weather_override_lock = override, next_uid = 0\<rparr>"]
  have "sched_ok \<lparr>dongles = [], canonical_dongles = [], registrations = [], managed_aliases = [], running = False,
    next_registration_id = 0, weather_override_lock = override, next_uid = 0\<rparr>" by simp
  ultimately have "sched_ok (new_sdr managed override)" unfolding new_sdr_def by simp
  then show ?thesis by (simp add: boot_sys_def sys_ok_def pc_ok_def)
qed

subsection \<open>The guarantees\<close>

definition busy_slots :: "dongle \<Rightarrow> (caller \<times> signal_slot) list" where
  "busy_slots d = filter (\<lambda>(_, sl). is_active sl \<or> device_lease sl \<noteq> None) (slots d)"

lemma busy_is_holder:
  assumes "dongle_ok d" "(c, sl) \<in> set (busy_slots d)"
  shows "current_holder d = Some c \<and> is_active sl"
proof -
  have "map_of (slots d) c = Some sl"
    using assms by (auto simp: busy_slots_def dongle_ok_def intro: map_of_is_SomeI)
  from dongle_ok_keep [OF assms(1) this] show ?thesis
    using assms(2) by (auto simp: busy_slots_def)
qed

lemma busy_at_most_one:
  assumes "dongle_ok d"
  shows "length (busy_slots d) \<le> 1"
proof (rule ccontr)
  assume "\<not> length (busy_slots d) \<le> 1"
  then obtain x y xs where b: "busy_slots d = x # y # xs"
    by (cases "busy_slots d"; cases "tl (busy_slots d)") auto
  have "fst x = fst y"
    using busy_is_holder [OF assms, of "fst x" "snd x"] busy_is_holder [OF assms, of "fst y" "snd y"] b by simp
  moreover have "dict_ok (busy_slots d)" using assms unfolding busy_slots_def dongle_ok_def by blast
  ultimately show False using b by simp
qed

lemma sched_ok_each:
  assumes "sched_ok s" "(k, d) \<in> set (dongles s)"
  shows "dongle_ok d" "map_of (canonical_dongles s) (d_canonical d) = Some k"
proof -
  have "map_of (dongles s) k = Some d" using assms by (simp add: sched_ok_def map_of_is_SomeI)
  then show "dongle_ok d" "map_of (canonical_dongles s) (d_canonical d) = Some k"
    using assms(1) unfolding sched_ok_def by blast+
qed

lemma sched_ok_busy:
  assumes "sched_ok s"
  shows "list_all (\<lambda>(_, d). length (busy_slots d) \<le> 1 \<and>
      list_all (\<lambda>(c, sl). current_holder d = Some c \<and> is_active sl) (busy_slots d)) (dongles s)"
proof -
  have "length (busy_slots d) \<le> 1 \<and>
      list_all (\<lambda>(c, sl). current_holder d = Some c \<and> is_active sl) (busy_slots d)"
    if "(k, d) \<in> set (dongles s)" for k d
    using busy_at_most_one [OF sched_ok_each(1) [OF assms that]]
    by (auto simp: list_all_iff dest: busy_is_holder [OF sched_ok_each(1) [OF assms that]])
  then show ?thesis unfolding list_all_iff [of _ "dongles s"] by (auto simp only: split: prod.split)
qed

text \<open>C15. One decoder per dongle: whatever registrations, releases, locks, claims and callbacks interleave,
  at most one slot of a dongle is active or has a device lease, it is active, and its caller is the
  dongle's current holder.\<close>

theorem one_active_slot:
  "list_all (\<lambda>(_, d). length (busy_slots d) \<le> 1 \<and>
       list_all (\<lambda>(c, sl). current_holder d = Some c \<and> is_active sl) (busy_slots d))
     (dongles (sched (run ls (boot_sys managed override))))"
  by (rule sched_ok_busy) (use sys_ok_run [OF sys_ok_boot] in \<open>simp add: sys_ok_def\<close>)

text \<open>One arbiter per physical device: however often callers register under different names and the
  identities are reconciled, no two scheduler states stand for the same device identity, and
  looking the identity up finds its state.\<close>

theorem one_state_per_device:
  "distinct (map (\<lambda>(_, d). d_canonical d) (dongles (sched (run ls (boot_sys managed override))))) \<and>
   list_all (\<lambda>(k, d). map_of (canonical_dongles (sched (run ls (boot_sys managed override)))) (d_canonical d) = Some k)
     (dongles (sched (run ls (boot_sys managed override))))"
proof -
  have ok: "sched_ok (sched (run ls (boot_sys managed override)))" (is "sched_ok ?s")
    using sys_ok_run [OF sys_ok_boot] by (simp add: sys_ok_def)
  have c: "map_of (canonical_dongles ?s) (d_canonical d) = Some k" if "(k, d) \<in> set (dongles ?s)" for k d
    using ok map_of_is_SomeI [OF _ that] unfolding sched_ok_def by blast
  have "distinct (dongles ?s)" using ok by (simp add: sched_ok_def distinct_map)
  moreover have "inj_on (\<lambda>(_, d). d_canonical d) (set (dongles ?s))"
  proof (rule inj_onI, clarify)
    fix k d k' d' assume m: "(k, d) \<in> set (dongles ?s)" "(k', d') \<in> set (dongles ?s)" "d_canonical d = d_canonical d'"
    have "k = k'" using c [OF m(1)] c [OF m(2)] m(3) by simp
    then show "k = k' \<and> d = d'"
      using m ok eq_key_imp_eq_value [of "dongles ?s" k d d'] by (simp add: sched_ok_def)
  qed
  ultimately show ?thesis using c unfolding distinct_map list_all_iff by blast
qed

text \<open>Holders under steps that take no holder away.\<close>

lemma mild_keeps_holder:
  assumes "evolves mild s s'" "sched_ok s" "dongle_by uid s = Some d" "current_holder d = Some h"
  shows "map_option current_holder (dongle_by uid s') = Some (Some h)"
proof -
  have "onward mild (next_uid s) uid (dongle_by uid s) (dongle_by uid s')"
    using assms(1,2) by (simp add: evolves_def)
  then show ?thesis using assms(3,4) by (cases "dongle_by uid s'") (auto simp: onward_def mild_def)
qed

lemma mild_put: "dongle_by u s = Some d \<Longrightarrow> mild d d' \<Longrightarrow> evolves mild s (put_dongle u d' s)"
  by (rule evolves_put) simp_all

lemma evaluate_keeps_holder:
  assumes ok: "sched_ok s" and d: "dongle_by uid s = Some d" "current_holder d = Some h"
    and sl: "map_of (slots d) h = Some sl" "priority sl \<noteq> priority_scheduled"
  shows "map_option current_holder (dongle_by uid (fst (evaluate key wall mon now s))) = Some (Some h)"
proof (cases "map_of (dongles s) key")
  case None
  then show ?thesis using d by (simp add: evaluate_def)
next
  case (Some d0)
  let ?u = "d_uid d0"
  obtain d1 w where p: "pick_winner (expire_windows wall d0) wall mon = (d1, w)" by fastforce
  have md: "mild d0 d1"
    using mild_trans [OF mild_expire mild_pick_winner, of d0 wall wall mon] p by simp
  have u: "d_uid d1 = ?u" "current_holder d1 = current_holder d0" using md by (auto simp: mild_def tame_def)
  have by0: "dongle_by ?u s = Some d0" by (rule dongle_at_by [OF ok Some])
  let ?s = "put_dongle ?u d1 s"
  have e: "evolves mild s ?s" by (rule mild_put [OF by0 md])
  have by1: "dongle_by v ?s = (if v = ?u then Some d1 else dongle_by v s)" for v
    by (rule dongle_by_put [OF by0 u(1)])
  have keep: "map_option current_holder (dongle_by uid s') = Some (Some h)" if "evolves mild s s'" for s'
    by (rule mild_keeps_holder [OF that ok d])
  have acq: "map_option current_holder (dongle_by uid (fst (start_acquire ?u c now ?s))) = Some (Some h)" for c
    by (rule keep [OF evolves_mild_trans [OF e evolves_start_acquire]])
  have slot: "map_option priority (map_of (slots d1) k) = map_option priority (map_of (slots d0) k)" for k
    using pick_winner_fields(1) [of "expire_windows wall d0" wall mon] p
    by (simp add: expire_windows_def map_of_mapped option.map_comp comp_def)
  have yld: "map_option current_holder (dongle_by uid (put_dongle ?u d' ?s)) = Some (Some h)"
    if "yield_begin k b l z now d1 = (d', r)" "uid \<noteq> ?u" for k b l z d' r
    using dongle_by_put [of ?u ?s d1 d' uid] by1 yield_begin_uid(1) [OF that(1)] u that(2) d by simp
  have none: "uid \<noteq> ?u" if "current_holder d1 = Some k" "map_of (slots d1) k = Some sl'" "priority sl' = priority_scheduled" for k sl'
  proof
    assume "uid = ?u"
    then have "d = d0" using by0 d(1) by simp
    then have "map_option priority (map_of (slots d1) h) = Some (priority sl)" "k = h"
      using slot [of h] sl(1) that(1) u(2) d(2) by simp_all
    then show False using that(2,3) sl(2) by simp
  qed
  note k1 = keep [OF e]
  show ?thesis
    using Some p k1 acq
    by (auto simp: evaluate_def Let_def split: option.split prod.split dest: yld none)
qed

lemma start_acquire_frame:
  assumes "uid \<noteq> u"
  shows "dongle_by uid (fst (start_acquire u c now s)) = dongle_by uid s"
proof (cases "dongle_by u s")
  case (Some d)
  have "d_uid (fst (acquire_begin c now d)) = u"
    using mild_acquire_begin [of d c now] dongle_by_uid [OF Some] by (simp add: mild_def tame_def)
  then show ?thesis
    using assms dongle_by_put [OF Some] by (auto simp: start_acquire_def Some split: prod.split option.split)
qed (simp add: start_acquire_def)

lemma hand_over_frame:
  assumes "uid \<noteq> u"
  shows "dongle_by uid (fst (hand_over u w wall now s)) = dongle_by uid s"
proof (cases "dongle_by u s")
  case (Some d)
  have "dongle_by uid (put_dongle u d' s) = dongle_by uid s"
    if "yield_begin h b l z now d = (d', r)" for h b l z d' r
    using dongle_by_put [OF Some] yield_begin_uid(1) [OF that] dongle_by_uid [OF Some] assms by simp
  then show ?thesis
    using Some start_acquire_frame [OF assms]
    by (auto simp: hand_over_def Let_def split: option.split prod.split)
qed (simp add: hand_over_def)

text \<open>C16. A lock is respected: no step of the scheduler thread takes a dongle from the caller that locked it,
  unless a critical slot is registered on the dongle and may override locks, or the holder itself is
  a scheduled slot, which gives the dongle back when its window closes.\<close>

theorem locked_holder_keeps:
  assumes "y = run ls (boot_sys managed override)" "dongle_by uid (sched y) = Some d"
    "current_holder d = Some h" "locked_by d = Some h"
    and "map_of (slots d) h = Some sl" "priority sl \<noteq> priority_scheduled"
    and "\<not> weather_override_lock (sched y) \<or> list_all (\<lambda>(_, sl). priority sl \<noteq> priority_critical) (slots d)"
  shows "map_option current_holder (dongle_by uid (sched (thread_step l y))) = Some (Some h)"
proof -
  have sys: "sys_ok y" using assms(1) sys_ok_run [OF sys_ok_boot] by simp
  then have ok: "sched_ok (sched y)" and pk: "pc_ok (pc y) (sched y)" by (simp_all add: sys_ok_def)
  let ?P = "\<lambda>s. map_option current_holder (dongle_by uid s) = Some (Some h)"
  have keep: "?P s'" if "evolves mild (sched y) s'" for s'
    by (rule mild_keeps_holder [OF that ok assms(2,3)])
  have same: "?P (sched y)" using assms(2,3) by simp
  show ?thesis
  proof (cases "pc y")
    case Stopped
    then show ?thesis using same by (simp add: thread_step_def)
  next
    case (Scan ks)
    then show ?thesis
      using same evaluate_keeps_holder [OF ok assms(2,3,5,6)]
      by (cases ks; cases l) (simp_all add: thread_step_def enter_def)
  next
    case (Calling a le idx ks)
    then have f: "flight_ok (a_uid a) (a_generation a) (sched y)" using pk by (simp add: pc_ok_def)
    then have "uid \<noteq> a_uid a" using assms(2,3) by (auto simp: flight_ok_def)
    then have c: "?P (map_dongle (a_uid a) (commit a le idx n) (sched y))" for n
      using same by (simp add: dongle_by_map_dongle commit_fields)
    have r: "evolves mild (sched y) (map_dongle (a_uid a)
        (\<lambda>d. if relock_after d = Some (a_caller a) then d\<lparr>relock_after := None\<rparr> else d) (sched y))"
      by (rule evolves_mild_map) (simp add: mild_lock)
    have "?P (fst (acquire_called a le idx okay n (sched y)))" for okay n
      unfolding acquire_called_def
      using c keep [OF evolves_mild_trans [OF evolves_slot_fields(4) evolves_slot_fields(5)]]
        keep [OF evolves_discard] keep [OF evolves_mild_trans [OF evolves_slot_fields(3) evolves_discard]]
        keep [OF evolves_mild_trans [OF r evolves_discard]]
      by (simp split: option.split)
    then show ?thesis
      using Calling same by (cases l) (simp_all add: thread_step_def split: prod.split, metis fst_conv)
  next
    case (Busy_With act ks)
    show ?thesis
    proof (cases act)
      case Idle
      then show ?thesis using Busy_With same by (simp add: thread_step_def)
    next
      case (Claiming a)
      have "?P (fst (acquire_claimed a r n (sched y)))" for r n by (rule keep [OF evolves_acquire_claimed])
      then show ?thesis
        using Busy_With Claiming same
        by (cases l) (simp_all add: thread_step_def split: prod.split option.split, metis fst_conv)
    next
      case (Yielding j nx)
      have "evolves mild (sched y) (fst (after_yield nx mon n (sched y)))" for mon n
        unfolding after_yield_def
        using evolves_start_acquire evolves_mild_trans [OF mild_put evolves_start_acquire]
          mild_put mild_pick_background
        by (auto split: next_step.split option.split prod.split) (metis fst_conv)+
      then show ?thesis
        using Busy_With Yielding same keep by (cases l) (simp_all add: thread_step_def enter_def)
    next
      case (Probing p)
      have "?P (fst (fst (probed p r wall mon n freed (sched y))))" for r wall mon n freed
      proof -
        obtain s1 stop es where f: "preflight_finish p r wall mon n freed (sched y) = (s1, stop, es)"
          by (cases "preflight_finish p r wall mon n freed (sched y)") auto
        have e: "evolves mild (sched y) s1"
          using evolves_preflight_finish [of "sched y" p r wall mon n freed] f by simp
        show ?thesis
        proof (cases "stop \<or> \<not> p_can p")
          case True
          then show ?thesis using keep [OF e] by (simp add: probed_def f)
        next
          case False
          then have cur: "probe_current p wall mon (sched y)"
            using f by (auto simp: preflight_finish_def split: if_splits)
          have "uid \<noteq> p_uid p"
          proof
            assume u: "uid = p_uid p"
            obtain ws where w: "map_of (slots d) (p_caller p) = Some ws" "generation d = p_generation p"
              "current_holder d = p_holder p" "locked_by d = p_locked p"
              using cur u assms(2)
              by (auto simp: probe_current_def own_slot_def split: option.splits if_splits)
            have "can_preempt (weather_override_lock (sched y)) (d\<lparr>locked_by := p_locked p\<rparr>) h (p_caller p)"
              using pk Busy_With Probing False u assms(2,3) w by (auto simp: pc_ok_def action_ok_def probe_ok_def)
            then have "priority ws = priority_critical \<and> weather_override_lock (sched y)"
              using assms(4) w(1,4) by (simp add: can_preempt_def)
            then show False using assms(7) map_of_SomeD [OF w(1)] by (auto simp: list_all_iff)
          qed
          then show ?thesis
            using keep [OF e] False hand_over_frame by (simp add: probed_def f)
        qed
      qed
      then show ?thesis
        using Busy_With Probing same
        by (cases l) (simp_all add: thread_step_def enter_def split: prod.split, metis fst_conv)
    qed
  qed
qed






definition demo_reg :: "string \<Rightarrow> caller \<Rightarrow> int \<Rightarrow> registration" where
  "demo_reg serial c prio = \<lparr>r_serial = serial, r_caller = c, r_priority = prio, r_label = c, r_windows = [],
     r_continuous = True, r_selector = Serial, r_canonical = '''', r_key = ''''\<rparr>"

definition demo_start :: "label list" where
  "demo_start = [Api (Register (demo_reg ''1'' ''fm'' 2) (Some ''serial:1'') 0), Api Start, Turn 1 1 1, Turn 1 1 1,
     Answer (Leased 7 0 ''serial:1'') 2 2 2 True]"





definition demo_locked :: "label list" where
  "demo_locked = demo_start @ [Called True 3, Api (Lock ''1'' ''fm''),
     Api (Register (demo_reg ''1'' ''wx'' 0) (Some ''serial:1'') 4), Turn 4 4 4]"

lemma demo_locked_state:
  "map_option (\<lambda>d. (current_holder d, locked_by d, map_option priority (map_of (slots d) ''fm'')))
     (dongle_by 0 (sched (run demo_locked (boot_sys [] False)))) = Some (Some ''fm'', Some ''fm'', Some 2)"
  "weather_override_lock (sched (run demo_locked (boot_sys [] False))) = False"
  by code_simp+

theorem locked_holder_keeps_witness:
  "map_option current_holder (dongle_by 0 (sched (thread_step (Turn 5 5 5) (run demo_locked (boot_sys [] False))))) =
     Some (Some ''fm'')"
proof -
  obtain d sl where d: "dongle_by 0 (sched (run demo_locked (boot_sys [] False))) = Some d"
    "current_holder d = Some ''fm''" "locked_by d = Some ''fm''" "map_of (slots d) ''fm'' = Some sl" "priority sl = 2"
    using demo_locked_state(1) by auto
  show ?thesis
    by (rule locked_holder_keeps [OF refl d(1-4)]) (simp_all add: d(5) priority_scheduled_def demo_locked_state(2))
qed

end
