(* ===== verification/Sdr_Rotation.thy ===== *)
theory Sdr_Rotation
  imports Sdr_Handoff
begin

text \<open>
  Fairness of the background rotation of \<open>sdr_scheduler.py\<close>: the choice at the end of a slice, followed
  by the grant, visits every background slot that is not suspended.
\<close>












end
