(* ===== verification/Sdr_Races.thy ===== *)
theory Sdr_Races
  imports Sdr_Machine
begin

text \<open>
  Runs of the SDR scheduler in which it loses track of a granted device: registering an active caller
  again, and a grant that completes while \<open>unregister\<close> waits for the yield callback.
\<close>

definition fm_reg :: registration where
  "fm_reg = \<lparr>r_serial = ''1'', r_caller = ''fm'', r_priority = 2, r_label = ''fm'', r_windows = [],
     r_continuous = True, r_selector = Serial, r_canonical = [], r_key = []\<rparr>"

definition fm_granted :: "label list" where
  "fm_granted = [Api (Register fm_reg (Some ''serial:1'') 0), Api Start, Turn 1 1 1, Turn 1 1 1,
     Answer (Leased 7 0 ''serial:1'') 2 2 2 True, Called True 3]"

text \<open>Registered again, the caller still holds the dongle but its slot is inactive and has no lease;
  unregistered after that, the slot is gone, the holder stays, and neither the yield callback nor
  the release of lease 7 has happened.\<close>

theorem reregistered_holder_leaks:
  "trace (run (fm_granted @ [Api (Register fm_reg (Some ''serial:1'') 4), Api (Unregister ''1'' ''fm'' 5)])
     (boot_sys [] True)) = [Acquire_Cb 1 ''1'' 0, Event_Granted ''1'' ''fm'' 2]"
  "map (\<lambda>(_, d). (current_holder d, map fst (slots d))) (dongles (sched (run (fm_granted @
     [Api (Register fm_reg (Some ''serial:1'') 4), Api (Unregister ''1'' ''fm'' 5)]) (boot_sys [] True)))) =
     [(Some ''fm'', [])]"
  by code_simp+

text \<open>While \<open>unregister\<close> waits, the caller is still registered, so the scheduler thread grants it the
  dongle again; lease 8 is then never released.\<close>

theorem unregister_race_leaks:
  "map (\<lambda>(_, d). (current_holder d, map fst (slots d))) (dongles (sched (run (fm_granted @
     [Api (Unregister ''1'' ''fm'' 4), Turn 5 5 5, Turn 5 5 5, Answer (Leased 8 0 ''serial:1'') 6 6 6 True,
      Called True 7, Continue 0 8]) (boot_sys [] True)))) = [(Some ''fm'', [])]"
  by code_simp

text \<open>\<open>add_dongle\<close> of a serial whose device is already managed under another name makes a second state.\<close>

theorem add_dongle_duplicates:
  "map (\<lambda>(k, d). (k, d_canonical d)) (dongles (add_dongle ''X'' [] 120
     (fst (ensure_dongle ''0'' ''serial:X'' (new_sdr [] True))))) =
     [(''0'', ''serial:X''), (''X'', ''serial:X'')]"
  by code_simp

end
