(* ===== verification/Rtl_Inventory.thy ===== *)
theory Rtl_Inventory
  imports Sdr_State
begin

text \<open>
  \<open>rtlsdr.py\<close>, first part: the listing that \<open>rtl_test\<close> prints, its cache, and the resolution of a
  configured device to an index and a canonical identity.  Device text is of single-byte characters, as
  in theory \<open>Py_Text\<close>; the tool's output is an argument.
\<close>

type_synonym device = "int \<times> string"

record resolved =
  r_index :: int
  r_ident :: string

datatype rtl_error =
    Not_Found
  | Device_Busy string caller resolved
  | Stale_Lease
  | Foreign_Lease
  | Selection_Taken

subsection \<open>The listing\<close>

definition is_digit :: "char \<Rightarrow> bool" where
  "is_digit c = (digit_value c \<noteq> None)"

definition begins :: "string \<Rightarrow> string \<Rightarrow> bool" where
  "begins p s = (take (length p) s = p)"

text \<open>What follows the last \<open>SN:\<close> that has a word after it: the greedy part of \<open>_DEVICE_RE\<close>.\<close>

fun last_serial :: "string \<Rightarrow> string option" where
  "last_serial [] = None"
| "last_serial (c # s) =
     (case last_serial s of
        Some w \<Rightarrow> Some w
      | None \<Rightarrow>
          if begins ''SN:'' (c # s) then
            (case takeWhile (\<lambda>x. \<not> py_space x) (dropWhile py_space (drop 3 (c # s))) of
               [] \<Rightarrow> None | w \<Rightarrow> Some w)
          else None)"

definition device_re :: "string \<Rightarrow> device option" where
  "device_re line =
     (let s = dropWhile py_space line; ds = takeWhile is_digit s; r = dropWhile is_digit s
      in if ds = [] \<or> \<not> begins '':'' r then None
         else case drop 1 r of
                [] \<Rightarrow> None
              | c # r' \<Rightarrow>
                  if py_space c then map_option (\<lambda>w. (int (dec_value ds), w)) (last_serial r') else None)"

definition found_re :: "string \<Rightarrow> int option" where
  "found_re line =
     (if \<not> begins ''Found'' line then None
      else let r = drop 5 line; s = dropWhile py_space r; ds = takeWhile is_digit s; t = dropWhile is_digit s
           in if s = r \<or> ds = [] \<or> dropWhile py_space t = t \<or> \<not> begins ''device'' (dropWhile py_space t)
              then None else Some (int (dec_value ds)))"

definition rstrip :: "string \<Rightarrow> string" where
  "rstrip s = rev (dropWhile py_space (rev s))"

fun read_listing :: "string list \<Rightarrow> int \<Rightarrow> device list \<Rightarrow> device list" where
  "read_listing [] expected devices = devices"
| "read_listing (raw # lines) expected devices =
     (let line = rstrip raw in
      case (if expected < 0 then found_re line else None) of
        Some n \<Rightarrow> read_listing lines n devices
      | None \<Rightarrow>
          (case device_re line of
             Some d \<Rightarrow>
               (let devices' = devices @ [d]
                in if 0 < expected \<and> expected \<le> int (length devices') then devices'
                   else read_listing lines expected devices')
           | None \<Rightarrow>
               if 0 \<le> expected \<and> line = [] then devices else read_listing lines expected devices))"

definition run_rtl_test :: "string list \<Rightarrow> device list" where
  "run_rtl_test output = read_listing output (-1) []"

subsection \<open>The cache\<close>

record inventory =
  cache :: "device list option"
  cache_time :: time

datatype rtl_tool = No_Tool | Tool_Fails | Tool_Prints "string list"

definition cache_ttl :: real where "cache_ttl = 300"

text \<open>The two clock readings: the age check, and the time stored after the tool has run.\<close>

definition enumerate_devices :: "bool \<Rightarrow> time \<Rightarrow> rtl_tool \<Rightarrow> time \<Rightarrow> inventory \<Rightarrow> inventory \<times> device list" where
  "enumerate_devices force_refresh now tool after iv =
     (case (if force_refresh then None else cache iv) of
        Some ds \<Rightarrow>
          if now - cache_time iv < cache_ttl then (iv, ds)
          else (let ds' = (case tool of Tool_Prints out \<Rightarrow> run_rtl_test out | _ \<Rightarrow> [])
                in (iv\<lparr>cache := Some ds', cache_time := after\<rparr>, ds'))
      | None \<Rightarrow>
          (let ds' = (case tool of Tool_Prints out \<Rightarrow> run_rtl_test out | _ \<Rightarrow> [])
           in (iv\<lparr>cache := Some ds', cache_time := after\<rparr>, ds')))"

definition invalidate_cache :: "inventory \<Rightarrow> inventory" where
  "invalidate_cache iv = iv\<lparr>cache := None, cache_time := 0\<rparr>"

subsection \<open>Resolution\<close>

definition serial_ident :: "string \<Rightarrow> string" where "serial_ident s = ''serial:'' @ s"
definition index_ident :: "int \<Rightarrow> string" where "index_ident i = ''index:'' @ show_int i"

definition by_serial :: "string \<Rightarrow> device list \<Rightarrow> device option" where
  "by_serial configured ds = List.find (\<lambda>(_, s). s = configured) ds"

definition serial_at :: "int \<Rightarrow> device list \<Rightarrow> string option" where
  "serial_at i ds = map_option snd (List.find (\<lambda>(j, _). j = i) ds)"

definition resolve_index :: "int \<Rightarrow> device list \<Rightarrow> resolved" where
  "resolve_index i ds =
     \<lparr>r_index = i, r_ident = (case serial_at i ds of
        Some s \<Rightarrow> if s = '''' then index_ident i else serial_ident s | None \<Rightarrow> index_ident i)\<rparr>"

definition resolve_device_snapshot :: "string \<Rightarrow> selector \<Rightarrow> device list \<Rightarrow> rtl_error + resolved" where
  "resolve_device_snapshot configured sel ds =
     (case (if sel = Index then None else by_serial configured ds) of
        Some (i, s) \<Rightarrow> Inr \<lparr>r_index = i, r_ident = serial_ident s\<rparr>
      | None \<Rightarrow>
          if sel = Serial then Inl Not_Found
          else case py_int configured of
                 None \<Rightarrow> Inl Not_Found
               | Some i \<Rightarrow>
                   if 0 \<le> i \<and> (sel = Index \<or> configured \<notin> snd ` set ds)
                      \<and> (sel = Index \<or> length configured \<noteq> 8 \<or> ds = [])
                   then Inr (resolve_index i ds) else Inl Not_Found)"

text \<open>\<open>configured_device\<close>: a non-empty serial takes precedence; an index stays an index.\<close>

definition configured_device :: "string option \<Rightarrow> string option \<Rightarrow> string \<Rightarrow> string \<times> selector" where
  "configured_device serial_value index_value default_index =
     (case serial_value of
        Some (c # s) \<Rightarrow> (c # s, Serial)
      | _ \<Rightarrow> (case index_value of Some i \<Rightarrow> i | None \<Rightarrow> default_index, Index))"

subsection \<open>What a snapshot decides\<close>

lemma ident_simps [simp]:
  "serial_ident s = serial_ident t \<longleftrightarrow> s = t" "index_ident i \<noteq> serial_ident s"
  "serial_ident s \<noteq> index_ident i"
  by (simp_all add: serial_ident_def index_ident_def)

lemma show_int_inj: "0 \<le> i \<Longrightarrow> 0 \<le> j \<Longrightarrow> show_int i = show_int j \<longleftrightarrow> i = j"
  by (simp add: show_int_def nat_eq_iff)

lemma index_ident_inj: "0 \<le> i \<Longrightarrow> 0 \<le> j \<Longrightarrow> index_ident i = index_ident j \<longleftrightarrow> i = j"
  by (simp add: index_ident_def show_int_inj)

text \<open>A listing as the driver gives it: each index once, each serial once, no empty serial.\<close>

definition listing_ok :: "device list \<Rightarrow> bool" where
  "listing_ok ds = (distinct (map fst ds) \<and> distinct (map snd ds) \<and> (\<forall>d\<in>set ds. 0 \<le> fst d \<and> snd d \<noteq> ''''))"

text \<open>The identity of the device at an index.\<close>

definition ident_at :: "int \<Rightarrow> device list \<Rightarrow> string" where
  "ident_at i ds = r_ident (resolve_index i ds)"

lemma serial_at_member: "serial_at i ds = Some s \<Longrightarrow> (i, s) \<in> set ds"
  by (auto simp: serial_at_def find_Some_iff in_set_conv_nth)

lemma serial_at_eq: "distinct (map fst ds) \<Longrightarrow> (i, s) \<in> set ds \<Longrightarrow> serial_at i ds = Some s"
  by (induction ds) (auto simp: serial_at_def rev_image_eqI)

lemma ident_at_inj:
  assumes "listing_ok ds" "0 \<le> i" "0 \<le> j"
  shows "ident_at i ds = ident_at j ds \<longleftrightarrow> i = j"
proof -
  have u: "a = b" if "serial_at a ds = Some s" "serial_at b ds = Some s" for a b s
  proof -
    have "(a, s) \<in> set ds" "(b, s) \<in> set ds" using that by (auto dest: serial_at_member)
    then show ?thesis
      using assms(1) unfolding listing_ok_def distinct_map inj_on_def by fastforce
  qed
  have "s \<noteq> ''''" if "serial_at a ds = Some s" for a s
    using serial_at_member [OF that] assms(1) by (fastforce simp: listing_ok_def)
  then show ?thesis
    using assms u by (auto simp: ident_at_def resolve_index_def index_ident_inj split: option.splits)
qed

lemma resolved_ident:
  assumes "listing_ok ds" "resolve_device_snapshot c sel ds = Inr r"
  shows "0 \<le> r_index r \<and> r_ident r = ident_at (r_index r) ds"
proof (cases "if sel = Index then None else by_serial c ds")
  case None
  then show ?thesis
    using assms(2) by (auto simp: resolve_device_snapshot_def ident_at_def resolve_index_def
        split: option.splits if_splits)
next
  case (Some d)
  obtain i s where d: "d = (i, s)" by (cases d)
  have m: "(i, s) \<in> set ds"
    using Some d by (auto simp: by_serial_def find_Some_iff in_set_conv_nth split: if_splits)
  moreover have "serial_at i ds = Some s" "s \<noteq> ''''" "0 \<le> i"
    using assms(1) m by (auto simp: listing_ok_def intro: serial_at_eq)
  ultimately show ?thesis
    using assms(2) Some d by (auto simp: resolve_device_snapshot_def ident_at_def resolve_index_def)
qed

end
