(* ===== verification/Rtl_Claims.thy ===== *)
theory Rtl_Claims
  imports Rtl_Inventory
begin

text \<open>
  \<open>rtlsdr.py\<close>, second part: the process-wide registry of claimed devices and the leases it hands
  out.  One definition is one section under \<open>_claim_lock\<close>; the enumeration that precedes a claim is the
  argument \<open>ds\<close>.  A lease is a value: its claim number is what \<open>release\<close> goes by.
\<close>

type_synonym selection = "caller \<times> selector \<times> string"

record claim_record =
  cr_caller :: caller
  cr_selector :: selector
  cr_configured :: string
  cr_ident :: string
  cr_index :: int

record registry =
  claimed :: "(nat, claim_record) pydict"
  selections :: "(selection, nat) pydict"
  next_claim_id :: nat

record lease =
  l_configured :: string
  l_ident :: string
  l_index :: int
  l_caller :: caller
  l_selector :: selector
  l_claim :: nat

definition no_claims :: registry where
  "no_claims = \<lparr>claimed = [], selections = [], next_claim_id = 0\<rparr>"

definition cr_selection :: "claim_record \<Rightarrow> selection" where
  "cr_selection r = (cr_caller r, cr_selector r, cr_configured r)"

definition collides :: "resolved \<Rightarrow> claim_record \<Rightarrow> bool" where
  "collides res r = (cr_ident r = r_ident res \<or> cr_index r = r_index res)"

subsection \<open>Sections under the lock\<close>

definition pop_claim :: "nat \<Rightarrow> registry \<Rightarrow> registry" where
  "pop_claim i g =
     (case map_of (claimed g) i of
        None \<Rightarrow> g
      | Some r \<Rightarrow>
          g\<lparr>claimed := AList.delete i (claimed g),
            selections := (if map_of (selections g) (cr_selection r) = Some i
                           then AList.delete (cr_selection r) (selections g) else selections g)\<rparr>)"

primrec pop_claims :: "nat list \<Rightarrow> registry \<Rightarrow> registry" where
  "pop_claims [] g = g"
| "pop_claims (i # is) g = pop_claims is (pop_claim i g)"

text \<open>The caller's own claim of this selection; an entry without its claim is dropped.\<close>

definition own_claim :: "selection \<Rightarrow> registry \<Rightarrow> registry \<times> nat option" where
  "own_claim sel g =
     (case map_of (selections g) sel of
        None \<Rightarrow> (g, None)
      | Some i \<Rightarrow>
          if map_of (claimed g) i = None then (g\<lparr>selections := AList.delete sel (selections g)\<rparr>, None)
          else (g, Some i))"

definition check_replacement :: "nat option \<Rightarrow> caller \<Rightarrow> nat option \<Rightarrow> registry \<Rightarrow> rtl_error option" where
  "check_replacement replace c own g =
     (case replace of
        None \<Rightarrow> None
      | Some i \<Rightarrow>
          (case map_of (claimed g) i of
             None \<Rightarrow> Some Stale_Lease
           | Some r \<Rightarrow>
               if cr_caller r \<noteq> c then Some Foreign_Lease
               else if own \<noteq> None \<and> own \<noteq> Some i then Some Selection_Taken else None))"

definition replaced_ids :: "nat option \<Rightarrow> nat option \<Rightarrow> nat list" where
  "replaced_ids own replace =
     (if own = replace then list_of_option own else list_of_option own @ list_of_option replace)"

definition first_conflict :: "resolved \<Rightarrow> nat list \<Rightarrow> registry \<Rightarrow> claim_record option" where
  "first_conflict res out g =
     map_option snd (List.find (\<lambda>(i, r). i \<notin> set out \<and> collides res r) (claimed g))"

definition claim_resolved ::
  "resolved \<Rightarrow> string \<Rightarrow> caller \<Rightarrow> selector \<Rightarrow> nat option \<Rightarrow> registry \<Rightarrow> registry \<times> (rtl_error + nat option)" where
  "claim_resolved res configured c sel replace g0 =
     (if c = '''' then (g0, Inr None)
      else case own_claim (c, sel, configured) g0 of
        (g, own) \<Rightarrow>
          (case check_replacement replace c own g of
             Some e \<Rightarrow> (g, Inl e)
           | None \<Rightarrow>
               let out = replaced_ids own replace in
               (case first_conflict res out g of
                  Some r \<Rightarrow> (g, Inl (Device_Busy configured (cr_caller r) res))
                | None \<Rightarrow>
                    let i = Suc (next_claim_id g);
                        r = \<lparr>cr_caller = c, cr_selector = sel, cr_configured = configured,
                             cr_ident = r_ident res, cr_index = r_index res\<rparr>;
                        g' = g\<lparr>claimed := AList.update i r (claimed g),
                               selections := AList.update (c, sel, configured) i (selections g),
                               next_claim_id := i\<rparr>
                    in (pop_claims out g', Inr (Some i)))))"

definition release_claim_id :: "nat \<Rightarrow> caller \<Rightarrow> registry \<Rightarrow> registry" where
  "release_claim_id i c g =
     (case map_of (claimed g) i of
        None \<Rightarrow> g
      | Some r \<Rightarrow> if c = '''' \<or> cr_caller r = c then pop_claim i g else g)"

subsection \<open>The interface\<close>

definition granted_lease :: "resolved \<Rightarrow> string \<Rightarrow> caller \<Rightarrow> selector \<Rightarrow> nat option \<Rightarrow> lease" where
  "granted_lease res configured c sel i =
     \<lparr>l_configured = configured, l_ident = r_ident res, l_index = r_index res, l_caller = c,
      l_selector = sel, l_claim = (case i of Some n \<Rightarrow> n | None \<Rightarrow> 0)\<rparr>"

definition refresh_device_lease ::
  "device list \<Rightarrow> lease option \<Rightarrow> string \<Rightarrow> caller \<Rightarrow> selector \<Rightarrow> registry \<Rightarrow> registry \<times> (rtl_error + lease)" where
  "refresh_device_lease ds old configured c sel g =
     (case resolve_device_snapshot configured sel ds of
        Inl e \<Rightarrow> (g, Inl e)
      | Inr res \<Rightarrow>
          (case claim_resolved res configured c sel
                  (case old of Some l \<Rightarrow> if l_claim l \<noteq> 0 then Some (l_claim l) else None | None \<Rightarrow> None) g of
             (g', Inl e) \<Rightarrow> (g', Inl e)
           | (g', Inr i) \<Rightarrow> (g', Inr (granted_lease res configured c sel i))))"

definition claim_device ::
  "device list \<Rightarrow> string \<Rightarrow> caller \<Rightarrow> selector \<Rightarrow> registry \<Rightarrow> registry \<times> (rtl_error + lease)" where
  "claim_device ds configured c sel g =
     (case resolve_device_snapshot configured sel ds of
        Inl e \<Rightarrow> (g, Inl e)
      | Inr res \<Rightarrow>
          (case claim_resolved res configured c sel None g of
             (g', Inl e) \<Rightarrow> (g', Inl e)
           | (g', Inr i) \<Rightarrow> (g', Inr (granted_lease res configured c sel i))))"

definition resolve_device ::
  "device list \<Rightarrow> string \<Rightarrow> caller \<Rightarrow> selector \<Rightarrow> registry \<Rightarrow> registry \<times> (rtl_error + int)" where
  "resolve_device ds configured c sel g =
     (case resolve_device_snapshot configured sel ds of
        Inl e \<Rightarrow> (g, Inl e)
      | Inr res \<Rightarrow>
          (case claim_resolved res configured c sel None g of
             (g', Inl e) \<Rightarrow> (g', Inl e) | (g', Inr _) \<Rightarrow> (g', Inr (r_index res))))"

definition release_legacy :: "lease \<Rightarrow> registry \<Rightarrow> registry" where
  "release_legacy l g =
     (case map_of (selections g) (l_caller l, l_selector l, l_configured l) of
        None \<Rightarrow> g
      | Some i \<Rightarrow>
          (case map_of (claimed g) i of
             None \<Rightarrow> g
           | Some r \<Rightarrow>
               if cr_ident r = l_ident l \<and> cr_index r = l_index l then pop_claim i g else g))"

definition lease_release :: "lease \<Rightarrow> registry \<Rightarrow> registry" where
  "lease_release l g =
     (if l_claim l \<noteq> 0 then release_claim_id (l_claim l) (l_caller l) g else release_legacy l g)"

definition force_release_resolved :: "resolved \<Rightarrow> registry \<Rightarrow> registry" where
  "force_release_resolved res g =
     pop_claims (map fst (filter (\<lambda>(_, r). collides res r) (claimed g))) g"

definition selection_claims :: "string \<Rightarrow> caller \<Rightarrow> selector \<Rightarrow> registry \<Rightarrow> nat list" where
  "selection_claims configured c sel g =
     (if c \<noteq> '''' then list_of_option (map_of (selections g) (c, sel, configured))
      else map snd (filter (\<lambda>((_, s, n), _). s = sel \<and> n = configured) (selections g)))"

primrec release_ids :: "nat list \<Rightarrow> caller \<Rightarrow> registry \<Rightarrow> registry" where
  "release_ids [] c g = g"
| "release_ids (i # is) c g = release_ids is c (release_claim_id i c g)"

text \<open>Without a caller and a recorded selection the device is resolved anew, \<open>ds\<close> being the listing.\<close>

definition release_device :: "device list \<Rightarrow> string \<Rightarrow> caller \<Rightarrow> selector \<Rightarrow> registry \<Rightarrow> registry" where
  "release_device ds configured c sel g =
     (if selection_claims configured c sel g \<noteq> [] then
        release_ids (selection_claims configured c sel g) c g
      else if c \<noteq> '''' then g
      else case resolve_device_snapshot configured sel ds of
             Inr res \<Rightarrow> force_release_resolved res g
           | Inl _ \<Rightarrow>
               if sel = Index then
                 (case py_int configured of
                    None \<Rightarrow> g
                  | Some i \<Rightarrow> force_release_resolved \<lparr>r_index = i, r_ident = index_ident i\<rparr> g)
               else g)"

definition cleanup_claims :: "registry \<Rightarrow> registry" where
  "cleanup_claims g = g\<lparr>claimed := [], selections := []\<rparr>"

definition lease_metrics :: "registry \<Rightarrow> nat" where
  "lease_metrics g = length (claimed g)"

subsection \<open>The registry keeps its two dictionaries inverse to each other\<close>

definition registry_ok :: "registry \<Rightarrow> bool" where
  "registry_ok g \<longleftrightarrow> dict_ok (claimed g) \<and> dict_ok (selections g) \<and>
     (\<forall>i r. map_of (claimed g) i = Some r \<longrightarrow>
        0 < i \<and> i \<le> next_claim_id g \<and> map_of (selections g) (cr_selection r) = Some i) \<and>
     (\<forall>s i. map_of (selections g) s = Some i \<longrightarrow>
        (\<exists>r. map_of (claimed g) i = Some r \<and> cr_selection r = s)) \<and>
     (\<forall>i j r q. map_of (claimed g) i = Some r \<longrightarrow> map_of (claimed g) j = Some q \<longrightarrow> i \<noteq> j \<longrightarrow>
        cr_ident r \<noteq> cr_ident q \<and> cr_index r \<noteq> cr_index q)"

lemma registry_okD:
  assumes "registry_ok g"
  shows "dict_ok (claimed g)" "dict_ok (selections g)"
    and "map_of (claimed g) i = Some r \<Longrightarrow> 0 < i \<and> i \<le> next_claim_id g"
    and "map_of (claimed g) i = Some r \<Longrightarrow> map_of (selections g) (cr_selection r) = Some i"
    and "map_of (selections g) s = Some i \<Longrightarrow> \<exists>r. map_of (claimed g) i = Some r \<and> cr_selection r = s"
    and "map_of (claimed g) i = Some r \<Longrightarrow> map_of (claimed g) j = Some q \<Longrightarrow> i \<noteq> j \<Longrightarrow>
      cr_ident r \<noteq> cr_ident q \<and> cr_index r \<noteq> cr_index q"
  using assms unfolding registry_ok_def by blast+

lemma no_claims_ok [simp]: "registry_ok no_claims"
  by (simp add: registry_ok_def no_claims_def)

lemma pop_claim_claimed: "map_of (claimed (pop_claim i g)) j = (if j = i then None else map_of (claimed g) j)"
  by (simp add: pop_claim_def dict_simps split: option.splits)

lemma pop_claim_next [simp]: "next_claim_id (pop_claim i g) = next_claim_id g"
  by (simp add: pop_claim_def split: option.splits)

definition indexed :: "registry \<Rightarrow> bool" where
  "indexed g \<longleftrightarrow> (\<forall>s i. map_of (selections g) s = Some i \<longrightarrow>
     (\<exists>r. map_of (claimed g) i = Some r \<and> cr_selection r = s))"

lemma registry_ok_indexed [simp]: "registry_ok g \<Longrightarrow> indexed g"
  unfolding registry_ok_def indexed_def by blast

lemma indexedD:
  "indexed g \<Longrightarrow> map_of (selections g) s = Some i \<Longrightarrow> \<exists>r. map_of (claimed g) i = Some r \<and> cr_selection r = s"
  unfolding indexed_def by blast

lemma pop_claim_selections:
  assumes "indexed g"
  shows "map_of (selections (pop_claim i g)) s = (if map_of (selections g) s = Some i then None else map_of (selections g) s)"
proof (cases "map_of (claimed g) i")
  case None
  have "map_of (selections g) s \<noteq> Some i" using indexedD [OF assms, of s i] None by auto
  then show ?thesis using None by (simp add: pop_claim_def)
next
  case (Some r)
  show ?thesis
  proof (cases "map_of (selections g) s = Some i")
    case True
    then have "s = cr_selection r" using indexedD [OF assms, of s i] Some by auto
    then show ?thesis using True Some unfolding pop_claim_def by (simp add: dict_simps)
  next
    case False
    then have "s \<noteq> cr_selection r \<or> map_of (selections g) (cr_selection r) \<noteq> Some i" by blast
    then show ?thesis using False Some unfolding pop_claim_def by (auto simp: dict_simps)
  qed
qed

lemma pop_claim_indexed [intro, simp]:
  assumes "indexed g"
  shows "indexed (pop_claim i g)"
  unfolding indexed_def
proof (intro allI impI)
  fix s j assume "map_of (selections (pop_claim i g)) s = Some j"
  then have "map_of (selections g) s = Some j" "j \<noteq> i"
    by (auto simp: pop_claim_selections [OF assms] split: if_splits)
  then show "\<exists>r. map_of (claimed (pop_claim i g)) j = Some r \<and> cr_selection r = s"
    using indexedD [OF assms] by (simp add: pop_claim_claimed)
qed

lemma pop_claim_dicts [intro, simp]:
  "dict_ok (claimed g) \<Longrightarrow> dict_ok (claimed (pop_claim i g))"
  "dict_ok (selections g) \<Longrightarrow> dict_ok (selections (pop_claim i g))"
  by (simp_all add: pop_claim_def split: option.splits)

lemma pop_claim_ok [intro, simp]:
  assumes "registry_ok g"
  shows "registry_ok (pop_claim i g)"
proof -
  note d = registry_okD [OF assms]
  have k: "dict_ok (claimed (pop_claim i g))" "dict_ok (selections (pop_claim i g))"
    using d(1,2) by simp_all
  have s: "map_of (selections (pop_claim i g)) s = Some j \<longleftrightarrow> j \<noteq> i \<and> map_of (selections g) s = Some j" for s j
    by (auto simp: pop_claim_selections assms)
  have c: "map_of (claimed (pop_claim i g)) j = Some r \<longleftrightarrow> j \<noteq> i \<and> map_of (claimed g) j = Some r" for j r
    by (simp add: pop_claim_claimed)
  show ?thesis
    unfolding registry_ok_def s c pop_claim_next using k d(3-6) by blast
qed

lemma pop_claims_ok [intro, simp]: "registry_ok g \<Longrightarrow> registry_ok (pop_claims is g)"
  by (induction "is" arbitrary: g) simp_all

lemma pop_claims_dicts [intro, simp]:
  "dict_ok (claimed g) \<Longrightarrow> dict_ok (claimed (pop_claims is g))"
  "dict_ok (selections g) \<Longrightarrow> dict_ok (selections (pop_claims is g))"
  by (induction "is" arbitrary: g) simp_all

lemma pop_claims_next [simp]: "next_claim_id (pop_claims is g) = next_claim_id g"
  by (induction "is" arbitrary: g) simp_all

lemma pop_claims_claimed:
  "map_of (claimed (pop_claims is g)) j = (if j \<in> set is then None else map_of (claimed g) j)"
  by (induction "is" arbitrary: g) (simp_all add: pop_claim_claimed)

lemma pop_claims_selections:
  "indexed g \<Longrightarrow> map_of (selections (pop_claims is g)) s = Some j \<longleftrightarrow>
     j \<notin> set is \<and> map_of (selections g) s = Some j"
  by (induction "is" arbitrary: g) (auto simp: pop_claim_selections)

subsection \<open>What a claim does\<close>

lemma own_claim_eq: "registry_ok g \<Longrightarrow> own_claim s g = (g, map_of (selections g) s)"
  by (auto simp: own_claim_def registry_okD(5) split: option.splits dest: registry_okD(5))

lemma set_replaced_ids: "i \<in> set (replaced_ids own replace) \<longleftrightarrow> own = Some i \<or> replace = Some i"
  by (auto simp: replaced_ids_def)

lemma first_conflict_None:
  assumes "dict_ok (claimed g)"
  shows "first_conflict res out g = None \<longleftrightarrow>
    (\<forall>i r. map_of (claimed g) i = Some r \<longrightarrow> i \<in> set out \<or> \<not> collides res r)"
proof -
  have "(\<exists>x\<in>set (claimed g). case x of (i, r) \<Rightarrow> i \<notin> set out \<and> collides res r) \<longleftrightarrow>
      (\<exists>i r. map_of (claimed g) i = Some r \<and> i \<notin> set out \<and> collides res r)"
    using assms by (auto simp: map_of_eq_Some_iff)
  then show ?thesis by (auto simp: first_conflict_def find_None_iff2 find_None_iff)
qed

lemma first_conflict_Some:
  assumes "dict_ok (claimed g)" "first_conflict res out g = Some r"
  obtains i where "map_of (claimed g) i = Some r" "i \<notin> set out" "collides res r"
proof -
  obtain i where "(i, r) \<in> set (claimed g)" "i \<notin> set out" "collides res r"
    using assms(2) by (auto simp: first_conflict_def find_Some_iff) (metis nth_mem)
  then show ?thesis using assms(1) that by (simp add: map_of_eq_Some_iff)
qed

definition new_record :: "resolved \<Rightarrow> string \<Rightarrow> caller \<Rightarrow> selector \<Rightarrow> claim_record" where
  "new_record res configured c sel =
     \<lparr>cr_caller = c, cr_selector = sel, cr_configured = configured, cr_ident = r_ident res,
      cr_index = r_index res\<rparr>"

lemma new_record_simps [simp]:
  "cr_caller (new_record res n c sel) = c" "cr_selection (new_record res n c sel) = (c, sel, n)"
  "cr_ident (new_record res n c sel) = r_ident res" "cr_index (new_record res n c sel) = r_index res"
  by (simp_all add: new_record_def cr_selection_def)

text \<open>Either nothing changes and an error is returned, or the claim enters with a fresh number in place
  of the claims it replaces.\<close>

lemma claim_cases:
  assumes "registry_ok g" "c \<noteq> ''''"
  obtains (failed) e where "claim_resolved res n c sel replace g = (g, Inl e)"
  | (granted) g' i where "claim_resolved res n c sel replace g = (g', Inr (Some i))"
      "i = Suc (next_claim_id g)" "next_claim_id g' = i" "dict_ok (claimed g')" "dict_ok (selections g')"
      "check_replacement replace c (map_of (selections g) (c, sel, n)) g = None"
      "\<forall>j r. map_of (claimed g) j = Some r \<longrightarrow> map_of (selections g) (c, sel, n) = Some j \<or> replace = Some j \<or>
         \<not> collides res r"
      "\<And>j. map_of (claimed g') j = (if j = i then Some (new_record res n c sel)
         else if map_of (selections g) (c, sel, n) = Some j \<or> replace = Some j then None else map_of (claimed g) j)"
      "\<And>s j. map_of (selections g') s = Some j \<longleftrightarrow> (if s = (c, sel, n) then j = i else
         replace \<noteq> Some j \<and> map_of (selections g) s = Some j)"
proof -
  note d = registry_okD [OF assms(1)]
  let ?own = "map_of (selections g) (c, sel, n)"
  let ?out = "replaced_ids ?own replace"
  let ?i = "Suc (next_claim_id g)"
  let ?g = "g\<lparr>claimed := AList.update ?i (new_record res n c sel) (claimed g),
    selections := AList.update (c, sel, n) ?i (selections g), next_claim_id := ?i\<rparr>"
  show thesis
  proof (cases "check_replacement replace c ?own g = None \<and> first_conflict res ?out g = None")
    case False
    then obtain e where "claim_resolved res n c sel replace g = (g, Inl e)"
      using assms by (cases "check_replacement replace c ?own g"; cases "first_conflict res ?out g")
        (simp_all add: claim_resolved_def own_claim_eq Let_def)
    then show ?thesis by (rule failed)
  next
    case True
    have r: "claim_resolved res n c sel replace g = (pop_claims ?out ?g, Inr (Some ?i))"
      using True assms by (simp add: claim_resolved_def own_claim_eq Let_def new_record_def)
    have fresh: "map_of (claimed g) ?i = None" using d(3) [of ?i] by (cases "map_of (claimed g) ?i") auto
    have old: "map_of (selections g) s \<noteq> Some ?i" for s using d(5) [of s ?i] fresh by auto
    have ix: "indexed ?g"
      unfolding indexed_def
    proof (intro allI impI)
      fix s j assume s: "map_of (selections ?g) s = Some j"
      show "\<exists>r. map_of (claimed ?g) j = Some r \<and> cr_selection r = s"
      proof (cases "s = (c, sel, n)")
        case False
        then have "map_of (selections g) s = Some j" "j \<noteq> ?i" using s old [of s] by (auto simp: dict_simps)
        then show ?thesis using d(5) [of s j] by (simp add: dict_simps)
      qed (use s in \<open>simp add: dict_simps\<close>)
    qed
    show ?thesis
    proof (rule granted [OF r refl])
      show "dict_ok (claimed (pop_claims ?out ?g))" "dict_ok (selections (pop_claims ?out ?g))"
        using d(1,2) by simp_all
      show "\<forall>j r. map_of (claimed g) j = Some r \<longrightarrow> ?own = Some j \<or> replace = Some j \<or> \<not> collides res r"
        using True first_conflict_None [OF d(1), of res ?out] set_replaced_ids [of _ ?own replace] by blast
      have out: "?i \<notin> set ?out"
        using True fresh d(5) [of "(c, sel, n)" ?i]
        by (auto simp: set_replaced_ids check_replacement_def split: option.splits)
      show "map_of (claimed (pop_claims ?out ?g)) j = (if j = ?i then Some (new_record res n c sel)
         else if ?own = Some j \<or> replace = Some j then None else map_of (claimed g) j)" for j
        using out by (simp add: pop_claims_claimed set_replaced_ids dict_simps)
      show "map_of (selections (pop_claims ?out ?g)) s = Some j \<longleftrightarrow> (if s = (c, sel, n) then j = ?i else
         replace \<noteq> Some j \<and> map_of (selections g) s = Some j)" for s j
      proof (cases "s = (c, sel, n)")
        case True
        then show ?thesis using out by (auto simp: pop_claims_selections [OF ix] dict_simps)
      next
        case False
        have "?own \<noteq> Some j" if "map_of (selections g) s = Some j"
          using that False d(5) [of s j] d(5) [of "(c, sel, n)" j] by auto
        then show ?thesis
          using False by (auto simp: pop_claims_selections [OF ix] dict_simps set_replaced_ids)
      qed
    qed (use True in simp_all)
  qed
qed

lemma claim_resolved_no_caller [simp]: "claim_resolved res n '''' sel replace g = (g, Inr None)"
  by (simp add: claim_resolved_def)

lemma claim_resolved_ok:
  assumes "registry_ok g"
  shows "registry_ok (fst (claim_resolved res n c sel replace g)) \<and>
    next_claim_id g \<le> next_claim_id (fst (claim_resolved res n c sel replace g))"
proof (cases "c = ''''")
  case False
  note d = registry_okD [OF assms]
  show ?thesis
  proof (rule claim_cases [OF assms False, of res n sel replace])
    fix g' i
    assume g: "claim_resolved res n c sel replace g = (g', Inr (Some i))"
      "i = Suc (next_claim_id g)" "next_claim_id g' = i" "dict_ok (claimed g')" "dict_ok (selections g')"
      and free: "\<forall>j r. map_of (claimed g) j = Some r \<longrightarrow> map_of (selections g) (c, sel, n) = Some j \<or>
        replace = Some j \<or> \<not> collides res r"
      and cl: "\<And>j. map_of (claimed g') j = (if j = i then Some (new_record res n c sel)
         else if map_of (selections g) (c, sel, n) = Some j \<or> replace = Some j then None else map_of (claimed g) j)"
      and se: "\<And>s j. map_of (selections g') s = Some j \<longleftrightarrow> (if s = (c, sel, n) then j = i else
         replace \<noteq> Some j \<and> map_of (selections g) s = Some j)"
    have old: "j \<noteq> i \<and> map_of (selections g) (c, sel, n) \<noteq> Some j \<and> replace \<noteq> Some j \<and>
        map_of (claimed g) j = Some r" if "map_of (claimed g') j = Some r" "j \<noteq> i" for j r
      using that by (simp add: cl split: if_splits)
    have new: "r = new_record res n c sel" if "map_of (claimed g') i = Some r" for r
      using that by (simp add: cl)
    have "0 < j \<and> j \<le> i \<and> map_of (selections g') (cr_selection r) = Some j"
      if "map_of (claimed g') j = Some r" for j r
    proof (cases "j = i")
      case True
      then show ?thesis using new that g(2) by (simp add: se)
    next
      case False
      note o = old [OF that False]
      have "0 < j" "j \<le> next_claim_id g" "map_of (selections g) (cr_selection r) = Some j"
        using d(3,4) [of j r] o by auto
      moreover have "cr_selection r \<noteq> (c, sel, n)" using o calculation(3) by auto
      ultimately show ?thesis using o g(2) by (simp add: se)
    qed
    moreover have "\<exists>r. map_of (claimed g') j = Some r \<and> cr_selection r = s"
      if "map_of (selections g') s = Some j" for s j
    proof (cases "s = (c, sel, n)")
      case True
      then show ?thesis using that by (simp add: se cl)
    next
      case False
      then have s: "replace \<noteq> Some j" "map_of (selections g) s = Some j" using that by (simp_all add: se)
      obtain r where r: "map_of (claimed g) j = Some r" "cr_selection r = s" using d(5) [OF s(2)] by blast
      have "map_of (selections g) (c, sel, n) \<noteq> Some j"
        using d(5) [of "(c, sel, n)" j] r False by auto
      moreover have "j \<noteq> i" using d(3) [OF r(1)] g(2) by simp
      ultimately show ?thesis using s r by (simp add: cl)
    qed
    moreover have "cr_ident r \<noteq> cr_ident q \<and> cr_index r \<noteq> cr_index q"
      if r: "map_of (claimed g') j = Some r" and q: "map_of (claimed g') k = Some q" and ne: "j \<noteq> k" for j k r q
    proof -
      have "\<not> collides res t" if "map_of (claimed g') l = Some t" "l \<noteq> i" for l t
        using old [OF that] free by blast
      then show ?thesis
        using old [OF r] old [OF q] new r q ne d(6) [of j r k q]
        by (cases "j = i"; cases "k = i") (fastforce simp: collides_def)+
    qed
    ultimately have "registry_ok g'" unfolding registry_ok_def using g(3-5) by blast
    then show ?thesis using g by simp
  qed (use assms in simp)
qed (use assms in simp)

subsection \<open>Histories\<close>

datatype rtl_op =
    Claim_Op "device list" string caller selector
  | Resolve_Op "device list" string caller selector
  | Refresh_Op "device list" "lease option" string caller selector
  | Lease_Release_Op lease
  | Device_Release_Op "device list" string caller selector
  | Cleanup_Op

definition rtl_step :: "rtl_op \<Rightarrow> registry \<Rightarrow> registry" where
  "rtl_step x g =
     (case x of
        Claim_Op ds n c sel \<Rightarrow> fst (claim_device ds n c sel g)
      | Resolve_Op ds n c sel \<Rightarrow> fst (resolve_device ds n c sel g)
      | Refresh_Op ds old n c sel \<Rightarrow> fst (refresh_device_lease ds old n c sel g)
      | Lease_Release_Op l \<Rightarrow> lease_release l g
      | Device_Release_Op ds n c sel \<Rightarrow> release_device ds n c sel g
      | Cleanup_Op \<Rightarrow> cleanup_claims g)"

primrec rtl_run :: "rtl_op list \<Rightarrow> registry \<Rightarrow> registry" where
  "rtl_run [] g = g"
| "rtl_run (x # xs) g = rtl_run xs (rtl_step x g)"

lemma release_claim_id_cases:
  obtains "release_claim_id i c g = g"
  | r where "release_claim_id i c g = pop_claim i g" "map_of (claimed g) i = Some r" "c = '''' \<or> cr_caller r = c"
  by (cases "map_of (claimed g) i"; cases "c = '''' \<or> cr_caller (the (map_of (claimed g) i)) = c")
    (auto simp: release_claim_id_def)

text \<open>\<open>later\<close>: claim numbers only grow, and a claim with an old number is as it was.\<close>

definition later :: "registry \<Rightarrow> registry \<Rightarrow> bool" where
  "later g g' \<longleftrightarrow> registry_ok g' \<and> next_claim_id g \<le> next_claim_id g' \<and>
     (\<forall>i r. map_of (claimed g') i = Some r \<longrightarrow> i \<le> next_claim_id g \<longrightarrow> map_of (claimed g) i = Some r)"

lemma later_refl [simp]: "registry_ok g \<Longrightarrow> later g g"
  by (simp add: later_def)

lemma later_trans: "later g g1 \<Longrightarrow> later g1 g2 \<Longrightarrow> later g g2"
  unfolding later_def by (meson order_trans)

lemma later_pop [simp]: "registry_ok g \<Longrightarrow> later g (pop_claim i g)"
  by (simp add: later_def pop_claim_claimed)

lemma later_pops [simp]: "registry_ok g \<Longrightarrow> later g (pop_claims is g)"
  by (simp add: later_def pop_claims_claimed)

lemma later_release [simp]: "registry_ok g \<Longrightarrow> later g (release_claim_id i c g)"
  by (rule release_claim_id_cases [of i c g]) simp_all

lemma later_releases [simp]: "registry_ok g \<Longrightarrow> later g (release_ids is c g)"
proof (induction "is" arbitrary: g)
  case (Cons i "is")
  have "later g (release_claim_id i c g)" using Cons.prems by simp
  moreover have "later (release_claim_id i c g) (release_ids is c (release_claim_id i c g))"
    using calculation by (intro Cons.IH) (simp add: later_def)
  ultimately show ?case by (simp add: later_trans)
qed simp

lemma later_claim [simp]:
  assumes "registry_ok g"
  shows "later g (fst (claim_resolved res n c sel replace g))"
proof (cases "c = ''''")
  case False
  show ?thesis
  proof (rule claim_cases [OF assms False, of res n sel replace])
    fix g' i
    assume g: "claim_resolved res n c sel replace g = (g', Inr (Some i))" "i = Suc (next_claim_id g)"
      and "\<And>j. map_of (claimed g') j = (if j = i then Some (new_record res n c sel)
         else if map_of (selections g) (c, sel, n) = Some j \<or> replace = Some j then None else map_of (claimed g) j)"
    then show ?thesis using claim_resolved_ok [OF assms, of res n c sel replace] by (auto simp: later_def)
  qed (use assms in simp)
qed (use assms in simp)

lemma later_lease_release [simp]: "registry_ok g \<Longrightarrow> later g (lease_release l g)"
  by (simp add: lease_release_def release_legacy_def split: option.splits)

lemma later_release_device [simp]: "registry_ok g \<Longrightarrow> later g (release_device ds n c sel g)"
  by (simp add: release_device_def force_release_resolved_def split: option.splits sum.splits)

lemma fst_claims:
  "fst (claim_device ds n c sel g) = (case resolve_device_snapshot n sel ds of
     Inl e \<Rightarrow> g | Inr res \<Rightarrow> fst (claim_resolved res n c sel None g))"
  "fst (resolve_device ds n c sel g) = (case resolve_device_snapshot n sel ds of
     Inl e \<Rightarrow> g | Inr res \<Rightarrow> fst (claim_resolved res n c sel None g))"
  "fst (refresh_device_lease ds old n c sel g) = (case resolve_device_snapshot n sel ds of
     Inl e \<Rightarrow> g | Inr res \<Rightarrow> fst (claim_resolved res n c sel
       (case old of Some l \<Rightarrow> if l_claim l \<noteq> 0 then Some (l_claim l) else None | None \<Rightarrow> None) g))"
  by (simp_all add: claim_device_def resolve_device_def refresh_device_lease_def split: sum.splits prod.splits)

lemma later_step: "registry_ok g \<Longrightarrow> later g (rtl_step x g)"
  by (cases x) (auto simp: rtl_step_def fst_claims cleanup_claims_def later_def [of g "g\<lparr>claimed := _, selections := _\<rparr>"]
      registry_ok_def [of "g\<lparr>claimed := _, selections := _\<rparr>"] split: sum.split)

lemma later_run: "registry_ok g \<Longrightarrow> later g (rtl_run xs g)"
proof (induction xs arbitrary: g)
  case (Cons x xs)
  then have "later g (rtl_step x g)" by (simp add: later_step)
  moreover have "later (rtl_step x g) (rtl_run xs (rtl_step x g))"
    using calculation by (intro Cons.IH) (simp add: later_def)
  ultimately show ?case by (simp add: later_trans)
qed simp

lemma run_ok [simp]: "registry_ok (rtl_run xs no_claims)"
  using later_run [of no_claims xs] by (simp add: later_def)

subsection \<open>Guarantees\<close>

text \<open>C10. One plugin per dongle: whatever claims, refreshes and releases of leases or devices precede, with
  whatever listings, no two claims in the registry share a canonical identity, a device index or a
  selection.\<close>

theorem claims_exclusive:
  "distinct (map (cr_ident \<circ> snd) (claimed (rtl_run xs no_claims))) \<and>
   distinct (map (cr_index \<circ> snd) (claimed (rtl_run xs no_claims))) \<and>
   distinct (map (cr_selection \<circ> snd) (claimed (rtl_run xs no_claims)))"
proof -
  let ?g = "rtl_run xs no_claims"
  note d = registry_okD [OF run_ok [of xs]]
  have "i = j" if "(i, r) \<in> set (claimed ?g)" "(j, q) \<in> set (claimed ?g)"
    "cr_ident r = cr_ident q \<or> cr_index r = cr_index q \<or> cr_selection r = cr_selection q" for i j r q
  proof -
    have m: "map_of (claimed ?g) i = Some r" "map_of (claimed ?g) j = Some q" using that d(1) by simp_all
    then show ?thesis using d(6) [OF m] d(4) [OF m(1)] d(4) [OF m(2)] that(3) by auto
  qed
  then have "inj_on (cr_ident \<circ> snd) (set (claimed ?g))" "inj_on (cr_index \<circ> snd) (set (claimed ?g))"
    "inj_on (cr_selection \<circ> snd) (set (claimed ?g))"
    using d(1) by (auto simp: inj_on_def distinct_map) (metis fst_conv snd_conv)+
  then show ?thesis using d(1) by (simp add: distinct_map)
qed

text \<open>A lease frees its own claim only: however long a lease is kept and however often it is released,
  releasing it removes at most the claim it was granted for, as it was granted; a device that meanwhile
  went to somebody else is not touched.\<close>

theorem stale_release_harmless:
  assumes "claim_device ds n c sel (rtl_run xs no_claims) = (g, Inr l)" "c \<noteq> ''''"
    and "map_of (claimed (rtl_run ys g)) i = Some r"
  shows "map_of (claimed (lease_release l (rtl_run ys g))) i = Some r \<or>
    i = l_claim l \<and> cr_selection r = (c, sel, n) \<and> cr_ident r = l_ident l \<and> cr_index r = l_index l"
proof -
  let ?g = "rtl_run xs no_claims"
  obtain res j where res: "resolve_device_snapshot n sel ds = Inr res"
    and cl: "claim_resolved res n c sel None ?g = (g, Inr j)" and l: "l = granted_lease res n c sel j"
    using assms(1) by (auto simp: claim_device_def split: sum.splits prod.splits)
  have ok: "registry_ok g" using claim_resolved_ok [OF run_ok [of xs], of res n c sel None] cl by simp
  have new: "j = Some (next_claim_id g) \<and> 0 < next_claim_id g \<and>
      map_of (claimed g) (next_claim_id g) = Some (new_record res n c sel)"
    by (rule claim_cases [OF run_ok [of xs] assms(2), of res n sel None]) (use cl in auto)
  show ?thesis
  proof (cases "i = l_claim l")
    case True
    have "map_of (claimed g) i = Some r"
      using later_run [OF ok, of ys] assms(3) True new l by (auto simp: later_def granted_lease_def)
    then have "r = new_record res n c sel" using new l True by (simp add: granted_lease_def)
    then show ?thesis using True l by (simp add: granted_lease_def)
  next
    case False
    have "l_claim l \<noteq> 0" using new l by (simp add: granted_lease_def)
    then show ?thesis
      using False assms(3) by (auto simp: lease_release_def release_claim_id_def pop_claim_claimed split: option.splits)
  qed
qed

text \<open>The abstract registry: which selection holds which device.\<close>

definition holdings :: "registry \<Rightarrow> selection \<Rightarrow> (string \<times> int) option" where
  "holdings g s = Option.bind (map_of (selections g) s)
     (\<lambda>i. map_option (\<lambda>r. (cr_ident r, cr_index r)) (map_of (claimed g) i))"

definition spec_claim ::
  "selection \<Rightarrow> selection option \<Rightarrow> resolved \<Rightarrow> (selection \<Rightarrow> (string \<times> int) option) \<Rightarrow>
     (selection \<Rightarrow> (string \<times> int) option) \<times> bool" where
  "spec_claim key old res h =
     (if \<exists>s d. h s = Some d \<and> s \<noteq> key \<and> old \<noteq> Some s \<and> (fst d = r_ident res \<or> snd d = r_index res)
      then (h, False)
      else (\<lambda>s. if s = key then Some (r_ident res, r_index res) else if old = Some s then None else h s, True))"

definition spec_refresh ::
  "selection \<Rightarrow> claim_record option \<Rightarrow> resolved \<Rightarrow> (selection \<Rightarrow> (string \<times> int) option) \<Rightarrow>
     (selection \<Rightarrow> (string \<times> int) option) \<times> bool" where
  "spec_refresh key old res h =
     (case old of
        None \<Rightarrow> (h, False)
      | Some r \<Rightarrow>
          if cr_caller r \<noteq> fst key \<or> h key \<noteq> None \<and> cr_selection r \<noteq> key then (h, False)
          else spec_claim key (Some (cr_selection r)) res h)"

lemma holdings_Some:
  assumes "registry_ok g"
  shows "holdings g s = Some d \<longleftrightarrow>
    (\<exists>i r. map_of (claimed g) i = Some r \<and> cr_selection r = s \<and> d = (cr_ident r, cr_index r))"
    (is "?L \<longleftrightarrow> ?R")
proof
  assume ?L
  then obtain i r where "map_of (selections g) s = Some i" "map_of (claimed g) i = Some r" "d = (cr_ident r, cr_index r)"
    by (auto simp: holdings_def bind_eq_Some_conv)
  then show ?R using registry_okD(5) [OF assms, of s i] by auto
next
  assume ?R
  then obtain i r where "map_of (claimed g) i = Some r" "cr_selection r = s" "d = (cr_ident r, cr_index r)" by blast
  then show ?L using registry_okD(4) [OF assms, of i r] by (simp add: holdings_def)
qed

lemma selection_unique:
  assumes "registry_ok g" "map_of (claimed g) i = Some r" "map_of (claimed g) j = Some q"
    and "cr_selection r = cr_selection q"
  shows "i = j \<and> r = q"
  using registry_okD(4) [OF assms(1,2)] registry_okD(4) [OF assms(1,3)] assms by auto

lemma claim_spec:
  assumes ok: "registry_ok g" and c: "c \<noteq> ''''"
    and pass: "check_replacement replace c (map_of (selections g) (c, sel, n)) g = None"
    and old: "old = map_option cr_selection (Option.bind replace (map_of (claimed g)))"
  shows "(case claim_resolved res n c sel replace g of (g', r) \<Rightarrow> (holdings g', \<not> isl r)) =
    spec_claim (c, sel, n) old res (holdings g)"
proof -
  note d = registry_okD [OF ok]
  let ?own = "map_of (selections g) (c, sel, n)"
  let ?out = "replaced_ids ?own replace"
  have out: "i \<in> set ?out \<longleftrightarrow> cr_selection r = (c, sel, n) \<or> old = Some (cr_selection r)"
    if "map_of (claimed g) i = Some r" for i r
  proof -
    have "?own = Some i \<longleftrightarrow> cr_selection r = (c, sel, n)"
    proof
      assume "?own = Some i"
      then show "cr_selection r = (c, sel, n)" using d(5) [of "(c, sel, n)" i] that by simp
    next
      assume "cr_selection r = (c, sel, n)"
      then show "?own = Some i" using d(4) [OF that] by simp
    qed
    moreover have "replace = Some i \<longleftrightarrow> old = Some (cr_selection r)"
    proof
      assume "old = Some (cr_selection r)"
      then obtain j q where "replace = Some j" "map_of (claimed g) j = Some q" "cr_selection r = cr_selection q"
        by (auto simp: old bind_eq_Some_conv)
      then show "replace = Some i" using selection_unique [OF ok that] by blast
    qed (use that in \<open>simp add: old\<close>)
    ultimately show ?thesis by (simp add: set_replaced_ids)
  qed
  have conflict: "first_conflict res ?out g \<noteq> None \<longleftrightarrow>
    (\<exists>s e. holdings g s = Some e \<and> s \<noteq> (c, sel, n) \<and> old \<noteq> Some s \<and> (fst e = r_ident res \<or> snd e = r_index res))"
    unfolding holdings_Some [OF ok] using first_conflict_None [OF d(1), of res ?out] out
    by (fastforce simp: collides_def simp del: split_paired_Ex split_paired_All)
  show ?thesis
  proof (rule claim_cases [OF ok c, of res n sel replace])
    fix e assume e: "claim_resolved res n c sel replace g = (g, Inl e)"
    then have "first_conflict res ?out g \<noteq> None"
      using pass c by (auto simp: claim_resolved_def own_claim_eq [OF ok] Let_def split: option.splits)
    then show ?thesis using e conflict by (simp add: spec_claim_def)
  next
    fix g' i
    assume g: "claim_resolved res n c sel replace g = (g', Inr (Some i))" "i = Suc (next_claim_id g)"
      and cl: "\<And>j. map_of (claimed g') j = (if j = i then Some (new_record res n c sel)
         else if ?own = Some j \<or> replace = Some j then None else map_of (claimed g) j)"
      and se: "\<And>s j. map_of (selections g') s = Some j \<longleftrightarrow> (if s = (c, sel, n) then j = i else
         replace \<noteq> Some j \<and> map_of (selections g) s = Some j)"
    have "first_conflict res ?out g = None"
      using g pass c by (auto simp: claim_resolved_def own_claim_eq [OF ok] Let_def split: option.splits)
    then have spec: "spec_claim (c, sel, n) old res (holdings g) =
      (\<lambda>s. if s = (c, sel, n) then Some (r_ident res, r_index res) else if old = Some s then None else holdings g s, True)"
      using conflict by (simp add: spec_claim_def)
    have ok': "registry_ok g'" using claim_resolved_ok [OF ok, of res n c sel replace] g by simp
    have "holdings g' s = (if s = (c, sel, n) then Some (r_ident res, r_index res) else if old = Some s then None
      else holdings g s)" for s
    proof (cases "s = (c, sel, n)")
      case True
      have "map_of (selections g') (c, sel, n) = Some i" by (simp add: se)
      then show ?thesis using True by (simp add: holdings_def cl)
    next
      case False
      have "holdings g' s = Some e \<longleftrightarrow> old \<noteq> Some s \<and> holdings g s = Some e" for e
      proof
        assume "holdings g' s = Some e"
        then obtain j r where j: "map_of (claimed g') j = Some r" "cr_selection r = s" "e = (cr_ident r, cr_index r)"
          unfolding holdings_Some [OF ok'] by blast
        moreover from j False have "map_of (claimed g) j = Some r" "j \<notin> set ?out"
          by (auto simp: cl set_replaced_ids split: if_splits)
        ultimately show "old \<noteq> Some s \<and> holdings g s = Some e"
          using out unfolding holdings_Some [OF ok] by blast
      next
        assume "old \<noteq> Some s \<and> holdings g s = Some e"
        then obtain j r where j: "map_of (claimed g) j = Some r" "cr_selection r = s" "e = (cr_ident r, cr_index r)"
          "old \<noteq> Some s"
          unfolding holdings_Some [OF ok] by blast
        then have "j \<notin> set ?out" "j \<noteq> i" using out [of j r] False d(3) [OF j(1)] g(2) by auto
        then have "map_of (claimed g') j = Some r" using j by (simp add: cl set_replaced_ids)
        then show "holdings g' s = Some e" using j unfolding holdings_Some [OF ok'] by blast
      qed
      then have "holdings g' s = (if old = Some s then None else holdings g s)"
        by (cases "old = Some s") (metis (no_types, lifting) option.exhaust)+
      then show ?thesis using False by simp
    qed
    then show ?thesis using g spec by (simp add: fun_eq_iff)
  qed
qed

lemma holdings_key:
  assumes "registry_ok g"
  shows "holdings g s = None \<longleftrightarrow> map_of (selections g) s = None"
proof (cases "map_of (selections g) s")
  case (Some i)
  then show ?thesis using registry_okD(5) [OF assms Some] by (auto simp: holdings_def)
qed (simp add: holdings_def)

lemma selection_of_claim:
  assumes "registry_ok g" "map_of (claimed g) i = Some r"
  shows "map_of (selections g) s = Some i \<longleftrightarrow> cr_selection r = s"
proof
  assume "map_of (selections g) s = Some i"
  then show "cr_selection r = s" using registry_okD(5) [OF assms(1), of s i] assms(2) by simp
next
  assume "cr_selection r = s"
  then show "map_of (selections g) s = Some i" using registry_okD(4) [OF assms] by simp
qed

lemma check_refresh:
  assumes "registry_ok g"
  shows "check_replacement (Some i) c (map_of (selections g) (c, sel, n)) g = None \<longleftrightarrow>
    (\<exists>r. map_of (claimed g) i = Some r \<and> cr_caller r = c \<and>
       (holdings g (c, sel, n) = None \<or> cr_selection r = (c, sel, n)))"
proof (cases "map_of (claimed g) i")
  case (Some r)
  have "check_replacement (Some i) c (map_of (selections g) (c, sel, n)) g = None \<longleftrightarrow>
      cr_caller r = c \<and> (map_of (selections g) (c, sel, n) = None \<or> map_of (selections g) (c, sel, n) = Some i)"
    using Some by (auto simp: check_replacement_def)
  then show ?thesis
    unfolding holdings_key [OF assms] selection_of_claim [OF assms Some] using Some by simp
qed (simp add: check_replacement_def)

text \<open>The registry implements the map from selections to devices: a claim succeeds exactly when no other
  selection holds the identity or the index it resolves to, and then its selection holds the device; a
  refresh with a lease does both in one step, giving up the lease's selection; a refused claim or refresh
  changes nothing.\<close>

theorem claim_refines_holdings:
  assumes "c \<noteq> ''''"
  shows "(case claim_resolved res n c sel None (rtl_run xs no_claims) of (g', r) \<Rightarrow> (holdings g', \<not> isl r)) =
      spec_claim (c, sel, n) None res (holdings (rtl_run xs no_claims)) \<and>
    (case claim_resolved res n c sel (Some i) (rtl_run xs no_claims) of (g', r) \<Rightarrow> (holdings g', \<not> isl r)) =
      spec_refresh (c, sel, n) (map_of (claimed (rtl_run xs no_claims)) i) res (holdings (rtl_run xs no_claims))"
proof
  let ?g = "rtl_run xs no_claims"
  show "(case claim_resolved res n c sel None ?g of (g', r) \<Rightarrow> (holdings g', \<not> isl r)) =
      spec_claim (c, sel, n) None res (holdings ?g)"
    by (rule claim_spec [OF run_ok assms]) (simp_all add: check_replacement_def)
  show "(case claim_resolved res n c sel (Some i) ?g of (g', r) \<Rightarrow> (holdings g', \<not> isl r)) =
      spec_refresh (c, sel, n) (map_of (claimed ?g) i) res (holdings ?g)"
  proof (cases "check_replacement (Some i) c (map_of (selections ?g) (c, sel, n)) ?g")
    case None
    then obtain r where r: "map_of (claimed ?g) i = Some r" "cr_caller r = c"
      "holdings ?g (c, sel, n) = None \<or> cr_selection r = (c, sel, n)"
      unfolding check_refresh [OF run_ok] by blast
    have "spec_refresh (c, sel, n) (map_of (claimed ?g) i) res (holdings ?g) =
        spec_claim (c, sel, n) (Some (cr_selection r)) res (holdings ?g)"
    proof -
      have "\<not> (holdings ?g (c, sel, n) \<noteq> None \<and> cr_selection r \<noteq> (c, sel, n))"
        using r(3) by (simp only: de_Morgan_conj not_not)
      then show ?thesis unfolding spec_refresh_def r(1) option.case fst_conv using r(2) by (metis (no_types))
    qed
    then show ?thesis using claim_spec [OF run_ok assms None, of "Some (cr_selection r)" res] r(1) by simp
  next
    case (Some e)
    then have "claim_resolved res n c sel (Some i) ?g = (?g, Inl e)"
      using assms by (simp add: claim_resolved_def own_claim_eq)
    moreover have "spec_refresh (c, sel, n) (map_of (claimed ?g) i) res (holdings ?g) = (holdings ?g, False)"
      using Some check_refresh [OF run_ok, of i c xs sel n]
      by (cases "map_of (claimed ?g) i") (auto simp: spec_refresh_def simp del: not_None_eq)
    ultimately show ?thesis by simp
  qed
qed

subsection \<open>A concrete registry\<close>

text \<open>Two dongles; the scanner claims one by its index, loses it, and the receiver claims it by serial.\<close>

definition two_dongles :: "device list" where
  "two_dongles = run_rtl_test [''Found 2 device(s):'', ''  0:  Realtek, RTL2838, SN: A7'', ''  1:  Realtek, RTL2838, SN: B8'', '''']"

lemma two_dongles_eq: "two_dongles = [(0, ''A7''), (1, ''B8'')]"
  by code_simp

definition scan_lease :: lease where
  "scan_lease = \<lparr>l_configured = ''0'', l_ident = ''serial:A7'', l_index = 0, l_caller = ''scan'',
     l_selector = Index, l_claim = 1\<rparr>"

theorem stale_release_harmless_witness:
  "map_of (claimed (lease_release scan_lease (rtl_run
     [Device_Release_Op two_dongles ''0'' '''' Index, Claim_Op two_dongles ''A7'' ''fm'' Serial]
     (fst (claim_device two_dongles ''0'' ''scan'' Index no_claims))))) 2 =
   Some \<lparr>cr_caller = ''fm'', cr_selector = Serial, cr_configured = ''A7'', cr_ident = ''serial:A7'', cr_index = 0\<rparr>"
proof -
  let ?g = "fst (claim_device two_dongles ''0'' ''scan'' Index no_claims)"
  have c: "claim_device two_dongles ''0'' ''scan'' Index (rtl_run [] no_claims) = (?g, Inr scan_lease)"
    unfolding two_dongles_eq scan_lease_def by code_simp
  have r: "map_of (claimed (rtl_run [Device_Release_Op two_dongles ''0'' '''' Index, Claim_Op two_dongles ''A7'' ''fm'' Serial] ?g)) 2 =
    Some \<lparr>cr_caller = ''fm'', cr_selector = Serial, cr_configured = ''A7'', cr_ident = ''serial:A7'', cr_index = 0\<rparr>"
    unfolding two_dongles_eq by code_simp
  show ?thesis using stale_release_harmless [OF c _ r] by (simp add: scan_lease_def)
qed

theorem claim_refines_holdings_witness:
  "spec_claim (''fm'', Serial, ''A7'') None \<lparr>r_index = 0, r_ident = ''serial:A7''\<rparr>
     (holdings (rtl_run [Claim_Op two_dongles ''0'' ''scan'' Index] no_claims)) =
   (holdings (rtl_run [Claim_Op two_dongles ''0'' ''scan'' Index] no_claims), False)"
proof -
  have "claim_resolved \<lparr>r_index = 0, r_ident = ''serial:A7''\<rparr> ''A7'' ''fm'' Serial None
      (rtl_run [Claim_Op two_dongles ''0'' ''scan'' Index] no_claims) =
    (rtl_run [Claim_Op two_dongles ''0'' ''scan'' Index] no_claims,
     Inl (Device_Busy ''A7'' ''scan'' \<lparr>r_index = 0, r_ident = ''serial:A7''\<rparr>))"
    unfolding two_dongles_eq by code_simp
  then show ?thesis
    using claim_refines_holdings [of "''fm''" "\<lparr>r_index = 0, r_ident = ''serial:A7''\<rparr>" "''A7''" Serial
        "[Claim_Op two_dongles ''0'' ''scan'' Index]" 0] by simp
qed

end
