(* ===== verification/Msg_Store.thy ===== *)
theory Msg_Store
  imports Mtu_Text Py_Text "HOL-Library.List_Lexorder" "HOL-Library.Char_ord"
begin

text \<open>
  \<open>builtin_plugins/messaging_hub.py\<close>, \<open>MessageStore\<close>: the table of messages of all transports.  A row
  is a record, the table the list of rows in row order; \<open>AUTOINCREMENT\<close> never gives a number twice, so the
  highest number given is part of the state.  \<open>metadata\<close> is a JSON object of which the code reads three
  keys; the rest is an opaque text.  Both connections see the committed state, as one lock section is one
  definition.
\<close>

datatype channel = Ch_Index int | Ch_Name string

datatype direction = Outbound | Inbound

datatype status =
    Queued | Sent | Failed | Expired | Timed_Out | Delivered | Delivery_Failed | Propagated
  | Broadcast_Sent | Read_By_Peer | Received

record reaction =
  rx_emoji :: pystr
  rx_from :: string
  rx_name :: string
  rx_time :: time

record metadata =
  packet_id :: "int option"
  meta_channel :: "channel option"
  reactions :: "reaction list"
  meta_rest :: string

record message =
  m_id :: nat
  m_ts :: time
  m_transport :: string
  m_direction :: direction
  m_type :: string
  m_from :: "string option"
  m_from_name :: "string option"
  m_to :: "string option"
  m_to_name :: "string option"
  m_text :: pystr
  m_status :: status
  m_meta :: "metadata option"
  m_contact :: string
  m_read :: bool
  m_sub :: string

record msg_store =
  table :: "message list"
  last_rowid :: nat
  last_ts :: time

definition empty_meta :: metadata where
  "empty_meta = \<lparr>packet_id = None, meta_channel = None, reactions = [], meta_rest = ''''\<rparr>"

text \<open>\<open>metadata or None\<close>: an empty dictionary is stored as NULL.\<close>

definition meta_or_none :: "metadata option \<Rightarrow> metadata option" where
  "meta_or_none m = (if m = Some empty_meta then None else m)"

subsection \<open>Opening\<close>

text \<open>The clock seed is the newest time stamp in the table.\<close>

definition open_store :: "message list \<Rightarrow> nat \<Rightarrow> msg_store" where
  "open_store rows n =
     \<lparr>table = rows, last_rowid = n, last_ts = (if rows = [] then 0 else Max (set (map m_ts rows)))\<rparr>"

subsection \<open>Writing\<close>

definition channel_suffix :: "channel \<Rightarrow> string" where
  "channel_suffix ch = (case ch of Ch_Index i \<Rightarrow> show_int i | Ch_Name s \<Rightarrow> s)"

definition compute_contact_id ::
  "direction \<Rightarrow> string \<Rightarrow> string \<Rightarrow> string option \<Rightarrow> string option \<Rightarrow> string \<Rightarrow> channel option \<Rightarrow> string" where
  "compute_contact_id dir mtype transport from_id to_id sub ch =
     (if mtype = ''broadcast'' then
        (let suffix = (case ch of
             Some c \<Rightarrow> if transport = ''meshtastic'' then ''_ch'' @ channel_suffix c else '''' | None \<Rightarrow> '''')
         in if sub \<noteq> '''' then ''__broadcast_'' @ transport @ ''_'' @ sub @ suffix @ ''__''
            else ''__broadcast_'' @ transport @ suffix @ ''__'')
      else
        (let peer = (case (if dir = Outbound then to_id else from_id) of
             Some (c # s) \<Rightarrow> c # s | _ \<Rightarrow> ''__unknown__'')
         in if sub \<noteq> '''' then peer @ ''__'' @ sub else peer))"

text \<open>The arguments of \<open>store\<close>.\<close>

record new_message =
  n_transport :: string
  n_direction :: direction
  n_type :: string
  n_text :: pystr
  n_from :: "string option"
  n_from_name :: "string option"
  n_to :: "string option"
  n_to_name :: "string option"
  n_status :: status
  n_meta :: "metadata option"
  n_sub :: string
  n_channel :: "channel option"

definition stored_meta :: "channel option \<Rightarrow> metadata option \<Rightarrow> metadata option" where
  "stored_meta ch m =
     (case ch of
        None \<Rightarrow> meta_or_none m
      | Some c \<Rightarrow>
          (let d = (case m of None \<Rightarrow> empty_meta | Some d \<Rightarrow> d)
           in Some (if meta_channel d = None then d\<lparr>meta_channel := Some c\<rparr> else d)))"

definition row_of :: "nat \<Rightarrow> time \<Rightarrow> new_message \<Rightarrow> message" where
  "row_of i ts m =
     \<lparr>m_id = i, m_ts = ts, m_transport = n_transport m, m_direction = n_direction m, m_type = n_type m,
      m_from = n_from m, m_from_name = n_from_name m, m_to = n_to m, m_to_name = n_to_name m,
      m_text = n_text m, m_status = n_status m, m_meta = stored_meta (n_channel m) (n_meta m),
      m_contact = compute_contact_id (n_direction m) (n_type m) (n_transport m) (n_from m) (n_to m)
        (n_sub m) (n_channel m),
      m_read = (n_direction m \<noteq> Inbound), m_sub = n_sub m\<rparr>"

text \<open>A clock that went back is compensated: the new time stamp follows the last one by a millisecond.\<close>

definition next_ts :: "time \<Rightarrow> msg_store \<Rightarrow> time" where
  "next_ts now s = (if now \<le> last_ts s then last_ts s + 1 / 1000 else now)"

definition store :: "time \<Rightarrow> new_message \<Rightarrow> msg_store \<Rightarrow> msg_store \<times> nat" where
  "store now m s =
     (let ts = next_ts now s; i = Suc (last_rowid s)
      in (s\<lparr>table := table s @ [row_of i ts m], last_rowid := i, last_ts := ts\<rparr>, i))"

definition map_rows :: "(message \<Rightarrow> bool) \<Rightarrow> (message \<Rightarrow> message) \<Rightarrow> msg_store \<Rightarrow> msg_store" where
  "map_rows P f s = s\<lparr>table := map (\<lambda>r. if P r then f r else r) (table s)\<rparr>"

definition count_rows :: "(message \<Rightarrow> bool) \<Rightarrow> msg_store \<Rightarrow> nat" where
  "count_rows P s = length (filter P (table s))"

definition update_status :: "nat \<Rightarrow> status \<Rightarrow> msg_store \<Rightarrow> msg_store" where
  "update_status i st s = map_rows (\<lambda>r. m_id r = i) (\<lambda>r. r\<lparr>m_status := st\<rparr>) s"

definition update_status_unless_terminal ::
  "nat \<Rightarrow> status \<Rightarrow> status list \<Rightarrow> msg_store \<Rightarrow> msg_store \<times> bool" where
  "update_status_unless_terminal i st terminal s =
     (let P = (\<lambda>r. m_id r = i \<and> m_status r \<notin> set terminal)
      in (map_rows P (\<lambda>r. r\<lparr>m_status := st\<rparr>) s, 0 < count_rows P s))"

definition newest_first :: "message list \<Rightarrow> message list" where
  "newest_first rs = rev (sort_key m_ts rs)"

definition add_reaction :: "int \<Rightarrow> pystr \<Rightarrow> string \<Rightarrow> string \<Rightarrow> time \<Rightarrow> msg_store \<Rightarrow> msg_store \<times> nat option" where
  "add_reaction pid emoji from_id from_name now s =
     (case newest_first (filter (\<lambda>r. Option.bind (m_meta r) packet_id = Some pid \<and> m_transport r = ''meshtastic'') (table s)) of
        [] \<Rightarrow> (s, None)
      | r # _ \<Rightarrow>
          (let meta = (case m_meta r of Some m \<Rightarrow> m | None \<Rightarrow> empty_meta)
           in if \<exists>x\<in>set (reactions meta). rx_emoji x = emoji \<and> rx_from x = from_id then (s, Some (m_id r))
              else
                (map_rows (\<lambda>q. m_id q = m_id r)
                   (\<lambda>q. q\<lparr>m_meta := Some (meta\<lparr>reactions := reactions meta @
                      [\<lparr>rx_emoji = emoji, rx_from = from_id,
                        rx_name = (if from_name = '''' then from_id else from_name), rx_time = now\<rparr>]\<rparr>)\<rparr>) s,
                 Some (m_id r))))"

definition mark_read :: "string \<Rightarrow> msg_store \<Rightarrow> msg_store \<times> nat" where
  "mark_read contact s =
     (let P = (\<lambda>r. m_contact r = contact \<and> m_direction r = Inbound \<and> \<not> m_read r)
      in (map_rows P (\<lambda>r. r\<lparr>m_read := True\<rparr>) s, count_rows P s))"

definition delete_conversation :: "string \<Rightarrow> msg_store \<Rightarrow> msg_store \<times> nat" where
  "delete_conversation contact s =
     (s\<lparr>table := filter (\<lambda>r. m_contact r \<noteq> contact) (table s)\<rparr>, count_rows (\<lambda>r. m_contact r = contact) s)"

subsection \<open>Pruning\<close>

definition bucket :: "message \<Rightarrow> string \<times> string" where
  "bucket r = (m_transport r, m_sub r)"

text \<open>\<open>ORDER BY read DESC, timestamp ASC\<close>.\<close>

definition prune_order :: "message list \<Rightarrow> message list" where
  "prune_order rs = filter m_read (sort_key m_ts rs) @ filter (\<lambda>r. \<not> m_read r) (sort_key m_ts rs)"

definition prune_bucket :: "nat \<Rightarrow> string \<times> string \<Rightarrow> message list \<Rightarrow> message list" where
  "prune_bucket limit b rs =
     (let mine = filter (\<lambda>r. bucket r = b) rs;
          victims = map m_id (take (length mine - limit) (prune_order mine))
      in filter (\<lambda>r. m_id r \<notin> set victims) rs)"

definition prune :: "int \<Rightarrow> msg_store \<Rightarrow> msg_store \<times> nat" where
  "prune max_messages s =
     (if max_messages \<le> 0 then (s, 0)
      else
        let over = filter (\<lambda>b. nat max_messages < length (filter (\<lambda>r. bucket r = b) (table s)))
                     (remdups (map bucket (table s)));
            kept = fold (prune_bucket (nat max_messages)) over (table s)
        in (s\<lparr>table := kept\<rparr>, length (table s) - length kept))"

subsection \<open>Reading\<close>

definition row_at :: "nat \<Rightarrow> msg_store \<Rightarrow> message option" where
  "row_at i s = List.find (\<lambda>r. m_id r = i) (table s)"

definition get_status :: "nat \<Rightarrow> msg_store \<Rightarrow> status option" where
  "get_status i s = map_option m_status (row_at i s)"

definition find_sent_by_packet_id :: "int \<Rightarrow> msg_store \<Rightarrow> nat option" where
  "find_sent_by_packet_id pid s =
     (case newest_first (filter (\<lambda>r. Option.bind (m_meta r) packet_id = Some pid \<and> m_direction r = Outbound \<and>
             m_transport r = ''meshtastic'') (table s)) of
        [] \<Rightarrow> None | r # _ \<Rightarrow> Some (m_id r))"

definition keeps :: "'a option \<Rightarrow> 'a \<Rightarrow> bool" where
  "keeps wanted x = (case wanted of None \<Rightarrow> True | Some w \<Rightarrow> x = w)"

text \<open>An empty \<open>transport\<close> is no filter; an empty \<open>sub_transport\<close> is one.\<close>

definition wanted :: "string \<Rightarrow> string option" where
  "wanted t = (if t = '''' then None else Some t)"

definition get_messages ::
  "nat \<Rightarrow> nat \<Rightarrow> string \<Rightarrow> direction option \<Rightarrow> time option \<Rightarrow> string option \<Rightarrow> msg_store \<Rightarrow> message list" where
  "get_messages limit offset transport dir since sub s =
     take limit (drop offset (newest_first (filter (\<lambda>r. keeps (wanted transport) (m_transport r) \<and>
       keeps dir (m_direction r) \<and> (case since of None \<Rightarrow> True | Some t \<Rightarrow> t < m_ts r) \<and> keeps sub (m_sub r))
       (table s))))"

definition get_queued_sent :: "msg_store \<Rightarrow> message list" where
  "get_queued_sent s = sort_key m_ts (filter (\<lambda>r. m_direction r = Outbound \<and> m_status r = Queued) (table s))"

definition get_conversation_messages :: "string \<Rightarrow> nat \<Rightarrow> time option \<Rightarrow> msg_store \<Rightarrow> message list" where
  "get_conversation_messages contact limit before s =
     take limit (newest_first (filter (\<lambda>r. m_contact r = contact \<and>
       (case before of None \<Rightarrow> True | Some t \<Rightarrow> m_ts r < t)) (table s)))"

definition unread :: "message \<Rightarrow> bool" where
  "unread r = (m_direction r = Inbound \<and> \<not> m_read r)"

definition tally :: "'k list \<Rightarrow> ('k, nat) pydict" where
  "tally ks = map (\<lambda>k. (k, count_list ks k)) (remdups ks)"

definition get_unread_counts :: "string \<Rightarrow> string option \<Rightarrow> msg_store \<Rightarrow> (string, nat) pydict" where
  "get_unread_counts transport sub s =
     tally (map m_contact (filter (\<lambda>r. unread r \<and> keeps (wanted transport) (m_transport r) \<and> keeps sub (m_sub r)) (table s)))"

text \<open>Transport names have no colon, so a key stands for one bucket.\<close>

definition bucket_key :: "message \<Rightarrow> string" where
  "bucket_key r = (if m_sub r = '''' then m_transport r else m_transport r @ '':'' @ m_sub r)"

definition get_unread_counts_grouped :: "msg_store \<Rightarrow> (string, (string, nat) pydict) pydict" where
  "get_unread_counts_grouped s =
     (let rs = filter unread (table s)
      in map (\<lambda>k. (k, tally (map m_contact (filter (\<lambda>r. bucket_key r = k) rs)))) (remdups (map bucket_key rs)))"

definition get_stats :: "msg_store \<Rightarrow> nat \<times> (string, nat) pydict \<times> (direction, nat) pydict" where
  "get_stats s = (length (table s), tally (map m_transport (table s)), tally (map m_direction (table s)))"

definition get_peer_sub_transports :: "string \<Rightarrow> msg_store \<Rightarrow> (string, string list) pydict" where
  "get_peer_sub_transports transport s =
     (let rs = filter (\<lambda>r. m_transport r = transport \<and> m_type r = ''direct'') (table s);
          peer = (\<lambda>r. if m_direction r = Outbound then m_to r else m_from r);
          ps = filter (\<lambda>p. p \<noteq> '''' \<and> p \<noteq> ''self'') (concat (map (\<lambda>r. list_of_option (peer r)) rs))
      in map (\<lambda>p. (p, remdups (map m_sub (filter (\<lambda>r. peer r = Some p) rs)))) (remdups ps))"

text \<open>One summary per conversation and bucket, the most recent first.\<close>

record conversation =
  v_contact :: string
  v_name :: "string option"
  v_bucket :: "string \<times> string"
  v_type :: string
  v_last_ts :: time
  v_last_text :: "pystr option"
  v_unread :: nat

definition max_name :: "string option list \<Rightarrow> string option" where
  "max_name ns = (case concat (map list_of_option ns) of [] \<Rightarrow> None | x # xs \<Rightarrow> Some (foldl max x xs))"

definition conversation_key :: "message \<Rightarrow> string \<times> (string \<times> string) \<times> string" where
  "conversation_key r = (m_contact r, bucket r, m_type r)"

definition summary :: "message list \<Rightarrow> string \<times> (string \<times> string) \<times> string \<Rightarrow> conversation" where
  "summary rs k =
     (let mine = filter (\<lambda>r. conversation_key r = k) rs
      in \<lparr>v_contact = fst k,
          v_name = max_name (map (\<lambda>r. if m_direction r = Inbound then m_from_name r else m_to_name r) mine),
          v_bucket = fst (snd k), v_type = snd (snd k), v_last_ts = Max (set (map m_ts mine)),
          v_last_text = (case newest_first (filter (\<lambda>r. m_contact r = fst k) rs) of
             [] \<Rightarrow> None | r # _ \<Rightarrow> Some (m_text r)),
          v_unread = length (filter unread mine)\<rparr>)"

definition get_conversations :: "string \<Rightarrow> string option \<Rightarrow> nat \<Rightarrow> msg_store \<Rightarrow> conversation list" where
  "get_conversations transport sub conv_limit s =
     (let rs = filter (\<lambda>r. keeps (wanted transport) (m_transport r) \<and> keeps sub (m_sub r)) (table s)
      in take conv_limit (rev (sort_key v_last_ts (map (summary rs) (remdups (map conversation_key rs))))))"

subsection \<open>The table in order\<close>

definition older :: "message \<Rightarrow> message \<Rightarrow> bool" where
  "older r q = (m_id r < m_id q \<and> m_ts r < m_ts q)"

definition store_ok :: "msg_store \<Rightarrow> bool" where
  "store_ok s \<longleftrightarrow> sorted_wrt older (table s) \<and> (\<forall>r\<in>set (table s). m_id r \<le> last_rowid s \<and> m_ts r \<le> last_ts s)"

lemma store_ok_ids:
  assumes "store_ok s"
  shows "distinct (map m_id (table s))" "sorted (map m_ts (table s))"
proof -
  have o: "sorted_wrt older (table s)" using assms by (simp add: store_ok_def)
  have "sorted_wrt (<) (map m_id (table s))"
    using o unfolding sorted_wrt_map by (rule sorted_wrt_mono_rel [rotated]) (simp add: older_def)
  then show "distinct (map m_id (table s))" by (simp add: strict_sorted_iff)
  show "sorted (map m_ts (table s))"
    using o unfolding sorted_map by (rule sorted_wrt_mono_rel [rotated]) (simp add: older_def)
qed

lemma newest_first_rev: "store_ok s \<Longrightarrow> newest_first (table s) = rev (table s)"
  by (simp add: newest_first_def sort_key_id_if_sorted store_ok_ids)

lemma store_store_ok: "store_ok s \<Longrightarrow> store_ok (fst (store now m s))"
  by (fastforce simp: store_def Let_def store_ok_def next_ts_def row_of_def older_def sorted_wrt_append)

lemma map_rows_ok:
  assumes "store_ok s" "\<And>r. m_id (f r) = m_id r" "\<And>r. m_ts (f r) = m_ts r"
  shows "store_ok (map_rows P f s)"
proof -
  have g: "m_id (if P r then f r else r) = m_id r" "m_ts (if P r then f r else r) = m_ts r" for r
    using assms(2,3) by simp_all
  have "sorted_wrt older (map (\<lambda>r. if P r then f r else r) (table s)) \<longleftrightarrow> sorted_wrt older (table s)"
    unfolding sorted_wrt_map older_def g ..
  then show ?thesis using assms by (auto simp: store_ok_def map_rows_def)
qed

lemma filter_rows_ok: "store_ok s \<Longrightarrow> store_ok (s\<lparr>table := filter P (table s)\<rparr>)"
  by (auto simp: store_ok_def sorted_wrt_filter)

lemma prune_bucket_filter: "\<exists>P. prune_bucket limit b rs = filter P rs"
  unfolding prune_bucket_def Let_def by blast

lemma prune_buckets_filter: "\<exists>P. fold (prune_bucket limit) bs rs = filter P rs"
proof (induction bs arbitrary: rs)
  case Nil
  show ?case by (rule exI [of _ "\<lambda>_. True"]) simp
next
  case (Cons b bs)
  obtain P where "prune_bucket limit b rs = filter P rs" using prune_bucket_filter by blast
  moreover obtain Q where "fold (prune_bucket limit) bs (filter P rs) = filter Q (filter P rs)"
    using Cons.IH by blast
  ultimately show ?case by (auto simp: filter_filter)
qed

lemma prune_filter: "\<exists>P. fst (prune n s) = s\<lparr>table := filter P (table s)\<rparr>"
proof (cases "n \<le> 0")
  case True
  then show ?thesis by (intro exI [of _ "\<lambda>_. True"]) (simp add: prune_def)
next
  case False
  then show ?thesis
    using prune_buckets_filter [of "nat n" _ "table s"] by (auto simp: prune_def Let_def) metis
qed

datatype store_op =
    Store_Op time new_message
  | Status_Op nat status
  | Reaction_Op int pystr string string time
  | Read_Op string
  | Delete_Op string
  | Prune_Op int
  | Reopen_Op

definition store_step :: "store_op \<Rightarrow> msg_store \<Rightarrow> msg_store" where
  "store_step x s =
     (case x of
        Store_Op now m \<Rightarrow> fst (store now m s)
      | Status_Op i st \<Rightarrow> update_status i st s
      | Reaction_Op pid e f n now \<Rightarrow> fst (add_reaction pid e f n now s)
      | Read_Op c \<Rightarrow> fst (mark_read c s)
      | Delete_Op c \<Rightarrow> fst (delete_conversation c s)
      | Prune_Op n \<Rightarrow> fst (prune n s)
      | Reopen_Op \<Rightarrow> open_store (table s) (last_rowid s))"

lemma update_status_ok [simp]: "store_ok s \<Longrightarrow> store_ok (update_status i st s)"
  by (simp add: update_status_def map_rows_ok)

lemma unless_terminal_ok [simp]: "store_ok s \<Longrightarrow> store_ok (fst (update_status_unless_terminal i st t s))"
  by (simp add: update_status_unless_terminal_def map_rows_ok Let_def)

lemma add_reaction_ok [simp]: "store_ok s \<Longrightarrow> store_ok (fst (add_reaction pid e f n now s))"
  by (auto simp: add_reaction_def Let_def map_rows_ok split: list.splits)

lemma prune_ok [simp]: "store_ok s \<Longrightarrow> store_ok (fst (prune n s))"
  using prune_filter [of n s] filter_rows_ok by auto

lemma open_store_ok: "store_ok s \<Longrightarrow> store_ok (open_store (table s) (last_rowid s))"
  by (auto simp: store_ok_def open_store_def)

lemma store_step_ok: "store_ok s \<Longrightarrow> store_ok (store_step x s)"
  by (cases x) (simp_all add: store_step_def store_store_ok open_store_ok mark_read_def delete_conversation_def
      map_rows_ok filter_rows_ok Let_def)

lemma store_run_ok: "store_ok s \<Longrightarrow> store_ok (fold store_step xs s)"
  by (induction xs arbitrary: s) (simp_all add: store_step_ok)

text \<open>History keeps its order: whatever the wall clock does between writes and across restarts of the
  program, later messages have larger numbers and later time stamps, also after reactions, status changes,
  deletions and pruning; so reading newest first is reading the table backwards.\<close>

theorem history_order:
  "sorted_wrt (\<lambda>r q. m_id r < m_id q \<and> m_ts r < m_ts q) (table (fold store_step xs (open_store [] 0))) \<and>
   get_messages n 0 '''' None None None (fold store_step xs (open_store [] 0)) =
     take n (rev (table (fold store_step xs (open_store [] 0))))"
proof -
  have ok: "store_ok (fold store_step xs (open_store [] 0))"
    by (rule store_run_ok) (simp add: store_ok_def open_store_def)
  then have "sorted_wrt older (table (fold store_step xs (open_store [] 0)))" by (simp add: store_ok_def)
  then have "sorted_wrt (\<lambda>r q. m_id r < m_id q \<and> m_ts r < m_ts q) (table (fold store_step xs (open_store [] 0)))"
    by (rule sorted_wrt_mono_rel [rotated]) (simp add: older_def)
  then show ?thesis using newest_first_rev [OF ok] by (simp add: get_messages_def keeps_def wanted_def)
qed

subsection \<open>What pruning drops\<close>

definition goes_first :: "message \<Rightarrow> message \<Rightarrow> bool" where
  "goes_first r q = (if m_read r = m_read q then m_ts r < m_ts q else m_read r)"

definition victims :: "nat \<Rightarrow> message list \<Rightarrow> message list" where
  "victims limit mine = take (length mine - limit) (prune_order mine)"

definition spared :: "nat \<Rightarrow> message list \<Rightarrow> message list" where
  "spared limit mine = filter (\<lambda>r. m_id r \<notin> m_id ` set (victims limit mine)) mine"

lemma set_prune_order [simp]: "set (prune_order rs) = set rs"
  by (auto simp: prune_order_def)

lemma length_prune_order [simp]: "length (prune_order rs) = length rs"
  using sum_length_filter_compl [of m_read "sort_key m_ts rs"] by (simp add: prune_order_def)

lemma prune_order_sorted:
  assumes "sorted_wrt older rs"
  shows "sorted_wrt goes_first (prune_order rs)"
proof -
  have "sorted (map m_ts rs)"
    using assms unfolding sorted_map by (rule sorted_wrt_mono_rel [rotated]) (simp add: older_def)
  then have "prune_order rs = filter m_read rs @ filter (\<lambda>r. \<not> m_read r) rs"
    by (simp add: prune_order_def sort_key_id_if_sorted)
  moreover have "sorted_wrt goes_first (filter m_read rs)"
    using sorted_wrt_filter [OF assms, of m_read]
    by (rule sorted_wrt_mono_rel [rotated]) (auto simp: goes_first_def older_def)
  moreover have "sorted_wrt goes_first (filter (\<lambda>r. \<not> m_read r) rs)"
    using sorted_wrt_filter [OF assms, of "\<lambda>r. \<not> m_read r"]
    by (rule sorted_wrt_mono_rel [rotated]) (auto simp: goes_first_def older_def)
  ultimately show ?thesis by (auto simp: sorted_wrt_append goes_first_def)
qed

lemma bucket_of_prune:
  assumes "distinct (map m_id rs)"
  shows "filter (\<lambda>r. bucket r = b) (prune_bucket limit c rs) =
    (if b = c then spared limit (filter (\<lambda>r. bucket r = b) rs) else filter (\<lambda>r. bucket r = b) rs)"
proof -
  let ?mine = "filter (\<lambda>r. bucket r = c) rs"
  have v: "set (victims limit ?mine) \<subseteq> set ?mine"
    unfolding victims_def using set_take_subset [of _ "prune_order ?mine"] by simp
  have "m_id r \<notin> m_id ` set (victims limit ?mine)" if "r \<in> set rs" "bucket r \<noteq> c" for r
  proof
    assume "m_id r \<in> m_id ` set (victims limit ?mine)"
    then obtain q where "q \<in> set ?mine" "m_id r = m_id q" using v by blast
    then show False using that assms by (auto simp: distinct_map dest: inj_onD)
  qed
  then show ?thesis
    unfolding prune_bucket_def Let_def set_map victims_def [symmetric] spared_def
    by (auto simp: filter_filter intro!: filter_cong)
qed

lemma prune_bucket_distinct: "distinct (map m_id rs) \<Longrightarrow> distinct (map m_id (prune_bucket limit c rs))"
  by (simp add: prune_bucket_def Let_def distinct_map_filter)

lemma bucket_of_prunes:
  assumes "distinct (map m_id rs)" "distinct bs"
  shows "filter (\<lambda>r. bucket r = b) (fold (prune_bucket limit) bs rs) =
    (if b \<in> set bs then spared limit (filter (\<lambda>r. bucket r = b) rs) else filter (\<lambda>r. bucket r = b) rs)"
  using assms
proof (induction bs arbitrary: rs)
  case (Cons c bs)
  show ?case
    using Cons.IH [OF prune_bucket_distinct [OF Cons.prems(1), of limit c]] Cons.prems bucket_of_prune [OF Cons.prems(1)]
    by auto
qed simp

lemma spared_facts:
  assumes "sorted_wrt older mine" "distinct (map m_id mine)"
  shows "length (spared limit mine) = min limit (length mine)"
    and "r \<in> set mine \<Longrightarrow> r \<notin> set (spared limit mine) \<Longrightarrow> q \<in> set (spared limit mine) \<Longrightarrow> goes_first r q"
proof -
  let ?k = "length mine - limit"
  have id: "m_id r = m_id q \<longleftrightarrow> r = q" if "r \<in> set mine" "q \<in> set mine" for r q
    using assms(2) that by (auto simp: distinct_map dest: inj_onD)
  have sub: "set (victims limit mine) \<subseteq> set mine"
    unfolding victims_def using set_take_subset [of ?k "prune_order mine"] by simp
  have sp: "set (spared limit mine) = set mine - set (victims limit mine)"
    using id sub unfolding spared_def by (auto simp: image_iff)
  have d: "distinct (prune_order mine)"
    using assms(2) by (auto simp: prune_order_def distinct_map)
  then have v: "distinct (victims limit mine)" by (simp add: victims_def)
  have "distinct (spared limit mine)" using assms(2) by (simp add: spared_def distinct_map)
  then have "length (spared limit mine) = card (set mine - set (victims limit mine))"
    using sp distinct_card by metis
  also have "\<dots> = length mine - length (victims limit mine)"
    using sub v assms(2) by (simp add: card_Diff_subset distinct_card distinct_map)
  finally show "length (spared limit mine) = min limit (length mine)" by (simp add: victims_def)
  have rest: "set mine - set (victims limit mine) \<subseteq> set (drop ?k (prune_order mine))"
  proof -
    have "set (take ?k (prune_order mine)) \<union> set (drop ?k (prune_order mine)) = set mine"
      by (metis append_take_drop_id set_append set_prune_order)
    then show ?thesis unfolding victims_def by blast
  qed
  have "sorted_wrt goes_first (take ?k (prune_order mine) @ drop ?k (prune_order mine))"
    using prune_order_sorted [OF assms(1)] by simp
  then show "goes_first r q" if "r \<in> set mine" "r \<notin> set (spared limit mine)" "q \<in> set (spared limit mine)"
    using that sp rest unfolding victims_def sorted_wrt_append by blast
qed

text \<open>Pruning is fair to every bucket of a transport: each keeps as many messages as the limit allows, a
  bucket within the limit keeps all, and what a bucket loses are messages already read before unread ones,
  and among equals the older ones.\<close>

theorem prune_fair:
  assumes "0 < limit" "s = fold store_step xs (open_store [] 0)" "s' = fst (prune (int limit) s)"
  shows "length (filter (\<lambda>r. bucket r = b) (table s')) = min limit (length (filter (\<lambda>r. bucket r = b) (table s))) \<and>
    set (table s') \<subseteq> set (table s) \<and>
    (\<forall>r q. r \<in> set (table s) - set (table s') \<longrightarrow> q \<in> set (table s') \<longrightarrow> bucket r = bucket q \<longrightarrow>
       (if m_read r = m_read q then m_ts r < m_ts q else m_read r))"
proof -
  have ok: "store_ok s" unfolding assms(2) by (rule store_run_ok) (simp add: store_ok_def open_store_def)
  define over where "over = filter (\<lambda>b. limit < length (filter (\<lambda>r. bucket r = b) (table s))) (remdups (map bucket (table s)))"
  have t: "table s' = fold (prune_bucket limit) over (table s)"
    using assms(1,3) by (simp add: prune_def Let_def over_def)
  have "distinct over" by (simp add: over_def)
  note f = bucket_of_prunes [OF store_ok_ids(1) [OF ok] this, of _ limit, folded t]
  have o: "sorted_wrt older (filter P (table s))" "distinct (map m_id (filter P (table s)))" for P
    using ok store_ok_ids(1) [OF ok] by (simp_all add: store_ok_def sorted_wrt_filter distinct_map_filter)
  have len: "c \<notin> set over \<Longrightarrow> length (filter (\<lambda>r. bucket r = c) (table s)) \<le> limit" for c
    by (cases "filter (\<lambda>r. bucket r = c) (table s) = []") (auto simp: over_def filter_empty_conv not_less)
  have "length (filter (\<lambda>r. bucket r = b) (table s')) = min limit (length (filter (\<lambda>r. bucket r = b) (table s)))"
    using f [of b] spared_facts(1) [OF o] len [of b] by (cases "b \<in> set over") simp_all
  moreover have "set (table s') \<subseteq> set (table s)"
    using prune_buckets_filter [of limit over "table s"] t by auto
  moreover have "goes_first r q" if "r \<in> set (table s) - set (table s')" "q \<in> set (table s')" "bucket r = bucket q" for r q
  proof -
    let ?B = "filter (\<lambda>x. bucket x = bucket q)"
    have r: "r \<in> set (?B (table s))" "r \<notin> set (?B (table s'))" and q: "q \<in> set (?B (table s'))" using that by auto
    show ?thesis
    proof (cases "bucket q \<in> set over")
      case True
      then show ?thesis using spared_facts(2) [OF o r(1), of limit q] r q f [of "bucket q"] by simp
    qed (use r f [of "bucket q"] in simp)
  qed
  ultimately show ?thesis unfolding goes_first_def by blast
qed

definition pruned_demo :: "string \<Rightarrow> direction \<Rightarrow> new_message" where
  "pruned_demo tr d = \<lparr>n_transport = tr, n_direction = d, n_type = ''direct'', n_text = ascii ''a'', n_from = None,
     n_from_name = None, n_to = Some ''p'', n_to_name = None, n_status = Received, n_meta = None, n_sub = [],
     n_channel = None\<rparr>"

definition demo_ops :: "store_op list" where
  "demo_ops = [Store_Op 5 (pruned_demo ''x'' Inbound), Store_Op 4 (pruned_demo ''x'' Outbound)]"

theorem prune_fair_witness:
  "(let s = fold store_step demo_ops (open_store [] 0); s' = fst (prune (int 1) s)
    in length (filter (\<lambda>r. bucket r = (''x'', [])) (table s')) = min 1 (length (filter (\<lambda>r. bucket r = (''x'', [])) (table s))) \<and>
       map m_id (table s') = [1] \<and> m_read (last (table s)))"
proof -
  let ?s = "fold store_step demo_ops (open_store [] 0)"
  let ?s' = "fst (prune (int 1) ?s)"
  have t: "map m_id (table ?s') = [1]" "last (table ?s) \<in> set (table ?s) - set (table ?s')" "hd (table ?s') \<in> set (table ?s')"
    "bucket (last (table ?s)) = bucket (hd (table ?s'))" "m_read (last (table ?s)) \<noteq> m_read (hd (table ?s'))"
    by code_simp+
  have f: "length (filter (\<lambda>r. bucket r = (''x'', [])) (table ?s')) = min 1 (length (filter (\<lambda>r. bucket r = (''x'', [])) (table ?s))) \<and>
    set (table ?s') \<subseteq> set (table ?s) \<and>
    (\<forall>r q. r \<in> set (table ?s) - set (table ?s') \<longrightarrow> q \<in> set (table ?s') \<longrightarrow> bucket r = bucket q \<longrightarrow>
       (if m_read r = m_read q then m_ts r < m_ts q else m_read r))"
    by (rule prune_fair) simp_all
  then have "m_read (last (table ?s))" using t(2-5) by meson
  then show ?thesis using f t(1) by (simp only: Let_def simp_thms)
qed

end
