(* ===== verification/Hub_Outbound.thy ===== *)
theory Hub_Outbound
  imports Msg_Store
begin

text \<open>
  \<open>builtin_plugins/messaging_hub.py\<close>, the outbound path of \<open>MessagingHubPlugin\<close>: sending, the queue of
  messages whose transport is down, its draining and expiry, delivery tracking by the adapters and the
  recovery after a restart.  One definition is one section under a lock; what a thread does next is a
  \<open>task\<close>.  What an adapter answers, its availability and the clocks are arguments.
\<close>

record kwargs =
  kw_type :: "string option"
  kw_sub :: "string option"
  kw_channel :: "channel option"
  kw_to_name :: "string option"
  kw_meta :: "metadata option"

record entry =
  e_id :: nat
  e_text :: pystr
  e_dest :: string
  e_kwargs :: kwargs
  e_at :: time
  e_attempts :: nat

record send_result =
  sr_sent :: bool
  sr_reason :: string
  sr_packet :: "int option"
  sr_lxm_hash :: "string option"
  sr_ack_tracking :: "string option"
  sr_expected_ack :: "string option"

datatype adapter_kind = Lxmf | Meshtastic | Meshcore | Custom

datatype track_key = Key_Text string | Key_Msg nat

record adapter =
  ad_kind :: adapter_kind
  ad_max_bytes :: "nat option"
  ad_pending :: "(track_key, nat \<times> time) pydict"
  ad_bound :: "nat list"

datatype hub_event =
    Message_Sent nat string status
  | Status_Changed nat string status
  | Message_Received nat string
  | Conversation_Deleted string nat

record hub =
  hstore :: msg_store
  queues :: "(string, entry list) pydict"
  adapters :: "(string, adapter) pydict"
  outbound_max :: int
  outbound_ttl :: time
  drain_budget :: time
  history_limit :: int
  last_prune :: time

abbreviation "set_store h st \<equiv> h\<lparr>hstore := st\<rparr>"

definition with_default :: "'a \<Rightarrow> 'a option \<Rightarrow> 'a" where
  "with_default d x = (case x of Some v \<Rightarrow> v | None \<Rightarrow> d)"

subsection \<open>Status updates\<close>

definition terminal_statuses :: "status list" where
  "terminal_statuses = [Delivered, Delivery_Failed, Failed, Broadcast_Sent, Read_By_Peer]"

definition non_overwriting :: "status list" where
  "non_overwriting = [Timed_Out, Expired]"

definition on_delivery_status_update :: "nat \<Rightarrow> string \<Rightarrow> status \<Rightarrow> hub \<Rightarrow> hub \<times> hub_event list" where
  "on_delivery_status_update i tr st h =
     (if st \<in> set non_overwriting then
        (case update_status_unless_terminal i st terminal_statuses (hstore h) of
           (s, True) \<Rightarrow> (set_store h s, [Status_Changed i tr st])
         | (s, False) \<Rightarrow> (set_store h s, []))
      else (set_store h (update_status i st (hstore h)), [Status_Changed i tr st]))"

definition maybe_prune :: "time \<Rightarrow> hub \<Rightarrow> hub" where
  "maybe_prune now h =
     (if history_limit h \<le> 0 \<or> now - last_prune h < 30 then h
      else h\<lparr>last_prune := now, hstore := fst (prune (history_limit h) (hstore h))\<rparr>)"

subsection \<open>The queue\<close>

definition queue_of :: "string \<Rightarrow> hub \<Rightarrow> entry list" where
  "queue_of tr h = with_default [] (map_of (queues h) tr)"

definition put_queue :: "string \<Rightarrow> entry list \<Rightarrow> hub \<Rightarrow> hub" where
  "put_queue tr q h = h\<lparr>queues := AList.update tr q (queues h)\<rparr>"

definition is_retryable_reason :: "string \<Rightarrow> bool" where
  "is_retryable_reason reason =
     (reason = ''not_connected'' \<or> reason = ''not connected''
      \<or> take 14 (map lower_char reason) = ''path not found'')"

text \<open>A broadcast without a channel goes to channel 0.\<close>

definition effective_channel :: "kwargs \<Rightarrow> channel option" where
  "effective_channel kw =
     (if kw_channel kw = None \<and> kw_type kw = Some ''broadcast'' then Some (Ch_Index 0) else kw_channel kw)"

definition outbound_row ::
  "string \<Rightarrow> pystr \<Rightarrow> string \<Rightarrow> kwargs \<Rightarrow> string option \<Rightarrow> status \<Rightarrow> metadata option \<Rightarrow> string \<Rightarrow> new_message" where
  "outbound_row tr text dest kw to_name st meta node =
     \<lparr>n_transport = tr, n_direction = Outbound, n_type = with_default ''direct'' (kw_type kw), n_text = text,
      n_from = Some ''self'', n_from_name = Some node, n_to = Some dest, n_to_name = to_name, n_status = st,
      n_meta = meta, n_sub = with_default '''' (kw_sub kw), n_channel = effective_channel kw\<rparr>"

text \<open>The section of \<open>_queue_outbound\<close> under the queue's lock: the oldest entry gives way; \<open>popleft\<close> of
  an empty queue raises.\<close>

definition enqueue :: "string \<Rightarrow> entry \<Rightarrow> hub \<Rightarrow> py_error + hub \<times> entry option" where
  "enqueue tr e h =
     (let q = queue_of tr h
      in if outbound_max h \<le> int (length q) then
           (case q of [] \<Rightarrow> Inl IndexError | x # r \<Rightarrow> Inr (put_queue tr (r @ [e]) h, Some x))
         else Inr (put_queue tr (q @ [e]) h, None))"

definition take_queue :: "string \<Rightarrow> hub \<Rightarrow> hub \<times> entry list" where
  "take_queue tr h = (if queue_of tr h = [] then (h, []) else (put_queue tr [] h, queue_of tr h))"

definition requeue :: "string \<Rightarrow> entry list \<Rightarrow> hub \<Rightarrow> hub" where
  "requeue tr es h = put_queue tr (queue_of tr h @ es) h"

definition too_old :: "time \<Rightarrow> hub \<Rightarrow> entry \<Rightarrow> bool" where
  "too_old now h e = (outbound_ttl h < now - e_at e)"

definition expire_queued :: "time \<Rightarrow> hub \<Rightarrow> hub \<times> (string \<times> nat) list" where
  "expire_queued now h =
     (h\<lparr>queues := map (\<lambda>(tr, q). (tr, filter (\<lambda>e. \<not> too_old now h e) q)) (queues h)\<rparr>,
      concat (map (\<lambda>(tr, q). map (\<lambda>e. (tr, e_id e)) (filter (too_old now h) q)) (queues h)))"

definition get_queued_outbound :: "hub \<Rightarrow> (string \<times> nat) list" where
  "get_queued_outbound h = map (\<lambda>(tr, q). (tr, length q)) (filter (\<lambda>(_, q). q \<noteq> []) (queues h))"

subsection \<open>Recovery\<close>

definition entry_of_row :: "message \<Rightarrow> entry" where
  "entry_of_row r =
     \<lparr>e_id = m_id r, e_text = m_text r, e_dest = with_default '''' (m_to r),
      e_kwargs = \<lparr>kw_type = Some (m_type r), kw_sub = Some (m_sub r),
        kw_channel = Option.bind (m_meta r) meta_channel, kw_to_name = m_to_name r, kw_meta = meta_or_none (m_meta r)\<rparr>,
      e_at = m_ts r, e_attempts = 0\<rparr>"

primrec recover_rows :: "time \<Rightarrow> message list \<Rightarrow> hub \<Rightarrow> hub" where
  "recover_rows now [] h = h"
| "recover_rows now (r # rs) h =
     (if outbound_ttl h < now - m_ts r \<or> outbound_max h \<le> int (length (queue_of (m_transport r) h)) then
        recover_rows now rs (set_store h (update_status (m_id r) Expired (hstore h)))
      else recover_rows now rs (requeue (m_transport r) [entry_of_row r] h))"

definition recover_queued_messages :: "time \<Rightarrow> hub \<Rightarrow> hub" where
  "recover_queued_messages now h = recover_rows now (get_queued_sent (hstore h)) h"

text \<open>\<open>start\<close>: the store, the queues, no adapter yet.\<close>

definition start_hub :: "int \<Rightarrow> time \<Rightarrow> time \<Rightarrow> int \<Rightarrow> time \<Rightarrow> message list \<Rightarrow> nat \<Rightarrow> hub" where
  "start_hub mx ttl budget limit now rows n =
     recover_queued_messages now
       \<lparr>hstore = open_store rows n, queues = [], adapters = [], outbound_max = mx, outbound_ttl = ttl,
        drain_budget = budget, history_limit = limit, last_prune = 0\<rparr>"

subsection \<open>Delivery tracking\<close>

definition pending_cap :: nat where "pending_cap = 500"

definition upd_adapter :: "string \<Rightarrow> (adapter \<Rightarrow> adapter) \<Rightarrow> hub \<Rightarrow> hub" where
  "upd_adapter tr f h =
     (case map_of (adapters h) tr of None \<Rightarrow> h | Some a \<Rightarrow> h\<lparr>adapters := AList.update tr (f a) (adapters h)\<rparr>)"

definition truthy :: "string option \<Rightarrow> bool" where
  "truthy s = (s \<noteq> None \<and> s \<noteq> Some '''')"

text \<open>\<open>LXMFAdapter.track_pending\<close>; the evicted entry's message is to be marked as timed out.\<close>

definition lxmf_track :: "nat \<Rightarrow> string \<Rightarrow> time \<Rightarrow> adapter \<Rightarrow> adapter \<times> nat option" where
  "lxmf_track i hash now a =
     (let victim = (if pending_cap \<le> length (ad_pending a) then first_min (\<lambda>(_, _, t). t) (ad_pending a) else None);
          kept = (case victim of None \<Rightarrow> ad_pending a | Some (k, _) \<Rightarrow> AList.delete k (ad_pending a))
      in (a\<lparr>ad_pending := AList.update (Key_Text hash) (i, now) kept\<rparr>,
          map_option (\<lambda>(_, j, _). j) victim))"

definition lxmf_pending :: "nat \<Rightarrow> send_result \<Rightarrow> time \<Rightarrow> adapter \<Rightarrow> adapter \<times> nat option" where
  "lxmf_pending i res now a = (case sr_lxm_hash res of Some (c # hs) \<Rightarrow> lxmf_track i (c # hs) now a | _ \<Rightarrow> (a, None))"

text \<open>The message number is bound to the callback of the gateway after it is tracked.\<close>

definition meshtastic_pending :: "nat \<Rightarrow> send_result \<Rightarrow> time \<Rightarrow> adapter \<Rightarrow> adapter \<times> nat option" where
  "meshtastic_pending i res now a =
     (let a1 = (if truthy (sr_ack_tracking res)
                then a\<lparr>ad_pending := AList.update (Key_Msg i) (i, now) (ad_pending a)\<rparr> else a)
      in (if sr_sent res then a1\<lparr>ad_bound := i # ad_bound a1\<rparr> else a1, None))"

definition meshcore_pending :: "nat \<Rightarrow> send_result \<Rightarrow> time \<Rightarrow> adapter \<Rightarrow> adapter \<times> nat option" where
  "meshcore_pending i res now a =
     (case sr_expected_ack res of
        Some (c # hs) \<Rightarrow> (a\<lparr>ad_pending := AList.update (Key_Text (c # hs)) (i, now) (ad_pending a)\<rparr>, None)
      | _ \<Rightarrow> (a, None))"

definition track_pending :: "nat \<Rightarrow> send_result \<Rightarrow> time \<Rightarrow> adapter \<Rightarrow> adapter \<times> nat option" where
  "track_pending i res now a =
     (case ad_kind a of
        Lxmf \<Rightarrow> lxmf_pending i res now a
      | Meshtastic \<Rightarrow> meshtastic_pending i res now a
      | Meshcore \<Rightarrow> meshcore_pending i res now a
      | Custom \<Rightarrow> (a, None))"

definition register_delivery_tracking :: "string \<Rightarrow> nat \<Rightarrow> send_result \<Rightarrow> time \<Rightarrow> hub \<Rightarrow> hub \<times> (nat \<times> status) list" where
  "register_delivery_tracking tr i res now h =
     (case map_of (adapters h) tr of
        None \<Rightarrow> (h, [])
      | Some a \<Rightarrow>
          (case track_pending i res now a of
             (a', evicted) \<Rightarrow>
               (h\<lparr>adapters := AList.update tr a' (adapters h)\<rparr>,
                map (\<lambda>j. (j, Timed_Out)) (list_of_option evicted))))"

text \<open>The callbacks of LXMF and MeshCore: the pending entry decides; without one nothing happens.\<close>

definition ack_by_key :: "string \<Rightarrow> string \<Rightarrow> status \<Rightarrow> hub \<Rightarrow> hub \<times> (nat \<times> status) list" where
  "ack_by_key tr key st h =
     (case Option.bind (map_of (adapters h) tr) (\<lambda>a. map_of (ad_pending a) (Key_Text key)) of
        None \<Rightarrow> (h, [])
      | Some (i, _) \<Rightarrow>
          (upd_adapter tr (\<lambda>a. a\<lparr>ad_pending := AList.delete (Key_Text key) (ad_pending a)\<rparr>) h, [(i, st)]))"

text \<open>The callback given to the Meshtastic gateway; it waits until the message number is bound.\<close>

definition mesh_on_ack :: "nat \<Rightarrow> bool \<Rightarrow> hub \<Rightarrow> hub \<times> (nat \<times> status) list" where
  "mesh_on_ack i acked h =
     (case map_of (adapters h) ''meshtastic'' of
        None \<Rightarrow> (h, [])
      | Some a \<Rightarrow>
          if i \<in> set (ad_bound a) then
            (upd_adapter ''meshtastic'' (\<lambda>a. a\<lparr>ad_pending := AList.delete (Key_Msg i) (ad_pending a)\<rparr>) h,
             [(i, if acked then Delivered else Delivery_Failed)])
          else (h, []))"

text \<open>\<open>expire_stale_pending\<close>: the snapshot, and the removal of one entry of it.\<close>

definition stale_pending :: "time \<Rightarrow> time \<Rightarrow> hub \<Rightarrow> (string \<times> track_key \<times> nat) list" where
  "stale_pending now max_age h =
     concat (map (\<lambda>(tr, a). if ad_kind a = Custom then []
        else map (\<lambda>(k, i, _). (tr, k, i)) (filter (\<lambda>(_, _, t). max_age < now - t) (ad_pending a))) (adapters h))"

definition pop_stale :: "string \<times> track_key \<times> nat \<Rightarrow> hub \<Rightarrow> hub \<times> (nat \<times> status) list" where
  "pop_stale x h =
     (case x of (tr, k, i) \<Rightarrow>
        (case Option.bind (map_of (adapters h) tr) (\<lambda>a. map_of (ad_pending a) k) of
           None \<Rightarrow> (h, [])
         | Some _ \<Rightarrow>
             (upd_adapter tr (\<lambda>a. a\<lparr>ad_pending := AList.delete k (ad_pending a)\<rparr>) h, [(i, Timed_Out)])))"

end
