(* ===== verification/Hub_Machine.thy ===== *)
theory Hub_Machine
  imports Hub_Outbound
begin

text \<open>
  The threads of the messaging hub: callers of \<open>send_message\<close>, drains of a transport's queue (on
  reconnection or on the periodic tick), the expiry of queued messages and of pending deliveries, and the
  acknowledgements of the adapters.  A task is what one thread still has to do; a label lets one of them
  run its next section, in any order.  \<open>transmitted\<close> is a ghost: the queued messages an adapter accepted, with what it was given.
\<close>

datatype task =
    Enqueueing string entry
  | Settling string "(nat \<times> status) list"
  | Updating string "(nat \<times> status) list"
  | Tracking string nat send_result bool
  | Drain_Taken string "entry list"
  | Draining string time time bool "entry list"
  | Drain_Sent string time time bool entry send_result "entry list"
  | Drain_Track string time time nat send_result "entry list"
  | Publishing hub_event
  | Sweeping "(string \<times> track_key \<times> nat) list"

record msys =
  hub :: hub
  tasks :: "task list"
  published :: "hub_event list"
  transmitted :: "(nat \<times> string \<times> pystr \<times> string) list"

text \<open>What the environment gives to the next section: the wall and the monotonic clock, whether the
  adapter is available, and what its \<open>send\<close> returns, \<open>None\<close> when it raises.\<close>

record inputs =
  in_now :: time
  in_mono :: time
  in_avail :: bool
  in_result :: "send_result option"

subsection \<open>Sending\<close>

datatype send_answer =
    Not_Registered
  | Too_Long nat
  | Not_Encodable
  | In_Queue nat
  | Handed_Over nat send_result

definition queue_message :: "string \<Rightarrow> pystr \<Rightarrow> string \<Rightarrow> kwargs \<Rightarrow> string \<Rightarrow> time \<Rightarrow> hub \<Rightarrow> hub \<times> send_answer \<times> task list" where
  "queue_message tr text dest kw node now h =
     (case store now (outbound_row tr text dest kw (kw_to_name kw) Queued (kw_meta kw) node) (hstore h) of
        (s, i) \<Rightarrow>
          (set_store h s, In_Queue i,
           [Enqueueing tr \<lparr>e_id = i, e_text = text, e_dest = dest, e_kwargs = kw, e_at = now, e_attempts = 0\<rparr>]))"

definition sent_meta :: "kwargs \<Rightarrow> send_result \<Rightarrow> metadata option" where
  "sent_meta kw res =
     (let m = with_default empty_meta (kw_meta kw)
      in meta_or_none (Some (if sr_packet res = None then m else m\<lparr>packet_id := sr_packet res\<rparr>)))"

text \<open>After a failure pruning is all that follows.\<close>

definition finalize_send ::
  "string \<Rightarrow> pystr \<Rightarrow> string \<Rightarrow> kwargs \<Rightarrow> send_result \<Rightarrow> string option \<Rightarrow> string \<Rightarrow> time \<Rightarrow> hub \<Rightarrow>
     hub \<times> send_answer \<times> task list" where
  "finalize_send tr text dest kw res to_name node now h =
     (case store now (outbound_row tr text dest kw to_name (if sr_sent res then Sent else Failed)
             (sent_meta kw res) node) (hstore h) of
        (s, i) \<Rightarrow>
          (if sr_sent res then set_store h s else maybe_prune now (set_store h s), Handed_Over i res,
           if sr_sent res
           then [Tracking tr i res (kw_type kw = Some ''broadcast'' \<and> sr_ack_tracking res = None)] else []))"

text \<open>\<open>send_message\<close> until the row is in the store: the registration, the size limit, the availability,
  the adapter's answer.  An adapter that raises leaves no trace: the exception reaches the caller.\<close>

definition send_message ::
  "string \<Rightarrow> pystr \<Rightarrow> string \<Rightarrow> kwargs \<Rightarrow> bool \<Rightarrow> send_result \<Rightarrow> string option \<Rightarrow> string \<Rightarrow> time \<Rightarrow> hub \<Rightarrow>
     hub \<times> send_answer \<times> task list" where
  "send_message tr text dest kw avail res to_name node now h =
     (case map_of (adapters h) tr of
        None \<Rightarrow> (h, Not_Registered, [])
      | Some a \<Rightarrow>
          (case (ad_max_bytes a, encode_utf8 text) of
             (Some m, Inl _) \<Rightarrow> (h, Not_Encodable, [])
           | (m, bytes) \<Rightarrow>
               if (case (m, bytes) of (Some b, Inr bs) \<Rightarrow> b < length bs | _ \<Rightarrow> False) then
                 (h, Too_Long (case bytes of Inr bs \<Rightarrow> length bs | Inl _ \<Rightarrow> 0), [])
               else if \<not> avail then queue_message tr text dest kw node now h
               else if \<not> sr_sent res \<and> is_retryable_reason (sr_reason res) then
                 queue_message tr text dest kw node now h
               else finalize_send tr text dest kw res to_name node now h))"

subsection \<open>The sections of a drain\<close>

definition attempt :: "entry \<Rightarrow> entry" where
  "attempt e = e\<lparr>e_attempts := e_attempts e + 1\<rparr>"

definition raised_result :: send_result where
  "raised_result = \<lparr>sr_sent = False, sr_reason = ''exception during retry'', sr_packet = None, sr_lxm_hash = None,
     sr_ack_tracking = None, sr_expected_ack = None\<rparr>"

definition drain_taken :: "string \<Rightarrow> entry list \<Rightarrow> inputs \<Rightarrow> hub \<Rightarrow> hub \<times> task list" where
  "drain_taken tr es x h =
     (if map_of (adapters h) tr = None then (h, [Settling tr (map (\<lambda>e. (e_id e, Failed)) es)])
      else (h, [Draining tr (in_now x) (in_mono x) False es]))"

text \<open>The head of the loop: too old, over the time budget, transport down again, or sent; \<open>did\<close> says that
  something was sent or settled, which leads to pruning at the end.\<close>

definition drain_item ::
  "string \<Rightarrow> time \<Rightarrow> time \<Rightarrow> bool \<Rightarrow> entry list \<Rightarrow> inputs \<Rightarrow> hub \<Rightarrow> (hub \<times> hub_event list) \<times> task list" where
  "drain_item tr now start did es x h =
     (case es of
        [] \<Rightarrow> ((if did then maybe_prune (in_now x) h else h, []), [])
      | e # rest \<Rightarrow>
          if too_old now h e then
            (on_delivery_status_update (e_id e) tr Expired h, [Draining tr now start True rest])
          else if drain_budget h < in_mono x - start then
            ((requeue tr (filter (\<lambda>e. \<not> too_old now h e) es) h, []),
             [Settling tr (map (\<lambda>e. (e_id e, Expired)) (filter (too_old now h) es)),
              Draining tr now start (did \<or> (\<exists>e\<in>set es. too_old now h e)) []])
          else if \<not> in_avail x then ((requeue tr es h, []), [Draining tr now start did []])
          else ((h, []), [Drain_Sent tr now start did (attempt e) (with_default raised_result (in_result x)) rest]))"

definition drain_sent ::
  "string \<Rightarrow> time \<Rightarrow> time \<Rightarrow> bool \<Rightarrow> entry \<Rightarrow> send_result \<Rightarrow> entry list \<Rightarrow> hub \<Rightarrow>
     (hub \<times> hub_event list) \<times> task list" where
  "drain_sent tr now start did e res rest h =
     (if sr_sent res then
        (case on_delivery_status_update (e_id e) tr Sent h of
           (h', es) \<Rightarrow> ((h', es @ [Message_Sent (e_id e) tr Sent]), [Drain_Track tr now start (e_id e) res rest]))
      else if is_retryable_reason (sr_reason res) then ((requeue tr [e] h, []), [Draining tr now start did rest])
      else (on_delivery_status_update (e_id e) tr Failed h, [Draining tr now start True rest]))"

subsection \<open>One section of a task\<close>

definition update_first ::
  "(nat \<times> status) list \<Rightarrow> string \<Rightarrow> ((nat \<times> status) list \<Rightarrow> task) \<Rightarrow> hub \<Rightarrow> (hub \<times> hub_event list) \<times> task list" where
  "update_first us tr k h =
     (case us of [] \<Rightarrow> ((h, []), []) | (i, st) # r \<Rightarrow> (on_delivery_status_update i tr st h, [k r]))"

text \<open>An exception of \<open>enqueue\<close> leaves the caller of \<open>send_message\<close>: nothing is left to do.\<close>

definition task_step :: "task \<Rightarrow> inputs \<Rightarrow> hub \<Rightarrow> (hub \<times> hub_event list) \<times> task list" where
  "task_step t x h =
     (case t of
        Enqueueing tr e \<Rightarrow>
          (case enqueue tr e h of
             Inl _ \<Rightarrow> ((h, []), [])
           | Inr (h', evicted) \<Rightarrow>
               ((h', []),
                map (\<lambda>v. Settling tr [(e_id v, Failed)]) (list_of_option evicted) @
                [Publishing (Message_Sent (e_id e) tr Queued)]))
      | Publishing ev \<Rightarrow> ((h, [ev]), [])
      | Settling tr us \<Rightarrow> update_first us tr (Settling tr) h
      | Updating tr us \<Rightarrow> update_first us tr (Updating tr) h
      | Tracking tr i res promote \<Rightarrow>
          (case register_delivery_tracking tr i res (in_now x) (maybe_prune (in_now x) h) of
             (h', us) \<Rightarrow>
               ((h', [Message_Sent i tr Sent]), [Updating tr (us @ (if promote then [(i, Broadcast_Sent)] else []))]))
      | Drain_Taken tr es \<Rightarrow> (case drain_taken tr es x h of (h', ts) \<Rightarrow> ((h', []), ts))
      | Draining tr now start did es \<Rightarrow> drain_item tr now start did es x h
      | Drain_Sent tr now start did e res rest \<Rightarrow> drain_sent tr now start did e res rest h
      | Drain_Track tr now start i res rest \<Rightarrow>
          (case register_delivery_tracking tr i res (in_now x) h of
             (h', us) \<Rightarrow> ((h', []), [Updating tr us, Draining tr now start True rest]))
      | Sweeping xs \<Rightarrow>
          (case xs of
             [] \<Rightarrow> ((h, []), [])
           | y # r \<Rightarrow> (case pop_stale y h of (h', us) \<Rightarrow> ((h', []), [Updating (fst y) us, Sweeping r]))))"

text \<open>The message an adapter has just accepted, for the ghost.\<close>

definition newly_sent :: "task list \<Rightarrow> (nat \<times> string \<times> pystr \<times> string) list" where
  "newly_sent ts = concat (map (\<lambda>t. case t of
     Drain_Sent tr _ _ _ e res _ \<Rightarrow> if sr_sent res then [(e_id e, tr, e_text e, e_dest e)] else [] | _ \<Rightarrow> []) ts)"

subsection \<open>Labels\<close>

datatype hub_label =
    Send string pystr string kwargs bool send_result "string option" string time
  | Receive new_message time
  | Drain string
  | Expire_Tick time
  | Sweep_Tick time time
  | Key_Ack string string status
  | Mesh_Ack nat bool
  | Read_Receipt int
  | React int pystr string string time
  | Mark_Read string
  | Delete_Conversation string
  | Register_Adapter string adapter_kind "nat option"
  | Drop_Adapters
  | Run nat inputs

definition hub_call :: "hub_label \<Rightarrow> hub \<Rightarrow> (hub \<times> hub_event list) \<times> task list" where
  "hub_call l h =
     (case l of
        Send tr text dest kw avail res to_name node now \<Rightarrow>
          (case send_message tr text dest kw avail res to_name node now h of (h', _, ts) \<Rightarrow> ((h', []), ts))
      | Receive m now \<Rightarrow>
          (case store now (m\<lparr>n_direction := Inbound, n_status := Received\<rparr>) (hstore h) of
             (s, i) \<Rightarrow> ((maybe_prune now (set_store h s), [Message_Received i (n_transport m)]), []))
      | Drain tr \<Rightarrow>
          (case take_queue tr h of (h', es) \<Rightarrow> ((h', []), if es = [] then [] else [Drain_Taken tr es]))
      | Expire_Tick now \<Rightarrow>
          (case expire_queued now h of (h', xs) \<Rightarrow> ((h', []), map (\<lambda>(tr, i). Settling tr [(i, Expired)]) xs))
      | Sweep_Tick now max_age \<Rightarrow> ((h, []), [Sweeping (stale_pending now max_age h)])
      | Key_Ack tr key st \<Rightarrow>
          if tr = ''meshtastic'' \<or> st \<notin> {Delivered, Propagated, Delivery_Failed} then ((h, []), [])
          else (case ack_by_key tr key st h of (h', us) \<Rightarrow> ((h', []), [Updating tr us]))
      | Mesh_Ack i acked \<Rightarrow> (case mesh_on_ack i acked h of (h', us) \<Rightarrow> ((h', []), [Updating ''meshtastic'' us]))
      | Read_Receipt pid \<Rightarrow>
          if pid = 0 then ((h, []), [])
          else ((h, []), [Updating ''meshtastic''
             (map (\<lambda>i. (i, Read_By_Peer)) (list_of_option (find_sent_by_packet_id pid (hstore h))))])
      | React pid e f n now \<Rightarrow> if pid = 0 then ((h, []), []) else ((set_store h (fst (add_reaction pid e f n now (hstore h))), []), [])
      | Mark_Read c \<Rightarrow> ((set_store h (fst (mark_read c (hstore h))), []), [])
      | Delete_Conversation c \<Rightarrow>
          (case delete_conversation c (hstore h) of
             (s, n) \<Rightarrow> ((set_store h s, if 0 < n then [Conversation_Deleted c n] else []), []))
      | Register_Adapter tr kind m \<Rightarrow>
          ((h\<lparr>adapters := AList.update tr \<lparr>ad_kind = kind, ad_max_bytes = m, ad_pending = [], ad_bound = []\<rparr> (adapters h)\<rparr>,
            []), [])
      | Drop_Adapters \<Rightarrow> ((h\<lparr>adapters := []\<rparr>, []), [])
      | Run _ _ \<Rightarrow> ((h, []), []))"

definition advance :: "(hub \<times> hub_event list) \<times> task list \<Rightarrow> task list \<Rightarrow> msys \<Rightarrow> msys" where
  "advance r rest y =
     y\<lparr>hub := fst (fst r), tasks := rest @ snd r, published := published y @ snd (fst r),
       transmitted := transmitted y @ newly_sent (snd r)\<rparr>"

definition hub_step :: "hub_label \<Rightarrow> msys \<Rightarrow> msys" where
  "hub_step l y =
     (case l of
        Run i x \<Rightarrow>
          if i < length (tasks y)
          then advance (task_step (tasks y ! i) x (hub y)) (take i (tasks y) @ drop (Suc i) (tasks y)) y
          else y
      | _ \<Rightarrow> advance (hub_call l (hub y)) (tasks y) y)"

primrec hub_run :: "hub_label list \<Rightarrow> msys \<Rightarrow> msys" where
  "hub_run [] y = y"
| "hub_run (l # ls) y = hub_run ls (hub_step l y)"

definition boot_hub :: "hub \<Rightarrow> msys" where
  "boot_hub h = \<lparr>hub = h, tasks = [], published = [], transmitted = []\<rparr>"

end
