(* ===== verification/Hub_Invariant.thy ===== *)
theory Hub_Invariant
  imports Hub_Machine "HOL-Library.Multiset"
begin

text \<open>
  Who is responsible for a queued message: a queue entry, or a thread that has taken it and not yet settled
  it.  Every section hands each responsibility on or settles the message's status.
\<close>

subsection \<open>Responsibilities\<close>

abbreviation ids :: "entry list \<Rightarrow> nat multiset" where
  "ids es \<equiv> mset (map e_id es)"

fun own_task :: "task \<Rightarrow> nat multiset" where
  "own_task (Enqueueing _ e) = {#e_id e#}"
| "own_task (Settling _ us) = mset (map fst us)"
| "own_task (Drain_Taken _ es) = ids es"
| "own_task (Draining _ _ _ _ es) = ids es"
| "own_task (Drain_Sent _ _ _ _ e _ rest) = add_mset (e_id e) (ids rest)"
| "own_task (Drain_Track _ _ _ _ _ rest) = ids rest"
| "own_task _ = {#}"

text \<open>Without the message an adapter has just accepted.\<close>

fun wait_task :: "task \<Rightarrow> nat multiset" where
  "wait_task (Drain_Sent _ _ _ _ e res rest) = (if sr_sent res then {#} else {#e_id e#}) + ids rest"
| "wait_task t = own_task t"

definition own_tasks :: "task list \<Rightarrow> nat multiset" where
  "own_tasks ts = sum_list (map own_task ts)"

definition wait_tasks :: "task list \<Rightarrow> nat multiset" where
  "wait_tasks ts = sum_list (map wait_task ts)"

definition own_hub :: "hub \<Rightarrow> nat multiset" where
  "own_hub h = sum_list (map (\<lambda>(_, q). ids q) (queues h))"

definition sent_ids :: "(nat \<times> string \<times> pystr \<times> string) list \<Rightarrow> nat multiset" where
  "sent_ids xs = mset (map fst xs)"

lemma own_tasks_simps [simp]:
  "own_tasks [] = {#}" "own_tasks (t # ts) = own_task t + own_tasks ts"
  "own_tasks (ts @ us) = own_tasks ts + own_tasks us"
  "wait_tasks [] = {#}" "wait_tasks (t # ts) = wait_task t + wait_tasks ts"
  "wait_tasks (ts @ us) = wait_tasks ts + wait_tasks us"
  by (simp_all add: own_tasks_def wait_tasks_def)

lemma newly_sent_simps [simp]:
  "newly_sent [] = []"
  "newly_sent (t # ts) = (case t of Drain_Sent tr _ _ _ e res _ \<Rightarrow>
     if sr_sent res then [(e_id e, tr, e_text e, e_dest e)] else [] | _ \<Rightarrow> []) @ newly_sent ts"
  by (simp_all add: newly_sent_def)

lemma sent_ids_simps [simp]:
  "sent_ids [] = {#}" "sent_ids (x # xs) = add_mset (fst x) (sent_ids xs)" "sent_ids (xs @ ys) = sent_ids xs + sent_ids ys"
  by (simp_all add: sent_ids_def)

lemma sum_dict_set:
  fixes f :: "'v \<Rightarrow> 'a multiset"
  assumes "dict_ok d"
  shows "sum_list (map (\<lambda>(_, v). f v) (AList.update k v d)) + (case map_of d k of None \<Rightarrow> {#} | Some w \<Rightarrow> f w) =
    sum_list (map (\<lambda>(_, v). f v) d) + f v"
  using assms
proof (induction d)
  case (Cons kv d)
  obtain k' w where kv: "kv = (k', w)" by (cases kv)
  show ?case
  proof (cases "k = k'")
    case True
    then show ?thesis using kv by simp
  next
    case False
    then show ?thesis using Cons kv by (simp add: ac_simps)
  qed
qed simp

lemma own_put:
  "dict_ok (queues h) \<Longrightarrow> own_hub (put_queue tr q h) + ids (queue_of tr h) = own_hub h + ids q"
  using sum_dict_set [of "queues h" ids tr q]
  by (cases "map_of (queues h) tr") (simp_all add: own_hub_def put_queue_def queue_of_def with_default_def)

lemma own_requeue: "dict_ok (queues h) \<Longrightarrow> own_hub (requeue tr es h) = own_hub h + ids es"
  using own_put [of h tr "queue_of tr h @ es"] by (simp add: requeue_def)

lemma own_take:
  "dict_ok (queues h) \<Longrightarrow> take_queue tr h = (h', es) \<Longrightarrow> own_hub h' + ids es = own_hub h"
  using own_put [of h tr "[]"] by (auto simp: take_queue_def split: if_splits)

lemma own_enqueue:
  assumes "dict_ok (queues h)" "enqueue tr e h = Inr (h', v)"
  shows "own_hub h' + ids (list_of_option v) = add_mset (e_id e) (own_hub h)"
proof (cases "outbound_max h \<le> int (length (queue_of tr h))")
  case True
  then obtain x r where q: "queue_of tr h = x # r" "h' = put_queue tr (r @ [e]) h" "v = Some x"
    using assms(2) by (auto simp: enqueue_def Let_def split: list.splits)
  have "(own_hub h' + {#e_id x#}) + ids r = (own_hub h + {#e_id e#}) + ids r"
    using own_put [OF assms(1), of tr "r @ [e]"] q by (simp add: ac_simps)
  then show ?thesis using q by (simp only: add_right_cancel) simp
next
  case False
  then have q: "h' = requeue tr [e] h" "v = None"
    using assms(2) by (auto simp: enqueue_def Let_def requeue_def)
  then show ?thesis using own_requeue [OF assms(1), of tr "[e]"] by simp
qed

lemma own_expire_list:
  fixes d :: "(string, entry list) pydict"
  shows "sum_list (map (\<lambda>(_, q). ids q) (map (\<lambda>(tr, q). (tr, filter (\<lambda>e. \<not> P e) q)) d)) +
      mset (map snd (concat (map (\<lambda>(tr, q). map (\<lambda>e. (tr, e_id e)) (filter P q)) d))) =
    sum_list (map (\<lambda>(_, q). ids q) d)"
proof (induction d)
  case (Cons kv d)
  obtain tr q where kv: "kv = (tr, q)" by (cases kv)
  have "ids (filter (\<lambda>e. \<not> P e) q) + mset (map snd (map (\<lambda>e. (tr, e_id e)) (filter P q))) = ids q" for q
    by (induction q) auto
  then have "(ids (filter (\<lambda>e. \<not> P e) q) + A) + (mset (map snd (map (\<lambda>e. (tr, e_id e)) (filter P q))) + B) =
      ids q + (A + B)" for A B
    by (metis (no_types) add.assoc add.left_commute)
  then show ?case using Cons.IH kv by (simp only: list.map concat.simps map_append mset_append sum_list.Cons prod.case)
qed simp

lemma own_expire:
  "own_hub (fst (expire_queued now h)) + mset (map snd (snd (expire_queued now h))) = own_hub h"
  using own_expire_list [of "too_old now h" "queues h"] by (simp only: own_hub_def expire_queued_def fst_conv snd_conv) simp

subsection \<open>What a section does to the rows\<close>

definition rank :: "status \<Rightarrow> nat" where
  "rank st = (case st of Queued \<Rightarrow> 0 | Sent \<Rightarrow> 1 | _ \<Rightarrow> 2)"

definition packet_of :: "message \<Rightarrow> int option" where
  "packet_of r = Option.bind (m_meta r) packet_id"

text \<open>The same message, at the same or a later stage of its life.\<close>

definition later_row :: "message \<Rightarrow> message \<Rightarrow> bool" where
  "later_row q r \<longleftrightarrow> m_id r = m_id q \<and> m_transport r = m_transport q \<and> m_direction r = m_direction q \<and>
     m_text r = m_text q \<and> m_to r = m_to q \<and> packet_of r = packet_of q \<and> rank (m_status q) \<le> rank (m_status r)"

text \<open>Rows of \<open>D\<close> are settled, only rows of \<open>T\<close> change their status.\<close>

definition rows_evolve :: "nat set \<Rightarrow> nat set \<Rightarrow> msg_store \<Rightarrow> msg_store \<Rightarrow> bool" where
  "rows_evolve D T s s' \<longleftrightarrow> last_rowid s' = last_rowid s \<and> (store_ok s \<longrightarrow> store_ok s') \<and>
     (\<forall>r\<in>set (table s'). (m_id r \<in> D \<longrightarrow> m_status r \<noteq> Queued) \<and>
        (\<exists>q\<in>set (table s). later_row q r \<and> (m_id r \<in> T \<or> m_status r = m_status q)))"

lemma later_row_refl [simp]: "later_row q q"
  by (simp add: later_row_def)

lemma later_row_trans: "later_row p q \<Longrightarrow> later_row q r \<Longrightarrow> later_row p r"
  by (auto simp: later_row_def)

lemma rank_0 [simp]: "rank st = 0 \<longleftrightarrow> st = Queued"
  by (cases st) (simp_all add: rank_def)

lemma rank_le_2 [simp]: "rank st \<le> 2"
  by (cases st) (simp_all add: rank_def)

lemma rows_refl [simp]: "rows_evolve {} T s s"
  unfolding rows_evolve_def using later_row_refl by blast

lemma rows_mono: "rows_evolve D T s s' \<Longrightarrow> T \<subseteq> T' \<Longrightarrow> rows_evolve D T' s s'"
  unfolding rows_evolve_def by blast

lemma rows_map:
  assumes "store_ok s \<longrightarrow> store_ok (map_rows P f s)"
    and "\<And>r. r \<in> set (table s) \<Longrightarrow> P r \<Longrightarrow> later_row r (f r) \<and> (m_id r \<in> T \<or> m_status (f r) = m_status r)"
    and "\<And>r. r \<in> set (table s) \<Longrightarrow> m_id r \<in> D \<Longrightarrow> m_status (if P r then f r else r) \<noteq> Queued"
  shows "rows_evolve D T s (map_rows P f s)"
proof -
  have "(m_id r' \<in> D \<longrightarrow> m_status r' \<noteq> Queued) \<and>
      (\<exists>q\<in>set (table s). later_row q r' \<and> (m_id r' \<in> T \<or> m_status r' = m_status q))"
    if r': "r' \<in> set (table (map_rows P f s))" for r'
  proof -
    obtain r where r: "r \<in> set (table s)" "r' = (if P r then f r else r)"
      using r' by (auto simp: map_rows_def)
    have l: "later_row r r' \<and> (m_id r \<in> T \<or> m_status r' = m_status r)" using r assms(2) by simp
    then have i: "m_id r' = m_id r" by (simp add: later_row_def)
    have "m_id r' \<in> D \<longrightarrow> m_status r' \<noteq> Queued" using i r assms(3) [OF r(1)] by simp
    then show ?thesis using i l r(1) by fastforce
  qed
  then show ?thesis using assms(1) by (simp add: rows_evolve_def map_rows_def)
qed

lemma rows_filter: "rows_evolve {} T s (s\<lparr>table := filter P (table s)\<rparr>)"
  using filter_rows_ok [of s P] later_row_refl unfolding rows_evolve_def by fastforce

lemma rows_update:
  assumes "st \<noteq> Queued" "\<And>r. r \<in> set (table s) \<Longrightarrow> m_id r = i \<Longrightarrow> rank (m_status r) \<le> rank st"
  shows "rows_evolve {i} {i} s (update_status i st s)"
  unfolding update_status_def
  by (rule rows_map) (use assms in \<open>auto simp: map_rows_ok later_row_def packet_of_def\<close>)

lemma rows_unless:
  assumes "rank st = 2"
  shows "rows_evolve {i} {i} s (fst (update_status_unless_terminal i st terminal_statuses s))"
proof -
  have q: "Queued \<notin> set terminal_statuses" "st \<noteq> Queued"
    using assms by (auto simp: terminal_statuses_def rank_def)
  show ?thesis
    unfolding update_status_unless_terminal_def Let_def fst_conv
    by (rule rows_map) (use assms q in \<open>auto simp: map_rows_ok later_row_def packet_of_def\<close>)
qed

lemma rows_delivery:
  assumes "st \<noteq> Queued" "\<And>r. r \<in> set (table (hstore h)) \<Longrightarrow> m_id r = i \<Longrightarrow> rank (m_status r) \<le> rank st"
  shows "rows_evolve {i} {i} (hstore h) (hstore (fst (on_delivery_status_update i tr st h)))"
proof (cases "st \<in> set non_overwriting")
  case True
  then have "rank st = 2" by (auto simp: non_overwriting_def rank_def)
  then show ?thesis
    using True rows_unless [of st i "hstore h"]
    by (auto simp: on_delivery_status_update_def split: prod.splits bool.splits)
next
  case False
  then show ?thesis using rows_update [OF assms] by (simp add: on_delivery_status_update_def)
qed

lemma rows_prune: "rows_evolve {} T (hstore h) (hstore (maybe_prune now h))"
  using prune_filter [of "history_limit h" "hstore h"] by (auto simp: maybe_prune_def rows_filter)

lemma rows_mark_read: "rows_evolve {} T s (fst (mark_read c s))"
  unfolding mark_read_def Let_def fst_conv
  by (rule rows_map) (auto simp: map_rows_ok later_row_def packet_of_def)

lemma rows_delete: "rows_evolve {} T s (fst (delete_conversation c s))"
  unfolding delete_conversation_def fst_conv by (rule rows_filter)

lemma rows_reaction:
  assumes "store_ok s"
  shows "rows_evolve {} T s (fst (add_reaction pid e f n now s))"
proof -
  let ?rs = "newest_first (filter (\<lambda>r. Option.bind (m_meta r) packet_id = Some pid \<and> m_transport r = ''meshtastic'') (table s))"
  show ?thesis
  proof (cases ?rs)
    case Nil
    then show ?thesis by (simp add: add_reaction_def)
  next
    case (Cons r rs)
    have "r \<in> set ?rs" using Cons by simp
    then have r: "r \<in> set (table s)" by (simp add: newest_first_def)
    have same: "q = r" if "q \<in> set (table s)" "m_id q = m_id r" for q
      using store_ok_ids(1) [OF assms] that r by (auto simp: distinct_map dest: inj_onD)
    have k: "packet_id (case m_meta r of Some m \<Rightarrow> m | None \<Rightarrow> empty_meta) = packet_of r"
      by (simp add: packet_of_def empty_meta_def split: option.split)
    show ?thesis
      unfolding add_reaction_def Cons Let_def list.case
      by (auto intro!: rows_map simp: map_rows_ok later_row_def k [symmetric] dest!: same)
        (simp_all add: packet_of_def)
  qed
qed

subsection \<open>The invariant\<close>

fun tracked_task :: "task \<Rightarrow> nat set" where
  "tracked_task (Updating _ us) = fst ` set us"
| "tracked_task (Tracking _ i _ _) = {i}"
| "tracked_task (Drain_Track _ _ _ i _ _) = {i}"
| "tracked_task (Sweeping xs) = (snd \<circ> snd) ` set xs"
| "tracked_task _ = {}"

definition tracked_adapter :: "adapter \<Rightarrow> nat set" where
  "tracked_adapter a = (fst \<circ> snd) ` set (ad_pending a) \<union> set (ad_bound a)"

definition tracked_hub :: "hub \<Rightarrow> nat set" where
  "tracked_hub h = (\<Union>(tr, a)\<in>set (adapters h). tracked_adapter a)"

definition tracked_tasks :: "task list \<Rightarrow> nat set" where
  "tracked_tasks ts = (\<Union>t\<in>set ts. tracked_task t)"

fun task_ok :: "task \<Rightarrow> bool" where
  "task_ok (Settling _ us) = (\<forall>u\<in>set us. snd u = Failed \<or> snd u = Expired)"
| "task_ok (Updating _ us) = (\<forall>u\<in>set us. rank (snd u) = 2)"
| "task_ok _ = True"

definition waits :: "message \<Rightarrow> bool" where
  "waits r = (m_direction r = Outbound \<and> m_status r = Queued)"

definition hub_inv :: "hub \<Rightarrow> task list \<Rightarrow> (nat \<times> string \<times> pystr \<times> string) list \<Rightarrow> bool" where
  "hub_inv h ts tx \<longleftrightarrow> dict_ok (queues h) \<and> store_ok (hstore h) \<and> 0 < outbound_max h \<and>
     (\<forall>i. count (own_hub h + own_tasks ts) i \<le> 1) \<and>
     (\<forall>r\<in>set (table (hstore h)). waits r \<longrightarrow> m_id r \<in># own_hub h + own_tasks ts) \<and>
     (\<forall>i. i \<in># own_hub h + own_tasks ts \<longrightarrow> i \<le> last_rowid (hstore h) \<and>
        (\<forall>r\<in>set (table (hstore h)). m_id r = i \<longrightarrow> m_status r = Queued \<and> packet_of r = None)) \<and>
     (\<forall>i. i \<in> tracked_hub h \<union> tracked_tasks ts \<longrightarrow> i \<le> last_rowid (hstore h) \<and> i \<notin># own_hub h + own_tasks ts) \<and>
     (\<forall>t\<in>set ts. task_ok t) \<and>
     distinct (map fst tx) \<and>
     (\<forall>i\<in>fst ` set tx. i \<le> last_rowid (hstore h) \<and> i \<notin># own_hub h + wait_tasks ts)"

lemma tracked_tasks_simps [simp]:
  "tracked_tasks [] = {}" "tracked_tasks (t # ts) = tracked_task t \<union> tracked_tasks ts"
  "tracked_tasks (ts @ us) = tracked_tasks ts \<union> tracked_tasks us"
  by (auto simp: tracked_tasks_def)

lemma hub_inv_first:
  assumes "i < length ts"
  shows "hub_inv h ts tx \<longleftrightarrow> hub_inv h (ts ! i # take i ts @ drop (Suc i) ts) tx"
proof -
  have s: "ts = take i ts @ ts ! i # drop (Suc i) ts" using assms by (rule id_take_nth_drop)
  have "own_tasks ts = own_tasks (ts ! i # take i ts @ drop (Suc i) ts)"
    "wait_tasks ts = wait_tasks (ts ! i # take i ts @ drop (Suc i) ts)"
    "tracked_tasks ts = tracked_tasks (ts ! i # take i ts @ drop (Suc i) ts)"
    "set ts = set (ts ! i # take i ts @ drop (Suc i) ts)"
    by (subst s, simp add: ac_simps, blast?)+
  then show ?thesis unfolding hub_inv_def by presburger
qed

lemma distinct_if_count: "(\<And>i. count (mset xs) i \<le> 1) \<Longrightarrow> distinct xs"
proof (induction xs)
  case (Cons a xs)
  have "count (mset xs) i \<le> count (mset (a # xs)) i" for i by simp
  then have "count (mset xs) i \<le> 1" for i using Cons.prems [of i] le_trans by blast
  moreover have "count (mset xs) a = 0" using Cons.prems [of a] by simp
  then have "a \<notin> set xs" by (simp add: count_eq_zero_iff)
  ultimately show ?case using Cons.IH by simp
qed simp

lemma hub_invD:
  assumes "hub_inv h ts tx"
  shows "dict_ok (queues h)" "store_ok (hstore h)" "0 < outbound_max h"
    and "\<forall>i. count (own_hub h + own_tasks ts) i \<le> 1"
    and "\<forall>r\<in>set (table (hstore h)). waits r \<longrightarrow> m_id r \<in># own_hub h + own_tasks ts"
    and "\<forall>i. i \<in># own_hub h + own_tasks ts \<longrightarrow> i \<le> last_rowid (hstore h) \<and>
        (\<forall>r\<in>set (table (hstore h)). m_id r = i \<longrightarrow> m_status r = Queued \<and> packet_of r = None)"
    and "\<forall>i. i \<in> tracked_hub h \<union> tracked_tasks ts \<longrightarrow> i \<le> last_rowid (hstore h) \<and> i \<notin># own_hub h + own_tasks ts"
    and "\<forall>t\<in>set ts. task_ok t" "distinct (map fst tx)"
    and "\<forall>i\<in>fst ` set tx. i \<le> last_rowid (hstore h) \<and> i \<notin># own_hub h + wait_tasks ts"
  using assms unfolding hub_inv_def by - ((elim conjE, assumption)+)

lemma wait_own: "wait_task t \<subseteq># own_task t"
  by (cases t) auto

lemma waits_own: "wait_tasks ts \<subseteq># own_tasks ts"
  by (induction ts) (auto intro: subset_mset.add_mono wait_own)

text \<open>A section that settles the messages \<open>D\<close>, changes the status of rows of \<open>T\<close> only, and hands on the
  rest keeps the invariant.\<close>

lemma hub_inv_move:
  assumes inv: "hub_inv h (t # rest) tx"
    and cfg: "dict_ok (queues h')" "outbound_max h' = outbound_max h"
    and ev: "rows_evolve (set_mset D) T (hstore h) (hstore h')"
    and own: "own_hub h' + own_tasks ts + D = own_hub h + own_task t"
    and wait: "own_hub h' + wait_tasks ts + sent_ids (newly_sent ts) \<subseteq># own_hub h + wait_task t"
    and touch: "T \<subseteq> set_mset D \<union> tracked_task t"
    and track: "tracked_hub h' \<union> tracked_tasks ts \<subseteq> tracked_hub h \<union> tracked_task t \<union> set_mset D"
    and tok: "\<forall>t\<in>set ts. task_ok t"
  shows "hub_inv h' (rest @ ts) (tx @ newly_sent ts)"
proof -
  let ?O = "own_hub h + own_tasks (t # rest)"
  let ?O' = "own_hub h' + own_tasks (rest @ ts)"
  note I = hub_invD [OF inv]
  have split: "?O = ?O' + D" using own by (simp add: ac_simps)
  have sum: "count ?O' i + count D i \<le> 1" for i
    using I(4) unfolding split count_union [of ?O' D] by blast
  have new: "i \<in># ?O' \<Longrightarrow> i \<in># ?O" "i \<in># D \<Longrightarrow> i \<in># ?O" for i
    unfolding split union_iff [of i ?O' D] by (rule disjI1, assumption) (rule disjI2, assumption)
  have gone: "i \<notin># ?O'" if "i \<in># D" for i
  proof -
    have "0 < count D i" using that by simp
    then have "count ?O' i = 0" using sum [of i] by linarith
    then show ?thesis by (simp only: not_in_iff)
  qed
  have e: "last_rowid (hstore h') = last_rowid (hstore h)" "store_ok (hstore h')"
    using ev I(2) unfolding rows_evolve_def by blast+
  have row: "(m_id r \<in># D \<longrightarrow> m_status r \<noteq> Queued) \<and>
      (\<exists>q\<in>set (table (hstore h)). later_row q r \<and> (m_id r \<in> T \<or> m_status r = m_status q))"
    if "r \<in> set (table (hstore h'))" for r
    using ev that unfolding rows_evolve_def by blast
  have "waits r \<longrightarrow> m_id r \<in># ?O'" if r: "r \<in> set (table (hstore h'))" for r
  proof
    assume w: "waits r"
    obtain q where q: "q \<in> set (table (hstore h))" "later_row q r" using row [OF r] by blast
    have "rank (m_status q) \<le> rank (m_status r)" "m_direction q = m_direction r" "m_id q = m_id r"
      using q(2) by (simp_all add: later_row_def)
    moreover have "rank (m_status r) = 0" using w by (simp add: waits_def)
    ultimately have "waits q" "m_id q = m_id r" using w by (simp_all add: waits_def)
    then have "m_id r \<in># ?O" using I(5) q(1) by metis
    moreover have "m_id r \<notin># D" using row [OF r] w by (auto simp: waits_def)
    ultimately show "m_id r \<in># ?O'" unfolding split union_iff [of "m_id r" ?O' D] by blast
  qed
  moreover have "i \<le> last_rowid (hstore h') \<and>
      (\<forall>r\<in>set (table (hstore h')). m_id r = i \<longrightarrow> m_status r = Queued \<and> packet_of r = None)" if i: "i \<in># ?O'" for i
  proof -
    have "m_status r = Queued \<and> packet_of r = None" if r: "r \<in> set (table (hstore h'))" "m_id r = i" for r
    proof -
      obtain q where q: "q \<in> set (table (hstore h))" "later_row q r" "m_id r \<in> T \<or> m_status r = m_status q"
        using row [OF r(1)] by blast
      have "m_id r \<notin> T"
        using touch gone [of "m_id r"] i r(2) I(7) new(1) [OF i] by auto
      moreover have "m_status q = Queued \<and> packet_of q = None"
      proof -
        have "m_id q = i" using q(2) r(2) by (simp add: later_row_def)
        then show ?thesis using I(6) new(1) [OF i] q(1) by blast
      qed
      ultimately show ?thesis using q by (simp add: later_row_def)
    qed
    then show ?thesis unfolding e(1) using I(6) new(1) [OF i] by blast
  qed
  moreover have "i \<le> last_rowid (hstore h') \<and> i \<notin># ?O'" if i: "i \<in> tracked_hub h' \<union> tracked_tasks (rest @ ts)" for i
  proof (cases "i \<in># D")
    case True
    then show ?thesis unfolding e(1) using gone [OF True] I(6) new(2) [OF True] by blast
  next
    case False
    then have "i \<in> tracked_hub h \<union> tracked_tasks (t # rest)" using i track by auto
    then show ?thesis unfolding e(1) using I(7) new(1) [of i] by blast
  qed
  moreover have "distinct (map fst (tx @ newly_sent ts)) \<and> (\<forall>i\<in>fst ` set (tx @ newly_sent ts).
      i \<le> last_rowid (hstore h') \<and> i \<notin># own_hub h' + wait_tasks (rest @ ts))"
  proof -
    let ?W = "own_hub h + wait_tasks (t # rest)" and ?W' = "own_hub h' + wait_tasks (rest @ ts)"
    let ?N = "mset (map fst (newly_sent ts))"
    have sub: "?W' + ?N \<subseteq># ?W" "?W \<subseteq># ?O"
      using subset_mset.add_right_mono [OF wait, of "wait_tasks rest"] waits_own [of "t # rest"]
      by (simp_all add: ac_simps sent_ids_def)
    have c: "count ?W' i + count ?N i \<le> 1" for i
      using mset_subset_eq_count [OF subset_mset.order_trans [OF sub], of i] I(4) [rule_format, of i] by simp
    have out: "i \<notin># ?W'" if "i \<in># ?N" for i
    proof -
      have "0 < count ?N i" using that by simp
      then have "count ?W' i = 0" using c [of i] by linarith
      then show ?thesis by (simp only: not_in_iff)
    qed
    have "distinct (map fst (newly_sent ts))"
      by (rule distinct_if_count) (use c in \<open>metis add_leD2\<close>)
    moreover have inW: "i \<in># ?W'  \<or> i \<in># ?N \<Longrightarrow> i \<in># ?W" for i
      using mset_subset_eqD [OF sub(1), of i] by (simp only: union_iff)
    have old: "i \<notin># ?W \<and> i \<le> last_rowid (hstore h)" if "i \<in> fst ` set tx" for i
      using I(10) that by blast
    have fresh: "i \<notin># ?W' \<and> i \<in># ?W \<and> i \<le> last_rowid (hstore h)" if "i \<in> fst ` set (newly_sent ts)" for i
    proof -
      have "i \<in># ?N" using that by simp
      then show ?thesis using out inW I(6) mset_subset_eqD [OF sub(2), of i] by blast
    qed
    have "fst ` set tx \<inter> fst ` set (newly_sent ts) = {}" using old fresh by blast
    moreover have "i \<le> last_rowid (hstore h') \<and> i \<notin># ?W'" if "i \<in> fst ` set tx \<union> fst ` set (newly_sent ts)" for i
      unfolding e(1) using that old fresh inW [of i] by blast
    ultimately show ?thesis using I(9) by (simp only: map_append distinct_append set_append image_Un set_map) blast
  qed
  moreover have "count ?O' i \<le> 1" for i using sum [of i] by linarith
  ultimately show ?thesis
    unfolding hub_inv_def using cfg I(3,8) tok e(2)
    by (auto simp del: union_iff)
qed

subsection \<open>Every section of a task keeps the invariant\<close>

lemma own_same: "queues h' = queues h \<Longrightarrow> own_hub h' = own_hub h"
  by (simp add: own_hub_def)

lemma tracked_same: "adapters h' = adapters h \<Longrightarrow> tracked_hub h' = tracked_hub h"
  by (simp add: tracked_hub_def)

lemma delivery_fields [simp]:
  "queues (fst (on_delivery_status_update i tr st h)) = queues h"
  "adapters (fst (on_delivery_status_update i tr st h)) = adapters h"
  "outbound_max (fst (on_delivery_status_update i tr st h)) = outbound_max h"
  "own_hub (fst (on_delivery_status_update i tr st h)) = own_hub h"
  "tracked_hub (fst (on_delivery_status_update i tr st h)) = tracked_hub h"
  by (simp_all add: on_delivery_status_update_def own_hub_def tracked_hub_def split: prod.split bool.split)

lemma prune_fields [simp]:
  "queues (maybe_prune now h) = queues h" "adapters (maybe_prune now h) = adapters h"
  "outbound_max (maybe_prune now h) = outbound_max h" "own_hub (maybe_prune now h) = own_hub h"
  "tracked_hub (maybe_prune now h) = tracked_hub h"
  by (simp_all add: maybe_prune_def own_hub_def tracked_hub_def)

lemma put_queue_fields [simp]:
  "hstore (put_queue tr q h) = hstore h" "adapters (put_queue tr q h) = adapters h"
  "outbound_max (put_queue tr q h) = outbound_max h" "tracked_hub (put_queue tr q h) = tracked_hub h"
  "dict_ok (queues h) \<Longrightarrow> dict_ok (queues (put_queue tr q h))"
  by (simp_all add: put_queue_def tracked_hub_def)

lemma requeue_fields [simp]:
  "hstore (requeue tr q h) = hstore h" "adapters (requeue tr q h) = adapters h"
  "outbound_max (requeue tr q h) = outbound_max h" "tracked_hub (requeue tr q h) = tracked_hub h"
  "dict_ok (queues h) \<Longrightarrow> dict_ok (queues (requeue tr q h))"
  by (simp_all add: requeue_def)

lemma tracked_update:
  assumes "tracked_adapter a' \<subseteq> tracked_hub h \<union> X"
  shows "tracked_hub (h\<lparr>adapters := AList.update tr a' (adapters h)\<rparr>) \<subseteq> tracked_hub h \<union> X"
proof -
  have "set (AList.update tr a' d) \<subseteq> insert (tr, a') (set d)" for d :: "(string, adapter) pydict"
    by (induction d) auto
  then show ?thesis using assms by (fastforce simp: tracked_hub_def)
qed

lemma tracked_member: "map_of (adapters h) tr = Some a \<Longrightarrow> tracked_adapter a \<subseteq> tracked_hub h"
  by (auto simp: tracked_hub_def dest: map_of_SomeD)

lemma set_update_subset: "set (AList.update k v d) \<subseteq> insert (k, v) (set d)"
  by (induction d) auto

abbreviation pend_ids :: "(track_key, nat \<times> time) pydict \<Rightarrow> nat set" where
  "pend_ids d \<equiv> (fst \<circ> snd) ` set d"

lemma pend_update: "pend_ids (AList.update k (i, t) d) \<subseteq> insert i (pend_ids d)"
  by (induction d) auto

lemma pend_delete: "pend_ids (AList.delete k d) \<subseteq> pend_ids d"
  by (auto simp: AList.delete_eq)

lemma lxmf_track_ids:
  assumes "lxmf_track i key now a = (a', v)"
  shows "tracked_adapter a' \<union> set (list_of_option v) \<subseteq> insert i (tracked_adapter a)"
proof -
  define vic where
    "vic = (if pending_cap \<le> length (ad_pending a) then first_min (\<lambda>(_, _, t). t) (ad_pending a) else None)"
  define kept where "kept = (case vic of None \<Rightarrow> ad_pending a | Some (k, _) \<Rightarrow> AList.delete k (ad_pending a))"
  have r: "a' = a\<lparr>ad_pending := AList.update (Key_Text key) (i, now) kept\<rparr>" "v = map_option (\<lambda>(_, j, _). j) vic"
    using assms by (simp_all add: lxmf_track_def Let_def vic_def kept_def)
  have "pend_ids kept \<subseteq> pend_ids (ad_pending a)"
    using pend_delete by (auto simp: kept_def split: option.split prod.split)
  then have "pend_ids (AList.update (Key_Text key) (i, now) kept) \<subseteq> insert i (pend_ids (ad_pending a))"
    by (rule order_trans [OF pend_update insert_mono])
  note Un_mono [OF this order_refl [of "set (ad_bound a)"]]
  then have "tracked_adapter a' \<subseteq> insert i (pend_ids (ad_pending a)) \<union> set (ad_bound a)"
    unfolding r(1) tracked_adapter_def by simp
  then have "tracked_adapter a' \<subseteq> insert i (tracked_adapter a)" by (simp only: tracked_adapter_def Un_insert_left)
  moreover have "set (list_of_option v) \<subseteq> tracked_adapter a"
  proof (cases vic)
    case (Some x)
    then have x: "x \<in> set (ad_pending a)" by (auto simp: vic_def split: if_splits dest: first_min_member)
    obtain k j t where "x = (k, j, t)" by (cases x)
    then show ?thesis using Some r(2) image_eqI [OF _ x, of j "fst \<circ> snd"] by (simp add: tracked_adapter_def)
  qed (simp add: r(2))
  ultimately show ?thesis by blast
qed

lemma mesh_track_ids:
  "tracked_adapter (a\<lparr>ad_pending := AList.update k (i, t) (ad_pending a)\<rparr>) \<subseteq> insert i (tracked_adapter a)"
  "tracked_adapter (a\<lparr>ad_bound := i # ad_bound a\<rparr>) \<subseteq> insert i (tracked_adapter a)"
  using pend_update [of k i t "ad_pending a"] by (auto simp: tracked_adapter_def)

text \<open>What the hub relies on when it registers a message with a transport adapter: tracking adds no number but
  the given one, and an evicted number was tracked before.\<close>

locale delivery_tracker =
  fixes track :: "nat \<Rightarrow> send_result \<Rightarrow> time \<Rightarrow> adapter \<Rightarrow> adapter \<times> nat option"
  assumes track_ids: "track i res now a = (a', v) \<Longrightarrow>
    tracked_adapter a' \<union> set (list_of_option v) \<subseteq> insert i (tracked_adapter a)"
begin

lemma track_hub:
  assumes "map_of (adapters h) tr = Some a" "track i res now a = (a', v)"
  shows "tracked_hub (h\<lparr>adapters := AList.update tr a' (adapters h)\<rparr>) \<union> set (list_of_option v) \<subseteq> insert i (tracked_hub h)"
proof -
  have "tracked_adapter a' \<subseteq> tracked_hub h \<union> {i}" "set (list_of_option v) \<subseteq> tracked_hub h \<union> {i}"
    using track_ids [OF assms(2)] tracked_member [OF assms(1)] by auto
  then show ?thesis using tracked_update [of a' h "{i}" tr] by auto
qed

end

interpretation lxmf: delivery_tracker lxmf_pending
proof
  fix i res now a a' and v :: "nat option"
  assume "lxmf_pending i res now a = (a', v)"
  then show "tracked_adapter a' \<union> set (list_of_option v) \<subseteq> insert i (tracked_adapter a)"
    using lxmf_track_ids [of i _ now a a' v] by (auto simp: lxmf_pending_def split: option.splits list.splits)
qed

interpretation meshtastic: delivery_tracker meshtastic_pending
proof
  fix i res now a a' and v :: "nat option"
  assume m: "meshtastic_pending i res now a = (a', v)"
  define a1 where "a1 = (if truthy (sr_ack_tracking res)
    then a\<lparr>ad_pending := AList.update (Key_Msg i) (i, now) (ad_pending a)\<rparr> else a)"
  have "tracked_adapter a1 \<subseteq> insert i (tracked_adapter a)" using mesh_track_ids(1) by (simp add: a1_def) blast
  moreover have "a' = a1 \<or> a' = a1\<lparr>ad_bound := i # ad_bound a1\<rparr>" "v = None"
    using m by (auto simp: meshtastic_pending_def a1_def Let_def)
  ultimately show "tracked_adapter a' \<union> set (list_of_option v) \<subseteq> insert i (tracked_adapter a)"
    using mesh_track_ids(2) [of i a1] by auto
qed

interpretation meshcore: delivery_tracker meshcore_pending
proof
  fix i res now a a' and v :: "nat option"
  assume "meshcore_pending i res now a = (a', v)"
  then show "tracked_adapter a' \<union> set (list_of_option v) \<subseteq> insert i (tracked_adapter a)"
    using mesh_track_ids(1) [of _ i now a] by (auto simp: meshcore_pending_def split: option.splits list.splits)
qed

text \<open>The hub calls whichever adapter the transport has.\<close>

interpretation tracker: delivery_tracker track_pending
proof
  fix i res now a a' and v :: "nat option"
  assume t: "track_pending i res now a = (a', v)"
  show "tracked_adapter a' \<union> set (list_of_option v) \<subseteq> insert i (tracked_adapter a)"
    using t lxmf.track_ids [of i res now a a' v] meshtastic.track_ids [of i res now a a' v]
      meshcore.track_ids [of i res now a a' v]
    by (cases "ad_kind a") (auto simp: track_pending_def)
qed

lemma register_tracking:
  assumes "register_delivery_tracking tr i res now h = (h', us)"
  shows "hstore h' = hstore h" "queues h' = queues h" "outbound_max h' = outbound_max h"
    and "tracked_hub h' \<union> fst ` set us \<subseteq> insert i (tracked_hub h)" "\<forall>u\<in>set us. rank (snd u) = 2"
proof -
  show "hstore h' = hstore h" "queues h' = queues h" "outbound_max h' = outbound_max h"
    using assms by (auto simp: register_delivery_tracking_def split: option.splits prod.splits)
  show "\<forall>u\<in>set us. rank (snd u) = 2"
    using assms by (auto simp: register_delivery_tracking_def rank_def split: option.splits prod.splits)
  show "tracked_hub h' \<union> fst ` set us \<subseteq> insert i (tracked_hub h)"
  proof (cases "map_of (adapters h) tr")
    case None
    then show ?thesis using assms by (auto simp: register_delivery_tracking_def)
  next
    case (Some a)
    obtain a' v where t: "track_pending i res now a = (a', v)" by fastforce
    then show ?thesis
      using assms Some tracker.track_hub [OF Some t] by (auto simp: register_delivery_tracking_def)
  qed
qed

lemma tracked_pop:
  "tracked_hub (upd_adapter tr (\<lambda>a. a\<lparr>ad_pending := AList.delete k (ad_pending a)\<rparr>) h) \<subseteq> tracked_hub h"
proof (cases "map_of (adapters h) tr")
  case (Some a)
  have "tracked_adapter (a\<lparr>ad_pending := AList.delete k (ad_pending a)\<rparr>) \<subseteq> tracked_hub h \<union> {}"
    using tracked_member [OF Some] by (auto simp: tracked_adapter_def AList.delete_eq)
  then show ?thesis using tracked_update [of _ h "{}" tr] Some by (simp add: upd_adapter_def)
qed (simp add: upd_adapter_def)

lemma upd_adapter_fields [simp]:
  "hstore (upd_adapter tr f h) = hstore h" "queues (upd_adapter tr f h) = queues h"
  "outbound_max (upd_adapter tr f h) = outbound_max h" "own_hub (upd_adapter tr f h) = own_hub h"
  by (simp_all add: upd_adapter_def own_hub_def split: option.split)

lemma own_member: "hub_inv h ts tx \<Longrightarrow> i \<in># own_hub h + own_tasks ts \<Longrightarrow> r \<in> set (table (hstore h)) \<Longrightarrow>
    m_id r = i \<Longrightarrow> m_status r = Queued"
  using hub_invD(6) by blast

lemma settle_inv:
  assumes inv: "hub_inv h (t # rest) tx" and st: "st \<noteq> Queued"
    and own: "own_task t = add_mset i (own_tasks ts)" and wait: "wait_tasks ts \<subseteq># wait_task t" "newly_sent ts = []"
    and track: "tracked_tasks ts \<subseteq> insert i (tracked_task t)" and tok: "\<forall>t\<in>set ts. task_ok t"
  shows "hub_inv (fst (on_delivery_status_update i tr st h)) (rest @ ts) tx"
proof -
  have q: "rank (m_status r) \<le> rank st" if "r \<in> set (table (hstore h))" "m_id r = i" for r
    using own_member [OF inv _ that(1)] that own by (simp add: rank_def)
  have "hub_inv (fst (on_delivery_status_update i tr st h)) (rest @ ts) (tx @ newly_sent ts)"
    by (rule hub_inv_move [OF inv, where D = "{#i#}" and T = "{i}"])
      (use rows_delivery [OF st q] hub_invD(1) [OF inv] own wait track tok in auto)
  then show ?thesis using wait(2) by simp
qed

lemma update_inv:
  assumes inv: "hub_inv h (Updating tr' ((i, st) # us) # rest) tx"
  shows "hub_inv (fst (on_delivery_status_update i tr st h)) (rest @ [Updating tr' us]) tx"
proof -
  have r: "rank st = 2" "\<forall>u\<in>set us. rank (snd u) = 2" using hub_invD(8) [OF inv] by simp_all
  have "st \<noteq> Queued" using r(1) by (auto simp: rank_def)
  then have "rows_evolve {i} {i} (hstore h) (hstore (fst (on_delivery_status_update i tr st h)))"
    by (rule rows_delivery) (use r(1) rank_le_2 in simp)
  then have e: "rows_evolve (set_mset {#}) {i} (hstore h) (hstore (fst (on_delivery_status_update i tr st h)))"
    by (auto simp: rows_evolve_def)
  have "hub_inv (fst (on_delivery_status_update i tr st h)) (rest @ [Updating tr' us]) (tx @ newly_sent [Updating tr' us])"
    by (rule hub_inv_move [OF inv _ _ e]) (use hub_invD(1) [OF inv] r in auto)
  then show ?thesis by simp
qed

text \<open>A section that leaves rows and trackers alone and only moves messages between queue and threads.\<close>

lemma shuffle_inv:
  assumes inv: "hub_inv h (t # rest) tx" and h: "hstore h' = hstore h" "dict_ok (queues h')"
      "outbound_max h' = outbound_max h"
    and own: "own_hub h' + own_tasks ts = own_hub h + own_task t"
    and wait: "own_hub h' + wait_tasks ts + sent_ids (newly_sent ts) \<subseteq># own_hub h + wait_task t"
    and track: "tracked_hub h' \<union> tracked_tasks ts \<subseteq> tracked_hub h \<union> tracked_task t"
    and tok: "\<forall>t\<in>set ts. task_ok t"
  shows "hub_inv h' (rest @ ts) (tx @ newly_sent ts)"
  by (rule hub_inv_move [OF inv h(2,3), where D = "{#}" and T = "{}"]) (use h own wait track tok in auto)

lemma drain_item_inv:
  assumes inv: "hub_inv h (Draining tr now start did es # rest) tx"
    and r: "drain_item tr now start did es x h = ((h', ev), ts)"
  shows "hub_inv h' (rest @ ts) (tx @ newly_sent ts)"
proof (cases es)
  case Nil
  then have "ts = []" "h' = h \<or> h' = maybe_prune (in_now x) h" using r by (auto simp: drain_item_def)
  then show ?thesis
    by (intro hub_inv_move [OF inv, where D = "{#}" and T = "{}"])
      (use hub_invD(1) [OF inv] Nil rows_prune in auto)
next
  case (Cons e q)
  note d = hub_invD(1) [OF inv]
  consider (old) "too_old now h e" | (budget) "\<not> too_old now h e" "drain_budget h < in_mono x - start"
    | (down) "\<not> too_old now h e" "\<not> drain_budget h < in_mono x - start" "\<not> in_avail x"
    | (send) "\<not> too_old now h e" "\<not> drain_budget h < in_mono x - start" "in_avail x" by blast
  then show ?thesis
  proof cases
    case old
    then have "h' = fst (on_delivery_status_update (e_id e) tr Expired h)" "ts = [Draining tr now start True q]"
      using r Cons by (auto simp: drain_item_def)
    then show ?thesis using settle_inv [OF inv, of Expired "e_id e" ts] Cons by simp
  next
    case budget
    have split: "ids (filter (\<lambda>e. \<not> too_old now h e) es) + ids (filter (too_old now h) es) = ids es"
      by (induction es) auto
    have "h' = requeue tr (filter (\<lambda>e. \<not> too_old now h e) es) h"
      "ts = [Settling tr (map (\<lambda>e. (e_id e, Expired)) (filter (too_old now h) es)),
        Draining tr now start (did \<or> (\<exists>e\<in>set es. too_old now h e)) []]"
      using r Cons budget unfolding drain_item_def by simp_all
    then show ?thesis
      using split by (intro shuffle_inv [OF inv]) (use d in \<open>simp_all add: own_requeue comp_def add.assoc\<close>)
  next
    case down
    then have "h' = requeue tr es h" "ts = [Draining tr now start did []]" using r Cons by (simp_all add: drain_item_def)
    then show ?thesis by (intro shuffle_inv [OF inv]) (use d in \<open>simp_all add: own_requeue\<close>)
  next
    case send
    then have "h' = h" "ts = [Drain_Sent tr now start did (attempt e) (with_default raised_result (in_result x)) q]"
      using r Cons by (simp_all add: drain_item_def)
    then show ?thesis by (intro shuffle_inv [OF inv]) (use d Cons in \<open>simp_all add: attempt_def\<close>)
  qed
qed

lemma drain_sent_inv:
  assumes inv: "hub_inv h (Drain_Sent tr now start did e res q # rest) tx"
    and r: "drain_sent tr now start did e res q h = ((h', ev), ts)"
  shows "hub_inv h' (rest @ ts) (tx @ newly_sent ts)"
proof -
  consider (sent) "sr_sent res" | (retry) "\<not> sr_sent res" "is_retryable_reason (sr_reason res)"
    | (failed) "\<not> sr_sent res" "\<not> is_retryable_reason (sr_reason res)" by blast
  then show ?thesis
  proof cases
    case sent
    then have "h' = fst (on_delivery_status_update (e_id e) tr Sent h)" "ts = [Drain_Track tr now start (e_id e) res q]"
      using r by (auto simp: drain_sent_def split: prod.splits)
    then show ?thesis using settle_inv [OF inv, of Sent "e_id e" ts] sent by simp
  next
    case retry
    then have "h' = requeue tr [e] h" "ts = [Draining tr now start did q]" using r by (simp_all add: drain_sent_def)
    then show ?thesis
      by (intro shuffle_inv [OF inv]) (use hub_invD(1) [OF inv] retry in \<open>simp_all add: own_requeue\<close>)
  next
    case failed
    then have "h' = fst (on_delivery_status_update (e_id e) tr Failed h)" "ts = [Draining tr now start True q]"
      using r by (auto simp: drain_sent_def)
    then show ?thesis using settle_inv [OF inv, of Failed "e_id e" ts] failed by simp
  qed
qed

lemma tracking_inv:
  assumes inv: "hub_inv h (t # rest) tx" and i: "i \<in> tracked_task t"
    and own: "own_task t = own_tasks ts" and wait: "wait_tasks ts \<subseteq># wait_task t" "newly_sent ts = []"
    and h: "hstore h0 = hstore (maybe_prune now h) \<or> hstore h0 = hstore h" "queues h0 = queues h"
      "adapters h0 = adapters h" "outbound_max h0 = outbound_max h"
    and r: "register_delivery_tracking tr i res clk h0 = (h', us)"
    and track: "tracked_tasks ts \<subseteq> insert i (fst ` set us)" and tok: "\<forall>t\<in>set ts. task_ok t"
  shows "hub_inv h' (rest @ ts) tx"
proof -
  note f = register_tracking [OF r]
  have h0: "tracked_hub h0 = tracked_hub h" using h(3) by (rule tracked_same)
  have "tracked_hub h' \<subseteq> insert i (tracked_hub h)" "fst ` set us \<subseteq> insert i (tracked_hub h)"
    using f(4) unfolding h0 by blast+
  then have t: "tracked_hub h' \<union> tracked_tasks ts \<subseteq> tracked_hub h \<union> tracked_task t \<union> set_mset {#}"
    using i track by blast
  have e: "rows_evolve (set_mset {#}) {} (hstore h) (hstore h')"
    using f(1) h(1) rows_prune [of "{}" h now] by auto
  have q: "own_hub h' = own_hub h" "dict_ok (queues h')" "outbound_max h' = outbound_max h"
    using f(2,3) h(2,4) hub_invD(1) [OF inv] own_same [of h' h] by simp_all
  have "hub_inv h' (rest @ ts) (tx @ newly_sent ts)"
    by (rule hub_inv_move [OF inv q(2,3) e _ _ _ t tok]) (use own wait q(1) in simp_all)
  then show ?thesis using wait(2) by simp
qed

lemma enqueue_fields:
  assumes "enqueue tr e h = Inr (h', v)" "dict_ok (queues h)"
  shows "hstore h' = hstore h" "dict_ok (queues h')" "outbound_max h' = outbound_max h" "tracked_hub h' = tracked_hub h"
  using assms by (auto simp: enqueue_def Let_def split: if_splits list.splits)

lemma enqueue_total: "0 < outbound_max h \<Longrightarrow> \<exists>h' v. enqueue tr e h = Inr (h', v)"
  by (cases "queue_of tr h") (auto simp: enqueue_def Let_def)

lemma enqueueing_inv:
  assumes inv: "hub_inv h (Enqueueing tr e # rest) tx"
    and r: "task_step (Enqueueing tr e) x h = ((h', ev), ts)"
  shows "hub_inv h' (rest @ ts) (tx @ newly_sent ts)"
proof -
  obtain h1 v where q: "enqueue tr e h = Inr (h1, v)" using enqueue_total hub_invD(3) [OF inv] by blast
  then have t: "h' = h1"
      "ts = map (\<lambda>v. Settling tr [(e_id v, Failed)]) (list_of_option v) @ [Publishing (Message_Sent (e_id e) tr Queued)]"
    using r by (simp_all add: task_step_def)
  note f = enqueue_fields [OF q hub_invD(1) [OF inv]]
  have o: "own_hub h1 + ids (list_of_option v) = add_mset (e_id e) (own_hub h)"
    by (rule own_enqueue [OF hub_invD(1) [OF inv] q])
  show ?thesis
    unfolding t by (rule shuffle_inv [OF inv]) (use f o in \<open>cases v; simp\<close>)+
qed

lemma stale_inv:
  assumes inv: "hub_inv h (Sweeping (y # ys) # rest) tx" and r: "pop_stale y h = (h', us)"
  shows "hub_inv h' (rest @ [Updating (fst y) us, Sweeping ys]) tx"
proof -
  obtain tr k i where y: "y = (tr, k, i)" by (cases y)
  consider "h' = h" "us = []"
    | "h' = upd_adapter tr (\<lambda>a. a\<lparr>ad_pending := AList.delete k (ad_pending a)\<rparr>) h" "us = [(i, Timed_Out)]"
    using r y by (auto simp: pop_stale_def split: option.splits)
  then have u: "hstore h' = hstore h \<and> queues h' = queues h \<and> outbound_max h' = outbound_max h \<and>
      own_hub h' = own_hub h \<and> tracked_hub h' \<subseteq> tracked_hub h \<and> fst ` set us \<subseteq> {i} \<and> (\<forall>u\<in>set us. rank (snd u) = 2)"
  proof cases
    case 2
    then show ?thesis using tracked_pop [of tr k h] by (simp add: rank_def)
  qed simp
  have "hub_inv h' (rest @ [Updating (fst y) us, Sweeping ys]) (tx @ newly_sent [Updating (fst y) us, Sweeping ys])"
    by (rule shuffle_inv [OF inv]) (use u y hub_invD(1) [OF inv] in \<open>auto\<close>)
  then show ?thesis by simp
qed

text \<open>A section that only ends its task.\<close>

lemma done_inv:
  assumes inv: "hub_inv h (t # rest) tx" and "own_task t = {#}"
  shows "hub_inv h rest tx"
  using shuffle_inv [OF inv, of h "[]"] hub_invD(1) [OF inv] assms(2) by simp

theorem task_inv:
  assumes inv: "hub_inv h (t # rest) tx" and r: "task_step t x h = ((h', ev), ts)"
  shows "hub_inv h' (rest @ ts) (tx @ newly_sent ts)"
proof (cases t)
  case (Enqueueing tr e)
  then show ?thesis using enqueueing_inv inv r by blast
next
  case (Settling tr us)
  show ?thesis
  proof (cases us)
    case Nil
    then show ?thesis using Settling r done_inv [OF inv] by (auto simp: task_step_def update_first_def)
  next
    case (Cons u vs)
    obtain i st where u: "u = (i, st)" by (cases u)
    have s: "st \<noteq> Queued" "\<forall>v\<in>set vs. snd v = Failed \<or> snd v = Expired"
      using hub_invD(8) [OF inv] Settling Cons u by auto
    have t: "h' = fst (on_delivery_status_update i tr st h)" "ts = [Settling tr vs]"
      using r Settling Cons u by (auto simp: task_step_def update_first_def)
    have "hub_inv h' (rest @ [Settling tr vs]) tx"
      unfolding t(1) by (rule settle_inv [OF inv s(1)]) (use Settling Cons u s(2) in auto)
    then show ?thesis using t by simp
  qed
next
  case (Updating tr us)
  show ?thesis
  proof (cases us)
    case Nil
    then show ?thesis using Updating r done_inv [OF inv] by (auto simp: task_step_def update_first_def)
  next
    case (Cons u vs)
    obtain i st where u: "u = (i, st)" by (cases u)
    have t: "h' = fst (on_delivery_status_update i tr st h)" "ts = [Updating tr vs]"
      using r Updating Cons u by (auto simp: task_step_def update_first_def)
    show ?thesis using update_inv [of h tr i st vs rest tx] inv Updating Cons u t by simp
  qed
next
  case (Tracking tr i res promote)
  obtain h1 us where q: "register_delivery_tracking tr i res (in_now x) (maybe_prune (in_now x) h) = (h1, us)"
    by fastforce
  then have t: "h' = h1" "ts = [Updating tr (us @ (if promote then [(i, Broadcast_Sent)] else []))]"
    using r Tracking by (simp_all add: task_step_def)
  have s: "\<forall>u\<in>set (us @ (if promote then [(i, Broadcast_Sent)] else [])). rank (snd u) = 2"
    using register_tracking(5) [OF q] by (auto simp: rank_def)
  have "hub_inv h1 (rest @ ts) tx"
    by (rule tracking_inv [OF inv _ _ _ _ _ _ _ _ q, where now = "in_now x"])
      (use Tracking t s register_tracking(5) [OF q] in \<open>auto simp: rank_def\<close>)
  then show ?thesis using t by simp
next
  case (Drain_Taken tr es)
  have "h' = h" "ts = [Settling tr (map (\<lambda>e. (e_id e, Failed)) es)] \<or> ts = [Draining tr (in_now x) (in_mono x) False es]"
    using r Drain_Taken by (auto simp: task_step_def drain_taken_def split: if_splits)
  then show ?thesis
    by (intro shuffle_inv [OF inv]) (use Drain_Taken hub_invD(1) [OF inv] in \<open>auto simp: comp_def\<close>)
next
  case (Draining tr now start did es)
  then show ?thesis using drain_item_inv inv r by (simp add: task_step_def)
next
  case (Drain_Sent tr now start did e res q)
  then show ?thesis using drain_sent_inv inv r by (simp add: task_step_def)
next
  case (Drain_Track tr now start i res q)
  obtain h1 us where f: "register_delivery_tracking tr i res (in_now x) h = (h1, us)" by fastforce
  then have t: "h' = h1" "ts = [Updating tr us, Draining tr now start True q]"
    using r Drain_Track by (simp_all add: task_step_def)
  have "hub_inv h1 (rest @ ts) tx"
    by (rule tracking_inv [OF inv _ _ _ _ _ _ _ _ f, where now = "in_now x"])
      (use Drain_Track t register_tracking(5) [OF f] in auto)
  then show ?thesis using t by simp
next
  case (Publishing e)
  then show ?thesis using r done_inv [OF inv] by (auto simp: task_step_def)
next
  case (Sweeping xs)
  show ?thesis
  proof (cases xs)
    case Nil
    then show ?thesis using Sweeping r done_inv [OF inv] by (auto simp: task_step_def)
  next
    case (Cons y ys)
    obtain h1 us where "pop_stale y h = (h1, us)" by fastforce
    then show ?thesis
      using stale_inv [of h y ys rest tx h1 us] inv r Sweeping Cons by (auto simp: task_step_def)
  qed
qed

end
