(* ===== verification/Hub_Safety.thy ===== *)
theory Hub_Safety
  imports Hub_Invariant
begin

text \<open>
  The messaging hub's promises over all interleavings of its callers, drains, ticks and adapters: no queued
  message is forgotten, none is transmitted twice, no status goes backwards.  The invariant of
  \<open>Hub_Invariant\<close> for the labels, and the properties.
\<close>

subsection \<open>Every call keeps the invariant\<close>

text \<open>Callers of \<open>send_message\<close> give no packet number in \<open>metadata\<close>: it is the radio's answer.\<close>

definition plain :: "hub_label \<Rightarrow> bool" where
  "plain l = (case l of Send _ _ _ kw _ _ _ _ _ \<Rightarrow> Option.bind (kw_meta kw) packet_id = None | _ \<Rightarrow> True)"

lemma waits_plus_own: "wait_tasks us = own_tasks us \<Longrightarrow> wait_tasks (ts @ us) = wait_tasks ts + own_tasks us"
  by simp

lemma store_inv:
  assumes inv: "hub_inv h ts tx" and s: "store now m (hstore h) = (s, i)"
    and own: "own_tasks us = (if n_status m = Queued then {#i#} else {#})" "wait_tasks us = own_tasks us"
    and track: "tracked_tasks us \<subseteq> (if n_status m = Queued then {} else {i})"
    and tok: "\<forall>t\<in>set us. task_ok t"
    and pkt: "n_status m = Queued \<longrightarrow> Option.bind (n_meta m) packet_id = None"
  shows "hub_inv (set_store h s) (ts @ us) tx"
proof -
  note I = hub_invD [OF inv]
  let ?row = "row_of i (next_ts now (hstore h)) m"
  have s': "table s = table (hstore h) @ [?row]" "i = Suc (last_rowid (hstore h))" "last_rowid s = i"
    using s by (auto simp: store_def Let_def)
  have ok: "store_ok s" using store_store_ok [OF I(2), of now m] s by simp
  have old: "m_id r \<le> last_rowid (hstore h)" if "r \<in> set (table (hstore h))" for r
    using I(2) that by (simp add: store_ok_def)
  have fresh: "i \<notin># own_hub h + own_tasks ts"
    using I(6) s'(2) by (metis Suc_n_not_le_n)
  have k: "packet_of ?row = Option.bind (n_meta m) packet_id"
    by (cases "n_meta m")
      (auto simp: packet_of_def row_of_def stored_meta_def meta_or_none_def empty_meta_def Let_def split: option.split)
  let ?O = "own_hub h + own_tasks ts" and ?N = "own_tasks us"
  have O: "own_hub (set_store h s) + own_tasks (ts @ us) = ?O + ?N"
    by (simp add: own_hub_def ac_simps)
  have c: "\<forall>j. count (?O + ?N) j \<le> 1"
  proof
    fix j
    have "count ?O i = 0" using fresh by (simp only: not_in_iff)
    then show "count (?O + ?N) j \<le> 1"
      using I(4) [rule_format, of j] own(1) by (cases "j = i") simp_all
  qed
  have w: "\<forall>r\<in>set (table s). waits r \<longrightarrow> m_id r \<in># ?O + ?N"
    using I(5) own(1) unfolding s'(1) by (auto simp: waits_def row_of_def)
  have q: "\<forall>j. j \<in># ?O + ?N \<longrightarrow> j \<le> last_rowid s \<and>
      (\<forall>r\<in>set (table s). m_id r = j \<longrightarrow> m_status r = Queued \<and> packet_of r = None)"
  proof (intro allI impI)
    fix j assume j: "j \<in># ?O + ?N"
    then consider "j \<in># ?O" | "j = i" "n_status m = Queued"
      using own(1) unfolding union_iff [of j ?O ?N] by (auto split: if_splits)
    then show "j \<le> last_rowid s \<and>
      (\<forall>r\<in>set (table s). m_id r = j \<longrightarrow> m_status r = Queued \<and> packet_of r = None)"
    proof cases
      case 1
      then have "j \<le> last_rowid (hstore h)" "\<forall>r\<in>set (table (hstore h)). m_id r = j \<longrightarrow> m_status r = Queued \<and> packet_of r = None"
        using I(6) by blast+
      then show ?thesis using s' by (simp add: row_of_def)
    next
      case 2
      then have "m_id r \<noteq> j" if "r \<in> set (table (hstore h))" for r using old [OF that] s'(2) by simp
      then show ?thesis using 2 s' k pkt by (simp add: row_of_def)
    qed
  qed
  have t: "\<forall>j. j \<in> tracked_hub (set_store h s) \<union> tracked_tasks (ts @ us) \<longrightarrow> j \<le> last_rowid s \<and> j \<notin># ?O + ?N"
  proof (intro allI impI)
    fix j assume "j \<in> tracked_hub (set_store h s) \<union> tracked_tasks (ts @ us)"
    then consider "j \<in> tracked_hub h \<union> tracked_tasks ts" | "j = i" "n_status m \<noteq> Queued"
      using track by (auto simp: tracked_hub_def split: if_splits)
    then show "j \<le> last_rowid s \<and> j \<notin># ?O + ?N"
    proof cases
      case 1
      then have "j \<le> last_rowid (hstore h)" "j \<notin># ?O" using I(7) by blast+
      then show ?thesis using own(1) s' by (auto split: if_splits)
    next
      case 2
      then show ?thesis using own(1) s' fresh by simp
    qed
  qed
  have x: "\<forall>j\<in>fst ` set tx. j \<le> last_rowid s \<and> j \<notin># own_hub (set_store h s) + wait_tasks (ts @ us)"
  proof
    fix j assume "j \<in> fst ` set tx"
    then have "j \<le> last_rowid (hstore h)" "j \<notin># own_hub h + wait_tasks ts" using I(10) by blast+
    then show "j \<le> last_rowid s \<and> j \<notin># own_hub (set_store h s) + wait_tasks (ts @ us)"
      using own s' by (auto simp: own_hub_def split: if_splits)
  qed
  show ?thesis
    unfolding hub_inv_def O using I ok c w q t x tok by (auto simp del: union_iff)
qed

lemma queue_message_inv:
  assumes inv: "hub_inv h ts tx" and p: "Option.bind (kw_meta kw) packet_id = None"
    and r: "queue_message tr body dest kw node now h = (h', a, us)"
  shows "hub_inv h' (ts @ us) tx \<and> newly_sent us = []"
proof -
  let ?m = "outbound_row tr body dest kw (kw_to_name kw) Queued (kw_meta kw) node"
  obtain s i where s: "store now ?m (hstore h) = (s, i)" by fastforce
  then have u: "h' = set_store h s"
      "us = [Enqueueing tr \<lparr>e_id = i, e_text = body, e_dest = dest, e_kwargs = kw, e_at = now, e_attempts = 0\<rparr>]"
    using r by (simp_all add: queue_message_def)
  show ?thesis
    unfolding u using store_inv [OF inv s] p by (simp add: outbound_row_def)
qed

lemma pause_inv:
  assumes inv: "hub_inv h ts tx" and t: "own_task t = {#}" "task_ok t"
    and i: "\<And>i. i \<in> tracked_task t \<Longrightarrow> i \<le> last_rowid (hstore h) \<and> i \<notin># own_hub h + own_tasks ts"
  shows "hub_inv h (t # ts) tx"
proof -
  have "wait_tasks (t # ts) = wait_tasks ts" "own_tasks (t # ts) = own_tasks ts"
    using t wait_own [of t] by simp_all
  then show ?thesis
    using inv t(2) i unfolding hub_inv_def by (auto simp del: own_tasks_simps(2,5) union_iff)
qed

text \<open>A call that settles nothing and only moves queue entries.\<close>

lemma call_inv:
  assumes inv: "hub_inv h ts tx" and cfg: "dict_ok (queues h')" "outbound_max h' = outbound_max h"
    and ev: "rows_evolve {} {} (hstore h) (hstore h')"
    and own: "own_hub h' + own_tasks us = own_hub h" "wait_tasks us = own_tasks us" "newly_sent us = []"
    and track: "tracked_hub h' \<union> tracked_tasks us \<subseteq> tracked_hub h" and tok: "\<forall>t\<in>set us. task_ok t"
  shows "hub_inv h' (ts @ us) tx"
proof -
  have p: "hub_inv h (Publishing (Conversation_Deleted [] 0) # ts) tx"
    by (rule pause_inv [OF inv]) simp_all
  have "hub_inv h' (ts @ us) (tx @ newly_sent us)"
    by (rule hub_inv_move [OF p cfg, where D = "{#}" and T = "{}"]) (use ev own track tok in auto)
  then show ?thesis using own(3) by simp
qed

lemma prune_inv: "hub_inv h ts tx \<Longrightarrow> hub_inv (maybe_prune now h) ts tx"
  using call_inv [of h ts tx "maybe_prune now h" "[]"] rows_prune [of "{}" h now] hub_invD(1) [of h ts tx]
  by simp

lemma finalize_send_inv:
  assumes inv: "hub_inv h ts tx" and r: "finalize_send tr body dest kw res nm node now h = (h', a, us)"
  shows "hub_inv h' (ts @ us) tx \<and> newly_sent us = []"
proof -
  let ?m = "outbound_row tr body dest kw nm (if sr_sent res then Sent else Failed) (sent_meta kw res) node"
  obtain s i where s: "store now ?m (hstore h) = (s, i)" by fastforce
  then have u: "h' = (if sr_sent res then set_store h s else maybe_prune now (set_store h s))"
      "us = (if sr_sent res then [Tracking tr i res (kw_type kw = Some ''broadcast'' \<and> sr_ack_tracking res = None)] else [])"
    using r by (simp_all add: finalize_send_def)
  have "hub_inv (set_store h s) (ts @ us) tx"
    using store_inv [OF inv s, of us] u(2) by (simp add: outbound_row_def)
  then show ?thesis using u prune_inv [of "set_store h s" ts tx now] by (cases "sr_sent res") simp_all
qed

lemma send_message_cases:
  assumes "send_message tr body dest kw avail res nm node now h = r"
  obtains "fst r = h" "snd (snd r) = []"
  | "r = queue_message tr body dest kw node now h"
  | "r = finalize_send tr body dest kw res nm node now h"
  using assms by (auto simp: send_message_def split: option.splits sum.splits if_splits)

lemma stored_inv:
  assumes inv: "hub_inv h ts tx" and "rows_evolve {} {} (hstore h) s"
  shows "hub_inv (set_store h s) ts tx"
proof -
  have "hub_inv (set_store h s) (ts @ []) tx"
    by (rule call_inv [OF inv])
      (use assms(2) hub_invD(1) [OF inv] in \<open>simp_all add: own_hub_def tracked_hub_def\<close>)
  then show ?thesis by simp
qed

lemma found_packet:
  assumes "find_sent_by_packet_id pid s = Some i"
  obtains r where "r \<in> set (table s)" "m_id r = i" "packet_of r = Some pid"
proof -
  obtain r q where "newest_first (filter (\<lambda>r. Option.bind (m_meta r) packet_id = Some pid \<and> m_direction r = Outbound \<and>
      m_transport r = ''meshtastic'') (table s)) = r # q" "i = m_id r"
    using assms by (auto simp: find_sent_by_packet_id_def split: list.splits)
  moreover from this(1) have in_r: "r \<in> set (newest_first (filter (\<lambda>r. Option.bind (m_meta r) packet_id = Some pid \<and> m_direction r = Outbound \<and>
      m_transport r = ''meshtastic'') (table s)))" by simp
  moreover have "r \<in> set (table s)" "packet_of r = Some pid"
    using in_r unfolding newest_first_def set_rev set_sort set_filter by (simp_all add: packet_of_def)
  ultimately show ?thesis using that by blast
qed

lemma ack_fields:
  assumes "ack_by_key tr key st h = (h', us) \<or> mesh_on_ack i acked h = (h', us)"
  shows "hstore h' = hstore h \<and> queues h' = queues h \<and> outbound_max h' = outbound_max h"
  using assms by (auto simp: ack_by_key_def mesh_on_ack_def split: option.splits prod.splits if_splits)

lemma ack_by_key_ids:
  assumes "ack_by_key tr key st h = (h', us)" "rank st = 2"
  shows "tracked_hub h' \<union> fst ` set us \<subseteq> tracked_hub h \<and> (\<forall>u\<in>set us. rank (snd u) = 2)"
proof (cases "us = []")
  case True
  then have "h' = h" using assms(1) by (auto simp: ack_by_key_def split: option.splits prod.splits)
  then show ?thesis using True by simp
next
  case False
  then obtain a i t where a: "map_of (adapters h) tr = Some a" "map_of (ad_pending a) (Key_Text key) = Some (i, t)"
      "h' = upd_adapter tr (\<lambda>a. a\<lparr>ad_pending := AList.delete (Key_Text key) (ad_pending a)\<rparr>) h" "us = [(i, st)]"
    using assms(1) by (auto simp: ack_by_key_def split: option.splits bind_splits)
  have "i \<in> tracked_adapter a"
    using image_eqI [OF _ map_of_SomeD [OF a(2)], of i "fst \<circ> snd"] by (simp add: tracked_adapter_def)
  then have "i \<in> tracked_hub h" using tracked_member [OF a(1)] by blast
  then show ?thesis using a(3,4) tracked_pop assms(2) by simp
qed

lemma mesh_on_ack_ids:
  assumes "mesh_on_ack i acked h = (h', us)"
  shows "tracked_hub h' \<union> fst ` set us \<subseteq> tracked_hub h \<and> (\<forall>u\<in>set us. rank (snd u) = 2)"
proof (cases "us = []")
  case True
  then have "h' = h" using assms by (auto simp: mesh_on_ack_def split: option.splits if_splits)
  then show ?thesis using True by simp
next
  case False
  then obtain a where a: "map_of (adapters h) ''meshtastic'' = Some a" "i \<in> set (ad_bound a)"
      "h' = upd_adapter ''meshtastic'' (\<lambda>a. a\<lparr>ad_pending := AList.delete (Key_Msg i) (ad_pending a)\<rparr>) h"
      "us = [(i, if acked then Delivered else Delivery_Failed)]"
    using assms by (auto simp: mesh_on_ack_def split: option.splits if_splits)
  have "i \<in> tracked_hub h" using tracked_member [OF a(1)] a(2) by (auto simp: tracked_adapter_def)
  then show ?thesis using a(3,4) tracked_pop by (simp add: rank_def)
qed

lemma stale_ids: "(snd \<circ> snd) ` set (stale_pending now max_age h) \<subseteq> tracked_hub h"
proof
  fix i assume "i \<in> (snd \<circ> snd) ` set (stale_pending now max_age h)"
  then obtain tr a k t where a: "(tr, a) \<in> set (adapters h)" and k: "(k, i, t) \<in> set (ad_pending a)"
    by (auto simp: stale_pending_def split: if_splits)
  have "i \<in> tracked_adapter a" using image_eqI [OF _ k, of i "fst \<circ> snd"] by (simp add: tracked_adapter_def)
  then show "i \<in> tracked_hub h" using a by (auto simp: tracked_hub_def)
qed

lemma expire_fields:
  assumes "expire_queued now h = (h', xs)"
  shows "hstore h' = hstore h" "outbound_max h' = outbound_max h" "tracked_hub h' = tracked_hub h"
    "dict_ok (queues h) \<Longrightarrow> dict_ok (queues h')" "own_hub h' + mset (map snd xs) = own_hub h"
proof -
  have "map fst (map (\<lambda>(tr, q). (tr, filter P q)) d) = map fst d" for P and d :: "(string, entry list) pydict"
    by (induction d) auto
  then show "dict_ok (queues h) \<Longrightarrow> dict_ok (queues h')"
    using assms unfolding expire_queued_def by (auto simp del: map_map list.map_comp map_eq_conv)
  show "hstore h' = hstore h" "outbound_max h' = outbound_max h" "tracked_hub h' = tracked_hub h"
    using assms by (auto simp: expire_queued_def tracked_hub_def)
  show "own_hub h' + mset (map snd xs) = own_hub h" using own_expire [of now h] assms by simp
qed

lemma settling_each:
  "own_tasks (map (\<lambda>(tr, i). Settling tr [(i, Expired)]) xs) = mset (map snd xs)"
  "wait_tasks (map (\<lambda>(tr, i). Settling tr [(i, Expired)]) xs) = mset (map snd xs)"
  "tracked_tasks (map (\<lambda>(tr, i). Settling tr [(i, Expired)]) xs) = {}"
  "newly_sent (map (\<lambda>(tr, i). Settling tr [(i, Expired)]) xs) = []"
  by (induction xs) auto

lemma take_fields:
  assumes "take_queue tr h = (h', es)"
  shows "hstore h' = hstore h" "outbound_max h' = outbound_max h" "tracked_hub h' = tracked_hub h"
    "dict_ok (queues h) \<Longrightarrow> dict_ok (queues h')"
  using assms by (auto simp: take_queue_def split: if_splits)

text \<open>A call that leaves rows and queues alone and starts one thread on tracked messages.\<close>

lemma updating_inv:
  assumes inv: "hub_inv h ts tx" and f: "hstore h' = hstore h \<and> queues h' = queues h \<and> outbound_max h' = outbound_max h"
    and t: "own_task t = {#}" "wait_task t = {#}" "task_ok t" "newly_sent [t] = []"
      "tracked_hub h' \<union> tracked_task t \<subseteq> tracked_hub h"
  shows "hub_inv h' (ts @ [t]) tx"
  by (rule call_inv [OF inv]) (use f t hub_invD(1) [OF inv] own_same [of h' h] in auto)

lemma receipt_inv:
  assumes inv: "hub_inv h ts tx" and "find_sent_by_packet_id pid (hstore h) = Some i"
  shows "hub_inv h (ts @ [Updating tr [(i, Read_By_Peer)]]) tx"
proof -
  note I = hub_invD [OF inv]
  obtain r where r: "r \<in> set (table (hstore h))" "m_id r = i" "packet_of r = Some pid"
    using found_packet assms(2) by metis
  have "i \<notin># own_hub h + own_tasks ts" using I(6) r by (metis option.distinct(1))
  moreover have "i \<le> last_rowid (hstore h)" using I(2) r by (auto simp: store_ok_def)
  ultimately have "hub_inv h (Updating tr [(i, Read_By_Peer)] # ts) tx"
    by (intro pause_inv [OF inv]) (simp_all add: rank_def)
  then have "hub_inv h ((ts @ [Updating tr [(i, Read_By_Peer)]]) ! length ts #
      take (length ts) (ts @ [Updating tr [(i, Read_By_Peer)]]) @ drop (Suc (length ts)) (ts @ [Updating tr [(i, Read_By_Peer)]])) tx"
    by simp
  then show ?thesis by (subst hub_inv_first [of "length ts"]) simp_all
qed

lemma adapters_inv:
  assumes "hub_inv h ts tx" "tracked_hub (h\<lparr>adapters := ad\<rparr>) \<subseteq> tracked_hub h"
  shows "hub_inv (h\<lparr>adapters := ad\<rparr>) ts tx"
proof -
  have "hub_inv (h\<lparr>adapters := ad\<rparr>) (ts @ []) tx"
    by (rule call_inv [OF assms(1)]) (use assms hub_invD(1) [OF assms(1)] in \<open>simp_all add: own_hub_def\<close>)
  then show ?thesis by simp
qed

lemma send_inv:
  assumes inv: "hub_inv h ts tx" and p: "Option.bind (kw_meta kw) packet_id = None"
    and r: "send_message tr body dest kw avail res nm node now h = (h', a, us)"
  shows "hub_inv h' (ts @ us) tx \<and> newly_sent us = []"
  using r
proof (cases rule: send_message_cases)
  case 1
  then show ?thesis using inv by simp
next
  case 2
  then show ?thesis using queue_message_inv [OF inv p, of tr body dest node now h' a us] by simp
next
  case 3
  then show ?thesis using finalize_send_inv [OF inv, of tr body dest kw res nm node now h' a us] by simp
qed

lemma receive_inv:
  assumes inv: "hub_inv h ts tx" and s: "store now (m\<lparr>n_direction := Inbound, n_status := Received\<rparr>) (hstore h) = (s, i)"
  shows "hub_inv (maybe_prune now (set_store h s)) ts tx"
proof -
  have "hub_inv (set_store h s) (ts @ []) tx" by (rule store_inv [OF inv s]) simp_all
  then show ?thesis using prune_inv by simp
qed

lemma call_keeps:
  assumes inv: "hub_inv h ts tx" and p: "plain l" and l: "\<And>i x. l \<noteq> Run i x"
    and r: "hub_call l h = ((h', ev), us)"
  shows "hub_inv h' (ts @ us) tx \<and> newly_sent us = []"
proof (cases l)
  case (Send tr body dest kw avail res nm node now)
  then have "\<exists>a. send_message tr body dest kw avail res nm node now h = (h', a, us)"
    using r by (auto simp: hub_call_def split: prod.splits)
  moreover have "Option.bind (kw_meta kw) packet_id = None" using p Send by (simp add: plain_def)
  ultimately show ?thesis using send_inv [OF inv] by blast
next
  case (Receive m now)
  then show ?thesis using receive_inv [OF inv] r by (auto simp: hub_call_def split: prod.splits)
next
  case (Drain tr)
  obtain h1 es where t: "take_queue tr h = (h1, es)" by fastforce
  then have u: "h' = h1" "us = (if es = [] then [] else [Drain_Taken tr es])" using r Drain by (auto simp: hub_call_def)
  note f = take_fields [OF t] and o = own_take [OF hub_invD(1) [OF inv] t]
  have "hub_inv h' (ts @ us) tx"
    by (rule call_inv [OF inv]) (use u f o hub_invD(1) [OF inv] in auto)
  then show ?thesis using u by simp
next
  case (Expire_Tick now)
  obtain h1 xs where t: "expire_queued now h = (h1, xs)" by fastforce
  then have u: "h' = h1" "us = map (\<lambda>(tr, i). Settling tr [(i, Expired)]) xs"
    using r Expire_Tick by (auto simp: hub_call_def)
  note f = expire_fields [OF t]
  have "hub_inv h' (ts @ us) tx"
    unfolding u by (rule call_inv [OF inv]) (use f settling_each hub_invD(1) [OF inv] in auto)
  then show ?thesis using u settling_each(4) by simp
next
  case (Sweep_Tick now max_age)
  then have u: "h' = h" "us = [Sweeping (stale_pending now max_age h)]" using r by (auto simp: hub_call_def)
  then show ?thesis using updating_inv [OF inv, of h "Sweeping (stale_pending now max_age h)"] stale_ids by simp
next
  case (Key_Ack tr key st)
  show ?thesis
  proof (cases "tr = ''meshtastic'' \<or> st \<notin> {Delivered, Propagated, Delivery_Failed}")
    case True
    then show ?thesis using r Key_Ack inv by (auto simp: hub_call_def)
  next
    case False
    then obtain h1 vs where v: "ack_by_key tr key st h = (h1, vs)" "h' = h1" "us = [Updating tr vs]"
      using r Key_Ack by (auto simp: hub_call_def split: prod.splits)
    have "rank st = 2" using False by (auto simp: rank_def)
    then show ?thesis
      using updating_inv [OF inv, of h1 "Updating tr vs"] ack_fields [OF disjI1, OF v(1)] ack_by_key_ids [OF v(1)] v by simp
  qed
next
  case (Mesh_Ack i acked)
  obtain h1 vs where v: "mesh_on_ack i acked h = (h1, vs)" "h' = h1" "us = [Updating ''meshtastic'' vs]"
    using r Mesh_Ack by (auto simp: hub_call_def split: prod.splits)
  then show ?thesis
    using updating_inv [OF inv, of h1 "Updating ''meshtastic'' vs"] ack_fields [OF disjI2, OF v(1)] mesh_on_ack_ids [OF v(1)]
    by simp
next
  case (Read_Receipt pid)
  show ?thesis
  proof (cases "pid = 0 \<or> find_sent_by_packet_id pid (hstore h) = None")
    case True
    then have "h' = h" "us = [] \<or> us = [Updating ''meshtastic'' []]" using r Read_Receipt by (auto simp: hub_call_def split: if_splits)
    then show ?thesis using updating_inv [OF inv, of h "Updating ''meshtastic'' []"] inv by auto
  next
    case False
    then show ?thesis using receipt_inv [OF inv] r Read_Receipt by (auto simp: hub_call_def)
  qed
next
  case (React pid e f n now)
  then show ?thesis
    using r stored_inv [OF inv rows_reaction [OF hub_invD(2) [OF inv]]] inv by (auto simp: hub_call_def split: if_splits)
next
  case (Mark_Read c)
  then show ?thesis using r stored_inv [OF inv rows_mark_read] by (auto simp: hub_call_def)
next
  case (Delete_Conversation c)
  then show ?thesis
    using r stored_inv [OF inv rows_delete, of c] by (auto simp: hub_call_def split: prod.splits)
next
  case (Register_Adapter tr kind m)
  have "tracked_hub (h\<lparr>adapters := AList.update tr \<lparr>ad_kind = kind, ad_max_bytes = m, ad_pending = [], ad_bound = []\<rparr> (adapters h)\<rparr>)
      \<subseteq> tracked_hub h \<union> {}"
    by (rule tracked_update) (simp add: tracked_adapter_def)
  then show ?thesis using adapters_inv [OF inv] r Register_Adapter by (auto simp: hub_call_def)
next
  case Drop_Adapters
  then show ?thesis using adapters_inv [OF inv] r by (auto simp: hub_call_def tracked_hub_def)
next
  case (Run i x)
  then show ?thesis using l by blast
qed

subsection \<open>Starting and running\<close>

text \<open>What the database may hold at start: rows in order, numbered by the sequence, and no packet number on
  a message that still waits.\<close>

definition saved :: "message list \<Rightarrow> nat \<Rightarrow> bool" where
  "saved rows n \<longleftrightarrow> store_ok (open_store rows n) \<and> (\<forall>r\<in>set rows. waits r \<longrightarrow> packet_of r = None)"

abbreviation sys_inv :: "msys \<Rightarrow> bool" where
  "sys_inv y \<equiv> hub_inv (hub y) (tasks y) (transmitted y)"

lemma recover_inv:
  "hub_inv h [Settling tr (map (\<lambda>r. (m_id r, Expired)) rs)] tx \<Longrightarrow> hub_inv (recover_rows now rs h) [] tx"
proof (induction rs arbitrary: h)
  case Nil
  then show ?case using done_inv [of h "Settling tr []" "[]" tx] by simp
next
  case (Cons r rs)
  let ?t = "Settling tr (map (\<lambda>r. (m_id r, Expired)) (r # rs))" and ?t' = "Settling tr (map (\<lambda>r. (m_id r, Expired)) rs)"
  note d = hub_invD(1) [OF Cons.prems]
  have "hub_inv (set_store h (update_status (m_id r) Expired (hstore h))) ([] @ [?t']) (tx @ newly_sent [?t'])"
  proof (rule hub_inv_move [OF Cons.prems, where D = "{#m_id r#}" and T = "{m_id r}"])
    have "rank (m_status q) \<le> rank Expired" if "q \<in> set (table (hstore h))" "m_id q = m_id r" for q
      by (simp add: rank_def split: status.split)
    then show "rows_evolve (set_mset {#m_id r#}) {m_id r} (hstore h) (hstore (set_store h (update_status (m_id r) Expired (hstore h))))"
      using rows_update [of Expired "hstore h" "m_id r"] by simp
  qed (use d in \<open>auto simp add: own_hub_def tracked_hub_def\<close>)
  then have a: "hub_inv (set_store h (update_status (m_id r) Expired (hstore h))) [?t'] tx" by simp
  have "hub_inv (requeue (m_transport r) [entry_of_row r] h) ([] @ [?t']) (tx @ newly_sent [?t'])"
    by (rule shuffle_inv [OF Cons.prems]) (use d in \<open>simp_all add: own_requeue entry_of_row_def\<close>)
  then have b: "hub_inv (requeue (m_transport r) [entry_of_row r] h) [?t'] tx" by simp
  show ?case using Cons.IH [OF a] Cons.IH [OF b] by simp
qed

lemma queued_sent_ids:
  assumes "store_ok s"
  shows "set (get_queued_sent s) = {r \<in> set (table s). waits r}" "distinct (map m_id (get_queued_sent s))"
proof -
  show "set (get_queued_sent s) = {r \<in> set (table s). waits r}" by (auto simp: get_queued_sent_def waits_def)
  have "distinct (map m_id (filter P (table s)))" for P
    using store_ok_ids(1) [OF assms] by (rule distinct_map_filter)
  then have "distinct (map m_id (filter (\<lambda>r. m_direction r = Outbound \<and> m_status r = Queued) (table s)))" .
  then show "distinct (map m_id (get_queued_sent s))"
    by (simp add: get_queued_sent_def distinct_map)
qed

lemma start_inv:
  assumes "0 < mx" "saved rows n"
  shows "hub_inv (start_hub mx ttl budget limit now rows n) [] []"
proof -
  let ?s = "open_store rows n"
  define h where "h = \<lparr>hstore = ?s, queues = [], adapters = [], outbound_max = mx, outbound_ttl = ttl,
    drain_budget = budget, history_limit = limit, last_prune = 0\<rparr>"
  have ok: "store_ok ?s" using assms(2) by (simp add: saved_def)
  note q = queued_sent_ids [OF ok]
  have o: "own_hub h + own_tasks [Settling [] (map (\<lambda>r. (m_id r, Expired)) (get_queued_sent ?s))] =
      mset (map m_id (get_queued_sent ?s))"
    by (simp add: h_def own_hub_def comp_def)
  have id: "q = r" if "q \<in> set rows" "r \<in> set rows" "m_id q = m_id r" for q r
    using store_ok_ids(1) [OF ok] that by (auto simp: open_store_def distinct_map dest: inj_onD)
  have all: "\<forall>i. i \<in># mset (map m_id (get_queued_sent ?s)) \<longrightarrow> i \<le> n \<and>
      (\<forall>r\<in>set rows. m_id r = i \<longrightarrow> m_status r = Queued \<and> packet_of r = None)"
  proof (intro allI impI)
    fix i assume "i \<in># mset (map m_id (get_queued_sent ?s))"
    then obtain r where r: "r \<in> set rows" "waits r" "m_id r = i" using q(1) by (auto simp: open_store_def)
    have "q = r" if "q \<in> set rows" "m_id q = i" for q using id [OF that(1) r(1)] that(2) r(3) by simp
    moreover have "m_status r = Queued" "packet_of r = None" using r assms(2) by (simp_all add: saved_def waits_def)
    moreover have "i \<le> n" using ok r by (auto simp: store_ok_def open_store_def)
    ultimately show "i \<le> n \<and> (\<forall>r\<in>set rows. m_id r = i \<longrightarrow> m_status r = Queued \<and> packet_of r = None)" by blast
  qed
  moreover have "count (mset (map m_id (get_queued_sent ?s))) i \<le> 1" for i
    using q(2) unfolding distinct_count_atmost_1 by simp
  moreover have "\<forall>r\<in>set rows. waits r \<longrightarrow> m_id r \<in># mset (map m_id (get_queued_sent ?s))"
    using q(1) by (auto simp: open_store_def)
  moreover have "tracked_hub h = {}" "hstore h = ?s" "table ?s = rows" "last_rowid ?s = n" "dict_ok (queues h)"
      "outbound_max h = mx"
    by (simp_all add: h_def tracked_hub_def open_store_def)
  ultimately have "hub_inv h [Settling [] (map (\<lambda>r. (m_id r, Expired)) (get_queued_sent ?s))] []"
    unfolding hub_inv_def o using ok assms(1)
    by simp
  then have "hub_inv (recover_rows now (get_queued_sent ?s) h) [] []" by (rule recover_inv)
  then show ?thesis by (simp add: start_hub_def recover_queued_messages_def h_def)
qed

lemma step_inv:
  assumes "sys_inv y" "plain l"
  shows "sys_inv (hub_step l y)"
proof (cases "\<exists>i x. l = Run i x")
  case True
  then obtain i x where l: "l = Run i x" by blast
  show ?thesis
  proof (cases "i < length (tasks y)")
    case True
    obtain h' ev ts where r: "task_step (tasks y ! i) x (hub y) = ((h', ev), ts)" by (metis prod.collapse)
    have "hub_inv (hub y) (tasks y ! i # take i (tasks y) @ drop (Suc i) (tasks y)) (transmitted y)"
      using assms(1) hub_inv_first [OF True] by blast
    then have "hub_inv h' ((take i (tasks y) @ drop (Suc i) (tasks y)) @ ts) (transmitted y @ newly_sent ts)"
      using task_inv r by blast
    then show ?thesis using l True r by (simp add: hub_step_def advance_def)
  next
    case False
    then show ?thesis using l assms(1) by (simp add: hub_step_def)
  qed
next
  case False
  obtain h' ev ts where r: "hub_call l (hub y) = ((h', ev), ts)" by (metis prod.collapse)
  have "hub_step l y = advance (hub_call l (hub y)) (tasks y) y"
    using False by (cases l) (simp_all add: hub_step_def)
  then show ?thesis
    using call_keeps [OF assms(1,2) _ r] False r by (simp add: advance_def)
qed

lemma run_inv: "sys_inv y \<Longrightarrow> \<forall>l\<in>set ls. plain l \<Longrightarrow> sys_inv (hub_run ls y)"
  by (induction ls arbitrary: y) (simp_all add: step_inv)

lemma hub_run_append: "hub_run (xs @ ys) y = hub_run ys (hub_run xs y)"
  by (induction xs arbitrary: y) simp_all

end
