(* ===== verification/Hub_Delivery.thy ===== *)
theory Hub_Delivery
  imports Hub_Safety
begin

text \<open>
  Properties of the messaging hub over every run from a start of the process: where a queued message is, what
  an adapter was given, how a row's status moves, what a restart recovers and what expires.
\<close>

subsection \<open>Rows only grow older\<close>

definition grows :: "msg_store \<Rightarrow> msg_store \<Rightarrow> bool" where
  "grows s s' \<longleftrightarrow> last_rowid s \<le> last_rowid s' \<and>
     (\<forall>r\<in>set (table s'). last_rowid s < m_id r \<or> (\<exists>q\<in>set (table s). later_row q r))"

lemma grows_refl [simp]: "grows s s"
  unfolding grows_def using later_row_refl by blast

lemma grows_trans:
  assumes "grows s t" "grows t u"
  shows "grows s u"
proof -
  have "last_rowid s < m_id r \<or> (\<exists>q\<in>set (table s). later_row q r)" if r: "r \<in> set (table u)" for r
  proof (cases "last_rowid t < m_id r")
    case True
    then show ?thesis using assms(1) by (simp add: grows_def)
  next
    case False
    then obtain q where q: "q \<in> set (table t)" "later_row q r" using assms(2) r by (auto simp: grows_def)
    then have "last_rowid s < m_id q \<or> (\<exists>p\<in>set (table s). later_row p q)" using assms(1) by (simp add: grows_def)
    moreover have "m_id q = m_id r" using q(2) by (simp add: later_row_def)
    ultimately show ?thesis using q(2) later_row_trans by fastforce
  qed
  then show ?thesis using assms by (auto simp: grows_def)
qed

lemma rows_grows: "rows_evolve D T s s' \<Longrightarrow> grows s s'"
  unfolding rows_evolve_def grows_def by auto

lemma store_grows: "store now m s = (s', i) \<Longrightarrow> grows s s'"
  unfolding store_def Let_def grows_def row_of_def using later_row_refl by fastforce

lemma owned_grows:
  assumes inv: "hub_inv h ts tx" and i: "i \<in># own_hub h + own_tasks ts" and st: "st \<noteq> Queued"
  shows "grows (hstore h) (hstore (fst (on_delivery_status_update i tr st h)))"
proof -
  have "rank (m_status r) \<le> rank st" if "r \<in> set (table (hstore h))" "m_id r = i" for r
    using own_member [OF inv i that] by (simp add: rank_def)
  then show ?thesis using rows_grows [OF rows_delivery [OF st]] by blast
qed

lemma final_grows:
  assumes "rank st = 2"
  shows "grows (hstore h) (hstore (fst (on_delivery_status_update i tr st h)))"
proof -
  have "st \<noteq> Queued" using assms by (auto simp: rank_def)
  then show ?thesis using rows_grows [OF rows_delivery [of st h i tr]] assms rank_le_2 by simp
qed

lemma pop_stale_store: "hstore (fst (pop_stale y h)) = hstore h"
  by (cases y) (auto simp: pop_stale_def split: option.split)

lemma task_grows:
  assumes inv: "hub_inv h (t # rest) tx"
  shows "grows (hstore h) (hstore (fst (fst (task_step t x h))))"
proof (cases t)
  case (Enqueueing tr e)
  obtain h1 v where q: "enqueue tr e h = Inr (h1, v)" using enqueue_total hub_invD(3) [OF inv] by blast
  then show ?thesis using Enqueueing enqueue_fields [OF q hub_invD(1) [OF inv]] by (simp add: task_step_def)
next
  case (Settling tr us)
  show ?thesis
  proof (cases us)
    case (Cons u vs)
    then have "snd u \<noteq> Queued" using hub_invD(8) [OF inv] Settling by auto
    moreover have "fst u \<in># own_hub h + own_tasks (t # rest)" using Settling Cons by simp
    ultimately show ?thesis
      using Settling Cons owned_grows [OF inv] by (simp add: task_step_def update_first_def case_prod_beta)
  qed (simp add: Settling task_step_def update_first_def)
next
  case (Updating tr us)
  then show ?thesis
    using hub_invD(8) [OF inv] final_grows by (cases us) (auto simp: task_step_def update_first_def)
next
  case (Tracking tr i res promote)
  obtain h1 us where q: "register_delivery_tracking tr i res (in_now x) (maybe_prune (in_now x) h) = (h1, us)"
    by fastforce
  show ?thesis
    using Tracking q register_tracking(1) [OF q] rows_grows [OF rows_prune] by (simp add: task_step_def)
next
  case (Drain_Taken tr es)
  then show ?thesis by (simp add: task_step_def drain_taken_def)
next
  case (Draining tr now start did es)
  show ?thesis
  proof (cases es)
    case Nil
    then show ?thesis using Draining rows_grows [OF rows_prune] by (simp add: task_step_def drain_item_def)
  next
    case (Cons e q)
    then show ?thesis
      using Draining owned_grows [OF inv, of "e_id e" Expired tr] by (simp add: task_step_def drain_item_def)
  qed
next
  case (Drain_Sent tr now start did e res q)
  have "grows (hstore h) (hstore (fst (on_delivery_status_update (e_id e) tr st h)))" if "st \<noteq> Queued" for st
    by (rule owned_grows [OF inv _ that]) (simp add: Drain_Sent)
  then show ?thesis using Drain_Sent by (simp add: task_step_def drain_sent_def case_prod_beta)
next
  case (Drain_Track tr now start i res q)
  obtain h1 us where f: "register_delivery_tracking tr i res (in_now x) h = (h1, us)" by fastforce
  then show ?thesis using Drain_Track register_tracking(1) [OF f] by (simp add: task_step_def)
next
  case (Publishing ev)
  then show ?thesis by (simp add: task_step_def)
next
  case (Sweeping xs)
  then show ?thesis by (cases xs) (simp_all add: task_step_def case_prod_beta pop_stale_store)
qed

lemma send_grows:
  "grows (hstore h) (hstore (fst (send_message tr body dest kw avail res nm node now h)))"
proof -
  have "grows (hstore h) (hstore (fst (queue_message tr body dest kw node now h)))"
    using store_grows by (auto simp: queue_message_def split: prod.split)
  moreover have "grows (hstore h) (hstore (fst (finalize_send tr body dest kw res nm node now h)))"
  proof -
    have "grows (hstore h) (hstore (maybe_prune now (set_store h s)))" if "grows (hstore h) s" for s
      using grows_trans [OF that] rows_grows [OF rows_prune [of "{}" "set_store h s" now]] by simp
    then show ?thesis using store_grows by (auto simp: finalize_send_def split: prod.split)
  qed
  ultimately show ?thesis
    by (cases rule: send_message_cases [OF refl, of tr body dest kw avail res nm node now h]) simp_all
qed

lemma call_grows:
  assumes "store_ok (hstore h)"
  shows "grows (hstore h) (hstore (fst (fst (hub_call l h))))"
proof (cases l)
  case (Send tr body dest kw avail res nm node now)
  then show ?thesis
    using send_grows [of h tr body dest kw avail res nm node now] by (simp add: hub_call_def case_prod_beta)
next
  case (Receive m now)
  obtain s i where s: "store now (m\<lparr>n_direction := Inbound, n_status := Received\<rparr>) (hstore h) = (s, i)" by fastforce
  have "grows s (hstore (maybe_prune now (set_store h s)))"
    using rows_grows [OF rows_prune [of "{}" "set_store h s" now]] by simp
  then show ?thesis using Receive s grows_trans [OF store_grows [OF s]] by (simp add: hub_call_def)
next
  case (Drain tr)
  then show ?thesis by (simp add: hub_call_def take_queue_def)
next
  case (Expire_Tick now)
  then show ?thesis by (simp add: hub_call_def expire_queued_def)
next
  case (Key_Ack tr key st)
  then show ?thesis
    using ack_fields [OF disjI1 [OF surjective_pairing]] by (simp add: hub_call_def case_prod_beta)
next
  case (Mesh_Ack i acked)
  then show ?thesis
    using ack_fields [OF disjI2 [OF surjective_pairing]] by (simp add: hub_call_def case_prod_beta)
next
  case (React pid e f n now)
  then show ?thesis using rows_grows [OF rows_reaction [OF assms]] by (simp add: hub_call_def)
next
  case (Mark_Read c)
  then show ?thesis using rows_grows [OF rows_mark_read] by (simp add: hub_call_def)
next
  case (Delete_Conversation c)
  then show ?thesis using rows_grows [OF rows_delete] by (simp add: hub_call_def case_prod_beta)
qed (simp_all add: hub_call_def)

lemma step_grows:
  assumes inv: "sys_inv y"
  shows "grows (hstore (hub y)) (hstore (hub (hub_step l y)))"
proof (cases "\<exists>i x. l = Run i x")
  case True
  then obtain i x where l: "l = Run i x" by blast
  show ?thesis
  proof (cases "i < length (tasks y)")
    case True
    have "hub_inv (hub y) (tasks y ! i # take i (tasks y) @ drop (Suc i) (tasks y)) (transmitted y)"
      using inv hub_inv_first [OF True] by blast
    then show ?thesis using task_grows l True by (simp add: hub_step_def advance_def)
  qed (simp add: l hub_step_def)
next
  case False
  then have "hub_step l y = advance (hub_call l (hub y)) (tasks y) y" by (cases l) (simp_all add: hub_step_def)
  then show ?thesis using call_grows [OF hub_invD(2) [OF inv]] by (simp add: advance_def)
qed

lemma run_grows: "sys_inv y \<Longrightarrow> \<forall>l\<in>set ls. plain l \<Longrightarrow> grows (hstore (hub y)) (hstore (hub (hub_run ls y)))"
proof (induction ls arbitrary: y)
  case (Cons l ls)
  have "sys_inv (hub_step l y)" using step_inv Cons.prems by simp
  then have "grows (hstore (hub (hub_step l y))) (hstore (hub (hub_run ls (hub_step l y))))" using Cons by simp
  then show ?case using grows_trans [OF step_grows [OF Cons.prems(1)]] by simp
qed simp

subsection \<open>What is carried is what was written\<close>

type_synonym content = "nat \<times> string \<times> pystr \<times> string"

definition cargo :: "string \<Rightarrow> entry \<Rightarrow> content" where
  "cargo tr e = (e_id e, tr, e_text e, e_dest e)"

fun carried_task :: "task \<Rightarrow> content set" where
  "carried_task (Enqueueing tr e) = {cargo tr e}"
| "carried_task (Drain_Taken tr es) = cargo tr ` set es"
| "carried_task (Draining tr _ _ _ es) = cargo tr ` set es"
| "carried_task (Drain_Sent tr _ _ _ e _ rest) = insert (cargo tr e) (cargo tr ` set rest)"
| "carried_task (Drain_Track tr _ _ _ _ rest) = cargo tr ` set rest"
| "carried_task _ = {}"

definition carried_tasks :: "task list \<Rightarrow> content set" where
  "carried_tasks ts = (\<Union>t\<in>set ts. carried_task t)"

definition carried_hub :: "hub \<Rightarrow> content set" where
  "carried_hub h = (\<Union>(tr, q)\<in>set (queues h). cargo tr ` set q)"

definition written :: "msg_store \<Rightarrow> content \<Rightarrow> bool" where
  "written s c \<longleftrightarrow> fst c \<le> last_rowid s \<and> (\<forall>r\<in>set (table s). m_id r = fst c \<longrightarrow>
     (m_transport r, m_text r, with_default '''' (m_to r)) = snd c)"

definition content_ok :: "hub \<Rightarrow> task list \<Rightarrow> content list \<Rightarrow> bool" where
  "content_ok h ts tx \<longleftrightarrow> (\<forall>c\<in>carried_hub h \<union> carried_tasks ts \<union> set tx. written (hstore h) c)"

lemma carried_tasks_simps [simp]:
  "carried_tasks [] = {}" "carried_tasks (t # ts) = carried_task t \<union> carried_tasks ts"
  "carried_tasks (ts @ us) = carried_tasks ts \<union> carried_tasks us"
  by (auto simp: carried_tasks_def)

lemma written_grows:
  assumes "written s c" "grows s s'"
  shows "written s' c"
proof -
  have "(m_transport r, m_text r, with_default '''' (m_to r)) = snd c" if r: "r \<in> set (table s')" "m_id r = fst c" for r
  proof -
    have "\<not> last_rowid s < m_id r" using assms(1) r(2) by (simp add: written_def)
    then obtain q where "q \<in> set (table s)" "later_row q r" using assms(2) r(1) by (auto simp: grows_def)
    then show ?thesis using assms(1) r(2) by (auto simp: written_def later_row_def)
  qed
  then show ?thesis using assms by (auto simp: written_def grows_def)
qed

lemma content_move:
  assumes "content_ok h (t # rest) tx" "grows (hstore h) (hstore h')"
    and "carried_hub h' \<union> carried_tasks ts \<union> set (newly_sent ts) \<subseteq> carried_hub h \<union> carried_task t"
  shows "content_ok h' (rest @ ts) (tx @ newly_sent ts)"
  unfolding content_ok_def
proof
  fix c assume "c \<in> carried_hub h' \<union> carried_tasks (rest @ ts) \<union> set (tx @ newly_sent ts)"
  then have "c \<in> carried_hub h \<union> carried_tasks (t # rest) \<union> set tx" using assms(3) by auto
  then show "written (hstore h') c" using assms(1) written_grows [OF _ assms(2)] by (simp add: content_ok_def)
qed

lemma carried_put: "carried_hub (put_queue tr q h) \<subseteq> carried_hub h \<union> cargo tr ` set q"
proof -
  have "set (AList.update tr q d) \<subseteq> insert (tr, q) (set d)" for d :: "(string, entry list) pydict"
    by (rule set_update_subset)
  then show ?thesis unfolding carried_hub_def put_queue_def by fastforce
qed

lemma carried_queue: "cargo tr ` set (queue_of tr h) \<subseteq> carried_hub h"
  by (cases "map_of (queues h) tr") (auto simp: queue_of_def with_default_def carried_hub_def dest: map_of_SomeD)

lemma carried_requeue: "carried_hub (requeue tr es h) \<subseteq> carried_hub h \<union> cargo tr ` set es"
  using carried_put [of tr "queue_of tr h @ es" h] carried_queue [of tr h] unfolding requeue_def set_append image_Un by blast

lemma carried_same: "queues h' = queues h \<Longrightarrow> carried_hub h' = carried_hub h"
  by (simp add: carried_hub_def)

lemma carried_fields [simp]:
  "carried_hub (fst (on_delivery_status_update i tr st h)) = carried_hub h"
  "carried_hub (maybe_prune now h) = carried_hub h" "carried_hub (set_store h s) = carried_hub h"
  "carried_hub (h\<lparr>adapters := ad\<rparr>) = carried_hub h"
  by (simp_all add: carried_hub_def)

lemma carried_enqueue:
  assumes "enqueue tr e h = Inr (h', v)"
  shows "carried_hub h' \<subseteq> carried_hub h \<union> {cargo tr e}"
proof -
  have "\<exists>q. h' = put_queue tr q h \<and> set q \<subseteq> set (queue_of tr h) \<union> {e}"
  proof (cases "outbound_max h \<le> int (length (queue_of tr h))")
    case True
    then obtain y r where "queue_of tr h = y # r" "h' = put_queue tr (r @ [e]) h"
      using assms by (auto simp: enqueue_def Let_def split: list.splits)
    then show ?thesis by (intro exI [of _ "r @ [e]"]) auto
  next
    case False
    then show ?thesis using assms by (intro exI [of _ "queue_of tr h @ [e]"]) (auto simp: enqueue_def Let_def)
  qed
  then show ?thesis using carried_put [of tr _ h] carried_queue [of tr h] by blast
qed

lemma attempt_cargo [simp]: "cargo tr (attempt e) = cargo tr e"
  by (simp add: cargo_def attempt_def)

lemma delivery_carried: "on_delivery_status_update i tr st h = (h', ev) \<Longrightarrow> carried_hub h' = carried_hub h"
  using carried_fields(1) [of i tr st h] by simp

lemma task_carries:
  assumes inv: "hub_inv h (t # rest) tx" and r: "task_step t x h = ((h', ev), ts)"
  shows "carried_hub h' \<union> carried_tasks ts \<union> set (newly_sent ts) \<subseteq> carried_hub h \<union> carried_task t"
proof (cases t)
  case (Enqueueing tr e)
  obtain h1 v where q: "enqueue tr e h = Inr (h1, v)" using enqueue_total hub_invD(3) [OF inv] by blast
  then show ?thesis using r Enqueueing carried_enqueue [OF q] by (cases v) (auto simp: task_step_def)
next
  case (Settling tr us)
  then show ?thesis using r by (cases us) (auto simp: task_step_def update_first_def dest: delivery_carried)
next
  case (Updating tr us)
  then show ?thesis using r by (cases us) (auto simp: task_step_def update_first_def dest: delivery_carried)
next
  case (Tracking tr i res promote)
  obtain h1 us where q: "register_delivery_tracking tr i res (in_now x) (maybe_prune (in_now x) h) = (h1, us)"
    by fastforce
  then have "h' = h1" "ts = [Updating tr (us @ (if promote then [(i, Broadcast_Sent)] else []))]"
    using r Tracking by (simp_all add: task_step_def)
  moreover have "carried_hub h1 = carried_hub h" by (rule carried_same) (use register_tracking(2) [OF q] in simp)
  ultimately show ?thesis by simp
next
  case (Drain_Taken tr es)
  then show ?thesis using r by (auto simp: task_step_def drain_taken_def split: if_splits)
next
  case (Draining tr now start did es)
  note req = carried_requeue [of tr _ h]
  show ?thesis
  proof (cases es)
    case Nil
    then show ?thesis using r Draining by (cases did) (auto simp: task_step_def drain_item_def)
  next
    case (Cons e q)
    consider (old) "too_old now h e" | (budget) "\<not> too_old now h e" "drain_budget h < in_mono x - start"
      | (down) "\<not> too_old now h e" "\<not> drain_budget h < in_mono x - start" "\<not> in_avail x"
      | (send) "\<not> too_old now h e" "\<not> drain_budget h < in_mono x - start" "in_avail x" by blast
    then show ?thesis
    proof cases
      case old
      then have "h' = fst (on_delivery_status_update (e_id e) tr Expired h)" "ts = [Draining tr now start True q]"
        using r Draining Cons by (auto simp: task_step_def drain_item_def)
      then show ?thesis using Draining Cons by auto
    next
      case budget
      then have "h' = requeue tr (filter (\<lambda>e. \<not> too_old now h e) es) h"
        "ts = [Settling tr (map (\<lambda>e. (e_id e, Expired)) (filter (too_old now h) es)),
          Draining tr now start (did \<or> (\<exists>e\<in>set es. too_old now h e)) []]"
        using r Draining Cons unfolding task_step_def drain_item_def by simp_all
      then show ?thesis using Draining req [of "filter (\<lambda>e. \<not> too_old now h e) es"] by auto
    next
      case down
      then have "h' = requeue tr es h" "ts = [Draining tr now start did []]"
        using r Draining Cons by (simp_all add: task_step_def drain_item_def)
      then show ?thesis using Draining req [of es] by simp
    next
      case send
      then have "h' = h" "ts = [Drain_Sent tr now start did (attempt e) (with_default raised_result (in_result x)) q]"
        using r Draining Cons by (simp_all add: task_step_def drain_item_def)
      then show ?thesis using Draining Cons by (auto simp: cargo_def attempt_def)
    qed
  qed
next
  case (Drain_Sent tr now start did e res q)
  then show ?thesis
    using r carried_requeue [of tr "[e]" h]
    by (auto simp: task_step_def drain_sent_def case_prod_beta split: if_splits dest: delivery_carried)
next
  case (Drain_Track tr now start i res q)
  obtain h1 us where f: "register_delivery_tracking tr i res (in_now x) h = (h1, us)" by fastforce
  then have "h' = h1" "ts = [Updating tr us, Draining tr now start True q]"
    using r Drain_Track by (simp_all add: task_step_def)
  moreover have "carried_hub h1 = carried_hub h" by (rule carried_same) (use register_tracking(2) [OF f] in simp)
  ultimately show ?thesis using Drain_Track by simp
next
  case (Publishing ev)
  then show ?thesis using r by (auto simp: task_step_def)
next
  case (Sweeping xs)
  show ?thesis
  proof (cases xs)
    case Nil
    then show ?thesis using r Sweeping by (auto simp: task_step_def)
  next
    case (Cons y ys)
    obtain h1 us where v: "pop_stale y h = (h1, us)" by fastforce
    then have "queues h1 = queues h" by (cases y) (auto simp: pop_stale_def split: option.splits)
    then have "carried_hub h1 = carried_hub h" by (rule carried_same)
    moreover have "h' = h1" "ts = [Updating (fst y) us, Sweeping ys]"
      using r Sweeping Cons v by (simp_all add: task_step_def)
    ultimately show ?thesis by simp
  qed
qed

lemma call_carries:
  assumes "store_ok (hstore h)" and r: "hub_call l h = ((h', ev), ts)"
    and c: "c \<in> carried_hub h' \<union> carried_tasks ts"
  shows "c \<in> carried_hub h \<or> written (hstore h') c"
proof (cases l)
  case (Send tr body dest kw avail res nm node now)
  obtain a where s: "send_message tr body dest kw avail res nm node now h = (h', a, ts)"
    using r Send by (auto simp: hub_call_def split: prod.splits)
  then show ?thesis
  proof (cases rule: send_message_cases)
    case 1
    then show ?thesis using c by simp
  next
    case 2
    let ?m = "outbound_row tr body dest kw (kw_to_name kw) Queued (kw_meta kw) node"
    obtain s i where s: "store now ?m (hstore h) = (s, i)" by fastforce
    then have u: "h' = set_store h s" "carried_tasks ts = {(i, tr, body, dest)}"
      using 2 by (simp_all add: queue_message_def cargo_def)
    have "m_id r \<noteq> i" if "r \<in> set (table (hstore h))" for r
      using assms(1) that s by (auto simp: store_ok_def store_def Let_def)
    then have "written s (i, tr, body, dest)"
      using s by (auto simp: written_def store_def Let_def row_of_def outbound_row_def with_default_def)
    then show ?thesis using c u by auto
  next
    case 3
    then have "carried_tasks ts = {}" "queues h' = queues h" by (auto simp: finalize_send_def split: prod.splits)
    then show ?thesis using c carried_same [of h' h] by simp
  qed
next
  case (Receive m now)
  then show ?thesis using c r by (auto simp: hub_call_def split: prod.splits)
next
  case (Drain tr)
  obtain h1 es where t: "take_queue tr h = (h1, es)" by fastforce
  then have "carried_hub h1 \<union> cargo tr ` set es \<subseteq> carried_hub h"
    using carried_put [of tr "[]" h] carried_queue [of tr h] by (auto simp: take_queue_def split: if_splits)
  then show ?thesis using c r Drain t by (auto simp: hub_call_def split: if_splits)
next
  case (Expire_Tick now)
  have "carried_hub (fst (expire_queued now h)) \<subseteq> carried_hub h"
    by (auto simp: carried_hub_def expire_queued_def)
  moreover have "carried_tasks (map (\<lambda>(tr, i). Settling tr [(i, Expired)]) xs) = {}" for xs by (induction xs) auto
  ultimately show ?thesis using c r Expire_Tick by (auto simp: hub_call_def split: prod.splits)
next
  case (Key_Ack tr key st)
  obtain h1 us where v: "ack_by_key tr key st h = (h1, us)" by fastforce
  have "carried_hub h1 = carried_hub h" by (rule carried_same) (use ack_fields [OF disjI1 [OF v]] in simp)
  moreover have "h' = h \<and> ts = [] \<or> h' = h1 \<and> ts = [Updating tr us]"
    using r Key_Ack v by (simp add: hub_call_def split: if_splits)
  ultimately show ?thesis using c by (elim disjE conjE) simp_all
next
  case (Mesh_Ack i acked)
  obtain h1 us where v: "mesh_on_ack i acked h = (h1, us)" by fastforce
  have "carried_hub h1 = carried_hub h" by (rule carried_same) (use ack_fields [OF disjI2 [OF v]] in simp)
  moreover have "h' = h1" "ts = [Updating ''meshtastic'' us]" using r Mesh_Ack v by (simp_all add: hub_call_def)
  ultimately show ?thesis using c by simp
next
  case (Delete_Conversation x)
  then show ?thesis using c r by (auto simp: hub_call_def split: prod.splits)
qed (use c r in \<open>auto simp: hub_call_def split: if_splits\<close>)

abbreviation sys_ok :: "msys \<Rightarrow> bool" where
  "sys_ok y \<equiv> sys_inv y \<and> content_ok (hub y) (tasks y) (transmitted y)"

lemma step_content:
  assumes inv: "sys_inv y" and c: "content_ok (hub y) (tasks y) (transmitted y)" and p: "plain l"
  shows "content_ok (hub (hub_step l y)) (tasks (hub_step l y)) (transmitted (hub_step l y))"
proof (cases "\<exists>i x. l = Run i x")
  case True
  then obtain i x where l: "l = Run i x" by blast
  show ?thesis
  proof (cases "i < length (tasks y)")
    case True
    let ?t = "tasks y ! i" and ?rest = "take i (tasks y) @ drop (Suc i) (tasks y)"
    obtain h' ev ts where r: "task_step ?t x (hub y) = ((h', ev), ts)" by (metis prod.collapse)
    have inv': "hub_inv (hub y) (?t # ?rest) (transmitted y)"
      using inv hub_inv_first [OF True] by blast
    have "carried_tasks (tasks y) = carried_tasks (?t # ?rest)"
      by (subst id_take_nth_drop [OF True]) auto
    then have "content_ok (hub y) (?t # ?rest) (transmitted y)" using c by (simp add: content_ok_def)
    then have "content_ok h' (?rest @ ts) (transmitted y @ newly_sent ts)"
      by (rule content_move) (use task_grows [OF inv', of x] task_carries [OF inv' r] r in simp_all)
    then show ?thesis using l True r by (simp add: hub_step_def advance_def)
  qed (simp add: l hub_step_def c)
next
  case False
  obtain h' ev ts where r: "hub_call l (hub y) = ((h', ev), ts)" by (metis prod.collapse)
  have s: "hub_step l y = advance (hub_call l (hub y)) (tasks y) y"
    using False by (cases l) (simp_all add: hub_step_def)
  have n: "newly_sent ts = []" using call_keeps [OF inv p _ r] False by blast
  have g: "grows (hstore (hub y)) (hstore h')" using call_grows [OF hub_invD(2) [OF inv], of l] r by simp
  have "written (hstore h') e" if "e \<in> carried_hub h' \<union> carried_tasks (tasks y @ ts) \<union> set (transmitted y)" for e
    using that call_carries [OF hub_invD(2) [OF inv] r, of e] c written_grows [OF _ g, of e]
    by (auto simp: content_ok_def simp del: split_paired_All)
  then show ?thesis using s r n by (simp add: advance_def content_ok_def)
qed

lemma hub_run_ok: "sys_ok y \<Longrightarrow> \<forall>l\<in>set ls. plain l \<Longrightarrow> sys_ok (hub_run ls y)"
  by (induction ls arbitrary: y) (simp_all add: step_inv step_content)

end
