(* ===== verification/Hub_Races.thy ===== *)
theory Hub_Races
  imports Hub_Machine
begin

text \<open>
  Runs of the messaging hub: what its queue, its drains and its acknowledgements do in cases that the
  comments or the settings let one expect otherwise.  Message \<open>1\<close> is the first row of an empty database.
\<close>

definition plain_kwargs :: kwargs where
  "plain_kwargs = \<lparr>kw_type = None, kw_sub = None, kw_channel = None, kw_to_name = None, kw_meta = None\<rparr>"

definition broadcast_kwargs :: kwargs where
  "broadcast_kwargs = plain_kwargs\<lparr>kw_type := Some ''broadcast''\<rparr>"

definition accepted :: send_result where
  "accepted = \<lparr>sr_sent = True, sr_reason = [], sr_packet = None, sr_lxm_hash = None, sr_ack_tracking = None,
     sr_expected_ack = None\<rparr>"

definition refused :: send_result where
  "refused = accepted\<lparr>sr_sent := False, sr_reason := ''not_connected''\<rparr>"

definition answers :: "send_result \<Rightarrow> time \<Rightarrow> inputs" where
  "answers res t = \<lparr>in_now = t, in_mono = t, in_avail = True, in_result = Some res\<rparr>"

definition sends :: "string \<Rightarrow> string \<Rightarrow> kwargs \<Rightarrow> bool \<Rightarrow> send_result \<Rightarrow> time \<Rightarrow> hub_label" where
  "sends tr body kw avail res t = Send tr (ascii body) ''peer'' kw avail res None ''node'' t"

definition fresh_hub :: "int \<Rightarrow> msys" where
  "fresh_hub mx = boot_hub (start_hub mx 3600 10 100 0 [] 0)"

definition statuses :: "msys \<Rightarrow> (nat \<times> status) list" where
  "statuses y = map (\<lambda>r. (m_id r, m_status r)) (table (hstore (hub y)))"

definition waiting :: "string \<Rightarrow> msys \<Rightarrow> nat list" where
  "waiting tr y = map e_id (queue_of tr (hub y))"

definition finish :: "nat \<Rightarrow> time \<Rightarrow> hub_label list" where
  "finish k t = replicate k (Run 0 (answers accepted t))"

definition queued_one :: "string \<Rightarrow> kwargs \<Rightarrow> hub_label list" where
  "queued_one tr kw = sends tr ''a'' kw False refused 1 # finish 2 1"

text \<open>While a drain tries message 1, message 2 is queued; the transport refuses message 1.\<close>

definition overtaken :: "hub_label list" where
  "overtaken = [Register_Adapter ''x'' Custom None] @ queued_one ''x'' plain_kwargs @
     [Drain ''x'', Run 0 (answers refused 2), sends ''x'' ''b'' plain_kwargs False refused 3,
      Run 1 (answers refused 3), Run 0 (answers refused 3), Run 1 (answers refused 3)]"

text \<open>The refused message comes back behind the newer one.\<close>

theorem requeue_reorders: "waiting ''x'' (hub_run overtaken (fresh_hub 2)) = [2, 1]"
  by code_simp

text \<open>The queue of at most one message then holds two.\<close>

theorem requeue_ignores_maximum: "length (waiting ''x'' (hub_run overtaken (fresh_hub 1))) = 2"
  by code_simp

text \<open>With a maximum of zero, \<open>popleft\<close> of the empty queue raises: the row is shown as queued and no
  queue or thread holds it.\<close>

theorem zero_maximum_strands:
  "(let y = hub_run ([Register_Adapter ''x'' Custom None] @ queued_one ''x'' plain_kwargs) (fresh_hub 0)
    in (statuses y, waiting ''x'' y, tasks y)) = ([(1, Queued)], [], [])"
  by code_simp

text \<open>A broadcast sent at once becomes \<open>broadcast_sent\<close>; one sent by a drain stays at \<open>sent\<close>.\<close>

theorem drained_broadcast_stays_sent:
  "statuses (hub_run ([Register_Adapter ''x'' Custom None, sends ''x'' ''a'' broadcast_kwargs True accepted 1] @ finish 5 1)
     (fresh_hub 9)) = [(1, Broadcast_Sent)] \<and>
   statuses (hub_run ([Register_Adapter ''x'' Custom None] @ queued_one ''x'' broadcast_kwargs @ Drain ''x'' # finish 9 2)
     (fresh_hub 9)) = [(1, Sent)]"
  by code_simp

text \<open>A MeshCore acknowledgement that arrives between the transmission and \<open>track_pending\<close> finds no entry;
  the sweep of stale entries then reports a timeout.\<close>

theorem early_ack_times_out:
  "statuses (hub_run ([Register_Adapter ''mc'' Meshcore None,
      sends ''mc'' ''a'' plain_kwargs True (accepted\<lparr>sr_expected_ack := Some ''k''\<rparr>) 1,
      Key_Ack ''mc'' ''k'' Delivered] @ finish 9 1 @ Sweep_Tick 400 300 # finish 9 400) (fresh_hub 9)) = [(1, Timed_Out)]"
  by code_simp

text \<open>A read receipt before the radio's acknowledgement: the final status \<open>read\<close> is overwritten.\<close>

theorem delivered_overwrites_read:
  "statuses (hub_run ([Register_Adapter ''meshtastic'' Meshtastic None,
      sends ''meshtastic'' ''a'' plain_kwargs True (accepted\<lparr>sr_packet := Some 7, sr_ack_tracking := Some ''t''\<rparr>) 1] @
      finish 9 1 @ Read_Receipt 7 # finish 9 2) (fresh_hub 9)) = [(1, Read_By_Peer)] \<and>
   statuses (hub_run ([Register_Adapter ''meshtastic'' Meshtastic None,
      sends ''meshtastic'' ''a'' plain_kwargs True (accepted\<lparr>sr_packet := Some 7, sr_ack_tracking := Some ''t''\<rparr>) 1] @
      finish 9 1 @ Read_Receipt 7 # finish 9 2 @ Mesh_Ack 1 True # finish 9 3) (fresh_hub 9)) = [(1, Delivered)]"
  by code_simp

text \<open>The packet number of a message sent by a drain is not stored, so its read receipt is lost.\<close>

theorem drained_receipt_lost:
  "statuses (hub_run ([Register_Adapter ''meshtastic'' Meshtastic None] @ queued_one ''meshtastic'' plain_kwargs @
      Drain ''meshtastic'' # map (\<lambda>_. Run 0 (answers (accepted\<lparr>sr_packet := Some 7\<rparr>) 2)) [0..<9] @
      Read_Receipt 7 # finish 9 3) (fresh_hub 9)) = [(1, Sent)]"
  by code_simp

text \<open>Pruning counts outgoing messages as read: with a limit of one, the queued message is dropped from the
  history while its entry still waits to be sent.\<close>

definition small_history :: msys where
  "small_history = boot_hub (start_hub 9 3600 10 1 0 [] 0)"

theorem pruning_drops_queued:
  "(let y = hub_run ([Register_Adapter ''x'' Custom None] @ queued_one ''x'' plain_kwargs @
      sends ''x'' ''b'' plain_kwargs True accepted 40 # finish 5 40) small_history
    in (statuses y, waiting ''x'' y)) = ([(2, Sent)], [1])"
  by code_simp

end
