(* ===== verification/Hub_Props.thy ===== *)
theory Hub_Props
  imports Hub_Delivery Hub_Races
begin

text \<open>
  What the messaging hub promises from a start of the process on, over every interleaving of its threads.
\<close>

subsection \<open>A run of the process\<close>

definition hub_process ::
  "int \<Rightarrow> time \<Rightarrow> time \<Rightarrow> int \<Rightarrow> time \<Rightarrow> message list \<Rightarrow> nat \<Rightarrow> hub_label list \<Rightarrow> msys" where
  "hub_process mx ttl budget limit now rows n ls = hub_run ls (boot_hub (start_hub mx ttl budget limit now rows n))"

text \<open>The queues of a recovered hub hold what the rows say.\<close>

lemma recover_store: "queues h' = queues h \<Longrightarrow> adapters h' = adapters h \<Longrightarrow> outbound_ttl h' = outbound_ttl h \<Longrightarrow>
    outbound_max h' = outbound_max h \<Longrightarrow> queue_of tr h' = queue_of tr h"
  by (simp add: queue_of_def)

lemma recover_content:
  assumes "\<forall>r\<in>set rs. written (hstore h) (cargo (m_transport r) (entry_of_row r))"
    and "content_ok h [] []"
  shows "content_ok (recover_rows now rs h) [] []"
  using assms
proof (induction rs arbitrary: h)
  case (Cons r rs)
  let ?s = "update_status (m_id r) Expired (hstore h)"
  have g: "grows (hstore h) ?s"
    by (rule rows_grows [OF rows_update]) (simp_all add: rank_def split: status.split)
  have "content_ok (set_store h ?s) [] []"
    using Cons.prems(2) written_grows [OF _ g] by (auto simp: content_ok_def simp del: split_paired_All)
  moreover have "\<forall>q\<in>set rs. written ?s (cargo (m_transport q) (entry_of_row q))"
    using Cons.prems(1) written_grows [OF _ g] by simp
  ultimately have a: "content_ok (recover_rows now rs (set_store h ?s)) [] []"
    using Cons.IH [of "set_store h ?s"] by simp
  have "content_ok (requeue (m_transport r) [entry_of_row r] h) [] []"
    using Cons.prems carried_requeue [of "m_transport r" "[entry_of_row r]" h]
    by (auto simp: content_ok_def simp del: split_paired_All)
  then have "content_ok (recover_rows now rs (requeue (m_transport r) [entry_of_row r] h)) [] []"
    using Cons.IH Cons.prems(1) by simp
  then show ?case using a by simp
qed simp

lemma start_ok:
  assumes "0 < mx" "saved rows n"
  shows "sys_ok (boot_hub (start_hub mx ttl budget limit now rows n))"
proof -
  let ?s = "open_store rows n"
  have ok: "store_ok ?s" using assms(2) by (simp add: saved_def)
  have "q = r" if "q \<in> set (table ?s)" "r \<in> set (table ?s)" "m_id q = m_id r" for q r
    using store_ok_ids(1) [OF ok] that by (auto simp: distinct_map dest: inj_onD)
  then have "\<forall>r\<in>set (get_queued_sent ?s). written ?s (cargo (m_transport r) (entry_of_row r))"
    using ok by (fastforce simp: written_def cargo_def entry_of_row_def queued_sent_ids(1) store_ok_def)
  moreover have "content_ok \<lparr>hstore = ?s, queues = [], adapters = [], outbound_max = mx, outbound_ttl = ttl,
      drain_budget = budget, history_limit = limit, last_prune = 0\<rparr> [] []"
    by (simp add: content_ok_def carried_hub_def)
  ultimately show ?thesis
    using start_inv [OF assms] recover_content by (simp add: start_hub_def recover_queued_messages_def boot_hub_def)
qed

lemma process_ok:
  "0 < mx \<Longrightarrow> saved rows n \<Longrightarrow> \<forall>l\<in>set ls. plain l \<Longrightarrow> sys_ok (hub_process mx ttl budget limit now rows n ls)"
  unfolding hub_process_def by (intro hub_run_ok start_ok)




lemma saved_empty: "saved [] 0"
  by (simp add: saved_def store_ok_def open_store_def)

definition overtaken_end :: msys where
  "overtaken_end = hub_process 2 3600 10 100 0 [] 0 (overtaken @ finish 2 4)"

lemma plain_overtaken: "\<forall>l\<in>set (overtaken @ finish 2 4). plain l"
  by code_simp


text \<open>C11. C1: Nothing is transmitted twice or altered.  A drain hands an accepted message over once, whatever the queue went through; the adapter was given the text and the destination of the stored row, on the row's transport; once the threads have finished, the row is no longer queued.\<close>

theorem transmitted_once:
  assumes "0 < mx" "saved rows n" "\<forall>l\<in>set ls. plain l"
    and "y = hub_process mx ttl budget limit now rows n ls"
  shows "distinct (map fst (transmitted y)) \<and>
    (\<forall>(i, tr, body, dest)\<in>set (transmitted y). \<forall>r\<in>set (table (hstore (hub y))). m_id r = i \<longrightarrow>
       m_transport r = tr \<and> m_text r = body \<and> with_default '''' (m_to r) = dest \<and>
       (tasks y = [] \<longrightarrow> \<not> (m_direction r = Outbound \<and> m_status r = Queued)))"
proof -
  have ok: "sys_ok y" using process_ok [OF assms(1-3)] assms(4) by simp
  have "m_transport r = tr \<and> m_text r = body \<and> with_default '''' (m_to r) = dest \<and>
       (tasks y = [] \<longrightarrow> \<not> (m_direction r = Outbound \<and> m_status r = Queued))"
    if t: "(i, tr, body, dest) \<in> set (transmitted y)" and r: "r \<in> set (table (hstore (hub y)))" "m_id r = i" for i tr body dest r
  proof -
    have "written (hstore (hub y)) (i, tr, body, dest)" using ok t unfolding content_ok_def by blast
    moreover have "i \<notin># own_hub (hub y) + wait_tasks (tasks y)" using hub_invD(10) ok t by (metis image_eqI fst_conv)
    moreover have "waits r \<longrightarrow> m_id r \<in># own_hub (hub y) + own_tasks (tasks y)" using hub_invD(5) ok r(1) by blast
    ultimately show ?thesis using r by (auto simp: written_def waits_def)
  qed
  then show ?thesis using hub_invD(9) ok by blast
qed

definition drained_end :: msys where
  "drained_end = hub_process 2 3600 10 100 0 [] 0
     ([Register_Adapter ''x'' Custom None] @ queued_one ''x'' plain_kwargs @ Drain ''x'' # finish 9 2)"

theorem transmitted_once_witness:
  "distinct (map fst (transmitted drained_end)) \<and> map fst (transmitted drained_end) = [1] \<and>
   m_text (hd (table (hstore (hub drained_end)))) = ascii ''a''"
proof -
  let ?r = "hd (table (hstore (hub drained_end)))"
  have p: "\<forall>l\<in>set ([Register_Adapter ''x'' Custom None] @ queued_one ''x'' plain_kwargs @ Drain ''x'' # finish 9 2). plain l"
    by code_simp
  have t: "transmitted drained_end = [(1, ''x'', ascii ''a'', ''peer'')]"
    and r: "?r \<in> set (table (hstore (hub drained_end)))" "m_id ?r = 1"
    by code_simp+
  have "(0::int) < 2" by simp
  note all = transmitted_once [OF this saved_empty p drained_end_def]
  then have "m_text ?r = ascii ''a''" using r unfolding t by simp
  then show ?thesis using all t by simp
qed




subsection \<open>Recovery\<close>

lemma recover_config [simp]:
  "outbound_max (recover_rows now rs h) = outbound_max h" "outbound_ttl (recover_rows now rs h) = outbound_ttl h"
  by (induction rs arbitrary: h) (simp_all add: requeue_def put_queue_def)

lemma queue_of_requeue: "queue_of tr (requeue tr' es h) = queue_of tr h @ (if tr = tr' then es else [])"
  by (simp add: queue_of_def requeue_def put_queue_def with_default_def AList.update_conv')

lemma queue_of_store [simp]: "queue_of tr (set_store h s) = queue_of tr h"
  by (simp add: queue_of_def)

definition recoverable :: "time \<Rightarrow> time \<Rightarrow> string \<Rightarrow> message \<Rightarrow> bool" where
  "recoverable ttl now tr r \<longleftrightarrow> m_transport r = tr \<and> \<not> ttl < now - m_ts r"

lemma recover_queue:
  "queue_of tr (recover_rows now rs h) = queue_of tr h @
     map entry_of_row (take (nat (outbound_max h) - length (queue_of tr h)) (filter (recoverable (outbound_ttl h) now tr) rs))"
proof (induction rs arbitrary: h)
  case (Cons r rs)
  show ?case
  proof (cases "m_transport r = tr")
    case True
    consider (old) "outbound_ttl h < now - m_ts r"
      | (full) "\<not> outbound_ttl h < now - m_ts r" "outbound_max h \<le> int (length (queue_of tr h))"
      | (room) "\<not> outbound_ttl h < now - m_ts r" "\<not> outbound_max h \<le> int (length (queue_of tr h))" by blast
    then show ?thesis
    proof cases
      case room
      then have "nat (outbound_max h) - length (queue_of tr h) = Suc (nat (outbound_max h) - Suc (length (queue_of tr h)))"
        by linarith
      then show ?thesis
        using room True Cons.IH [of "requeue tr [entry_of_row r] h"]
        by (simp add: recoverable_def queue_of_requeue) (simp add: requeue_def put_queue_def)
    qed (use True Cons.IH in \<open>simp_all add: recoverable_def\<close>)
  next
    case False
    then show ?thesis
      using Cons.IH [of "requeue (m_transport r) [entry_of_row r] h"] Cons.IH
      by (simp add: recoverable_def queue_of_requeue) (simp add: requeue_def put_queue_def)
  qed
qed simp

text \<open>C20. C1: What a restart recovers.  After start, the queue of a transport holds exactly the queued outbound rows of that transport that have not outlived the time to live, the oldest first and at most the queue's maximum, each with the text, recipient and options of its row and no attempt counted.\<close>

theorem recovery_exact:
  "queue_of tr (start_hub mx ttl budget limit now rows n) =
     map entry_of_row (take (nat mx) (filter (recoverable ttl now tr) (get_queued_sent (open_store rows n))))"
  unfolding start_hub_def recover_queued_messages_def recover_queue by (simp add: queue_of_def with_default_def)

subsection \<open>Threads finish\<close>

fun work :: "task \<Rightarrow> nat" where
  "work (Publishing _) = 1"
| "work (Settling _ us) = Suc (length us)"
| "work (Updating _ us) = Suc (length us)"
| "work (Enqueueing _ _) = 4"
| "work (Tracking _ _ _ _) = 4"
| "work (Draining _ _ _ _ es) = Suc (5 * length es)"
| "work (Drain_Taken _ es) = 2 + 5 * length es"
| "work (Drain_Sent _ _ _ _ _ _ rest) = 5 + 5 * length rest"
| "work (Drain_Track _ _ _ _ _ rest) = 4 + 5 * length rest"
| "work (Sweeping xs) = Suc (3 * length xs)"

definition total_work :: "task list \<Rightarrow> nat" where
  "total_work ts = sum_list (map work ts)"

lemma total_work_simps [simp]:
  "total_work [] = 0" "total_work (t # ts) = work t + total_work ts" "total_work (ts @ us) = total_work ts + total_work us"
  by (simp_all add: total_work_def)

lemma work_pos: "0 < work t"
  by (cases t) simp_all

lemma tracking_short:
  assumes "register_delivery_tracking tr i res now h = (h', us)"
  shows "length us \<le> 1"
proof -
  have "length (list_of_option v) \<le> 1" for v :: "nat option" by (cases v) simp_all
  then show ?thesis using assms by (auto simp: register_delivery_tracking_def split: option.splits prod.splits)
qed

lemma enqueueing_work: "total_work (snd (task_step (Enqueueing tr e) x h)) < work (Enqueueing tr e)"
proof -
  have "sum_list (map work (map (\<lambda>v. Settling tr [(e_id v, Failed)]) (list_of_option v))) < 3" for v :: "entry option"
    by (cases v) simp_all
  then show ?thesis by (auto simp: task_step_def total_work_def split: sum.split)
qed

lemma draining_work:
  "total_work (snd (drain_item tr now start did es x h)) < work (Draining tr now start did es)"
proof (cases es)
  case (Cons e q)
  have f: "length (filter P es) \<le> length es" for P by simp
  show ?thesis using f [of "too_old now h"] Cons unfolding drain_item_def by (auto split: if_split)
qed (simp add: drain_item_def)

text \<open>Every section leaves less to do than its task had.\<close>

lemma task_work: "total_work (snd (task_step t x h)) < work t"
proof (cases t)
  case (Enqueueing tr e)
  then show ?thesis using enqueueing_work by simp
next
  case (Settling tr us)
  then show ?thesis by (cases us) (auto simp: task_step_def update_first_def)
next
  case (Updating tr us)
  then show ?thesis by (cases us) (auto simp: task_step_def update_first_def)
next
  case (Tracking tr i res promote)
  obtain h1 us where q: "register_delivery_tracking tr i res (in_now x) (maybe_prune (in_now x) h) = (h1, us)"
    by fastforce
  then show ?thesis using Tracking tracking_short [OF q] by (simp add: task_step_def)
next
  case (Drain_Taken tr es)
  then show ?thesis by (simp add: task_step_def drain_taken_def)
next
  case (Draining tr now start did es)
  then show ?thesis using draining_work by (simp add: task_step_def)
next
  case (Drain_Sent tr now start did e res q)
  then show ?thesis by (simp add: task_step_def drain_sent_def case_prod_beta)
next
  case (Drain_Track tr now start i res q)
  obtain h1 us where q: "register_delivery_tracking tr i res (in_now x) h = (h1, us)" by fastforce
  then show ?thesis using Drain_Track tracking_short [OF q] by (simp add: task_step_def)
next
  case (Publishing ev)
  then show ?thesis by (simp add: task_step_def)
next
  case (Sweeping xs)
  have "length (snd (pop_stale y h)) \<le> 1" for y by (cases y) (simp add: pop_stale_def split: option.split)
  then show ?thesis
    using Sweeping by (cases xs) (simp_all add: task_step_def case_prod_beta le_imp_less_Suc)
qed

lemma run_first_work:
  assumes "tasks y \<noteq> []"
  shows "total_work (tasks (hub_step (Run 0 x) y)) < total_work (tasks y)"
proof (cases "tasks y")
  case (Cons t ts)
  then show ?thesis using task_work [of t x "hub y"] by (simp add: hub_step_def advance_def)
qed (use assms in simp)

text \<open>C1: Every thread finishes.  Whatever the adapters answer and the clocks show, running the threads of the hub one section at a time ends after at most as many sections as their remaining items allow: five per message of a drain, so no drain, settling or sweep can loop.\<close>

theorem hub_settles:
  "tasks (hub_run (map (\<lambda>k. Run 0 (x k)) [0..<total_work (tasks y)]) y) = []"
proof -
  have "total_work (tasks y) \<le> length xs \<Longrightarrow> tasks (hub_run (map (Run 0) xs) y) = []" for xs
  proof (induction xs arbitrary: y)
    case Nil
    then show ?case using work_pos by (cases "tasks y") (simp_all, metis less_numeral_extra(3))
  next
    case (Cons v vs)
    show ?case
    proof (cases "tasks y = []")
      case True
      then have "hub_step (Run 0 v) y = y" by (simp add: hub_step_def)
      then show ?thesis using Cons.IH [of y] True by simp
    next
      case False
      then show ?thesis using Cons.IH [of "hub_step (Run 0 v) y"] run_first_work [of y v] Cons.prems by simp
    qed
  qed
  from this [of "map x [0..<total_work (tasks y)]"] show ?thesis by (simp add: comp_def)
qed

subsection \<open>Shape of the state\<close>

lemma carried_owned: "c \<in> carried_hub h \<Longrightarrow> fst c \<in># own_hub h"
proof -
  assume "c \<in> carried_hub h"
  then obtain x e where x: "x \<in> set (queues h)" "e \<in> set (snd x)" "fst c = e_id e"
    unfolding carried_hub_def case_prod_beta by (auto simp: cargo_def)
  have "x \<in> set d \<Longrightarrow> e_id e \<in># sum_list (map (\<lambda>x. ids (snd x)) d)" for d :: "(string, entry list) pydict"
    using x(2) by (induction d) auto
  then show ?thesis using x(1,3) unfolding own_hub_def case_prod_beta by simp
qed

text \<open>C21. C1: The state keeps its shape.  At any moment transports have one queue each, rows have distinct numbers given by the sequence, and an entry of a queue has such a number; if its row has not been pruned or deleted, the row is a queued one with the entry's text and recipient on the queue's transport.\<close>

theorem hub_well_formed:
  assumes "0 < mx" "saved rows n" "\<forall>l\<in>set ls. plain l"
    and "h = hub (hub_process mx ttl budget limit now rows n ls)"
  shows "distinct (map fst (queues h)) \<and> distinct (map m_id (table (hstore h))) \<and>
    (\<forall>r\<in>set (table (hstore h)). m_id r \<le> last_rowid (hstore h)) \<and>
    (\<forall>(tr, q)\<in>set (queues h). \<forall>e\<in>set q. e_id e \<le> last_rowid (hstore h) \<and>
       (\<forall>r\<in>set (table (hstore h)). m_id r = e_id e \<longrightarrow> m_status r = Queued \<and> m_transport r = tr \<and>
          m_text r = e_text e \<and> with_default '''' (m_to r) = e_dest e))"
proof -
  let ?y = "hub_process mx ttl budget limit now rows n ls"
  have ok: "sys_ok ?y" by (rule process_ok [OF assms(1-3)])
  have s: "store_ok (hstore h)" using hub_invD(2) ok assms(4) by blast
  have "e_id e \<le> last_rowid (hstore h) \<and> (\<forall>r\<in>set (table (hstore h)). m_id r = e_id e \<longrightarrow> m_status r = Queued \<and>
      m_transport r = tr \<and> m_text r = e_text e \<and> with_default '''' (m_to r) = e_dest e)"
    if q: "(tr, q) \<in> set (queues h)" "e \<in> set q" for tr q e
  proof -
    have c: "cargo tr e \<in> carried_hub h" using q by (auto simp: carried_hub_def)
    then have "e_id e \<in># own_hub h + own_tasks (tasks ?y)" using carried_owned [OF c] by (simp add: cargo_def)
    moreover have "written (hstore h) (cargo tr e)" using ok c assms(4) by (simp add: content_ok_def)
    ultimately show ?thesis using hub_invD(6) ok assms(4) by (auto simp: written_def cargo_def)
  qed
  then show ?thesis using s store_ok_ids(1) [OF s] hub_invD(1) ok assms(4) unfolding store_ok_def by blast
qed

theorem hub_well_formed_witness:
  "distinct (map fst (queues (hub overtaken_end))) \<and>
   m_id (hd (table (hstore (hub overtaken_end)))) \<le> last_rowid (hstore (hub overtaken_end))"
proof -
  have r: "hd (table (hstore (hub overtaken_end))) \<in> set (table (hstore (hub overtaken_end)))" by code_simp
  have "(0::int) < 2" by simp
  from hub_well_formed [OF this saved_empty plain_overtaken refl, where ttl = 3600 and budget = 10 and limit = 100 and now = 0] show ?thesis
    using r unfolding overtaken_end_def [symmetric] by blast
qed

end
