(* ===== verification/Migration_Path.thy ===== *)
theory Migration_Path
  imports RPi_Prelude
begin

text \<open>
  \<open>migrations.py\<close>, the paths of databases: \<open>_canonicalize_trusted_ancestors\<close> follows only the aliases of
  the platform, \<open>_validate_target_path\<close> refuses symbolic links and special files.  A path is the list of
  its components below the root; what \<open>lstat\<close>, \<open>resolve\<close> and \<open>open\<close> answer is an argument.
\<close>

datatype kind = Regular | Directory | Symlink | Special
















end
