(* ===== verification/Migration_Store.thy ===== *)
theory Migration_Store
  imports Py_Text
begin

text \<open>
  \<open>migrations.py\<close>, migrations of a SQLite file: declarations with checksums, validation of the recorded
  history, the dry run on a clone, backup, transactional application and restoring after a failure.  A
  database is its version, its ledger table and the rest; what a statement does to it and what SQLite's
  integrity checks say is an argument (\<open>engine\<close>), as is SHA-256.  Outcomes of file operations and what
  other connections write meanwhile are inputs (\<open>conditions\<close>).
\<close>

subsection \<open>Declarations\<close>

record migration =
  mg_version :: int
  mg_name :: string
  mg_statements :: "string list"
  mg_checksum :: string

definition upper_char :: "char \<Rightarrow> char" where
  "upper_char c = (let n = (of_char c :: nat) in if 97 \<le> n \<and> n \<le> 122 then char_of (n - 32) else c)"

definition word_char :: "char \<Rightarrow> bool" where
  "word_char c = (let n = (of_char c :: nat) in
     48 \<le> n \<and> n \<le> 57 \<or> 65 \<le> n \<and> n \<le> 90 \<or> 97 \<le> n \<and> n \<le> 122 \<or> n = 95)"

text \<open>\<open>_FORBIDDEN_SQL\<close>, for ASCII text: a keyword at the start of a line or after a semicolon.\<close>

definition word_at :: "string \<Rightarrow> string \<Rightarrow> bool" where
  "word_at w s = (map upper_char (take (length w) s) = w \<and> (drop (length w) s = [] \<or> \<not> word_char (hd (drop (length w) s))))"

definition forbidden_words :: "string list" where
  "forbidden_words = [''BEGIN'', ''COMMIT'', ''END'', ''ROLLBACK'', ''VACUUM'', ''ATTACH'', ''DETACH'']"

definition forbidden_command :: "string \<Rightarrow> bool" where
  "forbidden_command s = (\<exists>w\<in>set forbidden_words. word_at w (dropWhile py_space s))"

definition forbidden_at :: "string \<Rightarrow> bool" where
  "forbidden_at s =
     (let t = dropWhile py_space s
      in forbidden_command s \<or>
         map upper_char (take 6 t) = ''PRAGMA'' \<and> drop 6 t \<noteq> [] \<and> py_space (hd (drop 6 t)) \<and>
         word_at ''JOURNAL_MODE'' (dropWhile py_space (drop 6 t)))"

fun forbidden_from :: "(string \<Rightarrow> bool) \<Rightarrow> bool \<Rightarrow> string \<Rightarrow> bool" where
  "forbidden_from f start [] = (start \<and> f [])"
| "forbidden_from f start (c # s) =
     (start \<and> f (c # s) \<or> forbidden_from f (c = CHR 0x0A \<or> c = CHR '';'') s)"

definition forbidden_sql :: "string \<Rightarrow> bool" where
  "forbidden_sql s = forbidden_from forbidden_at True s"

definition join_nul :: "string list \<Rightarrow> string" where
  "join_nul xs = (case xs of [] \<Rightarrow> [] | y # ys \<Rightarrow> y @ concat (map (\<lambda>s. CHR 0x00 # s) ys))"

definition calculated_checksum :: "(string \<Rightarrow> string) \<Rightarrow> migration \<Rightarrow> string" where
  "calculated_checksum sha m = sha (join_nul (show_int (mg_version m) # mg_name m # mg_statements m))"

definition stable_checksum :: "(string \<Rightarrow> string) \<Rightarrow> migration \<Rightarrow> string" where
  "stable_checksum sha m = (if mg_checksum m \<noteq> [] then mg_checksum m else calculated_checksum sha m)"

definition make_migration :: "(string \<Rightarrow> string) \<Rightarrow> migration \<Rightarrow> py_error + migration" where
  "make_migration sha m =
     (if mg_version m < 1 \<or> py_strip (mg_name m) = [] \<or> mg_statements m = []
       \<or> (\<exists>s\<in>set (mg_statements m). py_strip s = [] \<or> forbidden_sql s)
       \<or> mg_checksum m \<noteq> [] \<and> mg_checksum m \<noteq> calculated_checksum sha m
      then Inl ValueError else Inr m)"

definition make_target :: "string \<Rightarrow> migration list \<Rightarrow> py_error + migration list" where
  "make_target name ms =
     (if py_strip name = [] \<or> map mg_version ms \<noteq> [1..int (length ms)] then Inl ValueError else Inr ms)"

subsection \<open>Databases\<close>

record 'c database =
  user_version :: int
  ledger :: "(int \<times> string) list option"
  contents :: 'c

record 'c engine =
  run_sql :: "string \<Rightarrow> 'c database \<Rightarrow> 'c database option"
  quick_ok :: "'c database \<Rightarrow> bool"
  integrity_ok :: "'c database \<Rightarrow> bool"
  blank :: 'c

datatype failure = Migration_Error | Sqlite_Error | Os_Error

definition new_database :: "'c engine \<Rightarrow> 'c database" where
  "new_database q = \<lparr>user_version = 0, ledger = None, contents = blank q\<rparr>"

text \<open>\<open>_validate_history\<close>.\<close>

definition validate_history :: "(string \<Rightarrow> string) \<Rightarrow> migration list \<Rightarrow> 'c database \<Rightarrow> failure + int" where
  "validate_history sha ms db =
     (if int (length ms) < user_version db then Inl Migration_Error
      else case ledger db of
             None \<Rightarrow> Inr (user_version db)
           | Some rows \<Rightarrow>
               (let rs = sort_key fst rows
                in if \<exists>(v, c)\<in>set rs. v < 1 \<or> int (length ms) < v \<or> c \<noteq> stable_checksum sha (ms ! nat (v - 1))
                   then Inl Migration_Error
                   else if map fst rs = [1..user_version db] then Inr (user_version db) else Inl Migration_Error))"

text \<open>\<open>xs[i:]\<close>, which counts from the end when \<open>i\<close> is negative.\<close>

definition slice_from :: "int \<Rightarrow> 'a list \<Rightarrow> 'a list" where
  "slice_from i xs = (if 0 \<le> i then drop (nat i) xs else drop (length xs - nat (- i)) xs)"

subsection \<open>Applying\<close>

primrec run_statements :: "'c engine \<Rightarrow> string list \<Rightarrow> 'c database \<Rightarrow> 'c database option" where
  "run_statements q [] db = Some db"
| "run_statements q (s # ss) db = Option.bind (run_sql q s db) (run_statements q ss)"

text \<open>The version is the primary key of the ledger.\<close>

definition record_migration :: "(string \<Rightarrow> string) \<Rightarrow> migration \<Rightarrow> 'c database \<Rightarrow> 'c database option" where
  "record_migration sha m db =
     (case ledger db of
        None \<Rightarrow> None
      | Some rows \<Rightarrow>
          if mg_version m \<in> fst ` set rows then None
          else Some (db\<lparr>ledger := Some (rows @ [(mg_version m, stable_checksum sha m)]), user_version := mg_version m\<rparr>))"

primrec apply_all :: "(string \<Rightarrow> string) \<Rightarrow> 'c engine \<Rightarrow> migration list \<Rightarrow> 'c database \<Rightarrow> 'c database option" where
  "apply_all sha q [] db = Some db"
| "apply_all sha q (m # ms) db =
     Option.bind (Option.bind (run_statements q (mg_statements m) db) (record_migration sha m)) (apply_all sha q ms)"

definition create_ledger :: "'c database \<Rightarrow> 'c database" where
  "create_ledger db = db\<lparr>ledger := Some (case ledger db of None \<Rightarrow> [] | Some rows \<Rightarrow> rows)\<rparr>"

text \<open>\<open>_apply\<close>: one transaction; a failure rolls it back, so the left side stands for an unchanged database.\<close>

definition apply_pending ::
  "(string \<Rightarrow> string) \<Rightarrow> 'c engine \<Rightarrow> migration list \<Rightarrow> int \<Rightarrow> bool \<Rightarrow> 'c database \<Rightarrow> failure + 'c database \<times> int list" where
  "apply_pending sha q ms current commits db =
     (case slice_from current ms of
        [] \<Rightarrow> Inr (db, [])
      | p # ps \<Rightarrow>
          (case (if commits then apply_all sha q (p # ps) (create_ledger db) else None) of
             None \<Rightarrow> Inl Sqlite_Error
           | Some db' \<Rightarrow> Inr (db', map mg_version (p # ps))))"

subsection \<open>One call\<close>

datatype restore_fate = Restored | Restored_But_Raised | Not_Restored

record 'c conditions =
  locks :: bool
  has_space :: bool
  clones :: bool
  dry_commits :: bool
  other_before_backup :: "'c database option \<Rightarrow> 'c database option"
  backs_up :: bool
  other_before_apply :: "'c database option \<Rightarrow> 'c database option"
  opens :: bool
  live_commits :: bool
  syncs :: bool
  restore_fate :: restore_fate

record 'c files =
  live :: "'c database option"
  copies :: "'c database list"

record migration_result =
  from_version :: int
  to_version :: int
  applied :: "int list"
  was_dry :: bool
  made_backup :: bool

definition file_or_new :: "'c engine \<Rightarrow> 'c database option \<Rightarrow> 'c database" where
  "file_or_new q f = (case f of Some db \<Rightarrow> db | None \<Rightarrow> new_database q)"

definition dry_run ::
  "(string \<Rightarrow> string) \<Rightarrow> 'c engine \<Rightarrow> migration list \<Rightarrow> 'c conditions \<Rightarrow> 'c database option \<Rightarrow> failure + int \<times> int list" where
  "dry_run sha q ms x source =
     (if source \<noteq> None \<and> \<not> clones x then Inl Os_Error
      else if source \<noteq> None \<and> \<not> integrity_ok q (file_or_new q source) then Inl Migration_Error
      else case validate_history sha ms (file_or_new q source) of
             Inl e \<Rightarrow> Inl e
           | Inr current \<Rightarrow>
               (case apply_pending sha q ms current (dry_commits x) (file_or_new q source) of
                  Inl e \<Rightarrow> Inl e
                | Inr (db, vs) \<Rightarrow> if integrity_ok q db then Inr (current, vs) else Inl Migration_Error))"

text \<open>The part on the live file: the file afterwards and the versions applied, or the failure.\<close>

definition apply_live ::
  "(string \<Rightarrow> string) \<Rightarrow> 'c engine \<Rightarrow> migration list \<Rightarrow> 'c conditions \<Rightarrow> int \<Rightarrow> 'c database \<Rightarrow>
     'c database \<times> (failure + int list)" where
  "apply_live sha q ms x current db =
     (if \<not> opens x then (db, Inl Os_Error)
      else case validate_history sha ms db of
             Inl e \<Rightarrow> (db, Inl e)
           | Inr v \<Rightarrow>
               if v \<noteq> current then (db, Inl Migration_Error)
               else (case apply_pending sha q ms current (live_commits x) db of
                       Inl e \<Rightarrow> (db, Inl e)
                     | Inr (db', vs) \<Rightarrow>
                         if \<not> integrity_ok q db' then (db', Inl Migration_Error)
                         else if \<not> syncs x then (db', Inl Os_Error) else (db', Inr vs)))"

text \<open>After a failure: the backup comes back, a file that did not exist is removed.\<close>

definition undo :: "restore_fate \<Rightarrow> bool \<Rightarrow> 'c database \<Rightarrow> 'c database \<Rightarrow> failure \<Rightarrow> 'c database option \<times> failure" where
  "undo r existed backup now_live e =
     (if \<not> existed then (None, e)
      else case r of
             Restored \<Rightarrow> (Some backup, e)
           | Restored_But_Raised \<Rightarrow> (Some backup, Os_Error)
           | Not_Restored \<Rightarrow> (Some now_live, Os_Error))"

definition expire_copies :: "int \<Rightarrow> 'c database list \<Rightarrow> 'c database list" where
  "expire_copies retain cs = (if 0 \<le> retain then take (nat retain) cs else cs)"

definition migrate_target ::
  "(string \<Rightarrow> string) \<Rightarrow> 'c engine \<Rightarrow> migration list \<Rightarrow> bool \<Rightarrow> int \<Rightarrow> 'c conditions \<Rightarrow> 'c files \<Rightarrow>
     'c files \<times> (failure + migration_result)" where
  "migrate_target sha q ms dry retain x fs =
     (if \<not> locks x \<or> \<not> has_space x then (fs, Inl Migration_Error)
      else case dry_run sha q ms x (live fs) of
             Inl e \<Rightarrow> (fs, Inl e)
           | Inr (current, vs) \<Rightarrow>
               if dry \<or> vs = [] then
                 (fs, Inr \<lparr>from_version = current, to_version = current + int (length vs), applied = vs, was_dry = dry,
                    made_backup = False\<rparr>)
               else
                 (let existed = (live fs \<noteq> None);
                      l1 = other_before_backup x (live fs);
                      backup = file_or_new q l1
                  in if existed \<and> \<not> backs_up x then (fs\<lparr>live := l1\<rparr>, Inl Os_Error)
                     else if existed \<and> \<not> integrity_ok q backup then
                       (fs\<lparr>live := l1, copies := backup # copies fs\<rparr>, Inl Migration_Error)
                     else
                       (let cs = (if existed then backup # copies fs else copies fs);
                            l2 = file_or_new q (other_before_apply x l1)
                        in case apply_live sha q ms x current l2 of
                             (db, Inl e) \<Rightarrow>
                               (case undo (restore_fate x) existed backup db e of
                                  (l, e') \<Rightarrow> (\<lparr>live = l, copies = cs\<rparr>, Inl e'))
                           | (db, Inr ws) \<Rightarrow>
                               (\<lparr>live = Some db, copies = (if existed then expire_copies retain cs else cs)\<rparr>,
                                Inr \<lparr>from_version = current, to_version = current + int (length ws), applied = ws,
                                  was_dry = False, made_backup = existed\<rparr>))))"

text \<open>\<open>plan_migrations\<close> and \<open>restore_database\<close>.\<close>

definition plan_migrations ::
  "(string \<Rightarrow> string) \<Rightarrow> 'c engine \<Rightarrow> migration list \<Rightarrow> 'c database option \<Rightarrow> failure + migration list" where
  "plan_migrations sha q ms f =
     (case f of
        None \<Rightarrow> Inr ms
      | Some db \<Rightarrow>
          if \<not> quick_ok q db then Inl Migration_Error
          else case validate_history sha ms db of Inl e \<Rightarrow> Inl e | Inr v \<Rightarrow> Inr (slice_from v ms))"

definition restore_database :: "'c engine \<Rightarrow> 'c database option \<Rightarrow> restore_fate \<Rightarrow> 'c files \<Rightarrow> 'c files \<times> failure option" where
  "restore_database q backup r fs =
     (case backup of
        None \<Rightarrow> (fs, Some Migration_Error)
      | Some db \<Rightarrow>
          if \<not> integrity_ok q db then (fs, Some Migration_Error)
          else case r of
                 Restored \<Rightarrow> (fs\<lparr>live := Some db\<rparr>, None)
               | Restored_But_Raised \<Rightarrow> (fs\<lparr>live := Some db\<rparr>, Some Os_Error)
               | Not_Restored \<Rightarrow> (fs, Some Os_Error))"

subsection \<open>Metrics\<close>

record metrics =
  attempts :: nat
  successes :: nat
  failures :: nat
  dry_runs :: nat
  apply_runs :: nat
  migrations_applied :: nat
  backups_created :: nat

definition count_call :: "failure + migration_result \<Rightarrow> metrics \<Rightarrow> metrics" where
  "count_call r m =
     (case r of
        Inl _ \<Rightarrow> m\<lparr>attempts := attempts m + 1, failures := failures m + 1\<rparr>
      | Inr res \<Rightarrow>
          m\<lparr>attempts := attempts m + 1, successes := successes m + 1,
            dry_runs := dry_runs m + (if was_dry res then 1 else 0),
            apply_runs := apply_runs m + (if was_dry res then 0 else 1),
            migrations_applied := migrations_applied m + length (applied res),
            backups_created := backups_created m + (if made_backup res then 1 else 0)\<rparr>)"

subsection \<open>The other runner\<close>

text \<open>\<open>run_db_migrations\<close> of \<open>app.py\<close>: scripts numbered by their position, each committed on its own, and no
  ledger.  A script is one transaction with its version, so a refused one leaves the database as it was.  An
  index counts from the end when negative.\<close>

definition py_script :: "string list \<Rightarrow> int \<Rightarrow> string option" where
  "py_script scripts i =
     (let j = (if i < 0 then int (length scripts) + i else i)
      in if 0 \<le> j \<and> j < int (length scripts) then Some (scripts ! nat j) else None)"

definition run_script :: "'c engine \<Rightarrow> string \<Rightarrow> int \<Rightarrow> bool \<Rightarrow> 'c database \<Rightarrow> py_error + failure + 'c database" where
  "run_script q s v busy db =
     (if forbidden_from forbidden_command True s then Inl ValueError
      else if busy then Inl RuntimeError
      else case run_sql q s db of
             None \<Rightarrow> Inr (Inl Sqlite_Error)
           | Some d \<Rightarrow> Inr (Inr (d\<lparr>user_version := v\<rparr>)))"

datatype run_error = Raised py_error | Refused failure

primrec run_scripts :: "'c engine \<Rightarrow> string list \<Rightarrow> bool \<Rightarrow> int list \<Rightarrow> 'c database \<Rightarrow> 'c database \<times> (run_error + int)" where
  "run_scripts q scripts busy [] db = (db, Inr (int (length scripts)))"
| "run_scripts q scripts busy (i # is) db =
     (case py_script scripts i of
        None \<Rightarrow> (db, Inl (Raised IndexError))
      | Some s \<Rightarrow>
          (case run_script q s (i + 1) busy db of
             Inl e \<Rightarrow> (db, Inl (Raised e))
           | Inr (Inl e) \<Rightarrow> (db, Inl (Refused e))
           | Inr (Inr d) \<Rightarrow> run_scripts q scripts busy is d))"

definition run_db_migrations :: "'c engine \<Rightarrow> string list \<Rightarrow> bool \<Rightarrow> 'c database \<Rightarrow> 'c database \<times> (run_error + int)" where
  "run_db_migrations q scripts busy db =
     (if int (length scripts) \<le> user_version db then (db, Inr (user_version db))
      else run_scripts q scripts busy [user_version db..int (length scripts) - 1] db)"

subsection \<open>Before a plugin starts\<close>

text \<open>\<open>_migrate_plugin\<close>: its targets in order, up to the first that fails.\<close>

primrec migrate_plugin ::
  "(string \<Rightarrow> string) \<Rightarrow> 'c engine \<Rightarrow> (migration list \<times> 'c conditions \<times> 'c files) list \<Rightarrow>
     'c files list \<times> (failure + migration_result list)" where
  "migrate_plugin sha q [] = ([], Inr [])"
| "migrate_plugin sha q (t # ts) =
     (case t of (ms, x, fs) \<Rightarrow>
        (case migrate_target sha q ms False 3 x fs of
           (fs', Inl e) \<Rightarrow> (fs' # map (\<lambda>(_, _, g). g) ts, Inl e)
         | (fs', Inr r) \<Rightarrow>
             (case migrate_plugin sha q ts of
                (gs, Inl e) \<Rightarrow> (fs' # gs, Inl e)
              | (gs, Inr rs) \<Rightarrow> (fs' # gs, Inr (r # rs)))))"

end
