(* ===== verification/Migration_Props.thy ===== *)
theory Migration_Props
  imports Migration_Store "HOL-Library.Multiset"
begin

text \<open>
  What a call of \<open>migrate_target\<close> leaves behind: nothing when it fails, a complete and recorded history when
  it succeeds, what its dry run said; and runs in which it does not.
\<close>

subsection \<open>Failures\<close>

definition undisturbed :: "'c conditions \<Rightarrow> bool" where
  "undisturbed x \<longleftrightarrow> other_before_backup x = id \<and> other_before_apply x = id"


subsection \<open>The ledger after a success\<close>

text \<open>What the statements of a migration may not do.\<close>

definition keeps_books :: "'c engine \<Rightarrow> migration list \<Rightarrow> bool" where
  "keeps_books q ms \<longleftrightarrow> (\<forall>m\<in>set ms. \<forall>s\<in>set (mg_statements m). \<forall>d d'. run_sql q s d = Some d' \<longrightarrow>
     ledger d' = ledger d \<and> user_version d' = user_version d)"

lemma run_statements_books:
  "\<forall>s\<in>set ss. \<forall>d d'. run_sql q s d = Some d' \<longrightarrow> ledger d' = ledger d \<and> user_version d' = user_version d \<Longrightarrow>
   run_statements q ss db = Some db' \<Longrightarrow> ledger db' = ledger db \<and> user_version db' = user_version db"
proof (induction ss arbitrary: db)
  case (Cons s ss)
  then obtain d where "run_sql q s db = Some d" "run_statements q ss d = Some db'" by (auto simp: bind_eq_Some_conv)
  then show ?case using Cons.IH [of d] Cons.prems(1) by auto
qed simp

definition entries :: "(string \<Rightarrow> string) \<Rightarrow> migration list \<Rightarrow> (int \<times> string) list" where
  "entries sha ms = map (\<lambda>m. (mg_version m, stable_checksum sha m)) ms"

lemma apply_all_books:
  assumes "keeps_books q ms" "apply_all sha q ms db = Some db'" "ledger db = Some rows"
  shows "ledger db' = Some (rows @ entries sha ms) \<and>
    user_version db' = (if ms = [] then user_version db else mg_version (last ms))"
  using assms
proof (induction ms arbitrary: db rows)
  case (Cons m ms)
  obtain d1 d2 where d: "run_statements q (mg_statements m) db = Some d1" "record_migration sha m d1 = Some d2"
      "apply_all sha q ms d2 = Some db'"
    using Cons.prems(2) by (auto simp: bind_eq_Some_conv)
  have "ledger d1 = Some rows"
    using run_statements_books [of "mg_statements m" q db d1] d(1) Cons.prems(1,3) by (auto simp: keeps_books_def)
  then have "d2 = d1\<lparr>ledger := Some (rows @ [(mg_version m, stable_checksum sha m)]), user_version := mg_version m\<rparr>"
    using d(2) by (auto simp: record_migration_def split: if_splits)
  moreover have "keeps_books q ms" using Cons.prems(1) by (auto simp: keeps_books_def)
  ultimately show ?case
    using Cons.IH [of d2 "rows @ [(mg_version m, stable_checksum sha m)]"] d(3) by (simp add: entries_def)
qed (simp add: entries_def)

definition recorded :: "(string \<Rightarrow> string) \<Rightarrow> migration list \<Rightarrow> (int \<times> string) list \<Rightarrow> int \<Rightarrow> bool" where
  "recorded sha ms rows v \<longleftrightarrow> mset rows = mset (entries sha (take (nat v) ms)) \<and> 0 \<le> v \<and> v \<le> int (length ms)"

lemma target_version:
  assumes "map mg_version ms = [1..int (length ms)]" "i < length ms"
  shows "mg_version (ms ! i) = int i + 1"
proof -
  have "mg_version (ms ! i) = [1..int (length ms)] ! i" using assms nth_map [of i ms mg_version] by simp
  also have "\<dots> = 1 + int i" using assms(2) by (intro nth_upto) simp
  finally show ?thesis by simp
qed

lemma entries_nth:
  assumes "map mg_version ms = [1..int (length ms)]" "i < length ms"
  shows "entries sha ms ! i = (int i + 1, stable_checksum sha (ms ! i))"
  using assms target_version [OF assms] by (simp add: entries_def)

lemma entries_take: "entries sha (take k ms) = take k (entries sha ms)"
  by (simp add: entries_def take_map)

lemma length_entries [simp]: "length (entries sha ms) = length ms"
  by (simp add: entries_def)

lemma entries_versions:
  assumes "map mg_version ms = [1..int (length ms)]" "0 \<le> v" "v \<le> int (length ms)"
  shows "map fst (entries sha (take (nat v) ms)) = [1..v]"
proof (rule nth_equalityI)
  show l: "length (map fst (entries sha (take (nat v) ms))) = length [1..v]" using assms(2,3) by simp
  fix i assume "i < length (map fst (entries sha (take (nat v) ms)))"
  then have i: "i < nat v" "i < length ms" using assms(3) by simp_all
  then have "[1..v] ! i = 1 + int i" by (intro nth_upto) linarith
  then show "map fst (entries sha (take (nat v) ms)) ! i = [1..v] ! i"
    using i entries_nth [OF assms(1) i(2)] by (simp add: entries_take)
qed

text \<open>An accepted ledger lists the first migrations, and a ledger that does is accepted.\<close>

lemma validate_recorded:
  assumes w: "map mg_version ms = [1..int (length ms)]" and l: "ledger db = Some rows" and v: "0 \<le> user_version db"
  shows "validate_history sha ms db = Inr (user_version db) \<longleftrightarrow> recorded sha ms rows (user_version db)"
proof
  let ?v = "user_version db" and ?rs = "sort_key fst rows"
  assume "validate_history sha ms db = Inr ?v"
  then have a: "?v \<le> int (length ms)" "map fst ?rs = [1..?v]"
    and c: "\<And>v c. (v, c) \<in> set rows \<Longrightarrow> 1 \<le> v \<and> v \<le> int (length ms) \<and> c = stable_checksum sha (ms ! nat (v - 1))"
    using l by (auto simp: validate_history_def Let_def split: if_splits)
  have "?rs = entries sha (take (nat ?v) ms)"
  proof (rule nth_equalityI)
    have "length (map fst ?rs) = nat ?v" using a(2) by simp
    then show len: "length ?rs = length (entries sha (take (nat ?v) ms))" using a(1) by simp
    fix i assume "i < length ?rs"
    then have i: "i < nat ?v" "i < length ms" using len a(1) by simp_all
    have f: "fst (?rs ! i) = int i + 1"
    proof -
      have "fst (?rs ! i) = map fst ?rs ! i" using \<open>i < length ?rs\<close> by simp
      also have "\<dots> = 1 + int i" unfolding a(2) using i(1) by (intro nth_upto) linarith
      finally show ?thesis by simp
    qed
    have "?rs ! i \<in> set rows" using \<open>i < length ?rs\<close> nth_mem [of i ?rs] by simp
    then have "snd (?rs ! i) = stable_checksum sha (ms ! nat (fst (?rs ! i) - 1))"
      using c [of "fst (?rs ! i)" "snd (?rs ! i)"] by simp
    then show "?rs ! i = entries sha (take (nat ?v) ms) ! i"
      using f i entries_nth [OF w i(2)] by (simp add: entries_take prod_eq_iff)
  qed
  then have "mset rows = mset (entries sha (take (nat ?v) ms))" by (metis mset_sort)
  then show "recorded sha ms rows ?v" using a(1) v by (simp add: recorded_def)
next
  let ?v = "user_version db" and ?rs = "sort_key fst rows"
  assume r: "recorded sha ms rows ?v"
  let ?E = "entries sha (take (nat ?v) ms)"
  have m: "mset rows = mset ?E" "?v \<le> int (length ms)" using r by (simp_all add: recorded_def)
  have f: "map fst ?E = [1..?v]" by (rule entries_versions [OF w v m(2)])
  have "distinct (map fst ?E)" unfolding f by simp
  then have "inj_on fst (set ?E)" by (simp only: distinct_map)
  then have i: "inj_on fst (set rows)" unfolding mset_eq_setD [OF m(1)] .
  have "sorted (map fst ?E)" unfolding f by simp
  then have rs: "?rs = ?E" by (rule sort_key_inj_key_eq [OF m(1) i])
  have c: "1 \<le> u \<and> u \<le> int (length ms) \<and> c = stable_checksum sha (ms ! nat (u - 1))" if uc: "(u, c) \<in> set ?E" for u c
  proof -
    obtain i where i: "i < length ?E" "?E ! i = (u, c)" using uc by (metis in_set_conv_nth)
    then have l: "i < length ms" using m(2) by simp
    have "u = int i + 1" "c = stable_checksum sha (ms ! i)"
      using i entries_nth [OF w l, of sha] by (simp_all add: entries_take)
    then show ?thesis using l by simp
  qed
  have bad: "\<not> (\<exists>(u, c)\<in>set ?rs. u < 1 \<or> int (length ms) < u \<or> c \<noteq> stable_checksum sha (ms ! nat (u - 1)))"
  proof
    assume "\<exists>(u, c)\<in>set ?rs. u < 1 \<or> int (length ms) < u \<or> c \<noteq> stable_checksum sha (ms ! nat (u - 1))"
    then obtain u d where "(u, d) \<in> set ?E" "u < 1 \<or> int (length ms) < u \<or> d \<noteq> stable_checksum sha (ms ! nat (u - 1))"
      unfolding rs by blast
    then show False using c [of u d] by linarith
  qed
  have "map fst ?rs = [1..?v]" using f rs by simp
  then show "validate_history sha ms db = Inr ?v"
    using m(2) bad l unfolding validate_history_def Let_def by simp
qed

lemma validate_version: "validate_history sha ms db = Inr v \<Longrightarrow> v = user_version db \<and> v \<le> int (length ms)"
  by (auto simp: validate_history_def Let_def split: option.splits if_splits)



subsection \<open>The dry run\<close>

definition calm :: "'c conditions \<Rightarrow> bool" where
  "calm x \<longleftrightarrow> locks x \<and> has_space x \<and> clones x \<and> dry_commits x \<and> backs_up x \<and> opens x \<and> live_commits x \<and> syncs x \<and>
     undisturbed x"

text \<open>C25. What a dry run says is what the run does: a dry run changes no file, and if it succeeds, a run on the
  same files with no fault of the machine and no other writer succeeds too, from the same version and with the
  same migrations, and keeps the old database as its newest copy when copies are retained.\<close>

theorem dry_run_predicts:
  assumes "migrate_target sha q ms True retain x fs = (fs', Inr r)" "calm y"
  shows "fs' = fs \<and> was_dry r \<and> (\<exists>fs'' r'. migrate_target sha q ms False retain y fs = (fs'', Inr r') \<and>
    from_version r' = from_version r \<and> to_version r' = to_version r \<and> applied r' = applied r \<and>
    (\<forall>db. live fs = Some db \<and> applied r \<noteq> [] \<and> 0 < retain \<longrightarrow> (\<exists>cs. copies fs'' = db # cs)))"
proof -
  let ?d = "file_or_new q (live fs)"
  have n: "other_before_backup y = id" "other_before_apply y = id" using assms(2) by (simp_all add: calm_def undisturbed_def)
  have y: "locks y" "has_space y" "clones y" "dry_commits y" "backs_up y" "opens y" "live_commits y" "syncs y"
    using assms(2) by (simp_all add: calm_def)
  obtain current vs where d: "dry_run sha q ms x (live fs) = Inr (current, vs)"
    and r: "fs' = fs" "was_dry r" "from_version r = current" "to_version r = current + int (length vs)" "applied r = vs"
    using assms(1) by (auto simp: migrate_target_def split: sum.splits prod.splits if_splits)
  obtain db where h: "validate_history sha ms ?d = Inr current" "apply_pending sha q ms current (dry_commits x) ?d = Inr (db, vs)"
      "integrity_ok q db" and i: "live fs = None \<or> integrity_ok q ?d"
    using d by (auto simp: dry_run_def split: sum.splits prod.splits if_splits)
  have p: "apply_pending sha q ms current True ?d = Inr (db, vs)"
    using h(2) by (auto simp: apply_pending_def split: list.splits option.splits if_splits)
  have dy: "dry_run sha q ms y (live fs) = Inr (current, vs)" using h p i y(3,4) by (simp add: dry_run_def)
  have ly: "apply_live sha q ms y current ?d = (db, Inr vs)" using h p y by (simp add: apply_live_def)
  show ?thesis
  proof (cases "vs = []")
    case True
    then show ?thesis using r dy y by (simp add: migrate_target_def)
  next
    case False
    let ?r = "\<lparr>from_version = current, to_version = current + int (length vs), applied = vs, was_dry = False,
      made_backup = (live fs \<noteq> None)\<rparr>"
    let ?fs = "\<lparr>live = Some db, copies = (if live fs \<noteq> None then expire_copies retain (?d # copies fs) else copies fs)\<rparr>"
    have m: "migrate_target sha q ms False retain y fs = (?fs, Inr ?r)"
      using dy ly n y False i by (auto simp: migrate_target_def Let_def)
    have "\<exists>cs. copies ?fs = b # cs" if "live fs = Some b" "0 < retain" for b
      using that by (cases "nat retain") (auto simp: expire_copies_def file_or_new_def)
    then show ?thesis using r m by (auto intro!: exI [of _ ?fs] exI [of _ ?r])
  qed
qed

subsection \<open>An engine to run\<close>

text \<open>An engine for the runs below: a statement is refused, damages the file, or is added to the contents.\<close>

definition demo_sql :: "string \<Rightarrow> string list database \<Rightarrow> string list database option" where
  "demo_sql s d = (if s = ''refused'' then None else Some (d\<lparr>contents := contents d @ [s]\<rparr>))"

definition demo_ok :: "string list database \<Rightarrow> bool" where
  "demo_ok d = list_all (\<lambda>s. s \<noteq> ''damage'') (contents d)"

definition demo_engine :: "string list engine" where
  "demo_engine = \<lparr>run_sql = demo_sql, quick_ok = demo_ok, integrity_ok = demo_ok, blank = []\<rparr>"

definition step :: "int \<Rightarrow> string \<Rightarrow> migration" where
  "step v s = \<lparr>mg_version = v, mg_name = ''n'', mg_statements = [s], mg_checksum = []\<rparr>"

definition fine :: "string list conditions" where
  "fine =
     \<lparr>locks = True, has_space = True, clones = True, dry_commits = True, other_before_backup = id, backs_up = True,
      other_before_apply = id, opens = True, live_commits = True, syncs = True, restore_fate = Restored\<rparr>"

definition row :: "int \<Rightarrow> string \<Rightarrow> int \<times> string" where
  "row v s = (v, stable_checksum id (step v s))"

definition old_database :: "string list database" where
  "old_database = \<lparr>user_version = 1, ledger = Some [row 1 ''a''], contents = [''a'']\<rparr>"

definition old_files :: "string list files" where
  "old_files = \<lparr>live = Some old_database, copies = []\<rparr>"

definition demo_migrations :: "migration list" where
  "demo_migrations = [step 1 ''a'', step 2 ''b'']"

lemma demo_keeps_books: "keeps_books demo_engine ms"
  by (auto simp: keeps_books_def demo_engine_def demo_sql_def split: if_splits)

lemma demo_target: "map mg_version demo_migrations = [1..int (length demo_migrations)]"
  by code_simp

lemma fine_calm: "calm fine" "undisturbed fine"
  by (simp_all add: calm_def undisturbed_def fine_def)

definition new_database_2 :: "string list database" where
  "new_database_2 = \<lparr>user_version = 2, ledger = Some [row 1 ''a'', row 2 ''b''], contents = [''a'', ''b'']\<rparr>"



lemma dry_succeeds:
  "migrate_target id demo_engine demo_migrations True 3 fine old_files =
     (old_files, Inr \<lparr>from_version = 1, to_version = 2, applied = [2], was_dry = True, made_backup = False\<rparr>)"
  by code_simp



theorem dry_run_predicts_witness:
  "\<exists>fs'' r'. migrate_target id demo_engine demo_migrations False 3 fine old_files = (fs'', Inr r') \<and>
     from_version r' = 1 \<and> applied r' = [2]"
  using dry_run_predicts [OF dry_succeeds fine_calm(1)] by auto

subsection \<open>Where it does not hold\<close>

text \<open>A database whose schema version was set by the other runner of the program, which keeps no ledger, is
  migrated successfully, and is refused ever after: the ledger that the migration starts lacks the earlier
  versions.\<close>

theorem adopted_database_locked_out:
  assumes "map mg_version ms = [1..int (length ms)]" "keeps_books q ms" "undisturbed x"
    and "live fs = Some db" "ledger db = None" "0 < user_version db"
    and "migrate_target sha q ms False retain x fs = (fs', Inr r)" "applied r \<noteq> []"
  shows "\<exists>e. migrate_target sha q ms dry retain' y fs' = (fs', Inl e)"
proof -
  have n: "other_before_backup x = id" "other_before_apply x = id" using assms(3) by (simp_all add: undisturbed_def)
  obtain current vs where d: "dry_run sha q ms x (live fs) = Inr (current, vs)"
    using assms(7) by (auto simp: migrate_target_def split: sum.splits prod.splits if_splits)
  have vs: "vs \<noteq> []" using assms(7,8) d by (auto simp: migrate_target_def split: if_splits)
  obtain db' res where a: "apply_live sha q ms x current db = (db', res)" by fastforce
  then obtain ws where ws: "res = Inr ws" "live fs' = Some db'"
    using assms(4,7) d vs n by (cases res) (auto simp: migrate_target_def Let_def file_or_new_def split: if_splits prod.splits)
  then have l: "validate_history sha ms db = Inr current" "apply_pending sha q ms current (live_commits x) db = Inr (db', ws)"
    using a by (auto simp: apply_live_def split: sum.splits prod.splits if_splits)
  have c: "current = user_version db" "current \<le> int (length ms)" using validate_version [OF l(1)] by simp_all
  let ?P = "drop (nat current) ms"
  have "ws \<noteq> []" using assms(7,8) d vs n a ws assms(4) by (auto simp: migrate_target_def Let_def file_or_new_def split: if_splits)
  then have ne: "?P \<noteq> []" and all: "apply_all sha q ?P (create_ledger db) = Some db'"
    using l(2) c(1) assms(6) by (auto simp: apply_pending_def slice_from_def split: list.splits option.splits if_splits)
  have kp: "keeps_books q ?P" using assms(2) by (meson in_set_dropD keeps_books_def)
  have b: "ledger db' = Some (entries sha ?P)" "user_version db' = mg_version (last ?P)"
    using apply_all_books [OF kp all, of "[]"] ne assms(5) by (simp_all add: create_ledger_def)
  have k: "nat current < length ms" using ne by simp
  have "user_version db' = int (length ms)"
    using b(2) target_version [OF assms(1), of "length ms - 1"] k by (simp add: last_conv_nth of_nat_diff)
  then have "validate_history sha ms db' = Inr (int (length ms)) \<longleftrightarrow> recorded sha ms (entries sha ?P) (int (length ms))"
    using validate_recorded [OF assms(1) b(1), of sha] by simp
  moreover have "\<not> recorded sha ms (entries sha ?P) (int (length ms))"
  proof
    assume "recorded sha ms (entries sha ?P) (int (length ms))"
    then have "size (mset (entries sha ?P)) = size (mset (entries sha ms))" by (simp add: recorded_def)
    then show False using k assms(6) c(1) by simp
  qed
  ultimately have "validate_history sha ms db' = Inl Migration_Error"
    using validate_version [of sha ms db'] \<open>user_version db' = int (length ms)\<close>
    by (cases "validate_history sha ms db'") (auto simp: validate_history_def Let_def split: option.splits if_splits)
  then show ?thesis
    using ws(2) by (simp add: migrate_target_def dry_run_def file_or_new_def)
qed

definition adopted_files :: "string list files" where
  "adopted_files = \<lparr>live = Some (old_database\<lparr>ledger := None\<rparr>), copies = []\<rparr>"

lemma adopted_files_runner:
  "live adopted_files = Some (fst (run_db_migrations demo_engine [''a''] False (new_database demo_engine)))"
  by code_simp

lemma adopted_succeeds:
  "migrate_target id demo_engine demo_migrations False 3 fine adopted_files =
     (\<lparr>live = Some (new_database_2\<lparr>ledger := Some [row 2 ''b'']\<rparr>), copies = [old_database\<lparr>ledger := None\<rparr>]\<rparr>,
      Inr \<lparr>from_version = 1, to_version = 2, applied = [2], was_dry = False, made_backup = True\<rparr>)"
  by code_simp

theorem adopted_database_locked_out_witness:
  "\<exists>e. snd (migrate_target id demo_engine demo_migrations False 3 fine
     \<lparr>live = Some (new_database_2\<lparr>ledger := Some [row 2 ''b'']\<rparr>), copies = [old_database\<lparr>ledger := None\<rparr>]\<rparr>) =
     Inl e"
  using adopted_database_locked_out [OF demo_target demo_keeps_books fine_calm(2) _ _ _ adopted_succeeds, of _ False 3 fine]
  by (auto simp: adopted_files_def old_database_def)

text \<open>Another connection migrates the database between the dry run and the application, the call notices
  that the version has changed, and its recovery puts the older backup over the other's work.\<close>

definition other_migrates :: "string list conditions" where
  "other_migrates = fine\<lparr>other_before_apply := (\<lambda>_. Some new_database_2)\<rparr>"

theorem failure_reverts_concurrent_write:
  "fst (migrate_target id demo_engine demo_migrations False 3 other_migrates old_files) =
     \<lparr>live = Some old_database, copies = [old_database]\<rparr>"
  by code_simp

text \<open>If there was no file at the dry run, the recovery deletes the database that the other made.\<close>

theorem failure_deletes_concurrent_database:
  "migrate_target id demo_engine demo_migrations False 3 other_migrates \<lparr>live = None, copies = []\<rparr> =
     (\<lparr>live = None, copies = []\<rparr>, Inl Migration_Error)"
  by code_simp

text \<open>With \<open>retain = 0\<close> the backup that the result names is deleted before the result is returned.\<close>

theorem retain_zero_deletes_backup:
  "migrate_target id demo_engine demo_migrations False 0 fine old_files =
     (\<lparr>live = Some new_database_2, copies = []\<rparr>,
      Inr \<lparr>from_version = 1, to_version = 2, applied = [2], was_dry = False, made_backup = True\<rparr>)"
  by code_simp

subsection \<open>The runner without a ledger\<close>






end
