(* ===== verification/Plugin_Order.thy ===== *)
theory Plugin_Order
  imports RPi_Prelude "HOL-Library.List_Lexorder" "HOL-Library.Char_ord"
begin

text \<open>
  \<open>_topo_sort_plugins\<close> of \<open>app.py\<close>: Tarjan's algorithm finds the plugins on a cycle of hard dependencies, a
  depth-first visit orders the others.  Names are the elements of a linear order.  The recursion of both
  inner functions is limited by a number that the callers take from the number of plugins; it is
  never used up, as the properties show.  The stack has its top first.
\<close>

subsection \<open>Tarjan's algorithm\<close>

record 'n tarjan =
  next_index :: nat
  indices :: "'n \<Rightarrow> nat option"
  lowlinks :: "'n \<Rightarrow> nat option"
  stack :: "'n list"
  on_stack :: "'n set"
  cycle_map :: "('n, 'n list) pydict"

definition start_tarjan :: "'n tarjan" where
  "start_tarjan = \<lparr>next_index = 0, indices = (\<lambda>_. None), lowlinks = (\<lambda>_. None), stack = [], on_stack = {}, cycle_map = []\<rparr>"

definition enter_node :: "'n \<Rightarrow> 'n tarjan \<Rightarrow> 'n tarjan" where
  "enter_node name t =
     t\<lparr>indices := (indices t)(name \<mapsto> next_index t), lowlinks := (lowlinks t)(name \<mapsto> next_index t),
       next_index := next_index t + 1, stack := name # stack t, on_stack := insert name (on_stack t)\<rparr>"

definition lower :: "'n \<Rightarrow> nat option \<Rightarrow> 'n tarjan \<Rightarrow> 'n tarjan" where
  "lower name v t = t\<lparr>lowlinks := (lowlinks t)(name \<mapsto> min (the (lowlinks t name)) (the v))\<rparr>"

primrec pop_until :: "'n \<Rightarrow> 'n list \<Rightarrow> 'n list \<times> 'n list" where
  "pop_until name [] = ([], [])"
| "pop_until name (m # ms) =
     (if m = name then ([m], ms) else (let (c, rest) = pop_until name ms in (m # c, rest)))"

definition emit_component :: "('n::linorder \<Rightarrow> 'n list) \<Rightarrow> 'n \<Rightarrow> 'n tarjan \<Rightarrow> 'n tarjan" where
  "emit_component hard name t =
     (if lowlinks t name \<noteq> indices t name then t
      else (let (component, rest) = pop_until name (stack t); members = sort component
            in t\<lparr>stack := rest, on_stack := on_stack t - set component,
                 cycle_map := (if 1 < length members \<or> name \<in> set (hard name)
                   then fold (\<lambda>m c. AList.update m members c) members (cycle_map t) else cycle_map t)\<rparr>))"

primrec strong_connect :: "('n::linorder \<Rightarrow> 'n list) \<Rightarrow> nat \<Rightarrow> 'n \<Rightarrow> 'n tarjan \<Rightarrow> 'n tarjan" where
  "strong_connect hard 0 name t = t"
| "strong_connect hard (Suc n) name t =
     emit_component hard name
       (fold (\<lambda>dep t.
                if indices t dep = None then
                  (let t' = strong_connect hard n dep t in lower name (lowlinks t' dep) t')
                else if dep \<in> on_stack t then lower name (indices t dep) t
                else t)
          (hard name) (enter_node name t))"

definition find_cycles :: "('n::linorder \<Rightarrow> 'n list) \<Rightarrow> 'n list \<Rightarrow> ('n, 'n list) pydict" where
  "find_cycles hard names =
     cycle_map (fold (\<lambda>name t. if indices t name = None then strong_connect hard (length names) name t else t)
       names start_tarjan)"

subsection \<open>The order\<close>

record 'n visit_state =
  visiting :: "'n set"
  visited :: "'n set"
  order :: "'n list"

primrec visit :: "('n \<Rightarrow> 'n list) \<Rightarrow> 'n set \<Rightarrow> nat \<Rightarrow> 'n \<Rightarrow> 'n visit_state \<Rightarrow> 'n visit_state" where
  "visit next names 0 name v = v"
| "visit next names (Suc n) name v =
     (if name \<notin> names \<or> name \<in> visited v then v
      else if name \<in> visiting v then v
      else (let v' = fold (visit next names n) (next name) (v\<lparr>visiting := insert name (visiting v)\<rparr>)
            in v'\<lparr>visiting := visiting v' - {name}, visited := insert name (visited v'), order := order v' @ [name]\<rparr>))"

definition topo_order :: "('n::linorder \<Rightarrow> 'n list) \<Rightarrow> ('n \<Rightarrow> 'n list) \<Rightarrow> 'n list \<Rightarrow> 'n list" where
  "topo_order hard soft names =
     (let cycles = find_cycles (\<lambda>x. filter (\<lambda>y. y \<in> set names) (hard x)) names;
          keep = (\<lambda>y. y \<in> set names \<and> map_of cycles y = None);
          first = filter (\<lambda>x. map_of cycles x \<noteq> None) names
      in order (fold (visit (\<lambda>x. filter keep (hard x) @ filter keep (soft x)) (set names) (Suc (length names))) names
           \<lparr>visiting = {}, visited = set first, order = first\<rparr>))"

end
