(* ===== verification/Plugin_Lifecycle.thy ===== *)
theory Plugin_Lifecycle
  imports RPi_Prelude "HOL-Library.Multiset"
begin

text \<open>
  \<open>plugin_base.py\<close>: the life cycle of one plugin, its internet notifications and its managed cleanups.  A
  definition is one section under the lifecycle lock or the cleanup lock.  A cleanup callback is a number;
  whether it fails is an argument.  \<open>ran\<close> records the callbacks run and \<open>hooks\<close> counts the starts of
  \<open>on_stop_requested\<close>; no guard reads them.
\<close>

datatype plugin_state = Discovered | Blocked | Starting | Ready | Stopping | Stopped | Failed | Hung

datatype plugin_health = Healthy | Degraded | Unavailable

datatype cause =
    Told string
  | Lost_Readiness string | Not_Enabled string | Not_Ready string plugin_state
  | Bad_Metadata | Bad_Dependencies
  | Cycle "string list" | Migration_Failed | Out_Of_Time
  | Start_Failed | Start_Timeout | Ready_Timeout | Stop_Failed | Stop_Timeout | Shutdown_Timeout

text \<open>What a class attribute with dependencies may hold: an entry that is no string is \<open>None\<close>.\<close>

datatype raw_deps = Not_A_Sequence | Entries "string option list"

record plugin =
  lifecycle_api :: int
  declared_name :: "string option"
  hard_raw :: raw_deps
  soft_raw :: raw_deps
  pstate :: plugin_state
  phealth :: plugin_health
  why :: "cause option"
  stop_event :: bool
  ready_event :: bool
  hung_total :: nat
  cleanup_failures :: nat
  hook_started :: bool
  hooks :: nat
  managed :: "nat list"
  cleanup_complete :: bool
  ran :: "nat list"
  internet :: bool

definition new_plugin :: "int \<Rightarrow> string option \<Rightarrow> raw_deps \<Rightarrow> raw_deps \<Rightarrow> bool \<Rightarrow> plugin" where
  "new_plugin api name hard soft online =
     \<lparr>lifecycle_api = api, declared_name = name, hard_raw = hard, soft_raw = soft, pstate = Discovered, phealth = Unavailable, why = None,
      stop_event = True, ready_event = False, hung_total = 0, cleanup_failures = 0, hook_started = False, hooks = 0,
      managed = [], cleanup_complete = False, ran = [], internet = online\<rparr>"

definition is_active :: "plugin \<Rightarrow> bool" where
  "is_active p = (\<not> stop_event p)"

definition set_active :: "bool \<Rightarrow> plugin \<Rightarrow> plugin" where
  "set_active v p =
     (if v then (if pstate p \<in> {Blocked, Failed, Hung, Stopping, Stopped} then p else p\<lparr>stop_event := False\<rparr>)
      else p\<lparr>stop_event := True\<rparr>)"

subsection \<open>Internet notifications\<close>

datatype notice = On_Available | On_Lost

definition on_internet_event :: "bool \<Rightarrow> plugin \<Rightarrow> plugin \<times> notice option" where
  "on_internet_event now p =
     (p\<lparr>internet := now\<rparr>,
      if \<not> is_active p then None
      else if now \<and> \<not> internet p then Some On_Available
      else if \<not> now \<and> internet p then Some On_Lost
      else None)"

subsection \<open>Managed cleanups\<close>

text \<open>A callback registered after the cleanup runs at once, and the caller gets an error.\<close>

definition register_cleanup :: "(nat \<Rightarrow> bool) \<Rightarrow> nat \<Rightarrow> plugin \<Rightarrow> plugin \<times> py_error option" where
  "register_cleanup fails c p =
     (if cleanup_complete p
      then (p\<lparr>ran := ran p @ [c], cleanup_failures := cleanup_failures p + (if fails c then 1 else 0)\<rparr>, Some RuntimeError)
      else (p\<lparr>managed := managed p @ [c]\<rparr>, None))"

definition cleanup_managed_resources :: "(nat \<Rightarrow> bool) \<Rightarrow> plugin \<Rightarrow> plugin" where
  "cleanup_managed_resources fails p =
     (if cleanup_complete p then p
      else p\<lparr>cleanup_complete := True, managed := [], ran := ran p @ rev (managed p),
             cleanup_failures := cleanup_failures p + length (filter fails (rev (managed p)))\<rparr>)"

subsection \<open>States\<close>

definition begin_start :: "plugin \<Rightarrow> py_error + plugin" where
  "begin_start p =
     (if pstate p = Hung \<or> pstate p \<in> {Starting, Ready, Stopping} then Inl RuntimeError
      else Inr (p\<lparr>pstate := Starting, phealth := Unavailable, why := None, ready_event := False, stop_event := True\<rparr>))"

definition reset_cleanup :: "plugin \<Rightarrow> plugin" where
  "reset_cleanup p = p\<lparr>cleanup_complete := False\<rparr>"

definition reset_hook :: "plugin \<Rightarrow> plugin" where
  "reset_hook p = p\<lparr>hook_started := False\<rparr>"

definition mark_starting :: "(nat \<Rightarrow> bool) \<Rightarrow> nat \<Rightarrow> nat \<Rightarrow> plugin \<Rightarrow> plugin \<times> py_error option" where
  "mark_starting fails online_sub offline_sub p =
     (case begin_start p of
        Inl e \<Rightarrow> (p, Some e)
      | Inr p1 \<Rightarrow>
          (case register_cleanup fails online_sub (reset_hook (reset_cleanup p1)) of
             (p2, Some e) \<Rightarrow> (p2, Some e)
           | (p2, None) \<Rightarrow> register_cleanup fails offline_sub p2))"

definition mark_ready :: "plugin \<Rightarrow> plugin" where
  "mark_ready p =
     (if pstate p = Ready then p\<lparr>phealth := Healthy, why := None\<rparr>
      else if pstate p \<noteq> Starting then p
      else (if phealth p \<noteq> Degraded then p\<lparr>phealth := Healthy, why := None\<rparr> else p)
        \<lparr>pstate := Ready, stop_event := False, ready_event := True\<rparr>)"

text \<open>Once the event is set or the time is up, the answer is the state.\<close>

definition wait_until_ready :: "plugin \<Rightarrow> bool" where
  "wait_until_ready p = (pstate p = Ready)"

definition mark_start_failed :: "cause \<Rightarrow> plugin \<Rightarrow> plugin" where
  "mark_start_failed r p =
     (if pstate p \<notin> {Starting, Failed, Stopping} then p
      else p\<lparr>pstate := Failed, phealth := Unavailable, why := Some r, stop_event := True, ready_event := True\<rparr>)"

definition mark_blocked :: "cause \<Rightarrow> plugin \<Rightarrow> plugin" where
  "mark_blocked r p =
     (if pstate p \<notin> {Discovered, Blocked} then p
      else p\<lparr>pstate := Blocked, phealth := Unavailable, why := Some r, stop_event := True, ready_event := True\<rparr>)"

definition mark_degraded :: "cause \<Rightarrow> plugin \<Rightarrow> plugin" where
  "mark_degraded r p =
     (if pstate p \<in> {Blocked, Failed, Hung, Stopping, Stopped} then p
      else p\<lparr>phealth := Degraded, why := Some r\<rparr>)"

text \<open>The second result of the next operations: the plugin was ready before, so its dependents are notified.\<close>

definition mark_hung :: "cause \<Rightarrow> plugin \<Rightarrow> plugin \<times> bool" where
  "mark_hung r p =
     (p\<lparr>hung_total := (if pstate p \<noteq> Hung then hung_total p + 1 else hung_total p), pstate := Hung,
        phealth := Unavailable, why := Some r, stop_event := True, ready_event := True\<rparr>, pstate p = Ready)"

definition stop_section :: "plugin \<Rightarrow> plugin" where
  "stop_section p =
     (if pstate p \<notin> {Failed, Hung} then p\<lparr>pstate := Stopping, phealth := Unavailable\<rparr> else p)
       \<lparr>stop_event := True, ready_event := True\<rparr>"

definition start_hook :: "plugin \<Rightarrow> plugin" where
  "start_hook p = (if hook_started p then p else p\<lparr>hook_started := True, hooks := hooks p + 1\<rparr>)"

definition request_stop :: "plugin \<Rightarrow> plugin \<times> bool" where
  "request_stop p = (start_hook (stop_section p), pstate p = Ready)"

definition mark_stopped :: "plugin \<Rightarrow> plugin \<times> bool" where
  "mark_stopped p =
     ((if pstate p \<notin> {Failed, Hung} then p\<lparr>pstate := Stopped, phealth := Unavailable, why := None\<rparr> else p)
        \<lparr>stop_event := True, ready_event := True\<rparr>, pstate p = Ready)"

definition mark_dependency_blocked :: "cause \<Rightarrow> plugin \<Rightarrow> plugin \<times> bool" where
  "mark_dependency_blocked r p =
     (if pstate p \<in> {Failed, Hung} then (p, False)
      else if pstate p = Blocked \<and> why p = Some r then (p, False)
      else (p\<lparr>pstate := Blocked, phealth := Unavailable, why := Some r, stop_event := True, ready_event := True\<rparr>, True))"

subsection \<open>Any interleaving\<close>

text \<open>What any thread may do to a plugin, one locked section at a time.\<close>

datatype section_call =
    Set_Active bool | Internet bool | Register nat | Run_Cleanup | Begin_Start | Reset_Cleanup | Reset_Hook
  | Ready_Call | Start_Failed_Call cause | Blocked_Call cause | Degraded_Call cause | Hung_Call cause
  | Stop_Section | Start_Hook | Stopped_Call | Dependency_Blocked cause

primrec call_section :: "(nat \<Rightarrow> bool) \<Rightarrow> section_call \<Rightarrow> plugin \<Rightarrow> plugin" where
  "call_section f (Set_Active v) p = set_active v p"
| "call_section f (Internet v) p = fst (on_internet_event v p)"
| "call_section f (Register c) p = fst (register_cleanup f c p)"
| "call_section f Run_Cleanup p = cleanup_managed_resources f p"
| "call_section f Begin_Start p = (case begin_start p of Inl _ \<Rightarrow> p | Inr q \<Rightarrow> q)"
| "call_section f Reset_Cleanup p = reset_cleanup p"
| "call_section f Reset_Hook p = reset_hook p"
| "call_section f Ready_Call p = mark_ready p"
| "call_section f (Start_Failed_Call r) p = mark_start_failed r p"
| "call_section f (Blocked_Call r) p = mark_blocked r p"
| "call_section f (Degraded_Call r) p = mark_degraded r p"
| "call_section f (Hung_Call r) p = fst (mark_hung r p)"
| "call_section f Stop_Section p = stop_section p"
| "call_section f Start_Hook p = start_hook p"
| "call_section f Stopped_Call p = fst (mark_stopped p)"
| "call_section f (Dependency_Blocked r) p = fst (mark_dependency_blocked r p)"

lemmas section_defs = set_active_def on_internet_event_def register_cleanup_def cleanup_managed_resources_def begin_start_def
  reset_cleanup_def reset_hook_def mark_ready_def mark_start_failed_def mark_blocked_def mark_degraded_def mark_hung_def
  stop_section_def start_hook_def mark_stopped_def mark_dependency_blocked_def

definition run_sections :: "(nat \<Rightarrow> bool) \<Rightarrow> section_call list \<Rightarrow> plugin \<Rightarrow> plugin" where
  "run_sections f cs p = fold (call_section f) cs p"

text \<open>The states, the two events and the health belong together: the ready event is set exactly when the
  start is decided, a plugin that has left the way to readiness stays inactive and unavailable, and only a ready
  one is healthy.\<close>

definition coherent :: "plugin \<Rightarrow> bool" where
  "coherent p \<longleftrightarrow> (ready_event p \<longleftrightarrow> pstate p \<notin> {Discovered, Starting}) \<and>
     (pstate p \<notin> {Discovered, Starting, Ready} \<longrightarrow> stop_event p \<and> phealth p = Unavailable) \<and>
     (phealth p = Healthy \<longrightarrow> pstate p = Ready)"

lemma coherent_section: "coherent p \<Longrightarrow> coherent (call_section f c p)"
  by (cases c; cases "pstate p"; simp add: coherent_def section_defs)

lemma coherent_run: "coherent p \<Longrightarrow> coherent (run_sections f cs p)"
  unfolding run_sections_def by (induction cs arbitrary: p) (simp_all add: coherent_section)

text \<open>Whatever the threads do to a plugin from its construction on, in any interleaving, its state stays
  coherent.  In particular a caller that waits for readiness is woken as soon as the start is decided, by success
  or by any failure, and not before.\<close>

theorem lifecycle_coherent:
  "coherent (run_sections f cs (new_plugin api name hard soft online))"
  by (rule coherent_run) (simp add: coherent_def new_plugin_def)

text \<open>C22. Hung is final: no later call, not even the return of the start that was given up, makes the plugin active,
  ready or restartable again.\<close>

theorem hung_is_final:
  assumes "coherent p" "pstate p = Hung"
  shows "pstate (run_sections f cs p) = Hung \<and> \<not> is_active (run_sections f cs p) \<and>
    phealth (run_sections f cs p) = Unavailable \<and>
    snd (mark_starting f i j (run_sections f cs p)) = Some RuntimeError"
proof -
  have "pstate (call_section f c p) = Hung" if "pstate p = Hung" for c and p
    using that by (cases c) (auto simp: section_defs)
  then have "pstate (run_sections f cs p) = Hung"
    using assms(2) unfolding run_sections_def by (induction cs arbitrary: p) simp_all
  moreover have "coherent (run_sections f cs p)" by (rule coherent_run [OF assms(1)])
  ultimately show ?thesis by (simp add: coherent_def is_active_def mark_starting_def begin_start_def)
qed

theorem hung_is_final_witness:
  "pstate (run_sections (\<lambda>_. False) [Ready_Call, Set_Active True, Stopped_Call]
     (fst (mark_hung Start_Timeout (new_plugin 2 None (Entries []) (Entries []) True)))) = Hung"
proof -
  have "coherent (fst (mark_hung Start_Timeout (new_plugin 2 None (Entries []) (Entries []) True)))"
    "pstate (fst (mark_hung Start_Timeout (new_plugin 2 None (Entries []) (Entries []) True))) = Hung"
    by (simp_all add: coherent_def mark_hung_def new_plugin_def)
  then show ?thesis using hung_is_final by blast
qed

subsection \<open>Cleanups and the stop hook\<close>

definition registered :: "section_call list \<Rightarrow> nat list" where
  "registered cs = concat (map (\<lambda>c. case c of Register i \<Rightarrow> [i] | _ \<Rightarrow> []) cs)"

definition cleanups_ok :: "(nat \<Rightarrow> bool) \<Rightarrow> plugin \<Rightarrow> nat list \<Rightarrow> bool" where
  "cleanups_ok f p is \<longleftrightarrow> mset (ran p @ managed p) = mset is \<and> (cleanup_complete p \<longrightarrow> managed p = []) \<and>
     cleanup_failures p = length (filter f (ran p))"

lemma cleanups_section:
  "cleanups_ok f p is \<Longrightarrow> cleanups_ok f (call_section f c p) (is @ (case c of Register i \<Rightarrow> [i] | _ \<Rightarrow> []))"
  by (cases c) (auto simp: cleanups_ok_def section_defs)

lemma cleanups_run: "cleanups_ok f p is \<Longrightarrow> cleanups_ok f (run_sections f cs p) (is @ registered cs)"
  unfolding run_sections_def registered_def
proof (induction cs arbitrary: p "is")
  case (Cons c cs)
  from Cons.IH [OF cleanups_section [OF Cons.prems, of c]] show ?case by simp
qed simp

text \<open>Every resource is cleaned up exactly once.  In any interleaving of registrations, cleanups, failures and
  restarts, each registered callback has either run once or is still waiting, none waits once a cleanup is
  complete, so that what a late start acquires is given back at once, and the failures are counted exactly.\<close>

theorem cleaned_up_once:
  "let p = run_sections f cs (new_plugin api name hard soft online)
   in mset (ran p) + mset (managed p) = mset (registered cs) \<and> (cleanup_complete p \<longrightarrow> managed p = []) \<and>
      cleanup_failures p = length (filter f (ran p))"
proof -
  have "cleanups_ok f (new_plugin api name hard soft online) []" by (simp add: cleanups_ok_def new_plugin_def)
  from cleanups_run [OF this, of cs] show ?thesis by (simp add: cleanups_ok_def Let_def)
qed

theorem cleaned_up_once_witness:
  "managed (run_sections (\<lambda>i. i = 2) [Register 1, Register 2, Run_Cleanup, Register 3] (new_plugin 1 None (Entries []) (Entries []) True)) = [] \<and>
   ran (run_sections (\<lambda>i. i = 2) [Register 1, Register 2, Run_Cleanup, Register 3] (new_plugin 1 None (Entries []) (Entries []) True)) = [2, 1, 3]"
proof -
  let ?p = "run_sections (\<lambda>i. i = 2) [Register 1, Register 2, Run_Cleanup, Register 3] (new_plugin 1 None (Entries []) (Entries []) True)"
  have "cleanup_complete ?p" "ran ?p = [2, 1, 3]" by code_simp+
  then show ?thesis
    using cleaned_up_once [of "\<lambda>i. i = 2" "[Register 1, Register 2, Run_Cleanup, Register 3]" 1 None "Entries []" "Entries []" True]
    by (simp add: Let_def)
qed

text \<open>The stop hook runs at most once per start.\<close>

theorem stop_hook_once:
  "hooks (run_sections f cs (new_plugin api name hard soft online)) \<le> length (filter (\<lambda>c. c = Reset_Hook) cs) + 1"
proof -
  define due where "due p = hooks p + (if hook_started p then 0 else 1)" for p :: plugin
  have one: "due (call_section f c p) \<le> due p + (if c = Reset_Hook then 1 else 0)" for c p
    by (cases c; cases "pstate p"; simp add: section_defs due_def)
  have "due (run_sections f cs p) \<le> due p + length (filter (\<lambda>c. c = Reset_Hook) cs)" for p
    unfolding run_sections_def
  proof (induction cs arbitrary: p)
    case (Cons c cs)
    show ?case using one [of c p] Cons.IH [of "call_section f c p"] by (cases "c = Reset_Hook") simp_all
  qed simp
  from this [of "new_plugin api name hard soft online"]
  have "due (run_sections f cs (new_plugin api name hard soft online)) \<le> length (filter (\<lambda>c. c = Reset_Hook) cs) + 1"
    by (simp add: due_def new_plugin_def)
  then show ?thesis by (simp add: due_def split: if_splits)
qed

end
