(* ===== verification/Plugin_Registry.thy ===== *)
theory Plugin_Registry
  imports Plugin_Order Plugin_Lifecycle
begin

text \<open>
  The registry of plugins of \<open>app.py\<close>: dependencies, the order of starting, starting and stopping with deadlines,
  propagation of lost readiness, \<open>enable_plugin\<close>, \<open>disable_plugin\<close> and \<open>shutdown\<close>.  What a plugin's own code does
  inside \<open>start\<close> and \<open>stop\<close>, what happens to other plugins meanwhile, and whether a deadline is met are inputs.
\<close>

subsection \<open>Dependencies\<close>

definition name_head :: "char \<Rightarrow> bool" where
  "name_head c = (let n = (of_char c :: nat) in 48 \<le> n \<and> n \<le> 57 \<or> 65 \<le> n \<and> n \<le> 90 \<or> 97 \<le> n \<and> n \<le> 122)"

definition valid_name :: "string \<Rightarrow> bool" where
  "valid_name s =
     (case s of
        [] \<Rightarrow> False
      | c # cs \<Rightarrow> name_head c \<and> length cs \<le> 127 \<and> (\<forall>x\<in>set cs. name_head x \<or> x = CHR ''_'' \<or> x = CHR ''.'' \<or> x = CHR ''-''))"

primrec collect_names :: "string option list \<Rightarrow> string list \<Rightarrow> string list option" where
  "collect_names [] names = Some names"
| "collect_names (e # es) names =
     (case e of
        None \<Rightarrow> None
      | Some d \<Rightarrow>
          if \<not> valid_name d then None
          else collect_names es (if d \<in> set names then names else names @ [d]))"

text \<open>\<open>_dependency_names\<close>; \<open>None\<close> is the \<open>ValueError\<close>.\<close>

definition dependency_names :: "raw_deps \<Rightarrow> string list option" where
  "dependency_names raw = (case raw of Not_A_Sequence \<Rightarrow> None | Entries es \<Rightarrow> collect_names es [])"

abbreviation hard_names :: "plugin \<Rightarrow> string list option" where
  "hard_names p \<equiv> dependency_names (hard_raw p)"

definition metadata_problem :: "string \<Rightarrow> plugin \<Rightarrow> cause option" where
  "metadata_problem name p =
     (case declared_name p of
        None \<Rightarrow> Some Bad_Metadata
      | Some n \<Rightarrow>
          if \<not> valid_name n \<or> n \<noteq> name then Some Bad_Metadata
          else if hard_names p = None \<or> dependency_names (soft_raw p) = None then Some Bad_Dependencies
          else None)"

primrec first_problem :: "(string, plugin) pydict \<Rightarrow> string list \<Rightarrow> cause option" where
  "first_problem ps [] = None"
| "first_problem ps (d # ds) =
     (case map_of ps d of
        None \<Rightarrow> Some (Not_Enabled d)
      | Some q \<Rightarrow> if pstate q \<noteq> Ready then Some (Not_Ready d (pstate q)) else first_problem ps ds)"

definition hard_dependency_problem :: "(string, plugin) pydict \<Rightarrow> plugin \<Rightarrow> cause option" where
  "hard_dependency_problem ps p =
     (case hard_names p of None \<Rightarrow> Some Bad_Dependencies | Some ds \<Rightarrow> first_problem ps ds)"

subsection \<open>Lost readiness\<close>

text \<open>One step of the inner loop of \<open>_on_plugin_ready_lost\<close>: the plugins, the unavailable names, the blocked
  ones in order, and whether the round changed something.\<close>

type_synonym loss_state = "(string, plugin) pydict \<times> string set \<times> string list \<times> bool"

definition lost_visit :: "string \<Rightarrow> loss_state \<Rightarrow> loss_state" where
  "lost_visit name s =
     (case s of (ps, unavailable, blocked, changed) \<Rightarrow>
        (case map_of ps name of
           None \<Rightarrow> s
         | Some p \<Rightarrow>
             if name \<in> unavailable \<or> pstate p \<noteq> Ready then s
             else (case hard_names p of
                     None \<Rightarrow> s
                   | Some ds \<Rightarrow>
                       (case find (\<lambda>d. d \<in> unavailable) ds of
                          None \<Rightarrow> s
                        | Some lost \<Rightarrow>
                            (case mark_dependency_blocked (Lost_Readiness lost) p of
                               (p', False) \<Rightarrow> s
                             | (p', True) \<Rightarrow> (AList.update name p' ps, insert name unavailable, blocked @ [name], True))))))"

definition lost_round :: "(string, plugin) pydict \<Rightarrow> string set \<Rightarrow> string list \<Rightarrow> loss_state" where
  "lost_round ps unavailable blocked = fold lost_visit (map fst ps) (ps, unavailable, blocked, False)"

definition ready_count :: "(string, plugin) pydict \<Rightarrow> nat" where
  "ready_count ps = length (filter (\<lambda>x. pstate (snd x) = Ready) ps)"

lemma ready_count_update:
  assumes "map_of ps n = Some p" "pstate p = Ready" "pstate p' \<noteq> Ready"
  shows "ready_count (AList.update n p' ps) < ready_count ps"
  using assms by (induction ps) (auto simp: ready_count_def split: if_splits)

lemma lost_visit_count:
  "lost_visit n (ps, un, bl, ch) = (ps', un', bl', ch') \<Longrightarrow>
   (ps', un', bl', ch') = (ps, un, bl, ch) \<or> ch' \<and> ready_count ps' < ready_count ps"
  by (auto simp: lost_visit_def mark_dependency_blocked_def split: option.splits if_splits prod.splits bool.splits
      intro: ready_count_update)

lemma lost_fold_count:
  "fold lost_visit ns (ps, un, bl, ch) = (ps', un', bl', ch') \<Longrightarrow>
   ready_count ps' \<le> ready_count ps \<and> (ch' \<longrightarrow> ch \<or> ready_count ps' < ready_count ps)"
proof (induction ns arbitrary: ps un bl ch)
  case (Cons n ns)
  obtain ps1 un1 bl1 ch1 where 1: "lost_visit n (ps, un, bl, ch) = (ps1, un1, bl1, ch1)" by (meson prod_cases4)
  then have "fold lost_visit ns (ps1, un1, bl1, ch1) = (ps', un', bl', ch')" using Cons.prems by simp
  from Cons.IH [OF this] lost_visit_count [OF 1] show ?case by auto
qed simp

function lost_loop :: "(string, plugin) pydict \<Rightarrow> string set \<Rightarrow> string list \<Rightarrow> (string, plugin) pydict \<times> string set \<times> string list" where
  "lost_loop ps unavailable blocked =
     (case lost_round ps unavailable blocked of
        (ps', unavailable', blocked', changed) \<Rightarrow>
          if changed then lost_loop ps' unavailable' blocked' else (ps', unavailable', blocked'))"
  by pat_completeness auto
termination
  by (relation "measure (\<lambda>(ps, un, bl). ready_count ps)") (auto simp: lost_round_def dest: lost_fold_count [OF sym])

declare lost_loop.simps [simp del]

subsection \<open>The application\<close>

datatype app_event = Plugin_Starting | Plugin_Started | Plugin_Crashed | Plugin_Blocked | Plugin_Stopping | Plugin_Stopped

text \<open>\<open>incoming\<close> is the instance that \<open>enable_plugin\<close> starts before it enters the registry.\<close>

record app =
  plugins :: "(string, plugin) pydict"
  incoming :: "(string \<times> plugin) option"
  history :: "(string, plugin_state \<times> cause option) pydict"
  failed_plugins :: "(string \<times> cause) list"
  dependency_cycles :: "(string, string list) pydict"
  shutting_down :: bool
  published :: "(app_event \<times> string) list"

definition instance_of :: "string \<Rightarrow> app \<Rightarrow> plugin option" where
  "instance_of name a =
     (case incoming a of
        Some (n, p) \<Rightarrow> if n = name then Some p else map_of (plugins a) name
      | None \<Rightarrow> map_of (plugins a) name)"

lemma incoming_name [simp]: "(map_option fst x = Some n) = (\<exists>q. x = Some (n, q))"
  by auto

definition put_instance :: "string \<Rightarrow> plugin \<Rightarrow> app \<Rightarrow> app" where
  "put_instance name p a =
     (if map_option fst (incoming a) = Some name then a\<lparr>incoming := Some (name, p)\<rparr>
      else if map_of (plugins a) name = None then a
      else a\<lparr>plugins := AList.update name p (plugins a)\<rparr>)"

definition on_instance :: "string \<Rightarrow> (plugin \<Rightarrow> plugin) \<Rightarrow> app \<Rightarrow> app" where
  "on_instance name f a = (case instance_of name a of None \<Rightarrow> a | Some p \<Rightarrow> put_instance name (f p) a)"

definition publish_event :: "app_event \<Rightarrow> string \<Rightarrow> app \<Rightarrow> app" where
  "publish_event e name a = a\<lparr>published := published a @ [(e, name)]\<rparr>"

definition record_state :: "string \<Rightarrow> app \<Rightarrow> app" where
  "record_state name a =
     (case instance_of name a of
        None \<Rightarrow> a
      | Some p \<Rightarrow> a\<lparr>history := AList.update name (pstate p, why p) (history a)\<rparr>)"

definition fail_plugin :: "string \<Rightarrow> cause \<Rightarrow> app \<Rightarrow> app" where
  "fail_plugin name r a = a\<lparr>failed_plugins := failed_plugins a @ [(name, r)]\<rparr>"

definition get_ready_plugin :: "string \<Rightarrow> app \<Rightarrow> plugin option" where
  "get_ready_plugin name a =
     (case map_of (plugins a) name of None \<Rightarrow> None | Some p \<Rightarrow> if pstate p = Ready then Some p else None)"

definition get_plugin_state :: "string \<Rightarrow> app \<Rightarrow> plugin_state option" where
  "get_plugin_state name a =
     (case map_of (plugins a) name of
        Some p \<Rightarrow> Some (pstate p)
      | None \<Rightarrow> map_option fst (map_of (history a) name))"

text \<open>\<open>_on_plugin_ready_lost\<close>.  The threads that it starts for the blocked plugins are sections of the life
  cycle and do not make anything ready.\<close>

definition on_ready_lost :: "string \<Rightarrow> app \<Rightarrow> app" where
  "on_ready_lost provider a =
     (if shutting_down a \<or> map_option fst (incoming a) = Some provider \<or> map_of (plugins a) provider = None then a
      else (case lost_loop (plugins a) {provider} [] of
              (ps, _, blocked) \<Rightarrow>
                fold (\<lambda>n a. publish_event Plugin_Blocked n (record_state n a)) blocked (a\<lparr>plugins := ps\<rparr>)))"

text \<open>An operation of the life cycle with the notification \<open>_notify_ready_lost\<close>.\<close>

definition lose :: "(plugin \<Rightarrow> plugin \<times> bool) \<Rightarrow> string \<Rightarrow> app \<Rightarrow> app" where
  "lose op name a =
     (case instance_of name a of
        None \<Rightarrow> a
      | Some p \<Rightarrow>
          (case op p of (p', was_ready) \<Rightarrow>
             if was_ready then on_ready_lost name (put_instance name p' a) else put_instance name p' a))"

subsection \<open>Starting and stopping one plugin\<close>

datatype self_call = Self_Ready | Self_Failed cause | Self_Degraded cause | Self_Active bool | Self_Register nat

primrec self_section :: "(nat \<Rightarrow> bool) \<Rightarrow> self_call \<Rightarrow> plugin \<Rightarrow> plugin" where
  "self_section f Self_Ready p = mark_ready p"
| "self_section f (Self_Failed r) p = mark_start_failed r p"
| "self_section f (Self_Degraded r) p = mark_degraded r p"
| "self_section f (Self_Active v) p = set_active v p"
| "self_section f (Self_Register c) p = fst (register_cleanup f c p)"

text \<open>What happens while a plugin starts: its own calls, and another plugin that stops being ready.\<close>

datatype happening = Itself self_call | Other_Hung string | Other_Stops string

primrec happen :: "(nat \<Rightarrow> bool) \<Rightarrow> string \<Rightarrow> happening \<Rightarrow> app \<Rightarrow> app" where
  "happen f name (Itself c) a = on_instance name (self_section f c) a"
| "happen f name (Other_Hung n) a = (if n = name then a else lose (mark_hung (Told [])) n a)"
| "happen f name (Other_Stops n) a = (if n = name then a else lose request_stop n a)"

datatype call_outcome = Returns | Raises | Hangs

record start_input =
  cleanup_fails :: "nat \<Rightarrow> bool"
  migrates :: bool
  in_time :: bool
  during_start :: "happening list"
  start_outcome :: call_outcome
  until_ready :: "happening list"
  stop_outcome :: call_outcome

definition give_up :: "(nat \<Rightarrow> bool) \<Rightarrow> cause \<Rightarrow> string \<Rightarrow> app \<Rightarrow> app" where
  "give_up f r name a =
     on_instance name (cleanup_managed_resources f)
       (record_state name (lose (mark_hung r) name (lose request_stop name a)))"

definition start_plugin_with_timeout :: "string \<Rightarrow> start_input \<Rightarrow> app \<Rightarrow> app \<times> cause option" where
  "start_plugin_with_timeout name i a =
     (case instance_of name a of
        None \<Rightarrow> (a, Some Start_Failed)
      | Some p \<Rightarrow>
          (case mark_starting (cleanup_fails i) 0 1 p of
             (p1, Some _) \<Rightarrow> (put_instance name p1 a, Some Start_Failed)
           | (p1, None) \<Rightarrow>
               (let a1 = publish_event Plugin_Starting name (record_state name (put_instance name p1 a));
                    a2 = fold (happen (cleanup_fails i) name) (during_start i) a1
                in case start_outcome i of
                     Hangs \<Rightarrow> (give_up (cleanup_fails i) Start_Timeout name a2, Some Start_Timeout)
                   | Raises \<Rightarrow> (record_state name (on_instance name (mark_start_failed Start_Failed) a2), Some Start_Failed)
                   | Returns \<Rightarrow>
                       if 2 \<le> lifecycle_api p then
                         (let a3 = fold (happen (cleanup_fails i) name) (until_ready i) a2
                          in case map_option pstate (instance_of name a3) of
                               Some Ready \<Rightarrow> (a3, None)
                             | Some Failed \<Rightarrow> (a3, Some Start_Failed)
                             | _ \<Rightarrow> (give_up (cleanup_fails i) Ready_Timeout name a3, Some Ready_Timeout))
                       else (on_instance name mark_ready a2, None))))"

definition stop_plugin_with_timeout :: "(nat \<Rightarrow> bool) \<Rightarrow> call_outcome \<Rightarrow> bool \<Rightarrow> string \<Rightarrow> app \<Rightarrow> app \<times> bool" where
  "stop_plugin_with_timeout f o_stop announce name a =
     (let a1 = on_instance name (cleanup_managed_resources f) (lose request_stop name a)
      in case o_stop of
           Hangs \<Rightarrow> (record_state name (lose (mark_hung Stop_Timeout) name a1), False)
         | Raises \<Rightarrow> (record_state name (on_instance name (mark_start_failed Stop_Failed) a1), False)
         | Returns \<Rightarrow>
             (let a2 = record_state name (lose mark_stopped name a1)
              in (if announce then publish_event Plugin_Stopped name a2 else a2, True)))"

subsection \<open>Startup\<close>

definition block_plugin :: "string \<Rightarrow> cause \<Rightarrow> app \<Rightarrow> app" where
  "block_plugin name r a = record_state name (on_instance name (mark_blocked r) a)"

definition block_invalid_metadata :: "app \<Rightarrow> app" where
  "block_invalid_metadata a =
     fold (\<lambda>(name, p) a.
             (case metadata_problem name p of
                None \<Rightarrow> a
              | Some r \<Rightarrow> publish_event Plugin_Blocked name (fail_plugin name r (block_plugin name r a))))
       (plugins a) a"

text \<open>The dependencies that \<open>_topo_sort_plugins\<close> reads; \<open>None\<close> is the \<open>ValueError\<close>.\<close>

definition order_deps :: "(plugin \<Rightarrow> raw_deps) \<Rightarrow> (string, plugin) pydict \<Rightarrow> string \<Rightarrow> string list option" where
  "order_deps raw ps name =
     (case map_of ps name of
        None \<Rightarrow> Some []
      | Some p \<Rightarrow> if pstate p \<noteq> Blocked then dependency_names (raw p) else Some [])"

definition topo_sort_plugins :: "app \<Rightarrow> (app \<times> string list) option" where
  "topo_sort_plugins a =
     (let names = map fst (plugins a);
          hard = (\<lambda>n. the (order_deps hard_raw (plugins a) n));
          soft = (\<lambda>n. the (order_deps soft_raw (plugins a) n))
      in if \<exists>n\<in>set names. order_deps hard_raw (plugins a) n = None \<or> order_deps soft_raw (plugins a) n = None then None
         else Some (a\<lparr>dependency_cycles := find_cycles (\<lambda>x. filter (\<lambda>y. y \<in> set names) (hard x)) names\<rparr>,
                    topo_order hard soft names))"

definition block_dependency_cycles :: "app \<Rightarrow> app" where
  "block_dependency_cycles a =
     fold (\<lambda>(name, members) a.
             if map_of (plugins a) name = None then a
             else publish_event Plugin_Blocked name (fail_plugin name (Cycle members) (block_plugin name (Cycle members) a)))
       (dependency_cycles a) a"

definition start_one :: "(string \<Rightarrow> start_input) \<Rightarrow> string \<Rightarrow> app \<Rightarrow> app" where
  "start_one inputs name a =
     (case map_of (plugins a) name of
        None \<Rightarrow> a
      | Some p \<Rightarrow>
          let i = inputs name;
              refuse = (\<lambda>r a. publish_event Plugin_Blocked name (fail_plugin name r (block_plugin name r a)));
              clean = on_instance name (cleanup_managed_resources (cleanup_fails i))
          in if pstate p = Blocked then a
             else (case hard_dependency_problem (plugins a) p of
                     Some r \<Rightarrow> refuse r a
                   | None \<Rightarrow>
                       if \<not> migrates i then refuse Migration_Failed (clean a)
                       else if \<not> in_time i then refuse Out_Of_Time (clean a)
                       else (case start_plugin_with_timeout name i a of
                               (a1, None) \<Rightarrow> publish_event Plugin_Started name (record_state name a1)
                             | (a1, Some r) \<Rightarrow>
                                 (let a2 = publish_event Plugin_Crashed name (fail_plugin name r a1)
                                  in if map_option pstate (instance_of name a2) = Some Hung then record_state name a2
                                     else (let a3 = fst (stop_plugin_with_timeout (cleanup_fails i) (stop_outcome i) False name a2);
                                               a4 = record_state name (on_instance name (mark_start_failed r) a3)
                                           in if map_option pstate (instance_of name a4) = Some Hung then a4
                                              else a4\<lparr>plugins := AList.delete name (plugins a4)\<rparr>)))))"

definition reorder :: "string list \<Rightarrow> app \<Rightarrow> app" where
  "reorder ord a =
     a\<lparr>plugins := concat (map (\<lambda>n. case map_of (plugins a) n of None \<Rightarrow> [] | Some p \<Rightarrow> [(n, p)]) ord)\<rparr>"

definition fresh_app :: "(string, plugin) pydict \<Rightarrow> (string \<times> cause) list \<Rightarrow> app" where
  "fresh_app ps failed =
     \<lparr>plugins = ps, incoming = None, history = [], failed_plugins = failed, dependency_cycles = [], shutting_down = False,
      published = []\<rparr>"

definition startup :: "(string \<Rightarrow> start_input) \<Rightarrow> app \<Rightarrow> app option" where
  "startup inputs a =
     (case topo_sort_plugins (block_invalid_metadata a) of
        None \<Rightarrow> None
      | Some (a1, ord) \<Rightarrow> Some (reorder ord (fold (start_one inputs) ord (block_dependency_cycles a1))))"

definition required_failures :: "string list \<Rightarrow> app \<Rightarrow> (string \<times> plugin_state option) list" where
  "required_failures req a =
     filter (\<lambda>x. snd x \<noteq> Some Ready) (map (\<lambda>n. (n, get_plugin_state n a)) req)"

subsection \<open>Hot transitions\<close>

datatype candidate = Not_Found | Constructor_Raises | Candidate plugin

definition register :: "string \<Rightarrow> app \<Rightarrow> app" where
  "register name a =
     (case incoming a of
        Some (n, p) \<Rightarrow> if n = name then a\<lparr>plugins := AList.update name p (plugins a), incoming := None\<rparr> else a
      | None \<Rightarrow> a)"

definition drop_incoming :: "app \<Rightarrow> app" where
  "drop_incoming a = a\<lparr>incoming := None\<rparr>"

definition enable_plugin :: "string \<Rightarrow> candidate \<Rightarrow> start_input \<Rightarrow> app \<Rightarrow> app \<times> py_error option" where
  "enable_plugin name c i a =
     (if shutting_down a \<or> map_of (plugins a) name \<noteq> None then (a, Some RuntimeError)
      else case c of
             Not_Found \<Rightarrow> (a, Some KeyError)
           | Constructor_Raises \<Rightarrow> (a, Some RuntimeError)
           | Candidate p \<Rightarrow>
               (let a0 = a\<lparr>incoming := Some (name, p)\<rparr>;
                    refuse = (\<lambda>r a. publish_event Plugin_Blocked name (block_plugin name r a));
                    clean = on_instance name (cleanup_managed_resources (cleanup_fails i))
                in case metadata_problem name p of
                     Some r \<Rightarrow> (register name (clean (refuse r a0)), Some RuntimeError)
                   | None \<Rightarrow>
                       (case hard_dependency_problem (plugins a) p of
                          Some r \<Rightarrow> (drop_incoming (refuse r a0), Some RuntimeError)
                        | None \<Rightarrow>
                            if \<not> migrates i then (register name (clean (refuse Migration_Failed a0)), Some RuntimeError)
                            else (case start_plugin_with_timeout name i a0 of
                                    (a1, None) \<Rightarrow> (publish_event Plugin_Started name (record_state name (register name a1)), None)
                                  | (a1, Some r) \<Rightarrow>
                                      (let a2 = publish_event Plugin_Crashed name a1
                                       in if map_option pstate (instance_of name a2) = Some Hung then
                                            (register name a2, Some RuntimeError)
                                          else (case stop_plugin_with_timeout (cleanup_fails i) (stop_outcome i) False name a2 of
                                                  (a3, stopped) \<Rightarrow>
                                                    if \<not> stopped \<or> map_option pstate (instance_of name a3) = Some Hung
                                                    then (register name a3, Some RuntimeError)
                                                    else (drop_incoming a3, Some RuntimeError)))))))"

definition depends_on :: "string \<Rightarrow> plugin \<Rightarrow> bool" where
  "depends_on name p = (case hard_names p of None \<Rightarrow> False | Some ds \<Rightarrow> name \<in> set ds)"

text \<open>A dependent whose names are malformed makes the check itself raise.\<close>

definition disable_plugin :: "string \<Rightarrow> (nat \<Rightarrow> bool) \<Rightarrow> call_outcome \<Rightarrow> app \<Rightarrow> app \<times> py_error option" where
  "disable_plugin name f o_stop a =
     (if shutting_down a then (a, Some RuntimeError)
      else case map_of (plugins a) name of
             None \<Rightarrow> (a, Some KeyError)
           | Some p \<Rightarrow>
               if pstate p = Hung then (a, Some RuntimeError)
               else if \<exists>(n, q)\<in>set (plugins a). pstate q = Ready \<and> hard_names q = None then (a, Some ValueError)
               else if \<exists>(n, q)\<in>set (plugins a). pstate q = Ready \<and> depends_on name q then (a, Some RuntimeError)
               else (case stop_plugin_with_timeout f o_stop True name
                            (publish_event Plugin_Stopping name (lose request_stop name a)) of
                       (a1, False) \<Rightarrow> (a1, Some RuntimeError)
                     | (a1, True) \<Rightarrow> (a1\<lparr>plugins := AList.delete name (plugins a1)\<rparr>, None)))"

subsection \<open>Shutdown\<close>

record stop_input =
  fails_stop :: "nat \<Rightarrow> bool"
  time_left :: bool
  stops :: call_outcome

definition cancel_pending :: "string \<Rightarrow> app \<Rightarrow> app" where
  "cancel_pending name a = record_state name (lose (mark_hung Shutdown_Timeout) name (lose request_stop name a))"

primrec stop_all :: "(string \<Rightarrow> stop_input) \<Rightarrow> string list \<Rightarrow> app \<Rightarrow> app" where
  "stop_all inputs [] a = a"
| "stop_all inputs (name # names) a =
     (let i = inputs name
      in if \<not> time_left i then fold cancel_pending (name # names) a
         else stop_all inputs names
           (case map_option pstate (instance_of name a) of
              Some Hung \<Rightarrow> lose request_stop name a
            | Some Blocked \<Rightarrow> lose mark_stopped name (on_instance name (cleanup_managed_resources (fails_stop i)) a)
            | _ \<Rightarrow> fst (stop_plugin_with_timeout (fails_stop i) (stops i) True name a)))"

definition shutdown :: "(string \<Rightarrow> stop_input) \<Rightarrow> app \<Rightarrow> app" where
  "shutdown inputs a =
     (if shutting_down a then a
      else stop_all inputs (rev (map fst (plugins a))) (a\<lparr>shutting_down := True\<rparr>))"

end
