(* ===== verification/Plugin_Cycles.thy ===== *)
theory Plugin_Cycles
  imports Plugin_Order
begin

text \<open>
  What \<open>find_cycles\<close> and \<open>topo_order\<close> compute.  The invariant of the search speaks of the nodes on the call
  chain, of the stack, whose nodes reach one another upwards, and of the nodes that have left it, which are closed
  under dependencies and whose entries in the result are final.
\<close>

subsection \<open>Graphs\<close>

definition edges :: "('n \<Rightarrow> 'n list) \<Rightarrow> ('n \<times> 'n) set" where
  "edges d = {(x, y). y \<in> set (d x)}"

abbreviation reaches :: "('n \<Rightarrow> 'n list) \<Rightarrow> 'n \<Rightarrow> 'n \<Rightarrow> bool" where
  "reaches d x y \<equiv> (x, y) \<in> (edges d)\<^sup>*"

definition component_of :: "('n \<Rightarrow> 'n list) \<Rightarrow> 'n \<Rightarrow> 'n set" where
  "component_of d x = {y. reaches d x y \<and> reaches d y x}"

definition on_cycle :: "('n \<Rightarrow> 'n list) \<Rightarrow> 'n \<Rightarrow> bool" where
  "on_cycle d x \<longleftrightarrow> (x, x) \<in> (edges d)\<^sup>+"

lemma reaches_dep: "y \<in> set (d x) \<Longrightarrow> reaches d x y"
  by (auto simp: edges_def)

lemma reaches_trans: "reaches d x y \<Longrightarrow> reaches d y z \<Longrightarrow> reaches d x z"
  by (rule rtrancl_trans)

lemma component_eq: "y \<in> component_of d x \<Longrightarrow> component_of d y = component_of d x"
  by (auto simp: component_of_def dest: reaches_trans)

lemma on_cycle_component:
  assumes "component_of d x = C" "x \<in> C"
  shows "on_cycle d x \<longleftrightarrow> x \<in> set (d x) \<or> (\<exists>y\<in>C. y \<noteq> x)"
proof
  assume "on_cycle d x"
  then obtain y where y: "(x, y) \<in> edges d" "reaches d y x" unfolding on_cycle_def by (meson tranclD)
  then have "y \<in> C" using assms(1) by (auto simp: component_of_def)
  then show "x \<in> set (d x) \<or> (\<exists>y\<in>C. y \<noteq> x)" using y(1) by (cases "y = x") (auto simp: edges_def)
next
  assume "x \<in> set (d x) \<or> (\<exists>y\<in>C. y \<noteq> x)"
  then show "on_cycle d x"
  proof
    assume "x \<in> set (d x)"
    then show ?thesis by (auto simp: on_cycle_def edges_def)
  next
    assume "\<exists>y\<in>C. y \<noteq> x"
    then obtain y where "reaches d x y" "reaches d y x" "y \<noteq> x" using assms(1) by (auto simp: component_of_def)
    then show ?thesis unfolding on_cycle_def by (metis rtranclD trancl_trans)
  qed
qed

lemma pop_until_append: "x \<notin> set s \<Longrightarrow> pop_until x (s @ x # r) = (s @ [x], r)"
  by (induction s) auto

lemma closed_reaches:
  assumes "reaches d x y" "x \<in> B" "\<And>u v. u \<in> B \<Longrightarrow> v \<in> set (d u) \<Longrightarrow> v \<in> B"
  shows "y \<in> B"
  using assms(1,2) by (induction rule: rtrancl_induct) (auto simp: edges_def intro: assms(3))

subsection \<open>The invariant\<close>

definition seen :: "'n tarjan \<Rightarrow> 'n set" where
  "seen t = {x. indices t x \<noteq> None}"

abbreviation idx :: "'n tarjan \<Rightarrow> 'n \<Rightarrow> nat" where "idx t x \<equiv> the (indices t x)"

definition entry_of :: "('n::linorder \<Rightarrow> 'n list) \<Rightarrow> 'n \<Rightarrow> 'n list option" where
  "entry_of d x = (if on_cycle d x then Some (sorted_list_of_set (component_of d x)) else None)"

definition search_inv :: "('n::linorder \<Rightarrow> 'n list) \<Rightarrow> 'n set \<Rightarrow> 'n tarjan \<Rightarrow> bool" where
  "search_inv d G t \<longleftrightarrow>
     on_stack t = set (stack t) \<and> set (stack t) \<subseteq> seen t \<and> G \<subseteq> set (stack t) \<and>
     (\<forall>x\<in>seen t. idx t x < next_index t) \<and> sorted_wrt (\<lambda>x y. idx t y < idx t x) (stack t) \<and>
     (\<forall>x\<in>set (stack t). \<forall>y\<in>set (stack t). idx t x \<le> idx t y \<longrightarrow> reaches d x y) \<and>
     (\<forall>y\<in>set (stack t). \<exists>g\<in>G. idx t g \<le> idx t y \<and> reaches d y g) \<and>
     (\<forall>x\<in>seen t - G. set (d x) \<subseteq> seen t) \<and>
     (\<forall>x\<in>seen t - set (stack t). set (d x) \<subseteq> seen t - set (stack t)) \<and>
     (\<forall>x. map_of (cycle_map t) x = (if x \<in> seen t - set (stack t) then entry_of d x else None))"

text \<open>What a finished call for \<open>x\<close> has done to \<open>t\<close>: \<open>s\<close> is what it left on the stack.\<close>

definition search_step :: "('n::linorder \<Rightarrow> 'n list) \<Rightarrow> 'n tarjan \<Rightarrow> 'n list \<Rightarrow> 'n tarjan \<Rightarrow> bool" where
  "search_step d t s t' \<longleftrightarrow>
     seen t \<subseteq> seen t' \<and> next_index t \<le> next_index t' \<and> stack t' = s @ stack t \<and> set s \<inter> seen t = {} \<and>
     (\<forall>y\<in>seen t. indices t' y = indices t y \<and> lowlinks t' y = lowlinks t y) \<and>
     (\<forall>y\<in>seen t' - seen t. next_index t \<le> idx t' y)"

definition search_done :: "('n::linorder \<Rightarrow> 'n list) \<Rightarrow> 'n \<Rightarrow> 'n tarjan \<Rightarrow> 'n tarjan \<Rightarrow> bool" where
  "search_done d x t t' \<longleftrightarrow> x \<in> seen t' \<and> (\<exists>s l. search_step d t s t' \<and> lowlinks t' x = Some l \<and> l \<le> idx t' x \<and>
     (l = idx t' x \<or> (\<exists>y\<in>set (stack t'). idx t' y = l \<and> reaches d x y)) \<and>
     (\<forall>y\<in>set s. \<forall>z\<in>set (d y) \<inter> set (stack t). l \<le> idx t z))"

text \<open>Inside a call for \<open>x\<close>, after the dependencies \<open>P\<close>; \<open>t\<close> is the state before the call.\<close>

definition loop_inv :: "('n::linorder \<Rightarrow> 'n list) \<Rightarrow> 'n set \<Rightarrow> 'n \<Rightarrow> 'n tarjan \<Rightarrow> 'n set \<Rightarrow> 'n tarjan \<Rightarrow> bool" where
  "loop_inv d G x t P u \<longleftrightarrow> search_inv d (insert x G) u \<and> P \<subseteq> seen u \<and> x \<in> seen u \<and> idx u x = next_index t \<and>
     (\<exists>s l. search_step d t (s @ [x]) u \<and> lowlinks u x = Some l \<and> l \<le> idx u x \<and>
       (\<exists>y\<in>set (stack u). idx u y = l \<and> reaches d x y) \<and>
       (\<forall>y\<in>set s. \<forall>z\<in>set (d y) \<inter> set (stack t). l \<le> idx t z) \<and>
       (\<forall>z\<in>P \<inter> set (stack t). l \<le> idx t z))"

lemma search_step_refl: "search_step d t [] t"
  by (simp add: search_step_def)

lemma search_stepD:
  assumes "search_step d t s t'"
  shows "seen t \<subseteq> seen t'" "next_index t \<le> next_index t'" "stack t' = s @ stack t" "set s \<inter> seen t = {}"
    "y \<in> seen t \<Longrightarrow> indices t' y = indices t y" "y \<in> seen t \<Longrightarrow> lowlinks t' y = lowlinks t y"
    "y \<in> seen t' \<Longrightarrow> y \<notin> seen t \<Longrightarrow> next_index t \<le> idx t' y"
  using assms by (simp_all add: search_step_def)

lemma search_step_trans:
  assumes "search_step d t s u" "search_step d u s' v"
  shows "search_step d t (s' @ s) v"
proof -
  note a = search_stepD [OF assms(1)] and b = search_stepD [OF assms(2)]
  have "next_index t \<le> idx v y" if "y \<in> seen v" "y \<notin> seen t" for y
    using that a(2,7) b(5,7) [of y] by (cases "y \<in> seen u") fastforce+
  then show ?thesis
    unfolding search_step_def
  proof (intro conjI ballI)
    show "seen t \<subseteq> seen v" "next_index t \<le> next_index v" "stack v = (s' @ s) @ stack t" "set (s' @ s) \<inter> seen t = {}"
      using a(1-4) b(1-4) by auto
    fix y assume "y \<in> seen t"
    moreover from this have "y \<in> seen u" using a(1) by blast
    ultimately show "indices v y = indices t y" "lowlinks v y = lowlinks t y" using a(5,6) b(5,6) by simp_all
  qed auto
qed

lemma search_invD:
  assumes "search_inv d G t"
  shows "on_stack t = set (stack t)" "set (stack t) \<subseteq> seen t" "G \<subseteq> set (stack t)"
    "x \<in> seen t \<Longrightarrow> idx t x < next_index t" "sorted_wrt (\<lambda>x y. idx t y < idx t x) (stack t)"
    "x \<in> set (stack t) \<Longrightarrow> y \<in> set (stack t) \<Longrightarrow> idx t x \<le> idx t y \<Longrightarrow> reaches d x y"
    "y \<in> set (stack t) \<Longrightarrow> \<exists>g\<in>G. idx t g \<le> idx t y \<and> reaches d y g"
    "x \<in> seen t \<Longrightarrow> x \<notin> G \<Longrightarrow> set (d x) \<subseteq> seen t"
    "x \<in> seen t \<Longrightarrow> x \<notin> set (stack t) \<Longrightarrow> set (d x) \<subseteq> seen t - set (stack t)"
    "map_of (cycle_map t) x = (if x \<in> seen t - set (stack t) then entry_of d x else None)"
  using assms by (simp_all add: search_inv_def)

subsection \<open>Entering a node\<close>

lemma enter_node_inv:
  assumes i: "search_inv d G t" and x: "indices t x = None" and g: "\<forall>g\<in>G. reaches d g x"
  shows "loop_inv d G x t {} (enter_node x t)"
proof -
  let ?u = "enter_node x t"
  note I = search_invD [OF i]
  have xs: "x \<notin> set (stack t)" "x \<notin> seen t" using I(2) x by (auto simp: seen_def)
  have old: "idx ?u y = idx t y" if "y \<in> seen t" for y using that x by (auto simp: enter_node_def seen_def)
  have old': "idx ?u y = idx t y" if "y \<in> set (stack t)" for y using that I(2) old by blast
  have ix: "idx ?u x = next_index t" by (simp add: enter_node_def)
  have st: "stack ?u = x # stack t" "seen ?u = insert x (seen t)" "next_index ?u = next_index t + 1"
    "on_stack ?u = insert x (on_stack t)" "cycle_map ?u = cycle_map t"
    by (auto simp: enter_node_def seen_def)
  have up: "reaches d y x" if y: "y \<in> set (stack t)" for y
  proof -
    obtain h where "h \<in> G" "reaches d y h" using I(7) [OF y] by blast
    then show ?thesis using g by (meson reaches_trans)
  qed
  have "search_inv d (insert x G) ?u"
    unfolding search_inv_def
  proof (intro conjI)
    show "on_stack ?u = set (stack ?u)" "set (stack ?u) \<subseteq> seen ?u" "insert x G \<subseteq> set (stack ?u)"
      using I(1-3) by (auto simp: st)
    show "\<forall>y\<in>seen ?u. idx ?u y < next_index ?u"
    proof
      fix y assume "y \<in> seen ?u"
      then show "idx ?u y < next_index ?u" using I(4) [of y] ix old [of y] by (auto simp: st(2,3))
    qed
    have "idx ?u y < idx ?u x" if "y \<in> set (stack t)" for y using that I(2,4) ix old' by fastforce
    moreover have "sorted_wrt (\<lambda>a b. idx ?u b < idx ?u a) (stack t)"
      using I(5) old' by (auto intro: sorted_wrt_mono_rel [rotated])
    ultimately show "sorted_wrt (\<lambda>x y. idx ?u y < idx ?u x) (stack ?u)" by (simp add: st)
    show "\<forall>y\<in>set (stack ?u). \<forall>z\<in>set (stack ?u). idx ?u y \<le> idx ?u z \<longrightarrow> reaches d y z"
    proof (intro ballI impI)
      fix y z assume a: "y \<in> set (stack ?u)" "z \<in> set (stack ?u)" "idx ?u y \<le> idx ?u z"
      have "z = x \<or> z \<in> set (stack t)" "y = x \<or> y \<in> set (stack t)" using a by (auto simp: st)
      then show "reaches d y z"
        using a(3) ix old' up I(6) [of y z] I(2) I(4) [of z] by (elim disjE) (auto simp: subset_iff)
    qed
    show "\<forall>y\<in>set (stack ?u). \<exists>g\<in>insert x G. idx ?u g \<le> idx ?u y \<and> reaches d y g"
    proof
      fix y assume "y \<in> set (stack ?u)"
      then consider "y = x" | "y \<in> set (stack t)" by (auto simp: st)
      then show "\<exists>g\<in>insert x G. idx ?u g \<le> idx ?u y \<and> reaches d y g"
      proof cases
        case 2
        then obtain h where h: "h \<in> G" "idx t h \<le> idx t y" "reaches d y h" using I(7) by blast
        then have "h \<in> set (stack t)" using I(3) by blast
        then show ?thesis using h 2 old' by auto
      qed auto
    qed
    show "\<forall>y\<in>seen ?u - insert x G. set (d y) \<subseteq> seen ?u" using I(8) by (auto simp: st)
    show "\<forall>y\<in>seen ?u - set (stack ?u). set (d y) \<subseteq> seen ?u - set (stack ?u)"
      using I(9) xs by (auto simp: st)
    show "\<forall>y. map_of (cycle_map ?u) y = (if y \<in> seen ?u - set (stack ?u) then entry_of d y else None)"
      using I(10) xs by (auto simp: st)
  qed
  moreover have "search_step d t [x] ?u"
    using xs ix by (auto simp: search_step_def st) (auto simp: enter_node_def)
  moreover have "lowlinks ?u x = Some (next_index t)" by (simp add: enter_node_def)
  ultimately show ?thesis
    unfolding loop_inv_def using ix st by (auto intro!: exI [of _ "[]"])
qed

subsection \<open>One dependency\<close>

lemma lower_simps [simp]:
  "seen (lower x a t) = seen t" "indices (lower x a t) = indices t" "stack (lower x a t) = stack t"
  "on_stack (lower x a t) = on_stack t" "next_index (lower x a t) = next_index t" "cycle_map (lower x a t) = cycle_map t"
  "lowlinks (lower x a t) y = (if y = x then Some (min (the (lowlinks t x)) (the a)) else lowlinks t y)"
  by (simp_all add: lower_def seen_def)

lemma search_inv_lower [simp]: "search_inv d G (lower x a t) \<longleftrightarrow> search_inv d G t"
  by (simp add: search_inv_def)

lemma search_step_lower: "search_step d t s u \<Longrightarrow> x \<notin> seen t \<Longrightarrow> search_step d t s (lower x a u)"
  by (auto simp: search_step_def)

lemma loop_inv_call:
  assumes u: "loop_inv d G x t P u" and x: "x \<notin> seen t" and w: "w \<in> set (d x)" "w \<notin> seen u"
    and v: "search_inv d (insert x G) v" "search_done d w u v" and ts: "set (stack t) \<subseteq> seen t"
  shows "loop_inv d G x t (insert w P) (lower x (lowlinks v w) v)"
proof -
  have U: "search_inv d (insert x G) u" "P \<subseteq> seen u" "x \<in> seen u" "idx u x = next_index t"
    using u by (simp_all add: loop_inv_def)
  obtain s l where s: "search_step d t (s @ [x]) u" "lowlinks u x = Some l" "l \<le> idx u x"
    and wit: "\<exists>y\<in>set (stack u). idx u y = l \<and> reaches d x y"
    and low: "\<forall>y\<in>set s. \<forall>z\<in>set (d y) \<inter> set (stack t). l \<le> idx t z" "\<forall>z\<in>P \<inter> set (stack t). l \<le> idx t z"
    using u unfolding loop_inv_def by blast
  obtain s' m where s': "search_step d u s' v" "lowlinks v w = Some m"
    and wit': "m = idx v w \<or> (\<exists>y\<in>set (stack v). idx v y = m \<and> reaches d w y)"
    and low': "\<forall>y\<in>set s'. \<forall>z\<in>set (d y) \<inter> set (stack u). m \<le> idx u z"
    and wv: "w \<in> seen v"
    using v(2) unfolding search_done_def by blast
  note A = search_stepD [OF s(1)] and B = search_stepD [OF s'(1)] and I = search_invD [OF U(1)]
  let ?v = "lower x (lowlinks v w) v"
  have xv: "idx v x = next_index t" "lowlinks v x = Some l" "x \<in> seen v" using B(1,5,6) U(3,4) s(2) by auto
  have old: "idx v y = idx u y" if "y \<in> set (stack u)" for y using that B(5) I(2) by auto
  have old2: "idx u z = idx t z" "z \<in> set (stack u)" if "z \<in> set (stack t)" "z \<in> seen t" for z
    using that A(3,5) by auto
  have st: "set (stack u) \<subseteq> set (stack v)" using B(3) by simp
  have step: "search_step d t ((s' @ s) @ [x]) ?v"
    using search_step_lower [OF search_step_trans [OF s(1) s'(1)] x] by simp
  have wit'': "\<exists>y\<in>set (stack ?v). idx ?v y = min l m \<and> reaches d x y"
  proof (cases "l \<le> m")
    case True
    then show ?thesis using wit old st by (fastforce simp: min_def)
  next
    case False
    then have ml: "m < l" by simp
    have xw: "reaches d x w" using w(1) by (rule reaches_dep)
    have "idx u x < next_index u" using I(4) U(3) by blast
    then have "m \<noteq> idx v w" using ml s(3) B(7) [OF wv w(2)] by linarith
    then show ?thesis using wit' ml xw by (auto simp: min_def intro: reaches_trans)
  qed
  have lows: "\<forall>y\<in>set (s' @ s). \<forall>z\<in>set (d y) \<inter> set (stack t). min l m \<le> idx t z"
  proof (intro ballI)
    fix y z assume y: "y \<in> set (s' @ s)" and z: "z \<in> set (d y) \<inter> set (stack t)"
    from y consider "y \<in> set s'" | "y \<in> set s" by auto
    then show "min l m \<le> idx t z"
    proof cases
      case 1
      then have "m \<le> idx u z" using low' z A(3) by auto
      then show ?thesis using old2 [of z] z ts by auto
    next
      case 2
      then have "l \<le> idx t z" using low(1) z by blast
      then show ?thesis by simp
    qed
  qed
  have lowP: "\<forall>z\<in>insert w P \<inter> set (stack t). min l m \<le> idx t z"
    using low(2) w(2) A(3) I(2) by (fastforce simp: min_le_iff_disj)
  have "search_inv d (insert x G) ?v" "insert w P \<subseteq> seen ?v" "x \<in> seen ?v" "idx ?v x = next_index t"
      "lowlinks ?v x = Some (min l m)" "min l m \<le> idx ?v x"
    using v(1) U(2,4) B(1) wv xv s(3) s'(2) by auto
  with step wit'' lows lowP show ?thesis unfolding loop_inv_def by blast
qed

lemma loop_inv_known:
  assumes u: "loop_inv d G x t P u" and x: "x \<notin> seen t" and w: "w \<in> set (d x)" "w \<in> seen u"
    and ts: "set (stack t) \<subseteq> seen t"
  shows "loop_inv d G x t (insert w P) (if w \<in> on_stack u then lower x (indices u w) u else u)"
proof -
  have U: "search_inv d (insert x G) u" "P \<subseteq> seen u" "x \<in> seen u" "idx u x = next_index t"
    using u by (simp_all add: loop_inv_def)
  obtain s l where s: "search_step d t (s @ [x]) u" "lowlinks u x = Some l" "l \<le> idx u x"
    and wit: "\<exists>y\<in>set (stack u). idx u y = l \<and> reaches d x y"
    and low: "\<forall>y\<in>set s. \<forall>z\<in>set (d y) \<inter> set (stack t). l \<le> idx t z" "\<forall>z\<in>P \<inter> set (stack t). l \<le> idx t z"
    using u unfolding loop_inv_def by blast
  note A = search_stepD [OF s(1)] and I = search_invD [OF U(1)]
  have xw: "reaches d x w" using w(1) by (rule reaches_dep)
  show ?thesis
  proof (cases "w \<in> on_stack u")
    case True
    let ?m = "idx u w" and ?v = "lower x (indices u w) u"
    have "search_step d t (s @ [x]) ?v" using search_step_lower [OF s(1) x] .
    moreover have "\<exists>y\<in>set (stack ?v). idx ?v y = min l ?m \<and> reaches d x y"
      using wit True I(1) xw by (auto simp: min_def)
    moreover have "\<forall>y\<in>set s. \<forall>z\<in>set (d y) \<inter> set (stack t). min l ?m \<le> idx t z"
      using low(1) by (fastforce simp: min_le_iff_disj)
    moreover have "\<forall>z\<in>insert w P \<inter> set (stack t). min l ?m \<le> idx t z"
      using low(2) A(5) [of w] ts by (fastforce simp: min_le_iff_disj)
    moreover have "lowlinks ?v x = Some (min l ?m)" "min l ?m \<le> idx ?v x" using s by auto
    ultimately have "\<exists>s l. search_step d t (s @ [x]) ?v \<and> lowlinks ?v x = Some l \<and> l \<le> idx ?v x \<and>
       (\<exists>y\<in>set (stack ?v). idx ?v y = l \<and> reaches d x y) \<and>
       (\<forall>y\<in>set s. \<forall>z\<in>set (d y) \<inter> set (stack t). l \<le> idx t z) \<and>
       (\<forall>z\<in>insert w P \<inter> set (stack t). l \<le> idx t z)" by blast
    then show ?thesis unfolding loop_inv_def using True U w(2) by simp
  next
    case False
    then have "\<forall>z\<in>insert w P \<inter> set (stack t). l \<le> idx t z" using low(2) A(3) I(1) by auto
    then show ?thesis unfolding loop_inv_def using False U w(2) s wit low(1) by auto
  qed
qed

subsection \<open>The end of a call\<close>

lemma map_of_update_all:
  "map_of (fold (\<lambda>m c. AList.update m v c) ms c) y = (if y \<in> set ms then Some v else map_of c y)"
  by (induction ms arbitrary: c) (auto simp: dict_simps)

text \<open>If \<open>x\<close> keeps its own index, what lies on the stack from \<open>x\<close> upwards is its component.\<close>

lemma component_on_top:
  assumes I: "search_inv d (insert x G) u" and s: "stack u = s @ x # r" "set s \<inter> G = {}"
    and g: "\<forall>g\<in>G. reaches d g x" and P: "set (d x) \<subseteq> seen u" and x: "x \<in> seen u"
    and low: "\<forall>y\<in>insert x (set s). set (d y) \<inter> set r = {}"
  shows "component_of d x = insert x (set s)"
    "y \<in> insert x (set s) \<Longrightarrow> set (d y) \<subseteq> seen u - set r"
proof -
  note D = search_invD [OF I]
  have st: "set (stack u) = set s \<union> {x} \<union> set r" using s(1) by auto
  have above: "idx u x < idx u y" if "y \<in> set s" for y using that D(5) s(1) by (auto simp: sorted_wrt_append)
  have xs: "x \<notin> set s" "x \<notin> set r" using above D(5) s(1) by (auto simp: sorted_wrt_append)
  have sr: "set s \<inter> set r = {}" using D(5) s(1) by (fastforce simp: sorted_wrt_append)
  show nxt: "set (d y) \<subseteq> seen u - set r" if y: "y \<in> insert x (set s)" for y
  proof -
    have "set (d y) \<subseteq> seen u"
    proof (cases "y = x")
      case True
      then show ?thesis using P by simp
    next
      case False
      then have "y \<in> set s" using y by simp
      then have "y \<notin> insert x G" "y \<in> seen u" using s(2) False D(2) st by auto
      then show ?thesis by (rule D(8) [rotated])
    qed
    then show ?thesis using low y by blast
  qed
  have there: "reaches d x y \<and> reaches d y x" if "y \<in> set s" for y
  proof
    have y: "y \<in> set (stack u)" "x \<in> set (stack u)" using that st by auto
    show "reaches d x y" using D(6) [OF y(2,1)] above [OF that] by simp
    obtain h where "h \<in> insert x G" "reaches d y h" using D(7) [OF y(1)] by blast
    then show "reaches d y x" using g by (auto intro: reaches_trans)
  qed
  show "component_of d x = insert x (set s)"
  proof
    show "insert x (set s) \<subseteq> component_of d x" using there by (auto simp: component_of_def)
    show "component_of d x \<subseteq> insert x (set s)"
    proof
      fix y assume "y \<in> component_of d x"
      then have y: "reaches d x y" "reaches d y x" by (simp_all add: component_of_def)
      have "y \<in> seen u - set r"
      proof (rule closed_reaches [OF y(1)])
        show "x \<in> seen u - set r" using x xs by simp
        fix a b assume a: "a \<in> seen u - set r" and b: "b \<in> set (d a)"
        show "b \<in> seen u - set r"
        proof (cases "a \<in> insert x (set s)")
          case True
          then show ?thesis using nxt b by blast
        next
          case False
          then have "a \<notin> set (stack u)" using a st by auto
          then show ?thesis using D(9) [of a] a b st by blast
        qed
      qed
      moreover have "y \<in> set (stack u)"
      proof (rule ccontr)
        assume n: "y \<notin> set (stack u)"
        have "x \<in> seen u - set (stack u)"
        proof (rule closed_reaches [OF y(2)])
          show "y \<in> seen u - set (stack u)" using calculation n by simp
          fix a b assume "a \<in> seen u - set (stack u)" "b \<in> set (d a)"
          then show "b \<in> seen u - set (stack u)" using D(9) [of a] by blast
        qed
        then show False using st by simp
      qed
      ultimately show "y \<in> insert x (set s)" using st by auto
    qed
  qed
qed

lemma entry_of_component:
  assumes "component_of d x = set ms" "distinct ms" "y \<in> set ms"
  shows "(if 1 < length ms \<or> x \<in> set (d x) then Some (sort ms) else None) = entry_of d y"
proof -
  have x: "x \<in> set ms" using assms(1) by (auto simp: component_of_def)
  have c: "component_of d y = set ms" using component_eq [of y d x] assms(1,3) by simp
  have l: "sorted_list_of_set (set ms) = sort ms"
    using assms(2) by (simp add: sorted_list_of_set_sort_remdups distinct_remdups_id)
  have m: "1 < length ms \<longleftrightarrow> (\<exists>z\<in>set ms. z \<noteq> y)"
  proof
    assume "1 < length ms"
    then obtain a b r where "ms = a # b # r" by (cases ms rule: remdups_adj.cases) auto
    then show "\<exists>z\<in>set ms. z \<noteq> y" using assms(2) by auto
  next
    assume "\<exists>z\<in>set ms. z \<noteq> y"
    then have "ms \<noteq> []" "ms \<noteq> [y]" "\<And>a. ms = [a] \<Longrightarrow> a = y" using assms(3) by auto
    then show "1 < length ms" by (cases ms rule: remdups_adj.cases) auto
  qed
  have "on_cycle d y \<longleftrightarrow> y \<in> set (d y) \<or> 1 < length ms"
    using on_cycle_component [OF c assms(3)] m by simp
  moreover have "y = x" if "\<not> 1 < length ms"
    using that m x by auto
  ultimately show ?thesis unfolding entry_of_def c l by auto
qed

lemma distinct_by_index: "sorted_wrt (\<lambda>x y. (f y :: nat) < f x) xs \<Longrightarrow> distinct xs"
  by (induction xs) auto

lemma emit_keep:
  assumes u: "loop_inv d G x t (set (d x)) u" and t: "search_inv d G t" and x: "x \<notin> seen t"
    and l: "lowlinks u x \<noteq> indices u x"
  shows "search_inv d G u \<and> search_done d x t u"
proof -
  have U: "search_inv d (insert x G) u" "set (d x) \<subseteq> seen u" "x \<in> seen u" "idx u x = next_index t"
    using u by (simp_all add: loop_inv_def)
  obtain s l where s: "search_step d t (s @ [x]) u" "lowlinks u x = Some l" "l \<le> idx u x"
    and wit: "\<exists>y\<in>set (stack u). idx u y = l \<and> reaches d x y"
    and low: "\<forall>y\<in>set s. \<forall>z\<in>set (d y) \<inter> set (stack t). l \<le> idx t z" "\<forall>z\<in>set (d x) \<inter> set (stack t). l \<le> idx t z"
    using u unfolding loop_inv_def by blast
  note A = search_stepD [OF s(1)] and I = search_invD [OF U(1)]
  have "indices u x = Some (idx u x)" using U(3) by (auto simp: seen_def)
  then have "l \<noteq> idx u x" using l s(2) by auto
  then have lt: "l < idx u x" using s(3) by simp
  obtain y where y: "y \<in> set (stack u)" "idx u y = l" "reaches d x y" using wit by blast
  obtain h where h: "h \<in> insert x G" "idx u h \<le> idx u y" "reaches d y h" using I(7) [OF y(1)] by blast
  have hG: "h \<in> G" "idx u h \<le> idx u x" "reaches d x h" using h y lt by (auto intro: reaches_trans)
  have "\<forall>z\<in>set (stack u). \<exists>g\<in>G. idx u g \<le> idx u z \<and> reaches d z g"
  proof
    fix z assume z: "z \<in> set (stack u)"
    obtain k where k: "k \<in> insert x G" "idx u k \<le> idx u z" "reaches d z k" using I(7) [OF z] by blast
    show "\<exists>g\<in>G. idx u g \<le> idx u z \<and> reaches d z g"
    proof (cases "k \<in> G")
      case True
      then show ?thesis using k by blast
    next
      case False
      then have "k = x" using k(1) by simp
      then have "idx u h \<le> idx u z \<and> reaches d z h" using k hG by (auto intro: reaches_trans)
      then show ?thesis using hG(1) by blast
    qed
  qed
  moreover have "\<forall>z\<in>seen u - G. set (d z) \<subseteq> seen u" using I(8) U(2) by auto
  ultimately have "search_inv d G u" using U(1) unfolding search_inv_def by simp
  moreover have "\<forall>y\<in>set (s @ [x]). \<forall>z\<in>set (d y) \<inter> set (stack t). l \<le> idx t z" using low by auto
  moreover have "l = idx u x \<or> (\<exists>y\<in>set (stack u). idx u y = l \<and> reaches d x y)" using wit by blast
  ultimately show ?thesis using s U(3) unfolding search_done_def by blast
qed

lemma emit_pop:
  assumes u: "loop_inv d G x t (set (d x)) u" and t: "search_inv d G t" and x: "x \<notin> seen t"
    and g: "\<forall>g\<in>G. reaches d g x" and l: "lowlinks u x = indices u x"
  shows "search_inv d G (emit_component d x u) \<and> search_done d x t (emit_component d x u)"
proof -
  have U: "search_inv d (insert x G) u" "set (d x) \<subseteq> seen u" "x \<in> seen u" "idx u x = next_index t"
    using u by (simp_all add: loop_inv_def)
  obtain s m where s: "search_step d t (s @ [x]) u" "lowlinks u x = Some m"
    and low: "\<forall>y\<in>set s. \<forall>z\<in>set (d y) \<inter> set (stack t). m \<le> idx t z" "\<forall>z\<in>set (d x) \<inter> set (stack t). m \<le> idx t z"
    using u unfolding loop_inv_def by blast
  note A = search_stepD [OF s(1)] and I = search_invD [OF U(1)] and T = search_invD [OF t]
  have m: "m = next_index t" using l s(2) U(4) by (metis option.sel)
  have st: "stack u = s @ x # stack t" using A(3) by simp
  have "distinct (stack u)" using I(5) by (rule distinct_by_index)
  then have dist: "distinct (s @ [x])" and x_s: "x \<notin> set s" and disj: "insert x (set s) \<inter> set (stack t) = {}"
    using st by auto
  have below: "idx u z = idx t z" "z \<in> seen t" if "z \<in> set (stack t)" for z using that A(5) T(2) by auto
  have "set (d y) \<inter> set (stack t) = {}" if y: "y \<in> insert x (set s)" for y
  proof (rule ccontr)
    assume "set (d y) \<inter> set (stack t) \<noteq> {}"
    then obtain z where z: "z \<in> set (d y)" "z \<in> set (stack t)" by blast
    then have "m \<le> idx t z" using low y by blast
    then show False using T(4) [of z] below(2) [OF z(2)] m by simp
  qed
  then have lw: "\<forall>y\<in>insert x (set s). set (d y) \<inter> set (stack t) = {}" by blast
  have sG: "set s \<inter> G = {}" using A(4) T(2,3) by auto
  note comp = component_on_top(1) [OF U(1) st sG g U(2,3) lw]
    and closed = component_on_top(2) [OF U(1) st sG g U(2,3) lw]
  let ?v = "emit_component d x u" and ?c = "s @ [x]"
  have cs: "component_of d x = set ?c" using comp by auto
  have p: "pop_until x (stack u) = (?c, stack t)" unfolding st by (rule pop_until_append [OF x_s])
  have "length (sort ?c) = length ?c" by simp
  then have e: "?v = u\<lparr>stack := stack t, on_stack := on_stack u - set ?c,
      cycle_map := (if 1 < length ?c \<or> x \<in> set (d x) then fold (\<lambda>m c. AList.update m (sort ?c) c) (sort ?c) (cycle_map u)
        else cycle_map u)\<rparr>"
    unfolding emit_component_def Let_def p using l by (simp only: prod.case simp_thms if_False)
  have v: "stack ?v = stack t" "on_stack ?v = on_stack u - set ?c" "seen ?v = seen u" "indices ?v = indices u"
      "next_index ?v = next_index u" "lowlinks ?v = lowlinks u"
      "cycle_map ?v = (if 1 < length ?c \<or> x \<in> set (d x) then fold (\<lambda>m c. AList.update m (sort ?c) c) (sort ?c) (cycle_map u)
        else cycle_map u)"
    using e by (simp_all add: seen_def)
  have "search_inv d G ?v"
    unfolding search_inv_def v(1-6)
  proof (intro conjI)
    show "on_stack u - set ?c = set (stack t)" using I(1) st disj by auto
    show "set (stack t) \<subseteq> seen u" "G \<subseteq> set (stack t)" using T(2,3) A(1) by auto
    show "\<forall>y\<in>seen u. idx u y < next_index u" using I(4) by blast
    show "sorted_wrt (\<lambda>y z. idx u z < idx u y) (stack t)" using I(5) st by (simp add: sorted_wrt_append)
    show "\<forall>y\<in>set (stack t). \<forall>z\<in>set (stack t). idx u y \<le> idx u z \<longrightarrow> reaches d y z"
      using I(6) st by simp
    show "\<forall>y\<in>set (stack t). \<exists>g\<in>G. idx u g \<le> idx u y \<and> reaches d y g"
      using T(3,7) below(1) by (metis subsetD)
    show "\<forall>y\<in>seen u - G. set (d y) \<subseteq> seen u" using I(8) U(2) by auto
    show "\<forall>y\<in>seen u - set (stack t). set (d y) \<subseteq> seen u - set (stack t)"
    proof
      fix y assume y: "y \<in> seen u - set (stack t)"
      show "set (d y) \<subseteq> seen u - set (stack t)"
      proof (cases "y \<in> insert x (set s)")
        case True
        then show ?thesis by (rule closed)
      next
        case False
        then have "y \<notin> set (stack u)" using y st by auto
        then have "set (d y) \<subseteq> seen u - set (stack u)" using I(9) y by blast
        then show ?thesis using st by auto
      qed
    qed
    show "\<forall>y. map_of (cycle_map ?v) y = (if y \<in> seen u - set (stack t) then entry_of d y else None)"
    proof
      fix y
      show "map_of (cycle_map ?v) y = (if y \<in> seen u - set (stack t) then entry_of d y else None)"
      proof (cases "y \<in> set ?c")
        case True
        then have e: "(if 1 < length ?c \<or> x \<in> set (d x) then Some (sort ?c) else None) = entry_of d y"
          by (rule entry_of_component [OF cs dist])
        have "y \<in> set (stack u)" "y \<notin> set (stack t)" using True st disj by auto
        then have "map_of (cycle_map u) y = None" "y \<in> seen u - set (stack t)" using I(2,10) by auto
        then show ?thesis using e True unfolding v(7) by (auto simp: map_of_update_all split: if_splits)
      next
        case False
        then have "map_of (cycle_map ?v) y = map_of (cycle_map u) y" unfolding v(7) by (simp add: map_of_update_all)
        moreover have "y \<in> set (stack u) \<longleftrightarrow> y \<in> set (stack t)" using False st by auto
        ultimately show ?thesis using I(10) [of y] by simp
      qed
    qed
  qed
  moreover have "search_step d t [] ?v"
    using s(1) v by (simp add: search_step_def)
  ultimately show ?thesis
    unfolding search_done_def v using U(3,4) s(2) m by (auto intro!: exI [of _ "[]"])
qed

subsection \<open>The search\<close>

lemma search_invD_stack: "search_inv d G t \<Longrightarrow> set (stack t) \<subseteq> seen t"
  by (rule search_invD(2))

lemma loop_inv_seen: "loop_inv d G x t P u \<Longrightarrow> insert x (seen t) \<subseteq> seen u"
  unfolding loop_inv_def search_step_def by blast

lemma strong_connect_ok:
  assumes N: "finite N" "\<forall>x\<in>N. set (d x) \<subseteq> N"
  shows "search_inv d G t \<Longrightarrow> x \<in> N \<Longrightarrow> x \<notin> seen t \<Longrightarrow> \<forall>g\<in>G. reaches d g x \<Longrightarrow> card (N - seen t) \<le> n \<Longrightarrow>
    search_inv d G (strong_connect d n x t) \<and> search_done d x t (strong_connect d n x t)"
proof (induction n arbitrary: G x t)
  case 0
  then have "N - seen t = {}" using N(1) by simp
  then show ?case using "0.prems"(2,3) by blast
next
  case (Suc n)
  let ?step = "\<lambda>w u. if indices u w = None then (let t' = strong_connect d n w u in lower x (lowlinks t' w) t')
                else if w \<in> on_stack u then lower x (indices u w) u else u"
  note ts = search_invD_stack [OF Suc.prems(1)]
  have loop: "loop_inv d G x t (P \<union> set ws) (fold ?step ws u)"
    if "loop_inv d G x t P u" "set ws \<subseteq> set (d x)" for ws P u
    using that
  proof (induction ws arbitrary: P u)
    case Nil
    then show ?case by simp
  next
    case (Cons w ws)
    have w: "w \<in> set (d x)" using Cons.prems(2) by simp
    have "loop_inv d G x t (insert w P) (?step w u)"
    proof (cases "w \<in> seen u")
      case True
      then show ?thesis
        using loop_inv_known [OF Cons.prems(1) Suc.prems(3) w True ts] by (simp add: seen_def split: if_splits)
    next
      case False
      have I: "search_inv d (insert x G) u" using Cons.prems(1) by (simp add: loop_inv_def)
      have xw: "reaches d x w" using w by (rule reaches_dep)
      then have g: "\<forall>g\<in>insert x G. reaches d g w" using Suc.prems(4) by (auto intro: reaches_trans)
      have "N - seen u \<subset> N - seen t" using loop_inv_seen [OF Cons.prems(1)] Suc.prems(2,3) by blast
      then have "card (N - seen u) < card (N - seen t)" using N(1) by (intro psubset_card_mono) auto
      then have c: "card (N - seen u) \<le> n" using Suc.prems(5) by simp
      have wN: "w \<in> N" using N(2) w Suc.prems(2) by blast
      from Suc.IH [OF I wN False g c]
      have "loop_inv d G x t (insert w P) (lower x (lowlinks (strong_connect d n w u) w) (strong_connect d n w u))"
        using loop_inv_call [OF Cons.prems(1) Suc.prems(3) w False _ _ ts] by blast
      then show ?thesis using False by (simp add: seen_def Let_def)
    qed
    from Cons.IH [OF this] Cons.prems(2) show ?case by simp
  qed
  have "indices t x = None" using Suc.prems(3) by (simp add: seen_def)
  from loop [OF enter_node_inv [OF Suc.prems(1) this Suc.prems(4)], of "d x"]
  have u: "loop_inv d G x t (set (d x)) (fold ?step (d x) (enter_node x t))" by simp
  show ?case
  proof (cases "lowlinks (fold ?step (d x) (enter_node x t)) x = indices (fold ?step (d x) (enter_node x t)) x")
    case True
    then show ?thesis using emit_pop [OF u Suc.prems(1,3,4)] by simp
  next
    case False
    then show ?thesis using emit_keep [OF u Suc.prems(1,3)] by (simp add: emit_component_def)
  qed
qed

lemma seen_enter [simp]: "seen (enter_node x t) = insert x (seen t)"
  by (auto simp: enter_node_def seen_def)

lemma seen_emit [simp]: "seen (emit_component d x t) = seen t"
  by (auto simp: emit_component_def seen_def Let_def split: prod.splits)

lemma fold_subset:
  assumes "\<And>a t. a \<in> set xs \<Longrightarrow> f t \<subseteq> (N :: 'a set) \<Longrightarrow> f (g a t) \<subseteq> N" "f t \<subseteq> N"
  shows "f (fold g xs t) \<subseteq> N"
  using assms by (induction xs arbitrary: t) auto

lemma strong_connect_names:
  assumes N: "\<forall>x\<in>N. set (d x) \<subseteq> N"
  shows "x \<in> N \<Longrightarrow> seen t \<subseteq> N \<Longrightarrow> seen (strong_connect d n x t) \<subseteq> N"
proof (induction n arbitrary: x t)
  case (Suc n)
  show ?case
    unfolding strong_connect.simps seen_emit
  proof (rule fold_subset [where f = seen])
    fix a and u :: "'a tarjan" assume "a \<in> set (d x)" "seen u \<subseteq> N"
    then have "seen (strong_connect d n a u) \<subseteq> N" using Suc.IH [of a u] N Suc.prems(1) by blast
    then show "seen (if indices u a = None then let t' = strong_connect d n a u in lower x (lowlinks t' a) t'
      else if a \<in> on_stack u then lower x (indices u a) u else u) \<subseteq> N"
      using \<open>seen u \<subseteq> N\<close> by (simp add: Let_def)
  qed (use Suc.prems in simp)
qed simp

lemma search_all:
  assumes N: "\<forall>x\<in>set names. set (d x) \<subseteq> set names" and len: "card (set names) \<le> n"
  shows "search_inv d {} t \<Longrightarrow> set xs \<subseteq> set names \<Longrightarrow>
    search_inv d {} (fold (\<lambda>name t. if indices t name = None then strong_connect d n name t else t) xs t) \<and>
    seen t \<union> set xs \<subseteq> seen (fold (\<lambda>name t. if indices t name = None then strong_connect d n name t else t) xs t)"
proof (induction xs arbitrary: t)
  case (Cons x xs)
  let ?t = "if indices t x = None then strong_connect d n x t else t"
  have "search_inv d {} ?t \<and> insert x (seen t) \<subseteq> seen ?t"
  proof (cases "x \<in> seen t")
    case True
    then show ?thesis using Cons.prems(1) by (auto simp: seen_def)
  next
    case False
    have "card (set names - seen t) \<le> card (set names)" by (intro card_mono) auto
    then have "card (set names - seen t) \<le> n" using len by simp
    from strong_connect_ok [OF _ N Cons.prems(1) _ False _ this] Cons.prems(2)
    have "search_inv d {} (strong_connect d n x t)" "search_done d x t (strong_connect d n x t)" by simp_all
    then show ?thesis using False by (auto simp: search_done_def search_step_def seen_def)
  qed
  with Cons.IH [of ?t] Cons.prems(2) show ?case by auto
qed simp

lemma cycles_exact_base:
  assumes "\<forall>x\<in>set names. set (d x) \<subseteq> set names"
  shows "map_of (find_cycles d names) x =
    (if x \<in> set names \<and> (x, x) \<in> {(a, b). b \<in> set (d a)}\<^sup>+
     then Some (sorted_list_of_set {y. (x, y) \<in> {(a, b). b \<in> set (d a)}\<^sup>* \<and> (y, x) \<in> {(a, b). b \<in> set (d a)}\<^sup>*}) else None)"
proof -
  let ?t = "fold (\<lambda>name t. if indices t name = None then strong_connect d (length names) name t else t) names start_tarjan"
  have s: "search_inv d {} start_tarjan" "seen (start_tarjan :: 'a tarjan) = {}"
    by (simp_all add: search_inv_def start_tarjan_def seen_def)
  have I: "search_inv d {} ?t" and sub: "set names \<subseteq> seen ?t"
    using search_all [OF assms card_length s(1) subset_refl] by auto
  note D = search_invD [OF I]
  have st: "stack ?t = []" using D(7) by (cases "stack ?t") auto
  have "seen ?t \<subseteq> set names"
  proof (rule fold_subset [where f = seen])
    fix a and t :: "'a tarjan" assume "a \<in> set names" "seen t \<subseteq> set names"
    then show "seen (if indices t a = None then strong_connect d (length names) a t else t) \<subseteq> set names"
      using strong_connect_names [OF assms] by simp
  qed (simp add: s(2))
  then have "map_of (find_cycles d names) x = (if x \<in> set names then entry_of d x else None)"
    using D(10) [of x] sub st by (auto simp: find_cycles_def)
  then show ?thesis by (simp add: entry_of_def on_cycle_def component_of_def edges_def)
qed

text \<open>C9. The cycles are found exactly: a plugin is recorded if and only if it depends on itself through hard
  dependencies, and with it are recorded, in order, the plugins that depend on it and on which it depends.\<close>

theorem cycles_exact:
  assumes "\<forall>x\<in>set names. set (d x) \<subseteq> set names"
  shows "map_of (find_cycles d names) x =
    (if x \<in> set names \<and> (x, x) \<in> {(a, b). b \<in> set (d a)}\<^sup>+
     then Some (sorted_list_of_set {y. (x, y) \<in> {(a, b). b \<in> set (d a)}\<^sup>* \<and> (y, x) \<in> {(a, b). b \<in> set (d a)}\<^sup>*}) else None)"
  by (rule cycles_exact_base [OF assms])

subsection \<open>The order\<close>

definition precedes :: "'n \<Rightarrow> 'n \<Rightarrow> 'n list \<Rightarrow> bool" where
  "precedes a b xs \<longleftrightarrow> (\<exists>ys zs. xs = ys @ b # zs \<and> a \<in> set ys)"

lemma precedes_append: "precedes a b xs \<Longrightarrow> precedes a b (xs @ ys)"
  unfolding precedes_def by fastforce

lemma precedes_end: "a \<in> set xs \<Longrightarrow> precedes a b (xs @ [b])"
  unfolding precedes_def by blast

definition visit_inv :: "'n set \<Rightarrow> 'n visit_state \<Rightarrow> bool" where
  "visit_inv N v \<longleftrightarrow> visited v \<inter> visiting v = {} \<and> set (order v) = visited v \<and> distinct (order v) \<and> visited v \<subseteq> N"

definition sorted_part :: "('n \<Rightarrow> 'n list) \<Rightarrow> 'n visit_state \<Rightarrow> 'n visit_state \<Rightarrow> bool" where
  "sorted_part f v v' \<longleftrightarrow> (\<exists>s. order v' = order v @ s \<and>
     (\<forall>b\<in>set s. \<forall>c\<in>set (f b). precedes c b (order v') \<or> reaches f c b))"

lemma sorted_part_refl: "sorted_part f v v"
  by (auto simp: sorted_part_def intro: exI [of _ "[]"])

lemma sorted_part_trans:
  assumes "sorted_part f u v" "sorted_part f v w"
  shows "sorted_part f u w"
proof -
  obtain s s' where s: "order v = order u @ s" "order w = order v @ s'"
    and e: "\<forall>b\<in>set s. \<forall>c\<in>set (f b). precedes c b (order v) \<or> reaches f c b"
      "\<forall>b\<in>set s'. \<forall>c\<in>set (f b). precedes c b (order w) \<or> reaches f c b"
    using assms unfolding sorted_part_def by blast
  have "\<forall>b\<in>set (s @ s'). \<forall>c\<in>set (f b). precedes c b (order w) \<or> reaches f c b"
    using e s(2) precedes_append [of _ _ "order v" s'] by (metis Un_iff set_append)
  moreover have "order w = order u @ (s @ s')" using s by simp
  ultimately show ?thesis unfolding sorted_part_def by blast
qed

definition visit_done :: "('n \<Rightarrow> 'n list) \<Rightarrow> 'n set \<Rightarrow> 'n set \<Rightarrow> 'n visit_state \<Rightarrow> 'n visit_state \<Rightarrow> bool" where
  "visit_done f N X v v' \<longleftrightarrow> visit_inv N v' \<and> visiting v' = visiting v \<and> visited v \<subseteq> visited v' \<and>
     X \<subseteq> visited v' \<union> visiting v' \<and> sorted_part f v v'"

lemma visit_done_trans:
  "visit_done f N X u v \<Longrightarrow> visit_done f N Y v w \<Longrightarrow> visit_done f N (X \<union> Y) u w"
  unfolding visit_done_def by (auto intro: sorted_part_trans)

lemma visit_all:
  assumes "\<And>x v. x \<in> set xs \<Longrightarrow> visit_inv N v \<Longrightarrow> visiting v = G \<Longrightarrow> B \<subseteq> visited v \<Longrightarrow> visit_done f N {x} v (g x v)"
    and "visit_inv N v" "visiting v = G" "B \<subseteq> visited v"
  shows "visit_done f N (set xs) v (fold g xs v)"
  using assms
proof (induction xs arbitrary: v)
  case Nil
  then show ?case by (simp add: visit_done_def sorted_part_refl)
next
  case (Cons x xs)
  have 1: "visit_done f N {x} v (g x v)" by (rule Cons.prems(1) [OF _ Cons.prems(2-4)]) simp
  then have v: "visit_inv N (g x v)" "visiting (g x v) = G" "B \<subseteq> visited (g x v)"
    using Cons.prems(3,4) by (auto simp: visit_done_def)
  have "visit_done f N (set xs) (g x v) (fold g xs (g x v))"
  proof (rule Cons.IH [OF _ v])
    fix y u assume "y \<in> set xs" "visit_inv N u" "visiting u = G" "B \<subseteq> visited u"
    then show "visit_done f N {y} u (g y u)" by (intro Cons.prems(1)) simp_all
  qed
  from visit_done_trans [OF 1 this] show ?case by simp
qed

lemma visit_ok:
  assumes N: "finite N" "\<And>x. x \<in> N \<Longrightarrow> set (f x) \<subseteq> N"
  shows "visit_inv N v \<Longrightarrow> x \<in> N \<Longrightarrow> \<forall>g\<in>visiting v. reaches f g x \<Longrightarrow> card (N - visiting v - visited v) < n \<Longrightarrow>
    visit_done f N {x} v (visit f N n x v)"
proof (induction n arbitrary: v x)
  case (Suc n)
  show ?case
  proof (cases "x \<in> visited v \<union> visiting v")
    case True
    then show ?thesis using Suc.prems(1,2) by (auto simp: visit_done_def sorted_part_refl)
  next
    case False
    let ?v = "v\<lparr>visiting := insert x (visiting v)\<rparr>" and ?G = "insert x (visiting v)"
    let ?w = "fold (visit f N n) (f x) ?v"
    have "visit_done f N (set (f x)) ?v ?w"
    proof (rule visit_all [where G = ?G and B = "visited v"])
      fix y u assume y: "y \<in> set (f x)" and u: "visit_inv N u" "visiting u = ?G" "visited v \<subseteq> visited u"
      have xy: "reaches f x y" using y by (rule reaches_dep)
      have "N - visiting u - visited u \<subset> N - visiting v - visited v" using u(2,3) False Suc.prems(2) by auto
      then have "card (N - visiting u - visited u) < card (N - visiting v - visited v)"
        using N(1) by (intro psubset_card_mono) auto
      then have "card (N - visiting u - visited u) < n" using Suc.prems(4) by simp
      moreover have "\<forall>g\<in>visiting u. reaches f g y" using u(2) xy Suc.prems(3) by (auto intro: reaches_trans)
      moreover have "y \<in> N" using N(2) [OF Suc.prems(2)] y by blast
      ultimately show "visit_done f N {y} u (visit f N n y u)" using Suc.IH u(1) by blast
    next
      show "visit_inv N ?v" using Suc.prems(1) False by (auto simp: visit_inv_def)
    qed simp_all
    then have w: "visit_inv N ?w" "visiting ?w = ?G" "visited v \<subseteq> visited ?w" "set (f x) \<subseteq> visited ?w \<union> ?G"
        "sorted_part f v ?w"
      by (auto simp: visit_done_def sorted_part_def)
    let ?z = "?w\<lparr>visiting := visiting ?w - {x}, visited := insert x (visited ?w), order := order ?w @ [x]\<rparr>"
    have "\<forall>c\<in>set (f x). precedes c x (order ?z) \<or> reaches f c x"
    proof
      fix c assume "c \<in> set (f x)"
      then consider "c \<in> visited ?w" | "c \<in> ?G" using w(4) by blast
      then show "precedes c x (order ?z) \<or> reaches f c x"
      proof cases
        case 1
        then show ?thesis using w(1) precedes_end [of c "order ?w" x] by (simp add: visit_inv_def)
      next
        case 2
        then show ?thesis using Suc.prems(3) by auto
      qed
    qed
    then have "sorted_part f ?w ?z" by (auto simp: sorted_part_def)
    then have "sorted_part f v ?z" by (rule sorted_part_trans [OF w(5)])
    moreover have "visit f N (Suc n) x v = ?z" using False Suc.prems(2) by (simp add: Let_def)
    moreover have "visit_inv N ?z" "visiting ?z = visiting v" "visited v \<subseteq> visited ?z" "x \<in> visited ?z"
      using w(1,2,3) False Suc.prems(2) by (auto simp: visit_inv_def)
    ultimately show ?thesis by (simp add: visit_done_def)
  qed
qed simp

lemma visit_order:
  assumes f: "\<And>x. x \<in> set names \<Longrightarrow> set (f x) \<subseteq> set names" and first: "distinct first" "set first \<subseteq> set names"
  defines "w \<equiv> fold (visit f (set names) (Suc (length names))) names \<lparr>visiting = {}, visited = set first, order = first\<rparr>"
  shows "distinct (order w) \<and> set (order w) = set names \<and>
    (\<exists>s. order w = first @ s \<and> (\<forall>b\<in>set s. \<forall>c\<in>set (f b). precedes c b (order w) \<or> reaches f c b))"
proof -
  let ?N = "set names" and ?v = "\<lparr>visiting = {}, visited = set first, order = first\<rparr>"
  have "visit_done f ?N (set names) ?v w"
    unfolding w_def
  proof (rule visit_all [where G = "{}" and B = "{}"])
    fix x and v :: "'a visit_state" assume v: "x \<in> set names" "visit_inv ?N v" "visiting v = {}"
    have "card (?N - visiting v - visited v) \<le> card ?N" by (intro card_mono) auto
    also have "\<dots> < Suc (length names)" using card_length [of names] by simp
    finally have "card (?N - visiting v - visited v) < Suc (length names)" .
    moreover have "\<forall>g\<in>visiting v. reaches f g x" using v(3) by simp
    ultimately show "visit_done f ?N {x} v (visit f ?N (Suc (length names)) x v)"
      by (intro visit_ok [of ?N f v x]) (use f v in blast)+
  qed (use first in \<open>simp_all add: visit_inv_def\<close>)
  then show ?thesis by (auto simp: visit_done_def visit_inv_def sorted_part_def)
qed

lemma order_respects_dependencies_base:
  assumes "distinct names"
  shows "distinct (topo_order hard soft names) \<and> set (topo_order hard soft names) = set names \<and>
    (\<forall>a\<in>set names. \<forall>b\<in>set names. a \<in> set (hard b) \<union> set (soft b) \<longrightarrow>
       precedes a b (topo_order hard soft names) \<or> (a, b) \<in> {(x, y). y \<in> set (hard x) \<union> set (soft x)}\<^sup>* \<or>
       map_of (find_cycles (\<lambda>x. filter (\<lambda>y. y \<in> set names) (hard x)) names) b \<noteq> None)"
proof -
  define c where "c = find_cycles (\<lambda>x. filter (\<lambda>y. y \<in> set names) (hard x)) names"
  define keep where "keep y \<longleftrightarrow> y \<in> set names \<and> map_of c y = None" for y
  define f where "f x = filter keep (hard x) @ filter keep (soft x)" for x
  define first where "first = filter (\<lambda>x. map_of c x \<noteq> None) names"
  let ?N = "set names"
  define w where "w = fold (visit f (set names) (Suc (length names))) names \<lparr>visiting = {}, visited = set first, order = first\<rparr>"
  have o: "topo_order hard soft names = order w"
    by (simp only: topo_order_def Let_def c_def f_def [abs_def] keep_def [abs_def] w_def first_def)
  have "set (f x) \<subseteq> ?N" for x by (auto simp: f_def keep_def)
  moreover have "distinct first" "set first \<subseteq> ?N" using assms by (simp_all add: first_def)
  ultimately have V: "distinct (order w) \<and> set (order w) = set names \<and>
      (\<exists>s. order w = first @ s \<and> (\<forall>b\<in>set s. \<forall>c\<in>set (f b). precedes c b (order w) \<or> reaches f c b))"
    unfolding w_def by (rule visit_order)
  then have w: "distinct (order w)" "set (order w) = ?N" by simp_all
  obtain s where s: "order w = first @ s" "\<forall>b\<in>set s. \<forall>a\<in>set (f b). precedes a b (order w) \<or> reaches f a b"
    using V by blast
  have sub: "edges f \<subseteq> {(x, y). y \<in> set (hard x) \<union> set (soft x)}" by (auto simp: edges_def f_def)
  have "precedes a b (order w) \<or> (a, b) \<in> {(x, y). y \<in> set (hard x) \<union> set (soft x)}\<^sup>* \<or> map_of c b \<noteq> None"
    if ab: "a \<in> ?N" "b \<in> ?N" "a \<in> set (hard b) \<union> set (soft b)" for a b
  proof (cases "map_of c b = None")
    case True
    have "b \<in> set (order w)" using w(2) ab(2) by simp
    then have bs: "b \<in> set s" using s(1) True by (simp add: first_def)
    show ?thesis
    proof (cases "map_of c a = None")
      case True
      then have "a \<in> set (f b)" using ab by (auto simp: f_def keep_def)
      then have "precedes a b (order w) \<or> reaches f a b" using s(2) bs by blast
      then show ?thesis using rtrancl_mono [OF sub] by blast
    next
      case False
      then have "a \<in> set first" using ab(1) by (simp add: first_def)
      moreover obtain s1 s2 where "s = s1 @ b # s2" using bs by (meson split_list)
      ultimately have "precedes a b (order w)"
        unfolding precedes_def s(1) by (intro exI [of _ "first @ s1"] exI [of _ s2]) simp
      then show ?thesis by blast
    qed
  qed simp
  then show ?thesis unfolding o c_def [symmetric] using w by blast
qed

text \<open>Every plugin is started once, plugins on a cycle are dealt with first, and a hard or soft dependency comes
  before its dependent unless the dependency leads back to it.\<close>

theorem order_respects_dependencies:
  assumes "distinct names"
  shows "distinct (topo_order hard soft names) \<and> set (topo_order hard soft names) = set names \<and>
    (\<forall>a\<in>set names. \<forall>b\<in>set names. a \<in> set (hard b) \<union> set (soft b) \<longrightarrow>
       precedes a b (topo_order hard soft names) \<or> (a, b) \<in> {(x, y). y \<in> set (hard x) \<union> set (soft x)}\<^sup>* \<or>
       map_of (find_cycles (\<lambda>x. filter (\<lambda>y. y \<in> set names) (hard x)) names) b \<noteq> None)"
  by (rule order_respects_dependencies_base [OF assms])

text \<open>A soft dependency can reverse a hard one: the documentation says that soft dependencies affect the order
  only and that a soft cycle is ignored, but a soft dependency of a provider on its own hard dependent puts the
  dependent first, where its provider is not ready yet.\<close>

theorem soft_dependency_reverses_hard:
  "topo_order (\<lambda>x. if x = ''hub'' then [''gateway''] else []) (\<lambda>x. if x = ''gateway'' then [''hub''] else [])
     [''gateway'', ''hub''] = [''hub'', ''gateway'']"
  by code_simp

theorem cycles_exact_witness:
  "map_of (find_cycles (\<lambda>x. if x = ''a'' then [''b''] else if x = ''b'' then [''c''] else if x = ''c'' then [''b''] else [])
     [''a'', ''b'', ''c'']) ''a'' = None"
proof -
  let ?d = "\<lambda>x. if x = ''a'' then [''b''] else if x = ''b'' then [''c''] else if x = ''c'' then [''b''] else []"
  let ?E = "{(a, b). b \<in> set (?d a)}"
  have "\<forall>x\<in>set [''a'', ''b'', ''c'']. set (?d x) \<subseteq> set [''a'', ''b'', ''c'']" by simp
  note cycles_exact [OF this, of "''a''"]
  moreover have "(''a'', ''a'') \<notin> ?E\<^sup>+"
  proof
    assume "(''a'', ''a'') \<in> ?E\<^sup>+"
    then obtain y where "(y, ''a'') \<in> ?E" by (meson tranclE)
    then show False by (simp split: if_splits)
  qed
  ultimately show ?thesis by simp
qed

theorem order_respects_dependencies_witness:
  "set (topo_order (\<lambda>x. if x = ''a'' then [''b''] else []) (\<lambda>_. []) [''a'', ''b'']) = {''a'', ''b''}"
  using order_respects_dependencies [of "[''a'', ''b'']" "\<lambda>x. if x = ''a'' then [''b''] else []" "\<lambda>_. []"] by simp

end
