(* ===== verification/Plugin_Props.thy ===== *)
theory Plugin_Props
  imports Plugin_Registry Plugin_Cycles
begin

text \<open>
  What the registry guarantees: which plugins a lost provider takes with it, that a ready plugin has its hard
  dependencies ready and before it, that a clean startup starts everything, how a shutdown ends; and runs in which
  interference during a start breaks this.
\<close>

subsection \<open>Which plugins a loss reaches\<close>

inductive lost_chain :: "(string, plugin) pydict \<Rightarrow> string \<Rightarrow> string \<Rightarrow> bool" for ps provider where
  Provider: "lost_chain ps provider provider"
| Dependent: "lost_chain ps provider d \<Longrightarrow> map_of ps n = Some p \<Longrightarrow> pstate p = Ready \<Longrightarrow> hard_names p = Some ds \<Longrightarrow>
    d \<in> set ds \<Longrightarrow> lost_chain ps provider n"

definition blocked_by :: "string \<Rightarrow> plugin \<Rightarrow> plugin" where
  "blocked_by l p = fst (mark_dependency_blocked (Lost_Readiness l) p)"

lemma blocked_by_simps [simp]:
  "pstate p = Ready \<Longrightarrow> pstate (blocked_by l p) = Blocked" "hard_raw (blocked_by l p) = hard_raw p"
  "pstate p = Ready \<Longrightarrow> mark_dependency_blocked (Lost_Readiness l) p = (blocked_by l p, True)"
  by (simp_all add: blocked_by_def mark_dependency_blocked_def)

definition loss_inv :: "(string, plugin) pydict \<Rightarrow> string \<Rightarrow> (string, plugin) pydict \<Rightarrow> string set \<Rightarrow> bool" where
  "loss_inv ps0 provider ps un \<longleftrightarrow>
     map fst ps = map fst ps0 \<and> provider \<in> un \<and> (\<forall>n. n \<notin> un \<or> n = provider \<longrightarrow> map_of ps n = map_of ps0 n) \<and>
     (\<forall>n\<in>un. lost_chain ps0 provider n) \<and>
     (\<forall>n\<in>un. n \<noteq> provider \<longrightarrow> (\<exists>p l. map_of ps0 n = Some p \<and> pstate p = Ready \<and> map_of ps n = Some (blocked_by l p)))"

lemma lost_visit_cases:
  obtains "lost_visit n (ps, un, bl, ch) = (ps, un, bl, ch)"
      "\<And>p ds. map_of ps n = Some p \<Longrightarrow> n \<notin> un \<Longrightarrow> pstate p = Ready \<Longrightarrow> hard_names p = Some ds \<Longrightarrow> set ds \<inter> un = {}"
  | p ds l where "map_of ps n = Some p" "n \<notin> un" "pstate p = Ready" "hard_names p = Some ds" "l \<in> set ds" "l \<in> un"
      "lost_visit n (ps, un, bl, ch) = (AList.update n (blocked_by l p) ps, insert n un, bl @ [n], True)"
proof (cases "\<exists>p ds l. map_of ps n = Some p \<and> n \<notin> un \<and> pstate p = Ready \<and> hard_names p = Some ds \<and> find (\<lambda>d. d \<in> un) ds = Some l")
  case True
  then obtain p ds l where c: "map_of ps n = Some p" "n \<notin> un" "pstate p = Ready" "hard_names p = Some ds"
      "find (\<lambda>d. d \<in> un) ds = Some l" by blast
  then have "l \<in> set ds" "l \<in> un" by (auto simp: find_Some_iff)
  then show ?thesis using that(2) [OF c(1-4)] c by (simp add: lost_visit_def)
next
  case False
  have "set ds \<inter> un = {}" if "map_of ps n = Some p" "n \<notin> un" "pstate p = Ready" "hard_names p = Some ds" for p ds
    using False that by (cases "find (\<lambda>d. d \<in> un) ds") (auto simp: find_None_iff)
  moreover have "lost_visit n (ps, un, bl, ch) = (ps, un, bl, ch)"
    using False by (auto simp: lost_visit_def split: option.splits)
  ultimately show ?thesis using that(1) by blast
qed

lemma lost_visit_inv:
  assumes "loss_inv ps0 v ps un" "lost_visit n (ps, un, bl, ch) = (ps', un', bl', ch')" "dict_ok ps0"
  shows "loss_inv ps0 v ps' un'"
proof (rule lost_visit_cases [of n ps un bl ch])
  assume "lost_visit n (ps, un, bl, ch) = (ps, un, bl, ch)"
  then show ?thesis using assms by simp
next
  fix p ds l
  assume c: "map_of ps n = Some p" "n \<notin> un" "pstate p = Ready" "hard_names p = Some ds" "l \<in> set ds" "l \<in> un"
    and e: "lost_visit n (ps, un, bl, ch) = (AList.update n (blocked_by l p) ps, insert n un, bl @ [n], True)"
  have p': "ps' = AList.update n (blocked_by l p) ps" "un' = insert n un" using e assms(2) by simp_all
  have p0: "map_of ps0 n = Some p" "n \<noteq> v" using assms(1) c(1,2) by (auto simp: loss_inv_def)
  have "n \<in> keys_of ps" using c(1) by (rule map_of_SomeD_keys)
  then have k: "map fst ps' = map fst ps" unfolding p' by (simp add: update_keys)
  have "lost_chain ps0 v n"
    using Dependent [of ps0 v l n p ds] assms(1) c p0 by (auto simp: loss_inv_def)
  moreover have "\<exists>q l. map_of ps0 m = Some q \<and> pstate q = Ready \<and> map_of ps' m = Some (blocked_by l q)"
    if "m \<in> un'" "m \<noteq> v" for m
    using that assms(1) p0 c(3) unfolding loss_inv_def p' by (cases "m = n") (auto simp: dict_simps)
  ultimately show ?thesis
    using assms(1) p0 k unfolding loss_inv_def p' by (auto simp: dict_simps)
qed

lemma lost_fold_inv:
  "loss_inv ps0 v ps un \<Longrightarrow> dict_ok ps0 \<Longrightarrow> fold lost_visit ns (ps, un, bl, ch) = (ps', un', bl', ch') \<Longrightarrow> loss_inv ps0 v ps' un'"
proof (induction ns arbitrary: ps un bl ch)
  case (Cons n ns)
  obtain ps1 un1 bl1 ch1 where 1: "lost_visit n (ps, un, bl, ch) = (ps1, un1, bl1, ch1)" by (meson prod_cases4)
  then show ?case using Cons.IH [OF lost_visit_inv [OF Cons.prems(1) 1 Cons.prems(2)] Cons.prems(2)] Cons.prems(3) by simp
qed simp

lemma lost_fold_still:
  "fold lost_visit ns (ps, un, bl, ch) = (ps', un', bl', False) \<Longrightarrow>
   ps' = ps \<and> un' = un \<and> \<not> ch \<and> (\<forall>n\<in>set ns. \<forall>p ds. map_of ps n = Some p \<longrightarrow> n \<notin> un \<longrightarrow> pstate p = Ready \<longrightarrow>
     hard_names p = Some ds \<longrightarrow> set ds \<inter> un = {})"
proof (induction ns arbitrary: ps un bl ch)
  case (Cons n ns)
  show ?case
  proof (rule lost_visit_cases [of n ps un bl ch])
    assume s: "lost_visit n (ps, un, bl, ch) = (ps, un, bl, ch)"
      and f: "\<And>p ds. map_of ps n = Some p \<Longrightarrow> n \<notin> un \<Longrightarrow> pstate p = Ready \<Longrightarrow> hard_names p = Some ds \<Longrightarrow> set ds \<inter> un = {}"
    then have "fold lost_visit ns (ps, un, bl, ch) = (ps', un', bl', False)" using Cons.prems by simp
    from Cons.IH [OF this] f show ?thesis by auto
  next
    fix p l
    assume "lost_visit n (ps, un, bl, ch) = (AList.update n (blocked_by l p) ps, insert n un, bl @ [n], True)"
    then have "fold lost_visit ns (AList.update n (blocked_by l p) ps, insert n un, bl @ [n], True) = (ps', un', bl', False)"
      using Cons.prems by simp
    from Cons.IH [OF this] show ?thesis by simp
  qed
qed simp

lemma lost_loop_inv:
  "loss_inv ps0 v ps un \<Longrightarrow> dict_ok ps0 \<Longrightarrow> lost_loop ps un bl = (ps', un', bl') \<Longrightarrow>
   loss_inv ps0 v ps' un' \<and> (\<forall>n p ds. map_of ps' n = Some p \<longrightarrow> n \<notin> un' \<longrightarrow> pstate p = Ready \<longrightarrow> hard_names p = Some ds \<longrightarrow>
     set ds \<inter> un' = {})"
proof (induction ps un bl rule: lost_loop.induct)
  case (1 ps un bl)
  obtain ps1 un1 bl1 ch1 where r: "lost_round ps un bl = (ps1, un1, bl1, ch1)" by (meson prod_cases4)
  then have f: "fold lost_visit (map fst ps) (ps, un, bl, False) = (ps1, un1, bl1, ch1)" by (simp add: lost_round_def)
  have i: "loss_inv ps0 v ps1 un1" by (rule lost_fold_inv [OF "1.prems"(1,2) f])
  show ?case
  proof (cases ch1)
    case True
    then have "lost_loop ps1 un1 bl1 = (ps', un', bl')" using "1.prems"(3) r by (simp add: lost_loop.simps [of ps])
    then show ?thesis using "1.IH" [OF r [symmetric]] True i "1.prems"(2) by simp
  next
    case False
    then have e: "ps' = ps1" "un' = un1" using "1.prems"(3) r by (simp_all add: lost_loop.simps [of ps])
    have f': "fold lost_visit (map fst ps) (ps, un, bl, False) = (ps1, un1, bl1, False)" using f False by simp
    have s: "ps1 = ps" "un1 = un" and c: "\<forall>n\<in>set (map fst ps). \<forall>p ds. map_of ps n = Some p \<longrightarrow> n \<notin> un \<longrightarrow> pstate p = Ready \<longrightarrow>
        hard_names p = Some ds \<longrightarrow> set ds \<inter> un = {}"
      using lost_fold_still [OF f'] by blast+
    have "n \<in> set (map fst ps)" if "map_of ps n = Some p" for n p using map_of_SomeD_keys [OF that] by simp
    then show ?thesis using i c unfolding e s by blast
  qed
qed

lemma lost_loop_exact:
  assumes "dict_ok ps" "lost_loop ps {v} bl = (ps', un, bl')"
  shows "map fst ps' = map fst ps" "un = {n. lost_chain ps v n}"
    "n \<notin> un \<or> n = v \<Longrightarrow> map_of ps' n = map_of ps n"
    "n \<in> un \<Longrightarrow> n \<noteq> v \<Longrightarrow> \<exists>p l. map_of ps n = Some p \<and> pstate p = Ready \<and> map_of ps' n = Some (blocked_by l p)"
    "map_of ps' n = Some p \<Longrightarrow> n \<notin> un \<Longrightarrow> pstate p = Ready \<Longrightarrow> hard_names p = Some ds \<Longrightarrow> set ds \<inter> un = {}"
proof -
  have "loss_inv ps v ps {v}" by (auto simp: loss_inv_def intro: Provider)
  from lost_loop_inv [OF this assms]
  have I: "loss_inv ps v ps' un"
    and C: "\<And>n p ds. map_of ps' n = Some p \<Longrightarrow> n \<notin> un \<Longrightarrow> pstate p = Ready \<Longrightarrow> hard_names p = Some ds \<Longrightarrow> set ds \<inter> un = {}"
    by blast+
  show "map fst ps' = map fst ps" using I by (simp add: loss_inv_def)
  have same: "\<And>n. n \<notin> un \<or> n = v \<Longrightarrow> map_of ps' n = map_of ps n" using I unfolding loss_inv_def by blast
  then show "n \<notin> un \<or> n = v \<Longrightarrow> map_of ps' n = map_of ps n" .
  show "n \<in> un \<Longrightarrow> n \<noteq> v \<Longrightarrow> \<exists>p l. map_of ps n = Some p \<and> pstate p = Ready \<and> map_of ps' n = Some (blocked_by l p)"
    using I unfolding loss_inv_def by blast
  show "map_of ps' n = Some p \<Longrightarrow> n \<notin> un \<Longrightarrow> pstate p = Ready \<Longrightarrow> hard_names p = Some ds \<Longrightarrow> set ds \<inter> un = {}"
    by (rule C)
  have "n \<in> un" if "lost_chain ps v n" for n
    using that
  proof induction
    case Provider
    then show ?case using I by (simp add: loss_inv_def)
  next
    case (Dependent d n p ds)
    show ?case
    proof (rule ccontr)
      assume n: "n \<notin> un"
      then have "map_of ps' n = Some p" using same Dependent.hyps(2) by simp
      from C [OF this n Dependent.hyps(3,4)] Dependent.IH Dependent.hyps(5) show False by blast
    qed
  qed
  then show "un = {n. lost_chain ps v n}" using I by (auto simp: loss_inv_def)
qed

subsection \<open>Support\<close>

abbreviation ready :: "(string, plugin) pydict \<Rightarrow> string \<Rightarrow> bool" where
  "ready ps n \<equiv> \<exists>p. map_of ps n = Some p \<and> pstate p = Ready"

definition deps_met :: "string list \<Rightarrow> (string, plugin) pydict \<Rightarrow> string \<Rightarrow> plugin \<Rightarrow> bool" where
  "deps_met xs ps n p \<longleftrightarrow> (\<exists>ds. hard_names p = Some ds \<and> (\<forall>d\<in>set ds. ready ps d \<and> precedes d n xs))"

definition supported_in :: "string list \<Rightarrow> (string, plugin) pydict \<Rightarrow> bool" where
  "supported_in xs ps \<longleftrightarrow> (\<forall>n p. map_of ps n = Some p \<and> pstate p = Ready \<longrightarrow> deps_met xs ps n p)"

lemma deps_met_mono:
  "deps_met xs ps n p \<Longrightarrow> (\<And>d. ready ps d \<Longrightarrow> ready ps' d) \<Longrightarrow> hard_raw p' = hard_raw p \<Longrightarrow> deps_met xs ps' n p'"
  unfolding deps_met_def by metis

text \<open>Replacing a plugin without taking its readiness away.\<close>

lemma supported_update:
  assumes "supported_in xs ps" "map_of ps n = Some p" "hard_raw p' = hard_raw p" "pstate p = Ready \<longrightarrow> pstate p' = Ready"
    and "pstate p' = Ready \<longrightarrow> deps_met xs ps n p"
  shows "supported_in xs (AList.update n p' ps)"
  unfolding supported_in_def
proof (intro allI impI)
  fix m q assume m: "map_of (AList.update n p' ps) m = Some q \<and> pstate q = Ready"
  have r: "ready (AList.update n p' ps) d" if "ready ps d" for d using that assms(2,4) by (auto simp: dict_simps)
  show "deps_met xs (AList.update n p' ps) m q"
  proof (cases "m = n")
    case True
    then have "q = p'" using m by (simp add: dict_simps)
    then show ?thesis using deps_met_mono [OF _ r] assms(3,5) m True by blast
  next
    case False
    then have "deps_met xs ps m q" using m assms(1) by (auto simp: dict_simps supported_in_def)
    then show ?thesis using deps_met_mono [OF _ r] by blast
  qed
qed

text \<open>Replacing a plugin that nobody can rely on, because it was not ready.\<close>

lemma supported_unready:
  assumes "supported_in xs ps" "\<not> ready ps n" "\<And>m. m \<noteq> n \<Longrightarrow> map_of ps' m = map_of ps m" "\<not> ready ps' n"
  shows "supported_in xs ps'"
  unfolding supported_in_def
proof (intro allI impI)
  fix m q assume m: "map_of ps' m = Some q \<and> pstate q = Ready"
  then have "m \<noteq> n" using assms(4) by blast
  then have "deps_met xs ps m q" using m assms(1,3) by (auto simp: supported_in_def)
  moreover have "ready ps' d" if "ready ps d" for d using that assms(2,3) by metis
  ultimately show "deps_met xs ps' m q" using deps_met_mono by blast
qed

text \<open>The closure restores support after a provider has lost its readiness.\<close>

lemma supported_lost:
  assumes s: "supported_in xs ps" and d: "dict_ok ps" and n: "map_of ps n = Some p" "hard_raw p' = hard_raw p" "pstate p' \<noteq> Ready"
    and l: "lost_loop (AList.update n p' ps) {n} bl = (ps', un, bl')"
  shows "supported_in xs ps' \<and> map fst ps' = map fst ps \<and> map_of ps' n = Some p' \<and> (\<forall>m. ready ps' m \<longrightarrow> ready ps m)"
proof -
  let ?u = "AList.update n p' ps"
  have "n \<in> set (map fst ps)" using map_of_SomeD_keys [OF n(1)] by simp
  then have k: "map fst ?u = map fst ps" by (simp add: update_keys)
  have du: "dict_ok ?u" using d by simp
  note L = lost_loop_exact [OF du l]
  have nun: "n \<in> un" using L(2) by (auto intro: lost_chain.Provider)
  have ps'n: "map_of ps' n = Some p'" using L(3) [of n] by (simp add: dict_simps)
  have "deps_met xs ps' m q \<and> map_of ps m = Some q" if m: "map_of ps' m = Some q" "pstate q = Ready" for m q
  proof -
    have "m \<noteq> n" using m ps'n n(3) by auto
    have mu: "m \<notin> un"
    proof
      assume "m \<in> un"
      then obtain p0 l0 where "pstate p0 = Ready" "map_of ps' m = Some (blocked_by l0 p0)" using L(4) \<open>m \<noteq> n\<close> by blast
      then show False using m by simp
    qed
    have old: "map_of ps m = Some q" using L(3) [of m] mu m(1) \<open>m \<noteq> n\<close> by (simp add: dict_simps)
    then have "deps_met xs ps m q" using s m(2) by (auto simp: supported_in_def)
    then obtain ds where ds: "hard_names q = Some ds" "\<forall>d\<in>set ds. ready ps d \<and> precedes d m xs"
      unfolding deps_met_def by blast
    have "set ds \<inter> un = {}" using L(5) [OF m(1) mu m(2) ds(1)] .
    have "ready ps' d" if dd: "d \<in> set ds" for d
    proof -
      have "d \<notin> un" "d \<noteq> n" using dd nun \<open>set ds \<inter> un = {}\<close> by auto
      then have "map_of ps' d = map_of ps d" using L(3) [of d] by (simp add: dict_simps)
      then show ?thesis using ds(2) dd by auto
    qed
    then show ?thesis using ds old by (auto simp: deps_met_def)
  qed
  then show ?thesis using L(1) k ps'n by (auto simp: supported_in_def)
qed

definition app_ok :: "string list \<Rightarrow> app \<Rightarrow> bool" where
  "app_ok xs a \<longleftrightarrow> dict_ok (plugins a) \<and> \<not> shutting_down a \<and> supported_in xs (plugins a)"

subsection \<open>Bookkeeping that leaves plugins alone\<close>

lemma keeps_plugins [simp]:
  "plugins (publish_event e n a) = plugins a" "plugins (record_state n a) = plugins a" "plugins (fail_plugin n r a) = plugins a"
  "incoming (publish_event e n a) = incoming a" "incoming (record_state n a) = incoming a"
  "incoming (fail_plugin n r a) = incoming a" "shutting_down (publish_event e n a) = shutting_down a"
  "shutting_down (record_state n a) = shutting_down a" "shutting_down (fail_plugin n r a) = shutting_down a"
  "instance_of m (publish_event e n a) = instance_of m a" "instance_of m (record_state n a) = instance_of m a"
  "instance_of m (fail_plugin n r a) = instance_of m a"
  by (auto simp: publish_event_def record_state_def fail_plugin_def instance_of_def split: option.splits)

lemma fold_keeps:
  "plugins (fold (\<lambda>n a. publish_event e n (record_state n a)) ns a) = plugins a"
  "incoming (fold (\<lambda>n a. publish_event e n (record_state n a)) ns a) = incoming a"
  "shutting_down (fold (\<lambda>n a. publish_event e n (record_state n a)) ns a) = shutting_down a"
  by (induction ns arbitrary: a) simp_all

lemma app_ok_keeps [simp]:
  "app_ok xs (publish_event e n a) = app_ok xs a" "app_ok xs (record_state n a) = app_ok xs a"
  "app_ok xs (fail_plugin n r a) = app_ok xs a"
  by (simp_all add: app_ok_def)

subsection \<open>Operations keep support\<close>

definition loss_op :: "(plugin \<Rightarrow> plugin \<times> bool) \<Rightarrow> bool" where
  "loss_op op \<longleftrightarrow> (\<forall>p. snd (op p) = (pstate p = Ready) \<and> pstate (fst (op p)) \<noteq> Ready \<and> hard_raw (fst (op p)) = hard_raw p)"

lemma loss_ops [simp]: "loss_op (mark_hung r)" "loss_op request_stop" "loss_op mark_stopped"
  by (auto simp: loss_op_def mark_hung_def request_stop_def mark_stopped_def stop_section_def start_hook_def)

lemma on_ready_lost_eq:
  assumes "\<not> shutting_down a" "incoming a = None" "map_of (plugins a) n \<noteq> None"
  shows "\<exists>ps un bl. lost_loop (plugins a) {n} [] = (ps, un, bl) \<and> plugins (on_ready_lost n a) = ps \<and>
    incoming (on_ready_lost n a) = None \<and> \<not> shutting_down (on_ready_lost n a)"
proof -
  obtain ps un bl where l: "lost_loop (plugins a) {n} [] = (ps, un, bl)" by (meson prod_cases3)
  then show ?thesis using assms by (auto simp: on_ready_lost_def fold_keeps)
qed

lemma lose_ok:
  assumes "app_ok xs a" "incoming a = None" "loss_op op"
  shows "app_ok xs (lose op n a) \<and> incoming (lose op n a) = None \<and> map fst (plugins (lose op n a)) = map fst (plugins a) \<and>
    \<not> ready (plugins (lose op n a)) n \<and> (\<forall>m. ready (plugins (lose op n a)) m \<longrightarrow> ready (plugins a) m)"
proof (cases "map_of (plugins a) n")
  case None
  then show ?thesis using assms by (simp add: lose_def instance_of_def)
next
  case (Some p)
  obtain p' b where o: "op p = (p', b)" by fastforce
  then have b: "b \<longleftrightarrow> pstate p = Ready" "pstate p' \<noteq> Ready" "hard_raw p' = hard_raw p"
    using assms(3) unfolding loss_op_def by (metis fst_conv snd_conv)+
  have A: "dict_ok (plugins a)" "\<not> shutting_down a" "supported_in xs (plugins a)" using assms(1) by (simp_all add: app_ok_def)
  let ?u = "put_instance n p' a"
  have u: "plugins ?u = AList.update n p' (plugins a)" "incoming ?u = None" "shutting_down ?u = shutting_down a"
    using Some assms(2) by (simp_all add: put_instance_def)
  have k: "map fst (plugins ?u) = map fst (plugins a)"
    using map_of_SomeD_keys [OF Some] unfolding u(1) by (simp add: update_keys)
  show ?thesis
  proof (cases b)
    case True
    have "\<not> shutting_down ?u" "map_of (plugins ?u) n \<noteq> None" using A(2) u by (simp_all add: dict_simps)
    then obtain ps un bl where l: "lost_loop (plugins ?u) {n} [] = (ps, un, bl)" "plugins (on_ready_lost n ?u) = ps"
        "incoming (on_ready_lost n ?u) = None" "\<not> shutting_down (on_ready_lost n ?u)"
      using on_ready_lost_eq [of ?u n] u(2) by blast
    have e: "lose op n a = on_ready_lost n ?u" using Some o True assms(2) by (simp add: lose_def instance_of_def)
    have "supported_in xs ps \<and> map fst ps = map fst (plugins a) \<and> map_of ps n = Some p' \<and> (\<forall>m. ready ps m \<longrightarrow> ready (plugins a) m)"
      using supported_lost [OF A(3,1) Some b(3,2)] l(1) u(1) by simp
    then show ?thesis using l(2-4) A(1) b(2) unfolding e app_ok_def by (metis option.inject)
  next
    case False
    have e: "lose op n a = ?u" using Some o False assms(2) by (simp add: lose_def instance_of_def)
    have "supported_in xs (plugins ?u)"
      by (rule supported_unready [OF A(3), of n]) (use False b Some u(1) in \<open>auto simp: dict_simps\<close>)
    then show ?thesis using e u A b(2) k by (auto simp: app_ok_def dict_simps)
  qed
qed

text \<open>While \<open>name\<close> starts in the registry and nothing else happens.\<close>

definition starting :: "string list \<Rightarrow> app \<Rightarrow> string \<Rightarrow> app \<Rightarrow> bool" where
  "starting xs a0 name a \<longleftrightarrow> name \<in> set xs \<and> (\<forall>m. ready (plugins a) m \<longrightarrow> m \<in> set xs) \<and> app_ok xs a \<and> incoming a = None \<and> map fst (plugins a) = map fst (plugins a0) \<and>
     (\<forall>m. m \<noteq> name \<longrightarrow> map_of (plugins a) m = map_of (plugins a0) m) \<and>
     (\<exists>p. map_of (plugins a) name = Some p \<and> deps_met xs (plugins a) name p)"

lemma starting_keeps [simp]:
  "starting xs a0 name (publish_event e n a) = starting xs a0 name a"
  "starting xs a0 name (record_state n a) = starting xs a0 name a"
  by (simp_all add: starting_def)

lemma starting_on:
  assumes s: "starting xs a0 name a" and f: "\<And>p. hard_raw (f p) = hard_raw p \<and> (pstate p = Ready \<longrightarrow> pstate (f p) = Ready)"
  shows "starting xs a0 name (on_instance name f a)"
proof -
  obtain p where p: "map_of (plugins a) name = Some p" "deps_met xs (plugins a) name p" and i: "incoming a = None"
    and ok: "app_ok xs a"
    using s unfolding starting_def by blast
  have u: "plugins (on_instance name f a) = AList.update name (f p) (plugins a)" "incoming (on_instance name f a) = None"
      "shutting_down (on_instance name f a) = shutting_down a"
    using p(1) i by (simp_all add: on_instance_def instance_of_def put_instance_def)
  have sup: "supported_in xs (plugins (on_instance name f a))"
    unfolding u(1) by (rule supported_update [OF _ p(1)]) (use ok f p(2) in \<open>auto simp: app_ok_def\<close>)
  have "ready (AList.update name (f p) (plugins a)) d" if "ready (plugins a) d" for d
    using that f p(1) by (auto simp: dict_simps)
  then have "deps_met xs (plugins (on_instance name f a)) name (f p)"
    unfolding u(1) using deps_met_mono [OF p(2)] f by blast
  moreover have "map fst (plugins (on_instance name f a)) = map fst (plugins a)"
    using map_of_SomeD_keys [OF p(1)] unfolding u(1) by (simp add: update_keys)
  ultimately show ?thesis
    using s u sup ok unfolding starting_def by (auto simp: app_ok_def dict_simps)
qed

lemma self_section_keeps:
  "hard_raw (self_section f c p) = hard_raw p \<and> (pstate p = Ready \<longrightarrow> pstate (self_section f c p) = Ready)"
  by (cases c) (auto simp: section_defs)

definition quiet :: "start_input \<Rightarrow> bool" where
  "quiet i \<longleftrightarrow> (\<forall>h\<in>set (during_start i) \<union> set (until_ready i). \<exists>c. h = Itself c)"

lemma starting_happens:
  "starting xs a0 name a \<Longrightarrow> \<forall>h\<in>set hs. \<exists>c. h = Itself c \<Longrightarrow> starting xs a0 name (fold (happen f name) hs a)"
proof (induction hs arbitrary: a)
  case (Cons h hs)
  then obtain c where h: "h = Itself c" by auto
  have "starting xs a0 name (happen f name h a)"
    unfolding h happen.simps by (rule starting_on [OF Cons.prems(1) self_section_keeps])
  then show ?case using Cons.IH Cons.prems(2) by simp
qed simp

lemma on_unready_ok:
  assumes "app_ok xs a" "incoming a = None" "\<And>p. map_of (plugins a) n = Some p \<Longrightarrow> pstate p \<noteq> Ready"
    "\<And>p. pstate p \<noteq> Ready \<Longrightarrow> pstate (f p) \<noteq> Ready"
  shows "app_ok xs (on_instance n f a) \<and> incoming (on_instance n f a) = None \<and>
    map fst (plugins (on_instance n f a)) = map fst (plugins a) \<and> \<not> ready (plugins (on_instance n f a)) n \<and>
    (\<forall>m. ready (plugins (on_instance n f a)) m \<longrightarrow> ready (plugins a) m)"
proof (cases "map_of (plugins a) n")
  case None
  then show ?thesis using assms by (simp add: on_instance_def instance_of_def)
next
  case (Some p)
  have u: "plugins (on_instance n f a) = AList.update n (f p) (plugins a)" "incoming (on_instance n f a) = None"
      "shutting_down (on_instance n f a) = shutting_down a"
    using Some assms(2) by (simp_all add: on_instance_def instance_of_def put_instance_def)
  have n: "pstate p \<noteq> Ready" "pstate (f p) \<noteq> Ready" using assms(3) [OF Some] assms(4) by simp_all
  have "supported_in xs (plugins (on_instance n f a))"
    by (rule supported_unready [of xs "plugins a" n]) (use assms(1) n Some u(1) in \<open>auto simp: dict_simps app_ok_def\<close>)
  moreover have "map fst (plugins (on_instance n f a)) = map fst (plugins a)"
    using map_of_SomeD_keys [OF Some] unfolding u(1) by (simp add: update_keys)
  ultimately show ?thesis using assms(1) u n by (auto simp: app_ok_def dict_simps)
qed

definition settled :: "string list \<Rightarrow> app \<Rightarrow> app \<Rightarrow> bool" where
  "settled xs a0 a \<longleftrightarrow> app_ok xs a \<and> incoming a = None \<and> map fst (plugins a) = map fst (plugins a0) \<and>
     (\<forall>m. ready (plugins a) m \<longrightarrow> m \<in> set xs)"

lemma settled_keeps [simp]:
  "settled xs a0 (publish_event e n a) = settled xs a0 a" "settled xs a0 (record_state n a) = settled xs a0 a"
  "settled xs a0 (fail_plugin n r a) = settled xs a0 a"
  by (simp_all add: settled_def)

lemma settled_lose: "settled xs a0 a \<Longrightarrow> loss_op op \<Longrightarrow> settled xs a0 (lose op n a) \<and> \<not> ready (plugins (lose op n a)) n"
  using lose_ok unfolding settled_def by metis

lemma settled_unready:
  "settled xs a0 a \<Longrightarrow> \<not> ready (plugins a) n \<Longrightarrow> (\<And>p. pstate p \<noteq> Ready \<Longrightarrow> pstate (f p) \<noteq> Ready) \<Longrightarrow>
   settled xs a0 (on_instance n f a) \<and> \<not> ready (plugins (on_instance n f a)) n"
  using on_unready_ok [of xs a n f] unfolding settled_def by metis

lemma unready_sections:
  "pstate p \<noteq> Ready \<Longrightarrow> pstate (cleanup_managed_resources f p) \<noteq> Ready"
  "pstate p \<noteq> Ready \<Longrightarrow> pstate (mark_start_failed r p) \<noteq> Ready" "pstate p \<noteq> Ready \<Longrightarrow> pstate (mark_blocked r p) \<noteq> Ready"
  by (auto simp: section_defs)

lemma settled_give_up:
  "settled xs a0 a \<Longrightarrow> settled xs a0 (give_up f r n a) \<and> \<not> ready (plugins (give_up f r n a)) n"
  unfolding give_up_def
  using settled_lose [of xs a0 a request_stop n] settled_lose [of xs a0 "lose request_stop n a" "mark_hung r" n]
  by (intro settled_unready unready_sections) simp_all

lemma settled_stop:
  assumes "settled xs a0 a"
  shows "settled xs a0 (fst (stop_plugin_with_timeout f c b n a)) \<and> \<not> ready (plugins (fst (stop_plugin_with_timeout f c b n a))) n"
proof -
  let ?a1 = "on_instance n (cleanup_managed_resources f) (lose request_stop n a)"
  have "settled xs a0 (lose request_stop n a)" "\<not> ready (plugins (lose request_stop n a)) n"
    using settled_lose [OF assms, of request_stop n] by simp_all
  then have 1: "settled xs a0 ?a1" "\<not> ready (plugins ?a1) n" using settled_unready unready_sections(1) by blast+
  have "settled xs a0 (on_instance n (mark_start_failed r) ?a1) \<and> \<not> ready (plugins (on_instance n (mark_start_failed r) ?a1)) n" for r
    using settled_unready [OF 1] unready_sections(2) by blast
  then show ?thesis
    using settled_lose [OF 1(1), of mark_stopped n] settled_lose [OF 1(1), of "mark_hung Stop_Timeout" n]
    by (cases c) (simp_all add: stop_plugin_with_timeout_def Let_def)
qed

lemma starting_settled: "starting xs a0 n a \<Longrightarrow> settled xs a0 a"
  by (simp add: starting_def settled_def)

lemma mark_starting_keeps:
  assumes "mark_starting f i j p = (p', r)"
  shows "hard_raw p' = hard_raw p \<and> lifecycle_api p' = lifecycle_api p \<and> (pstate p = Ready \<longleftrightarrow> pstate p' = Ready)"
  using assms
  by (cases "pstate p") (auto simp: mark_starting_def section_defs split: if_splits)

text \<open>A start in the registry: afterwards only \<open>name\<close> may have become ready, and then as the code reports.\<close>

lemma start_keeps:
  assumes s: "starting xs a0 name a" and q: "quiet i" and r: "start_plugin_with_timeout name i a = (a', res)"
  shows "settled xs a0 a' \<and> (res = None \<longrightarrow> starting xs a0 name a')"
proof -
  have inc: "incoming a = None" using s by (simp add: starting_def)
  obtain p where p: "map_of (plugins a) name = Some p" using s by (auto simp: starting_def)
  then have inst: "instance_of name a = Some p" using inc by (simp add: instance_of_def)
  obtain p1 r1 where m: "mark_starting (cleanup_fails i) 0 1 p = (p1, r1)" by fastforce
  note mk = mark_starting_keeps [OF m]
  have on: "put_instance name p1 a = on_instance name (\<lambda>_. p1) a" using inst by (simp add: on_instance_def)
  have put: "starting xs a0 name (put_instance name p1 a)"
  proof -
    have e: "on_instance name (\<lambda>_. p1) a = on_instance name (\<lambda>x. if x = p then p1 else x) a"
      using inst by (simp add: on_instance_def)
    show ?thesis unfolding on e by (rule starting_on [OF s]) (use mk in auto)
  qed
  show ?thesis
  proof (cases r1)
    case (Some e)
    then have "a' = put_instance name p1 a" "res = Some Start_Failed"
      using r inst m by (simp_all add: start_plugin_with_timeout_def)
    then show ?thesis using starting_settled [OF put] by simp
  next
    case None
    let ?a1 = "publish_event Plugin_Starting name (record_state name (put_instance name p1 a))"
    let ?a2 = "fold (happen (cleanup_fails i) name) (during_start i) ?a1"
    let ?a3 = "fold (happen (cleanup_fails i) name) (until_ready i) ?a2"
    have 2: "starting xs a0 name ?a2" by (rule starting_happens) (use put q in \<open>auto simp: quiet_def\<close>)
    have 3: "starting xs a0 name ?a3" by (rule starting_happens [OF 2]) (use q in \<open>auto simp: quiet_def\<close>)
    have g: "settled xs a0 (give_up f c name b)" if "starting xs a0 name b" for f c b
      using settled_give_up starting_settled that by blast
    have w: "starting xs a0 name (on_instance name mark_ready ?a2)"
      "starting xs a0 name (on_instance name (mark_start_failed Start_Failed) ?a2)"
      by (rule starting_on [OF 2], auto simp: section_defs)+
    have e: "(a', res) = (case start_outcome i of
         Hangs \<Rightarrow> (give_up (cleanup_fails i) Start_Timeout name ?a2, Some Start_Timeout)
       | Raises \<Rightarrow> (record_state name (on_instance name (mark_start_failed Start_Failed) ?a2), Some Start_Failed)
       | Returns \<Rightarrow>
           if 2 \<le> lifecycle_api p then
             (case map_option pstate (instance_of name ?a3) of
                Some Ready \<Rightarrow> (?a3, None)
              | Some Failed \<Rightarrow> (?a3, Some Start_Failed)
              | _ \<Rightarrow> (give_up (cleanup_fails i) Ready_Timeout name ?a3, Some Ready_Timeout))
           else (on_instance name mark_ready ?a2, None))"
      using r [symmetric] by (simp only: start_plugin_with_timeout_def Let_def inst m None option.case prod.case)
    show ?thesis
    proof (cases "start_outcome i")
      case Returns
      show ?thesis
      proof (cases "2 \<le> lifecycle_api p")
        case True
        then show ?thesis
          using e Returns 3 starting_settled [OF 3] g [OF 3]
          by (cases "map_option pstate (instance_of name ?a3)" rule: option.exhaust)
            (auto split: plugin_state.splits)
      next
        case False
        then show ?thesis using e Returns w(1) starting_settled [OF w(1)] by simp
      qed
    next
      case Raises
      then show ?thesis using e starting_settled [OF w(2)] by simp
    next
      case Hangs
      then show ?thesis using e g [OF 2] by simp
    qed
  qed
qed

subsection \<open>Startup\<close>

lemma supported_in_append: "supported_in xs ps \<Longrightarrow> supported_in (xs @ ys) ps"
  unfolding supported_in_def deps_met_def using precedes_append by meson

lemma app_ok_append: "app_ok xs a \<Longrightarrow> app_ok (xs @ ys) a"
  by (simp add: app_ok_def supported_in_append)

lemma first_problem_None: "first_problem ps ds = None \<longleftrightarrow> (\<forall>d\<in>set ds. ready ps d)"
  by (induction ds) (auto split: option.splits)

lemma dependency_problem_None:
  "hard_dependency_problem ps p = None \<longleftrightarrow> (\<exists>ds. hard_names p = Some ds \<and> (\<forall>d\<in>set ds. ready ps d))"
  by (auto simp: hard_dependency_problem_def first_problem_None split: option.splits)

lemma settled_delete:
  assumes "settled xs a0 a" "\<not> ready (plugins a) n"
  shows "app_ok xs (a\<lparr>plugins := AList.delete n (plugins a)\<rparr>) \<and> (\<forall>m. ready (AList.delete n (plugins a)) m \<longrightarrow> m \<in> set xs)"
proof -
  have "supported_in xs (AList.delete n (plugins a))"
    by (rule supported_unready [of xs "plugins a" n]) (use assms in \<open>auto simp: settled_def app_ok_def dict_simps\<close>)
  then show ?thesis using assms(1) by (auto simp: settled_def app_ok_def dict_simps split: if_splits)
qed

definition started :: "string list \<Rightarrow> app \<Rightarrow> bool" where
  "started xs a \<longleftrightarrow> app_ok xs a \<and> incoming a = None \<and> (\<forall>m. ready (plugins a) m \<longrightarrow> m \<in> set xs)"

lemma settled_started: "settled xs a0 a \<Longrightarrow> started xs a"
  by (simp add: settled_def started_def)

lemma started_keeps [simp]:
  "started xs (publish_event e n a) = started xs a" "started xs (record_state n a) = started xs a"
  "started xs (fail_plugin n r a) = started xs a"
  by (simp_all add: started_def)

lemma unready_block:
  assumes "settled xs a0 a" "\<not> ready (plugins a) n"
  shows "settled xs a0 (block_plugin n r a) \<and> \<not> ready (plugins (block_plugin n r a)) n"
  unfolding block_plugin_def using settled_unready [OF assms, of "mark_blocked r"] unready_sections(3) by simp

lemma start_one_blocked: "map_of (plugins a) n = Some p \<Longrightarrow> pstate p = Blocked \<Longrightarrow> start_one inputs n a = a"
  by (simp add: start_one_def)

lemma start_one_refused:
  "map_of (plugins a) n = Some p \<Longrightarrow> pstate p \<noteq> Blocked \<Longrightarrow> hard_dependency_problem (plugins a) p = Some r \<Longrightarrow>
   start_one inputs n a = publish_event Plugin_Blocked n (fail_plugin n r (block_plugin n r a))"
  by (simp add: start_one_def)

lemma start_one_unmigrated:
  "map_of (plugins a) n = Some p \<Longrightarrow> pstate p \<noteq> Blocked \<Longrightarrow> hard_dependency_problem (plugins a) p = None \<Longrightarrow>
   \<not> migrates (inputs n) \<Longrightarrow> start_one inputs n a = publish_event Plugin_Blocked n (fail_plugin n Migration_Failed
     (block_plugin n Migration_Failed (on_instance n (cleanup_managed_resources (cleanup_fails (inputs n))) a)))"
  by (simp add: start_one_def)

lemma start_one_late:
  "map_of (plugins a) n = Some p \<Longrightarrow> pstate p \<noteq> Blocked \<Longrightarrow> hard_dependency_problem (plugins a) p = None \<Longrightarrow>
   migrates (inputs n) \<Longrightarrow> \<not> in_time (inputs n) \<Longrightarrow> start_one inputs n a = publish_event Plugin_Blocked n (fail_plugin n Out_Of_Time
     (block_plugin n Out_Of_Time (on_instance n (cleanup_managed_resources (cleanup_fails (inputs n))) a)))"
  by (simp add: start_one_def)

lemma start_one_keeps:
  assumes s: "started xs a" and n: "name \<notin> set xs" and q: "quiet (inputs name)"
  shows "started (xs @ [name]) (start_one inputs name a)"
proof -
  let ?xs = "xs @ [name]"
  have nr: "\<not> ready (plugins a) name" using s n by (auto simp: started_def)
  have st: "settled ?xs a a" using s app_ok_append [of xs a "[name]"] by (auto simp: started_def settled_def)
  show ?thesis
  proof (cases "map_of (plugins a) name")
    case None
    then show ?thesis using settled_started [OF st] by (simp add: start_one_def)
  next
    case (Some p)
    note p = Some
    let ?i = "inputs name" and ?clean = "on_instance name (cleanup_managed_resources (cleanup_fails (inputs name)))"
    have cl: "settled ?xs a (?clean a)" "\<not> ready (plugins (?clean a)) name"
      using settled_unready [OF st nr] unready_sections(1) by blast+
    have blk: "started ?xs (publish_event Plugin_Blocked name (fail_plugin name r (block_plugin name r b)))"
      if "settled ?xs a b" "\<not> ready (plugins b) name" for r b
      using settled_started [OF conjunct1 [OF unready_block [OF that]]] by simp
    show ?thesis
    proof (cases "pstate p = Blocked \<or> hard_dependency_problem (plugins a) p \<noteq> None \<or> \<not> migrates ?i \<or> \<not> in_time ?i")
      case True
      show ?thesis
      proof (cases "pstate p = Blocked")
        case True
        then show ?thesis using settled_started [OF st] start_one_blocked [OF p] by simp
      next
        case False
        show ?thesis
        proof (cases "hard_dependency_problem (plugins a) p")
          case None
          show ?thesis
          proof (cases "migrates ?i")
            case m: True
            then have "\<not> in_time ?i" using True False None by simp
            then show ?thesis using start_one_late [OF p False None, of inputs] m blk [OF cl, of Out_Of_Time] by simp
          next
            case m: False
            then show ?thesis using start_one_unmigrated [OF p False None, of inputs] m blk [OF cl, of Migration_Failed] by simp
          qed
        next
          case (Some r)
          then show ?thesis using start_one_refused [OF p False Some, of inputs] blk [OF st nr, of r] by simp
        qed
      qed
    next
      case False
      then obtain ds where ds: "hard_names p = Some ds" "\<forall>d\<in>set ds. ready (plugins a) d"
        using dependency_problem_None by blast
      have "precedes d name ?xs" if "d \<in> set ds" for d
      proof (rule precedes_end)
        have "ready (plugins a) d" using ds(2) that by blast
        then show "d \<in> set xs" using s unfolding started_def by blast
      qed
      then have "deps_met ?xs (plugins a) name p" using ds by (auto simp: deps_met_def)
      then have sg: "starting ?xs a name a" using st p by (auto simp: starting_def settled_def)
      obtain a1 r where r: "start_plugin_with_timeout name ?i a = (a1, r)" by fastforce
      have k: "settled ?xs a a1" using start_keeps [OF sg q r] by simp
      show ?thesis
      proof (cases r)
        case None
        then show ?thesis using p False r settled_started [OF k] by (simp add: start_one_def Let_def)
      next
        case (Some c)
        let ?a2 = "publish_event Plugin_Crashed name (fail_plugin name c a1)"
        let ?a3 = "fst (stop_plugin_with_timeout (cleanup_fails ?i) (stop_outcome ?i) False name ?a2)"
        let ?a4 = "record_state name (on_instance name (mark_start_failed c) ?a3)"
        have k2: "settled ?xs a ?a2" using k by simp
        have 3: "settled ?xs a ?a3" "\<not> ready (plugins ?a3) name" using settled_stop [OF k2] by blast+
        have m4: "settled ?xs a (on_instance name (mark_start_failed c) ?a3) \<and>
            \<not> ready (plugins (on_instance name (mark_start_failed c) ?a3)) name"
          by (rule settled_unready [OF 3]) (rule unready_sections(2))
        then have 4: "settled ?xs a ?a4" "\<not> ready (plugins ?a4) name" by simp_all
        have d: "started ?xs (?a4\<lparr>plugins := AList.delete name (plugins ?a4)\<rparr>)"
          using settled_delete [OF 4] 4(1) by (simp add: started_def settled_def)
        have "hard_dependency_problem (plugins a) p = None" "pstate p \<noteq> Blocked" "migrates ?i" "in_time ?i" using False by simp_all
        then have e: "start_one inputs name a =
            (if map_option pstate (instance_of name ?a2) = Some Hung then record_state name ?a2
             else if map_option pstate (instance_of name ?a4) = Some Hung then ?a4
             else ?a4\<lparr>plugins := AList.delete name (plugins ?a4)\<rparr>)"
          unfolding start_one_def Let_def p option.case r Some prod.case by (simp only: option.case if_False simp_thms)
        show ?thesis
          unfolding e using settled_started [OF k2] settled_started [OF 4(1)] d by simp
      qed
    qed
  qed
qed

lemma start_all_keeps:
  "started xs a \<Longrightarrow> distinct (xs @ ns) \<Longrightarrow> \<forall>n\<in>set ns. quiet (inputs n) \<Longrightarrow> started (xs @ ns) (fold (start_one inputs) ns a)"
proof (induction ns arbitrary: xs a)
  case (Cons n ns)
  have "started (xs @ [n]) (start_one inputs n a)" using start_one_keeps [OF Cons.prems(1)] Cons.prems(2,3) by simp
  from Cons.IH [OF this] Cons.prems(2,3) show ?case by simp
qed simp

lemma precedes_filter: "precedes a b xs \<Longrightarrow> P a \<Longrightarrow> P b \<Longrightarrow> precedes a b (filter P xs)"
  unfolding precedes_def by fastforce

lemma started_block:
  assumes "started [] a"
  shows "started [] (block_plugin n r a) \<and> map fst (plugins (block_plugin n r a)) = map fst (plugins a)"
proof -
  have "settled [] a a" "\<not> ready (plugins a) n" using assms by (auto simp: started_def settled_def)
  from unready_block [OF this, of r] show ?thesis by (auto simp: started_def settled_def)
qed

lemma started_metadata:
  assumes "started [] a"
  shows "started [] (block_invalid_metadata a) \<and> map fst (plugins (block_invalid_metadata a)) = map fst (plugins a)"
proof -
  let ?f = "\<lambda>(name, p) a. (case metadata_problem name p of None \<Rightarrow> a
    | Some r \<Rightarrow> publish_event Plugin_Blocked name (fail_plugin name r (block_plugin name r a)))"
  have "started [] (fold ?f l b) \<and> map fst (plugins (fold ?f l b)) = map fst (plugins b)" if "started [] b" for l b
    using that
  proof (induction l arbitrary: b)
    case (Cons x l)
    obtain n p where x: "x = (n, p)" by fastforce
    show ?case using Cons.IH [of "?f x b"] Cons.prems started_block [OF Cons.prems, of n]
      by (cases "metadata_problem n p") (simp_all add: x)
  qed simp
  from this [OF assms, of "plugins a"] show ?thesis by (simp only: block_invalid_metadata_def)
qed

lemma started_cycles:
  assumes "started [] a"
  shows "started [] (block_dependency_cycles a) \<and> map fst (plugins (block_dependency_cycles a)) = map fst (plugins a)"
proof -
  let ?f = "\<lambda>(name, members) a. if map_of (plugins a) name = None then a
    else publish_event Plugin_Blocked name (fail_plugin name (Cycle members) (block_plugin name (Cycle members) a))"
  have "started [] (fold ?f l b) \<and> map fst (plugins (fold ?f l b)) = map fst (plugins b)" if "started [] b" for l b
    using that
  proof (induction l arbitrary: b)
    case (Cons x l)
    obtain n p where x: "x = (n, p)" by fastforce
    show ?case using Cons.IH [of "?f x b"] Cons.prems started_block [OF Cons.prems, of n "Cycle p"]
      by (cases "map_of (plugins b) n") (simp_all add: x)
  qed simp
  from this [OF assms, of "dependency_cycles a"] show ?thesis by (simp only: block_dependency_cycles_def)
qed

definition running :: "app \<Rightarrow> bool" where
  "running a \<longleftrightarrow> incoming a = None \<and> app_ok (map fst (plugins a)) a"

lemma reorder_map: "distinct ord \<Longrightarrow>
    map_of (plugins (reorder ord a)) n = (if n \<in> set ord then map_of (plugins a) n else None) \<and>
    map fst (plugins (reorder ord a)) = filter (\<lambda>n. map_of (plugins a) n \<noteq> None) ord"
  unfolding reorder_def by (induction ord) (auto split: option.splits)

lemma started_reorder:
  assumes "started ord a" "distinct ord"
  shows "running (reorder ord a)"
proof -
  let ?b = "reorder ord a"
  note R = reorder_map [OF assms(2), of a]
  have "deps_met (map fst (plugins ?b)) (plugins ?b) n p" if n: "map_of (plugins ?b) n = Some p" "pstate p = Ready" for n p
  proof -
    have an: "map_of (plugins a) n = Some p" using n(1) R [of n] by (simp split: if_splits)
    have "deps_met ord (plugins a) n p" using assms(1) an n(2) unfolding started_def app_ok_def supported_in_def by blast
    then obtain ds where ds: "hard_names p = Some ds" "\<forall>d\<in>set ds. ready (plugins a) d \<and> precedes d n ord"
      unfolding deps_met_def by blast
    have "ready (plugins ?b) d \<and> precedes d n (map fst (plugins ?b))" if "d \<in> set ds" for d
    proof
      have d: "ready (plugins a) d" "precedes d n ord" using ds(2) that by blast+
      then have "d \<in> set ord" using assms(1) unfolding started_def by blast
      then show "ready (plugins ?b) d" using d(1) R [of d] by simp
      show "precedes d n (map fst (plugins ?b))"
        using precedes_filter [OF d(2), of "\<lambda>n. map_of (plugins a) n \<noteq> None"] d(1) an R by auto
    qed
    then show ?thesis using ds(1) by (auto simp: deps_met_def)
  qed
  moreover have "dict_ok (plugins ?b)" using R assms(2) by simp
  moreover have "\<not> shutting_down ?b" "incoming ?b = None" using assms(1) by (simp_all add: reorder_def started_def app_ok_def)
  ultimately show ?thesis unfolding running_def app_ok_def supported_in_def by blast
qed

lemma startup_running:
  assumes "dict_ok ps" "\<forall>(n, p)\<in>set ps. pstate p \<noteq> Ready" "\<forall>n. quiet (inputs n)" "startup inputs (fresh_app ps failed) = Some a"
  shows "running a"
proof -
  have "\<not> ready ps n" for n using assms(2) by (auto dest: map_of_SomeD)
  then have 0: "started [] (fresh_app ps failed)"
    using assms(1) by (auto simp: started_def app_ok_def fresh_app_def supported_in_def)
  let ?b = "block_invalid_metadata (fresh_app ps failed)"
  have b: "started [] ?b" "map fst (plugins ?b) = map fst ps" using started_metadata [OF 0] by (simp_all add: fresh_app_def)
  obtain a1 ord where t: "topo_sort_plugins ?b = Some (a1, ord)"
    and a: "a = reorder ord (fold (start_one inputs) ord (block_dependency_cycles a1))"
    using assms(4) by (auto simp: startup_def split: option.splits)
  have ord: "distinct ord" and a1: "plugins a1 = plugins ?b" "incoming a1 = incoming ?b" "shutting_down a1 = shutting_down ?b"
    using t order_respects_dependencies_base [of "map fst (plugins ?b)"] b(2) assms(1)
    by (auto simp: topo_sort_plugins_def Let_def split: if_splits)
  have "started [] a1" using b(1) a1 by (simp add: started_def app_ok_def)
  then have "started [] (block_dependency_cycles a1)" using started_cycles by blast
  from start_all_keeps [OF this, of ord inputs] ord assms(3) have "started ord (fold (start_one inputs) ord (block_dependency_cycles a1))"
    by simp
  then show ?thesis unfolding a using ord by (rule started_reorder)
qed

subsection \<open>Hot transitions\<close>

lemma running_lose:
  assumes "running a" "loss_op op"
  shows "running (lose op n a)" "\<not> ready (plugins (lose op n a)) n" "map fst (plugins (lose op n a)) = map fst (plugins a)"
  using lose_ok [of "map fst (plugins a)" a op n] assms unfolding running_def by auto

lemma running_settled: "running a \<Longrightarrow> settled (map fst (plugins a)) a a"
  unfolding running_def settled_def by (auto dest: map_of_SomeD_keys)

lemma settled_running:
  assumes "settled xs a0 a" "xs = map fst (plugins a0)"
  shows "running a"
  using assms by (simp add: settled_def running_def)

lemma running_keeps [simp]:
  "running (publish_event e n a) = running a" "running (record_state n a) = running a"
  by (simp_all add: running_def)

lemma running_delete:
  assumes "running a" "\<not> ready (plugins a) n"
  shows "running (a\<lparr>plugins := AList.delete n (plugins a)\<rparr>)"
proof -
  have k: "map fst (AList.delete n (plugins a)) = filter (\<lambda>m. m \<noteq> n) (map fst (plugins a))"
    by (simp add: delete_keys removeAll_filter_not_eq eq_commute [of n])
  have "deps_met (filter (\<lambda>m. m \<noteq> n) (map fst (plugins a))) (AList.delete n (plugins a)) m p"
    if m: "map_of (AList.delete n (plugins a)) m = Some p" "pstate p = Ready" for m p
  proof -
    have am: "map_of (plugins a) m = Some p" "m \<noteq> n" using m(1) by (auto simp: dict_simps split: if_splits)
    then have "deps_met (map fst (plugins a)) (plugins a) m p"
      using assms(1) m(2) unfolding running_def app_ok_def supported_in_def by blast
    then obtain ds where ds: "hard_names p = Some ds" "\<forall>d\<in>set ds. ready (plugins a) d \<and> precedes d m (map fst (plugins a))"
      unfolding deps_met_def by blast
    have "ready (AList.delete n (plugins a)) d \<and> precedes d m (filter (\<lambda>m. m \<noteq> n) (map fst (plugins a)))" if "d \<in> set ds" for d
    proof -
      have "ready (plugins a) d" "precedes d m (map fst (plugins a))" "d \<noteq> n" using ds(2) that assms(2) by blast+
      then show ?thesis using am(2) precedes_filter [of d m _ "\<lambda>m. m \<noteq> n"] by (auto simp: dict_simps)
    qed
    then show ?thesis using ds(1) by (auto simp: deps_met_def)
  qed
  then have "supported_in (map fst (AList.delete n (plugins a))) (AList.delete n (plugins a))"
    unfolding supported_in_def k by blast
  then show ?thesis using assms(1) by (simp add: running_def app_ok_def)
qed

text \<open>While \<open>enable_plugin\<close> works on an instance that is not registered, the registry is left alone.\<close>

definition apart :: "app \<Rightarrow> string \<Rightarrow> plugin \<Rightarrow> app \<Rightarrow> bool" where
  "apart a0 name p0 a \<longleftrightarrow> plugins a = plugins a0 \<and> shutting_down a = shutting_down a0 \<and>
     (\<exists>p. incoming a = Some (name, p) \<and> hard_raw p = hard_raw p0)"

lemma apart_keeps [simp]:
  "apart a0 name p0 (publish_event e n a) = apart a0 name p0 a" "apart a0 name p0 (record_state n a) = apart a0 name p0 a"
  by (simp_all add: apart_def)

lemma apart_on: "apart a0 name p0 a \<Longrightarrow> (\<And>p. hard_raw (f p) = hard_raw p) \<Longrightarrow> apart a0 name p0 (on_instance name f a)"
  by (auto simp: apart_def on_instance_def instance_of_def put_instance_def)

lemma apart_lose:
  assumes "apart a0 name p0 a" "loss_op op"
  shows "apart a0 name p0 (lose op name a)"
proof -
  obtain p where p: "incoming a = Some (name, p)" "hard_raw p = hard_raw p0" using assms(1) by (auto simp: apart_def)
  obtain p' b where o: "op p = (p', b)" by fastforce
  then have "hard_raw p' = hard_raw p" using assms(2) unfolding loss_op_def by (metis fst_conv)
  moreover have "lose op name a = put_instance name p' a"
    using p o by (simp add: lose_def instance_of_def on_ready_lost_def put_instance_def)
  ultimately show ?thesis using assms(1) p by (simp add: apart_def put_instance_def)
qed

lemma same_deps:
  "hard_raw (cleanup_managed_resources f p) = hard_raw p" "hard_raw (mark_start_failed r p) = hard_raw p"
  "hard_raw (mark_blocked r p) = hard_raw p" "hard_raw (mark_ready p) = hard_raw p"
  by (auto simp: section_defs)

lemma apart_happens:
  "apart a0 name p0 a \<Longrightarrow> \<forall>h\<in>set hs. \<exists>c. h = Itself c \<Longrightarrow> apart a0 name p0 (fold (happen f name) hs a)"
proof (induction hs arbitrary: a)
  case (Cons h hs)
  then obtain c where h: "h = Itself c" by auto
  have "apart a0 name p0 (happen f name h a)"
    unfolding h happen.simps by (rule apart_on [OF Cons.prems(1)]) (simp add: self_section_keeps)
  then show ?case using Cons.IH Cons.prems(2) by simp
qed simp

lemma apart_give_up: "apart a0 name p0 a \<Longrightarrow> apart a0 name p0 (give_up f r name a)"
  unfolding give_up_def by (intro apart_on) (simp_all add: apart_lose same_deps)

lemma apart_stop: "apart a0 name p0 a \<Longrightarrow> apart a0 name p0 (fst (stop_plugin_with_timeout f c b name a))"
  unfolding stop_plugin_with_timeout_def Let_def
  by (cases c) (simp_all add: apart_lose apart_on same_deps)

lemma apart_start:
  assumes s: "apart a0 name p0 a" and q: "quiet i"
  shows "apart a0 name p0 (fst (start_plugin_with_timeout name i a))"
proof -
  obtain p where p: "incoming a = Some (name, p)" "hard_raw p = hard_raw p0" using s by (auto simp: apart_def)
  then have inst: "instance_of name a = Some p" by (simp add: instance_of_def)
  obtain p1 r1 where m: "mark_starting (cleanup_fails i) 0 1 p = (p1, r1)" by fastforce
  have put: "apart a0 name p0 (put_instance name p1 a)"
    using s p mark_starting_keeps [OF m] by (simp add: apart_def put_instance_def)
  let ?a1 = "publish_event Plugin_Starting name (record_state name (put_instance name p1 a))"
  let ?a2 = "fold (happen (cleanup_fails i) name) (during_start i) ?a1"
  let ?a3 = "fold (happen (cleanup_fails i) name) (until_ready i) ?a2"
  have 2: "apart a0 name p0 ?a2" by (rule apart_happens) (use put q in \<open>auto simp: quiet_def\<close>)
  have 3: "apart a0 name p0 ?a3" by (rule apart_happens [OF 2]) (use q in \<open>auto simp: quiet_def\<close>)
  have w: "apart a0 name p0 (on_instance name mark_ready ?a2)"
      "apart a0 name p0 (on_instance name (mark_start_failed Start_Failed) ?a2)"
    by (rule apart_on [OF 2], rule same_deps)+
  show ?thesis
  proof (cases r1)
    case (Some e)
    then show ?thesis using put inst m by (simp add: start_plugin_with_timeout_def)
  next
    case None
    have e: "fst (start_plugin_with_timeout name i a) = fst (case start_outcome i of
         Hangs \<Rightarrow> (give_up (cleanup_fails i) Start_Timeout name ?a2, Some Start_Timeout)
       | Raises \<Rightarrow> (record_state name (on_instance name (mark_start_failed Start_Failed) ?a2), Some Start_Failed)
       | Returns \<Rightarrow>
           if 2 \<le> lifecycle_api p then
             (case map_option pstate (instance_of name ?a3) of
                Some Ready \<Rightarrow> (?a3, None)
              | Some Failed \<Rightarrow> (?a3, Some Start_Failed)
              | _ \<Rightarrow> (give_up (cleanup_fails i) Ready_Timeout name ?a3, Some Ready_Timeout))
           else (on_instance name mark_ready ?a2, None))"
      by (simp only: start_plugin_with_timeout_def Let_def inst m None option.case prod.case)
    show ?thesis
      unfolding e using w 3 apart_give_up [OF 2] apart_give_up [OF 3]
      by (cases "start_outcome i") (auto split: option.splits plugin_state.splits)
  qed
qed

lemma running_register:
  assumes r: "running a0" and a: "apart a0 name p0 a" and n: "map_of (plugins a0) name = None"
    and d: "\<And>p. incoming a = Some (name, p) \<Longrightarrow> pstate p = Ready \<Longrightarrow> \<exists>ds. hard_names p0 = Some ds \<and> (\<forall>d\<in>set ds. ready (plugins a0) d)"
  shows "running (register name a)"
proof -
  obtain p where p: "plugins a = plugins a0" "shutting_down a = shutting_down a0" "incoming a = Some (name, p)" "hard_raw p = hard_raw p0"
    using a by (auto simp: apart_def)
  have e: "register name a = a\<lparr>plugins := AList.update name p (plugins a0), incoming := None\<rparr>"
    using p by (simp add: register_def)
  have A: "dict_ok (plugins a0)" "\<not> shutting_down a0" "supported_in (map fst (plugins a0)) (plugins a0)"
    using r by (auto simp: running_def app_ok_def)
  have "name \<notin> set (map fst (plugins a0))" using n by (simp add: map_of_eq_None_iff)
  then have k: "map fst (AList.update name p (plugins a0)) = map fst (plugins a0) @ [name]" by (simp add: update_keys)
  have up: "ready (AList.update name p (plugins a0)) d" if "ready (plugins a0) d" for d
    using that n by (auto simp: dict_simps)
  have "deps_met (map fst (plugins a0) @ [name]) (AList.update name p (plugins a0)) m q"
    if m: "map_of (AList.update name p (plugins a0)) m = Some q" "pstate q = Ready" for m q
  proof (cases "m = name")
    case True
    then have "q = p" using m(1) by (simp add: dict_simps)
    then obtain ds where ds: "hard_names p = Some ds" "\<forall>d\<in>set ds. ready (plugins a0) d" using d [OF p(3)] m(2) p(4) by auto
    have "precedes d name (map fst (plugins a0) @ [name])" if "ready (plugins a0) d" for d
      using that by (intro precedes_end) (auto dest: map_of_SomeD_keys)
    then show ?thesis using ds up True \<open>q = p\<close> unfolding deps_met_def by blast
  next
    case False
    then have "deps_met (map fst (plugins a0)) (plugins a0) m q"
      using A(3) m by (auto simp: supported_in_def dict_simps)
    then show ?thesis unfolding deps_met_def using up precedes_append by meson
  qed
  then have "supported_in (map fst (plugins a0) @ [name]) (AList.update name p (plugins a0))"
    unfolding supported_in_def by blast
  then show ?thesis unfolding e running_def app_ok_def using A p(2) k \<open>name \<notin> set (map fst (plugins a0))\<close> by simp
qed

lemma running_drop: "running a0 \<Longrightarrow> apart a0 name p0 a \<Longrightarrow> running (drop_incoming a)"
  by (auto simp: apart_def running_def app_ok_def drop_incoming_def)

lemma enable_keeps:
  assumes r: "running a" and q: "quiet i" and c: "\<And>p. c = Candidate p \<Longrightarrow> pstate p \<noteq> Ready"
  shows "running (fst (enable_plugin name c i a))"
proof (cases "\<exists>p. c = Candidate p \<and> \<not> shutting_down a \<and> map_of (plugins a) name = None")
  case False
  then show ?thesis using r by (auto simp: enable_plugin_def split: candidate.splits)
next
  case True
  then obtain p where p: "c = Candidate p" "\<not> shutting_down a" "map_of (plugins a) name = None" by blast
  let ?a0 = "a\<lparr>incoming := Some (name, p)\<rparr>" and ?clean = "on_instance name (cleanup_managed_resources (cleanup_fails i))"
  let ?refuse = "\<lambda>r a. publish_event Plugin_Blocked name (block_plugin name r a)"
  have 0: "apart a name p ?a0" by (simp add: apart_def)
  have rf: "apart a name p (?refuse r ?a0)" for r
    unfolding block_plugin_def using apart_on [OF 0, of "mark_blocked r"] by (simp add: same_deps)
  have rfc: "apart a name p (?clean (?refuse r ?a0))" for r by (rule apart_on [OF rf]) (rule same_deps)
  show ?thesis
  proof (cases "metadata_problem name p")
    case (Some m)
    have "pstate p' \<noteq> Ready" if "incoming (?clean (?refuse m ?a0)) = Some (name, p')" for p'
    proof -
      have "p' = cleanup_managed_resources (cleanup_fails i) (mark_blocked m p)"
        using that by (simp add: block_plugin_def on_instance_def instance_of_def put_instance_def)
      then show ?thesis using c [OF p(1)] unready_sections by metis
    qed
    then have "running (register name (?clean (?refuse m ?a0)))" using running_register [OF r rfc p(3)] by blast
    then show ?thesis using p Some by (simp add: enable_plugin_def Let_def)
  next
    case None
    note mp = None
    show ?thesis
    proof (cases "hard_dependency_problem (plugins a) p")
      case (Some m)
      then show ?thesis using p mp running_drop [OF r rf] by (simp add: enable_plugin_def Let_def)
    next
      case None
      then have d: "\<exists>ds. hard_names p = Some ds \<and> (\<forall>d\<in>set ds. ready (plugins a) d)"
        by (rule iffD1 [OF dependency_problem_None])
      have reg: "running (register name b)" if "apart a name p b" for b
        by (rule running_register [OF r that p(3) d])
      obtain a1 res where st: "start_plugin_with_timeout name i ?a0 = (a1, res)" by fastforce
      have 1: "apart a name p a1" using apart_start [OF 0 q] st by simp
      let ?a2 = "publish_event Plugin_Crashed name a1"
      obtain a3 ok where sp: "stop_plugin_with_timeout (cleanup_fails i) (stop_outcome i) False name ?a2 = (a3, ok)" by fastforce
      have "apart a name p ?a2" using 1 by simp
      then have "apart a name p (fst (stop_plugin_with_timeout (cleanup_fails i) (stop_outcome i) False name ?a2))" by (rule apart_stop)
      then have 3: "apart a name p a3" using sp by simp
      have g: "\<not> (shutting_down a \<or> map_of (plugins a) name \<noteq> None)" using p by simp
      have e: "fst (enable_plugin name c i a) =
          (if \<not> migrates i then register name (?clean (?refuse Migration_Failed ?a0))
           else case res of
              None \<Rightarrow> publish_event Plugin_Started name (record_state name (register name a1))
            | Some _ \<Rightarrow> if map_option pstate (instance_of name ?a2) = Some Hung then register name ?a2
                else if \<not> ok \<or> map_option pstate (instance_of name a3) = Some Hung then register name a3 else drop_incoming a3)"
        unfolding enable_plugin_def p(1) if_not_P [OF g] candidate.case Let_def st prod.case mp None option.case
        by (cases res; simp only: option.case sp prod.case fst_conv if_distrib [of fst])
      show ?thesis
        unfolding e using reg [OF rfc] reg [OF 1] reg [OF 3] running_drop [OF r 3] reg [of ?a2] 1
        by (simp split: option.splits)
    qed
  qed
qed

lemma running_stop:
  assumes "running a"
  shows "running (fst (stop_plugin_with_timeout f c b n a)) \<and> \<not> ready (plugins (fst (stop_plugin_with_timeout f c b n a))) n"
  using settled_stop [OF running_settled [OF assms], of f c b n] settled_running by blast

lemma disable_keeps:
  assumes r: "running a"
  shows "running (fst (disable_plugin name f c a))"
proof -
  have 1: "running (publish_event Plugin_Stopping name (lose request_stop name a))" using running_lose(1) [OF r] by simp
  obtain a1 ok where s: "stop_plugin_with_timeout f c True name (publish_event Plugin_Stopping name (lose request_stop name a)) = (a1, ok)"
    by fastforce
  have 2: "running a1" "\<not> ready (plugins a1) name" using running_stop [OF 1, of f c True name] s by simp_all
  have "fst (disable_plugin name f c a) \<in> {a, a1, a1\<lparr>plugins := AList.delete name (plugins a1)\<rparr>}"
    unfolding disable_plugin_def s by (auto split: option.splits bool.splits)
  then show ?thesis using r 2 running_delete [OF 2] by auto
qed

datatype transition =
    Enable string candidate start_input | Disable string "nat \<Rightarrow> bool" call_outcome
  | Gets_Hung string cause | Stop_Requested string | Gets_Stopped string | Own_Call "nat \<Rightarrow> bool" string self_call

text \<open>An own call outside a start: \<open>mark_ready\<close> only recovers a plugin that is ready already.\<close>

primrec transit :: "transition \<Rightarrow> app \<Rightarrow> app" where
  "transit (Enable n c i) a = fst (enable_plugin n c i a)"
| "transit (Disable n f c) a = fst (disable_plugin n f c a)"
| "transit (Gets_Hung n r) a = lose (mark_hung r) n a"
| "transit (Stop_Requested n) a = lose request_stop n a"
| "transit (Gets_Stopped n) a = lose mark_stopped n a"
| "transit (Own_Call f n c) a = on_instance n (\<lambda>p. if pstate p = Starting then p else self_section f c p) a"

definition undisturbed_start :: "transition \<Rightarrow> bool" where
  "undisturbed_start t \<longleftrightarrow> (case t of Enable n c i \<Rightarrow> quiet i \<and> (\<forall>p. c = Candidate p \<longrightarrow> pstate p = Discovered) | _ \<Rightarrow> True)"

lemma own_call_keeps:
  assumes "running a"
  shows "running (on_instance n (\<lambda>p. if pstate p = Starting then p else self_section f c p) a)"
proof (cases "map_of (plugins a) n")
  case None
  then show ?thesis using assms by (simp add: on_instance_def instance_of_def running_def)
next
  case (Some p)
  let ?p = "if pstate p = Starting then p else self_section f c p"
  let ?b = "on_instance n (\<lambda>p. if pstate p = Starting then p else self_section f c p) a"
  have i: "incoming a = None" "app_ok (map fst (plugins a)) a" using assms by (simp_all add: running_def)
  have u: "plugins ?b = AList.update n ?p (plugins a)" "incoming ?b = None" "shutting_down ?b = shutting_down a"
    using Some i(1) by (simp_all add: on_instance_def instance_of_def put_instance_def)
  have k: "map fst (plugins ?b) = map fst (plugins a)"
    using map_of_SomeD_keys [OF Some] unfolding u(1) by (simp add: update_keys)
  have new: "pstate ?p = Ready \<longrightarrow> pstate p = Ready" by (cases c) (auto simp: section_defs split: if_splits)
  have "supported_in (map fst (plugins a)) (AList.update n ?p (plugins a))"
  proof (rule supported_update [OF _ Some])
    show "supported_in (map fst (plugins a)) (plugins a)" using i(2) by (simp add: app_ok_def)
    show "hard_raw ?p = hard_raw p" "pstate p = Ready \<longrightarrow> pstate ?p = Ready" using self_section_keeps [of f c p] by simp_all
    show "pstate ?p = Ready \<longrightarrow> deps_met (map fst (plugins a)) (plugins a) n p"
      using new i(2) Some unfolding app_ok_def supported_in_def by blast
  qed
  then show ?thesis using i(2) u k unfolding running_def app_ok_def by simp
qed

lemma transit_keeps: "running a \<Longrightarrow> undisturbed_start t \<Longrightarrow> running (transit t a)"
  by (cases t) (auto simp: undisturbed_start_def running_lose enable_keeps disable_keeps own_call_keeps)

lemma transits_keep: "running a \<Longrightarrow> \<forall>t\<in>set ts. undisturbed_start t \<Longrightarrow> running (fold transit ts a)"
  by (induction ts arbitrary: a) (simp_all add: transit_keeps)

subsection \<open>A clean startup\<close>

definition well_behaved :: "plugin \<Rightarrow> start_input \<Rightarrow> bool" where
  "well_behaved p i \<longleftrightarrow> migrates i \<and> in_time i \<and> start_outcome i = Returns \<and> during_start i = [] \<and>
     (lifecycle_api p < 2 \<or> until_ready i = [Itself Self_Ready])"

definition wants :: "(string, plugin) pydict \<Rightarrow> string \<Rightarrow> string list" where
  "wants ps n = (case map_of ps n of None \<Rightarrow> [] | Some p \<Rightarrow> the (hard_names p) @ the (dependency_names (soft_raw p)))"

lemma mark_starting_good:
  assumes "pstate p = Discovered"
  shows "\<exists>p1. mark_starting f i j p = (p1, None) \<and> pstate p1 = Starting \<and> lifecycle_api p1 = lifecycle_api p"
  using assms by (simp add: mark_starting_def begin_start_def register_cleanup_def reset_cleanup_def reset_hook_def)

lemma ready_of_starting: "pstate p = Starting \<Longrightarrow> pstate (mark_ready p) = Ready"
  by (simp add: mark_ready_def)

lemma failed_keeps [simp]:
  "failed_plugins (publish_event e n a) = failed_plugins a" "failed_plugins (record_state n a) = failed_plugins a"
  by (auto simp: publish_event_def record_state_def split: option.splits)

lemma on_instance_eq:
  "incoming b = None \<Longrightarrow> map_of (plugins b) n = Some p \<Longrightarrow>
   on_instance n f b = b\<lparr>plugins := AList.update n (f p) (plugins b)\<rparr>"
  by (simp add: on_instance_def instance_of_def put_instance_def)

lemma start_one_good:
  assumes i: "incoming a = None" and p: "map_of (plugins a) n = Some p" "pstate p = Discovered" "well_behaved p (inputs n)"
    and d: "hard_dependency_problem (plugins a) p = None"
  shows "\<exists>p'. plugins (start_one inputs n a) = AList.update n p' (plugins a) \<and> pstate p' = Ready \<and>
    incoming (start_one inputs n a) = None \<and> failed_plugins (start_one inputs n a) = failed_plugins a"
proof -
  let ?i = "inputs n"
  have w: "migrates ?i" "in_time ?i" "start_outcome ?i = Returns" "during_start ?i = []"
      "lifecycle_api p < 2 \<or> until_ready ?i = [Itself Self_Ready]"
    using p(3) by (simp_all add: well_behaved_def)
  obtain p1 where m: "mark_starting (cleanup_fails ?i) 0 1 p = (p1, None)" "pstate p1 = Starting"
    using mark_starting_good [OF p(2)] by blast
  let ?b = "publish_event Plugin_Starting n (record_state n (put_instance n p1 a))"
  have inst: "instance_of n a = Some p" using i p(1) by (simp add: instance_of_def)
  have u: "put_instance n p1 a = a\<lparr>plugins := AList.update n p1 (plugins a)\<rparr>" using i p(1) by (simp add: put_instance_def)
  have b: "incoming ?b = None" "plugins ?b = AList.update n p1 (plugins a)" "failed_plugins ?b = failed_plugins a"
      "map_of (plugins ?b) n = Some p1"
    by (simp_all add: u i dict_simps)
  let ?c = "on_instance n mark_ready ?b"
  have c: "?c = ?b\<lparr>plugins := AList.update n (mark_ready p1) (plugins a)\<rparr>"
    unfolding on_instance_eq [OF b(1,4)] b(2) by simp
  have cr: "instance_of n ?c = Some (mark_ready p1)"
    unfolding c using b by (simp add: instance_of_def dict_simps)
  have "start_plugin_with_timeout n ?i a = (?c, None)"
  proof (cases "2 \<le> lifecycle_api p")
    case True
    then have "until_ready ?i = [Itself Self_Ready]" using w(5) by simp
    then have "fold (happen (cleanup_fails ?i) n) (until_ready ?i) (fold (happen (cleanup_fails ?i) n) (during_start ?i) ?b) = ?c"
      using w(4) by (simp add: self_section.simps(1) [abs_def])
    then show ?thesis
      using True cr ready_of_starting [OF m(2)] w(3)
      by (simp only: start_plugin_with_timeout_def Let_def inst m(1) option.case prod.case call_outcome.case if_True option.map
          plugin_state.case)
  next
    case False
    then show ?thesis
      using w(3,4)
      by (simp only: start_plugin_with_timeout_def Let_def inst m(1) option.case prod.case call_outcome.case if_False fold_simps)
  qed
  then have "start_one inputs n a = publish_event Plugin_Started n (record_state n ?c)"
    using p(1,2) d w(1,2) by (simp add: start_one_def)
  then show ?thesis using b c ready_of_starting [OF m(2)] by auto
qed

lemma start_all_good:
  assumes ord: "distinct (done @ rest)" and i: "incoming a = None" and k: "dict_ok (plugins a)"
    and r: "\<And>n. n \<in> set done \<Longrightarrow> ready (plugins a) n"
    and f: "\<And>n. n \<in> set rest \<Longrightarrow> \<exists>p. map_of (plugins a) n = Some p \<and> pstate p = Discovered \<and> well_behaved p (inputs n) \<and>
      (\<exists>ds. hard_names p = Some ds \<and> (\<forall>d\<in>set ds. precedes d n (done @ rest)))"
  shows "(\<forall>n\<in>set (done @ rest). ready (plugins (fold (start_one inputs) rest a)) n) \<and>
    failed_plugins (fold (start_one inputs) rest a) = failed_plugins a \<and> incoming (fold (start_one inputs) rest a) = None"
  using assms
proof (induction rest arbitrary: "done" a)
  case Nil
  then show ?case by simp
next
  case (Cons n rest)
  obtain p ds where p: "map_of (plugins a) n = Some p" "pstate p = Discovered" "well_behaved p (inputs n)"
    and ds: "hard_names p = Some ds" "\<forall>d\<in>set ds. precedes d n (done @ n # rest)"
    using Cons.prems(5) [of n] by auto
  have "d \<in> set done" if "d \<in> set ds" for d
  proof -
    obtain ys zs where y: "done @ n # rest = ys @ n # zs" "d \<in> set ys" using ds(2) \<open>d \<in> set ds\<close> unfolding precedes_def by blast
    have "n \<notin> set done" "n \<notin> set rest" using Cons.prems(1) by auto
    moreover have "n \<notin> set ys" using Cons.prems(1) unfolding y(1) by simp
    ultimately show ?thesis using y append_Cons_eq_iff [of n "done" rest ys zs] by simp
  qed
  then have "hard_dependency_problem (plugins a) p = None"
    unfolding dependency_problem_None using ds(1) Cons.prems(4) by blast
  from start_one_good [of a n p inputs, OF Cons.prems(2) p this]
  obtain p' where s: "plugins (start_one inputs n a) = AList.update n p' (plugins a)" "pstate p' = Ready"
      "incoming (start_one inputs n a) = None" "failed_plugins (start_one inputs n a) = failed_plugins a" by blast
  have "(\<forall>m\<in>set ((done @ [n]) @ rest). ready (plugins (fold (start_one inputs) rest (start_one inputs n a))) m) \<and>
    failed_plugins (fold (start_one inputs) rest (start_one inputs n a)) = failed_plugins (start_one inputs n a) \<and>
    incoming (fold (start_one inputs) rest (start_one inputs n a)) = None"
  proof (rule Cons.IH)
    show "distinct ((done @ [n]) @ rest)" using Cons.prems(1) by simp
    show "incoming (start_one inputs n a) = None" by (rule s(3))
    show "dict_ok (plugins (start_one inputs n a))" using s(1) Cons.prems(3) by simp
    show "ready (plugins (start_one inputs n a)) m" if "m \<in> set (done @ [n])" for m
      using that Cons.prems(4) s(1,2) by (auto simp: dict_simps)
    fix m assume m: "m \<in> set rest"
    then have "m \<noteq> n" using Cons.prems(1) by auto
    then show "\<exists>p. map_of (plugins (start_one inputs n a)) m = Some p \<and> pstate p = Discovered \<and> well_behaved p (inputs m) \<and>
      (\<exists>ds. hard_names p = Some ds \<and> (\<forall>d\<in>set ds. precedes d m ((done @ [n]) @ rest)))"
      using Cons.prems(5) [of m] m s(1) by (simp add: dict_simps)
  qed
  then show ?case using s(4) by simp
qed

lemma metadata_fine:
  assumes "\<forall>(n, p)\<in>set ps. metadata_problem n p = None" "plugins a = ps"
  shows "block_invalid_metadata a = a"
proof -
  have "fold (\<lambda>(name, p) a. (case metadata_problem name p of None \<Rightarrow> a
    | Some r \<Rightarrow> publish_event Plugin_Blocked name (fail_plugin name r (block_plugin name r a)))) ps b = b" for b
    using assms(1) by (induction ps arbitrary: b) auto
  then show ?thesis using assms(2) by (simp only: block_invalid_metadata_def)
qed

lemma startup_clean:
  assumes k: "dict_ok ps"
    and p: "\<forall>(n, p)\<in>set ps. pstate p = Discovered \<and> metadata_problem n p = None \<and> well_behaved p (inputs n) \<and>
      set (the (hard_names p)) \<subseteq> keys_of ps"
    and ac: "acyclic {(x, y). y \<in> set (wants ps x)}"
  shows "\<exists>a. startup inputs (fresh_app ps failed) = Some a \<and> failed_plugins a = failed \<and>
    set (map fst (plugins a)) = keys_of ps \<and> (\<forall>n\<in>keys_of ps. ready (plugins a) n)"
proof -
  let ?a = "fresh_app ps failed" and ?names = "map fst ps"
  have pl: "plugins ?a = ps" "incoming ?a = None" "failed_plugins ?a = failed" by (simp_all add: fresh_app_def)
  have bm: "block_invalid_metadata ?a = ?a" by (rule metadata_fine [OF _ pl(1)]) (use p in auto)
  have mem: "\<exists>q hs ss. map_of ps n = Some q \<and> (n, q) \<in> set ps \<and> hard_names q = Some hs \<and> dependency_names (soft_raw q) = Some ss"
    if n: "n \<in> keys_of ps" for n
  proof -
    obtain q where q: "map_of ps n = Some q" using n map_of_None_keys [of ps n] by (cases "map_of ps n") auto
    then have m: "(n, q) \<in> set ps" by (rule map_of_SomeD)
    then have "metadata_problem n q = None" using p by auto
    then show ?thesis using q m by (auto simp: metadata_problem_def split: option.splits if_splits)
  qed
  define hard where "hard n = the (order_deps hard_raw ps n)" for n
  define soft where "soft n = the (order_deps soft_raw ps n)" for n
  have deps: "order_deps hard_raw ps n = hard_names q" "order_deps soft_raw ps n = dependency_names (soft_raw q)"
      "wants ps n = the (hard_names q) @ the (dependency_names (soft_raw q))"
    if "map_of ps n = Some q" "(n, q) \<in> set ps" for n q
    using that p by (auto simp: order_deps_def wants_def)
  let ?c = "find_cycles (\<lambda>x. filter (\<lambda>y. y \<in> set ?names) (hard x)) ?names"
  let ?R = "{(x, y). y \<in> set (wants ps x)}"
  have hw: "set (hard n) \<subseteq> set (wants ps n)" "set (soft n) \<subseteq> set (wants ps n)" for n
  proof -
    show "set (hard n) \<subseteq> set (wants ps n)"
      using mem [of n] deps [of n] map_of_None_keys [of ps n] by (cases "n \<in> keys_of ps") (auto simp: hard_def order_deps_def)
    show "set (soft n) \<subseteq> set (wants ps n)"
      using mem [of n] deps [of n] map_of_None_keys [of ps n] by (cases "n \<in> keys_of ps") (auto simp: soft_def order_deps_def)
  qed
  have noc: "map_of ?c n = None" for n
  proof -
    have "(n, n) \<notin> {(a, b). b \<in> set (filter (\<lambda>y. y \<in> set ?names) (hard a))}\<^sup>+"
    proof
      assume "(n, n) \<in> {(a, b). b \<in> set (filter (\<lambda>y. y \<in> set ?names) (hard a))}\<^sup>+"
      then have "(n, n) \<in> ?R\<^sup>+" by (rule trancl_mono) (use hw in auto)
      then show False using ac by (simp add: acyclic_def)
    qed
    moreover have "\<forall>x\<in>set ?names. set (filter (\<lambda>y. y \<in> set ?names) (hard x)) \<subseteq> set ?names" by auto
    ultimately show ?thesis by (simp only: cycles_exact_base simp_thms if_False)
  qed
  then have "?c = []" by (metis list.exhaust map_of_Cons_code(2) not_None_eq prod.exhaust)
  define ord where "ord = topo_order hard soft ?names"
  have t: "topo_sort_plugins ?a = Some (?a\<lparr>dependency_cycles := []\<rparr>, ord)"
  proof -
    have "\<not> (\<exists>n\<in>set ?names. order_deps hard_raw ps n = None \<or> order_deps soft_raw ps n = None)"
      using mem deps by fastforce
    then show ?thesis
      unfolding topo_sort_plugins_def Let_def pl using \<open>?c = []\<close> by (simp add: ord_def hard_def [abs_def] soft_def [abs_def])
  qed
  have B: "distinct ord" "set ord = set ?names"
    and pre: "a \<in> set ?names \<Longrightarrow> b \<in> set ?names \<Longrightarrow> a \<in> set (hard b) \<union> set (soft b) \<Longrightarrow>
      precedes a b ord \<or> (a, b) \<in> {(x, y). y \<in> set (hard x) \<union> set (soft x)}\<^sup>* \<or> map_of ?c b \<noteq> None" for a b
    using order_respects_dependencies_base [OF k, of hard soft] unfolding ord_def by blast+
  let ?b = "?a\<lparr>dependency_cycles := []\<rparr>"
  have bc: "block_dependency_cycles ?b = ?b" by (simp add: block_dependency_cycles_def)
  have G: "(\<forall>n\<in>set ([] @ ord). ready (plugins (fold (start_one inputs) ord ?b)) n) \<and>
    failed_plugins (fold (start_one inputs) ord ?b) = failed_plugins ?b \<and> incoming (fold (start_one inputs) ord ?b) = None"
  proof (rule start_all_good)
    fix n assume "n \<in> set ord"
    then have n: "n \<in> keys_of ps" using B by simp
    obtain q hs where q: "map_of ps n = Some q" "(n, q) \<in> set ps" "hard_names q = Some hs" using mem [OF n] by blast
    have "precedes d n ([] @ ord)" if d: "d \<in> set hs" for d
    proof -
      have "set hs \<subseteq> keys_of ps" using p q(2,3) by fastforce
      then have dn: "d \<in> set (hard n)" "d \<in> set ?names" using d q deps(1) by (auto simp: hard_def)
      have "(d, n) \<notin> {(x, y). y \<in> set (hard x) \<union> set (soft x)}\<^sup>*"
      proof
        assume "(d, n) \<in> {(x, y). y \<in> set (hard x) \<union> set (soft x)}\<^sup>*"
        then have "(d, n) \<in> ?R\<^sup>*" by (rule rtrancl_mono [THEN subsetD, rotated]) (use hw in auto)
        moreover have "(n, d) \<in> ?R" using dn(1) hw(1) by auto
        ultimately have "(n, n) \<in> ?R\<^sup>+" by (rule rtrancl_into_trancl2 [rotated])
        then show False using ac by (simp add: acyclic_def)
      qed
      then show ?thesis using pre [of d n] dn n noc by simp
    qed
    then show "\<exists>p. map_of (plugins ?b) n = Some p \<and> pstate p = Discovered \<and> well_behaved p (inputs n) \<and>
      (\<exists>ds. hard_names p = Some ds \<and> (\<forall>d\<in>set ds. precedes d n ([] @ ord)))"
      using q p by (auto simp: pl)
  qed (use B k in \<open>simp_all add: pl\<close>)
  let ?z = "fold (start_one inputs) ord ?b"
  have s: "startup inputs ?a = Some (reorder ord ?z)" by (simp add: startup_def bm t bc)
  have R: "map_of (plugins (reorder ord ?z)) n = (if n \<in> set ord then map_of (plugins ?z) n else None)"
      "map fst (plugins (reorder ord ?z)) = filter (\<lambda>n. map_of (plugins ?z) n \<noteq> None) ord" for n
    using reorder_map [OF B(1), of ?z n] by simp_all
  have "failed_plugins (reorder ord ?z) = failed" using G by (simp add: reorder_def pl)
  moreover have "set (map fst (plugins (reorder ord ?z))) = keys_of ps" using R(2) G B(2) by auto
  moreover have "\<forall>n\<in>keys_of ps. ready (plugins (reorder ord ?z)) n" using R(1) G B(2) by auto
  ultimately show ?thesis using s by blast
qed

subsection \<open>Shutdown\<close>

lemma precedes_rev: "precedes a b xs \<Longrightarrow> precedes b a (rev xs)"
proof -
  assume "precedes a b xs"
  then obtain ys zs where x: "xs = ys @ b # zs" "a \<in> set ys" unfolding precedes_def by blast
  then obtain y1 y2 where "ys = y1 @ a # y2" by (meson split_list)
  then have "rev xs = (rev zs @ b # rev y2) @ a # rev y1" using x(1) by simp
  then show ?thesis unfolding precedes_def by fastforce
qed

definition ended :: "plugin \<Rightarrow> bool" where
  "ended p \<longleftrightarrow> pstate p \<in> {Stopped, Failed, Hung} \<and> \<not> is_active p"

definition closing :: "app \<Rightarrow> bool" where
  "closing a \<longleftrightarrow> shutting_down a \<and> incoming a = None"

text \<open>What a step of the shutdown may do: it ends \<open>name\<close> and leaves the others as they are.\<close>

definition only_ends :: "string \<Rightarrow> app \<Rightarrow> app \<Rightarrow> bool" where
  "only_ends name a a' \<longleftrightarrow> closing a' \<and> map fst (plugins a') = map fst (plugins a) \<and>
     (\<forall>m. m \<noteq> name \<longrightarrow> map_of (plugins a') m = map_of (plugins a) m) \<and>
     (\<forall>p. map_of (plugins a') name = Some p \<longrightarrow> ended p)"

lemma closing_keeps [simp]:
  "closing (publish_event e n a) = closing a" "closing (record_state n a) = closing a"
  by (simp_all add: closing_def)

lemma closing_lose: "closing a \<Longrightarrow> lose op n a = on_instance n (\<lambda>p. fst (op p)) a"
  by (auto simp: lose_def on_instance_def on_ready_lost_def closing_def put_instance_def split: option.splits prod.splits)

lemma closing_on:
  assumes "closing a"
  shows "closing (on_instance n f a)" "map fst (plugins (on_instance n f a)) = map fst (plugins a)"
    "m \<noteq> n \<Longrightarrow> map_of (plugins (on_instance n f a)) m = map_of (plugins a) m"
    "map_of (plugins (on_instance n f a)) n = map_option f (map_of (plugins a) n)"
proof -
  have i: "incoming a = None" using assms by (simp add: closing_def)
  have "n \<in> set (map fst (plugins a))" if "map_of (plugins a) n = Some p" for p
    using map_of_SomeD_keys [OF that] by simp
  then show "closing (on_instance n f a)" "map fst (plugins (on_instance n f a)) = map fst (plugins a)"
    "m \<noteq> n \<Longrightarrow> map_of (plugins (on_instance n f a)) m = map_of (plugins a) m"
    "map_of (plugins (on_instance n f a)) n = map_option f (map_of (plugins a) n)"
    using assms i
    by (auto simp: on_instance_def instance_of_def put_instance_def closing_def dict_simps update_keys split: option.splits)
qed

lemma only_ends_on:
  assumes "closing a" "\<And>p. ended (f p)"
  shows "only_ends n a (on_instance n f a)"
  using closing_on [OF assms(1)] assms(2) by (auto simp: only_ends_def)

lemma on_on:
  assumes "closing a"
  shows "on_instance n g (on_instance n f a) = on_instance n (\<lambda>p. g (f p)) a"
proof -
  have "incoming a = None" using assms by (simp add: closing_def)
  then show ?thesis
    by (auto simp: on_instance_def instance_of_def put_instance_def dict_simps split: option.splits)
qed

lemma ended_ops:
  "ended (fst (mark_hung r p))" "ended (fst (mark_stopped p))" "pstate p \<in> {Stopping, Failed, Hung} \<Longrightarrow> stop_event p \<Longrightarrow> ended (mark_start_failed r p)"
  "pstate (fst (request_stop p)) \<in> {Stopping, Failed, Hung}" "stop_event (fst (request_stop p))"
  "pstate (cleanup_managed_resources f p) = pstate p" "stop_event (cleanup_managed_resources f p) = stop_event p"
  by (auto simp: ended_def is_active_def section_defs request_stop_def)

lemma only_ends_keeps [simp]:
  "only_ends n a (publish_event e m b) = only_ends n a b" "only_ends n a (record_state m b) = only_ends n a b"
  by (simp_all add: only_ends_def)

lemma only_ends_stop:
  assumes "closing a"
  shows "only_ends n a (fst (stop_plugin_with_timeout f c b n a))"
proof -
  let ?g = "\<lambda>p. cleanup_managed_resources f (fst (request_stop p))"
  have 1: "on_instance n (cleanup_managed_resources f) (lose request_stop n a) = on_instance n ?g a"
    using closing_lose [OF assms, of request_stop n] on_on [OF assms] by simp
  have 2: "closing (on_instance n ?g a)" by (rule closing_on [OF assms])
  have e: "only_ends n a (on_instance n (\<lambda>p. h (?g p)) a)" if "\<And>p. ended (h (?g p))" for h
    by (rule only_ends_on [OF assms]) (rule that)
  have 3: "ended (mark_start_failed Stop_Failed (?g p))" for p
    using ended_ops(4) [of p] ended_ops(5) [of p] ended_ops(6,7) [of f "fst (request_stop p)"] by (intro ended_ops(3)) simp_all
  show ?thesis
    unfolding stop_plugin_with_timeout_def Let_def 1
    using e [of "mark_start_failed Stop_Failed", OF 3] e [of "\<lambda>p. fst (mark_hung Stop_Timeout p)"] e [of "\<lambda>p. fst (mark_stopped p)"]
    by (cases c) (simp_all add: closing_lose [OF 2] on_on [OF assms] ended_ops)
qed

lemma only_ends_cancel: "closing a \<Longrightarrow> only_ends n a (cancel_pending n a)"
  unfolding cancel_pending_def
  using only_ends_on [of a "\<lambda>p. fst (mark_hung Shutdown_Timeout (fst (request_stop p)))" n] closing_on(1) [of a n "\<lambda>p. fst (request_stop p)"]
  by (simp add: closing_lose on_on ended_ops(1))

lemma fold_cancel_ends:
  assumes "closing a" "distinct ns"
  shows "closing (fold cancel_pending ns a) \<and> map fst (plugins (fold cancel_pending ns a)) = map fst (plugins a) \<and>
    (\<forall>m. m \<notin> set ns \<longrightarrow> map_of (plugins (fold cancel_pending ns a)) m = map_of (plugins a) m) \<and>
    (\<forall>m\<in>set ns. \<forall>p. map_of (plugins (fold cancel_pending ns a)) m = Some p \<longrightarrow> ended p)"
  using assms
proof (induction ns arbitrary: a)
  case (Cons n ns)
  have o: "only_ends n a (cancel_pending n a)" by (rule only_ends_cancel [OF Cons.prems(1)])
  then have "closing (cancel_pending n a)" by (simp add: only_ends_def)
  from Cons.IH [OF this] Cons.prems(2) o show ?case by (auto simp: only_ends_def)
qed simp

lemma stop_all_ends:
  assumes "closing a" "distinct ns"
  shows "closing (stop_all inputs ns a) \<and> map fst (plugins (stop_all inputs ns a)) = map fst (plugins a) \<and>
    (\<forall>m. m \<notin> set ns \<longrightarrow> map_of (plugins (stop_all inputs ns a)) m = map_of (plugins a) m) \<and>
    (\<forall>m\<in>set ns. \<forall>p. map_of (plugins (stop_all inputs ns a)) m = Some p \<longrightarrow> ended p)"
  using assms
proof (induction ns arbitrary: a)
  case (Cons n ns)
  let ?i = "inputs n"
  show ?case
  proof (cases "time_left ?i")
    case False
    then have "stop_all inputs (n # ns) a = fold cancel_pending (n # ns) a" by (simp only: stop_all.simps Let_def if_True simp_thms)
    then show ?thesis using fold_cancel_ends [OF Cons.prems] by metis
  next
    case True
    define b where "b = (case map_option pstate (instance_of n a) of
         Some Hung \<Rightarrow> lose request_stop n a
       | Some Blocked \<Rightarrow> lose mark_stopped n (on_instance n (cleanup_managed_resources (fails_stop ?i)) a)
       | _ \<Rightarrow> fst (stop_plugin_with_timeout (fails_stop ?i) (stops ?i) True n a))"
    have inst: "instance_of n a = map_of (plugins a) n" using Cons.prems(1) by (simp add: closing_def instance_of_def)
    have h: "only_ends n a (lose request_stop n a)" if hung: "map_option pstate (instance_of n a) = Some Hung"
    proof -
      obtain p where p: "map_of (plugins a) n = Some p" "pstate p = Hung" using hung inst by auto
      have "ended (fst (request_stop p))" using p(2) by (simp add: ended_def is_active_def request_stop_def stop_section_def start_hook_def)
      then show ?thesis
        unfolding closing_lose [OF Cons.prems(1)] only_ends_def
        using closing_on(1,2) [OF Cons.prems(1), of n] closing_on(3) [OF Cons.prems(1), of _ n]
          closing_on(4) [OF Cons.prems(1), of n "\<lambda>p. fst (request_stop p)"] p(1) by simp
    qed
    have bl: "only_ends n a (lose mark_stopped n (on_instance n (cleanup_managed_resources (fails_stop ?i)) a))"
      using only_ends_on [OF Cons.prems(1), of "\<lambda>p. fst (mark_stopped (cleanup_managed_resources (fails_stop ?i) p))" n]
        closing_on(1) [OF Cons.prems(1)]
      by (simp add: closing_lose on_on [OF Cons.prems(1)] ended_ops(2))
    have o: "only_ends n a b"
    proof (cases "map_option pstate (instance_of n a) = Some Hung")
      case True
      then show ?thesis using h [OF True] unfolding b_def True by simp
    next
      case nh: False
      show ?thesis
      proof (cases "map_option pstate (instance_of n a) = Some Blocked")
        case True
        then show ?thesis using bl unfolding b_def True by simp
      next
        case False
        then have "b = fst (stop_plugin_with_timeout (fails_stop ?i) (stops ?i) True n a)"
          using nh unfolding b_def
          by (cases "map_option pstate (instance_of n a)"; simp only: option.case)
            (simp split: plugin_state.splits)
        then show ?thesis using only_ends_stop [OF Cons.prems(1)] by simp
      qed
    qed
    then have "closing b" by (simp add: only_ends_def)
    moreover have "stop_all inputs (n # ns) a = stop_all inputs ns b" using True by (simp add: b_def Let_def)
    ultimately show ?thesis using Cons.IH [of b] Cons.prems(2) o by (auto simp: only_ends_def)
  qed
qed simp

lemma shutdown_ends:
  assumes "running a" "map_of (plugins (shutdown inputs a)) n = Some p"
  shows "ended p"
proof -
  let ?b = "a\<lparr>shutting_down := True\<rparr>"
  have A: "\<not> shutting_down a" "closing ?b" "distinct (rev (map fst (plugins a)))"
    using assms(1) by (simp_all add: running_def app_ok_def closing_def)
  have e: "shutdown inputs a = stop_all inputs (rev (map fst (plugins a))) ?b" using A(1) by (simp add: shutdown_def)
  note S = stop_all_ends [OF A(2,3), of inputs]
  have "n \<in> set (map fst (plugins (shutdown inputs a)))" using map_of_SomeD_keys [OF assms(2)] by simp
  then have "n \<in> set (rev (map fst (plugins a)))" using S unfolding e by simp
  then show ?thesis using S assms(2) unfolding e by blast
qed

end
