(* ===== verification/Plugin_Guarantees.thy ===== *)
theory Plugin_Guarantees
  imports Plugin_Props
begin

text \<open>
  The properties of the plugin registry, over whole runs of the application, and runs in which a plugin becomes
  ready although its provider is gone, or is given up although it works.
\<close>

subsection \<open>Properties\<close>

text \<open>C7. A provider that is lost takes exactly its ready dependents with it.  When a plugin stops being ready, the
  plugins that are blocked are those that were ready and depend on it through a chain of hard dependencies on plugins
  that were ready as well; every other plugin is as it was.\<close>

theorem loss_reaches_dependents:
  assumes "dict_ok (plugins a)" "\<not> shutting_down a" "incoming a = None" "map_of (plugins a) v \<noteq> None"
    and "map_of (plugins a) n = Some p"
  shows "\<exists>q. map_of (plugins (on_ready_lost v a)) n = Some q \<and>
    (if n \<noteq> v \<and> lost_chain (plugins a) v n then pstate p = Ready \<and> pstate q = Blocked \<and> \<not> is_active q else q = p)"
proof -
  obtain ps un bl where l: "lost_loop (plugins a) {v} [] = (ps, un, bl)" "plugins (on_ready_lost v a) = ps"
    using on_ready_lost_eq [OF assms(2-4)] by blast
  note L = lost_loop_exact [OF assms(1) l(1)]
  show ?thesis
  proof (cases "n \<noteq> v \<and> lost_chain (plugins a) v n")
    case True
    then obtain p' k where "map_of (plugins a) n = Some p'" "pstate p' = Ready" "map_of ps n = Some (blocked_by k p')"
      using L(2) L(4) [of n] by blast
    then show ?thesis
      using True assms(5) l(2) by (simp add: is_active_def blocked_by_def mark_dependency_blocked_def)
  next
    case False
    then have "map_of ps n = Some p" using L(2) L(3) [of n] assms(5) by auto
    then show ?thesis using l(2) by (auto simp only: simp_thms if_False False)
  qed
qed

text \<open>C5. A ready plugin stands on ready plugins.  After a startup and any sequence of enabling, disabling, hangs, stops
  and status reports, in which no other plugin is lost while one starts, every ready plugin has all its hard
  dependencies ready, and they come before it in the registry.\<close>

theorem ready_means_supported:
  assumes "dict_ok ps" "\<forall>(n, p)\<in>set ps. pstate p = Discovered" "\<forall>n. quiet (inputs n)"
    and "startup inputs (fresh_app ps failed) = Some a" "\<forall>t\<in>set ts. undisturbed_start t"
    and "map_of (plugins (fold transit ts a)) n = Some p" "pstate p = Ready"
  shows "\<exists>ds. hard_names p = Some ds \<and> (\<forall>d\<in>set ds. get_ready_plugin d (fold transit ts a) \<noteq> None \<and>
    precedes d n (map fst (plugins (fold transit ts a))))"
proof -
  have "\<forall>(n, p)\<in>set ps. pstate p \<noteq> Ready" using assms(2) by auto
  from startup_running [OF assms(1) this assms(3,4)] have "running (fold transit ts a)" by (rule transits_keep [OF _ assms(5)])
  then have "deps_met (map fst (plugins (fold transit ts a))) (plugins (fold transit ts a)) n p"
    using assms(6,7) unfolding running_def app_ok_def supported_in_def by blast
  then obtain ds where ds: "hard_names p = Some ds" "\<forall>d\<in>set ds. ready (plugins (fold transit ts a)) d \<and>
      precedes d n (map fst (plugins (fold transit ts a)))"
    unfolding deps_met_def by blast
  have "get_ready_plugin d b \<noteq> None" if "ready (plugins b) d" for d b using that by (auto simp: get_ready_plugin_def)
  then show ?thesis using ds by blast
qed



subsection \<open>Concrete plugins\<close>

definition plain :: "int \<Rightarrow> string \<Rightarrow> string list \<Rightarrow> string list \<Rightarrow> plugin" where
  "plain api name hard soft = new_plugin api (Some name) (Entries (map Some hard)) (Entries (map Some soft)) True"

definition good_start :: start_input where
  "good_start =
     \<lparr>cleanup_fails = (\<lambda>_. False), migrates = True, in_time = True, during_start = [], start_outcome = Returns,
      until_ready = [Itself Self_Ready], stop_outcome = Returns\<rparr>"

definition two_plugins :: "(string, plugin) pydict" where
  "two_plugins = [(''bridge'', plain 1 ''bridge'' [''gateway''] []), (''gateway'', plain 2 ''gateway'' [] [])]"

definition two_ready :: "(string, plugin) pydict" where
  "two_ready = plugins (the (startup (\<lambda>_. good_start) (fresh_app two_plugins [])))"

lemma good_quiet: "\<forall>n :: string. quiet good_start"
  by (simp add: quiet_def good_start_def)

lemma two_ok: "dict_ok two_plugins" "\<forall>(n, p)\<in>set two_plugins. pstate p = Discovered"
  by (simp_all add: two_plugins_def plain_def new_plugin_def)

lemma two_started: "\<exists>a. startup (\<lambda>_. good_start) (fresh_app two_plugins []) = Some a \<and> plugins a = two_ready"
proof -
  have "startup (\<lambda>_. good_start) (fresh_app two_plugins []) \<noteq> None" by code_simp
  then show ?thesis by (auto simp: two_ready_def)
qed

lemma two_states: "map (\<lambda>(n, p). (n, pstate p)) two_ready = [(''gateway'', Ready), (''bridge'', Ready)]"
  by code_simp

theorem loss_reaches_dependents_witness:
  "\<exists>q. map_of (plugins (on_ready_lost ''gateway'' (fresh_app two_ready []))) ''bridge'' = Some q \<and> pstate q = Blocked"
proof -
  have k: "dict_ok two_ready" "map_of two_ready ''gateway'' \<noteq> None" by code_simp+
  have "map_option pstate (map_of two_ready ''bridge'') = Some Ready"
    "map_option hard_names (map_of two_ready ''bridge'') = Some (Some [''gateway''])" by code_simp+
  then obtain p where p: "map_of two_ready ''bridge'' = Some p" "pstate p = Ready" "hard_names p = Some [''gateway'']" by auto
  have "lost_chain two_ready ''gateway'' ''bridge''" by (rule Dependent [OF Provider p]) simp
  then show ?thesis
    using loss_reaches_dependents [of "fresh_app two_ready []" "''gateway''" "''bridge''" p] k p(1) by (auto simp: fresh_app_def)
qed

theorem ready_means_supported_witness:
  "\<exists>a ds. startup (\<lambda>_. good_start) (fresh_app two_plugins []) = Some a \<and> ds = [''gateway''] \<and>
     get_ready_plugin ''gateway'' a \<noteq> None"
proof -
  obtain a where a: "startup (\<lambda>_. good_start) (fresh_app two_plugins []) = Some a" "plugins a = two_ready"
    using two_started by blast
  have "map_option pstate (map_of two_ready ''bridge'') = Some Ready"
    "map_option hard_names (map_of two_ready ''bridge'') = Some (Some [''gateway''])" by code_simp+
  then obtain p where p: "map_of (plugins a) ''bridge'' = Some p" "pstate p = Ready" "hard_names p = Some [''gateway'']"
    using a(2) by auto
  from ready_means_supported [OF two_ok good_quiet a(1), of "[]" "''bridge''" p] p a(1) show ?thesis by auto
qed



subsection \<open>Where it does not hold\<close>

definition states :: "app option \<Rightarrow> (string \<times> plugin_state) list" where
  "states a = (case a of None \<Rightarrow> [] | Some b \<Rightarrow> map (\<lambda>(n, p). (n, pstate p)) (plugins b))"

text \<open>The provider hangs while its dependent is inside \<open>start\<close>: the notification skips the dependent, which is
  not ready yet, and nothing looks again, so it becomes ready without its provider.\<close>

theorem dependent_ready_without_provider:
  "states (startup (\<lambda>n. if n = ''bridge'' then good_start\<lparr>during_start := [Other_Hung ''gateway'']\<rparr> else good_start)
     (fresh_app two_plugins [])) = [(''gateway'', Hung), (''bridge'', Ready)]"
  by code_simp

text \<open>A plugin of the second API that has become ready and then loses its provider before the caller looks is
  taken for one that did not become ready in time, and stays hung for good instead of blocked.\<close>

theorem blocked_dependent_given_up:
  "states (startup (\<lambda>n. if n = ''bridge'' then good_start\<lparr>until_ready := [Itself Self_Ready, Other_Hung ''gateway'']\<rparr> else good_start)
     (fresh_app [(''gateway'', plain 1 ''gateway'' [] []), (''bridge'', plain 2 ''bridge'' [''gateway''] [])] [])) =
     [(''gateway'', Hung), (''bridge'', Hung)]"
  by code_simp

text \<open>A plugin of the first API that reports a failure inside \<open>start\<close> and returns is announced as started and kept
  in the registry, although its state is failed.\<close>

theorem failed_start_announced:
  "(case startup (\<lambda>_. good_start\<lparr>during_start := [Itself (Self_Failed (Told ''no radio''))]\<rparr>)
      (fresh_app [(''gateway'', plain 1 ''gateway'' [] [])] []) of
      None \<Rightarrow> False
    | Some a \<Rightarrow> states (Some a) = [(''gateway'', Failed)] \<and> failed_plugins a = [] \<and>
        published a = [(Plugin_Starting, ''gateway''), (Plugin_Started, ''gateway'')])"
  by code_simp

text \<open>A soft dependency of the provider on its dependent makes a startup without any fault fail: the dependent is
  started first and is blocked.\<close>

theorem soft_cycle_blocks_dependent:
  "states (startup (\<lambda>_. good_start)
     (fresh_app [(''gateway'', plain 1 ''gateway'' [] [''hub'']), (''hub'', plain 1 ''hub'' [''gateway''] [])] [])) =
     [(''hub'', Blocked), (''gateway'', Ready)]"
  by code_simp

end
