(* ===== verification/Packet_Ids.thy ===== *)
theory Packet_Ids
  imports Py_Json Py_Text
begin

text \<open>
  \<open>builtin_plugins/meshtastic_gateway.py\<close>: \<open>_DurablePacketIdAllocator\<close>, the packet ids of the MQTT
  client, and the AES-CTR nonces built from them.

  The state file and the node number file have two contents each: what a process reads now and what
  survives a loss of power.  A section that holds the file lock is one operation; the fates of the
  lock, of its reads and of its writes and the random values it draws are its input (\<open>id_io\<close>).  A
  process that is killed inside a section leaves what the section leaves whose next write fails.
\<close>

subsection \<open>Files\<close>

datatype 'a stored = Absent | Unreadable | Holds 'a

record id_files =
  state_now :: "json stored"
  state_safe :: "json stored"
  node_now :: "string stored"
  node_safe :: "string stored"

text \<open>
  \<open>_atomic_write_private_text\<close> fails before \<open>os.replace\<close> (\<open>Untouched\<close>), between it and the end of the
  \<open>fsync\<close> of the directory (\<open>Unsynced\<close>), after it (\<open>Synced_Raised\<close>), or returns (\<open>Committed\<close>).
\<close>

datatype commit = Untouched | Unsynced | Synced_Raised | Committed

definition atomic_write :: "commit \<Rightarrow> 'a \<Rightarrow> 'a stored \<times> 'a stored \<Rightarrow> ('a stored \<times> 'a stored) \<times> bool" where
  "atomic_write c v f =
     (case c of
        Untouched \<Rightarrow> (f, False)
      | Unsynced \<Rightarrow> ((Holds v, snd f), False)
      | Synced_Raised \<Rightarrow> ((Holds v, Holds v), False)
      | Committed \<Rightarrow> ((Holds v, Holds v), True))"

definition write_state :: "commit \<Rightarrow> (string, json) pydict \<Rightarrow> id_files \<Rightarrow> id_files \<times> bool" where
  "write_state c kvs d =
     (let (f, ok) = atomic_write c (JObj kvs) (state_now d, state_safe d)
      in (d\<lparr>state_now := fst f, state_safe := snd f\<rparr>, ok))"

definition show_node :: "int \<Rightarrow> string" where
  "show_node n = show_hex8 n @ [CHR 0x0A]"

definition write_node_num :: "commit \<Rightarrow> int \<Rightarrow> id_files \<Rightarrow> id_files \<times> bool" where
  "write_node_num c n d =
     (let (f, ok) = atomic_write c (show_node n) (node_now d, node_safe d)
      in (d\<lparr>node_now := fst f, node_safe := snd f\<rparr>, ok))"

subsection \<open>Reading the state\<close>

datatype id_error = Packet_Id_State | Packet_Id_Exhausted | Os_Failure | Unhashable | Bad_Block

definition max_packet_id :: int where
  "max_packet_id = 0xFFFFFFFF"

definition pending_text :: string where
  "pending_text = ''pending_node_commit''"

definition complete_text :: string where
  "complete_text = ''complete''"

definition state_payload :: "int \<Rightarrow> int \<Rightarrow> string \<Rightarrow> (string, json) pydict" where
  "state_payload n h e = [(''schema'', JInt 1), (''node_num'', JInt n), (''high_watermark'', JInt h),
     (''enrollment'', JStr e)]"

definition node_range :: "int \<Rightarrow> bool" where
  "node_range n = (0x10000000 \<le> n \<and> n \<le> 0x7FFFFFFF)"

text \<open>\<open>schema != 1 or isinstance(schema, bool)\<close>: Python has \<open>1.0 == 1\<close>.\<close>

definition bad_schema :: "json \<Rightarrow> bool" where
  "bad_schema j = (case j of JInt n \<Rightarrow> n \<noteq> 1 | JFloat x \<Rightarrow> x \<noteq> 1 | _ \<Rightarrow> True)"

definition bad_node :: "json \<Rightarrow> bool" where
  "bad_node j = (case j of JInt n \<Rightarrow> \<not> node_range n | _ \<Rightarrow> True)"

definition bad_watermark :: "json \<Rightarrow> bool" where
  "bad_watermark j = (case j of JInt h \<Rightarrow> \<not> (1 \<le> h \<and> h \<le> max_packet_id) | _ \<Rightarrow> True)"

text \<open>\<open>enrollment not in {...}\<close> hashes the value first: a list or an object raises.\<close>

definition enrollment_error :: "json \<Rightarrow> id_error option" where
  "enrollment_error j =
     (case j of
        JStr s \<Rightarrow> if s = pending_text \<or> s = complete_text then None else Some Packet_Id_State
      | JList _ \<Rightarrow> Some Unhashable
      | JObj _ \<Rightarrow> Some Unhashable
      | _ \<Rightarrow> Some Packet_Id_State)"

definition check_state :: "(string, json) pydict \<Rightarrow> id_error + (string, json) pydict" where
  "check_state kvs =
     (if set (map fst kvs) \<noteq> {''schema'', ''node_num'', ''high_watermark'', ''enrollment''}
      then Inl Packet_Id_State
      else if bad_schema (obj_get kvs ''schema'') then Inl Packet_Id_State
      else if bad_node (obj_get kvs ''node_num'') then Inl Packet_Id_State
      else if bad_watermark (obj_get kvs ''high_watermark'') then Inl Packet_Id_State
      else case enrollment_error (obj_get kvs ''enrollment'') of
             Some e \<Rightarrow> Inl e
           | None \<Rightarrow> Inr kvs)"

definition load_state :: "bool \<Rightarrow> id_files \<Rightarrow> id_error + (string, json) pydict" where
  "load_state readable d =
     (case state_now d of
        Holds (JObj kvs) \<Rightarrow> if readable then check_state kvs else Inl Packet_Id_State
      | _ \<Rightarrow> Inl Packet_Id_State)"

definition json_int :: "json \<Rightarrow> int" where
  "json_int j = (case j of JInt n \<Rightarrow> n | _ \<Rightarrow> 0)"

abbreviation st_node :: "(string, json) pydict \<Rightarrow> int" where
  "st_node kvs \<equiv> json_int (obj_get kvs ''node_num'')"

abbreviation st_mark :: "(string, json) pydict \<Rightarrow> int" where
  "st_mark kvs \<equiv> json_int (obj_get kvs ''high_watermark'')"

abbreviation st_pending :: "(string, json) pydict \<Rightarrow> bool" where
  "st_pending kvs \<equiv> obj_get kvs ''enrollment'' = JStr pending_text"

subsection \<open>Reading the node number\<close>

definition parse_node :: "string \<Rightarrow> int option" where
  "parse_node text =
     (let raw = py_strip text in
      if length raw = 8 \<and> list_all (\<lambda>c. hex_value c \<noteq> None) raw \<and> node_range (hex_num raw)
      then Some (hex_num raw) else None)"

definition load_node_num :: "bool \<Rightarrow> bool \<Rightarrow> id_files \<Rightarrow> id_error + int option" where
  "load_node_num strict readable d =
     (case (case node_now d of Holds s \<Rightarrow> if readable then parse_node s else None | _ \<Rightarrow> None) of
        Some n \<Rightarrow> Inr (Some n)
      | None \<Rightarrow> if strict then Inl Packet_Id_State else Inr None)"

text \<open>
  \<open>0x10000000 + secrets.randbelow(0x70000000)\<close>, drawn until it differs from the number before; \<open>None\<close>
  when the draws of the list do not suffice.
\<close>

primrec new_node_num :: "int option \<Rightarrow> int list \<Rightarrow> int option" where
  "new_node_num previous [] = None"
| "new_node_num previous (r # rs) =
     (let candidate = 0x10000000 + r mod 0x70000000 in
      if Some candidate \<noteq> previous then Some candidate else new_node_num previous rs)"

subsection \<open>The allocator\<close>

record id_io =
  io_lock :: bool
  io_state_read :: bool
  io_node_read :: bool
  io_write1 :: commit
  io_write2 :: commit
  io_write3 :: commit
  io_unlock :: bool
  io_random :: "int list"

record allocator =
  a_node :: int
  a_next :: int
  a_remaining :: int
  a_block :: int

type_synonym 'a id_result = "(id_error + 'a) \<times> allocator \<times> id_files"

definition new_allocator :: "int \<Rightarrow> allocator" where
  "new_allocator block = \<lparr>a_node = 0, a_next = 0, a_remaining = 0, a_block = block\<rparr>"

definition reserve_after ::
  "commit \<Rightarrow> (string, json) pydict \<Rightarrow> allocator \<Rightarrow> id_files \<Rightarrow> unit id_result" where
  "reserve_after c st a d =
     (let high = st_mark st in
      if max_packet_id \<le> high then (Inl Packet_Id_Exhausted, a, d)
      else
        (let size = min (a_block a) (max_packet_id - high);
             (d, ok) = write_state c (AList.update ''high_watermark'' (JInt (high + size)) st) d
         in if \<not> ok then (Inl Os_Failure, a, d)
            else (Inr (), a\<lparr>a_next := high + 1, a_remaining := size\<rparr>, d)))"

text \<open>\<open>initialize_locked\<close> without a state file: \<open>None\<close> stands for a draw that has not ended.\<close>

definition enroll :: "id_io \<Rightarrow> int \<Rightarrow> allocator \<Rightarrow> id_files \<Rightarrow> unit id_result" where
  "enroll io n a d =
     (let pending = state_payload n (a_block a) pending_text;
          (d, ok1) = write_state (io_write1 io) pending d
      in if \<not> ok1 then (Inl Os_Failure, a, d)
         else
           (let (d, ok2) = write_node_num (io_write2 io) n d
            in if \<not> ok2 then (Inl Os_Failure, a, d)
               else
                 (let (d, ok3) = write_state (io_write3 io)
                        (AList.update ''enrollment'' (JStr complete_text) pending) d
                  in if \<not> ok3 then (Inl Os_Failure, a, d)
                     else (Inr (), a\<lparr>a_node := n, a_next := 1, a_remaining := a_block a\<rparr>, d))))"

definition finish_enrollment ::
  "id_io \<Rightarrow> (string, json) pydict \<Rightarrow> allocator \<Rightarrow> id_files \<Rightarrow> unit id_result" where
  "finish_enrollment io st a d =
     (let (d, ok1) = write_node_num (io_write1 io) (st_node st) d
      in if \<not> ok1 then (Inl Os_Failure, a, d)
         else
           (let st' = AList.update ''enrollment'' (JStr complete_text) st;
                (d, ok2) = write_state (io_write2 io) st' d
            in if \<not> ok2 then (Inl Os_Failure, a, d)
               else reserve_after (io_write3 io) st' (a\<lparr>a_node := st_node st\<rparr>) d))"

definition resume :: "id_io \<Rightarrow> (string, json) pydict \<Rightarrow> allocator \<Rightarrow> id_files \<Rightarrow> unit id_result" where
  "resume io st a d =
     (case load_node_num True (io_node_read io) d of
        Inl e \<Rightarrow> (Inl e, a, d)
      | Inr n \<Rightarrow>
          if n \<noteq> Some (st_node st) then (Inl Packet_Id_State, a, d)
          else reserve_after (io_write1 io) st (a\<lparr>a_node := st_node st\<rparr>) d)"

definition drawn_node :: "id_io \<Rightarrow> id_files \<Rightarrow> int option" where
  "drawn_node io d =
     (if state_now d = Absent
      then (case load_node_num False (io_node_read io) d of
              Inl _ \<Rightarrow> None
            | Inr legacy \<Rightarrow> new_node_num legacy (io_random io))
      else None)"

definition initialize_locked :: "id_io \<Rightarrow> allocator \<Rightarrow> id_files \<Rightarrow> unit id_result option" where
  "initialize_locked io a d =
     (if state_now d = Absent
      then (case drawn_node io d of None \<Rightarrow> None | Some n \<Rightarrow> Some (enroll io n a d))
      else Some
        (case load_state (io_state_read io) d of
           Inl e \<Rightarrow> (Inl e, a, d)
         | Inr st \<Rightarrow> if st_pending st then finish_enrollment io st a d else resume io st a d))"

text \<open>The lock may not be obtained, and its release may raise after the callback returned.\<close>

definition release_lock :: "id_io \<Rightarrow> 'a id_result \<Rightarrow> 'a id_result" where
  "release_lock io r = (if io_unlock io then r else (Inl Os_Failure, snd r))"

definition initialize :: "id_io \<Rightarrow> int \<Rightarrow> id_files \<Rightarrow> unit id_result option" where
  "initialize io block d =
     (let a = new_allocator block in
      if \<not> (1 \<le> block \<and> block < max_packet_id) then Some (Inl Bad_Block, a, d)
      else if \<not> io_lock io then Some (Inl Os_Failure, a, d)
      else map_option (release_lock io) (initialize_locked io a d))"

definition reserve_locked :: "id_io \<Rightarrow> allocator \<Rightarrow> id_files \<Rightarrow> unit id_result" where
  "reserve_locked io a d =
     (case load_state (io_state_read io) d of
        Inl e \<Rightarrow> (Inl e, a, d)
      | Inr st \<Rightarrow>
          if st_pending st then (Inl Packet_Id_State, a, d)
          else if st_node st \<noteq> a_node a then (Inl Packet_Id_State, a, d)
          else
            (case load_node_num True (io_node_read io) d of
               Inl e \<Rightarrow> (Inl e, a, d)
             | Inr n \<Rightarrow>
                 if n \<noteq> Some (a_node a) then (Inl Packet_Id_State, a, d)
                 else reserve_after (io_write1 io) st a d))"

definition reserve_more :: "id_io \<Rightarrow> allocator \<Rightarrow> id_files \<Rightarrow> unit id_result" where
  "reserve_more io a d =
     (if \<not> io_lock io then (Inl Os_Failure, a, d) else release_lock io (reserve_locked io a d))"

definition take_id :: "id_io \<Rightarrow> allocator \<Rightarrow> id_files \<Rightarrow> int id_result" where
  "take_id io a d =
     (let (r, a, d) = (if a_remaining a = 0 then reserve_more io a d else (Inr (), a, d))
      in case r of
           Inl e \<Rightarrow> (Inl e, a, d)
         | Inr _ \<Rightarrow>
             (let i = a_next a in
              if \<not> (1 \<le> i \<and> i \<le> max_packet_id) then (Inl Packet_Id_State, a, d)
              else (Inr i, a\<lparr>a_next := a_next a + 1, a_remaining := a_remaining a - 1\<rparr>, d)))"

subsection \<open>The nonce\<close>

definition little_endian :: "nat \<Rightarrow> int \<Rightarrow> int list" where
  "little_endian w n = map (\<lambda>k. n div 256 ^ k mod 256) [0..<w]"

text \<open>\<open>_encrypt_data\<close>, its nonce.\<close>

definition nonce :: "int \<Rightarrow> int \<Rightarrow> int list" where
  "nonce node packet_id = little_endian 8 packet_id @ little_endian 8 node"

subsection \<open>Processes, crashes and the operator\<close>

text \<open>
  \<open>emitted\<close> records the identity and the packet id of every packet, \<open>retired\<close> the identities in use
  when an operator removed the state file; no operation reads them.
\<close>

record id_world =
  files :: id_files
  procs :: "(nat, allocator) pydict"
  emitted :: "(int \<times> int) list"
  retired :: "int list"

datatype id_label =
    Start nat int id_io
  | Take nat id_io
  | Kill nat
  | Power_Loss
  | Writeback
  | Edit_Node "string stored"
  | Drop_State

definition start_step :: "nat \<Rightarrow> int \<Rightarrow> id_io \<Rightarrow> id_world \<Rightarrow> id_world" where
  "start_step p block io w =
     (if map_of (procs w) p \<noteq> None then w
      else case initialize io block (files w) of
             None \<Rightarrow> w
           | Some (Inl e, a, d) \<Rightarrow> w\<lparr>files := d\<rparr>
           | Some (Inr _, a, d) \<Rightarrow> w\<lparr>files := d, procs := AList.update p a (procs w)\<rparr>)"

definition take_step :: "nat \<Rightarrow> id_io \<Rightarrow> id_world \<Rightarrow> id_world" where
  "take_step p io w =
     (case map_of (procs w) p of
        None \<Rightarrow> w
      | Some a \<Rightarrow>
          (let (r, a', d) = take_id io a (files w);
               w = w\<lparr>files := d, procs := AList.update p a' (procs w)\<rparr>
           in case r of
                Inl e \<Rightarrow> w
              | Inr i \<Rightarrow> w\<lparr>emitted := emitted w @ [(a_node a', i)]\<rparr>))"

definition id_step :: "id_world \<Rightarrow> id_label \<Rightarrow> id_world" where
  "id_step w l =
     (let d = files w in
      case l of
        Start p block io \<Rightarrow> start_step p block io w
      | Take p io \<Rightarrow> take_step p io w
      | Kill p \<Rightarrow> w\<lparr>procs := AList.delete p (procs w)\<rparr>
      | Power_Loss \<Rightarrow> w\<lparr>files := d\<lparr>state_now := state_safe d, node_now := node_safe d\<rparr>, procs := []\<rparr>
      | Writeback \<Rightarrow> w\<lparr>files := d\<lparr>state_safe := state_now d, node_safe := node_now d\<rparr>\<rparr>
      | Edit_Node s \<Rightarrow> w\<lparr>files := d\<lparr>node_now := s, node_safe := s\<rparr>\<rparr>
      | Drop_State \<Rightarrow> w\<lparr>files := d\<lparr>state_now := Absent, state_safe := Absent\<rparr>,
            retired := retired w @ map fst (emitted w) @ map (a_node \<circ> snd) (procs w)\<rparr>)"

definition id_run :: "id_world \<Rightarrow> id_label list \<Rightarrow> id_world" where
  "id_run w ls = foldl id_step w ls"

text \<open>The number drawn by an enrollment is none of the retired identities.\<close>

definition fresh_label :: "id_world \<Rightarrow> id_label \<Rightarrow> bool" where
  "fresh_label w l =
     (case l of
        Start p block io \<Rightarrow>
          (case drawn_node io (files w) of None \<Rightarrow> True | Some n \<Rightarrow> n \<notin> set (retired w))
      | _ \<Rightarrow> True)"

primrec fresh_run :: "id_world \<Rightarrow> id_label list \<Rightarrow> bool" where
  "fresh_run w [] = True"
| "fresh_run w (l # ls) = (fresh_label w l \<and> fresh_run (id_step w l) ls)"

definition booted :: "id_world \<Rightarrow> bool" where
  "booted w = (state_safe (files w) = state_now (files w) \<and> procs w = [] \<and> emitted w = [] \<and>
     retired w = [])"

end
