(* ===== verification/Packet_Props.thy ===== *)
theory Packet_Props
  imports Packet_Ids
begin

text \<open>
  What the packet id allocator guarantees: under crashes, losses of power, failing writes and several
  processes no nonce is used twice, an interrupted enrollment is resumed, and unsafe state stops it.
\<close>

subsection \<open>What a state file says\<close>

text \<open>Identity, watermark and whether the enrollment is complete.\<close>

definition view :: "json stored \<Rightarrow> (int \<times> int \<times> bool) option" where
  "view s =
     (case s of
        Holds (JObj kvs) \<Rightarrow>
          (case check_state kvs of
             Inr _ \<Rightarrow> Some (st_node kvs, st_mark kvs, \<not> st_pending kvs)
           | Inl _ \<Rightarrow> None)
      | _ \<Rightarrow> None)"

lemma obj_get_update [simp]:
  "obj_get (AList.update k v kvs) k' = (if k' = k then v else obj_get kvs k')"
  by (simp add: obj_get_def dict_simps)

lemma check_state_Inr: "check_state kvs = Inr st \<Longrightarrow> st = kvs"
  by (simp add: check_state_def split: if_splits option.splits)

lemma check_state_good:
  "check_state kvs = Inr kvs \<longleftrightarrow>
     set (map fst kvs) = {''schema'', ''node_num'', ''high_watermark'', ''enrollment''} \<and>
     \<not> bad_schema (obj_get kvs ''schema'') \<and> \<not> bad_node (obj_get kvs ''node_num'') \<and>
     \<not> bad_watermark (obj_get kvs ''high_watermark'') \<and>
     (obj_get kvs ''enrollment'' = JStr pending_text \<or> obj_get kvs ''enrollment'' = JStr complete_text)"
proof -
  have "enrollment_error j = None \<longleftrightarrow> j = JStr pending_text \<or> j = JStr complete_text" for j
    by (cases j) (auto simp: enrollment_error_def)
  note e = this [of "obj_get kvs ''enrollment''"]
  show ?thesis unfolding e [symmetric]
    by (cases "enrollment_error (obj_get kvs ''enrollment'')") (simp_all add: check_state_def)
qed

lemma view_Some:
  assumes "check_state kvs = Inr kvs"
  shows "view (Holds (JObj kvs)) = Some (st_node kvs, st_mark kvs, \<not> st_pending kvs)"
  using assms by (simp add: view_def)

lemma view_range:
  assumes "view s = Some (n, h, c)"
  shows "node_range n" "1 \<le> h" "h \<le> max_packet_id"
proof -
  obtain kvs where k: "s = Holds (JObj kvs)" "check_state kvs = Inr kvs" "n = st_node kvs" "h = st_mark kvs"
    using assms by (auto simp: view_def split: stored.splits json.splits sum.splits dest: check_state_Inr)
  have "\<not> bad_node (obj_get kvs ''node_num'')" "\<not> bad_watermark (obj_get kvs ''high_watermark'')"
    using k(2) unfolding check_state_good by blast+
  then show "node_range n" "1 \<le> h" "h \<le> max_packet_id"
    unfolding k(3,4) by (auto simp: bad_node_def bad_watermark_def json_int_def split: json.splits)
qed

lemma load_state_view:
  assumes "load_state readable d = Inr st"
  shows "state_now d = Holds (JObj st)" "check_state st = Inr st"
  using assms
  by (auto simp: load_state_def split: stored.splits json.splits if_splits dest: check_state_Inr)

lemma texts_differ [simp]: "pending_text \<noteq> complete_text" "complete_text \<noteq> pending_text"
  by (simp_all add: pending_text_def complete_text_def)

lemma state_payload_fields [simp]:
  "st_node (state_payload n h e) = n" "st_mark (state_payload n h e) = h"
  "obj_get (state_payload n h e) ''enrollment'' = JStr e"
  by (simp_all add: state_payload_def obj_get_def json_int_def)

lemma state_payload_good:
  assumes "node_range n" "1 \<le> h" "h \<le> max_packet_id"
  shows "check_state (state_payload n h pending_text) = Inr (state_payload n h pending_text)"
  using assms unfolding check_state_good
  by (simp add: state_payload_def obj_get_def bad_schema_def bad_node_def bad_watermark_def)

lemma set_mark_good:
  assumes "check_state kvs = Inr kvs" "1 \<le> h" "h \<le> max_packet_id"
  shows "check_state (AList.update ''high_watermark'' (JInt h) kvs) =
      Inr (AList.update ''high_watermark'' (JInt h) kvs)"
proof -
  have "set (map fst (AList.update ''high_watermark'' (JInt h) kvs)) =
      insert ''high_watermark'' (set (map fst kvs))"
    using keys_set [of "''high_watermark''" "JInt h" kvs] by simp
  then show ?thesis using assms unfolding check_state_good by (auto simp: bad_watermark_def)
qed

lemma set_complete_good:
  assumes "check_state kvs = Inr kvs"
  shows "check_state (AList.update ''enrollment'' (JStr complete_text) kvs) =
      Inr (AList.update ''enrollment'' (JStr complete_text) kvs)"
proof -
  have "set (map fst (AList.update ''enrollment'' (JStr complete_text) kvs)) =
      insert ''enrollment'' (set (map fst kvs))"
    using keys_set [of "''enrollment''" "JStr complete_text" kvs] by simp
  then show ?thesis using assms unfolding check_state_good by auto
qed

lemma pending_view:
  assumes "node_range n" "1 \<le> h" "h \<le> max_packet_id"
  shows "view (Holds (JObj (state_payload n h pending_text))) = Some (n, h, False)"
  using view_Some [OF state_payload_good [OF assms]] by simp

lemma complete_view:
  assumes "check_state st = Inr st"
  shows "view (Holds (JObj (AList.update ''enrollment'' (JStr complete_text) st))) =
      Some (st_node st, st_mark st, True)"
  using view_Some [OF set_complete_good [OF assms]] by simp

lemma marked_view:
  assumes "check_state st = Inr st" "\<not> st_pending st" "1 \<le> h" "h \<le> max_packet_id"
  shows "view (Holds (JObj (AList.update ''high_watermark'' (JInt h) st))) = Some (st_node st, h, True)"
  using view_Some [OF set_mark_good [OF assms(1,3,4)]] assms(2) by (simp add: json_int_def)

subsection \<open>Writes move the state forward\<close>

definition follows :: "json stored \<Rightarrow> int \<times> int \<times> bool \<Rightarrow> bool" where
  "follows s v =
     (case v of (n, h, c) \<Rightarrow>
        (case view s of
           None \<Rightarrow> s = Absent
         | Some (n0, h0, c0) \<Rightarrow> n = n0 \<and> h0 \<le> h \<and> (c0 \<longrightarrow> c)))"

definition files_ok :: "id_files \<Rightarrow> bool" where
  "files_ok d = (state_now d = state_safe d \<or>
     (\<exists>v. view (state_now d) = Some v \<and> follows (state_safe d) v))"

text \<open>Id \<open>i\<close> of identity \<open>n\<close> lies below a watermark that survives a loss of power.\<close>

definition covered :: "id_files \<Rightarrow> int \<Rightarrow> int \<Rightarrow> bool" where
  "covered d n i = (\<exists>h h'. view (state_safe d) = Some (n, h, True) \<and>
     view (state_now d) = Some (n, h', True) \<and> i \<le> h \<and> h \<le> h')"

definition nodes_of :: "id_files \<Rightarrow> int set" where
  "nodes_of d = {n. \<exists>h c. view (state_now d) = Some (n, h, c)} \<union>
     {n. \<exists>h c. view (state_safe d) = Some (n, h, c)}"

definition advance :: "int set \<Rightarrow> id_files \<Rightarrow> id_files \<Rightarrow> bool" where
  "advance S d d' = (files_ok d' \<and> (\<forall>n i. covered d n i \<longrightarrow> covered d' n i) \<and>
     nodes_of d' \<subseteq> nodes_of d \<union> S)"

lemma advance_refl [simp]: "advance S d d \<longleftrightarrow> files_ok d"
  by (auto simp: advance_def)

lemma advance_trans: "advance S d d' \<Longrightarrow> advance S d' d'' \<Longrightarrow> advance S d d''"
  by (auto simp: advance_def)

lemma advance_ok: "advance S d d' \<Longrightarrow> files_ok d'"
  by (simp add: advance_def)

lemma follows_trans: "follows s v \<Longrightarrow> follows t w \<Longrightarrow> view t = Some v \<Longrightarrow> follows s w"
  by (auto simp: follows_def split: option.splits prod.splits)

lemma view_Absent [simp]: "view Absent = None"
  by (simp add: view_def)

lemma write_state_advance:
  assumes "files_ok d" "write_state c kvs d = (d', ok)" "view (Holds (JObj kvs)) = Some v"
    "follows (state_now d) v"
  shows "advance {fst v} d d'"
    and "ok \<Longrightarrow> state_now d' = Holds (JObj kvs) \<and> state_safe d' = Holds (JObj kvs)"
    and "node_now d' = node_now d"
proof -
  obtain n h b where v: "v = (n, h, b)" by (cases v)
  have f: "follows (state_safe d) v"
    using assms(1,4) by (auto simp: files_ok_def intro: follows_trans)
  have n: "b \<and> n = N \<and> H \<le> h" if "view (state_now d) = Some (N, H, True)" for N H
    using that assms(4) by (simp add: follows_def v)
  have cov: "covered d' N i" if "covered d N i" for N i
    using that assms(2,3) n
    by (cases c) (fastforce simp: covered_def write_state_def atomic_write_def v)+
  have "files_ok d'"
    using assms(1,2,3) f by (cases c) (auto simp: files_ok_def write_state_def atomic_write_def v)
  moreover have "nodes_of d' \<subseteq> nodes_of d \<union> {fst v}"
    using assms(2,3) by (cases c) (auto simp: nodes_of_def write_state_def atomic_write_def v)
  ultimately show "advance {fst v} d d'" using cov by (simp add: advance_def)
  show "state_now d' = Holds (JObj kvs) \<and> state_safe d' = Holds (JObj kvs)" if ok
    using that assms(2) by (cases c) (auto simp: write_state_def atomic_write_def)
  show "node_now d' = node_now d"
    using assms(2) by (cases c) (auto simp: write_state_def atomic_write_def)
qed

lemma same_states:
  assumes "state_now d' = state_now d" "state_safe d' = state_safe d"
  shows "files_ok d' = files_ok d" "covered d' = covered d" "nodes_of d' = nodes_of d"
  using assms by (simp_all add: files_ok_def covered_def nodes_of_def fun_eq_iff)

lemma write_node_advance:
  assumes "files_ok d" "write_node_num c n d = (d', ok)"
  shows "advance S d d'" "state_now d' = state_now d" "state_safe d' = state_safe d"
    "ok \<Longrightarrow> node_now d' = Holds (show_node n)"
proof -
  show s: "state_now d' = state_now d" "state_safe d' = state_safe d"
    using assms(2) by (auto simp: write_node_num_def split: prod.splits)
  show "ok \<Longrightarrow> node_now d' = Holds (show_node n)"
    using assms(2) by (cases c) (auto simp: write_node_num_def atomic_write_def)
  show "advance S d d'" using assms(1) same_states [OF s] by (simp add: advance_def)
qed

subsection \<open>Reservations\<close>

definition reserved :: "id_files \<Rightarrow> id_files \<Rightarrow> allocator \<Rightarrow> bool" where
  "reserved d d' a = (1 \<le> a_next a \<and> 1 \<le> a_remaining a \<and>
     covered d' (a_node a) (a_next a + a_remaining a - 1) \<and>
     (\<forall>i. covered d (a_node a) i \<longrightarrow> i < a_next a))"

lemma covered_now: "covered d n i \<Longrightarrow> \<exists>h. view (state_now d) = Some (n, h, True) \<and> i \<le> h"
  by (auto simp: covered_def)

lemma reserve_after_ok:
  assumes "files_ok d" "state_now d = Holds (JObj st)" "check_state st = Inr st" "\<not> st_pending st"
    "1 \<le> a_block a" "a_node a = st_node st" "reserve_after c st a d = (r, a', d')"
  shows "advance {st_node st} d d'" "a_node a' = a_node a" "a_block a' = a_block a"
    "r = Inr () \<Longrightarrow> reserved d d' a'" "r \<noteq> Inr () \<Longrightarrow> a' = a"
proof -
  define size where "size = min (a_block a) (max_packet_id - st_mark st)"
  define st' where "st' = AList.update ''high_watermark'' (JInt (st_mark st + size)) st"
  have v: "view (state_now d) = Some (st_node st, st_mark st, True)"
    using view_Some [OF assms(3)] assms(2,4) by simp
  note rng = view_range [OF v]
  have all: "advance {st_node st} d d' \<and> a_node a' = a_node a \<and> a_block a' = a_block a \<and>
      (r = Inr () \<longrightarrow> reserved d d' a') \<and> (r \<noteq> Inr () \<longrightarrow> a' = a)"
  proof (cases "max_packet_id \<le> st_mark st")
    case True
    then show ?thesis using assms(1,7) by (auto simp: reserve_after_def)
  next
    case False
    obtain d1 ok where w: "write_state c st' d = (d1, ok)" by fastforce
    have size: "1 \<le> size" "st_mark st + size \<le> max_packet_id"
      using False assms(5) by (auto simp: size_def)
    have vs: "view (Holds (JObj st')) = Some (st_node st, st_mark st + size, True)"
      unfolding st'_def by (rule marked_view [OF assms(3,4)]) (use size rng in auto)
    have "follows (state_now d) (st_node st, st_mark st + size, True)"
      using size v by (simp add: follows_def)
    note adv = write_state_advance [OF assms(1) w vs this, simplified]
    show ?thesis
    proof (cases ok)
      case True
      then have eq: "r = Inr ()" "a' = a\<lparr>a_next := st_mark st + 1, a_remaining := size\<rparr>" "d' = d1"
        using assms(7) False w by (simp_all add: reserve_after_def Let_def size_def st'_def)
      have "i \<le> st_mark st" if "covered d (st_node st) i" for i
        using covered_now [OF that] v by auto
      moreover have "covered d1 (st_node st) (st_mark st + size)"
        using adv(2) [OF True] vs by (simp add: covered_def)
      ultimately have "reserved d d' a'"
        using rng(2) size(1) assms(6) by (fastforce simp: reserved_def eq)
      then show ?thesis using adv(1) eq by simp
    next
      case False
      then have "r = Inl Os_Failure" "a' = a" "d' = d1"
        using assms(7) \<open>\<not> max_packet_id \<le> st_mark st\<close> w
        by (simp_all add: reserve_after_def Let_def size_def st'_def)
      then show ?thesis using adv(1) by simp
    qed
  qed
  then show "advance {st_node st} d d'" "a_node a' = a_node a" "a_block a' = a_block a"
    "r = Inr () \<Longrightarrow> reserved d d' a'" "r \<noteq> Inr () \<Longrightarrow> a' = a" by blast+
qed

lemma advance_sub: "advance S d d' \<Longrightarrow> S \<subseteq> nodes_of d \<union> T \<Longrightarrow> advance T d d'"
  by (auto simp: advance_def)

lemma node_of_now: "view (state_now d) = Some (n, h, c) \<Longrightarrow> n \<in> nodes_of d"
  by (auto simp: nodes_of_def)

lemma new_node_range: "new_node_num previous rs = Some n \<Longrightarrow> node_range n \<and> previous \<noteq> Some n"
proof (induction rs)
  case (Cons r rs)
  have "0 \<le> r mod 0x70000000" "r mod 0x70000000 < 0x70000000" by simp_all
  then have "node_range (0x10000000 + r mod 0x70000000)" unfolding node_range_def by linarith
  then show ?case using Cons by (auto simp: Let_def split: if_splits)
qed simp

lemma enroll_ok:
  assumes "files_ok d" "state_now d = Absent" "node_range n" "1 \<le> a_block a" "a_block a \<le> max_packet_id"
    "enroll io n a d = (r, a', d')"
  shows "advance {n} d d'" "r = Inr () \<Longrightarrow> a_node a' = n \<and> a_block a' = a_block a \<and> reserved d d' a'"
proof -
  define pending where "pending = state_payload n (a_block a) pending_text"
  define done_st where "done_st = AList.update ''enrollment'' (JStr complete_text) pending"
  have v1: "view (Holds (JObj pending)) = Some (n, a_block a, False)"
    unfolding pending_def by (rule pending_view [OF assms(3-5)])
  have v2: "view (Holds (JObj done_st)) = Some (n, a_block a, True)"
    unfolding done_st_def using complete_view [OF state_payload_good [OF assms(3-5)]] by (simp add: pending_def)
  obtain d1 ok1 where w1: "write_state (io_write1 io) pending d = (d1, ok1)" by fastforce
  obtain d2 ok2 where w2: "write_node_num (io_write2 io) n d1 = (d2, ok2)" by fastforce
  obtain d3 ok3 where w3: "write_state (io_write3 io) done_st d2 = (d3, ok3)" by fastforce
  have "follows (state_now d) (n, a_block a, False)" using assms(2) by (simp add: follows_def)
  note s1 = write_state_advance [OF assms(1) w1 v1 this, simplified]
  note s2 = write_node_advance [OF advance_ok [OF s1(1)] w2]
  have e: "enroll io n a d = (if \<not> ok1 then (Inl Os_Failure, a, d1) else if \<not> ok2 then (Inl Os_Failure, a, d2)
      else if \<not> ok3 then (Inl Os_Failure, a, d3)
      else (Inr (), a\<lparr>a_node := n, a_next := 1, a_remaining := a_block a\<rparr>, d3))"
    using w1 w2 w3 by (simp add: enroll_def Let_def pending_def done_st_def)
  have both: "advance {n} d d' \<and>
      (r = Inr () \<longrightarrow> a_node a' = n \<and> a_block a' = a_block a \<and> reserved d d' a')"
  proof (cases "ok1 \<and> ok2")
    case True
    then have "state_now d2 = Holds (JObj pending)" using s1(2) s2(2) by simp
    then have "follows (state_now d2) (n, a_block a, True)" using v1 by (simp add: follows_def)
    note s3 = write_state_advance [OF advance_ok [OF s2(1)] w3 v2 this, simplified]
    have "advance {n} d d3" using advance_trans [OF advance_trans [OF s1(1) s2(1)] s3(1)] .
    moreover have "covered d3 n (a_block a)" if ok3 using s3(2) [OF that] v2 by (simp add: covered_def)
    moreover have "\<not> covered d n i" for i using assms(2) by (simp add: covered_def)
    ultimately show ?thesis using assms(4,6) True unfolding e by (auto simp: reserved_def split: if_splits)
  next
    case False
    then show ?thesis using assms(6) s1(1) advance_trans [OF s1(1) s2(1)] unfolding e
      by (auto split: if_splits)
  qed
  then show "advance {n} d d'" "r = Inr () \<Longrightarrow> a_node a' = n \<and> a_block a' = a_block a \<and> reserved d d' a'"
    by blast+
qed

lemma finish_enrollment_ok:
  assumes "files_ok d" "state_now d = Holds (JObj st)" "check_state st = Inr st" "st_pending st"
    "1 \<le> a_block a" "finish_enrollment io st a d = (r, a', d')"
  shows "advance {st_node st} d d'"
    "r = Inr () \<Longrightarrow> a_node a' = st_node st \<and> a_block a' = a_block a \<and> reserved d d' a'"
proof -
  define st' where "st' = AList.update ''enrollment'' (JStr complete_text) st"
  have now: "view (state_now d) = Some (st_node st, st_mark st, False)"
    using view_Some [OF assms(3)] assms(2,4) by simp
  have g: "check_state st' = Inr st'" unfolding st'_def by (rule set_complete_good [OF assms(3)])
  have v: "view (Holds (JObj st')) = Some (st_node st, st_mark st, True)"
    unfolding st'_def by (rule complete_view [OF assms(3)])
  obtain d1 ok1 where w1: "write_node_num (io_write1 io) (st_node st) d = (d1, ok1)" by fastforce
  obtain d2 ok2 where w2: "write_state (io_write2 io) st' d1 = (d2, ok2)" by fastforce
  note s1 = write_node_advance [OF assms(1) w1]
  have "follows (state_now d1) (st_node st, st_mark st, True)" using now s1(2) by (simp add: follows_def)
  note s2 = write_state_advance [OF advance_ok [OF s1(1)] w2 v this, simplified]
  have e: "finish_enrollment io st a d = (if \<not> ok1 then (Inl Os_Failure, a, d1) else
      if \<not> ok2 then (Inl Os_Failure, a, d2)
      else reserve_after (io_write3 io) st' (a\<lparr>a_node := st_node st\<rparr>) d2)"
    using w1 w2 by (simp add: finish_enrollment_def Let_def st'_def)
  have both: "advance {st_node st} d d' \<and>
      (r = Inr () \<longrightarrow> a_node a' = st_node st \<and> a_block a' = a_block a \<and> reserved d d' a')"
  proof (cases "ok1 \<and> ok2")
    case True
    then have r: "reserve_after (io_write3 io) st' (a\<lparr>a_node := st_node st\<rparr>) d2 = (r, a', d')"
      using assms(6) e by simp
    have now2: "state_now d2 = Holds (JObj st')" using s2(2) True by simp
    have "\<not> st_pending st'" "st_node st' = st_node st" by (simp_all add: st'_def)
    note s3 = reserve_after_ok [OF advance_ok [OF s2(1)] now2 g this(1) _ _ r]
    have "\<not> covered d n i" for n i using now by (auto simp: covered_def)
    then show ?thesis
      using s3 assms(5) advance_trans [OF advance_trans [OF s1(1) s2(1)]] \<open>st_node st' = st_node st\<close>
      by (auto simp: reserved_def)
  next
    case False
    then show ?thesis using assms(6) s1(1) advance_trans [OF s1(1) s2(1)] unfolding e
      by (auto split: if_splits)
  qed
  then show "advance {st_node st} d d'"
    "r = Inr () \<Longrightarrow> a_node a' = st_node st \<and> a_block a' = a_block a \<and> reserved d d' a'" by blast+
qed

lemma advance_mono: "advance S d d' \<Longrightarrow> S \<subseteq> T \<Longrightarrow> advance T d d'"
  by (auto simp: advance_def)

lemma initialize_locked_ok:
  assumes "files_ok d" "1 \<le> a_block a" "a_block a \<le> max_packet_id"
    "initialize_locked io a d = Some (r, a', d')"
  shows "advance (set_option (drawn_node io d)) d d'"
    "r = Inr () \<Longrightarrow> a_block a' = a_block a \<and> reserved d d' a'"
proof -
  have both: "advance (set_option (drawn_node io d)) d d' \<and>
      (r = Inr () \<longrightarrow> a_block a' = a_block a \<and> reserved d d' a')"
  proof (cases "state_now d = Absent")
    case True
    then obtain n where n: "drawn_node io d = Some n" "enroll io n a d = (r, a', d')"
      using assms(4) by (auto simp: initialize_locked_def split: option.splits)
    obtain legacy where "new_node_num legacy (io_random io) = Some n"
      using n(1) by (simp add: drawn_node_def split: if_splits sum.splits)
    from conjunct1 [OF new_node_range [OF this]] have "node_range n" .
    from enroll_ok [OF assms(1) True this assms(2,3) n(2)] show ?thesis using n(1) by auto
  next
    case False
    note i = assms(4) [unfolded initialize_locked_def]
    show ?thesis
    proof (cases "load_state (io_state_read io) d")
      case (Inl e)
      then show ?thesis using i False assms(1) by auto
    next
      case (Inr st)
      note g = load_state_view [OF Inr]
      have sub: "{st_node st} \<subseteq> nodes_of d \<union> set_option (drawn_node io d)"
        using node_of_now [of d] g(1) view_Some [OF g(2)] by simp
      show ?thesis
      proof (cases "st_pending st")
        case True
        then have "finish_enrollment io st a d = (r, a', d')" using i False Inr by simp
        from finish_enrollment_ok [OF assms(1) g True assms(2) this] show ?thesis
          using advance_sub sub by blast
      next
        case complete: False
        have "r \<noteq> Inr () \<and> d' = d \<or>
            reserve_after (io_write1 io) st (a\<lparr>a_node := st_node st\<rparr>) d = (r, a', d')"
          using i False Inr complete
          by (auto simp: resume_def split: sum.splits if_splits)
        then show ?thesis
        proof
          assume "r \<noteq> Inr () \<and> d' = d"
          then show ?thesis using assms(1) by simp
        next
          assume "reserve_after (io_write1 io) st (a\<lparr>a_node := st_node st\<rparr>) d = (r, a', d')"
          from reserve_after_ok [OF assms(1) g complete _ _ this] show ?thesis
            using advance_sub sub assms(2) by auto
        qed
      qed
    qed
  qed
  then show "advance (set_option (drawn_node io d)) d d'"
    "r = Inr () \<Longrightarrow> a_block a' = a_block a \<and> reserved d d' a'" by blast+
qed

lemma initialize_ok:
  assumes "files_ok d" "initialize io block d = Some (r, a', d')"
  shows "advance (set_option (drawn_node io d)) d d'"
    "r = Inr () \<Longrightarrow> 1 \<le> a_block a' \<and> reserved d d' a'"
proof -
  let ?a = "new_allocator block"
  have both: "advance (set_option (drawn_node io d)) d d' \<and>
      (r = Inr () \<longrightarrow> 1 \<le> a_block a' \<and> reserved d d' a')"
  proof (cases "1 \<le> block \<and> block < max_packet_id \<and> io_lock io")
    case True
    then obtain q where q: "initialize_locked io ?a d = Some q" "(r, a', d') = release_lock io q"
      using assms(2) by (auto simp: initialize_def)
    obtain r0 where q2: "q = (r0, a', d')" "r = Inr () \<Longrightarrow> r0 = Inr ()"
      using q(2) by (cases q) (auto simp: release_lock_def split: if_splits)
    have "1 \<le> a_block ?a" "a_block ?a \<le> max_packet_id" using True by (simp_all add: new_allocator_def)
    from initialize_locked_ok [OF assms(1) this q(1) [unfolded q2(1)]] show ?thesis
      using True q2(2) by (auto simp: new_allocator_def)
  next
    case False
    then show ?thesis using assms by (auto simp: initialize_def Let_def split: if_splits)
  qed
  then show "advance (set_option (drawn_node io d)) d d'"
    "r = Inr () \<Longrightarrow> 1 \<le> a_block a' \<and> reserved d d' a'" by blast+
qed

lemma reserve_more_ok:
  assumes "files_ok d" "1 \<le> a_block a" "reserve_more io a d = (r, a', d')"
  shows "advance {} d d'" "a_node a' = a_node a" "a_block a' = a_block a" "a' = a \<or> reserved d d' a'"
    "r = Inr () \<Longrightarrow> reserved d d' a'"
proof -
  obtain r0 a0 d0 where q: "reserve_locked io a d = (r0, a0, d0)" by (metis prod_cases3)
  have l: "advance {} d d0 \<and> a_node a0 = a_node a \<and> a_block a0 = a_block a \<and>
      (r0 = Inr () \<and> reserved d d0 a0 \<or> r0 \<noteq> Inr () \<and> a0 = a)"
  proof -
    have "r0 \<noteq> Inr () \<and> d0 = d \<and> a0 = a \<or> (\<exists>st. load_state (io_state_read io) d = Inr st \<and>
        \<not> st_pending st \<and> a_node a = st_node st \<and>
        reserve_after (io_write1 io) st a d = (r0, a0, d0))"
      using q by (auto simp: reserve_locked_def split: sum.splits if_splits)
    then show ?thesis
    proof
      assume "r0 \<noteq> Inr () \<and> d0 = d \<and> a0 = a"
      then show ?thesis using assms(1) by simp
    next
      assume "\<exists>st. load_state (io_state_read io) d = Inr st \<and> \<not> st_pending st \<and>
        a_node a = st_node st \<and> reserve_after (io_write1 io) st a d = (r0, a0, d0)"
      then obtain st where st: "load_state (io_state_read io) d = Inr st" "\<not> st_pending st"
        "a_node a = st_node st" "reserve_after (io_write1 io) st a d = (r0, a0, d0)" by blast
      note g = load_state_view [OF st(1)]
      have "{st_node st} \<subseteq> nodes_of d \<union> {}" using node_of_now [of d] g(1) view_Some [OF g(2)] by simp
      with reserve_after_ok [OF assms(1) g st(2) assms(2) st(3,4)] show ?thesis
        using advance_sub by blast
    qed
  qed
  have "a' = a \<and> d' = d \<and> r \<noteq> Inr () \<or> a' = a0 \<and> d' = d0 \<and> (r = Inr () \<longrightarrow> r0 = Inr ())"
    using assms(3) q by (auto simp: reserve_more_def release_lock_def split: if_splits)
  then show "advance {} d d'" "a_node a' = a_node a" "a_block a' = a_block a" "a' = a \<or> reserved d d' a'"
    "r = Inr () \<Longrightarrow> reserved d d' a'"
    using l assms(1) by auto
qed

subsection \<open>The invariant\<close>

definition id_span :: "allocator \<Rightarrow> int set" where
  "id_span a = {a_next a ..< a_next a + a_remaining a}"

definition below_mark :: "id_world \<Rightarrow> int \<Rightarrow> int \<Rightarrow> bool" where
  "below_mark w n i = (n \<in> set (retired w) \<or> covered (files w) n i)"

definition alloc_ok :: "id_world \<Rightarrow> allocator \<Rightarrow> bool" where
  "alloc_ok w a = (node_range (a_node a) \<and> 1 \<le> a_block a \<and> 1 \<le> a_next a \<and> 0 \<le> a_remaining a \<and>
     a_next a + a_remaining a - 1 \<le> max_packet_id \<and>
     below_mark w (a_node a) (a_next a + a_remaining a - 1))"

definition spans_apart :: "(nat, allocator) pydict \<Rightarrow> bool" where
  "spans_apart ps = (\<forall>p q a b. p \<noteq> q \<longrightarrow> map_of ps p = Some a \<longrightarrow> map_of ps q = Some b \<longrightarrow>
     a_node a = a_node b \<longrightarrow> id_span a \<inter> id_span b = {})"

definition unsent :: "(nat, allocator) pydict \<Rightarrow> (int \<times> int) list \<Rightarrow> bool" where
  "unsent ps es = (\<forall>p a i. map_of ps p = Some a \<longrightarrow> (a_node a, i) \<in> set es \<longrightarrow> i \<notin> id_span a)"

definition sent_ok :: "id_world \<Rightarrow> int \<Rightarrow> int \<Rightarrow> bool" where
  "sent_ok w n i = (node_range n \<and> 1 \<le> i \<and> i \<le> max_packet_id \<and> below_mark w n i)"

definition ids_ok :: "id_world \<Rightarrow> bool" where
  "ids_ok w = (files_ok (files w) \<and> nodes_of (files w) \<inter> set (retired w) = {} \<and>
     (\<forall>p a. map_of (procs w) p = Some a \<longrightarrow> alloc_ok w a) \<and>
     (\<forall>n i. (n, i) \<in> set (emitted w) \<longrightarrow> sent_ok w n i) \<and>
     spans_apart (procs w) \<and> unsent (procs w) (emitted w) \<and> distinct (emitted w))"

lemma ids_okD:
  assumes "ids_ok w"
  shows "files_ok (files w)" "nodes_of (files w) \<inter> set (retired w) = {}"
    "map_of (procs w) p = Some a \<Longrightarrow> alloc_ok w a" "(n, i) \<in> set (emitted w) \<Longrightarrow> sent_ok w n i"
    "spans_apart (procs w)" "unsent (procs w) (emitted w)" "distinct (emitted w)"
  using assms unfolding ids_ok_def by blast+

lemma spans_apart_update:
  assumes "spans_apart ps"
    and "\<And>q b. q \<noteq> p \<Longrightarrow> map_of ps q = Some b \<Longrightarrow> a_node b = a_node a \<Longrightarrow> id_span a \<inter> id_span b = {}"
  shows "spans_apart (AList.update p a ps)"
  unfolding spans_apart_def
proof (intro allI impI)
  fix q r b c
  assume "q \<noteq> r" "map_of (AList.update p a ps) q = Some b" "map_of (AList.update p a ps) r = Some c"
    "a_node b = a_node c"
  then show "id_span b \<inter> id_span c = {}"
    using assms(1) assms(2) [of q b] assms(2) [of r c] unfolding spans_apart_def
    by (auto simp: dict_simps split: if_splits)
qed

lemma spans_apart_delete: "spans_apart ps \<Longrightarrow> spans_apart (AList.delete p ps)"
  unfolding spans_apart_def by (auto simp: dict_simps split: if_splits)

lemma unsent_update:
  assumes "unsent ps es" "\<And>i. (a_node a, i) \<in> set es \<Longrightarrow> i \<notin> id_span a"
  shows "unsent (AList.update p a ps) es"
  using assms unfolding unsent_def by (auto simp: dict_simps split: if_splits)

lemma unsent_send:
  assumes "unsent ps es" "\<And>q b. map_of ps q = Some b \<Longrightarrow> a_node b = n \<Longrightarrow> i \<notin> id_span b"
  shows "unsent ps (es @ [(n, i)])"
  using assms unfolding unsent_def by auto

lemma covered_node: "covered d n i \<Longrightarrow> n \<in> nodes_of d \<and> node_range n \<and> i \<le> max_packet_id"
  using view_range by (fastforce simp: covered_def nodes_of_def)

lemma below_mark_advance:
  "advance S (files w) d \<Longrightarrow> below_mark w n i \<Longrightarrow> below_mark (w\<lparr>files := d\<rparr>) n i"
  by (auto simp: below_mark_def advance_def)

lemma ids_ok_advance:
  assumes "ids_ok w" "advance S (files w) d" "S \<inter> set (retired w) = {}"
  shows "ids_ok (w\<lparr>files := d\<rparr>)"
proof -
  have "files_ok d" "nodes_of d \<inter> set (retired w) = {}"
    using assms unfolding advance_def ids_ok_def by blast+
  then show ?thesis using assms(1) below_mark_advance [OF assms(2)]
    by (simp add: ids_ok_def alloc_ok_def sent_ok_def)
qed

lemma below_mark_cong [simp]:
  "below_mark (w\<lparr>procs := ps\<rparr>) = below_mark w" "below_mark (w\<lparr>emitted := es\<rparr>) = below_mark w"
  by (simp_all add: below_mark_def fun_eq_iff)

lemma alloc_ok_cong [simp]:
  "alloc_ok (w\<lparr>procs := ps\<rparr>) = alloc_ok w" "alloc_ok (w\<lparr>emitted := es\<rparr>) = alloc_ok w"
  "sent_ok (w\<lparr>procs := ps\<rparr>) = sent_ok w" "sent_ok (w\<lparr>emitted := es\<rparr>) = sent_ok w"
  by (simp_all add: alloc_ok_def sent_ok_def fun_eq_iff)

text \<open>A process gets a fresh block.\<close>

lemma ids_ok_grant:
  assumes "ids_ok w" "advance S (files w) d" "S \<inter> set (retired w) = {}"
    "reserved (files w) d a" "1 \<le> a_block a"
  shows "ids_ok (w\<lparr>files := d, procs := AList.update p a (procs w)\<rparr>)"
proof -
  let ?v = "w\<lparr>files := d\<rparr>"
  have v: "ids_ok ?v" by (rule ids_ok_advance [OF assms(1-3)])
  have cov: "covered d (a_node a) (a_next a + a_remaining a - 1)" using assms(4) by (simp add: reserved_def)
  note node = covered_node [OF this]
  have live: "a_node a \<notin> set (retired w)" using node ids_okD(2) [OF v] by auto
  have ok: "alloc_ok ?v a" using assms(4,5) node cov by (simp add: alloc_ok_def reserved_def below_mark_def)
  have old: "i < a_next a" if "below_mark w (a_node a) i" for i
    using that assms(4) live by (simp add: below_mark_def reserved_def)
  have em: "i \<notin> id_span a" if "(a_node a, i) \<in> set (emitted w)" for i
    using old [of i] ids_okD(4) [OF assms(1) that] by (simp add: sent_ok_def id_span_def)
  have apart: "id_span a \<inter> id_span b = {}" if "map_of (procs w) q = Some b" "a_node b = a_node a" for q b
  proof -
    have "alloc_ok w b" by (rule ids_okD(3) [OF assms(1) that(1)])
    then have "a_next b + a_remaining b - 1 < a_next a" using old that(2) by (simp add: alloc_ok_def)
    then show ?thesis by (auto simp: id_span_def)
  qed
  have "spans_apart (AList.update p a (procs w))"
    by (rule spans_apart_update [OF ids_okD(5) [OF assms(1)]]) (rule apart)
  moreover have "unsent (AList.update p a (procs w)) (emitted w)"
    by (rule unsent_update [OF ids_okD(6) [OF assms(1)]]) (rule em)
  ultimately show ?thesis
    using ok ids_okD [OF v] by (simp add: ids_ok_def dict_simps)
qed

text \<open>A process sends with the first id of its block.\<close>

lemma ids_ok_emit:
  assumes "ids_ok w" "map_of (procs w) p = Some a" "1 \<le> a_remaining a"
  defines "b \<equiv> a\<lparr>a_next := a_next a + 1, a_remaining := a_remaining a - 1\<rparr>"
  shows "ids_ok (w\<lparr>procs := AList.update p b (procs w), emitted := emitted w @ [(a_node a, a_next a)]\<rparr>)"
proof -
  have a: "alloc_ok w a" by (rule ids_okD(3) [OF assms(1,2)])
  have sent: "sent_ok w (a_node a) (a_next a)"
    using a assms(3) by (auto simp: alloc_ok_def sent_ok_def below_mark_def covered_def)
  have b: "alloc_ok w b" using a assms(3) by (simp add: alloc_ok_def b_def)
  have sp: "id_span b = id_span a - {a_next a}" "a_next a \<in> id_span a" "a_node b = a_node a"
    using assms(3) by (auto simp: id_span_def b_def)
  have free: "i \<notin> id_span a" if "(a_node a, i) \<in> set (emitted w)" for i
    using that ids_okD(6) [OF assms(1)] assms(2) by (auto simp: unsent_def)
  have apart: "id_span a \<inter> id_span c = {}"
    if "q \<noteq> p" "map_of (procs w) q = Some c" "a_node c = a_node a" for q c
    using that ids_okD(5) [OF assms(1)] assms(2) unfolding spans_apart_def by metis
  have "spans_apart (AList.update p b (procs w))"
    by (rule spans_apart_update [OF ids_okD(5) [OF assms(1)]]) (use apart sp in auto)
  moreover have "unsent (AList.update p b (procs w)) (emitted w)"
    by (rule unsent_update [OF ids_okD(6) [OF assms(1)]]) (use free sp in auto)
  then have "unsent (AList.update p b (procs w)) (emitted w @ [(a_node a, a_next a)])"
    by (rule unsent_send) (use apart sp in \<open>auto simp: dict_simps split: if_splits\<close>)
  moreover have "(a_node a, a_next a) \<notin> set (emitted w)" using free sp(2) by blast
  ultimately show ?thesis
    using b sent ids_okD [OF assms(1)] by (auto simp: ids_ok_def dict_simps)
qed

lemma power_loss_advance:
  "advance {} d (d\<lparr>state_now := state_safe d, node_now := node_safe d\<rparr>)"
  "files_ok d \<Longrightarrow> advance {} d (d\<lparr>state_safe := state_now d, node_safe := node_now d\<rparr>)"
  "files_ok d \<Longrightarrow> advance {} d (d\<lparr>node_now := s, node_safe := s\<rparr>)"
  by (auto simp: advance_def files_ok_def covered_def nodes_of_def)

lemma ids_ok_update_same:
  assumes "ids_ok w" "map_of (procs w) p = Some a"
  shows "ids_ok (w\<lparr>procs := AList.update p a (procs w)\<rparr>)"
proof -
  have "map_of (AList.update p a (procs w)) = map_of (procs w)" using assms(2) by (auto simp: dict_simps)
  then show ?thesis using assms(1) by (simp add: ids_ok_def spans_apart_def unsent_def)
qed

lemma start_step_ok:
  assumes "ids_ok w" "fresh_label w (Start p block io)"
  shows "ids_ok (start_step p block io w)"
proof (cases "map_of (procs w) p \<noteq> None \<or> initialize io block (files w) = None")
  case True
  then show ?thesis using assms(1) by (auto simp: start_step_def)
next
  case False
  then obtain r a d where i: "initialize io block (files w) = Some (r, a, d)" "map_of (procs w) p = None"
    by (metis option.exhaust prod_cases3)
  note s = initialize_ok [OF ids_okD(1) [OF assms(1)] i(1)]
  have "set_option (drawn_node io (files w)) \<inter> set (retired w) = {}"
    using assms(2) by (auto simp: fresh_label_def split: option.splits)
  note adv = ids_ok_advance [OF assms(1) s(1) this] and grant = ids_ok_grant [OF assms(1) s(1) this]
  show ?thesis
  proof (cases r)
    case (Inl e)
    then show ?thesis using adv i by (simp add: start_step_def)
  next
    case (Inr u)
    then show ?thesis using grant s(2) i by (simp add: start_step_def)
  qed
qed

lemma take_id_cases:
  assumes "take_id io a d = (r, a', d')" "files_ok d" "1 \<le> a_block a" "0 \<le> a_remaining a"
  obtains b where "advance {} d d'" "a_node b = a_node a" "a_block b = a_block a"
    "b = a \<or> reserved d d' b"
    "r = Inr (a_next b) \<and> 1 \<le> a_remaining b \<and>
        a' = b\<lparr>a_next := a_next b + 1, a_remaining := a_remaining b - 1\<rparr> \<or>
     (\<exists>e. r = Inl e) \<and> a' = b"
proof (cases "a_remaining a = 0")
  case False
  have "advance {} d d" using assms(2) by simp
  moreover have "d' = d \<and> (r = Inr (a_next a) \<and> 1 \<le> a_remaining a \<and>
        a' = a\<lparr>a_next := a_next a + 1, a_remaining := a_remaining a - 1\<rparr> \<or> (\<exists>e. r = Inl e) \<and> a' = a)"
    using False assms(1,4) by (auto simp: take_id_def Let_def split: if_splits)
  ultimately show ?thesis using that [of a] by simp
next
  case True
  obtain r1 b d1 where m: "reserve_more io a d = (r1, b, d1)" by (metis prod_cases3)
  note s = reserve_more_ok [OF assms(2,3) m]
  have "d1 = d' \<and> (r = Inr (a_next b) \<and> r1 = Inr () \<and>
        a' = b\<lparr>a_next := a_next b + 1, a_remaining := a_remaining b - 1\<rparr> \<or> (\<exists>e. r = Inl e) \<and> a' = b)"
    using True assms(1) m by (auto simp: take_id_def Let_def split: sum.splits if_splits)
  then show ?thesis using that [of b] s by (auto simp: reserved_def)
qed

lemma take_step_ok:
  assumes "ids_ok w"
  shows "ids_ok (take_step p io w)"
proof (cases "map_of (procs w) p")
  case None
  then show ?thesis using assms by (simp add: take_step_def)
next
  case (Some a)
  note a = ids_okD(3) [OF assms Some, unfolded alloc_ok_def]
  obtain r a' d where t: "take_id io a (files w) = (r, a', d)" by (metis prod_cases3)
  obtain b where b: "advance {} (files w) d" "a_node b = a_node a" "a_block b = a_block a"
    "b = a \<or> reserved (files w) d b"
    and r: "r = Inr (a_next b) \<and> 1 \<le> a_remaining b \<and>
        a' = b\<lparr>a_next := a_next b + 1, a_remaining := a_remaining b - 1\<rparr> \<or> (\<exists>e. r = Inl e) \<and> a' = b"
    using take_id_cases [OF t ids_okD(1) [OF assms]] a by metis
  let ?w = "w\<lparr>files := d, procs := AList.update p b (procs w)\<rparr>"
  have w: "ids_ok ?w"
    using b(4)
  proof
    assume "b = a"
    then show ?thesis using ids_ok_update_same [OF ids_ok_advance [OF assms b(1)], of p a] Some by simp
  next
    assume res: "reserved (files w) d b"
    show ?thesis using ids_ok_grant [OF assms b(1) _ res] a b(3) by simp
  qed
  show ?thesis
    using r
  proof
    assume e: "r = Inr (a_next b) \<and> 1 \<le> a_remaining b \<and>
        a' = b\<lparr>a_next := a_next b + 1, a_remaining := a_remaining b - 1\<rparr>"
    have "AList.update p a' (AList.update p b (procs w)) = AList.update p a' (procs w)"
      by (induction "procs w") (auto split: if_splits)
    with ids_ok_emit [OF w, of p b] e show ?thesis
      using Some t by (simp add: take_step_def dict_simps)
  next
    assume "(\<exists>e. r = Inl e) \<and> a' = b"
    then show ?thesis using w Some t by (auto simp: take_step_def)
  qed
qed

lemma drop_state_ok:
  assumes "ids_ok w"
  shows "ids_ok (id_step w Drop_State)"
proof -
  let ?v = "id_step w Drop_State"
  have v: "state_now (files ?v) = Absent" "state_safe (files ?v) = Absent" "procs ?v = procs w"
    "emitted ?v = emitted w"
    "set (retired ?v) = set (retired w) \<union> fst ` set (emitted w) \<union> (a_node \<circ> snd) ` set (procs w)"
    by (simp_all add: id_step_def Un_assoc)
  have "alloc_ok ?v a" if "map_of (procs w) p = Some a" for p a
  proof -
    have "a_node a \<in> set (retired ?v)" using map_of_SomeD [OF that] v(5) by force
    then show ?thesis using ids_okD(3) [OF assms that] by (simp add: alloc_ok_def below_mark_def)
  qed
  moreover have "sent_ok ?v n i" if "(n, i) \<in> set (emitted w)" for n i
  proof -
    have "n \<in> set (retired ?v)" using that v(5) by force
    then show ?thesis using ids_okD(4) [OF assms that] by (simp add: sent_ok_def below_mark_def)
  qed
  moreover have "files_ok (files ?v)" "nodes_of (files ?v) = {}"
    using v(1,2) by (simp_all add: files_ok_def nodes_of_def)
  ultimately show ?thesis using ids_okD(5-7) [OF assms] v(3,4) by (simp add: ids_ok_def)
qed

lemma ids_ok_no_procs: "ids_ok w \<Longrightarrow> ids_ok (w\<lparr>procs := []\<rparr>)"
  by (simp add: ids_ok_def spans_apart_def unsent_def)

lemma id_step_ok:
  assumes "ids_ok w" "fresh_label w l"
  shows "ids_ok (id_step w l)"
proof (cases l)
  case (Start p block io)
  then show ?thesis using start_step_ok assms by (simp add: id_step_def)
next
  case (Take p io)
  then show ?thesis using take_step_ok assms by (simp add: id_step_def)
next
  case (Kill p)
  have "alloc_ok w a" if "map_of (AList.delete p (procs w)) q = Some a" for q a
    using that ids_okD(3) [OF assms(1)] by (simp add: dict_simps split: if_splits)
  moreover have "unsent (AList.delete p (procs w)) (emitted w)"
    using ids_okD(6) [OF assms(1)] by (simp add: unsent_def dict_simps)
  ultimately show ?thesis
    using Kill ids_okD [OF assms(1)] spans_apart_delete by (simp add: ids_ok_def id_step_def)
next
  case Power_Loss
  let ?d = "(files w)\<lparr>state_now := state_safe (files w), node_now := node_safe (files w)\<rparr>"
  have "ids_ok (w\<lparr>files := ?d\<rparr>)" by (rule ids_ok_advance [OF assms(1) power_loss_advance(1)]) simp
  from ids_ok_no_procs [OF this] show ?thesis using Power_Loss by (simp add: id_step_def Let_def)
next
  case Writeback
  then show ?thesis
    using ids_ok_advance [OF assms(1) power_loss_advance(2) [OF ids_okD(1) [OF assms(1)]]]
    by (simp add: id_step_def Let_def)
next
  case (Edit_Node s)
  then show ?thesis
    using ids_ok_advance [OF assms(1) power_loss_advance(3) [OF ids_okD(1) [OF assms(1)]]]
    by (simp add: id_step_def)
next
  case Drop_State
  then show ?thesis using drop_state_ok [OF assms(1)] by simp
qed

lemma id_run_ok: "ids_ok w \<Longrightarrow> fresh_run w ls \<Longrightarrow> ids_ok (id_run w ls)"
proof (induction ls arbitrary: w)
  case (Cons l ls)
  have "ids_ok (id_step w l)" using Cons.prems id_step_ok by simp
  from Cons.IH [OF this] show ?case using Cons.prems by (simp add: id_run_def)
qed (simp add: id_run_def)

lemma booted_ok: "booted w \<Longrightarrow> ids_ok w"
  by (simp add: booted_def ids_ok_def files_ok_def spans_apart_def unsent_def)

lemma retired_only_dropped: "l \<noteq> Drop_State \<Longrightarrow> retired (id_step w l) = retired w"
  by (cases l) (auto simp: id_step_def start_step_def take_step_def Let_def
    split: option.splits prod.splits sum.splits)

lemma fresh_without_drop: "retired w = [] \<Longrightarrow> Drop_State \<notin> set ls \<Longrightarrow> fresh_run w ls"
proof (induction ls arbitrary: w)
  case (Cons l ls)
  then have "retired (id_step w l) = []" using retired_only_dropped [of l w] by auto
  then show ?case using Cons by (cases l) (auto simp: fresh_label_def split: option.splits)
qed simp

subsection \<open>Nonces\<close>

lemma little_endian_inj:
  assumes "little_endian w a = little_endian w b" "0 \<le> a" "a < 256 ^ w" "0 \<le> b" "b < 256 ^ w"
  shows "a = b"
  using assms
proof (induction w arbitrary: a b)
  case (Suc w)
  have shift: "little_endian (Suc w) n = n mod 256 # little_endian w (n div 256)" for n
    by (simp add: little_endian_def upt_conv_Cons map_Suc_upt [symmetric] zdiv_zmult2_eq
      del: upt_Suc)
  have e: "a mod 256 = b mod 256" "little_endian w (a div 256) = little_endian w (b div 256)"
    using Suc.prems(1) by (simp_all add: shift)
  moreover have "a div 256 = b div 256"
  proof (rule Suc.IH [OF e(2)])
    have "a < 256 * 256 ^ w" "b < 256 * 256 ^ w" using Suc.prems(3,5) by simp_all
    then show "a div 256 < 256 ^ w" "b div 256 < 256 ^ w" by linarith+
  qed (use Suc.prems(2,4) in simp_all)
  ultimately show ?case by (metis mult_div_mod_eq)
qed (simp add: little_endian_def)

lemma nonce_inj:
  assumes "nonce n i = nonce m j" "node_range n" "node_range m" "1 \<le> i" "i \<le> max_packet_id"
    "1 \<le> j" "j \<le> max_packet_id"
  shows "n = m \<and> i = j"
proof -
  have len: "length (little_endian 8 k) = 8" for k by (simp add: little_endian_def)
  have "little_endian 8 i = little_endian 8 j" "little_endian 8 n = little_endian 8 m"
    using assms(1) len by (simp_all add: nonce_def append_eq_append_conv)
  then show ?thesis using little_endian_inj [of 8 i j] little_endian_inj [of 8 n m] assms(2-7)
    by (simp add: node_range_def max_packet_id_def)
qed

text \<open>
  C3. No AES-CTR nonce is used twice: whatever processes are started and killed, whichever writes
  fail, wherever power is lost and whatever happens to the node number file, the nonces of all
  packets are pairwise different, and every packet id is a nonzero 32-bit number.  If an operator
  removes the state file, this needs that later enrollments draw none of the identities in use at the
  removal.
\<close>

theorem nonce_never_reused:
  assumes "booted w" "Drop_State \<notin> set ls \<or> fresh_run w ls"
  shows "distinct (map (\<lambda>(n, i). nonce n i) (emitted (id_run w ls))) \<and>
    (\<forall>(n, i) \<in> set (emitted (id_run w ls)). 1 \<le> i \<and> i \<le> 0xFFFFFFFF)"
proof -
  have "fresh_run w ls" using assms fresh_without_drop by (auto simp: booted_def)
  then have ok: "ids_ok (id_run w ls)" by (rule id_run_ok [OF booted_ok [OF assms(1)]])
  have s: "node_range n" "1 \<le> i" "i \<le> max_packet_id" if "(n, i) \<in> set (emitted (id_run w ls))" for n i
    using ids_okD(4) [OF ok that] by (simp_all add: sent_ok_def)
  have "inj_on (\<lambda>(n, i). nonce n i) (set (emitted (id_run w ls)))"
    using nonce_inj s by (auto simp: inj_on_def)
  then have "distinct (map (\<lambda>(n, i). nonce n i) (emitted (id_run w ls)))"
    using ids_okD(7) [OF ok] by (simp add: distinct_map)
  moreover have "\<forall>(n, i) \<in> set (emitted (id_run w ls)). 1 \<le> i \<and> i \<le> 0xFFFFFFFF"
    using s by (auto simp: max_packet_id_def)
  ultimately show ?thesis by blast
qed

text \<open>
  An enrollment whose second write fails, a loss of power, a start that resumes it, two packets, a third
  that needs a new block whose write is not synced, another loss of power and a second process.
\<close>

definition demo_io :: "commit \<Rightarrow> commit \<Rightarrow> id_io" where
  "demo_io c1 c2 = \<lparr>io_lock = True, io_state_read = True, io_node_read = True, io_write1 = c1,
     io_write2 = c2, io_write3 = Committed, io_unlock = True, io_random = [7]\<rparr>"

definition demo_world :: id_world where
  "demo_world = \<lparr>files = \<lparr>state_now = Absent, state_safe = Absent, node_now = Absent, node_safe = Absent\<rparr>,
     procs = [], emitted = [], retired = []\<rparr>"

definition demo_labels :: "id_label list" where
  "demo_labels =
     [Start 1 2 (demo_io Committed Unsynced), Power_Loss, Start 2 2 (demo_io Committed Committed),
      Take 2 (demo_io Committed Committed), Take 2 (demo_io Committed Committed),
      Take 2 (demo_io Unsynced Committed), Take 2 (demo_io Committed Committed), Power_Loss,
      Start 3 2 (demo_io Committed Committed), Take 3 (demo_io Committed Committed)]"

lemma demo_emitted:
  "emitted (id_run demo_world demo_labels) =
     [(0x10000007, 3), (0x10000007, 4), (0x10000007, 7), (0x10000007, 9)]"
  by code_simp

lemma nonce_never_reused_witness:
  "distinct (map (\<lambda>(n, i). nonce n i) (emitted (id_run demo_world demo_labels))) \<and>
   emitted (id_run demo_world demo_labels) =
     [(0x10000007, 3), (0x10000007, 4), (0x10000007, 7), (0x10000007, 9)]"
proof -
  have "booted demo_world" by (simp add: booted_def demo_world_def)
  moreover have "Drop_State \<notin> set demo_labels" by (simp add: demo_labels_def)
  ultimately show ?thesis using nonce_never_reused [of demo_world demo_labels] demo_emitted by blast
qed

end
