(* ===== verification/Packet_Recovery.thy ===== *)
theory Packet_Recovery
  imports Packet_Props
begin

text \<open>
  The packet id allocator after interruptions: as long as nobody edits the node number file, the two
  files never contradict each other, so that a later start succeeds; state that is unsafe stops it.
\<close>

subsection \<open>The node number file\<close>

lemma parse_show_node:
  assumes "node_range n"
  shows "parse_node (show_node n) = Some n"
proof -
  have "0 \<le> n" "n < 16 ^ 8" using assms by (simp_all add: node_range_def)
  note h = show_hex8 [OF this]
  have "list_all (\<lambda>c. \<not> py_space c) (show_hex8 n)"
    using h(2) hex_value_space unfolding list_all_iff by blast
  then have "py_strip (show_node n) = show_hex8 n"
    unfolding show_node_def by (rule py_strip_solid)
  then show ?thesis using h assms by (simp add: parse_node_def Let_def)
qed

definition names :: "string stored \<Rightarrow> int \<Rightarrow> bool" where
  "names f n = (\<exists>s. f = Holds s \<and> parse_node s = Some n)"

subsection \<open>The two files agree\<close>

definition readable_state :: "json stored \<Rightarrow> bool" where
  "readable_state s = (s = Absent \<or> view s \<noteq> None)"

definition complete_node :: "json stored \<Rightarrow> int option" where
  "complete_node s = (case view s of Some (n, h, True) \<Rightarrow> Some n | _ \<Rightarrow> None)"

definition coherent :: "id_files \<Rightarrow> bool" where
  "coherent d = (files_ok d \<and>
     (\<forall>s \<in> {state_now d, state_safe d}. readable_state s \<and>
        (\<forall>n. complete_node s = Some n \<longrightarrow> names (node_now d) n \<and> names (node_safe d) n)))"

lemma complete_node_view: "complete_node s = Some n \<longleftrightarrow> (\<exists>h. view s = Some (n, h, True))"
  by (auto simp: complete_node_def split: option.splits bool.splits)

lemma write_state_coherent:
  assumes "coherent d" "write_state c kvs d = (d', ok)" "view (Holds (JObj kvs)) = Some (n, h, b)"
    "follows (state_now d) (n, h, b)" "b \<Longrightarrow> names (node_now d) n \<and> names (node_safe d) n"
  shows "coherent d'" "node_now d' = node_now d" "node_safe d' = node_safe d"
    "ok \<Longrightarrow> state_now d' = Holds (JObj kvs)"
proof -
  have fo: "files_ok d" using assms(1) by (simp add: coherent_def)
  note adv = write_state_advance [OF fo assms(2-4)]
  show nodes: "node_now d' = node_now d" "node_safe d' = node_safe d"
    using assms(2) by (auto simp: write_state_def split: prod.splits)
  show "ok \<Longrightarrow> state_now d' = Holds (JObj kvs)" using adv(2) by simp
  have "s \<in> {state_now d, state_safe d, Holds (JObj kvs)}" if "s \<in> {state_now d', state_safe d'}" for s
    using that assms(2) by (cases c) (auto simp: write_state_def atomic_write_def)
  moreover have "readable_state s \<and>
      (\<forall>n. complete_node s = Some n \<longrightarrow> names (node_now d') n \<and> names (node_safe d') n)"
    if "s \<in> {state_now d, state_safe d, Holds (JObj kvs)}" for s
    using that assms(1,3,5) nodes
    by (auto simp: coherent_def readable_state_def complete_node_view)
  ultimately show "coherent d'" using advance_ok [OF adv(1)] unfolding coherent_def by blast
qed

lemma write_node_coherent:
  assumes "coherent d" "write_node_num c n d = (d', ok)" "complete_node (state_now d) = None"
    "node_range n"
  shows "coherent d'" "state_now d' = state_now d" "ok \<Longrightarrow> names (node_now d') n \<and> names (node_safe d') n"
proof -
  have fo: "files_ok d" using assms(1) by (simp add: coherent_def)
  note adv = write_node_advance [OF fo assms(2)]
  show "state_now d' = state_now d" by (rule adv(2))
  have "complete_node (state_safe d) = None"
  proof (rule ccontr)
    assume "complete_node (state_safe d) \<noteq> None"
    then obtain k h where k: "view (state_safe d) = Some (k, h, True)"
      using complete_node_view by blast
    then show False using fo assms(3)
      by (auto simp: files_ok_def follows_def complete_node_def split: option.splits)
  qed
  then show "coherent d'"
    using assms(1,3) adv advance_ok [OF adv(1)] by (simp add: coherent_def)
  show "ok \<Longrightarrow> names (node_now d') n \<and> names (node_safe d') n"
    using assms(2) parse_show_node [OF assms(4)]
    by (cases c) (auto simp: write_node_num_def atomic_write_def names_def)
qed

lemma coherent_ok: "coherent d \<Longrightarrow> files_ok d"
  by (simp add: coherent_def)

lemma coherent_names:
  "coherent d \<Longrightarrow> view (state_now d) = Some (n, h, True) \<Longrightarrow> names (node_now d) n \<and> names (node_safe d) n"
  by (auto simp: coherent_def complete_node_view)

lemma reserve_after_coherent:
  assumes "coherent d" "state_now d = Holds (JObj st)" "check_state st = Inr st" "\<not> st_pending st"
    "1 \<le> a_block a" "reserve_after c st a d = (r, a', d')"
  shows "coherent d'"
proof (cases "max_packet_id \<le> st_mark st")
  case True
  then show ?thesis using assms(1,6) by (simp add: reserve_after_def)
next
  case False
  define size where "size = min (a_block a) (max_packet_id - st_mark st)"
  define st' where "st' = AList.update ''high_watermark'' (JInt (st_mark st + size)) st"
  obtain ok where w: "write_state c st' d = (d', ok)"
    using assms(6) False
    by (auto simp: reserve_after_def Let_def size_def st'_def split: prod.splits if_splits)
  have v: "view (state_now d) = Some (st_node st, st_mark st, True)"
    using view_Some [OF assms(3)] assms(2,4) by simp
  note rng = view_range [OF v]
  have size: "1 \<le> size" "st_mark st + size \<le> max_packet_id" using False assms(5) by (auto simp: size_def)
  have vs: "view (Holds (JObj st')) = Some (st_node st, st_mark st + size, True)"
    unfolding st'_def by (rule marked_view [OF assms(3,4)]) (use size rng in auto)
  have "follows (state_now d) (st_node st, st_mark st + size, True)" using size v by (simp add: follows_def)
  from write_state_coherent(1) [OF assms(1) w vs this] show ?thesis using coherent_names [OF assms(1) v] by simp
qed

lemma enroll_coherent:
  assumes "coherent d" "state_now d = Absent" "node_range n" "1 \<le> a_block a" "a_block a \<le> max_packet_id"
    "enroll io n a d = (r, a', d')"
  shows "coherent d'"
proof -
  define pending where "pending = state_payload n (a_block a) pending_text"
  define done_st where "done_st = AList.update ''enrollment'' (JStr complete_text) pending"
  have v1: "view (Holds (JObj pending)) = Some (n, a_block a, False)"
    unfolding pending_def by (rule pending_view [OF assms(3-5)])
  have v2: "view (Holds (JObj done_st)) = Some (n, a_block a, True)"
    unfolding done_st_def using complete_view [OF state_payload_good [OF assms(3-5)]] by (simp add: pending_def)
  obtain d1 ok1 where w1: "write_state (io_write1 io) pending d = (d1, ok1)" by fastforce
  obtain d2 ok2 where w2: "write_node_num (io_write2 io) n d1 = (d2, ok2)" by fastforce
  obtain d3 ok3 where w3: "write_state (io_write3 io) done_st d2 = (d3, ok3)" by fastforce
  have "follows (state_now d) (n, a_block a, False)" using assms(2) by (simp add: follows_def)
  note s1 = write_state_coherent [OF assms(1) w1 v1 this, simplified]
  have e: "enroll io n a d = (if \<not> ok1 then (Inl Os_Failure, a, d1) else if \<not> ok2 then (Inl Os_Failure, a, d2)
      else if \<not> ok3 then (Inl Os_Failure, a, d3)
      else (Inr (), a\<lparr>a_node := n, a_next := 1, a_remaining := a_block a\<rparr>, d3))"
    using w1 w2 w3 by (simp add: enroll_def Let_def pending_def done_st_def)
  show ?thesis
  proof (cases ok1)
    case False
    then show ?thesis using s1(1) assms(6) e by simp
  next
    case ok1: True
    have "complete_node (state_now d1) = None" using s1(4) [OF ok1] v1 by (simp add: complete_node_def)
    note s2 = write_node_coherent [OF s1(1) w2 this assms(3)]
    show ?thesis
    proof (cases ok2)
      case False
      then show ?thesis using ok1 s2(1) assms(6) e by simp
    next
      case True
      have "follows (state_now d2) (n, a_block a, True)" using s2(2) s1(4) [OF ok1] v1 by (simp add: follows_def)
      from write_state_coherent(1) [OF s2(1) w3 v2 this] s2(3) [OF True] have "coherent d3" by simp
      then show ?thesis using ok1 True assms(6) e by (auto split: if_splits)
    qed
  qed
qed

lemma finish_enrollment_coherent:
  assumes "coherent d" "state_now d = Holds (JObj st)" "check_state st = Inr st" "st_pending st"
    "1 \<le> a_block a" "finish_enrollment io st a d = (r, a', d')"
  shows "coherent d'"
proof -
  define st' where "st' = AList.update ''enrollment'' (JStr complete_text) st"
  have now: "view (state_now d) = Some (st_node st, st_mark st, False)"
    using view_Some [OF assms(3)] assms(2,4) by simp
  have g: "check_state st' = Inr st'" unfolding st'_def by (rule set_complete_good [OF assms(3)])
  have v: "view (Holds (JObj st')) = Some (st_node st, st_mark st, True)"
    unfolding st'_def by (rule complete_view [OF assms(3)])
  obtain d1 ok1 where w1: "write_node_num (io_write1 io) (st_node st) d = (d1, ok1)" by fastforce
  obtain d2 ok2 where w2: "write_state (io_write2 io) st' d1 = (d2, ok2)" by fastforce
  have "complete_node (state_now d) = None" using now by (simp add: complete_node_def)
  note s1 = write_node_coherent [OF assms(1) w1 this view_range(1) [OF now]]
  have e: "finish_enrollment io st a d = (if \<not> ok1 then (Inl Os_Failure, a, d1) else
      if \<not> ok2 then (Inl Os_Failure, a, d2)
      else reserve_after (io_write3 io) st' (a\<lparr>a_node := st_node st\<rparr>) d2)"
    using w1 w2 by (simp add: finish_enrollment_def Let_def st'_def)
  show ?thesis
  proof (cases ok1)
    case False
    then show ?thesis using s1(1) assms(6) e by simp
  next
    case True
    have "follows (state_now d1) (st_node st, st_mark st, True)" using now s1(2) by (simp add: follows_def)
    note s2 = write_state_coherent [OF s1(1) w2 v this s1(3) [OF True]]
    show ?thesis
    proof (cases ok2)
      case False
      then show ?thesis using True s2(1) assms(6) e by simp
    next
      case ok2: True
      have "reserve_after (io_write3 io) st' (a\<lparr>a_node := st_node st\<rparr>) d2 = (r, a', d')"
        using True ok2 assms(6) e by simp
      from reserve_after_coherent [OF s2(1) s2(4) [OF ok2] g _ _ this] show ?thesis
        using assms(5) by (simp add: st'_def)
    qed
  qed
qed

lemma initialize_coherent:
  assumes "coherent d" "initialize io block d = Some (r, a', d')"
  shows "coherent d'"
proof (cases "1 \<le> block \<and> block < max_packet_id \<and> io_lock io")
  case False
  then show ?thesis using assms by (auto simp: initialize_def Let_def split: if_splits)
next
  case ok: True
  let ?a = "new_allocator block"
  obtain r0 where l: "initialize_locked io ?a d = Some (r0, a', d')"
    using assms(2) ok by (auto simp: initialize_def release_lock_def Let_def split: if_splits)
  have b: "1 \<le> a_block ?a" "a_block ?a \<le> max_packet_id" using ok by (simp_all add: new_allocator_def)
  show ?thesis
  proof (cases "state_now d = Absent")
    case True
    then obtain n where n: "drawn_node io d = Some n" "enroll io n ?a d = (r0, a', d')"
      using l by (auto simp: initialize_locked_def split: option.splits)
    obtain legacy where "new_node_num legacy (io_random io) = Some n"
      using n(1) by (simp add: drawn_node_def split: if_splits sum.splits)
    from conjunct1 [OF new_node_range [OF this]] show ?thesis
      using enroll_coherent [OF assms(1) True _ b n(2)] by blast
  next
    case False
    show ?thesis
    proof (cases "load_state (io_state_read io) d")
      case (Inl e)
      then show ?thesis using l False assms(1) by (auto simp: initialize_locked_def)
    next
      case (Inr st)
      note g = load_state_view [OF Inr]
      consider "finish_enrollment io st ?a d = (r0, a', d')" "st_pending st" | "d' = d"
        | "reserve_after (io_write1 io) st (?a\<lparr>a_node := st_node st\<rparr>) d = (r0, a', d')" "\<not> st_pending st"
        using l False Inr by (auto simp: initialize_locked_def resume_def split: sum.splits if_splits)
      then show ?thesis
      proof cases
        case 1
        then show ?thesis using finish_enrollment_coherent [OF assms(1) g] b(1) by blast
      next
        case 2
        then show ?thesis using assms(1) by simp
      next
        case 3
        then show ?thesis using reserve_after_coherent [OF assms(1) g 3(2) _ 3(1)] b(1) by simp
      qed
    qed
  qed
qed

lemma take_id_coherent:
  assumes "coherent d" "1 \<le> a_block a" "take_id io a d = (r, a', d')"
  shows "coherent d'"
proof -
  have "d' = d \<or> (\<exists>r0 b. reserve_locked io a d = (r0, b, d'))"
    using assms(3) by (cases "reserve_locked io a d")
      (auto simp: take_id_def reserve_more_def release_lock_def Let_def split: if_splits sum.splits)
  moreover have "coherent d'" if "reserve_locked io a d = (r0, b, d')" "d' \<noteq> d" for r0 b
  proof -
    obtain st where st: "load_state (io_state_read io) d = Inr st" "\<not> st_pending st"
      "reserve_after (io_write1 io) st a d = (r0, b, d')"
      using \<open>reserve_locked io a d = (r0, b, d')\<close> \<open>d' \<noteq> d\<close>
      by (auto simp: reserve_locked_def split: if_splits sum.splits)
    show ?thesis by (rule reserve_after_coherent [OF assms(1) load_state_view [OF st(1)] st(2) assms(2) st(3)])
  qed
  ultimately show ?thesis using assms(1) by blast
qed

text \<open>Nobody but the allocator writes the node number file.\<close>

fun edits_node :: "id_label \<Rightarrow> bool" where
  "edits_node (Edit_Node _) = True"
| "edits_node _ = False"

definition blocks_ok :: "id_world \<Rightarrow> bool" where
  "blocks_ok w = (\<forall>p a. map_of (procs w) p = Some a \<longrightarrow> 1 \<le> a_block a)"

lemma step_coherent:
  assumes "coherent (files w)" "blocks_ok w" "\<not> edits_node l"
  shows "coherent (files (id_step w l)) \<and> blocks_ok (id_step w l)"
proof (cases l)
  case (Start p block io)
  show ?thesis
  proof (cases "map_of (procs w) p \<noteq> None \<or> initialize io block (files w) = None")
    case True
    then show ?thesis using assms Start by (auto simp: id_step_def start_step_def)
  next
    case False
    then obtain r a d where i: "initialize io block (files w) = Some (r, a, d)" "map_of (procs w) p = None"
      by (metis option.exhaust prod_cases3)
    have "r = Inr () \<Longrightarrow> 1 \<le> a_block a" using initialize_ok(2) [OF coherent_ok [OF assms(1)] i(1)] by blast
    then show ?thesis using Start i initialize_coherent [OF assms(1) i(1)] assms(2)
      by (cases r) (auto simp: id_step_def start_step_def blocks_ok_def dict_simps)
  qed
next
  case (Take p io)
  show ?thesis
  proof (cases "map_of (procs w) p")
    case None
    then show ?thesis using assms Take by (simp add: id_step_def take_step_def)
  next
    case (Some a)
    obtain r a' d where t: "take_id io a (files w) = (r, a', d)" by (metis prod_cases3)
    have b: "1 \<le> a_block a" using assms(2) Some by (simp add: blocks_ok_def)
    have "a_block a' = a_block a"
      using t by (auto simp: take_id_def reserve_more_def release_lock_def reserve_locked_def reserve_after_def
        Let_def split: if_splits prod.splits sum.splits)
    then show ?thesis using Take Some t b take_id_coherent [OF assms(1) b t] assms(2)
      by (cases r) (auto simp: id_step_def take_step_def blocks_ok_def dict_simps)
  qed
next
  case Power_Loss
  then show ?thesis using assms(1) by (auto simp: id_step_def coherent_def files_ok_def blocks_ok_def Let_def)
next
  case Writeback
  then show ?thesis using assms(1,2) by (auto simp: id_step_def coherent_def files_ok_def blocks_ok_def Let_def)
next
  case Drop_State
  then show ?thesis using assms(2)
    by (simp add: id_step_def coherent_def files_ok_def readable_state_def complete_node_def blocks_ok_def)
qed (use assms in \<open>auto simp: id_step_def blocks_ok_def dict_simps split: if_splits\<close>)

lemma run_coherent:
  "coherent (files w) \<Longrightarrow> blocks_ok w \<Longrightarrow> \<not> list_ex edits_node ls \<Longrightarrow> coherent (files (id_run w ls))"
proof (induction ls arbitrary: w)
  case (Cons l ls)
  then show ?case using step_coherent [of w l] by (simp add: id_run_def)
qed (simp add: id_run_def)

subsection \<open>Starting again\<close>

definition healthy :: "id_io \<Rightarrow> bool" where
  "healthy io = (io_lock io \<and> io_state_read io \<and> io_node_read io \<and> io_write1 io = Committed \<and>
     io_write2 io = Committed \<and> io_write3 io = Committed \<and> io_unlock io)"

lemma write_committed [simp]:
  "write_state Committed kvs d = (d\<lparr>state_now := Holds (JObj kvs), state_safe := Holds (JObj kvs)\<rparr>, True)"
  "write_node_num Committed n d = (d\<lparr>node_now := Holds (show_node n), node_safe := Holds (show_node n)\<rparr>, True)"
  by (simp_all add: write_state_def write_node_num_def atomic_write_def)

lemma reserve_after_committed:
  "st_mark st < max_packet_id \<Longrightarrow> \<exists>a' d'. reserve_after Committed st a d = (Inr (), a', d')"
  by (simp add: reserve_after_def Let_def)

lemma readable_state_Some:
  assumes "readable_state s" "s \<noteq> Absent"
  obtains st where "s = Holds (JObj st)" "check_state st = Inr st"
  using assms
  by (auto simp: readable_state_def view_def split: stored.splits json.splits sum.splits dest: check_state_Inr)

lemma initialize_healthy:
  assumes "coherent d" "healthy io" "1 \<le> block" "block < max_packet_id"
    "state_now d = Absent \<Longrightarrow> drawn_node io d \<noteq> None"
    "\<And>n c. view (state_now d) \<noteq> Some (n, max_packet_id, c)"
  shows "\<exists>a d'. initialize io block d = Some (Inr (), a, d')"
proof -
  let ?a = "new_allocator block"
  note h = assms(2) [unfolded healthy_def]
  have "\<exists>a d'. initialize_locked io ?a d = Some (Inr (), a, d')"
  proof (cases "state_now d = Absent")
    case True
    then show ?thesis using assms(5) h by (auto simp: initialize_locked_def enroll_def Let_def)
  next
    case False
    have "readable_state (state_now d)" using assms(1) by (simp add: coherent_def)
    then obtain st where st: "state_now d = Holds (JObj st)" "check_state st = Inr st"
      using readable_state_Some False by blast
    have v: "view (state_now d) = Some (st_node st, st_mark st, \<not> st_pending st)"
      using view_Some [OF st(2)] st(1) by simp
    have m: "st_mark st < max_packet_id" using view_range(3) [OF v] assms(6) v by (metis order_le_less)
    have load: "load_state (io_state_read io) d = Inr st" using st h by (simp add: load_state_def)
    show ?thesis
    proof (cases "st_pending st")
      case True
      then show ?thesis
        using load False h m reserve_after_committed
        by (simp add: initialize_locked_def finish_enrollment_def Let_def)
    next
      case complete: False
      then have "names (node_now d) (st_node st)" using coherent_names [OF assms(1)] v by simp
      then have "load_node_num True (io_node_read io) d = Inr (Some (st_node st))"
        using h by (auto simp: names_def load_node_num_def)
      then show ?thesis
        using load False h m complete reserve_after_committed by (simp add: initialize_locked_def resume_def)
    qed
  qed
  then show ?thesis using h assms(3,4) by (auto simp: initialize_def release_lock_def Let_def)
qed

text \<open>
  C30. The allocator recovers from every interruption: start with files that agree (or with none), let
  any processes be started, killed, and lose power at any write, and let the operator remove the state
  file; the next start whose own file operations succeed returns, unless the id space of
  the identity is used up.
\<close>

theorem allocator_restarts:
  assumes "booted w" "coherent (files w)" "\<not> list_ex edits_node ls" "healthy io" "1 \<le> block"
    "block < max_packet_id"
    "state_now (files (id_run w ls)) = Absent \<longrightarrow> drawn_node io (files (id_run w ls)) \<noteq> None"
    "\<forall>n c. view (state_now (files (id_run w ls))) \<noteq> Some (n, max_packet_id, c)"
  shows "\<exists>a d. initialize io block (files (id_run w ls)) = Some (Inr (), a, d)"
proof (rule initialize_healthy)
  show "coherent (files (id_run w ls))"
    using assms(1-3) by (intro run_coherent) (simp_all add: booted_def blocks_ok_def)
qed (use assms in auto)

lemma allocator_restarts_witness:
  "\<exists>a d. initialize (demo_io Committed Committed) 2 (files (id_run demo_world (take 2 demo_labels))) =
     Some (Inr (), a, d)"
proof (rule allocator_restarts)
  show "booted demo_world" by (simp add: booted_def demo_world_def)
  show "coherent (files demo_world)"
    by (simp add: demo_world_def coherent_def files_ok_def readable_state_def complete_node_def)
  have now: "state_now (files (id_run demo_world (take 2 demo_labels))) =
      Holds (JObj (state_payload 0x10000007 2 pending_text))"
    by code_simp
  then show "state_now (files (id_run demo_world (take 2 demo_labels))) = Absent \<longrightarrow>
      drawn_node (demo_io Committed Committed) (files (id_run demo_world (take 2 demo_labels))) \<noteq> None"
    by simp
  show "\<forall>n c. view (state_now (files (id_run demo_world (take 2 demo_labels)))) \<noteq> Some (n, max_packet_id, c)"
    unfolding now by (subst pending_view) (simp_all add: node_range_def max_packet_id_def)
qed (simp_all add: demo_labels_def demo_io_def healthy_def max_packet_id_def)

text \<open>A legacy identity, whose packet ids were not recorded, is never enrolled.\<close>

lemma legacy_identity_rotated:
  assumes "load_node_num False (io_node_read io) d = Inr (Some legacy)" "drawn_node io d = Some n"
  shows "n \<noteq> legacy"
proof -
  have "new_node_num (Some legacy) (io_random io) = Some n"
    using assms by (simp add: drawn_node_def split: if_splits)
  from conjunct2 [OF new_node_range [OF this]] show ?thesis by simp
qed

text \<open>Unreadable or invalid state and an exhausted id space stop the start and leave the files alone.\<close>

lemma unsafe_state_refused:
  assumes "state_now d \<noteq> Absent" "view (state_now d) = None" "initialize io block d = Some (r, a, d')"
  shows "r \<noteq> Inr () \<and> d' = d"
proof -
  have "load_state (io_state_read io) d \<noteq> Inr st" for st
    using load_state_view [of "io_state_read io" d st] view_Some [of st] assms(2) by auto
  then obtain e where "load_state (io_state_read io) d = Inl e" by (meson sum.exhaust)
  then show ?thesis
    using assms(1,3) by (auto simp: initialize_def initialize_locked_def release_lock_def Let_def split: if_splits)
qed

lemma exhausted_state_refused:
  assumes "view (state_now d) = Some (n, max_packet_id, True)" "initialize io block d = Some (r, a, d')"
  shows "r \<noteq> Inr () \<and> d' = d"
proof -
  have na: "state_now d \<noteq> Absent" using assms(1) by auto
  have st: "st_mark st = max_packet_id \<and> \<not> st_pending st" if "load_state (io_state_read io) d = Inr st" for st
    using view_Some [OF load_state_view(2) [OF that]] load_state_view(1) [OF that] assms(1) by simp
  show ?thesis
  proof (cases "load_state (io_state_read io) d")
    case (Inl e)
    then show ?thesis using assms(2) na
      by (auto simp: initialize_def initialize_locked_def release_lock_def Let_def split: if_splits)
  next
    case (Inr s)
    then show ?thesis using assms(2) na st [OF Inr]
      by (auto simp: initialize_def initialize_locked_def release_lock_def resume_def reserve_after_def
          Let_def split: if_splits sum.splits)
  qed
qed

end
