(* ===== verification/Health_Probe.thy ===== *)
theory Health_Probe
  imports Py_Json Py_Text
begin

text \<open>
  \<open>meshtastic_health.py\<close>: the adapter that asks the attached radio for its metadata and takes only the
  matching answer for a sign of life.  Workers, callers and the reader thread of the Meshtastic library
  are steps that interleave; what the library, the clock and the predicates of the callers answer is
  the input of the steps.  Interfaces, generations, callers and flights are numbers.
\<close>

subsection \<open>Results\<close>

datatype health_outcome =
  Verified | Alive_Protocol_Error | Inconclusive | Timeout | Transport_Error | Stale_Generation | Unsupported

record radio_metadata =
  firmware_version :: string
  device_state_version :: int
  hardware_model :: int

record health_result =
  r_outcome :: health_outcome
  r_detail :: string
  r_packet_id :: "int option"
  r_metadata :: "radio_metadata option"
  r_protocol_error :: "string option"
  r_elapsed :: time

subsection \<open>Values of the library\<close>

text \<open>
  The answer packet: nested dicts, and under \<open>raw\<close> a protobuf message, given by what
  \<open>HasField("get_device_metadata_response")\<close> does (\<open>None\<close> when it raises \<open>TypeError\<close> or \<open>ValueError\<close>) and
  by the attributes of that field.
\<close>

datatype packet_value =
    Plain json
  | Dict "(string \<times> packet_value) list"
  | Protobuf "bool option" "(string \<times> json) list"

definition packet_get :: "(string \<times> packet_value) list \<Rightarrow> string \<Rightarrow> packet_value" where
  "packet_get d k = (case map_of d k of None \<Rightarrow> Plain JNull | Some v \<Rightarrow> v)"

definition uint32 :: "json \<Rightarrow> int option" where
  "uint32 j =
     (case j of
        JInt n \<Rightarrow> if 0 \<le> n \<and> n \<le> 0xFFFFFFFF then Some n else None
      | JStr s \<Rightarrow>
          if s = [] \<or> \<not> list_all (\<lambda>c. digit_value c \<noteq> None) s then None
          else (case py_int s of Some n \<Rightarrow> if 0 \<le> n \<and> n \<le> 0xFFFFFFFF then Some n else None | None \<Rightarrow> None)
      | _ \<Rightarrow> None)"

definition plain_uint32 :: "packet_value \<Rightarrow> int option" where
  "plain_uint32 v = (case v of Plain j \<Rightarrow> uint32 j | _ \<Rightarrow> None)"

definition nonnegative_int :: "json \<Rightarrow> int option" where
  "nonnegative_int j = (case j of JInt n \<Rightarrow> if n < 0 then None else Some n | _ \<Rightarrow> None)"

definition positive_int :: "json \<Rightarrow> int option" where
  "positive_int j = (case j of JInt n \<Rightarrow> if n \<le> 0 then None else Some n | _ \<Rightarrow> None)"

text \<open>\<open>float(value)\<close> raises for an integer beyond the range of floats: the left side.\<close>

definition validate_timeout :: "json \<Rightarrow> unit + time option" where
  "validate_timeout j =
     (case j of
        JInt n \<Rightarrow>
          if 2 ^ 1024 - 2 ^ 970 \<le> \<bar>n\<bar> then Inl ()
          else Inr (if 0 < n then Some (of_int n) else None)
      | JFloat x \<Rightarrow> Inr (if 0 < x then Some x else None)
      | _ \<Rightarrow> Inr None)"

text \<open>An exception: its class among those told apart, the name of its type and its module, its text.\<close>

datatype exn_class = Attribute_Type_NotImplemented | Os_Class | Other_Exception | Base_Exception

record exn =
  exn_class :: exn_class
  exn_type :: string
  exn_module :: string
  exn_text :: string

definition transport_markers :: "string list" where
  "transport_markers = [''broken pipe'', ''device disconnected'', ''not connected'', ''port is closed'',
     ''serial port'', ''timed out'', ''transport closed'']"

definition is_transport_exception :: "exn \<Rightarrow> bool" where
  "is_transport_exception e =
     (exn_class e = Os_Class \<or> take 6 (exn_module e) = ''serial'' \<or>
      exn_type e \<in> {''SerialException'', ''SerialTimeoutException''} \<or>
      list_ex (\<lambda>m. occurs_in m (map lower_char (exn_text e))) transport_markers)"

subsection \<open>Flights\<close>

record probe_spec =
  expected_node_num :: int
  expected_hardware_model :: "int option"

record flight =
  f_iface :: nat
  f_generation :: nat
  f_spec :: probe_spec
  f_started :: time
  f_deadline :: time
  f_done :: bool
  f_result :: "health_result option"
  f_packet :: "int option"
  f_callback :: bool
  f_response :: "packet_value option"

definition max0 :: "time \<Rightarrow> time" where
  "max0 t = max 0 t"

definition flight_result :: "flight \<Rightarrow> time \<Rightarrow> health_outcome \<Rightarrow> string \<Rightarrow> health_result" where
  "flight_result fl now oc detail =
     \<lparr>r_outcome = oc, r_detail = detail, r_packet_id = f_packet fl, r_metadata = None,
      r_protocol_error = None, r_elapsed = max0 (now - f_started fl)\<rparr>"

definition plain_result :: "time \<Rightarrow> time \<Rightarrow> health_outcome \<Rightarrow> string \<Rightarrow> health_result" where
  "plain_result started now oc detail =
     \<lparr>r_outcome = oc, r_detail = detail, r_packet_id = None, r_metadata = None,
      r_protocol_error = None, r_elapsed = max0 (now - started)\<rparr>"

definition validate_metadata :: "flight \<Rightarrow> time \<Rightarrow> (string \<times> json) list \<Rightarrow> health_result" where
  "validate_metadata fl now attrs =
     (let bad = flight_result fl now Unsupported in
      case obj_get attrs ''firmware_version'' of
        JStr fw \<Rightarrow>
          if py_strip fw = [] then bad ''metadata_firmware_version_invalid''
          else
            (case nonnegative_int (obj_get attrs ''device_state_version'') of
               None \<Rightarrow> bad ''metadata_device_state_version_invalid''
             | Some dsv \<Rightarrow>
                 (case positive_int (obj_get attrs ''hw_model'') of
                    None \<Rightarrow> bad ''metadata_hardware_model_invalid''
                  | Some hw \<Rightarrow>
                      if expected_hardware_model (f_spec fl) \<noteq> None \<and>
                         expected_hardware_model (f_spec fl) \<noteq> Some hw
                      then bad ''metadata_hardware_model_mismatch''
                      else (flight_result fl now Verified ''correlated_local_metadata_response'')
                             \<lparr>r_metadata := Some \<lparr>firmware_version = py_strip fw,
                                device_state_version = dsv, hardware_model = hw\<rparr>\<rparr>))
      | _ \<Rightarrow> bad ''metadata_firmware_version_invalid'')"

definition validate_routing :: "flight \<Rightarrow> time \<Rightarrow> packet_value \<Rightarrow> health_result" where
  "validate_routing fl now v =
     (case v of
        Dict routing \<Rightarrow>
          (case packet_get routing ''errorReason'' of
             Plain (JStr e) \<Rightarrow>
               if e = [] \<or> e = ''NONE''
               then flight_result fl now Unsupported ''unexpected_ack_without_metadata''
               else (flight_result fl now Alive_Protocol_Error ''metadata_request_nak'')
                      \<lparr>r_protocol_error := Some e\<rparr>
           | _ \<Rightarrow> flight_result fl now Unsupported ''unexpected_ack_without_metadata'')
      | _ \<Rightarrow> flight_result fl now Unsupported ''routing_response_payload_invalid'')"

definition validate_admin :: "flight \<Rightarrow> time \<Rightarrow> packet_value \<Rightarrow> health_result" where
  "validate_admin fl now v =
     (let bad = flight_result fl now Unsupported in
      case v of
        Dict admin \<Rightarrow>
          (case packet_get admin ''raw'' of
             Protobuf has attrs \<Rightarrow>
               if has \<noteq> Some True then bad ''metadata_response_field_missing''
               else validate_metadata fl now attrs
           | _ \<Rightarrow> bad ''metadata_admin_raw_message_invalid'')
      | _ \<Rightarrow> bad ''metadata_admin_payload_invalid'')"

definition validate_response :: "flight \<Rightarrow> time \<Rightarrow> packet_value \<Rightarrow> health_result" where
  "validate_response fl now pk =
     (let bad = flight_result fl now Unsupported in
      case pk of
        Dict p \<Rightarrow>
          if plain_uint32 (packet_get p ''from'') \<noteq> Some (expected_node_num (f_spec fl))
          then bad ''metadata_response_source_mismatch''
          else
            (case packet_get p ''decoded'' of
               Dict decoded \<Rightarrow>
                 if plain_uint32 (packet_get decoded ''requestId'') \<noteq> f_packet fl
                 then bad ''metadata_response_request_id_mismatch''
                 else if packet_get decoded ''portnum'' = Plain (JStr ''ROUTING_APP'')
                 then validate_routing fl now (packet_get decoded ''routing'')
                 else if packet_get decoded ''portnum'' \<noteq> Plain (JStr ''ADMIN_APP'')
                 then bad ''metadata_response_port_invalid''
                 else validate_admin fl now (packet_get decoded ''admin'')
             | _ \<Rightarrow> bad ''metadata_response_decoded_payload_invalid'')
      | _ \<Rightarrow> bad ''metadata_response_not_a_mapping'')"

subsection \<open>The adapter\<close>

datatype worker_pc =
    W_Begin
  | W_Sending
  | W_Waiting
  | W_Judging
  | W_Clean health_result
  | W_Pop health_result
  | W_Release
  | W_Signal
  | W_Gone

datatype caller_pc =
    C_Waiting nat time
  | C_Current nat
  | C_Read nat
  | C_Done health_result

text \<open>An entry of \<open>responseHandlers\<close>: the callback of a flight, or somebody else's.\<close>

datatype callback = Own nat | Foreign nat

record adapter =
  h_free :: nat
  h_inflight :: "((nat \<times> nat), nat) pydict"
  h_flights :: "(nat, flight) pydict"
  h_workers :: "(nat, worker_pc) pydict"
  h_callers :: "(nat, caller_pc) pydict"
  h_handlers :: "((nat \<times> int), callback) pydict"
  h_next :: nat

definition new_adapter :: "nat \<Rightarrow> adapter" where
  "new_adapter max_workers = \<lparr>h_free = max_workers, h_inflight = [], h_flights = [], h_workers = [],
     h_callers = [], h_handlers = [], h_next = 0\<rparr>"

definition has_inflight :: "adapter \<Rightarrow> bool" where
  "has_inflight h = (h_inflight h \<noteq> [])"

text \<open>\<open>_remove_own_response_handler\<close>; \<open>usable\<close>: \<open>responseHandlers\<close> is a mapping.\<close>

definition remove_own_handler :: "bool \<Rightarrow> nat \<Rightarrow> adapter \<Rightarrow> adapter" where
  "remove_own_handler usable f h =
     (case map_of (h_flights h) f of
        None \<Rightarrow> h
      | Some fl \<Rightarrow>
          if \<not> f_callback fl \<or> \<not> usable then h
          else
            (case f_packet fl of
               Some r \<Rightarrow>
                 if map_of (h_handlers h) (f_iface fl, r) = Some (Own f)
                 then h\<lparr>h_handlers := AList.delete (f_iface fl, r) (h_handlers h)\<rparr>
                 else h\<lparr>h_handlers := filter (\<lambda>((i, r), c). \<not> (i = f_iface fl \<and> c = Own f)) (h_handlers h)\<rparr>
             | None \<Rightarrow>
                 h\<lparr>h_handlers := filter (\<lambda>((i, r), c). \<not> (i = f_iface fl \<and> c = Own f)) (h_handlers h)\<rparr>))"

subsection \<open>\<open>probe\<close>, up to the wait\<close>

text \<open>
  What one call is given and what it meets: its arguments, the answers of the predicate, of the version
  lookup and of the interface (a missing attribute reads as \<open>JNull\<close>), the start of the thread and the
  clock.  \<open>q_current\<close> is \<open>None\<close> when the predicate raised or did not return a bool.
\<close>

record request =
  q_iface :: nat
  q_generation :: nat
  q_timeout :: json
  q_callable :: bool
  q_hashable :: bool
  q_current :: "bool option"
  q_version :: "string option"
  q_send_admin :: bool
  q_expected_node :: json
  q_local_node :: json
  q_expected_hardware :: json
  q_queue_free :: "json option"
  q_start_error :: "string option"
  q_started :: time
  q_now :: time

datatype answer = Answered health_result | Waits nat time | Raises

definition support_error :: "string \<Rightarrow> string option \<Rightarrow> string option" where
  "support_error supported installed =
     (case installed of
        None \<Rightarrow> Some ''meshtastic_distribution_unavailable''
      | Some v \<Rightarrow> if v \<noteq> supported then Some (''meshtastic_version_unsupported'' @ [CHR 0x3A] @ v) else None)"

text \<open>The checks before the lock: the specification of the probe, or the answer.\<close>

definition admit :: "string \<Rightarrow> request \<Rightarrow> (health_result option) + (time \<times> probe_spec)" where
  "admit supported q =
     (let refuse = (\<lambda>oc d. Inl (Some (plain_result (q_started q) (q_now q) oc d))) in
      case validate_timeout (q_timeout q) of
        Inl _ \<Rightarrow> Inl None
      | Inr None \<Rightarrow> refuse Unsupported ''invalid_timeout''
      | Inr (Some timeout) \<Rightarrow>
          if \<not> q_callable q then refuse Unsupported ''is_current_must_be_callable''
          else if \<not> q_hashable q then refuse Unsupported ''generation_must_be_hashable''
          else if q_current q = None then refuse Unsupported ''generation_predicate_failed''
          else if q_current q = Some False then refuse Stale_Generation ''generation_is_not_current''
          else
            (case support_error supported (q_version q) of
               Some e \<Rightarrow> refuse Unsupported e
             | None \<Rightarrow>
                 if \<not> q_send_admin q then refuse Unsupported ''meshtastic_2_7_10_send_admin_api_unavailable''
                 else
                   (case uint32 (if q_expected_node q \<noteq> JNull then q_expected_node q else q_local_node q) of
                      None \<Rightarrow> refuse Unsupported ''local_node_number_invalid''
                    | Some node \<Rightarrow>
                        if q_expected_hardware q = JNull
                        then Inr (timeout, \<lparr>expected_node_num = node, expected_hardware_model = None\<rparr>)
                        else
                          (case positive_int (q_expected_hardware q) of
                             None \<Rightarrow> refuse Unsupported ''expected_hardware_model_invalid''
                           | Some hw \<Rightarrow>
                               Inr (timeout, \<lparr>expected_node_num = node, expected_hardware_model = Some hw\<rparr>)))))"

definition queue_precheck :: "request \<Rightarrow> health_result option" where
  "queue_precheck q =
     (case q_queue_free q of
        None \<Rightarrow> None
      | Some j \<Rightarrow>
          (case nonnegative_int j of
             None \<Rightarrow> Some (plain_result (q_started q) (q_now q) Unsupported ''tx_queue_status_invalid'')
           | Some n \<Rightarrow>
               if n = 0 then Some (plain_result (q_started q) (q_now q) Inconclusive ''tx_queue_has_no_free_space'')
               else None))"

definition new_flight :: "request \<Rightarrow> time \<Rightarrow> probe_spec \<Rightarrow> flight" where
  "new_flight q timeout spec =
     \<lparr>f_iface = q_iface q, f_generation = q_generation q, f_spec = spec, f_started = q_started q,
      f_deadline = q_started q + timeout, f_done = False, f_result = None, f_packet = None,
      f_callback = False, f_response = None\<rparr>"

text \<open>
  The section under the lock (a thread that does not start gives its slot and its entry back, so that
  nothing has changed), and the deadline that \<open>_wait_for_flight\<close> computes.\<close>

definition wait_until :: "request \<Rightarrow> time \<Rightarrow> flight \<Rightarrow> time" where
  "wait_until q timeout fl = min (q_now q + timeout) (f_deadline fl)"

definition join_flight :: "request \<Rightarrow> time \<Rightarrow> probe_spec \<Rightarrow> nat \<Rightarrow> adapter \<Rightarrow> answer" where
  "join_flight q timeout spec f h =
     (case map_of (h_flights h) f of
        None \<Rightarrow> Raises
      | Some fl \<Rightarrow>
          if f_iface fl \<noteq> q_iface q \<or> f_spec fl \<noteq> spec
          then Answered (plain_result (q_started q) (q_now q) Unsupported
                 ''conflicting_probe_for_interface_generation'')
          else Waits f (wait_until q timeout fl))"

definition launch_flight :: "request \<Rightarrow> time \<Rightarrow> probe_spec \<Rightarrow> adapter \<Rightarrow> adapter \<times> answer" where
  "launch_flight q timeout spec h =
     (case queue_precheck q of
        Some r \<Rightarrow> (h, Answered r)
      | None \<Rightarrow>
          if h_free h = 0
          then (h, Answered (plain_result (q_started q) (q_now q) Inconclusive ''probe_worker_capacity_exhausted''))
          else
            (case q_start_error q of
               Some e \<Rightarrow> (h, Answered (plain_result (q_started q) (q_now q) Unsupported
                   (''probe_worker_start_failed'' @ [CHR 0x3A] @ e)))
             | None \<Rightarrow>
                 (let f = h_next h; fl = new_flight q timeout spec in
                  (h\<lparr>h_free := h_free h - 1,
                     h_inflight := AList.update (q_iface q, q_generation q) f (h_inflight h),
                     h_flights := AList.update f fl (h_flights h),
                     h_workers := AList.update f W_Begin (h_workers h),
                     h_next := f + 1\<rparr>,
                   Waits f (wait_until q timeout fl)))))"

definition probe :: "string \<Rightarrow> request \<Rightarrow> adapter \<Rightarrow> adapter \<times> answer" where
  "probe supported q h =
     (case admit supported q of
        Inl None \<Rightarrow> (h, Raises)
      | Inl (Some r) \<Rightarrow> (h, Answered r)
      | Inr (timeout, spec) \<Rightarrow>
          (case map_of (h_inflight h) (q_iface q, q_generation q) of
             Some f \<Rightarrow> (h, join_flight q timeout spec f h)
           | None \<Rightarrow> launch_flight q timeout spec h))"

subsection \<open>\<open>_run_flight\<close>\<close>

definition fail_name :: "string \<Rightarrow> string \<Rightarrow> string" where
  "fail_name prefix name = prefix @ [CHR 0x3A] @ name"

datatype message_outcome = No_Message | No_Field | Message_Ready

datatype send_outcome = Sent json | Raised exn

definition set_worker :: "nat \<Rightarrow> worker_pc \<Rightarrow> adapter \<Rightarrow> adapter" where
  "set_worker f pc h = h\<lparr>h_workers := AList.update f pc (h_workers h)\<rparr>"

definition set_flight :: "nat \<Rightarrow> flight \<Rightarrow> adapter \<Rightarrow> adapter" where
  "set_flight f fl h = h\<lparr>h_flights := AList.update f fl (h_flights h)\<rparr>"

text \<open>Up to the call of \<open>_sendAdmin\<close>.\<close>

definition begin_result :: "flight \<Rightarrow> time \<Rightarrow> bool option \<Rightarrow> message_outcome \<Rightarrow> health_result option" where
  "begin_result fl now cur msg =
     (case cur of
        None \<Rightarrow> Some (flight_result fl now Unsupported ''generation_predicate_failed'')
      | Some False \<Rightarrow> Some (flight_result fl now Stale_Generation ''generation_became_stale_before_send'')
      | Some True \<Rightarrow>
          (case msg of
             No_Message \<Rightarrow> Some (flight_result fl now Unsupported ''meshtastic_admin_message_unavailable'')
           | No_Field \<Rightarrow> Some (flight_result fl now Unsupported ''metadata_request_field_unavailable'')
           | Message_Ready \<Rightarrow> None))"

definition worker_begin :: "nat \<Rightarrow> bool option \<Rightarrow> message_outcome \<Rightarrow> time \<Rightarrow> flight \<Rightarrow> adapter \<Rightarrow> adapter" where
  "worker_begin f cur msg now fl h =
     (let fl = fl\<lparr>f_callback := True\<rparr> in
      set_flight f fl
        (case begin_result fl now cur msg of
           Some r \<Rightarrow> set_worker f (W_Clean r) h
         | None \<Rightarrow> set_worker f W_Sending h))"

definition send_failure :: "flight \<Rightarrow> time \<Rightarrow> exn \<Rightarrow> health_result" where
  "send_failure fl now e =
     (case exn_class e of
        Attribute_Type_NotImplemented \<Rightarrow>
          flight_result fl now Unsupported (fail_name ''metadata_request_api_incompatible'' (exn_type e))
      | Base_Exception \<Rightarrow>
          flight_result fl now Unsupported (fail_name ''metadata_request_aborted'' (exn_type e))
      | _ \<Rightarrow>
          if is_transport_exception e
          then flight_result fl now Transport_Error (fail_name ''metadata_request_transport_failed'' (exn_type e))
          else flight_result fl now Unsupported (fail_name ''metadata_request_send_failed'' (exn_type e)))"

text \<open>\<open>_sendAdmin\<close> returned a packet with this \<open>id\<close>, or raised.\<close>

definition worker_sent :: "nat \<Rightarrow> send_outcome \<Rightarrow> time \<Rightarrow> flight \<Rightarrow> adapter \<Rightarrow> adapter" where
  "worker_sent f out now fl h =
     (case out of
        Raised e \<Rightarrow> set_worker f (W_Clean (send_failure fl now e)) h
      | Sent j \<Rightarrow>
          (let fl = fl\<lparr>f_packet := uint32 j\<rparr> in
           set_flight f fl
             (if f_packet fl = None
              then set_worker f (W_Clean (flight_result fl now Unsupported ''metadata_request_packet_id_invalid'')) h
              else set_worker f W_Waiting h)))"

text \<open>The wait for the response: it ends when one is there or the deadline has passed.\<close>

definition worker_wait :: "nat \<Rightarrow> time \<Rightarrow> flight \<Rightarrow> adapter \<Rightarrow> adapter" where
  "worker_wait f now fl h =
     (if f_response fl \<noteq> None then set_worker f W_Judging h
      else if f_deadline fl \<le> now
      then set_worker f (W_Clean (flight_result fl now Timeout ''metadata_response_timeout'')) h
      else h)"

definition judgement :: "flight \<Rightarrow> bool option \<Rightarrow> time \<Rightarrow> health_result" where
  "judgement fl cur now =
     (case cur of
        None \<Rightarrow> flight_result fl now Unsupported ''generation_predicate_failed''
      | Some False \<Rightarrow> flight_result fl now Stale_Generation ''metadata_response_from_stale_generation''
      | Some True \<Rightarrow>
          validate_response fl now (case f_response fl of Some pk \<Rightarrow> pk | None \<Rightarrow> Plain JNull))"

text \<open>Any exception that the branches above do not handle ends at the outer boundary.\<close>

definition worker_fault :: "nat \<Rightarrow> string \<Rightarrow> time \<Rightarrow> flight \<Rightarrow> adapter \<Rightarrow> adapter" where
  "worker_fault f name now fl h =
     set_flight f (fl\<lparr>f_callback := True\<rparr>)
       (set_worker f (W_Clean (flight_result fl now Unsupported (fail_name ''health_adapter_failure'' name))) h)"

text \<open>\<open>_finish_flight\<close>: cleanup (which may raise), entry and slot, signal.\<close>

definition finish_clean :: "nat \<Rightarrow> bool \<Rightarrow> bool \<Rightarrow> health_result \<Rightarrow> adapter \<Rightarrow> adapter" where
  "finish_clean f usable raises r h =
     set_worker f (W_Pop r) (if raises then h else remove_own_handler usable f h)"

definition finish_pop :: "nat \<Rightarrow> health_result \<Rightarrow> flight \<Rightarrow> adapter \<Rightarrow> adapter" where
  "finish_pop f r fl h =
     (let key = (f_iface fl, f_generation fl);
          h = set_flight f (fl\<lparr>f_result := Some r\<rparr>) h;
          h = (if map_of (h_inflight h) key = Some f
               then h\<lparr>h_inflight := AList.delete key (h_inflight h)\<rparr> else h)
      in set_worker f W_Release h)"

definition finish_release :: "nat \<Rightarrow> adapter \<Rightarrow> adapter" where
  "finish_release f h = set_worker f W_Signal (h\<lparr>h_free := h_free h + 1\<rparr>)"

definition finish_signal :: "nat \<Rightarrow> flight \<Rightarrow> adapter \<Rightarrow> adapter" where
  "finish_signal f fl h = set_worker f W_Gone (set_flight f (fl\<lparr>f_done := True\<rparr>) h)"

subsection \<open>\<open>_wait_for_flight\<close>\<close>

definition set_caller :: "nat \<Rightarrow> caller_pc \<Rightarrow> adapter \<Rightarrow> adapter" where
  "set_caller c pc h = h\<lparr>h_callers := AList.update c pc (h_callers h)\<rparr>"

definition caller_wake :: "nat \<Rightarrow> nat \<Rightarrow> time \<Rightarrow> time \<Rightarrow> flight \<Rightarrow> adapter \<Rightarrow> adapter" where
  "caller_wake c f limit now fl h =
     (if f_done fl \<or> limit \<le> now then set_caller c (C_Current f) h else h)"

definition caller_check :: "nat \<Rightarrow> nat \<Rightarrow> bool \<Rightarrow> bool option \<Rightarrow> time \<Rightarrow> flight \<Rightarrow> adapter \<Rightarrow> adapter" where
  "caller_check c f usable cur now fl h =
     (case cur of
        None \<Rightarrow> set_caller c (C_Done (flight_result fl now Unsupported ''generation_predicate_failed''))
                  (remove_own_handler usable f h)
      | Some False \<Rightarrow>
          set_caller c (C_Done (flight_result fl now Stale_Generation ''generation_became_stale_while_waiting''))
            (remove_own_handler usable f h)
      | Some True \<Rightarrow> set_caller c (C_Read f) h)"

definition caller_read :: "nat \<Rightarrow> nat \<Rightarrow> bool \<Rightarrow> time \<Rightarrow> flight \<Rightarrow> adapter \<Rightarrow> adapter" where
  "caller_read c f usable now fl h =
     (case (f_done fl, f_result fl) of
        (True, Some r) \<Rightarrow> set_caller c (C_Done r) h
      | _ \<Rightarrow>
          set_caller c (C_Done (flight_result fl now Timeout ''probe_deadline_exceeded''))
            (if f_deadline fl \<le> now then remove_own_handler usable f h else h))"

subsection \<open>Interleavings\<close>

text \<open>
  \<open>Deliver\<close>: the reader thread calls the callback of a flight with any packet at any time.
  \<open>Lib_Set\<close> and \<open>Lib_Pop\<close>: the library enters and removes handlers.
\<close>

datatype health_label =
    Probe nat request
  | Worker_Begin nat "bool option" message_outcome time
  | Worker_Sent nat send_outcome time
  | Worker_Wait nat time
  | Worker_Judge nat "bool option" time
  | Worker_Fault nat string time
  | Finish nat bool bool
  | Caller_Wake nat time
  | Caller_Check nat bool "bool option" time
  | Caller_Read nat bool time
  | Deliver nat packet_value
  | Lib_Set nat int callback
  | Lib_Pop nat int

definition deliver :: "packet_value \<Rightarrow> flight \<Rightarrow> flight" where
  "deliver pk fl = (if f_response fl = None then fl\<lparr>f_response := Some pk\<rparr> else fl)"

definition worker_step :: "health_label \<Rightarrow> worker_pc \<Rightarrow> flight \<Rightarrow> adapter \<Rightarrow> adapter" where
  "worker_step l pc fl h =
     (case l of
        Worker_Begin f cur msg now \<Rightarrow> if pc = W_Begin then worker_begin f cur msg now fl h else h
      | Worker_Sent f out now \<Rightarrow> if pc = W_Sending then worker_sent f out now fl h else h
      | Worker_Wait f now \<Rightarrow> if pc = W_Waiting then worker_wait f now fl h else h
      | Worker_Judge f cur now \<Rightarrow>
          if pc = W_Judging then set_worker f (W_Clean (judgement fl cur now)) h else h
      | Worker_Fault f name now \<Rightarrow>
          if pc \<in> {W_Begin, W_Sending, W_Waiting, W_Judging} then worker_fault f name now fl h else h
      | Finish f usable raises \<Rightarrow>
          (case pc of
             W_Clean r \<Rightarrow> finish_clean f usable raises r h
           | W_Pop r \<Rightarrow> finish_pop f r fl h
           | W_Release \<Rightarrow> finish_release f h
           | W_Signal \<Rightarrow> finish_signal f fl h
           | _ \<Rightarrow> h)
      | _ \<Rightarrow> h)"

definition worker_of :: "health_label \<Rightarrow> nat option" where
  "worker_of l =
     (case l of Worker_Begin f _ _ _ \<Rightarrow> Some f | Worker_Sent f _ _ \<Rightarrow> Some f | Worker_Wait f _ \<Rightarrow> Some f
      | Worker_Judge f _ _ \<Rightarrow> Some f | Worker_Fault f _ _ \<Rightarrow> Some f | Finish f _ _ \<Rightarrow> Some f | _ \<Rightarrow> None)"

definition caller_step :: "health_label \<Rightarrow> adapter \<Rightarrow> adapter" where
  "caller_step l h =
     (case l of
        Caller_Wake c now \<Rightarrow>
          (case map_of (h_callers h) c of
             Some (C_Waiting f limit) \<Rightarrow>
               (case map_of (h_flights h) f of Some fl \<Rightarrow> caller_wake c f limit now fl h | None \<Rightarrow> h)
           | _ \<Rightarrow> h)
      | Caller_Check c usable cur now \<Rightarrow>
          (case map_of (h_callers h) c of
             Some (C_Current f) \<Rightarrow>
               (case map_of (h_flights h) f of Some fl \<Rightarrow> caller_check c f usable cur now fl h | None \<Rightarrow> h)
           | _ \<Rightarrow> h)
      | Caller_Read c usable now \<Rightarrow>
          (case map_of (h_callers h) c of
             Some (C_Read f) \<Rightarrow>
               (case map_of (h_flights h) f of Some fl \<Rightarrow> caller_read c f usable now fl h | None \<Rightarrow> h)
           | _ \<Rightarrow> h)
      | _ \<Rightarrow> h)"

definition health_step :: "string \<Rightarrow> adapter \<Rightarrow> health_label \<Rightarrow> adapter" where
  "health_step supported h l =
     (case l of
        Probe c q \<Rightarrow>
          if map_of (h_callers h) c \<noteq> None then h
          else
            (case probe supported q h of
               (h', Answered r) \<Rightarrow> set_caller c (C_Done r) h'
             | (h', Waits f limit) \<Rightarrow> set_caller c (C_Waiting f limit) h'
             | (h', Raises) \<Rightarrow> h')
      | Deliver f pk \<Rightarrow>
          (case map_of (h_flights h) f of
             Some fl \<Rightarrow> if f_callback fl then set_flight f (deliver pk fl) h else h
           | None \<Rightarrow> h)
      | Lib_Set i r c \<Rightarrow> h\<lparr>h_handlers := AList.update (i, r) c (h_handlers h)\<rparr>
      | Lib_Pop i r \<Rightarrow> h\<lparr>h_handlers := AList.delete (i, r) (h_handlers h)\<rparr>
      | _ \<Rightarrow>
          (case worker_of l of
             Some f \<Rightarrow>
               (case (map_of (h_workers h) f, map_of (h_flights h) f) of
                  (Some pc, Some fl) \<Rightarrow> worker_step l pc fl h
                | _ \<Rightarrow> h)
           | None \<Rightarrow> caller_step l h))"

definition health_run :: "string \<Rightarrow> adapter \<Rightarrow> health_label list \<Rightarrow> adapter" where
  "health_run supported h ls = foldl (health_step supported) h ls"

end
