(* ===== verification/Health_Books.thy ===== *)
theory Health_Books
  imports Health_Probe "HOL-Library.Sublist"
begin

text \<open>
  The worker slots, entries and response handlers of the health adapter: nothing is lost or given back
  twice in any interleaving, and handlers of others are left alone.
\<close>

lemma set_fields [simp]:
  "h_flights (set_worker f pc h) = h_flights h" "h_inflight (set_worker f pc h) = h_inflight h"
  "h_free (set_worker f pc h) = h_free h" "h_callers (set_worker f pc h) = h_callers h"
  "h_handlers (set_worker f pc h) = h_handlers h" "h_next (set_worker f pc h) = h_next h"
  "h_workers (set_worker f pc h) = AList.update f pc (h_workers h)"
  "h_flights (set_flight f fl h) = AList.update f fl (h_flights h)" "h_inflight (set_flight f fl h) = h_inflight h"
  "h_free (set_flight f fl h) = h_free h" "h_callers (set_flight f fl h) = h_callers h"
  "h_handlers (set_flight f fl h) = h_handlers h" "h_next (set_flight f fl h) = h_next h"
  "h_workers (set_flight f fl h) = h_workers h"
  "h_flights (set_caller c cp h) = h_flights h" "h_inflight (set_caller c cp h) = h_inflight h"
  "h_free (set_caller c cp h) = h_free h" "h_callers (set_caller c cp h) = AList.update c cp (h_callers h)"
  "h_handlers (set_caller c cp h) = h_handlers h" "h_next (set_caller c cp h) = h_next h"
  "h_workers (set_caller c cp h) = h_workers h"
  by (simp_all add: set_worker_def set_flight_def set_caller_def)

lemma remove_own_fields [simp]:
  "h_flights (remove_own_handler u f h) = h_flights h" "h_inflight (remove_own_handler u f h) = h_inflight h"
  "h_free (remove_own_handler u f h) = h_free h" "h_callers (remove_own_handler u f h) = h_callers h"
  "h_next (remove_own_handler u f h) = h_next h" "h_workers (remove_own_handler u f h) = h_workers h"
  by (simp_all add: remove_own_handler_def split: option.splits)

subsection \<open>Slots and entries\<close>

definition holding :: "worker_pc \<Rightarrow> bool" where
  "holding pc = (pc \<notin> {W_Signal, W_Gone})"

definition entered :: "worker_pc \<Rightarrow> bool" where
  "entered pc = (holding pc \<and> pc \<noteq> W_Release)"

abbreviation held :: "(nat, worker_pc) pydict \<Rightarrow> nat" where
  "held ws \<equiv> length (filter (\<lambda>(f, pc). holding pc) ws)"

definition flight_key :: "flight \<Rightarrow> nat \<times> nat" where
  "flight_key fl = (f_iface fl, f_generation fl)"

lemma flight_key_cong [simp]:
  "flight_key (fl\<lparr>f_result := x\<rparr>) = flight_key fl" "flight_key (fl\<lparr>f_done := d\<rparr>) = flight_key fl"
  "flight_key (fl\<lparr>f_callback := cb\<rparr>) = flight_key fl" "flight_key (fl\<lparr>f_packet := pk\<rparr>) = flight_key fl"
  "flight_key (fl\<lparr>f_response := rs\<rparr>) = flight_key fl"
  by (simp_all add: flight_key_def)

text \<open>Where a worker is, what its flight shows and what the adapter lists about it.\<close>

definition flight_ok :: "adapter \<Rightarrow> nat \<Rightarrow> worker_pc \<Rightarrow> flight \<Rightarrow> bool" where
  "flight_ok h f pc fl =
     (f < h_next h \<and> (entered pc \<longleftrightarrow> map_of (h_inflight h) (flight_key fl) = Some f) \<and>
      (f_result fl \<noteq> None \<longleftrightarrow> \<not> entered pc) \<and> (f_done fl \<longleftrightarrow> pc = W_Gone))"

definition books_ok :: "nat \<Rightarrow> adapter \<Rightarrow> bool" where
  "books_ok m h =
     (h_free h + held (h_workers h) = m \<and>
      (\<forall>f. map_of (h_workers h) f = None \<longleftrightarrow> map_of (h_flights h) f = None) \<and>
      (\<forall>f pc fl. map_of (h_workers h) f = Some pc \<longrightarrow> map_of (h_flights h) f = Some fl \<longrightarrow> flight_ok h f pc fl) \<and>
      (\<forall>k f. map_of (h_inflight h) k = Some f \<longrightarrow>
         (\<exists>fl. map_of (h_flights h) f = Some fl \<and> flight_key fl = k)))"

lemma held_update_old:
  assumes "map_of ws f = Some pc"
  shows "held (AList.update f pc' ws) + (if holding pc then 1 else 0) = held ws + (if holding pc' then 1 else 0)"
  using assms by (induction ws) auto

lemma held_update_new:
  assumes "map_of ws f = None"
  shows "held (AList.update f pc ws) = held ws + (if holding pc then 1 else 0)"
  using assms by (induction ws) (auto split: if_splits)

lemma books_okD:
  assumes "books_ok m h"
  shows "h_free h + held (h_workers h) = m"
    "map_of (h_workers h) f = None \<longleftrightarrow> map_of (h_flights h) f = None"
    "map_of (h_workers h) f = Some pc \<Longrightarrow> map_of (h_flights h) f = Some fl \<Longrightarrow> flight_ok h f pc fl"
    "map_of (h_inflight h) k = Some f \<Longrightarrow> \<exists>fl. map_of (h_flights h) f = Some fl \<and> flight_key fl = k"
  using assms unfolding books_ok_def by blast+

text \<open>A step of one worker.\<close>

lemma books_ok_worker:
  assumes "books_ok m h" "map_of (h_workers h) f = Some pc" "map_of (h_flights h) f = Some fl"
    "h_next h' = h_next h" "h_workers h' = AList.update f pc' (h_workers h)"
    "h_flights h' = AList.update f fl' (h_flights h)" "flight_key fl' = flight_key fl"
    "h_free h' + (if holding pc' then 1 else 0) = h_free h + (if holding pc then 1 else 0)"
    "\<And>k g. map_of (h_inflight h') k = Some g \<Longrightarrow> map_of (h_inflight h) k = Some g"
    "\<And>k g. map_of (h_inflight h) k = Some g \<Longrightarrow> g \<noteq> f \<Longrightarrow> map_of (h_inflight h') k = Some g"
    "flight_ok h' f pc' fl'"
  shows "books_ok m h'"
  unfolding books_ok_def
proof (intro conjI allI impI)
  note b = books_okD [OF assms(1)]
  show "h_free h' + held (h_workers h') = m"
    using b(1) assms(5,8) held_update_old [OF assms(2), of pc'] by auto
  show "(map_of (h_workers h') g = None) = (map_of (h_flights h') g = None)" for g
    using b(2) [of g] assms(5,6) by (simp add: dict_simps)
  show "flight_ok h' g qc gl"
    if "map_of (h_workers h') g = Some qc" "map_of (h_flights h') g = Some gl" for g qc gl
  proof (cases "g = f")
    case True
    then show ?thesis using that assms(5,6,11) by (simp add: dict_simps)
  next
    case False
    then have ok: "flight_ok h g qc gl" using that assms(5,6) b(3) by (simp add: dict_simps)
    have "map_of (h_inflight h') k = Some g \<longleftrightarrow> map_of (h_inflight h) k = Some g" for k
      using False assms(9,10) by blast
    then show ?thesis using ok assms(4) by (simp add: flight_ok_def)
  qed
  show "\<exists>gl. map_of (h_flights h') g = Some gl \<and> flight_key gl = k"
    if "map_of (h_inflight h') k = Some g" for k g
    using b(4) [OF assms(9) [OF that]] assms(3,6,7) by (auto simp: dict_simps)
qed

lemma books_ok_cong:
  assumes "books_ok m h" "h_workers h' = h_workers h" "h_flights h' = h_flights h"
    "h_inflight h' = h_inflight h" "h_free h' = h_free h" "h_next h' = h_next h"
  shows "books_ok m h'"
  using assms by (simp add: books_ok_def flight_ok_def)

text \<open>A worker before its end keeps slot and entry.\<close>

lemma books_ok_busy:
  assumes "books_ok m h" "map_of (h_workers h) f = Some pc" "map_of (h_flights h) f = Some fl"
    "h_workers h' = AList.update f pc' (h_workers h)" "entered pc" "entered pc'"
    "h_flights h' = AList.update f fl' (h_flights h)" "flight_key fl' = flight_key fl"
    "f_result fl' = f_result fl" "f_done fl' = f_done fl"
    "h_inflight h' = h_inflight h" "h_free h' = h_free h" "h_next h' = h_next h"
  shows "books_ok m h'"
proof (rule books_ok_worker [OF assms(1-3,13,4,7,8)])
  have "flight_ok h f pc fl" by (rule books_okD(3) [OF assms(1-3)])
  then show "flight_ok h' f pc' fl'"
    using assms(5,6,8-11,13) by (auto simp: flight_ok_def entered_def holding_def)
qed (use assms in \<open>simp_all add: entered_def\<close>)

lemma update_same: "map_of d k = Some v \<Longrightarrow> AList.update k v d = d"
  by (induction d) auto

lemma worker_step_books:
  assumes "books_ok m h" "map_of (h_workers h) f = Some pc" "map_of (h_flights h) f = Some fl"
    "worker_of l = Some f"
  shows "books_ok m (worker_step l pc fl h)"
proof -
  note busy = books_ok_busy [OF assms(1-3)]
  note ok = books_okD(3) [OF assms(1-3)]
  have e: "entered W_Begin" "entered W_Sending" "entered W_Waiting" "entered W_Judging"
    "entered (W_Clean r)" "entered (W_Pop r)" for r
    by (simp_all add: entered_def holding_def)
  have fl: "AList.update f fl (h_flights h) = h_flights h" by (rule update_same [OF assms(3)])
  show ?thesis
  proof (cases l)
    case (Worker_Begin g cur msg now)
    then show ?thesis
      using assms(1,4) e by (auto simp: worker_of_def worker_step_def worker_begin_def Let_def
        intro!: busy [where fl' = "fl\<lparr>f_callback := True\<rparr>"] split: option.splits)
  next
    case (Worker_Sent g out now)
    show ?thesis
    proof (cases out)
      case (Sent j)
      then show ?thesis
        using assms(1,4) e Worker_Sent by (auto simp: worker_of_def worker_step_def worker_sent_def Let_def
          intro!: busy [where fl' = "fl\<lparr>f_packet := uint32 j\<rparr>"])
    next
      case (Raised x)
      then show ?thesis
        using assms(1,4) e fl Worker_Sent by (auto simp: worker_of_def worker_step_def worker_sent_def
          intro!: busy [where fl' = fl])
    qed
  next
    case (Worker_Wait g now)
    then show ?thesis
      using assms(1,4) e fl by (auto simp: worker_of_def worker_step_def worker_wait_def
        intro!: busy [where fl' = fl])
  next
    case (Worker_Judge g cur now)
    then show ?thesis
      using assms(1,4) e fl by (auto simp: worker_of_def worker_step_def intro!: busy [where fl' = fl])
  next
    case (Worker_Fault g name now)
    then show ?thesis
      using assms(1,4) e by (auto simp: worker_of_def worker_step_def worker_fault_def
        intro!: busy [where fl' = "fl\<lparr>f_callback := True\<rparr>"])
  next
    case (Finish g usable raises)
    then have g: "g = f" using assms(4) by (simp add: worker_of_def)
    note worker = books_ok_worker [OF assms(1-3)]
    show ?thesis
    proof (cases pc)
      case (W_Clean r)
      then show ?thesis using assms(1) e fl g Finish
        by (auto simp: worker_step_def finish_clean_def intro!: busy [where fl' = fl])
    next
      case (W_Pop r)
      let ?h = "worker_step l pc fl h"
      have own: "map_of (h_inflight h) (flight_key fl) = Some f" using ok e W_Pop by (simp add: flight_ok_def)
      have h: "h_inflight ?h = AList.delete (flight_key fl) (h_inflight h)" "h_free ?h = h_free h"
        "h_next ?h = h_next h" "h_workers ?h = AList.update f W_Release (h_workers h)"
        "h_flights ?h = AList.update f (fl\<lparr>f_result := Some r\<rparr>) (h_flights h)"
        using own W_Pop Finish g by (simp_all add: worker_step_def finish_pop_def Let_def flight_key_def)
      have new: "flight_ok ?h f W_Release (fl\<lparr>f_result := Some r\<rparr>)"
        using ok W_Pop h(1,3) by (simp add: flight_ok_def dict_simps entered_def holding_def)
      show ?thesis
      proof (rule worker [OF h(3-5)])
        show "map_of (h_inflight ?h) k = Some g" if "map_of (h_inflight h) k = Some g" "g \<noteq> f" for k g
          using that own by (auto simp: h(1) dict_simps)
        show "map_of (h_inflight h) k = Some g" if "map_of (h_inflight ?h) k = Some g" for k g
          using that by (simp add: h(1) dict_simps split: if_splits)
      qed (use new W_Pop h(2) in \<open>simp_all add: holding_def\<close>)
    next
      case W_Release
      let ?h = "worker_step l pc fl h"
      have h: "h_next ?h = h_next h" "h_workers ?h = AList.update f W_Signal (h_workers h)"
        "h_flights ?h = AList.update f fl (h_flights h)" "h_inflight ?h = h_inflight h" "h_free ?h = h_free h + 1"
        using W_Release Finish g fl by (simp_all add: worker_step_def finish_release_def)
      show ?thesis
        by (rule worker [OF h(1-3)])
          (use ok W_Release h in \<open>auto simp: flight_ok_def entered_def holding_def\<close>)
    next
      case W_Signal
      let ?h = "worker_step l pc fl h"
      have h: "h_next ?h = h_next h" "h_workers ?h = AList.update f W_Gone (h_workers h)"
        "h_flights ?h = AList.update f (fl\<lparr>f_done := True\<rparr>) (h_flights h)" "h_inflight ?h = h_inflight h"
        "h_free ?h = h_free h"
        using W_Signal Finish g by (simp_all add: worker_step_def finish_signal_def)
      show ?thesis
        by (rule worker [OF h(1-3)])
          (use ok W_Signal h in \<open>auto simp: flight_ok_def entered_def holding_def\<close>)
    qed (use assms(1) Finish g in \<open>simp_all add: worker_step_def\<close>)
  qed (use assms(4) in \<open>simp_all add: worker_of_def\<close>)
qed

lemma launch_books:
  assumes "books_ok m h" "map_of (h_inflight h) (q_iface q, q_generation q) = None"
    "\<And>g. h_next h \<le> g \<Longrightarrow> map_of (h_workers h) g = None"
    "launch_flight q timeout spec h = (h', a)"
  shows "books_ok m h'"
proof (cases "queue_precheck q = None \<and> h_free h \<noteq> 0 \<and> q_start_error q = None")
  case False
  then show ?thesis using assms(1,4) by (auto simp: launch_flight_def split: option.splits if_splits)
next
  case True
  let ?f = "h_next h" and ?fl = "new_flight q timeout spec" and ?k = "(q_iface q, q_generation q)"
  have h': "h_free h' = h_free h - 1" "h_inflight h' = AList.update ?k ?f (h_inflight h)"
    "h_flights h' = AList.update ?f ?fl (h_flights h)" "h_workers h' = AList.update ?f W_Begin (h_workers h)"
    "h_next h' = ?f + 1"
    using True assms(4) by (auto simp: launch_flight_def Let_def split: option.splits)
  note b = books_okD [OF assms(1)]
  have new: "map_of (h_workers h) ?f = None" "map_of (h_flights h) ?f = None"
    using assms(3) [of ?f] b(2) [of ?f] by simp_all
  have key: "flight_key ?fl = ?k" by (simp add: flight_key_def new_flight_def)
  have pos: "0 < h_free h" "holding W_Begin" using True by (simp_all add: holding_def)
  show ?thesis
    unfolding books_ok_def
  proof (intro conjI allI impI)
    show "h_free h' + held (h_workers h') = m"
      using b(1) pos held_update_new [OF new(1), of W_Begin] unfolding h'(1,4) by simp
    show "(map_of (h_workers h') g = None) = (map_of (h_flights h') g = None)" for g
      using b(2) [of g] unfolding h'(3,4) by (simp add: dict_simps)
    show "flight_ok h' g pc gl"
      if "map_of (h_workers h') g = Some pc" "map_of (h_flights h') g = Some gl" for g pc gl
    proof (cases "g = ?f")
      case True
      then have "pc = W_Begin" "gl = ?fl" using that unfolding h'(3,4) by (simp_all add: dict_simps)
      then show ?thesis using True h'(2,5) key
        by (simp add: flight_ok_def dict_simps entered_def holding_def new_flight_def)
    next
      case False
      then have "flight_ok h g pc gl" using that b(3) unfolding h'(3,4) by (simp add: dict_simps)
      then show ?thesis using False assms(2) h'(2,5) by (auto simp: flight_ok_def dict_simps)
    qed
    show "\<exists>gl. map_of (h_flights h') g = Some gl \<and> flight_key gl = k"
      if "map_of (h_inflight h') k = Some g" for k g
      using that key new(2) b(4) [of k g] unfolding h'(2,3) by (auto simp: dict_simps split: if_splits)
  qed
qed

lemma fresh_worker: "books_ok m h \<Longrightarrow> h_next h \<le> g \<Longrightarrow> map_of (h_workers h) g = None"
proof (rule ccontr)
  assume b: "books_ok m h" "h_next h \<le> g" "map_of (h_workers h) g \<noteq> None"
  then obtain pc fl where "map_of (h_workers h) g = Some pc" "map_of (h_flights h) g = Some fl"
    using books_okD(2) [OF b(1), of g] by auto
  from books_okD(3) [OF b(1) this] b(2) show False by (simp add: flight_ok_def)
qed

lemma probe_books: "books_ok m h \<Longrightarrow> probe s q h = (h', a) \<Longrightarrow> books_ok m h'"
  using launch_books fresh_worker
  by (auto simp: probe_def split: sum.splits option.splits prod.splits)

lemma caller_step_same:
  "h_workers (caller_step l h) = h_workers h" "h_flights (caller_step l h) = h_flights h"
  "h_inflight (caller_step l h) = h_inflight h" "h_free (caller_step l h) = h_free h"
  "h_next (caller_step l h) = h_next h"
  by (auto simp: caller_step_def caller_wake_def caller_check_def caller_read_def
      split: health_label.splits option.splits caller_pc.splits bool.splits)

lemma deliver_books:
  assumes "books_ok m h" "map_of (h_flights h) f = Some fl"
  shows "books_ok m (set_flight f (deliver pk fl) h)"
proof -
  obtain pc where pc: "map_of (h_workers h) f = Some pc"
    using books_okD(2) [OF assms(1), of f] assms(2) by auto
  have keep: "flight_key (deliver pk fl) = flight_key fl" "f_result (deliver pk fl) = f_result fl"
    "f_done (deliver pk fl) = f_done fl"
    by (simp_all add: deliver_def)
  show ?thesis
  proof (rule books_ok_worker [OF assms(1) pc assms(2)])
    show "h_workers (set_flight f (deliver pk fl) h) = AList.update f pc (h_workers h)"
      using update_same [OF pc] by simp
    show "flight_ok (set_flight f (deliver pk fl) h) f pc (deliver pk fl)"
      using books_okD(3) [OF assms(1) pc assms(2)] keep by (simp add: flight_ok_def)
  qed (simp_all add: keep)
qed

lemma health_step_books: "books_ok m h \<Longrightarrow> books_ok m (health_step s h l)"
proof -
  assume b: "books_ok m h"
  have w: "books_ok m (case (map_of (h_workers h) f, map_of (h_flights h) f) of
      (Some pc, Some fl) \<Rightarrow> worker_step l pc fl h | _ \<Rightarrow> h)" if "worker_of l = Some f" for f
    using b that worker_step_books by (auto split: option.splits)
  show ?thesis
  proof (cases l)
    case (Probe c q)
    obtain h' a where p: "probe s q h = (h', a)" by fastforce
    note b' = probe_books [OF b p]
    have "books_ok m (set_caller c cp h')" for cp by (rule books_ok_cong [OF b']) simp_all
    then show ?thesis using b b' p Probe by (simp add: health_step_def split: answer.splits)
  next
    case (Deliver f pk)
    then show ?thesis using b deliver_books by (auto simp: health_step_def split: option.splits)
  next
    case (Lib_Set i r c)
    then show ?thesis using b by (simp add: health_step_def books_ok_def flight_ok_def)
  next
    case (Lib_Pop i r)
    then show ?thesis using b by (simp add: health_step_def books_ok_def flight_ok_def)
  qed (use w books_ok_cong [OF b caller_step_same] in \<open>auto simp: health_step_def worker_of_def\<close>)
qed

lemma health_run_snoc: "health_run s h (ls @ [l]) = health_step s (health_run s h ls) l"
  by (simp add: health_run_def)

lemma health_run_books: "books_ok m (health_run s (new_adapter m) ls)"
proof (induction ls rule: rev_induct)
  case Nil
  show ?case by (simp add: health_run_def new_adapter_def books_ok_def)
next
  case (snoc l ls)
  then show ?case by (simp add: health_run_snoc health_step_books)
qed

lemma inflight_listed:
  assumes "books_ok m h"
  shows "map_of (h_inflight h) (i, g) = Some f \<longleftrightarrow>
      (\<exists>pc fl. map_of (h_workers h) f = Some pc \<and> map_of (h_flights h) f = Some fl \<and> entered pc \<and>
         f_iface fl = i \<and> f_generation fl = g)"
proof
  note d = books_okD [OF assms]
  assume m: "map_of (h_inflight h) (i, g) = Some f"
  obtain fl where fl: "map_of (h_flights h) f = Some fl" "flight_key fl = (i, g)" using d(4) [OF m] by blast
  moreover obtain pc where pc: "map_of (h_workers h) f = Some pc" using d(2) [of f] fl(1) by auto
  ultimately show "\<exists>pc fl. map_of (h_workers h) f = Some pc \<and> map_of (h_flights h) f = Some fl \<and> entered pc \<and>
         f_iface fl = i \<and> f_generation fl = g"
    using d(3) [OF pc fl(1)] m by (auto simp: flight_ok_def flight_key_def)
next
  assume "\<exists>pc fl. map_of (h_workers h) f = Some pc \<and> map_of (h_flights h) f = Some fl \<and> entered pc \<and>
         f_iface fl = i \<and> f_generation fl = g"
  then show "map_of (h_inflight h) (i, g) = Some f"
    using books_okD(3) [OF assms] by (auto simp: flight_ok_def flight_key_def)
qed

text \<open>
  C28. The slots of the probe workers are conserved in every interleaving of callers, workers, the
  reader thread and library faults: free slots and workers that have not released theirs add up to
  \<open>max_workers\<close>; the adapter lists exactly the flights whose worker has not finished, each under its
  interface and generation, so at most one per pair; and \<open>has_inflight\<close> tells whether there is one.
\<close>

theorem probe_slots_conserved:
  "let h = health_run s (new_adapter m) ls in
   h_free h + length (filter (\<lambda>(f, pc). holding pc) (h_workers h)) = m \<and>
   (map_of (h_inflight h) (i, g) = Some f \<longleftrightarrow>
     (\<exists>pc fl. map_of (h_workers h) f = Some pc \<and> map_of (h_flights h) f = Some fl \<and> entered pc \<and>
        f_iface fl = i \<and> f_generation fl = g)) \<and>
   has_inflight h = (\<exists>f pc. map_of (h_workers h) f = Some pc \<and> entered pc)"
proof -
  define h where "h = health_run s (new_adapter m) ls"
  have b: "books_ok m h" unfolding h_def by (rule health_run_books)
  note d = books_okD [OF b] and listed = inflight_listed [OF b]
  have "(\<exists>k f. map_of (h_inflight h) k = Some f) \<longleftrightarrow> (\<exists>f pc. map_of (h_workers h) f = Some pc \<and> entered pc)"
    using listed d(2) by (metis not_Some_eq surj_pair)
  moreover have "has_inflight h \<longleftrightarrow> (\<exists>k f. map_of (h_inflight h) k = Some f)"
    unfolding has_inflight_def by (metis map_of_eq_empty_iff not_Some_eq ext)
  ultimately show ?thesis using d(1) listed [of i g f] unfolding Let_def h_def [symmetric] by blast
qed

end
