(* ===== verification/Health_Props.thy ===== *)
theory Health_Props
  imports Health_Books
begin

text \<open>
  What a \<open>VERIFIED\<close> result of the health adapter is worth, which handlers the adapter removes, and how
  long a caller waits.
\<close>

subsection \<open>The matching answer\<close>

text \<open>What the documentation calls the matching metadata response.\<close>

definition metadata_answer :: "probe_spec \<Rightarrow> (string \<times> json) list \<Rightarrow> radio_metadata \<Rightarrow> bool" where
  "metadata_answer sp attrs md =
     (\<exists>fw. obj_get attrs ''firmware_version'' = JStr fw \<and> py_strip fw \<noteq> [] \<and> firmware_version md = py_strip fw \<and>
        obj_get attrs ''device_state_version'' = JInt (device_state_version md) \<and> 0 \<le> device_state_version md \<and>
        obj_get attrs ''hw_model'' = JInt (hardware_model md) \<and> 0 < hardware_model md \<and>
        (expected_hardware_model sp = None \<or> expected_hardware_model sp = Some (hardware_model md)))"

definition matching_answer :: "probe_spec \<Rightarrow> int \<Rightarrow> packet_value \<Rightarrow> radio_metadata \<Rightarrow> bool" where
  "matching_answer sp i pk md =
     (\<exists>p decoded admin attrs. pk = Dict p \<and>
        plain_uint32 (packet_get p ''from'') = Some (expected_node_num sp) \<and>
        packet_get p ''decoded'' = Dict decoded \<and> plain_uint32 (packet_get decoded ''requestId'') = Some i \<and>
        packet_get decoded ''portnum'' = Plain (JStr ''ADMIN_APP'') \<and> packet_get decoded ''admin'' = Dict admin \<and>
        packet_get admin ''raw'' = Protobuf (Some True) attrs \<and> metadata_answer sp attrs md)"

lemma flight_result_fields [simp]:
  "r_outcome (flight_result fl now oc d) = oc" "r_metadata (flight_result fl now oc d) = None"
  "r_packet_id (flight_result fl now oc d) = f_packet fl"
  by (simp_all add: flight_result_def)

lemma plain_result_fields [simp]: "r_outcome (plain_result t now oc d) = oc"
  by (simp add: plain_result_def)

lemma validate_metadata_verified:
  assumes "r_outcome (validate_metadata fl now attrs) = Verified"
  shows "\<exists>md. r_metadata (validate_metadata fl now attrs) = Some md \<and> metadata_answer (f_spec fl) attrs md"
proof -
  obtain fw where fw: "obj_get attrs ''firmware_version'' = JStr fw" "py_strip fw \<noteq> []"
    using assms by (auto simp: validate_metadata_def Let_def split: json.splits if_splits)
  obtain v where v: "obj_get attrs ''device_state_version'' = JInt v" "0 \<le> v"
    using assms fw by (auto simp: validate_metadata_def nonnegative_int_def split: json.splits if_splits)
  obtain hw where hw: "obj_get attrs ''hw_model'' = JInt hw" "0 < hw"
    using assms fw v
    by (auto simp: validate_metadata_def nonnegative_int_def positive_int_def split: json.splits if_splits)
  show ?thesis
    using assms fw v hw
    by (auto simp: validate_metadata_def nonnegative_int_def positive_int_def metadata_answer_def split: if_splits)
qed

lemma validate_routing_verified [simp]: "r_outcome (validate_routing fl now v) \<noteq> Verified"
  by (auto simp: validate_routing_def split: packet_value.splits json.splits)

lemma validate_packet_id [simp]: "r_packet_id (validate_response fl now pk) = f_packet fl"
  by (auto simp: validate_response_def validate_routing_def validate_admin_def validate_metadata_def Let_def
      split: packet_value.splits json.splits option.splits)

lemma validate_response_verified:
  assumes "f_packet fl = Some i" "r_outcome (validate_response fl now pk) = Verified"
  shows "\<exists>md. r_metadata (validate_response fl now pk) = Some md \<and> matching_answer (f_spec fl) i pk md"
proof -
  obtain p where p: "pk = Dict p" "plain_uint32 (packet_get p ''from'') = Some (expected_node_num (f_spec fl))"
    using assms(2) by (auto simp: validate_response_def Let_def split: packet_value.splits if_splits)
  obtain d where d: "packet_get p ''decoded'' = Dict d" "plain_uint32 (packet_get d ''requestId'') = Some i"
    using assms p by (auto simp: validate_response_def Let_def split: packet_value.splits if_splits)
  have port: "packet_get d ''portnum'' = Plain (JStr ''ADMIN_APP'')"
    using assms p d by (auto simp: validate_response_def Let_def split: if_splits)
  have eq: "validate_response fl now pk = validate_admin fl now (packet_get d ''admin'')"
    using assms(1) p d port by (simp add: validate_response_def)
  obtain admin attrs where a: "packet_get d ''admin'' = Dict admin"
    "packet_get admin ''raw'' = Protobuf (Some True) attrs"
    "validate_admin fl now (packet_get d ''admin'') = validate_metadata fl now attrs"
    using assms(2) unfolding eq
    by (auto simp: validate_admin_def Let_def split: packet_value.splits if_splits)
  show ?thesis
    using assms(2) validate_metadata_verified [of fl now attrs] p d port a
    unfolding eq matching_answer_def by auto
qed

subsection \<open>The story of a flight\<close>

text \<open>What must have happened for the flight to have this result.\<close>

definition asked :: "health_label list \<Rightarrow> nat \<Rightarrow> int \<Rightarrow> bool" where
  "asked ls f i = (\<exists>t0 j t1. subseq [Worker_Begin f (Some True) Message_Ready t0, Worker_Sent f (Sent j) t1] ls \<and>
     uint32 j = Some i)"

definition genuine :: "health_label list \<Rightarrow> nat \<Rightarrow> probe_spec \<Rightarrow> health_result \<Rightarrow> bool" where
  "genuine ls f sp r =
     (\<exists>t0 j t1 t2 i pk md.
        subseq [Worker_Begin f (Some True) Message_Ready t0, Worker_Sent f (Sent j) t1, Worker_Judge f (Some True) t2] ls \<and>
        uint32 j = Some i \<and> r_packet_id r = Some i \<and> Deliver f pk \<in> set ls \<and>
        r_metadata r = Some md \<and> matching_answer sp i pk md)"

fun phase_ok :: "health_label list \<Rightarrow> nat \<Rightarrow> flight \<Rightarrow> worker_pc \<Rightarrow> bool" where
  "phase_ok ls f fl W_Sending = (\<exists>t. Worker_Begin f (Some True) Message_Ready t \<in> set ls)"
| "phase_ok ls f fl W_Waiting = (\<exists>i. f_packet fl = Some i \<and> asked ls f i)"
| "phase_ok ls f fl W_Judging = ((\<exists>i. f_packet fl = Some i \<and> asked ls f i) \<and> f_response fl \<noteq> None)"
| "phase_ok ls f fl (W_Clean r) = (r_outcome r = Verified \<longrightarrow> genuine ls f (f_spec fl) r)"
| "phase_ok ls f fl (W_Pop r) = (r_outcome r = Verified \<longrightarrow> genuine ls f (f_spec fl) r)"
| "phase_ok ls f fl _ = True"

definition told :: "health_label list \<Rightarrow> nat \<Rightarrow> flight \<Rightarrow> bool" where
  "told ls f fl =
     ((\<forall>pk. f_response fl = Some pk \<longrightarrow> Deliver f pk \<in> set ls) \<and>
      (\<forall>r. f_result fl = Some r \<longrightarrow> r_outcome r = Verified \<longrightarrow> genuine ls f (f_spec fl) r))"

text \<open>The flight was asked for by this caller, with the same specification.\<close>

definition joined :: "string \<Rightarrow> health_label list \<Rightarrow> adapter \<Rightarrow> nat \<Rightarrow> nat \<Rightarrow> bool" where
  "joined s ls h c f =
     (\<exists>q timeout fl. Probe c q \<in> set ls \<and> map_of (h_flights h) f = Some fl \<and> f_iface fl = q_iface q \<and>
        f_generation fl = q_generation q \<and> admit s q = Inr (timeout, f_spec fl))"

definition limited :: "string \<Rightarrow> health_label list \<Rightarrow> nat \<Rightarrow> time \<Rightarrow> bool" where
  "limited s ls c t = (\<exists>q timeout sp. Probe c q \<in> set ls \<and> admit s q = Inr (timeout, sp) \<and> t \<le> q_now q + timeout)"

fun caller_ok :: "string \<Rightarrow> health_label list \<Rightarrow> adapter \<Rightarrow> nat \<Rightarrow> caller_pc \<Rightarrow> bool" where
  "caller_ok s ls h c (C_Waiting f t) = (joined s ls h c f \<and> limited s ls c t)"
| "caller_ok s ls h c (C_Current f) = joined s ls h c f"
| "caller_ok s ls h c (C_Read f) = (joined s ls h c f \<and> (\<exists>u t. Caller_Check c u (Some True) t \<in> set ls))"
| "caller_ok s ls h c (C_Done r) =
     (r_outcome r = Verified \<longrightarrow>
        (\<exists>f fl. joined s ls h c f \<and> map_of (h_flights h) f = Some fl \<and> genuine ls f (f_spec fl) r \<and>
           (\<exists>u t. Caller_Check c u (Some True) t \<in> set ls)))"

definition story :: "string \<Rightarrow> health_label list \<Rightarrow> adapter \<Rightarrow> bool" where
  "story s ls h =
     ((\<forall>f pc fl. map_of (h_workers h) f = Some pc \<longrightarrow> map_of (h_flights h) f = Some fl \<longrightarrow>
         phase_ok ls f fl pc \<and> told ls f fl) \<and>
      (\<forall>c pc. map_of (h_callers h) c = Some pc \<longrightarrow> caller_ok s ls h c pc))"

lemma storyD:
  assumes "story s ls h"
  shows "map_of (h_workers h) f = Some pc \<Longrightarrow> map_of (h_flights h) f = Some fl \<Longrightarrow> phase_ok ls f fl pc \<and> told ls f fl"
    "map_of (h_callers h) c = Some cp \<Longrightarrow> caller_ok s ls h c cp"
  using assms unfolding story_def by blast+

lemma subseq_snoc_keep: "subseq xs ls \<Longrightarrow> subseq xs (ls @ [l])"
  by (rule subseq_rev_drop_many)

lemma asked_snoc: "asked ls f i \<Longrightarrow> asked (ls @ [l]) f i"
  unfolding asked_def using subseq_snoc_keep by blast

lemma genuine_snoc: "genuine ls f sp r \<Longrightarrow> genuine (ls @ [l]) f sp r"
  unfolding genuine_def by (metis UnI1 set_append subseq_snoc_keep)

lemma told_snoc: "told ls f fl \<Longrightarrow> told (ls @ [l]) f fl"
  using genuine_snoc by (auto simp: told_def)

lemma phase_snoc: "phase_ok ls f fl pc \<Longrightarrow> phase_ok (ls @ [l]) f fl pc"
  using genuine_snoc asked_snoc by (cases pc) auto

text \<open>Flights keep their interface, generation and specification.\<close>

definition same_flights :: "adapter \<Rightarrow> adapter \<Rightarrow> bool" where
  "same_flights h h' = (\<forall>f fl. map_of (h_flights h) f = Some fl \<longrightarrow>
     (\<exists>fl'. map_of (h_flights h') f = Some fl' \<and> flight_key fl' = flight_key fl \<and> f_spec fl' = f_spec fl))"

lemma joined_snoc: "same_flights h h' \<Longrightarrow> joined s ls h c f \<Longrightarrow> joined s (ls @ [l]) h' c f"
  unfolding joined_def same_flights_def flight_key_def by fastforce

lemma caller_snoc: "same_flights h h' \<Longrightarrow> caller_ok s ls h c pc \<Longrightarrow> caller_ok s (ls @ [l]) h' c pc"
proof (cases pc)
  case (C_Done r)
  assume a: "same_flights h h'" "caller_ok s ls h c pc"
  show ?thesis
    unfolding C_Done caller_ok.simps
  proof
    assume "r_outcome r = Verified"
    then obtain f fl where f: "joined s ls h c f" "map_of (h_flights h) f = Some fl" "genuine ls f (f_spec fl) r"
      "\<exists>u t. Caller_Check c u (Some True) t \<in> set ls"
      using a(2) C_Done by auto
    obtain fl' where "map_of (h_flights h') f = Some fl'" "f_spec fl' = f_spec fl"
      using a(1) f(2) unfolding same_flights_def by blast
    then show "\<exists>f fl. joined s (ls @ [l]) h' c f \<and> map_of (h_flights h') f = Some fl \<and>
        genuine (ls @ [l]) f (f_spec fl) r \<and> (\<exists>u t. Caller_Check c u (Some True) t \<in> set (ls @ [l]))"
      using f joined_snoc [OF a(1) f(1)] genuine_snoc by (metis UnI1 set_append)
  qed
qed (use joined_snoc in \<open>auto simp: limited_def\<close>)

lemma same_flights_refl: "h_flights h' = h_flights h \<Longrightarrow> same_flights h h'"
  by (simp add: same_flights_def)

lemma same_flights_update:
  assumes "map_of (h_flights h) f = Some fl" "h_flights h' = AList.update f fl' (h_flights h)"
    "flight_key fl' = flight_key fl" "f_spec fl' = f_spec fl"
  shows "same_flights h h'"
  using assms by (auto simp: same_flights_def dict_simps)

lemma story_keep:
  assumes "story s ls h" "h_flights h' = h_flights h" "h_workers h' = h_workers h" "h_callers h' = h_callers h"
  shows "story s (ls @ [l]) h'"
  using storyD [OF assms(1)] phase_snoc told_snoc caller_snoc [OF same_flights_refl [OF assms(2)]] assms(2-4)
  unfolding story_def by metis

text \<open>One worker and its flight move.\<close>

lemma story_worker:
  assumes "story s ls h" "map_of (h_flights h) f = Some fl"
    "h_workers h' = AList.update f pc' (h_workers h)" "h_flights h' = AList.update f fl' (h_flights h)"
    "h_callers h' = h_callers h" "flight_key fl' = flight_key fl" "f_spec fl' = f_spec fl"
    "phase_ok (ls @ [l]) f fl' pc'" "told (ls @ [l]) f fl'"
  shows "story s (ls @ [l]) h'"
  unfolding story_def
proof (intro conjI allI impI)
  note same = same_flights_update [OF assms(2,4,6,7)]
  show "caller_ok s (ls @ [l]) h' c cp" if "map_of (h_callers h') c = Some cp" for c cp
    using that storyD(2) [OF assms(1)] caller_snoc [OF same] assms(5) by simp
  fix g qc gl
  assume a: "map_of (h_workers h') g = Some qc" "map_of (h_flights h') g = Some gl"
  have "phase_ok (ls @ [l]) g gl qc \<and> told (ls @ [l]) g gl"
  proof (cases "g = f")
    case True
    then show ?thesis using a assms(3,4,8,9) by (simp add: dict_simps)
  next
    case False
    then have "map_of (h_workers h) g = Some qc" "map_of (h_flights h) g = Some gl"
      using a assms(3,4) by (simp_all add: dict_simps)
    then show ?thesis using storyD(1) [OF assms(1)] phase_snoc told_snoc by blast
  qed
  then show "phase_ok (ls @ [l]) g gl qc" "told (ls @ [l]) g gl" by blast+
qed

text \<open>One caller moves.\<close>

lemma story_caller:
  assumes "story s ls h" "h_flights h' = h_flights h" "h_workers h' = h_workers h"
    "h_callers h' = AList.update c cp (h_callers h)" "caller_ok s (ls @ [l]) h' c cp"
  shows "story s (ls @ [l]) h'"
  unfolding story_def
proof (intro conjI allI impI)
  show "caller_ok s (ls @ [l]) h' e ep" if "map_of (h_callers h') e = Some ep" for e ep
    using that storyD(2) [OF assms(1)] caller_snoc [OF same_flights_refl [OF assms(2)]] assms(4,5)
    by (auto simp: dict_simps split: if_splits)
qed (use storyD(1) [OF assms(1)] phase_snoc told_snoc assms(2,3) in auto)

subsection \<open>Steps\<close>

lemma told_cong [simp]:
  "told ls f (fl\<lparr>f_callback := b\<rparr>) = told ls f fl" "told ls f (fl\<lparr>f_packet := p\<rparr>) = told ls f fl"
  "told ls f (fl\<lparr>f_done := d\<rparr>) = told ls f fl"
  by (simp_all add: told_def)

lemma begin_not_verified: "begin_result fl now cur msg = Some r \<Longrightarrow> r_outcome r \<noteq> Verified"
  by (auto simp: begin_result_def split: option.splits bool.splits message_outcome.splits)

lemma send_failure_not_verified [simp]: "r_outcome (send_failure fl now e) \<noteq> Verified"
  by (simp add: send_failure_def split: exn_class.splits)

lemma asked_sent:
  assumes "Worker_Begin f (Some True) Message_Ready t \<in> set ls" "uint32 j = Some i"
  shows "asked (ls @ [Worker_Sent f (Sent j) now]) f i"
proof -
  have "subseq [Worker_Begin f (Some True) Message_Ready t] ls" using assms(1) by (simp add: subseq_singleton_left)
  then have "subseq ([Worker_Begin f (Some True) Message_Ready t] @ [Worker_Sent f (Sent j) now])
      (ls @ [Worker_Sent f (Sent j) now])"
    by (rule list_emb_append_mono) simp
  then show ?thesis using assms(2) unfolding asked_def by auto
qed

lemma judgement_genuine:
  assumes "f_packet fl = Some i" "asked ls f i" "f_response fl = Some pk" "Deliver f pk \<in> set ls"
    "r_outcome (judgement fl cur now) = Verified"
  shows "genuine (ls @ [Worker_Judge f cur now]) f (f_spec fl) (judgement fl cur now)"
proof -
  have cur: "cur = Some True" using assms(5) by (auto simp: judgement_def split: option.splits bool.splits)
  then have j: "judgement fl cur now = validate_response fl now pk" using assms(3) by (simp add: judgement_def)
  obtain md where md: "r_metadata (validate_response fl now pk) = Some md" "matching_answer (f_spec fl) i pk md"
    using validate_response_verified [OF assms(1)] assms(5) j by metis
  obtain t0 a t1 where s: "subseq [Worker_Begin f (Some True) Message_Ready t0, Worker_Sent f (Sent a) t1] ls"
    "uint32 a = Some i"
    using assms(2) unfolding asked_def by blast
  have "subseq ([Worker_Begin f (Some True) Message_Ready t0, Worker_Sent f (Sent a) t1] @
      [Worker_Judge f (Some True) now]) (ls @ [Worker_Judge f (Some True) now])"
    by (rule list_emb_append_mono [OF s(1)]) simp
  moreover have "r_packet_id (judgement fl cur now) = Some i" using j assms(1) by simp
  moreover have "Deliver f pk \<in> set (ls @ [Worker_Judge f cur now])" using assms(4) by simp
  ultimately show ?thesis using s(2) md j cur unfolding genuine_def by auto
qed

lemma worker_step_story:
  assumes "story s ls h" "map_of (h_workers h) f = Some pc" "map_of (h_flights h) f = Some fl"
    "worker_of l = Some f"
  shows "story s (ls @ [l]) (worker_step l pc fl h)"
proof -
  let ?h = "worker_step l pc fl h"
  have ph: "phase_ok ls f fl pc" and td: "told (ls @ [l]) f fl" and td0: "told ls f fl"
    using storyD(1) [OF assms(1-3)] told_snoc by blast+
  have fl: "AList.update f fl (h_flights h) = h_flights h" by (rule update_same [OF assms(3)])
  note move = story_worker [OF assms(1,3)]
  have keep: "story s (ls @ [l]) h" by (rule story_keep [OF assms(1)]) simp_all
  show ?thesis
  proof (cases l)
    case (Worker_Begin g cur msg now)
    then have g: "g = f" using assms(4) by (simp add: worker_of_def)
    show ?thesis
    proof (cases "pc = W_Begin")
      case True
      let ?fl = "fl\<lparr>f_callback := True\<rparr>"
      define pc' where "pc' = (case begin_result ?fl now cur msg of Some r \<Rightarrow> W_Clean r | None \<Rightarrow> W_Sending)"
      have h: "?h = set_flight f ?fl (set_worker f pc' h)"
        using True Worker_Begin g by (simp add: worker_step_def worker_begin_def Let_def pc'_def split: option.splits)
      have "cur = Some True \<and> msg = Message_Ready" if "begin_result ?fl now cur msg = None"
        using that by (auto simp: begin_result_def split: option.splits bool.splits message_outcome.splits)
      then have "phase_ok (ls @ [l]) f ?fl pc'"
        using Worker_Begin g begin_not_verified by (auto simp: pc'_def split: option.splits)
      then show ?thesis unfolding h by (intro move [of _ pc' ?fl]) (simp_all add: td)
    qed (use keep Worker_Begin in \<open>simp add: worker_step_def\<close>)
  next
    case (Worker_Sent g out now)
    then have g: "g = f" using assms(4) by (simp add: worker_of_def)
    show ?thesis
    proof (cases "pc = W_Sending")
      case True
      show ?thesis
      proof (cases out)
        case (Raised e)
        show ?thesis
          by (rule move [of _ "W_Clean (send_failure fl now e)" fl])
            (use True Worker_Sent Raised g fl td in \<open>simp_all add: worker_step_def worker_sent_def\<close>)
      next
        case (Sent j)
        let ?fl = "fl\<lparr>f_packet := uint32 j\<rparr>"
        show ?thesis
        proof (cases "uint32 j")
          case None
          show ?thesis
            by (rule move [of _ "W_Clean (flight_result ?fl now Unsupported ''metadata_request_packet_id_invalid'')" ?fl])
              (use True Worker_Sent Sent g td None in \<open>simp_all add: worker_step_def worker_sent_def Let_def flight_key_def\<close>)
        next
          case (Some i)
          obtain t where "Worker_Begin f (Some True) Message_Ready t \<in> set ls" using ph True by auto
          from asked_sent [OF this Some] have "asked (ls @ [l]) f i" using Worker_Sent Sent g by simp
          then show ?thesis
            by (intro move [of _ W_Waiting ?fl])
              (use True Worker_Sent Sent g td Some in \<open>simp_all add: worker_step_def worker_sent_def Let_def\<close>)
        qed
      qed
    qed (use keep Worker_Sent in \<open>simp add: worker_step_def\<close>)
  next
    case (Worker_Wait g now)
    then have g: "g = f" using assms(4) by (simp add: worker_of_def)
    have ph': "phase_ok (ls @ [l]) f fl pc" by (rule phase_snoc [OF ph])
    consider "?h = h" | "?h = set_worker f W_Judging h" "pc = W_Waiting" "f_response fl \<noteq> None"
      | "?h = set_worker f (W_Clean (flight_result fl now Timeout ''metadata_response_timeout'')) h"
      using Worker_Wait g
      by (cases "pc = W_Waiting"; cases "f_response fl"; cases "f_deadline fl \<le> now")
        (auto simp: worker_step_def worker_wait_def)
    then show ?thesis
    proof cases
      case 1
      then show ?thesis using keep by simp
    next
      case 2
      then show ?thesis using ph' fl td by (intro move [of _ W_Judging fl]) simp_all
    next
      case 3
      then show ?thesis using fl td
        by (intro move [of _ "W_Clean (flight_result fl now Timeout ''metadata_response_timeout'')" fl]) simp_all
    qed
  next
    case (Worker_Judge g cur now)
    then have g: "g = f" using assms(4) by (simp add: worker_of_def)
    show ?thesis
    proof (cases "pc = W_Judging")
      case True
      obtain i pk where i: "f_packet fl = Some i" "asked ls f i" "f_response fl = Some pk" using ph True by auto
      then have "Deliver f pk \<in> set ls" using td0 by (simp add: told_def)
      from judgement_genuine [OF i this] have "phase_ok (ls @ [l]) f fl (W_Clean (judgement fl cur now))"
        using Worker_Judge g by simp
      then show ?thesis
        by (intro move [of _ "W_Clean (judgement fl cur now)" fl])
          (use True Worker_Judge g fl td in \<open>simp_all add: worker_step_def\<close>)
    qed (use keep Worker_Judge in \<open>simp add: worker_step_def\<close>)
  next
    case (Worker_Fault g name now)
    then have g: "g = f" using assms(4) by (simp add: worker_of_def)
    show ?thesis
    proof (cases "pc \<in> {W_Begin, W_Sending, W_Waiting, W_Judging}")
      case True
      show ?thesis
        by (rule move [of _ "W_Clean (flight_result fl now Unsupported (fail_name ''health_adapter_failure'' name))"
              "fl\<lparr>f_callback := True\<rparr>"])
          (use True Worker_Fault g td in \<open>simp_all add: worker_step_def worker_fault_def\<close>)
    qed (use keep Worker_Fault in \<open>simp add: worker_step_def\<close>)
  next
    case (Finish g usable raises)
    then have g: "g = f" using assms(4) by (simp add: worker_of_def)
    have ph': "phase_ok (ls @ [l]) f fl pc" by (rule phase_snoc [OF ph])
    show ?thesis
    proof (cases pc)
      case (W_Clean r)
      show ?thesis
        by (rule move [of _ "W_Pop r" fl])
          (use W_Clean Finish g fl td ph' in \<open>simp_all add: worker_step_def finish_clean_def\<close>)
    next
      case (W_Pop r)
      have "told (ls @ [l]) f (fl\<lparr>f_result := Some r\<rparr>)" using td ph' W_Pop by (simp add: told_def)
      then show ?thesis
        by (intro move [of _ W_Release "fl\<lparr>f_result := Some r\<rparr>"])
          (use W_Pop Finish g in \<open>simp_all add: worker_step_def finish_pop_def Let_def\<close>)
    next
      case W_Release
      show ?thesis
        by (rule move [of _ W_Signal fl])
          (use W_Release Finish g fl td in \<open>simp_all add: worker_step_def finish_release_def\<close>)
    next
      case W_Signal
      show ?thesis
        by (rule move [of _ W_Gone "fl\<lparr>f_done := True\<rparr>"])
          (use W_Signal Finish g td in \<open>simp_all add: worker_step_def finish_signal_def\<close>)
    qed (use keep Finish in \<open>simp_all add: worker_step_def\<close>)
  qed (use assms(4) in \<open>simp_all add: worker_of_def\<close>)
qed

lemma probe_story:
  assumes "story s ls h" "books_ok m h" "probe s q h = (h', a)" "map_of (h_callers h) c = None"
  shows "case a of
      Answered r \<Rightarrow> h' = h \<and> r_outcome r \<noteq> Verified
    | Raises \<Rightarrow> h' = h
    | Waits f t \<Rightarrow> story s (ls @ [Probe c q]) h' \<and> joined s (ls @ [Probe c q]) h' c f \<and>
        limited s (ls @ [Probe c q]) c t"
proof (cases "admit s q")
  case (Inl x)
  have "r_outcome r \<noteq> Verified" if "x = Some r" for r
    using that Inl by (auto simp: admit_def Let_def split: sum.splits option.splits if_splits)
  then show ?thesis using Inl assms(3) by (auto simp: probe_def split: option.splits)
next
  case (Inr b)
  obtain timeout spec where ad: "admit s q = Inr (timeout, spec)" using Inr by (cases b) simp
  have lim: "limited s (ls @ [Probe c q]) c (wait_until q timeout fl)" for fl
    using ad by (auto simp: limited_def wait_until_def)
  show ?thesis
  proof (cases "map_of (h_inflight h) (q_iface q, q_generation q)")
    case (Some f)
    obtain fl where fl: "map_of (h_flights h) f = Some fl" "flight_key fl = (q_iface q, q_generation q)"
      using books_okD(4) [OF assms(2) Some] by blast
    have p: "h' = h" "a = join_flight q timeout spec f h" using assms(3) ad Some by (auto simp: probe_def)
    have "joined s (ls @ [Probe c q]) h c f" if "f_spec fl = spec"
      using fl ad that unfolding joined_def flight_key_def by auto
    moreover have "story s (ls @ [Probe c q]) h" by (rule story_keep [OF assms(1)]) simp_all
    ultimately show ?thesis using p fl(1) lim by (auto simp: join_flight_def)
  next
    case None
    have p: "launch_flight q timeout spec h = (h', a)" using assms(3) ad None by (simp add: probe_def)
    show ?thesis
    proof (cases "queue_precheck q = None \<and> h_free h \<noteq> 0 \<and> q_start_error q = None")
      case False
      have "r_outcome r \<noteq> Verified" if "queue_precheck q = Some r" for r
        using that by (auto simp: queue_precheck_def split: option.splits if_splits)
      then show ?thesis using False p
        by (auto simp: launch_flight_def split: option.splits if_splits)
    next
      case True
      let ?f = "h_next h" and ?fl = "new_flight q timeout spec"
      have h': "h_flights h' = AList.update ?f ?fl (h_flights h)" "h_callers h' = h_callers h"
        "h_workers h' = AList.update ?f W_Begin (h_workers h)" "a = Waits ?f (wait_until q timeout ?fl)"
        using True p by (auto simp: launch_flight_def Let_def split: option.splits)
      have new: "map_of (h_flights h) ?f = None"
        using books_okD(2) [OF assms(2), of ?f] fresh_worker [OF assms(2), of ?f] by simp
      have same: "same_flights h h'" using new h'(1) by (auto simp: same_flights_def dict_simps)
      have "story s (ls @ [Probe c q]) h'"
        unfolding story_def
      proof (intro conjI allI impI)
        show "caller_ok s (ls @ [Probe c q]) h' e ep" if "map_of (h_callers h') e = Some ep" for e ep
          using that storyD(2) [OF assms(1)] caller_snoc [OF same] h'(2) by simp
        fix g pc gl
        assume "map_of (h_workers h') g = Some pc" "map_of (h_flights h') g = Some gl"
        then have "g = ?f \<and> pc = W_Begin \<and> gl = ?fl \<or>
            map_of (h_workers h) g = Some pc \<and> map_of (h_flights h) g = Some gl"
          unfolding h'(1,3) by (auto simp: dict_simps split: if_splits)
        then have "phase_ok (ls @ [Probe c q]) g gl pc \<and> told (ls @ [Probe c q]) g gl"
          using storyD(1) [OF assms(1)] phase_snoc told_snoc by (auto simp: told_def new_flight_def)
        then show "phase_ok (ls @ [Probe c q]) g gl pc" "told (ls @ [Probe c q]) g gl" by blast+
      qed
      moreover have "joined s (ls @ [Probe c q]) h' c ?f"
        unfolding joined_def h'(1) using ad by (auto simp: dict_simps new_flight_def)
      ultimately show ?thesis using h'(4) lim by simp
    qed
  qed
qed

lemma caller_step_story:
  assumes "story s ls h" "\<And>c q. l \<noteq> Probe c q"
    and results: "\<And>f fl r. map_of (h_flights h) f = Some fl \<Longrightarrow> f_result fl = Some r \<Longrightarrow> told ls f fl"
  shows "story s (ls @ [l]) (caller_step l h)"
proof -
  have keep: "story s (ls @ [l]) h" by (rule story_keep [OF assms(1)]) simp_all
  have join: "joined s (ls @ [l]) h' c f" if "joined s ls h c f" "h_flights h' = h_flights h" for h' c f
    by (rule joined_snoc [OF same_flights_refl [OF that(2)] that(1)])
  note move = story_caller [OF assms(1)]
  show ?thesis
  proof (cases l)
    case (Caller_Wake c now)
    show ?thesis
    proof (cases "\<exists>f t fl. map_of (h_callers h) c = Some (C_Waiting f t) \<and> map_of (h_flights h) f = Some fl \<and>
        (f_done fl \<or> t \<le> now)")
      case True
      then obtain f t where f: "map_of (h_callers h) c = Some (C_Waiting f t)"
        "caller_step l h = set_caller c (C_Current f) h"
        using Caller_Wake by (auto simp: caller_step_def caller_wake_def)
      have "joined s ls h c f" using storyD(2) [OF assms(1) f(1)] by simp
      then show ?thesis unfolding f(2) by (intro move [of _ c "C_Current f"]) (simp_all add: join)
    next
      case False
      then have "caller_step l h = h"
        using Caller_Wake by (auto simp: caller_step_def caller_wake_def split: option.splits caller_pc.splits)
      then show ?thesis using keep by simp
    qed
  next
    case (Caller_Check c usable cur now)
    show ?thesis
    proof (cases "\<exists>f fl. map_of (h_callers h) c = Some (C_Current f) \<and> map_of (h_flights h) f = Some fl")
      case True
      then obtain f fl where f: "map_of (h_callers h) c = Some (C_Current f)" "map_of (h_flights h) f = Some fl"
        by blast
      have j: "joined s ls h c f" using storyD(2) [OF assms(1) f(1)] by simp
      have step: "caller_step l h = caller_check c f usable cur now fl h"
        using Caller_Check f by (simp add: caller_step_def)
      show ?thesis
      proof (cases "cur = Some True")
        case True
        then have h: "caller_step l h = set_caller c (C_Read f) h" using step by (simp add: caller_check_def)
        have "Caller_Check c usable (Some True) now \<in> set (ls @ [l])" using Caller_Check True by simp
        then show ?thesis unfolding h using join [OF j]
          by (intro move [of _ c "C_Read f"]) (auto simp del: set_append)
      next
        case False
        then obtain r where "caller_step l h = set_caller c (C_Done r) (remove_own_handler usable f h)"
          "r_outcome r \<noteq> Verified"
          using step by (cases cur) (auto simp: caller_check_def)
        then show ?thesis by (intro move [of _ c "C_Done r"]) simp_all
      qed
    next
      case False
      then have "caller_step l h = h"
        using Caller_Check by (auto simp: caller_step_def split: option.splits caller_pc.splits)
      then show ?thesis using keep by simp
    qed
  next
    case (Caller_Read c usable now)
    show ?thesis
    proof (cases "\<exists>f fl. map_of (h_callers h) c = Some (C_Read f) \<and> map_of (h_flights h) f = Some fl")
      case True
      then obtain f fl where f: "map_of (h_callers h) c = Some (C_Read f)" "map_of (h_flights h) f = Some fl"
        by blast
      have ok: "joined s ls h c f" "\<exists>u t. Caller_Check c u (Some True) t \<in> set ls"
        using storyD(2) [OF assms(1) f(1)] by simp_all
      have step: "caller_step l h = caller_read c f usable now fl h"
        using Caller_Read f by (simp add: caller_step_def)
      obtain r where r: "h_flights (caller_step l h) = h_flights h" "h_workers (caller_step l h) = h_workers h"
        "h_callers (caller_step l h) = AList.update c (C_Done r) (h_callers h)"
        "f_result fl = Some r \<or> r_outcome r \<noteq> Verified"
      proof (cases "f_done fl \<and> f_result fl \<noteq> None")
        case True
        then obtain r where "f_done fl" "f_result fl = Some r" by auto
        then show ?thesis using that [of r] unfolding step by (simp add: caller_read_def)
      next
        case False
        let ?r = "flight_result fl now Timeout ''probe_deadline_exceeded''"
        have "caller_step l h = set_caller c (C_Done ?r)
            (if f_deadline fl \<le> now then remove_own_handler usable f h else h)"
          using False unfolding step by (auto simp: caller_read_def split: bool.splits option.splits)
        then show ?thesis using that [of ?r] by simp
      qed
      have "caller_ok s (ls @ [l]) (caller_step l h) c (C_Done r)"
        unfolding caller_ok.simps
      proof
        assume v: "r_outcome r = Verified"
        then have res: "f_result fl = Some r" using r(4) by blast
        have "genuine ls f (f_spec fl) r" using results [OF f(2) res] res v by (simp add: told_def)
        then have "genuine (ls @ [l]) f (f_spec fl) r" by (rule genuine_snoc)
        moreover have "\<exists>u t. Caller_Check c u (Some True) t \<in> set (ls @ [l])" using ok(2) by auto
        ultimately show "\<exists>f fl. joined s (ls @ [l]) (caller_step l h) c f \<and>
            map_of (h_flights (caller_step l h)) f = Some fl \<and> genuine (ls @ [l]) f (f_spec fl) r \<and>
            (\<exists>u t. Caller_Check c u (Some True) t \<in> set (ls @ [l]))"
          using join [OF ok(1) r(1)] f(2) r(1) by metis
      qed
      then show ?thesis by (rule move [OF r(1-3)])
    next
      case False
      then have "caller_step l h = h"
        using Caller_Read by (auto simp: caller_step_def split: option.splits caller_pc.splits)
      then show ?thesis using keep by simp
    qed
  qed (use keep in \<open>simp_all add: caller_step_def\<close>)
qed

lemma deliver_story:
  assumes "story s ls h" "books_ok m h" "map_of (h_flights h) f = Some fl"
  shows "story s (ls @ [Deliver f pk]) (set_flight f (deliver pk fl) h)"
proof -
  obtain pc where pc: "map_of (h_workers h) f = Some pc"
    using books_okD(2) [OF assms(2), of f] assms(3) by auto
  have old: "phase_ok (ls @ [Deliver f pk]) f fl pc" "told (ls @ [Deliver f pk]) f fl"
    using storyD(1) [OF assms(1) pc assms(3)] phase_snoc told_snoc by blast+
  have "phase_ok (ls @ [Deliver f pk]) f (deliver pk fl) pc" using old(1) by (cases pc) (auto simp: deliver_def)
  moreover have "told (ls @ [Deliver f pk]) f (deliver pk fl)" using old(2) by (auto simp: told_def deliver_def)
  ultimately show ?thesis
    by (intro story_worker [OF assms(1,3), of _ pc "deliver pk fl"])
      (simp_all add: update_same [OF pc] deliver_def flight_key_def)
qed

lemma health_step_story:
  assumes "story s ls h" "books_ok m h"
  shows "story s (ls @ [l]) (health_step s h l)"
proof -
  have keep: "story s (ls @ [l]) h" by (rule story_keep [OF assms(1)]) simp_all
  have res: "told ls f fl" if "map_of (h_flights h) f = Some fl" for f fl
    using that storyD(1) [OF assms(1)] books_okD(2) [OF assms(2), of f] by (metis not_Some_eq)
  have w: "story s (ls @ [l]) (case (map_of (h_workers h) f, map_of (h_flights h) f) of
      (Some pc, Some fl) \<Rightarrow> worker_step l pc fl h | _ \<Rightarrow> h)" if "worker_of l = Some f" for f
    using keep that worker_step_story [OF assms(1)] by (auto split: option.splits)
  show ?thesis
  proof (cases l)
    case (Probe c q)
    obtain h' a where p: "probe s q h = (h', a)" by fastforce
    show ?thesis
    proof (cases "map_of (h_callers h) c")
      case (Some x)
      then show ?thesis using keep Probe by (simp add: health_step_def)
    next
      case None
      note st = probe_story [OF assms p None]
      show ?thesis
      proof (cases a)
        case (Answered r)
        then have "h' = h" "r_outcome r \<noteq> Verified" using st by simp_all
        then show ?thesis using Probe None p Answered
          by (simp add: health_step_def) (intro story_caller [OF assms(1), of _ c "C_Done r"]; simp)
      next
        case (Waits f t)
        then have s': "story s (ls @ [l]) h'" "joined s (ls @ [l]) h' c f" "limited s (ls @ [l]) c t"
          using st Probe by simp_all
        have "story s (ls @ [l]) (set_caller c (C_Waiting f t) h')"
          unfolding story_def
        proof (intro conjI allI impI)
          show "caller_ok s (ls @ [l]) (set_caller c (C_Waiting f t) h') e ep"
            if "map_of (h_callers (set_caller c (C_Waiting f t) h')) e = Some ep" for e ep
          proof -
            have "caller_ok s (ls @ [l]) h' e ep"
              using that s' storyD(2) [OF s'(1)] by (auto simp: dict_simps split: if_splits)
            then show ?thesis by (cases ep) (simp_all add: joined_def)
          qed
        qed (use storyD(1) [OF s'(1)] in auto)
        then show ?thesis using Probe None p Waits by (simp add: health_step_def)
      next
        case Raises
        then show ?thesis using st keep Probe None p by (simp add: health_step_def)
      qed
    qed
  next
    case (Deliver f pk)
    show ?thesis
      using keep deliver_story [OF assms] Deliver by (auto simp: health_step_def split: option.splits)
  next
    case (Lib_Set i r c)
    then show ?thesis using story_keep [OF assms(1)] by (simp add: health_step_def)
  next
    case (Lib_Pop i r)
    then show ?thesis using story_keep [OF assms(1)] by (simp add: health_step_def)
  qed (use w caller_step_story [OF assms(1)] res in \<open>auto simp: health_step_def worker_of_def\<close>)
qed

lemma health_run_story: "story s ls (health_run s (new_adapter m) ls)"
proof (induction ls rule: rev_induct)
  case Nil
  show ?case by (simp add: health_run_def new_adapter_def story_def)
next
  case (snoc l ls)
  show ?case by (simp add: health_run_snoc health_step_story [OF snoc health_run_books])
qed

text \<open>
  C4. A \<open>VERIFIED\<close> result is worth what the documentation says, in every interleaving and whatever the
  library delivers: the flight was of the interface, the generation and the specification that the
  caller asked for; its worker found the generation current, sent the request, and found the generation current
  again after that; the library delivered to this flight a packet from the expected node
  that answers the packet id of this request with metadata, which are those of the result; and the
  caller itself found the generation current before it took the result.
\<close>

theorem verified_is_genuine:
  assumes "map_of (h_callers (health_run s (new_adapter m) ls)) c = Some (C_Done r)" "r_outcome r = Verified"
  shows "\<exists>f i q sp timeout pk md t0 j t1 t2 u t3.
     Probe c q \<in> set ls \<and> admit s q = Inr (timeout, sp) \<and>
     (\<exists>fl. map_of (h_flights (health_run s (new_adapter m) ls)) f = Some fl \<and> f_iface fl = q_iface q \<and>
        f_generation fl = q_generation q \<and> f_spec fl = sp) \<and>
     subseq [Worker_Begin f (Some True) Message_Ready t0, Worker_Sent f (Sent j) t1,
       Worker_Judge f (Some True) t2] ls \<and>
     uint32 j = Some i \<and> r_packet_id r = Some i \<and> Deliver f pk \<in> set ls \<and>
     matching_answer sp i pk md \<and> r_metadata r = Some md \<and>
     Caller_Check c u (Some True) t3 \<in> set ls"
proof -
  have "caller_ok s ls (health_run s (new_adapter m) ls) c (C_Done r)"
    by (rule storyD(2) [OF health_run_story assms(1)])
  then obtain f fl u t3 where f: "joined s ls (health_run s (new_adapter m) ls) c f"
    "map_of (h_flights (health_run s (new_adapter m) ls)) f = Some fl" "genuine ls f (f_spec fl) r"
    "Caller_Check c u (Some True) t3 \<in> set ls"
    using assms(2) by auto
  then show ?thesis unfolding joined_def genuine_def by (metis option.inject)
qed

definition probe_request :: request where
  "probe_request = \<lparr>q_iface = 1, q_generation = 4, q_timeout = JInt 5, q_callable = True, q_hashable = True,
     q_current = Some True, q_version = Some ''2.7.10'', q_send_admin = True, q_expected_node = JNull,
     q_local_node = JInt 77, q_expected_hardware = JNull, q_queue_free = Some (JInt 3), q_start_error = None,
     q_started = 0, q_now = 0\<rparr>"

definition good_packet :: packet_value where
  "good_packet = Dict [(''from'', Plain (JInt 77)), (''decoded'', Dict
     [(''requestId'', Plain (JInt 9)), (''portnum'', Plain (JStr ''ADMIN_APP'')), (''admin'', Dict [(''raw'',
       Protobuf (Some True) [(''firmware_version'', JStr ''2.5''), (''device_state_version'', JInt 23),
         (''hw_model'', JInt 43)])])])]"

definition probe_labels :: "health_label list" where
  "probe_labels = [Probe 1 probe_request, Worker_Begin 0 (Some True) Message_Ready 0, Probe 2 probe_request,
     Lib_Set 1 9 (Own 0), Lib_Set 1 8 (Foreign 5), Worker_Sent 0 (Sent (JInt 9)) 1, Deliver 0 good_packet,
     Worker_Wait 0 2, Worker_Judge 0 (Some True) 2, Finish 0 True False, Finish 0 True False,
     Finish 0 True False, Finish 0 True False, Caller_Wake 1 3, Caller_Check 1 True (Some True) 3,
     Caller_Read 1 True 3]"

definition probe_verified :: health_result where
  "probe_verified = \<lparr>r_outcome = Verified, r_detail = ''correlated_local_metadata_response'',
     r_packet_id = Some 9, r_metadata = Some \<lparr>firmware_version = ''2.5'', device_state_version = 23,
     hardware_model = 43\<rparr>, r_protocol_error = None, r_elapsed = 2\<rparr>"

lemma probe_labels_verified:
  "map_of (h_callers (health_run ''2.7.10'' (new_adapter 1) probe_labels)) 1 = Some (C_Done probe_verified)"
  by code_simp

lemma verified_is_genuine_witness:
  "\<exists>f i q sp timeout pk md t0 j t1 t2 u t3.
     Probe 1 q \<in> set probe_labels \<and> admit ''2.7.10'' q = Inr (timeout, sp) \<and>
     (\<exists>fl. map_of (h_flights (health_run ''2.7.10'' (new_adapter 1) probe_labels)) f = Some fl \<and>
        f_iface fl = q_iface q \<and> f_generation fl = q_generation q \<and> f_spec fl = sp) \<and>
     subseq [Worker_Begin f (Some True) Message_Ready t0, Worker_Sent f (Sent j) t1,
       Worker_Judge f (Some True) t2] probe_labels \<and>
     uint32 j = Some i \<and> r_packet_id probe_verified = Some i \<and> Deliver f pk \<in> set probe_labels \<and>
     matching_answer sp i pk md \<and> r_metadata probe_verified = Some md \<and>
     Caller_Check 1 u (Some True) t3 \<in> set probe_labels"
  by (rule verified_is_genuine [OF probe_labels_verified]) (simp add: probe_verified_def)

subsection \<open>Waiting and handlers\<close>

text \<open>
  C29. A caller never waits longer than its own timeout, whatever its flight does: the limit of its wait is at most
  the clock plus that timeout, and from the limit on three steps of the caller alone end in a result,
  even while the worker hangs inside the library.
\<close>

theorem caller_wait_bounded:
  assumes "map_of (h_callers (health_run s (new_adapter m) ls)) c = Some (C_Waiting f limit)" "limit \<le> now"
  shows "(\<exists>r. map_of (h_callers (health_run s (new_adapter m)
      (ls @ [Caller_Wake c now, Caller_Check c u cur t, Caller_Read c v t']))) c = Some (C_Done r)) \<and>
    (\<exists>q timeout sp. Probe c q \<in> set ls \<and> admit s q = Inr (timeout, sp) \<and> limit \<le> q_now q + timeout)"
proof -
  let ?h = "health_run s (new_adapter m) ls"
  have ok: "caller_ok s ls ?h c (C_Waiting f limit)" by (rule storyD(2) [OF health_run_story assms(1)])
  then have lim: "\<exists>q timeout sp. Probe c q \<in> set ls \<and> admit s q = Inr (timeout, sp) \<and> limit \<le> q_now q + timeout"
    by (simp add: limited_def)
  obtain fl where fl: "map_of (h_flights ?h) f = Some fl" using ok by (auto simp: joined_def)
  have wake: "health_step s ?h (Caller_Wake c now) = set_caller c (C_Current f) ?h"
    using assms fl by (simp add: health_step_def worker_of_def caller_step_def caller_wake_def)
  have read: "\<exists>r. map_of (h_callers (caller_read c f v t' fl h)) c = Some (C_Done r)" for h
    by (auto simp: caller_read_def dict_simps split: bool.splits option.splits)
  have "\<exists>r. map_of (h_callers (health_step s (health_step s (set_caller c (C_Current f) ?h)
      (Caller_Check c u cur t)) (Caller_Read c v t'))) c = Some (C_Done r)"
  proof (cases "cur = Some True")
    case True
    then show ?thesis using fl read
      by (simp add: health_step_def worker_of_def caller_step_def caller_check_def dict_simps)
  next
    case False
    then obtain r where "caller_check c f u cur t fl (set_caller c (C_Current f) ?h) =
        set_caller c (C_Done r) (remove_own_handler u f (set_caller c (C_Current f) ?h))"
      by (cases cur) (auto simp: caller_check_def)
    then show ?thesis using fl
      by (simp add: health_step_def worker_of_def caller_step_def dict_simps)
  qed
  then show ?thesis using wake lim by (simp add: health_run_def)
qed

lemma caller_wait_bounded_witness:
  "\<exists>r. map_of (h_callers (health_run ''2.7.10'' (new_adapter 1)
      (take 3 probe_labels @ [Caller_Wake 2 5, Caller_Check 2 True (Some True) 5, Caller_Read 2 True 5]))) 2 =
      Some (C_Done r)"
proof -
  have "map_of (h_callers (health_run ''2.7.10'' (new_adapter 1) (take 3 probe_labels))) 2 =
      Some (C_Waiting 0 5)"
    by code_simp
  from caller_wait_bounded [OF this] show ?thesis by blast
qed

text \<open>The adapter removes no handler of anybody else and changes none.\<close>

lemma handlers_distinct: "dict_ok (h_handlers (health_run s (new_adapter m) ls))"
proof (induction ls rule: rev_induct)
  case Nil
  show ?case by (simp add: health_run_def new_adapter_def)
next
  case (snoc l ls)
  have remove: "dict_ok (h_handlers (remove_own_handler u f h))" if "dict_ok (h_handlers h)" for u f h
    using that by (auto simp: remove_own_handler_def split: option.splits)
  have worker: "dict_ok (h_handlers (worker_step l pc fl h))" if "dict_ok (h_handlers h)" for pc fl h
    using that remove
    by (auto simp: worker_step_def worker_begin_def worker_sent_def worker_wait_def worker_fault_def
        finish_clean_def finish_pop_def finish_release_def finish_signal_def Let_def
        split: health_label.splits worker_pc.splits option.splits send_outcome.splits)
  have caller: "dict_ok (h_handlers (caller_step l h))" if "dict_ok (h_handlers h)" for h
    using that remove
    by (auto simp: caller_step_def caller_wake_def caller_check_def caller_read_def
        split: health_label.splits caller_pc.splits option.splits bool.splits)
  have probes: "h_handlers (fst (probe s q h)) = h_handlers h" for q h
    by (auto simp: probe_def launch_flight_def Let_def split: sum.splits option.splits prod.splits)
  show ?case
  proof (cases l)
    case (Probe c q)
    then show ?thesis using snoc probes [of q "health_run s (new_adapter m) ls"]
      by (auto simp: health_run_snoc health_step_def split: prod.splits answer.splits)
  next
    case (Deliver f pk)
    then show ?thesis using snoc by (auto simp: health_run_snoc health_step_def split: option.splits)
  qed (use snoc worker caller in \<open>auto simp: health_run_snoc health_step_def worker_of_def split: option.splits\<close>)
qed

lemma remove_own_foreign:
  assumes "dict_ok (h_handlers h)" "map_of (h_handlers h) k = Some (Foreign x)"
  shows "map_of (h_handlers (remove_own_handler u f h)) k = Some (Foreign x)"
proof -
  have "map_of (filter (\<lambda>((i, r), c). \<not> (i = j \<and> c = Own f)) (h_handlers h)) k = Some (Foreign x)" for j
    using assms by (simp add: map_of_filter_key split: prod.splits)
  moreover have "map_of (AList.delete e (h_handlers h)) k = Some (Foreign x)"
    if "map_of (h_handlers h) e = Some (Own f)" for e
    using assms(2) that by (auto simp: dict_simps simp del: map_of_eq_Some_iff)
  ultimately show ?thesis
    using assms(2) by (auto simp: remove_own_handler_def simp del: map_of_eq_Some_iff split: option.splits)
qed

lemma foreign_handlers_kept:
  fixes s m ls
  defines "h \<equiv> health_run s (new_adapter m) ls"
  assumes "map_of (h_handlers h) k = Some (Foreign x)" "\<And>i r c. l \<noteq> Lib_Set i r c" "\<And>i r. l \<noteq> Lib_Pop i r"
  shows "map_of (h_handlers (health_step s h l)) k = Some (Foreign x)"
proof -
  have remove: "map_of (h_handlers (remove_own_handler u f h)) k = Some (Foreign x)" for u f
    by (rule remove_own_foreign [OF _ assms(2)]) (simp add: h_def handlers_distinct)
  have worker: "map_of (h_handlers (worker_step l pc fl h)) k = Some (Foreign x)" for pc fl
    using remove assms(2)
    by (auto simp: worker_step_def worker_begin_def worker_sent_def worker_wait_def worker_fault_def
        finish_clean_def finish_pop_def finish_release_def finish_signal_def Let_def simp del: map_of_eq_Some_iff
        split: health_label.splits worker_pc.splits option.splits send_outcome.splits)
  have caller: "map_of (h_handlers (caller_step l h)) k = Some (Foreign x)"
    using remove assms(2)
    by (auto simp: caller_step_def caller_wake_def caller_check_def caller_read_def simp del: map_of_eq_Some_iff
        split: health_label.splits caller_pc.splits option.splits bool.splits)
  have probes: "h_handlers (fst (probe s q h)) = h_handlers h" for q
    by (auto simp: probe_def launch_flight_def Let_def split: sum.splits option.splits prod.splits)
  show ?thesis
  proof (cases l)
    case (Probe c q)
    then show ?thesis using assms(2) probes [of q]
      by (auto simp: health_step_def simp del: map_of_eq_Some_iff split: prod.splits answer.splits)
  next
    case (Deliver f pk)
    then show ?thesis using assms(2)
      by (auto simp: health_step_def simp del: map_of_eq_Some_iff split: option.splits)
  qed (use worker caller assms(2-4) in
      \<open>auto simp: health_step_def worker_of_def simp del: map_of_eq_Some_iff split: option.splits\<close>)
qed

end
