(* ===== verification/Spec2Isabelle.thy ===== *)
theory Spec2Isabelle
  imports Lora_Interleave Lora_Fec Lora_Crc Mtu_Text Supervisor_Machine Reset_Limiter Event_Bus
    Announce_Dispatch Internet_Probe Mesh_Bridge Auth_Sessions Sdr_Safety Sdr_Rotation Sdr_Races
    Rtl_Claims Hub_Props Migration_Path Migration_Props Plugin_Guarantees Packet_Recovery Health_Props
begin

text \<open>
  A verification development for ReticulumPi, a Python node for the Reticulum mesh network with radio
  decoders, gateways between mesh networks and a web dashboard.  File names below are relative to
  \<open>src/src/reticulumpi/\<close>.


  THE PROGRAM AND ITS PARTS

  The application loads plugins, orders them by their dependencies, starts them in that order, withdraws
  the dependents of a plugin that loses its readiness, and stops everything in the reverse order; it
  gives them shared services.  Radio plugins (FM receiver, spectrum
  scanner, aircraft and pager decoders) compete for a few SDR dongles; the SDR scheduler decides who holds
  which dongle and calls the plugins back to start and stop; the registry of RTL-SDR devices lists the
  dongles and gives out exclusive leases.  A plugin that holds a dongle runs an external
  decoder pipeline under the process supervisor, or decodes frames itself with the LoRa codec; radio
  gateways that find their radio stuck ask the reset limiter before they reset it.  The event bus
  carries notifications between plugins, among them the events of the SDR scheduler and of the internet
  probe.  The announce dispatcher feeds the announces of Reticulum to plugins.  The mesh bridge relays
  text between the Meshtastic and MeshCore networks and cuts it to the MTU of the target.  The Meshtastic
  gateway numbers and encrypts the packets that it sends over MQTT, and asks the attached radio for a
  sign of life.  The messaging hub
  keeps the history of all transports, queues what cannot be sent now and follows each message to its
  delivery.  The dashboard lets an operator in by a password and a session
  token.  Before a plugin starts, the schema migrations that it declares are applied to its databases.


  WHICH THEORY MODELS WHAT

  RPi_Prelude     values, association lists as Python dicts, filtered logs, queues and their
                  interface \<open>mailbox\<close>, the collections of hints
  Window_Limits   the interface \<open>sliding_limit\<close>: a log of times, a limit and a window
  Py_Text         \<open>int(s)\<close>, \<open>str(n)\<close>, \<open>strip\<close>, \<open>lower\<close> and hexadecimal text
  Py_Json         the values that \<open>json.loads\<close> returns

  plugin_base.py, and the plugin registry of app.py
    Plugin_Lifecycle   the state machine of one plugin, its cleanups and notifications
    Plugin_Order       \<open>_topo_sort_plugins\<close>: Tarjan's algorithm and the depth-first order
    Plugin_Cycles      what they compute
    Plugin_Registry    dependencies, startup, lost readiness, enabling, disabling, shutdown
    Plugin_Props, Plugin_Guarantees   what the registry guarantees, and runs where it does not

  sdr_scheduler.py
    Sdr_State      records of dongle, slot and registration; keys, canonical identities, aliases,
                   \<open>add_dongle\<close>, \<open>_ensure_dongle\<close> and the claims that need no callback
    Sdr_Select     \<open>_select_slot\<close> and what it calls: tiers, open windows, background rotation, locks
    Sdr_Handoff    \<open>_do_yield\<close>, \<open>_do_acquire\<close>, \<open>register\<close>, \<open>unregister\<close>, \<open>release\<close>
    Sdr_Machine    \<open>_scheduler_loop\<close> and the calling threads as labels of a run
    Sdr_Invariant, Sdr_Safety, Sdr_Rotation, Sdr_Races   what holds, and two runs where it does not

  rtlsdr.py
    Rtl_Inventory  the listing of \<open>rtl_test\<close>, its cache, resolution of a configured device
    Rtl_Claims     claims and leases, and what the registry guarantees

  builtin_plugins/messaging_hub.py
    Msg_Store      \<open>MessageStore\<close>: writing, status changes, reactions, pruning, every query
    Hub_Outbound   outbound queue, status updates, delivery tracking of the adapters, recovery
    Hub_Machine    \<open>send_message\<close>, \<open>_drain_outbound_queue\<close>, expiry and acknowledgements as threads whose
                   sections interleave
    Hub_Invariant, Hub_Safety, Hub_Delivery   who holds a message, what it carries, how rows change
    Hub_Props, Hub_Races   the properties, and runs where the code falls short of its documentation

  builtin_plugins/web_dashboard/auth.py
    Login_Limiter    address normalisation, \<open>RateLimiter\<close>, \<open>AuditThrottle\<close>
    Session_Store    the dict store, \<open>SQLiteSessionStore\<close>, the interface \<open>session_store\<close>
    Dashboard_Auth   password hashes, credential files, \<open>AuthManager\<close>
    Auth_Sessions    what \<open>AuthManager\<close> guarantees

  migrations.py, and the migration code of app.py
    Migration_Path   the checks of a database path
    Migration_Store  declarations, checksums, dry run, backup, application, recovery; \<open>run_db_migrations\<close>
    Migration_Props  what a call leaves behind

  process_supervisor.py
    Process_Supervisor   specifications, restart policy, launch and termination of one pipeline
    Supervisor_Machine   \<open>start\<close>, \<open>stop\<close>, \<open>notify_eof\<close> and the monitor thread as interleaved steps

  builtin_plugins/meshtastic_gateway.py, its packet ids
    Packet_Ids       \<open>_DurablePacketIdAllocator\<close>, its two files, the nonces; processes and crashes as labels
    Packet_Props     uniqueness of the nonces
    Packet_Recovery  what a later start finds

  meshtastic_health.py
    Health_Probe   admission, worker, callers, reader thread and validation as interleaved steps
    Health_Books   slots and entries of the workers
    Health_Props   what a verified result is worth, bounded waiting, handlers of others

  radio_recovery.py                   Reset_Limiter
  event_bus.py                        Event_Bus
  announce_dispatcher.py              Announce_Dispatch
  internet_probe.py                   Internet_Probe
  builtin_plugins/mesh_bridge.py      Mesh_Bridge
  mtu.py                              Mtu_Text
  builtin_plugins/lora_decode.py      Lora_Codec, with its properties in Lora_Interleave, Lora_Fec, Lora_Crc

  Definitions keep the names of the source.  A class is a record whose fields are its attributes, an
  operation takes the record and returns it updated with the result, and an exception is the left side of
  a sum or a constructor of its own.


  CONVENTIONS

  Outside world.  Clocks, random values, results of sockets, subprocesses and file operations are
  arguments of the operations, so that a theorem that quantifies over them holds for every behaviour
  of the environment; a file operation has a fate that says whether it raised and whether it took effect
  before.  Code of other packages (scrypt and SHA-256 of the standard C libraries, hashing of Reticulum,
  the matching of user regular expressions) is a function argument; what the code relies on is a named
  predicate on that argument (\<open>kdf_ok\<close>: the derived key has the requested length and consists of bytes),
  and a witness instantiates it.

  Threads.  A definition is one section in which the code holds its lock; where the code drops the
  lock, runs a callback or waits, the model has a program counter with the local variables, and a list of
  labels (or an inductive relation) is any interleaving of these sections.

  Time is an integer in an arbitrary unit where only comparisons matter; a float that the code only adds
  and compares is treated as exact.

  Ghosts.  \<open>transmitted\<close> in Hub_Machine, \<open>emitted\<close> and \<open>retired\<close> in Packet_Ids and the trace of Sdr_Machine
  record what happened; no guard reads them.

  Crashes.  A file has the content that is read now and the content that survives a loss of power; a
  write moves either or both (Packet_Ids).

  Identity.  Where the code compares objects by identity (a slot, a dongle state) the record carries a
  number that is never used twice (\<open>registration_id\<close>, \<open>d_uid\<close>).

  Loops.  The recursion of \<open>strong_connect\<close> and \<open>visit\<close> carries a number that starts at the number of plugins, one
  more for \<open>visit\<close>; it is enough, because each nested call enters a plugin not entered before (\<open>strong_connect_ok\<close>,
  \<open>visit_ok\<close>).  There is no other fuel beyond the bounds that the code's own \<open>for\<close> loops over
  ranges have.  The loops without such a bound have termination proofs: \<open>gray_loop\<close> (the shifted value
  shrinks), \<open>free_key\<close> (the search for an unused key stops after as many candidates as there are keys),
  \<open>lost_loop\<close> (each further round has blocked a ready plugin) and \<open>evict_sessions\<close>
  (each round removes a session or raises); \<open>show_hex\<close> shrinks its number.  \<open>_new_node_num\<close> draws until the
  number differs from the old one: the draws are a list, and a list that is too short means that the
  loop has not ended (\<open>initialize\<close> is \<open>None\<close>).


  INTERFACES

  \<open>sliding_limit\<close> (Window_Limits): granting only when a pruned log is shorter than a limit bounds the
  number of grants in every window.  Interpreted by the restart policy of the supervisor, the reset
  limiter, the relay breaker of the mesh bridge and the login limiter.
  \<open>mailbox\<close> (RPi_Prelude): a bounded queue keeps the order and never exceeds its bound.  Interpreted by the
  offload pool of the event bus and by the inbox and the subscribers of the announce dispatcher.
  \<open>session_store\<close> (Session_Store): reading after writing, deleting and listing.  Interpreted by the dict,
  by the SQLite table and by the sum of both that \<open>AuthManager\<close> uses; the properties of sessions are proved
  against the interface.
  \<open>delivery_tracker\<close> (Hub_Invariant): what the messaging hub relies on when it registers a message with an
  adapter.  Interpreted by \<open>track_pending\<close> of the LXMF, Meshtastic and MeshCore adapters and by the call
  through the hub.


  WHAT THE LEMMAS SHOW

  Plugins: a start order with exactly the cycles of hard dependencies found, a clean startup that starts everything, a
  ready plugin whose providers are ready and registered before it, losses that reach exactly the dependents,
  an orderly shutdown, a life cycle in which hung is final, and cleanups that run once.
  SDR scheduler: under every interleaving a dongle has at most one active slot, which is its holder's;
  locks are respected; a grant revoked while the plugin starts is undone; a device has one state under
  all its names; the winner is chosen by tier; the background rotation starves nobody.
  Device registry: two claims never share a device or an index, a stale lease releases nothing, and claiming
  refines a map from selections to the device they hold.
  Messaging hub: a queued message is always in exactly one place, is transmitted at most once and as it was
  written, statuses only move forward, every thread finishes, a restart recovers the oldest messages that
  are still valid, the history stays in order and pruning is fair to every bucket.
  Dashboard: a bounded rate of guesses per address, tokens only from logins, a session cap whose eviction
  hits the own address first, expiry, revocation on a password change, an equivalence of the stores, a round trip
  of the hash format, and a bootstrap password that survives interrupted starts.
  Migrations: a failed call leaves the file as it was, a successful one leaves the newest schema and a complete
  ledger, a dry run says what the run does, an interrupted run is resumed at the script that failed, and no
  symbolic link of another user is followed.
  Supervisor: no process is lost in any interleaving, a stop is final and the monitor leaves after it,
  launches are all or nothing, termination takes bounded time, restarts have a bounded rate.
  Reset limiter: a bounded rate of resets across process restarts, durable reservations, exact validation
  of the state file, and no reset for a window after damage.
  Event bus and dispatcher: handles match listeners, publication delivers to each listener once,
  subscribers do not affect one another, the breaker holds, shutdown is final.
  Mesh bridge: each message is accounted for once, routes are the configured ones, packets fit the MTU, a
  relayed text is never relayed again, and a breaker bounds the rate.
  Packet ids: no nonce is used twice by any processes, through failing writes, crashes and losses of
  power; a start after any of these succeeds; unsafe state stops it.
  Health probe: a verified result rests on a request of this flight, the matching answer of the
  expected node and three checks that the generation is current; worker slots are conserved; a caller waits no
  longer than its timeout.
  Internet probe: forced offline wins in every interleaving.
  LoRa codec: round trip of the interleaver, correction of a lost symbol, detection by the CRC.
  The closed theorems of Sdr_Races, Hub_Races, the ends of Migration_Props and Plugin_Guarantees, and single
  theorems of the other parts (\<open>late_online_event\<close>, \<open>refreshed_entry_evicted_first\<close>,
  \<open>start_fails_on_non_object\<close>, \<open>start_over_stopping_group\<close>, \<open>unsubscribe_all_keeps_direct\<close>) are runs in
  which the code does not do what its documentation says.


  NOT MODELLED

  Log messages, metrics and status dictionaries that are only displayed.  The command line, the request
  handlers of the dashboard, the plugins that drive a third-party library or parse the output of one external
  program: they consist of input and output around code that is not in this repository.
  In the modelled files: reading of a serial number from the operating system, thread creation and joining,
  and the SQL text (the table is a list of rows with the semantics of the statements used).
  Of the application: loading of plugin classes and of the configuration, the set-up of Reticulum and its
  identity, the reservations of serial ports, signals.  Of a plugin: its threads, its configuration and its
  metrics; its hooks are arguments that say what they return or raise.
  Of the Meshtastic gateway: the serial and MQTT traffic through the Meshtastic and MQTT libraries, the recovery of the
  firmware, forwarding to LXMF, channels and caches.
  In the messaging hub: the radio side of the adapters, schema migration, search, WAL checkpoints and the
  caches of summaries.  Of the migrations: the copying of bytes in a restore, whose outcome is an input.
\<close>

end
